(* ===== verification/Prelude.thy ===== *)
theory Prelude
  imports Main "HOL-Library.Word" "HOL-Library.Product_Lexorder"
begin

text \<open>
  The shared layer of the development: the machine types of the Go code, its
  error values, and the generic facts on lists, results and words that the component
  theories use. Go's \<open>uint64\<close> and \<open>uint32\<close> are words (arithmetic wraps), \<open>byte\<close> is an
  8-bit word, and \<open>int64\<close> and \<open>int\<close> are \<open>int\<close> where the code's guards keep every
  intermediate value in range (each such place says so).
\<close>

unbundle bit_operations_syntax

type_synonym u64 = "64 word"
type_synonym u32 = "32 word"
type_synonym byte = "8 word"
type_synonym bytes = "byte list"

section \<open>Errors\<close>

text \<open>
  The sentinel errors of the packages, and the two ways the code makes new ones:
  \<open>errors.New\<close> or \<open>fmt.Errorf\<close> without \<open>%w\<close> (\<open>Errorf\<close>), and \<open>fmt.Errorf\<close> with
  \<open>%w\<close> (\<open>Wrap\<close>). Messages are the constant part of the format string.
\<close>

datatype error =
    ErrNotFound
  | ErrPreconditionFailed
  | ErrDeviceClosed
  | ErrLeaseLost
  | ErrJournalConflict
  | ErrLocalJournal
  | ErrClaimTooSlow
  | ErrVolumeNotFound
  | EOF
  | ErrUnexpectedEOF
  | ErrShortWrite
  | Errno nat
  | HeldError string
  | ContextError
  | Errorf string
  | Wrap string error

type_synonym 'a result = "error + 'a"

text \<open>\<open>errors.Is\<close>: the error itself or any error it wraps.\<close>

fun errors_Is :: "error \<Rightarrow> error \<Rightarrow> bool" where
  "errors_Is (Wrap m e) t = (Wrap m e = t \<or> errors_Is e t)"
| "errors_Is e t = (e = t)"

fun is_ok :: "'a result \<Rightarrow> bool" where
  "is_ok (Inr x) = True"
| "is_ok (Inl e) = False"

text \<open>Sequencing of fallible code: the early return on \<open>err != nil\<close>.\<close>

definition bindR :: "'a result \<Rightarrow> ('a \<Rightarrow> 'b result) \<Rightarrow> 'b result" where
  "bindR r f = (case r of Inl e \<Rightarrow> Inl e | Inr x \<Rightarrow> f x)"

lemma bindR_simps [simp]: "bindR (Inl e) f = Inl e" "bindR (Inr x) f = f x"
  by (simp_all add: bindR_def)

lemma bindR_Inr [simp]: "bindR r f = Inr y \<longleftrightarrow> (\<exists>x. r = Inr x \<and> f x = Inr y)"
  by (cases r) auto

text \<open>An error that is replaced or wrapped on its way out.\<close>

lemma case_result_Inr:
  "(case r of Inl e \<Rightarrow> Inl (g e) | Inr x \<Rightarrow> f x) = Inr y \<longleftrightarrow> (\<exists>x. r = Inr x \<and> f x = Inr y)"
  by (cases r) auto

lemma if_error_Inr:
  "(if c then Inl e else r) = Inr y \<longleftrightarrow> \<not> c \<and> r = Inr y"
  by simp

lemmas result_Inr = case_result_Inr if_error_Inr

lemma bindR_cong [fundef_cong]:
  "r = r' \<Longrightarrow> (\<And>x. r' = Inr x \<Longrightarrow> f x = g x) \<Longrightarrow> bindR r f = bindR r' g"
  by (cases r') auto

text \<open>A loop over a list that returns at the first error.\<close>

fun mapR :: "('a \<Rightarrow> 'b result) \<Rightarrow> 'a list \<Rightarrow> 'b list result" where
  "mapR f [] = Inr []"
| "mapR f (x # xs) = bindR (f x) (\<lambda>y. bindR (mapR f xs) (\<lambda>ys. Inr (y # ys)))"

lemma mapR_Inr: "mapR f xs = Inr ys \<longleftrightarrow> list_all2 (\<lambda>x y. f x = Inr y) xs ys"
  by (induction xs arbitrary: ys) (auto simp: list_all2_Cons1)

lemma mapR_total: "(\<And>x. x \<in> set xs \<Longrightarrow> f x = Inr (g x)) \<Longrightarrow> mapR f xs = Inr (map g xs)"
  by (induction xs) auto

section \<open>Binary search\<close>

text \<open>
  \<open>sort.Search(n, f)\<close> of the Go library: the binary search for the least index at which
  \<open>f\<close> holds, assuming \<open>f\<close> is monotone.
\<close>

function search_loop :: "(nat \<Rightarrow> bool) \<Rightarrow> nat \<Rightarrow> nat \<Rightarrow> nat" where
  "search_loop f i j =
     (if i < j then
        let h = (i + j) div 2 in
        if \<not> f h then search_loop f (h + 1) j else search_loop f i h
      else i)"
  by pat_completeness auto
termination
  by (relation "measure (\<lambda>(f, i, j). j - i)") (auto simp: Let_def)

declare search_loop.simps [simp del]

definition sort_Search :: "nat \<Rightarrow> (nat \<Rightarrow> bool) \<Rightarrow> nat" where
  "sort_Search n f = search_loop f 0 n"

lemma search_loop_bounds: "i \<le> j \<Longrightarrow> i \<le> search_loop f i j \<and> search_loop f i j \<le> j"
proof (induction f i j rule: search_loop.induct)
  case (1 f i j)
  show ?case
  proof (cases "i < j")
    case True
    let ?h = "(i + j) div 2"
    have h: "i \<le> ?h" "?h < j" using True by auto
    show ?thesis
    proof (cases "f ?h")
      case f: True
      with True have "search_loop f i j = search_loop f i ?h"
        by (simp add: search_loop.simps [of f i j] Let_def)
      with "1.IH"(2) [OF True refl] f h show ?thesis by fastforce
    next
      case f: False
      with True have "search_loop f i j = search_loop f (?h + 1) j"
        by (simp add: search_loop.simps [of f i j] Let_def)
      with "1.IH"(1) [OF True refl] f h show ?thesis by fastforce
    qed
  next
    case False
    then have "search_loop f i j = i" by (subst search_loop.simps) simp
    with "1.prems" show ?thesis by simp
  qed
qed

lemma sort_Search_le: "sort_Search n f \<le> n"
  using search_loop_bounds [of 0 n f] by (simp add: sort_Search_def)

text \<open>
  For a monotone predicate, everything before the result fails it and everything from
  the result on satisfies it.
\<close>

lemma search_loop_mono:
  assumes "\<And>a b. a \<le> b \<Longrightarrow> b < n \<Longrightarrow> f a \<Longrightarrow> f b"
    and "i \<le> j" "j \<le> n" "\<And>k. k < i \<Longrightarrow> \<not> f k" "\<And>k. j \<le> k \<Longrightarrow> k < n \<Longrightarrow> f k"
  shows "(\<forall>k < search_loop f i j. \<not> f k) \<and> (\<forall>k. search_loop f i j \<le> k \<and> k < n \<longrightarrow> f k)"
  using assms
proof (induction f i j rule: search_loop.induct)
  case (1 f i j)
  show ?case
  proof (cases "i < j")
    case True
    let ?h = "(i + j) div 2"
    have h: "i \<le> ?h" "?h < j" "?h < n" using True "1.prems"(3) by auto
    show ?thesis
    proof (cases "f ?h")
      case f: True
      have hi: "f k" if "?h \<le> k" "k < n" for k
        using "1.prems"(1) [OF that] f by blast
      have "search_loop f i j = search_loop f i ?h"
        using True f by (simp add: search_loop.simps [of f i j] Let_def)
      moreover have "(\<forall>k < search_loop f i ?h. \<not> f k) \<and>
          (\<forall>k. search_loop f i ?h \<le> k \<and> k < n \<longrightarrow> f k)"
        using "1.prems"(1,4) h hi f True by (intro "1.IH"(2)) auto
      ultimately show ?thesis by simp
    next
      case f: False
      have lo: "\<not> f k" if "k < ?h + 1" for k
        using "1.prems"(1) [of k ?h] that h f by auto
      have "search_loop f i j = search_loop f (?h + 1) j"
        using True f by (simp add: search_loop.simps [of f i j] Let_def)
      moreover have "(\<forall>k < search_loop f (?h + 1) j. \<not> f k) \<and>
          (\<forall>k. search_loop f (?h + 1) j \<le> k \<and> k < n \<longrightarrow> f k)"
        using "1.prems"(1,3,5) h lo f True by (intro "1.IH"(1)) auto
      ultimately show ?thesis by simp
    qed
  next
    case False
    then have "search_loop f i j = i" by (subst search_loop.simps) simp
    with False "1.prems" show ?thesis by auto
  qed
qed

lemma sort_Search_mono:
  assumes "\<And>a b. a \<le> b \<Longrightarrow> b < n \<Longrightarrow> f a \<Longrightarrow> f b"
  shows "(\<forall>k < sort_Search n f. \<not> f k) \<and> (\<forall>k. sort_Search n f \<le> k \<and> k < n \<longrightarrow> f k)"
  using search_loop_mono [of n f 0 n] assms by (simp add: sort_Search_def)

section \<open>Words\<close>

lemma unat_u64: "unat (w::u64) < 2 ^ 64"
  using unsigned_less [of w] by simp

lemma unat_u32: "unat (w::u32) < 2 ^ 32"
  using unsigned_less [of w] by simp

lemma unat_of_nat64: "x < 2 ^ 64 \<Longrightarrow> unat (of_nat x :: u64) = x"
  by (simp add: unat_of_nat)

lemma unat_of_int64: "0 \<le> x \<Longrightarrow> x < 2 ^ 64 \<Longrightarrow> unat (word_of_int x :: u64) = nat x"
  by (simp add: unsigned_of_int take_bit_int_eq_self)

section \<open>Lists\<close>

lemma concat_uniform:
  "\<forall>x\<in>set xs. length (f x) = n \<Longrightarrow> i < length xs \<Longrightarrow>
     take n (drop (i * n) (concat (map f xs))) = f (xs ! i)"
proof (induction xs arbitrary: i)
  case (Cons x xs)
  then show ?case by (cases i) (auto simp: add.commute)
qed simp

end
