(* ===== verification/Bytes.thy ===== *)
theory Bytes
  imports Prelude
begin

text \<open>
  The parts of the Go library the replica code moves bytes with: \<open>encoding/binary\<close> in big
  endian, \<open>io.ReadFull\<close> on a stream, \<open>encoding/hex\<close>, and a regular file as the code uses
  it (\<open>ReadAt\<close>, \<open>WriteAt\<close>, hole punching), including writes that stop short with an error.
\<close>

section \<open>Big-endian integers\<close>

definition be_bytes :: "nat \<Rightarrow> 'a::len word \<Rightarrow> bytes" where
  "be_bytes n w = map (\<lambda>i. ucast (drop_bit (8 * i) w)) (rev [0..<n])"

definition of_be :: "bytes \<Rightarrow> 'a::len word" where
  "of_be bs = foldl (\<lambda>a b. push_bit 8 a OR ucast b) 0 bs"

definition PutUint64 :: "u64 \<Rightarrow> bytes" where
  "PutUint64 w = be_bytes 8 w"

definition PutUint32 :: "u32 \<Rightarrow> bytes" where
  "PutUint32 w = be_bytes 4 w"

definition Uint64 :: "bytes \<Rightarrow> u64" where
  "Uint64 bs = of_be bs"

definition Uint32 :: "bytes \<Rightarrow> u32" where
  "Uint32 bs = of_be bs"

section \<open>Streams\<close>

text \<open>
  A reader is the bytes it will still deliver and whether it then ends with \<open>io.EOF\<close>
  (otherwise with some other error, as a damaged gzip stream does).
\<close>

type_synonym stream = "bytes \<times> bool"

definition io_ReadFull :: "nat \<Rightarrow> stream \<Rightarrow> (bytes \<times> stream) result" where
  "io_ReadFull n s =
     (if n \<le> length (fst s) then Inr (take n (fst s), (drop n (fst s), snd s))
      else if \<not> snd s then Inl (Errorf ''corrupt stream'')
      else if fst s = [] then Inl EOF else Inl ErrUnexpectedEOF)"

section \<open>Hex\<close>

definition hex_digit :: "nat \<Rightarrow> char" where
  "hex_digit n = ''0123456789abcdef'' ! n"

definition hex_EncodeToString :: "bytes \<Rightarrow> string" where
  "hex_EncodeToString bs = concat (map (\<lambda>b. [hex_digit (unat b div 16), hex_digit (unat b mod 16)]) bs)"

section \<open>Files\<close>

text \<open>
  The content of a file as a function of the offset; offsets beyond what was written read
  as zero, which is what \<open>Truncate\<close> to the image size and hole punching give.
\<close>

type_synonym image = "nat \<Rightarrow> byte"

definition empty_image :: image where
  "empty_image = (\<lambda>_. 0)"

definition file_read :: "image \<Rightarrow> nat \<Rightarrow> nat \<Rightarrow> bytes" where
  "file_read img off n = map img [off..<off + n]"

definition file_write :: "image \<Rightarrow> nat \<Rightarrow> bytes \<Rightarrow> image" where
  "file_write img off p =
     (\<lambda>i. if off \<le> i \<and> i < off + length p then p ! (i - off) else img i)"

text \<open>
  What the operating system does to one call is not determined by the code: \<open>write_fails\<close>
  and \<open>read_fails\<close> say after how many bytes a \<open>WriteAt\<close> or \<open>ReadAt\<close> at an offset stops with
  an error (\<open>None\<close>: it completes), \<open>punch_fails\<close> whether \<open>fallocate\<close> refuses to punch a
  hole, and \<open>sync_fails\<close> whether \<open>fdatasync\<close> reports an error.
\<close>

record fileio =
  write_fails :: "nat \<Rightarrow> nat \<Rightarrow> nat option"
  read_fails :: "nat \<Rightarrow> nat \<Rightarrow> nat option"
  punch_fails :: "nat \<Rightarrow> nat \<Rightarrow> bool"
  sync_fails :: bool

definition file_WriteAt :: "fileio \<Rightarrow> image \<Rightarrow> bytes \<Rightarrow> nat \<Rightarrow> image \<times> nat \<times> error option" where
  "file_WriteAt io img p off =
     (case write_fails io off (length p) of
        None \<Rightarrow> (file_write img off p, length p, None)
      | Some k \<Rightarrow>
          let n = min k (length p - 1) in (file_write img off (take n p), n, Some (Errno 5)))"

text \<open>Reading into a buffer: on an error the rest of the buffer keeps its old bytes.\<close>

definition file_ReadAt :: "fileio \<Rightarrow> image \<Rightarrow> bytes \<Rightarrow> nat \<Rightarrow> bytes \<times> error option" where
  "file_ReadAt io img buf off =
     (case read_fails io off (length buf) of
        None \<Rightarrow> (file_read img off (length buf), None)
      | Some k \<Rightarrow>
          let n = min k (length buf) in (file_read img off n @ drop n buf, Some (Errno 5)))"

text \<open>A disk that completes every read and write.\<close>

definition sound_io :: "fileio \<Rightarrow> bool" where
  "sound_io io \<longleftrightarrow> (\<forall>off n. write_fails io off n = None \<and> read_fails io off n = None)"

definition sound_reads :: "fileio \<Rightarrow> bool" where
  "sound_reads io \<longleftrightarrow> (\<forall>off n. read_fails io off n = None)"

section \<open>Facts\<close>

named_theorems file_simps

lemma be_bytes_length [simp]: "length (be_bytes n w) = n"
  by (simp add: be_bytes_def)

lemma be_bytes_Suc: "be_bytes (Suc n) w = ucast (drop_bit (8 * n) w) # be_bytes n w"
  by (simp add: be_bytes_def)

lemma foldl_be:
  fixes w :: "'a::len word"
  shows "foldl (\<lambda>a b. push_bit 8 a OR ucast b) a (be_bytes n w) =
     push_bit (8 * n) a OR take_bit (8 * n) w"
proof (induction n arbitrary: a)
  case 0
  then show ?case by (simp add: be_bytes_def)
next
  case (Suc n)
  have "push_bit (8 * n) (push_bit 8 a OR ucast (ucast (drop_bit (8 * n) w) :: byte)) OR
      take_bit (8 * n) w = push_bit (8 * n + 8) a OR (take_bit (8 * n + 8) w :: 'a word)"
    by (rule bit_word_eqI) (auto simp: bit_simps)
  then show ?case
    by (simp only: be_bytes_Suc foldl_Cons Suc.IH mult_Suc_right add.commute [of 8])
qed

lemma of_be_be_bytes: "of_be (be_bytes n w) = take_bit (8 * n) w"
  by (simp add: of_be_def foldl_be)

lemma Uint64_Put [simp]: "Uint64 (PutUint64 w) = w"
  by (simp add: Uint64_def PutUint64_def of_be_be_bytes take_bit_word_eq_self)

lemma Uint32_Put [simp]: "Uint32 (PutUint32 w) = w"
  by (simp add: Uint32_def PutUint32_def of_be_be_bytes take_bit_word_eq_self)

lemma Put_length [simp]: "length (PutUint64 w) = 8" "length (PutUint32 v) = 4"
  by (simp_all add: PutUint64_def PutUint32_def)

lemma ReadFull_append [simp]:
  "length p = n \<Longrightarrow> io_ReadFull n (p @ s, eof) = Inr (p, (s, eof))"
  by (simp add: io_ReadFull_def)

lemma file_read_length [simp]: "length (file_read img off n) = n"
  by (simp add: file_read_def)

lemma file_read_nth [file_simps]: "i < n \<Longrightarrow> file_read img off n ! i = img (off + i)"
  by (simp add: file_read_def)

lemma file_write_out [file_simps]: "i < off \<or> off + length p \<le> i \<Longrightarrow> file_write img off p i = img i"
  by (auto simp: file_write_def)

lemma file_write_in [file_simps]:
  "off \<le> i \<Longrightarrow> i < off + length p \<Longrightarrow> file_write img off p i = p ! (i - off)"
  by (simp add: file_write_def)

lemma file_read_write_disjoint [file_simps]:
  "off + n \<le> off' \<or> off' + length p \<le> off \<Longrightarrow> file_read (file_write img off' p) off n = file_read img off n"
  by (auto simp: file_read_def file_write_def)

lemma file_read_write_within [file_simps]:
  "off' \<le> off \<Longrightarrow> off + n \<le> off' + length p \<Longrightarrow>
     file_read (file_write img off' p) off n = take n (drop (off - off') p)"
  by (rule nth_equalityI) (auto simp: file_read_def file_write_def)

lemma file_write_id: "file_write img off (file_read img off n) = img"
  by (auto simp: file_write_def file_read_def fun_eq_iff)

lemma file_WriteAt_sound [file_simps]:
  "sound_io io \<Longrightarrow> file_WriteAt io img p off = (file_write img off p, length p, None)"
  by (simp add: file_WriteAt_def sound_io_def)

lemma file_ReadAt_sound [file_simps]:
  "sound_reads io \<Longrightarrow> file_ReadAt io img buf off = (file_read img off (length buf), None)"
  by (simp add: file_ReadAt_def sound_reads_def)

lemma sound_io_reads: "sound_io io \<Longrightarrow> sound_reads io"
  by (simp add: sound_io_def sound_reads_def)

text \<open>Every write puts a prefix of the data at the offset, all of it when there is no error.\<close>

lemma file_WriteAt_cases:
  assumes "file_WriteAt io img p off = (img', n, err)"
  shows "img' = file_write img off (take n p)" "n \<le> length p" "err = None \<Longrightarrow> n = length p"
  using assms by (auto simp: file_WriteAt_def Let_def split: option.splits)

lemma file_ReadAt_length [simp]: "length (fst (file_ReadAt io img buf off)) = length buf"
  by (auto simp: file_ReadAt_def Let_def split: option.splits)

lemma file_write_Nil [simp]: "file_write img off [] = img"
  by (rule ext) (auto simp: file_write_def)

end
