(* ===== verification/Extents.thy ===== *)
theory Extents
  imports Prelude
begin

text \<open>
  The block-extent algebra of \<open>internal/replica/extents.go\<close> and the extent helpers of
  \<open>internal/replica/segment.go\<close>. An extent is a half-open range of 64-bit block
  numbers; lists of extents are the code's representation of sets of blocks. The model
  keeps the code's loops and its wrapping \<open>uint64\<close> arithmetic; the theorems relate every
  operation to the set of blocks it stands for.
\<close>

section \<open>Extents and the loops over them\<close>

datatype Extent = Extent (Start: u64) (Blocks: u64)

text \<open>\<open>func (e Extent) end() uint64\<close>: the addition wraps.\<close>

definition extent_end :: "Extent \<Rightarrow> u64" where
  "extent_end e = Start e + Blocks e"

text \<open>The order \<open>sort.Slice\<close> uses in \<open>normalizeExtents\<close>.\<close>

instantiation Extent :: linorder
begin

definition less_eq_Extent :: "Extent \<Rightarrow> Extent \<Rightarrow> bool" where
  "a \<le> b \<longleftrightarrow> (if Start a = Start b then Blocks a \<le> Blocks b else Start a < Start b)"

definition less_Extent :: "Extent \<Rightarrow> Extent \<Rightarrow> bool" where
  "a < b \<longleftrightarrow> (if Start a = Start b then Blocks a < Blocks b else Start a < Start b)"

instance
  by standard (auto simp: less_eq_Extent_def less_Extent_def Extent.expand split: if_splits)

end

fun validate_loop :: "nat \<Rightarrow> u64 \<Rightarrow> u64 \<Rightarrow> Extent list \<Rightarrow> u64 \<Rightarrow> u64 result" where
  "validate_loop i tot previousEnd [] maxBlocks = Inr tot"
| "validate_loop i tot previousEnd (extent # extents) maxBlocks =
     (let en = extent_end extent in
      if Blocks extent = 0 \<or> en < Start extent \<or> en > maxBlocks
      then Inl (Errorf ''invalid block extent at index'')
      else if i > 0 \<and> Start extent < previousEnd
      then Inl (Errorf ''block extents overlap or are not sorted'')
      else if tot > NOT 0 - Blocks extent
      then Inl (Errorf ''block extent count overflows'')
      else validate_loop (Suc i) (tot + Blocks extent) en extents maxBlocks)"

definition validateExtents :: "Extent list \<Rightarrow> u64 \<Rightarrow> u64 result" where
  "validateExtents extents maxBlocks = validate_loop 0 0 0 extents maxBlocks"

text \<open>
  \<open>extentsContain\<close>. The code's \<open>outerIndex\<close> only moves forward, so the model carries the
  suffix of \<open>outer\<close> it points at. The middle loop either returns false (\<open>None\<close>) or
  leaves the suffix for the next candidate.
\<close>

function contain_cursor :: "Extent list \<Rightarrow> u64 \<Rightarrow> u64 \<Rightarrow> Extent list option" where
  "contain_cursor outer cursor en =
     (if cursor < en then
        (case dropWhile (\<lambda>o'. extent_end o' \<le> cursor) outer of
           [] \<Rightarrow> None
         | o' # os \<Rightarrow>
             if Start o' > cursor then None
             else contain_cursor (o' # os) (min en (extent_end o')) en)
      else Some outer)"
  by pat_completeness auto
termination
proof (relation "measure (\<lambda>(outer, cursor, en). unat en - unat cursor)", simp)
  fix outer os :: "Extent list" and cursor en :: u64 and o'
  assume lt: "cursor < en"
    and d: "dropWhile (\<lambda>o'. extent_end o' \<le> cursor) outer = o' # os"
  from d have "\<not> extent_end o' \<le> cursor"
    by (metis (lifting) hd_dropWhile list.sel(1) list.distinct(1))
  with lt have "cursor < min en (extent_end o')" by simp
  then show "((o' # os, min en (extent_end o'), en), outer, cursor, en)
      \<in> measure (\<lambda>(outer, cursor, en). unat en - unat cursor)"
    using lt by (simp add: word_less_nat_alt)
qed

declare contain_cursor.simps [simp del]

fun extentsContain :: "Extent list \<Rightarrow> Extent list \<Rightarrow> bool" where
  "extentsContain outer [] = True"
| "extentsContain outer (candidate # inner) =
     (case contain_cursor outer (Start candidate) (extent_end candidate) of
        None \<Rightarrow> False
      | Some outer' \<Rightarrow> extentsContain outer' inner)"

text \<open>
  \<open>subtractExtents\<close>. The inner loop runs from \<open>removedIndex\<close> without moving it; it
  returns the final cursor and the pieces it appends.
\<close>

fun subtract_inner :: "Extent list \<Rightarrow> u64 \<Rightarrow> u64 \<Rightarrow> u64 \<times> Extent list" where
  "subtract_inner [] cursor en = (cursor, [])"
| "subtract_inner (r # rs) cursor en =
     (if \<not> Start r < en then (cursor, [])
      else
        let piece = (if Start r > cursor then [Extent cursor (min en (Start r) - cursor)] else []);
            cursor' = (if extent_end r > cursor then extent_end r else cursor)
        in if cursor' \<ge> en then (cursor', piece)
           else (let (c, pieces) = subtract_inner rs cursor' en in (c, piece @ pieces)))"

fun subtract_loop :: "Extent list \<Rightarrow> Extent list \<Rightarrow> Extent list" where
  "subtract_loop removed [] = []"
| "subtract_loop removed (extent # extents) =
     (let cursor = Start extent; en = extent_end extent;
          removed' = dropWhile (\<lambda>r. extent_end r \<le> cursor) removed;
          (c, pieces) = subtract_inner removed' cursor en
      in pieces @ (if c < en then [Extent c (en - c)] else []) @ subtract_loop removed' extents)"

definition subtractExtents :: "Extent list \<Rightarrow> Extent list \<Rightarrow> Extent list" where
  "subtractExtents extents removed =
     (if extents = [] \<or> removed = [] then extents
      else
        let removedIndex =
              sort_Search (length removed)
                (\<lambda>i. extent_end (removed ! i) > Start (hd extents))
        in subtract_loop (drop removedIndex removed) extents)"

text \<open>
  \<open>normalizeExtents\<close> sorts and then compacts in place: the write index never passes the
  read index, so the elements still to be read are the sorted ones and the prefix written
  so far is the result. \<open>appendExtent\<close> is the step both loops share.
\<close>

definition appendExtent :: "Extent list \<Rightarrow> Extent \<Rightarrow> Extent list" where
  "appendExtent result extent =
     (if Blocks extent = 0 then result
      else if result = [] \<or> extent_end (last result) < Start extent then result @ [extent]
      else if extent_end extent > extent_end (last result)
      then butlast result @
             [Extent (Start (last result)) (extent_end extent - Start (last result))]
      else result)"

definition normalizeExtents :: "Extent list \<Rightarrow> Extent list" where
  "normalizeExtents extents = foldl appendExtent [] (sort extents)"

fun union_loop :: "Extent list \<Rightarrow> Extent list \<Rightarrow> Extent list \<Rightarrow> Extent list" where
  "union_loop result [] [] = result"
| "union_loop result (l # left) [] = union_loop (appendExtent result l) left []"
| "union_loop result [] (r # right) = union_loop (appendExtent result r) [] right"
| "union_loop result (l # left) (r # right) =
     (if Start l \<le> Start r then union_loop (appendExtent result l) left (r # right)
      else union_loop (appendExtent result r) (l # left) right)"

definition unionExtents :: "Extent list \<Rightarrow> Extent list \<Rightarrow> Extent list" where
  "unionExtents left right =
     (if left = [] \<and> right = [] then []
      else union_loop [] left (normalizeExtents right))"

text \<open>\<open>intersectExtent\<close> and \<open>blocksToExtents\<close> of \<open>segment.go\<close>.\<close>

fun intersectExtent :: "Extent \<Rightarrow> Extent list \<Rightarrow> Extent list" where
  "intersectExtent target [] = []"
| "intersectExtent target (extent # extents) =
     (if extent_end extent \<le> Start target then intersectExtent target extents
      else if Start extent \<ge> extent_end target then []
      else
        let s = max (Start target) (Start extent); en = min (extent_end target) (extent_end extent)
        in (if s < en then [Extent s (en - s)] else []) @ intersectExtent target extents)"

definition push_block :: "Extent list \<Rightarrow> u64 \<Rightarrow> Extent list" where
  "push_block extents block =
     (if extents = [] \<or> extent_end (last extents) \<noteq> block then extents @ [Extent block 1]
      else butlast extents @ [Extent (Start (last extents)) (Blocks (last extents) + 1)])"

fun blocks_loop :: "Extent list \<Rightarrow> u64 list \<Rightarrow> Extent list" where
  "blocks_loop extents [] = extents"
| "blocks_loop extents (block # blocks) = blocks_loop (push_block extents block) blocks"

definition blocksToExtents :: "u64 list \<Rightarrow> Extent list" where
  "blocksToExtents blocks = blocks_loop [] blocks"

text \<open>
  \<open>byteRangeExtents\<close>: \<open>int64\<close> offsets. The guards leave \<open>0 \<le> off < size\<close> and
  \<open>0 < length \<le> size - off\<close>, so no intermediate value leaves the range of \<open>size\<close>.
\<close>

definition DefaultBlockSize :: int where
  "DefaultBlockSize = 4096"

definition byteRangeExtents :: "int \<Rightarrow> int \<Rightarrow> int \<Rightarrow> Extent list" where
  "byteRangeExtents off len sz =
     (if len \<le> 0 \<or> off < 0 \<or> off \<ge> sz then []
      else
        let len' = (if len > sz - off then sz - off else len);
            s = word_of_int (off div DefaultBlockSize);
            en = word_of_int ((off + len' - 1) div DefaultBlockSize) + 1
        in [Extent s (en - s)])"

section \<open>The set of blocks an extent list stands for\<close>

definition ext_set :: "Extent \<Rightarrow> u64 set" where
  "ext_set e = {b. Start e \<le> b \<and> b < extent_end e}"

definition exts_set :: "Extent list \<Rightarrow> u64 set" where
  "exts_set es = (\<Union>e\<in>set es. ext_set e)"

definition wf_extent :: "Extent \<Rightarrow> bool" where
  "wf_extent e \<longleftrightarrow> Start e < extent_end e"

text \<open>Sorted and disjoint; \<open>normal_extents\<close> also merges touching neighbours.\<close>

definition wf_extents :: "Extent list \<Rightarrow> bool" where
  "wf_extents es \<longleftrightarrow> list_all wf_extent es \<and> sorted_wrt (\<lambda>a b. extent_end a \<le> Start b) es"

definition normal_extents :: "Extent list \<Rightarrow> bool" where
  "normal_extents es \<longleftrightarrow> list_all wf_extent es \<and> sorted_wrt (\<lambda>a b. extent_end a < Start b) es"

text \<open>The inputs of the algebra: extents whose end does not wrap (empty ones allowed).\<close>

definition no_wrap :: "Extent list \<Rightarrow> bool" where
  "no_wrap es \<longleftrightarrow> list_all (\<lambda>e. Start e \<le> extent_end e) es"

text \<open>What \<open>appendExtent\<close> expects: extents arrive in the order of their starts.\<close>

definition append_ready :: "Extent list \<Rightarrow> Extent list \<Rightarrow> bool" where
  "append_ready res es \<longleftrightarrow> normal_extents res \<and>
     (\<forall>e\<in>set es. Start e \<le> extent_end e \<and> (res \<noteq> [] \<longrightarrow> Start (last res) \<le> Start e))"

section \<open>Basic facts\<close>

named_theorems ext_simps

lemma extent_end_mk [simp, ext_simps]: "extent_end (Extent c (e - c)) = e"
  by (simp add: extent_end_def)

lemma ext_set_mk [simp, ext_simps]: "ext_set (Extent c (e - c)) = {b. c \<le> b \<and> b < e}"
  by (simp add: ext_set_def)

lemma exts_set_simps [simp, ext_simps]:
  "exts_set [] = {}"
  "exts_set (e # es) = ext_set e \<union> exts_set es"
  "exts_set (es @ fs) = exts_set es \<union> exts_set fs"
  by (auto simp: exts_set_def)

lemma wf_extents_Nil [simp]: "wf_extents []"
  by (simp add: wf_extents_def)

lemma wf_extents_Cons:
  "wf_extents (e # es) \<longleftrightarrow>
     wf_extent e \<and> (\<forall>x\<in>set es. extent_end e \<le> Start x) \<and> wf_extents es"
  by (auto simp: wf_extents_def)

lemma wf_extents_append:
  "wf_extents (es @ fs) \<longleftrightarrow>
     wf_extents es \<and> wf_extents fs \<and> (\<forall>x\<in>set es. \<forall>y\<in>set fs. extent_end x \<le> Start y)"
  by (auto simp: wf_extents_def sorted_wrt_append)

lemma normal_imp_wf: "normal_extents es \<Longrightarrow> wf_extents es"
  unfolding normal_extents_def wf_extents_def
  by (auto elim: sorted_wrt_mono_rel [rotated])

lemma exts_set_memI: "e \<in> set es \<Longrightarrow> b \<in> ext_set e \<Longrightarrow> b \<in> exts_set es"
  by (auto simp: exts_set_def)

lemma wf_extents_tail_bound:
  "wf_extents (e # es) \<Longrightarrow> b \<in> exts_set es \<Longrightarrow> extent_end e \<le> b"
  by (auto simp: wf_extents_Cons exts_set_def ext_set_def intro: order_trans)

lemma wf_extents_drop: "wf_extents es \<Longrightarrow> wf_extents (drop n es)"
  by (metis append_take_drop_id wf_extents_append)

lemma wf_extents_dropWhile: "wf_extents es \<Longrightarrow> wf_extents (dropWhile P es)"
  by (metis dropWhile_eq_drop wf_extents_drop)

lemma wf_extent_nonempty: "wf_extent e \<Longrightarrow> ext_set e \<noteq> {}"
  by (auto simp: wf_extent_def ext_set_def)

lemma wf_exts_empty: "wf_extents es \<Longrightarrow> exts_set es = {} \<longleftrightarrow> es = []"
  by (cases es) (auto simp: wf_extents_Cons wf_extent_nonempty)

section \<open>Validation and counting\<close>

lemma wf_extent_alt: "wf_extent e \<longleftrightarrow> Blocks e \<noteq> 0 \<and> \<not> extent_end e < Start e"
  by (auto simp: wf_extent_def extent_end_def not_less order_less_le)

lemma unat_end: "wf_extent e \<Longrightarrow> unat (extent_end e) = unat (Start e) + unat (Blocks e)"
  unfolding wf_extent_def extent_end_def
  by (metis order_less_imp_le unat_plus_simple)

lemma word_interval_card: "card {b::u64. s \<le> b \<and> b < e} = unat e - unat s"
proof -
  have "bij_betw unat {b::u64. s \<le> b \<and> b < e} {unat s..<unat e}"
  proof (rule bij_betw_byWitness [where f' = of_nat])
    show "\<forall>k\<in>{unat s..<unat e}. unat (of_nat k :: u64) = k"
      using unat_u64 [of e] by (simp add: unat_of_nat)
    then show "of_nat ` {unat s..<unat e} \<subseteq> {b::u64. s \<le> b \<and> b < e}"
      by (clarsimp simp: word_le_nat_alt word_less_nat_alt)
    show "unat ` {b::u64. s \<le> b \<and> b < e} \<subseteq> {unat s..<unat e}"
      by (clarsimp simp: word_le_nat_alt word_less_nat_alt)
  qed simp
  then show ?thesis by (simp add: bij_betw_same_card)
qed

lemma card_ext_set: "wf_extent e \<Longrightarrow> card (ext_set e) = unat (Blocks e)"
  by (simp add: ext_set_def word_interval_card unat_end)

lemma card_exts_set: "wf_extents es \<Longrightarrow> card (exts_set es) = (\<Sum>e\<leftarrow>es. unat (Blocks e))"
proof (induction es)
  case (Cons e es)
  have "ext_set e \<inter> exts_set es = {}"
    using wf_extents_tail_bound [OF Cons.prems] by (fastforce simp: ext_set_def)
  with Cons show ?case
    by (simp add: wf_extents_Cons card_Un_disjoint card_ext_set)
qed simp

lemma exts_set_bounded:
  "wf_extents es \<Longrightarrow> exts_set es \<subseteq> {..<m} \<longleftrightarrow> list_all (\<lambda>e. extent_end e \<le> m) es"
proof -
  have one: "ext_set e \<subseteq> {..<m} \<longleftrightarrow> extent_end e \<le> m" if wf: "wf_extent e" for e
  proof
    assume sub: "ext_set e \<subseteq> {..<m}"
    from wf have "Start e \<in> ext_set e" by (simp add: wf_extent_def ext_set_def)
    with sub have "Start e < m" by auto
    moreover have "m \<notin> ext_set e" using sub by auto
    ultimately show "extent_end e \<le> m" by (simp add: ext_set_def not_less)
  qed (auto simp: ext_set_def)
  assume "wf_extents es"
  then show ?thesis
    by (auto simp: wf_extents_def list_all_iff exts_set_def one UN_subset_iff)
qed

lemma word_add_no_overflow:
  "(- 1 - b < (a::u64)) \<longleftrightarrow> 2 ^ 64 \<le> unat a + unat b"
proof -
  have "unat (- 1 - b :: u64) = 2 ^ 64 - 1 - unat b"
    by (subst unat_sub) (simp_all add: unsigned_minus_1_eq_mask mask_eq_exp_minus_1)
  then show ?thesis
    using unat_u64 [of a] unat_u64 [of b] by (simp add: word_less_nat_alt) linarith
qed


lemma validate_loop_Inr:
  "validate_loop i tot prev es m = Inr n \<longleftrightarrow>
     wf_extents es \<and> list_all (\<lambda>e. extent_end e \<le> m) es \<and>
     (i > 0 \<longrightarrow> list_all (\<lambda>e. prev \<le> Start e) es) \<and>
     unat tot + (\<Sum>e\<leftarrow>es. unat (Blocks e)) < 2 ^ 64 \<and> n = tot + (\<Sum>e\<leftarrow>es. Blocks e)"
proof (induction es arbitrary: i tot prev)
  case Nil
  then show ?case using unat_u64 [of tot] by auto
next
  case (Cons e es)
  have sum: "unat (tot + Blocks e) = unat tot + unat (Blocks e)"
    if "\<not> - 1 - Blocks e < tot"
    using that word_add_no_overflow [of "Blocks e" tot] by (simp add: unat_word_ariths)
  show ?case
  proof (cases "wf_extent e \<and> extent_end e \<le> m \<and> \<not> (i > 0 \<and> Start e < prev) \<and> \<not> - 1 - Blocks e < tot")
    case True
    then have prev: "(\<forall>x\<in>set es. extent_end e \<le> Start x) \<Longrightarrow> i > 0 \<Longrightarrow> x \<in> set es \<Longrightarrow> prev \<le> Start x" for x
      unfolding wf_extent_def by (meson le_less_trans not_less order.strict_implies_order order_trans)
    have "validate_loop i tot prev (e # es) m =
        validate_loop (Suc i) (tot + Blocks e) (extent_end e) es m"
      using True by (auto simp: Let_def wf_extent_alt)
    moreover have "unat (tot + Blocks e) = unat tot + unat (Blocks e)" using sum True by simp
    ultimately show ?thesis
      using True prev Cons.IH [of "Suc i" "tot + Blocks e" "extent_end e"]
      by (auto simp: wf_extents_Cons list_all_iff not_less add.assoc simp del: validate_loop.simps)
  next
    case False
    then show ?thesis
      by (auto simp: Let_def wf_extents_Cons wf_extent_alt list_all_iff word_add_no_overflow not_less)
  qed
qed


lemma validate_loop_no_overflow:
  "(i > 0 \<longrightarrow> unat tot \<le> unat prev) \<Longrightarrow> (i = 0 \<longrightarrow> tot = 0) \<Longrightarrow>
     validate_loop i tot prev es m \<noteq> Inl (Errorf ''block extent count overflows'')"
proof (induction es arbitrary: i tot prev)
  case (Cons e es)
  show ?case
  proof (cases "wf_extent e \<and> \<not> (i > 0 \<and> Start e < prev)")
    case True
    then have start: "unat tot \<le> unat (Start e)"
      using Cons.prems by (cases "i = 0") (auto simp: not_less word_le_nat_alt)
    then have le: "unat tot + unat (Blocks e) \<le> unat (extent_end e)"
      using True unat_end by simp
    then have ok: "\<not> - 1 - Blocks e < tot"
      using unat_u64 [of "extent_end e"] by (simp add: word_add_no_overflow)
    have "unat (tot + Blocks e) \<le> unat (extent_end e)"
      using le mod_less_eq_dividend order_trans unfolding unat_word_ariths by blast
    then have "validate_loop (Suc i) (tot + Blocks e) (extent_end e) es m
        \<noteq> Inl (Errorf ''block extent count overflows'')"
      by (intro Cons.IH) auto
    then show ?thesis using True ok by (auto simp: Let_def)
  qed (auto simp: Let_def wf_extent_alt)
qed simp

lemma validateExtents_Inr:
  "validateExtents es m = Inr n \<longleftrightarrow>
     wf_extents es \<and> exts_set es \<subseteq> {..<m} \<and> unat n = card (exts_set es)"
proof -
  have sum: "unat (\<Sum>e\<leftarrow>es. Blocks e) = (\<Sum>e\<leftarrow>es. unat (Blocks e))"
    if "(\<Sum>e\<leftarrow>es. unat (Blocks e)) < 2 ^ 64" for es :: "Extent list"
    using that by (induction es) (simp_all add: unat_word_ariths)
  have small: "card (exts_set es) < 2 ^ 64" if "exts_set es \<subseteq> {..<m}"
  proof -
    have "card (exts_set es) \<le> card {b::u64. 0 \<le> b \<and> b < m}"
      using that by (intro card_mono) auto
    also have "\<dots> = unat m" by (subst word_interval_card) simp
    finally show ?thesis using unat_u64 [of m] by simp
  qed
  show ?thesis
  proof (cases "wf_extents es \<and> exts_set es \<subseteq> {..<m}")
    case True
    then have lt: "(\<Sum>e\<leftarrow>es. unat (Blocks e)) < 2 ^ 64"
      using small card_exts_set by simp
    have "unat n = (\<Sum>e\<leftarrow>es. unat (Blocks e)) \<longleftrightarrow> n = (\<Sum>e\<leftarrow>es. Blocks e)"
      using sum [OF lt] by (metis unsigned_word_eqI)
    moreover have "list_all (\<lambda>e. extent_end e \<le> m) es"
      using True exts_set_bounded by blast
    ultimately show ?thesis
      using True lt by (simp add: validateExtents_def validate_loop_Inr card_exts_set)
  next
    case False
    then show ?thesis
      using exts_set_bounded by (auto simp: validateExtents_def validate_loop_Inr)
  qed
qed

section \<open>Containment\<close>

lemma dropWhile_end_mem:
  "wf_extents es \<Longrightarrow> c \<le> b \<Longrightarrow>
     b \<in> exts_set (dropWhile (\<lambda>x. extent_end x \<le> c) es) \<longleftrightarrow> b \<in> exts_set es"
proof (induction es)
  case (Cons e es)
  then show ?case
    by (auto simp: wf_extents_Cons ext_set_def dest: leD order_trans)
qed simp

lemma contain_cursor_spec:
  assumes "wf_extents outer"
  shows "(case contain_cursor outer c en of
     None \<Rightarrow> \<not> {b. c \<le> b \<and> b < en} \<subseteq> exts_set outer
   | Some outer' \<Rightarrow> {b. c \<le> b \<and> b < en} \<subseteq> exts_set outer \<and> wf_extents outer' \<and>
        (\<forall>b\<ge>en. b \<in> exts_set outer' \<longleftrightarrow> b \<in> exts_set outer))"
  using assms
proof (induction outer c en rule: contain_cursor.induct)
  case (1 outer c en)
  let ?d = "dropWhile (\<lambda>x. extent_end x \<le> c) outer"
  have wfd: "wf_extents ?d" using "1.prems" by (rule wf_extents_dropWhile)
  have same: "c \<le> b \<Longrightarrow> b \<in> exts_set ?d \<longleftrightarrow> b \<in> exts_set outer" for b
    using "1.prems" by (rule dropWhile_end_mem)
  show ?case
  proof (cases "c < en")
    case False
    then show ?thesis using "1.prems" by (subst contain_cursor.simps) auto
  next
    case lt: True
    show ?thesis
    proof (cases ?d)
      case Nil
      then have "contain_cursor outer c en = None"
        using lt by (subst contain_cursor.simps) (simp del: dropWhile_eq_Nil_conv)
      moreover have "c \<notin> exts_set outer" using same [of c] Nil by simp
      ultimately show ?thesis using lt by auto
    next
      case (Cons o' os)
      have oc: "c < extent_end o'"
        using Cons by (metis (lifting) hd_dropWhile list.distinct(1) list.sel(1) not_le)
      show ?thesis
      proof (cases "Start o' > c")
        case True
        then have "contain_cursor outer c en = None"
          using lt Cons by (subst contain_cursor.simps) simp
        moreover have "c \<notin> exts_set outer"
          using same [of c] Cons True wfd wf_extents_tail_bound [of o' os c] oc
          by (auto simp: ext_set_def dest: leD)
        ultimately show ?thesis using lt by auto
      next
        case False
        let ?c = "min en (extent_end o')"
        have eq: "contain_cursor outer c en = contain_cursor (o' # os) ?c en"
          using lt Cons False by (subst contain_cursor.simps) simp
        have IH: "case contain_cursor (o' # os) ?c en of
            None \<Rightarrow> \<not> {b. ?c \<le> b \<and> b < en} \<subseteq> exts_set (o' # os)
          | Some outer' \<Rightarrow> {b. ?c \<le> b \<and> b < en} \<subseteq> exts_set (o' # os) \<and> wf_extents outer' \<and>
               (\<forall>b\<ge>en. b \<in> exts_set outer' \<longleftrightarrow> b \<in> exts_set (o' # os))"
          using "1.IH" [OF lt Cons False] wfd Cons by simp
        have "{b. c \<le> b \<and> b < ?c} \<subseteq> exts_set (o' # os)"
          using False by (auto simp: ext_set_def)
        moreover have "{b. c \<le> b \<and> b < en} = {b. c \<le> b \<and> b < ?c} \<union> {b. ?c \<le> b \<and> b < en}"
          using oc lt by (auto simp: min_def not_less split: if_splits)
        ultimately have "{b. ?c \<le> b \<and> b < en} \<subseteq> exts_set (o' # os) \<longleftrightarrow>
            {b. c \<le> b \<and> b < en} \<subseteq> exts_set (o' # os)"
          by blast
        moreover have "{b. c \<le> b \<and> b < en} \<subseteq> exts_set (o' # os) \<longleftrightarrow>
            {b. c \<le> b \<and> b < en} \<subseteq> exts_set outer"
          using same Cons by auto
        moreover have "\<forall>b\<ge>en. b \<in> exts_set (o' # os) \<longleftrightarrow> b \<in> exts_set outer"
          using same Cons lt by (metis order.strict_implies_order order_trans)
        ultimately show ?thesis using IH eq by (auto split: option.splits)
      qed
    qed
  qed
qed

lemma extentsContain_subset:
  assumes "wf_extents outer" "wf_extents inner"
  shows "extentsContain outer inner \<longleftrightarrow> exts_set inner \<subseteq> exts_set outer"
  using assms
proof (induction outer inner rule: extentsContain.induct)
  case (2 outer cand inner)
  have spec: "case contain_cursor outer (Start cand) (extent_end cand) of
     None \<Rightarrow> \<not> ext_set cand \<subseteq> exts_set outer
   | Some outer' \<Rightarrow> ext_set cand \<subseteq> exts_set outer \<and> wf_extents outer' \<and>
        (\<forall>b\<ge>extent_end cand. b \<in> exts_set outer' \<longleftrightarrow> b \<in> exts_set outer)"
    using contain_cursor_spec [OF "2.prems"(1), of "Start cand" "extent_end cand"]
    unfolding ext_set_def .
  show ?case
  proof (cases "contain_cursor outer (Start cand) (extent_end cand)")
    case None
    then show ?thesis using spec by auto
  next
    case (Some outer')
    then have "exts_set inner \<subseteq> exts_set outer' \<longleftrightarrow> exts_set inner \<subseteq> exts_set outer"
      using spec wf_extents_tail_bound [OF "2.prems"(2)] by (auto simp: subset_iff)
    then show ?thesis
      using Some spec "2.IH" [OF Some] "2.prems"(2) by (simp add: wf_extents_Cons)
  qed
qed simp

section \<open>Subtraction\<close>

lemma wf_extents_appendI:
  "wf_extents es \<Longrightarrow> wf_extents fs \<Longrightarrow> \<forall>x\<in>set es. extent_end x \<le> m \<Longrightarrow>
     \<forall>y\<in>set fs. m \<le> Start y \<Longrightarrow> wf_extents (es @ fs)"
  unfolding wf_extents_append using order_trans by blast

lemma subtract_inner_spec:
  assumes "wf_extents rs" "c < en" "subtract_inner rs c en = (c', ps)"
  shows "exts_set ps \<union> {b. c' \<le> b \<and> b < en} = {b. c \<le> b \<and> b < en} - exts_set rs
    \<and> wf_extents ps \<and> c \<le> c' \<and> (\<forall>p\<in>set ps. c \<le> Start p \<and> extent_end p \<le> c' \<and> extent_end p \<le> en)"
  using assms
proof (induction rs c en arbitrary: c' ps rule: subtract_inner.induct)
  case (1 cursor en)
  then show ?case by auto
next
  case (2 r rs cursor en)
  from "2.prems"(1) have wfr: "Start r < extent_end r" and wfrs: "wf_extents rs"
    by (auto simp: wf_extents_Cons wf_extent_def)
  have later: "exts_set rs \<subseteq> {b. extent_end r \<le> b}"
    using wf_extents_tail_bound [OF "2.prems"(1)] by blast
  define piece where
    "piece = (if Start r > cursor then [Extent cursor (min en (Start r) - cursor)] else [])"
  define cur where "cur = (if extent_end r > cursor then extent_end r else cursor)"
  have cur: "cursor \<le> cur" "Start r < cur" "extent_end r \<le> cur" "cur = cursor \<or> cur = extent_end r"
    using wfr by (auto simp: cur_def not_less)
  have res: "subtract_inner (r # rs) cursor en =
      (if \<not> Start r < en then (cursor, []) else if cur \<ge> en then (cur, piece)
       else let (c, ps) = subtract_inner rs cur en in (c, piece @ ps))"
    by (simp add: piece_def cur_def Let_def)
  show ?case
  proof (cases "Start r < en")
    case False
    then have "{b. cursor \<le> b \<and> b < en} \<inter> exts_set (r # rs) = {}"
      using later wfr by (auto simp: ext_set_def not_less)
    then show ?thesis using False "2.prems"(3) res by auto
  next
    case st: True
    have set: "exts_set piece = {b. cursor \<le> b \<and> b < en \<and> b < Start r}"
      unfolding piece_def by auto
    have wf: "wf_extents piece"
      using "2.prems"(2) by (simp add: piece_def wf_extents_Cons wf_extent_def)
    have bounds: "\<forall>p\<in>set piece. cursor \<le> Start p \<and> extent_end p \<le> cur \<and> extent_end p \<le> en"
      using cur(2) by (auto simp: piece_def min_le_iff_disj)
    have rest: "{b. cursor \<le> b \<and> b < en} - exts_set (r # rs) =
        exts_set piece \<union> ({b. cur \<le> b \<and> b < en} - exts_set rs)"
      unfolding set using later wfr cur by (auto simp: ext_set_def not_less)
    show ?thesis
    proof (cases "cur \<ge> en")
      case True
      then have r': "c' = cur" "ps = piece" using "2.prems"(3) st res by auto
      have empty: "{b. cur \<le> b \<and> b < en} = {}" using True by auto
      show ?thesis unfolding r' rest empty using wf bounds cur(1) by simp
    next
      case False
      obtain c2 ps2 where rec: "subtract_inner rs cur en = (c2, ps2)" by fastforce
      then have r': "c' = c2" "ps = piece @ ps2"
        using "2.prems"(3) st False res by auto
      have IH: "exts_set ps2 \<union> {b. c2 \<le> b \<and> b < en} = {b. cur \<le> b \<and> b < en} - exts_set rs"
        "wf_extents ps2" "cur \<le> c2"
        "\<forall>p\<in>set ps2. cur \<le> Start p \<and> extent_end p \<le> c2 \<and> extent_end p \<le> en"
        using "2.IH" [of piece cur c2 ps2] st False wfrs rec by (auto simp: piece_def cur_def)
      have "wf_extents ps"
        unfolding r' wf_extents_append using wf bounds IH(2,4) order_trans by blast
      moreover have "exts_set ps \<union> {b. c' \<le> b \<and> b < en} = {b. cursor \<le> b \<and> b < en} - exts_set (r # rs)"
        unfolding r' rest using IH(1) by auto
      moreover have "\<forall>p\<in>set ps. cursor \<le> Start p \<and> extent_end p \<le> c' \<and> extent_end p \<le> en"
        unfolding r' using bounds IH(3,4) cur(1) order_trans by (metis Un_iff set_append)
      ultimately show ?thesis using IH(3) cur(1) r'(1) order_trans by blast
    qed
  qed
qed

lemma subtract_loop_spec:
  assumes "wf_extents removed" "wf_extents es"
  shows "exts_set (subtract_loop removed es) = exts_set es - exts_set removed
    \<and> wf_extents (subtract_loop removed es)
    \<and> (\<forall>x\<in>set (subtract_loop removed es). \<exists>e\<in>set es. Start e \<le> Start x \<and> extent_end x \<le> extent_end e)"
  using assms
proof (induction removed es rule: subtract_loop.induct)
  case (2 removed e es)
  let ?d = "dropWhile (\<lambda>r. extent_end r \<le> Start e) removed"
  obtain c ps where inner: "subtract_inner ?d (Start e) (extent_end e) = (c, ps)" by fastforce
  let ?fin = "if c < extent_end e then [Extent c (extent_end e - c)] else []"
  have eq: "subtract_loop removed (e # es) = (ps @ ?fin) @ subtract_loop ?d es"
    using inner by (simp add: Let_def)
  from "2.prems" have wfe: "Start e < extent_end e" and wfes: "wf_extents es"
    and gap: "\<forall>x\<in>set es. extent_end e \<le> Start x"
    by (auto simp: wf_extents_Cons wf_extent_def)
  have wfd: "wf_extents ?d" using "2.prems"(1) by (rule wf_extents_dropWhile)
  have same: "Start e \<le> b \<Longrightarrow> b \<in> exts_set ?d \<longleftrightarrow> b \<in> exts_set removed" for b
    using "2.prems"(1) by (rule dropWhile_end_mem)
  note S = subtract_inner_spec [OF wfd wfe inner]
  have head: "exts_set (ps @ ?fin) = ext_set e - exts_set removed"
    using S same by (auto simp: ext_set_def)
  have headwf: "wf_extents (ps @ ?fin)"
    "\<forall>p\<in>set (ps @ ?fin). Start e \<le> Start p \<and> extent_end p \<le> extent_end e"
    using S by (auto simp: wf_extents_append wf_extents_Cons wf_extent_def)
  have IH: "exts_set (subtract_loop ?d es) = exts_set es - exts_set ?d"
    "wf_extents (subtract_loop ?d es)"
    "\<forall>x\<in>set (subtract_loop ?d es). \<exists>e\<in>set es. Start e \<le> Start x \<and> extent_end x \<le> extent_end e"
    using "2.IH" [OF refl refl refl inner [symmetric] refl wfd wfes] by auto
  have "exts_set es \<subseteq> {b. Start e \<le> b}"
    using wf_extents_tail_bound [OF "2.prems"(2)] wfe order.strict_implies_order order_trans by blast
  then have tail: "exts_set (subtract_loop ?d es) = exts_set es - exts_set removed"
    unfolding IH(1) using same by blast
  have "wf_extents (subtract_loop removed (e # es))"
    unfolding eq
  proof (rule wf_extents_appendI [where m = "extent_end e"])
    show "\<forall>y\<in>set (subtract_loop ?d es). extent_end e \<le> Start y"
      using IH(3) gap order_trans by blast
  qed (use headwf IH(2) in blast)+
  moreover have "exts_set (subtract_loop removed (e # es)) = exts_set (e # es) - exts_set removed"
    unfolding eq using head tail by auto
  moreover have "\<forall>x\<in>set (subtract_loop removed (e # es)). \<exists>e\<in>set (e # es).
      Start e \<le> Start x \<and> extent_end x \<le> extent_end e"
    unfolding eq using headwf(2) IH(3) by auto
  ultimately show ?case by blast
qed simp

lemma wf_extents_end_mono:
  "wf_extents es \<Longrightarrow> a \<le> b \<Longrightarrow> b < length es \<Longrightarrow> extent_end (es ! a) \<le> extent_end (es ! b)"
proof (cases "a = b")
  case False
  assume *: "wf_extents es" "a \<le> b" "b < length es"
  with False have "extent_end (es ! a) \<le> Start (es ! b)"
    by (simp add: wf_extents_def sorted_wrt_iff_nth_less)
  moreover have "Start (es ! b) < extent_end (es ! b)"
    using * by (simp add: wf_extents_def list_all_length wf_extent_def)
  ultimately show ?thesis by simp
qed simp

lemma search_removed_mem:
  assumes "wf_extents removed" "c \<le> b"
  shows "b \<in> exts_set (drop (sort_Search (length removed) (\<lambda>i. extent_end (removed ! i) > c)) removed)
    \<longleftrightarrow> b \<in> exts_set removed"
proof -
  let ?n = "sort_Search (length removed) (\<lambda>i. extent_end (removed ! i) > c)"
  have "\<forall>k < ?n. \<not> extent_end (removed ! k) > c"
    using sort_Search_mono [of "length removed" "\<lambda>i. extent_end (removed ! i) > c"]
      wf_extents_end_mono [OF assms(1)] by (meson less_le_trans)
  then have "b \<notin> exts_set (take ?n removed)"
    using assms(2) by (auto simp: exts_set_def ext_set_def in_set_conv_nth not_less)
      (meson leD order_trans)
  then show ?thesis
    by (metis Un_iff append_take_drop_id exts_set_simps(3))
qed

lemma subtractExtents_spec:
  assumes "wf_extents es" "wf_extents removed"
  shows "exts_set (subtractExtents es removed) = exts_set es - exts_set removed"
    and "wf_extents (subtractExtents es removed)"
proof -
  have "exts_set (subtractExtents es removed) = exts_set es - exts_set removed \<and>
    wf_extents (subtractExtents es removed)"
  proof (cases "es = [] \<or> removed = []")
    case True
    then show ?thesis using assms by (auto simp: subtractExtents_def)
  next
    case False
    define d where "d = drop (sort_Search (length removed)
        (\<lambda>i. extent_end (removed ! i) > Start (hd es))) removed"
    have eq: "subtractExtents es removed = subtract_loop d es"
      using False by (simp add: subtractExtents_def d_def)
    have wfd: "wf_extents d" unfolding d_def using assms(2) by (rule wf_extents_drop)
    obtain e es' where es: "es = e # es'" using False by (cases es) auto
    then have "exts_set es \<subseteq> {b. Start e \<le> b}"
      using assms(1) wf_extents_tail_bound [of e es']
      by (auto simp: wf_extents_Cons wf_extent_def ext_set_def
          intro: order_trans order.strict_implies_order)
    then have "exts_set es - exts_set d = exts_set es - exts_set removed"
      using search_removed_mem [OF assms(2), of "Start e"] es by (auto simp: d_def)
    then show ?thesis
      using subtract_loop_spec [OF wfd assms(1)] eq by simp
  qed
  then show "exts_set (subtractExtents es removed) = exts_set es - exts_set removed"
    and "wf_extents (subtractExtents es removed)" by auto
qed

section \<open>Normalisation and union\<close>

lemma normal_extents_Nil [simp]: "normal_extents []"
  by (simp add: normal_extents_def)

lemma normal_extents_snoc:
  "normal_extents (es @ [e]) \<longleftrightarrow>
     normal_extents es \<and> wf_extent e \<and> (\<forall>x\<in>set es. extent_end x < Start e)"
  by (auto simp: normal_extents_def sorted_wrt_append)

lemma appendExtent_spec:
  assumes "append_ready res (e # es)" "\<forall>x\<in>set es. Start e \<le> Start x"
  shows "append_ready (appendExtent res e) es"
    and "exts_set (appendExtent res e) = exts_set res \<union> ext_set e"
proof -
  have e: "Start e \<le> extent_end e" using assms(1) by (simp add: append_ready_def)
  have "append_ready (appendExtent res e) es \<and> exts_set (appendExtent res e) = exts_set res \<union> ext_set e"
  proof (cases "Blocks e = 0")
    case True
    then have "ext_set e = {}" by (auto simp: ext_set_def extent_end_def)
    then show ?thesis using True assms by (simp add: appendExtent_def append_ready_def)
  next
    case nz: False
    then have wfe: "wf_extent e" using e by (simp add: wf_extent_alt not_less)
    show ?thesis
    proof (cases res rule: rev_cases)
      case Nil
      then show ?thesis
        using nz wfe assms by (simp add: appendExtent_def append_ready_def normal_extents_def)
    next
      case (snoc xs l)
      have n: "normal_extents (xs @ [l])" and ls: "Start l \<le> Start e"
        using assms(1) snoc by (auto simp: append_ready_def)
      then have wfl: "Start l < extent_end l" by (simp add: normal_extents_snoc wf_extent_def)
      consider "extent_end l < Start e" | "Start e \<le> extent_end l" "extent_end l < extent_end e"
        | "Start e \<le> extent_end l" "extent_end e \<le> extent_end l"
        by fastforce
      then show ?thesis
      proof cases
        case 1
        have "\<forall>x\<in>set (xs @ [l]). extent_end x < Start e"
          using n 1 wfl by (auto simp: normal_extents_snoc dest: bspec intro: less_trans)
        then have "normal_extents ((xs @ [l]) @ [e])"
          using n wfe normal_extents_snoc by blast
        then show ?thesis
          using 1 nz snoc assms by (auto simp: appendExtent_def append_ready_def)
      next
        case 2
        have "normal_extents (xs @ [Extent (Start l) (extent_end e - Start l)])"
          using n wfl 2 by (auto simp: normal_extents_snoc wf_extent_def)
        moreover have "{b. Start l \<le> b \<and> b < extent_end e} = ext_set l \<union> ext_set e"
          using 2 ls by (auto simp: ext_set_def not_less)
        ultimately show ?thesis
          using 2 nz snoc assms ls by (auto simp: appendExtent_def append_ready_def not_less)
      next
        case 3
        then have "ext_set e \<subseteq> ext_set l" using ls by (auto simp: ext_set_def)
        then show ?thesis
          using 3 nz snoc assms by (auto simp: appendExtent_def append_ready_def not_less)
      qed
    qed
  qed
  then show "append_ready (appendExtent res e) es"
    and "exts_set (appendExtent res e) = exts_set res \<union> ext_set e" by auto
qed

lemma foldl_appendExtent:
  "append_ready res es \<Longrightarrow> sorted (map Start es) \<Longrightarrow>
     normal_extents (foldl appendExtent res es) \<and>
     exts_set (foldl appendExtent res es) = exts_set res \<union> exts_set es"
proof (induction es arbitrary: res)
  case (Cons e es)
  then have "\<forall>x\<in>set es. Start e \<le> Start x" by simp
  note step = appendExtent_spec [OF Cons.prems(1) this]
  show ?case using Cons.IH [OF step(1)] step(2) Cons.prems(2) by auto
qed (simp add: append_ready_def)

lemma sorted_Extent_Start: "sorted es \<Longrightarrow> sorted (map Start es)"
  by (induction es) (auto simp: less_eq_Extent_def split: if_splits)

lemma wf_no_wrap: "wf_extents es \<Longrightarrow> no_wrap es"
  by (auto simp: wf_extents_def no_wrap_def list_all_iff wf_extent_def)

lemma exts_set_cong_set: "set es = set fs \<Longrightarrow> exts_set es = exts_set fs"
  by (simp add: exts_set_def)

lemma normalizeExtents_spec:
  assumes "no_wrap es"
  shows "normal_extents (normalizeExtents es)" and "exts_set (normalizeExtents es) = exts_set es"
proof -
  have "append_ready [] (sort es)"
    using assms by (simp add: append_ready_def no_wrap_def list_all_iff)
  from foldl_appendExtent [OF this] sorted_Extent_Start [OF sorted_sort, of es]
  show "normal_extents (normalizeExtents es)" and "exts_set (normalizeExtents es) = exts_set es"
    by (simp_all add: normalizeExtents_def exts_set_cong_set [of "sort es" es])
qed

lemma append_ready_subset: "append_ready res es \<Longrightarrow> set fs \<subseteq> set es \<Longrightarrow> append_ready res fs"
  by (auto simp: append_ready_def)

lemma union_loop_spec:
  "append_ready res (ls @ rs) \<Longrightarrow> sorted (map Start ls) \<Longrightarrow> sorted (map Start rs) \<Longrightarrow>
     normal_extents (union_loop res ls rs) \<and>
     exts_set (union_loop res ls rs) = exts_set res \<union> exts_set ls \<union> exts_set rs"
proof (induction res ls rs rule: union_loop.induct)
  case (1 res)
  then show ?case by (simp add: append_ready_def)
next
  case (2 res l ls)
  then have "append_ready res (l # ls @ [])" "\<forall>x\<in>set (ls @ []). Start l \<le> Start x" by auto
  note step = appendExtent_spec [OF this]
  show ?case using "2.IH" [OF step(1)] step(2) "2.prems" by auto
next
  case (3 res r rs)
  then have "append_ready res (r # [] @ rs)" "\<forall>x\<in>set ([] @ rs). Start r \<le> Start x" by auto
  note step = appendExtent_spec [OF this]
  show ?case using "3.IH" [OF step(1)] step(2) "3.prems" by auto
next
  case (4 res l ls r rs)
  show ?case
  proof (cases "Start l \<le> Start r")
    case True
    then have "append_ready res (l # ls @ r # rs)" "\<forall>x\<in>set (ls @ r # rs). Start l \<le> Start x"
      using "4.prems" by (auto intro: append_ready_subset order_trans)
    note step = appendExtent_spec [OF this]
    show ?thesis using "4.IH"(1) [OF True step(1)] step(2) "4.prems" True by auto
  next
    case False
    then have "append_ready res (r # (l # ls) @ rs)" "\<forall>x\<in>set ((l # ls) @ rs). Start r \<le> Start x"
      using "4.prems" by (auto intro: append_ready_subset order_trans)
    note step = appendExtent_spec [OF this]
    show ?thesis using "4.IH"(2) [OF False step(1)] step(2) "4.prems" False by auto
  qed
qed

lemma wf_sorted_Start: "wf_extents es \<Longrightarrow> sorted (map Start es)"
  by (induction es)
    (auto simp: wf_extents_Cons wf_extent_def intro: order_trans order.strict_implies_order)

lemma unionExtents_spec:
  assumes "wf_extents left" "no_wrap right"
  shows "normal_extents (unionExtents left right)"
    and "exts_set (unionExtents left right) = exts_set left \<union> exts_set right"
proof -
  have n: "normal_extents (normalizeExtents right)" "wf_extents (normalizeExtents right)"
    using normalizeExtents_spec(1) [OF assms(2)] normal_imp_wf by auto
  have "append_ready [] (left @ normalizeExtents right)"
    using wf_no_wrap [OF assms(1)] wf_no_wrap [OF n(2)]
    by (auto simp: append_ready_def no_wrap_def list_all_iff)
  from union_loop_spec [OF this wf_sorted_Start [OF assms(1)] wf_sorted_Start [OF n(2)]]
  show "normal_extents (unionExtents left right)"
    and "exts_set (unionExtents left right) = exts_set left \<union> exts_set right"
    by (auto simp: unionExtents_def normalizeExtents_spec(2) [OF assms(2)])
qed

section \<open>Intersection, block lists and byte ranges\<close>

lemma intersectExtent_spec:
  assumes "wf_extents es"
  shows "exts_set (intersectExtent t es) = ext_set t \<inter> exts_set es \<and>
    wf_extents (intersectExtent t es) \<and>
    (\<forall>x\<in>set (intersectExtent t es). \<exists>e\<in>set es. Start e \<le> Start x \<and> extent_end x \<le> extent_end e)"
  using assms
proof (induction t es rule: intersectExtent.induct)
  case (2 t e es)
  have wfes: "wf_extents es" and wfe: "Start e < extent_end e"
    and gap: "\<forall>x\<in>set es. extent_end e \<le> Start x"
    using "2.prems" by (auto simp: wf_extents_Cons wf_extent_def)
  have later: "exts_set es \<subseteq> {b. extent_end e \<le> b}"
    using wf_extents_tail_bound [OF "2.prems"] by blast
  consider (skip) "extent_end e \<le> Start t" | (stop) "\<not> extent_end e \<le> Start t" "Start e \<ge> extent_end t"
    | (overlap) "\<not> extent_end e \<le> Start t" "\<not> Start e \<ge> extent_end t" by blast
  then show ?case
  proof cases
    case skip
    then have "ext_set t \<inter> ext_set e = {}" by (auto simp: ext_set_def)
    then show ?thesis using "2.IH"(1) [OF skip wfes] skip by auto
  next
    case stop
    then have "ext_set t \<inter> exts_set (e # es) = {}"
      using later wfe by (auto simp: ext_set_def)
    then show ?thesis using stop by simp
  next
    case overlap
    let ?s = "max (Start t) (Start e)" and ?e = "min (extent_end t) (extent_end e)"
    let ?x = "if ?s < ?e then [Extent ?s (?e - ?s)] else []"
    have eq: "intersectExtent t (e # es) = ?x @ intersectExtent t es"
      using overlap by (simp add: Let_def)
    have IH: "exts_set (intersectExtent t es) = ext_set t \<inter> exts_set es"
      "wf_extents (intersectExtent t es)"
      "\<forall>x\<in>set (intersectExtent t es). \<exists>e\<in>set es. Start e \<le> Start x \<and> extent_end x \<le> extent_end e"
      using "2.IH"(2) [OF overlap refl refl wfes] by auto
    have set: "exts_set ?x = ext_set t \<inter> ext_set e"
      by (auto simp: ext_set_def)
    have "wf_extents (?x @ intersectExtent t es)"
    proof (rule wf_extents_appendI [where m = "extent_end e"])
      show "\<forall>y\<in>set (intersectExtent t es). extent_end e \<le> Start y"
        using IH(3) gap order_trans by blast
    qed (use IH(2) in \<open>auto simp: wf_extents_Cons wf_extent_def\<close>)
    then show ?thesis
      unfolding eq using set IH by (auto split: if_splits)
  qed
qed simp

lemma word_succ_le: "(b::u64) < - 1 \<Longrightarrow> x < b + 1 \<longleftrightarrow> x \<le> b"
proof -
  assume "b < - 1"
  then have "b + 1 \<noteq> 0" unfolding eq_neg_iff_add_eq_0 [symmetric] by (rule less_imp_neq)
  then have "unat (b + 1) = Suc (unat b)" using unatSuc [of b] by (simp add: add.commute)
  then show ?thesis by (simp add: word_less_nat_alt word_le_nat_alt less_Suc_eq_le)
qed

lemma ext_set_singleton: "b < - 1 \<Longrightarrow> ext_set (Extent b 1) = {b}"
  by (auto simp: ext_set_def extent_end_def word_succ_le)

lemma ext_set_grow:
  "extent_end l < - 1 \<Longrightarrow> wf_extent l \<Longrightarrow>
     ext_set (Extent (Start l) (Blocks l + 1)) = insert (extent_end l) (ext_set l)"
  unfolding ext_set_def wf_extent_def extent_end_def
  by (auto simp: word_succ_le add.assoc [symmetric])

lemma push_block_spec:
  assumes b: "b < - 1" and n: "normal_extents res" and le: "res \<noteq> [] \<longrightarrow> extent_end (last res) \<le> b"
  shows "normal_extents (push_block res b)" "exts_set (push_block res b) = insert b (exts_set res)"
    "push_block res b \<noteq> []" "extent_end (last (push_block res b)) = b + 1"
proof -
  have one: "ext_set (Extent b 1) = {b}" "wf_extent (Extent b 1)" "extent_end (Extent b 1) = b + 1"
    using b by (simp_all add: ext_set_singleton wf_extent_def extent_end_def word_succ_le)
  have "normal_extents (push_block res b) \<and> exts_set (push_block res b) = insert b (exts_set res) \<and>
    extent_end (last (push_block res b)) = b + 1"
  proof (cases res rule: rev_cases)
    case Nil
    then show ?thesis using one by (simp add: push_block_def normal_extents_def)
  next
    case (snoc xs l)
    have n': "normal_extents xs" "wf_extent l" "\<forall>x\<in>set xs. extent_end x < Start l"
      using n snoc by (simp_all add: normal_extents_snoc)
    show ?thesis
    proof (cases "extent_end l = b")
      case True
      let ?l = "Extent (Start l) (Blocks l + 1)"
      have en: "extent_end ?l = b + 1" using True by (simp add: extent_end_def add.assoc)
      have "wf_extent ?l"
        using n'(2) True b by (simp add: wf_extent_def en word_succ_le)
      then have "normal_extents (xs @ [?l])" using n' by (simp add: normal_extents_snoc)
      then show ?thesis using snoc True en ext_set_grow [of l] b n'(2) by (simp add: push_block_def)
    next
      case False
      then have lt: "extent_end l < b" using le snoc by simp
      have "\<forall>x\<in>set xs. extent_end x < b"
        using n'(2,3) lt unfolding wf_extent_def by (meson less_trans)
      then have "normal_extents ((xs @ [l]) @ [Extent b 1])"
        using n snoc one(2) lt unfolding normal_extents_snoc [of "xs @ [l]"] by simp
      then show ?thesis using snoc False one by (simp add: push_block_def)
    qed
  qed
  then show "normal_extents (push_block res b)" "exts_set (push_block res b) = insert b (exts_set res)"
    "push_block res b \<noteq> []" "extent_end (last (push_block res b)) = b + 1"
    by (auto simp: push_block_def)
qed

lemma blocks_loop_spec:
  assumes "sorted_wrt (<) bs" "\<forall>b\<in>set bs. b < - 1" "normal_extents res"
    and "res \<noteq> [] \<longrightarrow> (\<forall>b\<in>set bs. extent_end (last res) \<le> b)"
  shows "normal_extents (blocks_loop res bs) \<and> exts_set (blocks_loop res bs) = exts_set res \<union> set bs"
  using assms
proof (induction bs arbitrary: res)
  case (Cons b bs)
  have b: "b < - 1" using Cons.prems(2) by simp
  note new = push_block_spec [OF b Cons.prems(3)]
  have "\<forall>x\<in>set bs. b + 1 \<le> x"
    using Cons.prems(1) word_succ_le [OF b] by (simp add: not_less [symmetric])
  then have "normal_extents (blocks_loop (push_block res b) bs) \<and>
      exts_set (blocks_loop (push_block res b) bs) = exts_set (push_block res b) \<union> set bs"
    using new Cons.prems by (intro Cons.IH) auto
  then show ?case using new(2) Cons.prems(4) by simp
qed simp

lemma blocksToExtents_spec:
  assumes "sorted_wrt (<) bs" "\<forall>b\<in>set bs. b < - 1"
  shows "normal_extents (blocksToExtents bs)" and "exts_set (blocksToExtents bs) = set bs"
  using blocks_loop_spec [OF assms, of "[]"] by (simp_all add: blocksToExtents_def)

text \<open>Byte offsets: \<open>byteRangeExtents\<close> covers exactly the blocks the range touches.\<close>

lemma word_le_of_int:
  "0 \<le> i \<Longrightarrow> i < 2 ^ 64 \<Longrightarrow> (word_of_int i :: u64) \<le> b \<longleftrightarrow> i \<le> uint b"
  "0 \<le> i \<Longrightarrow> i < 2 ^ 64 \<Longrightarrow> b \<le> (word_of_int i :: u64) \<longleftrightarrow> uint b \<le> i"
  by (simp_all add: word_le_def uint_word_of_int)

lemma block_range_int:
  assumes "off < (en::int)"
  shows "off div 4096 \<le> k \<and> k \<le> (en - 1) div 4096 \<longleftrightarrow> (\<exists>i. off \<le> i \<and> i < en \<and> k = i div 4096)"
proof
  assume k: "off div 4096 \<le> k \<and> k \<le> (en - 1) div 4096"
  show "\<exists>i. off \<le> i \<and> i < en \<and> k = i div 4096"
  proof (cases "off \<le> k * 4096")
    case True
    moreover have "k * 4096 < en" using k by linarith
    ultimately show ?thesis by (intro exI [of _ "k * 4096"]) simp
  next
    case False
    then have "k = off div 4096" using k by linarith
    then show ?thesis using assms by blast
  qed
next
  assume "\<exists>i. off \<le> i \<and> i < en \<and> k = i div 4096"
  then show "off div 4096 \<le> k \<and> k \<le> (en - 1) div 4096"
    by (auto intro: zdiv_mono1)
qed

lemma uint_word_of_int_small: "0 \<le> i \<Longrightarrow> i < 2 ^ 64 \<Longrightarrow> uint (word_of_int i :: u64) = i"
  by (simp add: uint_word_of_int)

lemma byteRangeExtents_cases:
  assumes "0 \<le> off" "off < sz" "0 < len" "sz < 2 ^ 63"
  shows "wf_extents (byteRangeExtents off len sz) \<and>
    exts_set (byteRangeExtents off len sz) =
      {b. off div 4096 \<le> uint b \<and> uint b \<le> (min (off + len) sz - 1) div 4096}"
proof -
  let ?f = "off div 4096" and ?l = "(min (off + len) sz - 1) div 4096"
  have b: "0 \<le> ?f" "?f \<le> ?l" "?l < 2 ^ 63" using assms by (auto simp: zdiv_mono1)
  have u: "uint (word_of_int ?f :: u64) = ?f" "uint (word_of_int ?l :: u64) = ?l"
    using b by (auto intro!: uint_word_of_int_small)
  have "uint (word_of_int ?l :: u64) < uint (- 1 :: u64)"
    unfolding u using b(3) by (simp add: unsigned_minus_1_eq_mask mask_eq_exp_minus_1)
  then have "(word_of_int ?l :: u64) < - 1" by (simp only: word_less_def)
  note succ = word_succ_le [OF this]
  have eq: "byteRangeExtents off len sz =
      [Extent (word_of_int ?f) (word_of_int ?l + 1 - word_of_int ?f)]"
    using assms by (auto simp: byteRangeExtents_def Let_def DefaultBlockSize_def min_def)
  have "(word_of_int ?f :: u64) \<le> word_of_int ?l"
    unfolding word_le_def u by (rule b(2))
  then show ?thesis
    by (simp add: eq wf_extents_Cons wf_extent_def succ) (simp add: word_le_def u)
qed

lemma byteRangeExtents_spec:
  assumes "sz < 2 ^ 63"
  shows "wf_extents (byteRangeExtents off len sz)"
    and "0 \<le> off \<Longrightarrow> exts_set (byteRangeExtents off len sz) =
      {b. \<exists>i. off \<le> i \<and> i < off + len \<and> i < sz \<and> uint b = i div DefaultBlockSize}"
proof -
  have "wf_extents (byteRangeExtents off len sz) \<and> (0 \<le> off \<longrightarrow>
      exts_set (byteRangeExtents off len sz) =
      {b. \<exists>i. off \<le> i \<and> i < off + len \<and> i < sz \<and> uint b = i div DefaultBlockSize})"
  proof (cases "len \<le> 0 \<or> off < 0 \<or> off \<ge> sz")
    case True
    then show ?thesis by (auto simp: byteRangeExtents_def)
  next
    case False
    then have "off < min (off + len) sz" by auto
    note R = block_range_int [OF this]
    have "0 \<le> off" "off < sz" "0 < len" using False by auto
    from byteRangeExtents_cases [OF this assms] show ?thesis
      by (simp only: R DefaultBlockSize_def min_less_iff_conj conj_assoc) simp
  qed
  then show "wf_extents (byteRangeExtents off len sz)"
    and "0 \<le> off \<Longrightarrow> exts_set (byteRangeExtents off len sz) =
      {b. \<exists>i. off \<le> i \<and> i < off + len \<and> i < sz \<and> uint b = i div DefaultBlockSize}" by blast+
qed

section \<open>The interface the rest of the replica code uses\<close>

text \<open>
  What \<open>remote.go\<close> and \<open>lazy.go\<close> rely on: lists of extents that represent sets, closed
  under union (the right argument may be unsorted) and difference. The lemmas below are
  the set reasoning of the restore plan and of the lazy image, proved once.
\<close>

locale extent_algebra =
  fixes elems :: "'e list \<Rightarrow> 'b set"
    and inv :: "'e list \<Rightarrow> bool"
    and raw :: "'e list \<Rightarrow> bool"
    and union :: "'e list \<Rightarrow> 'e list \<Rightarrow> 'e list"
    and diff :: "'e list \<Rightarrow> 'e list \<Rightarrow> 'e list"
  assumes elems_Nil: "elems [] = {}"
    and elems_append: "elems (a @ b) = elems a \<union> elems b"
    and inv_Nil: "inv []"
    and inv_raw: "inv a \<Longrightarrow> raw a"
    and raw_append: "raw (a @ b) \<longleftrightarrow> raw a \<and> raw b"
    and inv_empty: "inv a \<Longrightarrow> elems a = {} \<longleftrightarrow> a = []"
    and union_elems: "inv a \<Longrightarrow> raw b \<Longrightarrow> elems (union a b) = elems a \<union> elems b"
    and union_inv: "inv a \<Longrightarrow> raw b \<Longrightarrow> inv (union a b)"
    and diff_elems: "inv a \<Longrightarrow> inv b \<Longrightarrow> elems (diff a b) = elems a - elems b"
    and diff_inv: "inv a \<Longrightarrow> inv b \<Longrightarrow> inv (diff a b)"
begin

lemma raw_Nil: "raw []"
  using inv_raw inv_Nil by blast

lemma elems_concat: "elems (concat xss) = (\<Union>xs\<in>set xss. elems xs)"
  by (induction xss) (auto simp: elems_Nil elems_append)

lemma raw_concat: "raw (concat xss) \<longleftrightarrow> (\<forall>xs\<in>set xss. raw xs)"
  by (induction xss) (auto simp: raw_Nil raw_append)

lemma foldl_union:
  "inv a \<Longrightarrow> list_all raw bs \<Longrightarrow>
     inv (foldl union a bs) \<and> elems (foldl union a bs) = elems a \<union> (\<Union>b\<in>set bs. elems b)"
  by (induction bs arbitrary: a) (auto simp: union_elems union_inv)

lemma diff_diff:
  "inv a \<Longrightarrow> inv b \<Longrightarrow> inv c \<Longrightarrow>
     inv (diff (diff a b) c) \<and> elems (diff (diff a b) c) = elems a - elems b - elems c"
  by (simp add: diff_elems diff_inv)

lemma diff_empty_iff: "inv a \<Longrightarrow> inv b \<Longrightarrow> diff a b = [] \<longleftrightarrow> elems a \<subseteq> elems b"
  using inv_empty [OF diff_inv] diff_elems by fastforce

end

interpretation ext: extent_algebra exts_set wf_extents no_wrap unionExtents subtractExtents
  by unfold_locales
    (auto simp: no_wrap_def wf_exts_empty wf_no_wrap [unfolded no_wrap_def]
      unionExtents_spec(2) [unfolded no_wrap_def] subtractExtents_spec
      intro!: normal_imp_wf unionExtents_spec(1) [unfolded no_wrap_def])

section \<open>Properties\<close>

text \<open>
  C39. \<open>validateExtents\<close> accepts exactly the sorted, disjoint, non-empty extents inside the
  volume, and the count it returns is the number of blocks they cover; its overflow
  branch is never taken.
\<close>

theorem validateExtents_correct:
  "(validateExtents es m = Inr n \<longleftrightarrow>
     wf_extents es \<and> exts_set es \<subseteq> {..<m} \<and> unat n = card (exts_set es)) \<and>
   validateExtents es m \<noteq> Inl (Errorf ''block extent count overflows'')"
  using validateExtents_Inr validate_loop_no_overflow [of 0 0 0] by (simp add: validateExtents_def)

text \<open>
  On sorted disjoint extents, the merge-style scan of \<open>extentsContain\<close> decides set
  inclusion.
\<close>

theorem extentsContain_iff:
  assumes "wf_extents outer" "wf_extents inner"
  shows "extentsContain outer inner \<longleftrightarrow> exts_set inner \<subseteq> exts_set outer"
  using assms by (rule extentsContain_subset)

theorem extentsContain_iff_witness:
  "exts_set [Extent 2 4] \<subseteq> exts_set [Extent 0 4, Extent 4 4]"
proof -
  have "wf_extents [Extent 0 4, Extent 4 4]" "wf_extents [Extent 2 4]" by code_simp+
  moreover have "extentsContain [Extent 0 4, Extent 4 4] [Extent 2 4]" by code_simp
  ultimately show ?thesis using extentsContain_iff by blast
qed

text \<open>
  C40. \<open>subtractExtents\<close> (binary search for the first removed extent, then one linear pass)
  is set difference and keeps the result sorted and disjoint.
\<close>

theorem subtractExtents_difference:
  assumes "wf_extents es" "wf_extents removed"
  shows "exts_set (subtractExtents es removed) = exts_set es - exts_set removed \<and>
    wf_extents (subtractExtents es removed)"
  using ext.diff_elems [OF assms] ext.diff_inv [OF assms] by simp

theorem subtractExtents_difference_witness:
  "exts_set [Extent 0 3, Extent 5 1, Extent 9 1] =
     exts_set [Extent 0 6, Extent 8 2] - exts_set [Extent 3 2, Extent 6 3]"
proof -
  have "wf_extents [Extent 0 6, Extent 8 2]" "wf_extents [Extent 3 2, Extent 6 3]" by code_simp+
  moreover have "subtractExtents [Extent 0 6, Extent 8 2] [Extent 3 2, Extent 6 3] =
      [Extent 0 3, Extent 5 1, Extent 9 1]" by code_simp
  ultimately show ?thesis using subtractExtents_difference by metis
qed

text \<open>
  \<open>unionExtents\<close> of a sorted disjoint left list and an arbitrary right list is set
  union, and its result is normalised: sorted, disjoint and with touching extents merged.
\<close>

theorem unionExtents_union:
  assumes "wf_extents left" "no_wrap right"
  shows "exts_set (unionExtents left right) = exts_set left \<union> exts_set right \<and>
    normal_extents (unionExtents left right)"
  using unionExtents_spec [OF assms] by simp

theorem unionExtents_union_witness:
  "exts_set [Extent 0 6, Extent 8 3] = exts_set [Extent 0 2, Extent 8 1] \<union> exts_set [Extent 9 2, Extent 1 5, Extent 2 0]"
proof -
  have "wf_extents [Extent 0 2, Extent 8 1]" "no_wrap [Extent 9 2, Extent 1 5, Extent 2 0]"
    by code_simp+
  moreover have "unionExtents [Extent 0 2, Extent 8 1] [Extent 9 2, Extent 1 5, Extent 2 0] =
      [Extent 0 6, Extent 8 3]" by code_simp
  ultimately show ?thesis using unionExtents_union by metis
qed

text \<open>
  \<open>byteRangeExtents\<close> returns exactly the blocks that hold a byte of the requested
  range inside the image, for every offset and length and every image below \<open>2^63\<close> bytes.
\<close>

theorem byteRangeExtents_blocks:
  assumes "0 \<le> off" "sz < 2 ^ 63"
  shows "exts_set (byteRangeExtents off len sz) =
      {b. \<exists>i. off \<le> i \<and> i < off + len \<and> i < sz \<and> uint b = i div DefaultBlockSize} \<and>
    wf_extents (byteRangeExtents off len sz)"
  using byteRangeExtents_spec [OF assms(2)] assms(1) by simp

theorem byteRangeExtents_blocks_witness:
  "exts_set [Extent 0 2] =
     {b. \<exists>i. 4095 \<le> i \<and> i < 4095 + 2 \<and> i < 8192 \<and> uint b = i div DefaultBlockSize}"
proof -
  have "byteRangeExtents 4095 2 8192 = [Extent 0 2]" by code_simp
  then show ?thesis using byteRangeExtents_blocks [of 4095 8192 2] by simp
qed

end
