(* ===== verification/Generation.thy ===== *)
theory Generation
  imports Bytes Extents "HOL-Library.Finite_Map"
begin

text \<open>
  Generations (\<open>internal/replica/device.go\<close>) and their merge (\<open>internal/replica/syncer.go\<close>):
  the complete blocks changed during one sync interval. A Go map is a finite map; a
  \<open>*Generation\<close> that may be nil is an option.
\<close>

definition BlockSize :: nat where
  "BlockSize = nat DefaultBlockSize"

record Generation =
  gen_Blocks :: "(u64, bytes) fmap"
  gen_bytes :: int
  journalSeq :: u64

definition Generation_Empty :: "Generation option \<Rightarrow> bool" where
  "Generation_Empty g = (case g of None \<Rightarrow> True | Some g' \<Rightarrow> fmdom (gen_Blocks g') = {||})"

definition sortedBlocks :: "Generation \<Rightarrow> u64 list" where
  "sortedBlocks g = sorted_list_of_fset (fmdom (gen_Blocks g))"

text \<open>Reading a missing key of a Go map of slices gives the nil slice.\<close>

definition block_data :: "Generation \<Rightarrow> u64 \<Rightarrow> bytes" where
  "block_data g b = (case fmlookup (gen_Blocks g) b of None \<Rightarrow> [] | Some d \<Rightarrow> d)"

definition Generation_Bytes :: "Generation option \<Rightarrow> int" where
  "Generation_Bytes g =
     (case g of
        None \<Rightarrow> 0
      | Some g' \<Rightarrow>
          if gen_bytes g' \<noteq> 0 then gen_bytes g'
          else (\<Sum>b\<leftarrow>sortedBlocks g'. int (length (block_data g' b))))"

definition mergeGenerations :: "Generation list \<Rightarrow> Generation" where
  "mergeGenerations generations =
     (let blocks = foldl (\<lambda>m g. fmadd m (gen_Blocks g)) fmempty generations
      in \<lparr>gen_Blocks = blocks, gen_bytes = int (fcard (fmdom blocks)) * DefaultBlockSize,
          journalSeq = 0\<rparr>)"

section \<open>Facts\<close>

text \<open>Every block is complete: the invariant of the generations the device seals.\<close>

definition wf_generation :: "Generation \<Rightarrow> bool" where
  "wf_generation g \<longleftrightarrow> (\<forall>b d. fmlookup (gen_Blocks g) b = Some d \<longrightarrow> length d = BlockSize)"

lemma BlockSize_simps: "BlockSize = 4096" "int BlockSize = DefaultBlockSize"
  by (simp_all add: BlockSize_def DefaultBlockSize_def)

lemma BlockSize_pos [simp]: "0 < BlockSize"
  by (simp add: BlockSize_simps)

lemma set_sortedBlocks [simp]: "set (sortedBlocks g) = fset (fmdom (gen_Blocks g))"
  by (simp add: sortedBlocks_def sorted_list_of_fset_simps)

lemma sorted_sortedBlocks: "sorted_wrt (<) (sortedBlocks g)"
  by (simp add: sortedBlocks_def sorted_list_of_fset.rep_eq strict_sorted_list_of_set)

lemma distinct_sortedBlocks: "distinct (sortedBlocks g)"
  by (simp add: sortedBlocks_def sorted_list_of_fset.rep_eq)

lemma sortedBlocks_Nil: "sortedBlocks g = [] \<longleftrightarrow> Generation_Empty (Some g)"
proof -
  have "sortedBlocks g = [] \<longleftrightarrow> fset (fmdom (gen_Blocks g)) = {}"
    by (metis set_sortedBlocks set_empty)
  then show ?thesis by (simp add: Generation_Empty_def bot_fset.rep_eq fset_inject [symmetric])
qed

lemma fmdom_lookup: "b \<in> fset (fmdom m) \<longleftrightarrow> (\<exists>d. fmlookup m b = Some d)"
  by (auto simp: fmdom_notI dest: fmdomI)

lemma foldl_fmadd_lookup:
  "fmlookup (foldl (\<lambda>m g. fmadd m (gen_Blocks g)) m gs) b =
     (case List.find (\<lambda>g. fmlookup (gen_Blocks g) b \<noteq> None) (rev gs) of
        None \<Rightarrow> fmlookup m b | Some g \<Rightarrow> fmlookup (gen_Blocks g) b)"
proof (induction gs rule: rev_induct)
  case (snoc g gs)
  then show ?case by (auto simp: fmlookup_add fmdom_lookup map_add_def split: option.splits)
qed simp

section \<open>Images as maps of blocks\<close>

text \<open>The image with some blocks replaced: the effect of every write of whole blocks.\<close>

definition overlay :: "(u64 \<rightharpoonup> bytes) \<Rightarrow> image \<Rightarrow> image" where
  "overlay f img = (\<lambda>i.
     if i div BlockSize < 2 ^ 64
     then (case f (of_nat (i div BlockSize)) of None \<Rightarrow> img i | Some d \<Rightarrow> d ! (i mod BlockSize))
     else img i)"

definition img_block :: "image \<Rightarrow> u64 \<Rightarrow> bytes" where
  "img_block img b = file_read img (unat b * BlockSize) BlockSize"

lemma overlay_empty [simp]: "overlay Map.empty img = img" "overlay (\<lambda>b. None) img = img"
  by (auto simp: overlay_def)

lemma overlay_overlay: "overlay f (overlay g img) = overlay (g ++ f) img"
  by (auto simp: overlay_def map_add_def fun_eq_iff split: option.splits)

lemma img_block_overlay:
  assumes "\<And>d. f b = Some d \<Longrightarrow> length d = BlockSize"
  shows "img_block (overlay f img) b = (case f b of None \<Rightarrow> img_block img b | Some d \<Rightarrow> d)"
proof -
  have "(unat b * BlockSize + i) div BlockSize = unat b" if "i < BlockSize" for i
    using that by (metis BlockSize_pos div_less div_mult_self3 add.right_neutral less_numeral_extra(3))
  then show ?thesis
    using assms unat_u64 [of b]
    by (intro nth_equalityI) (auto simp: img_block_def file_simps overlay_def split: option.splits)
qed

text \<open>Byte offsets and blocks.\<close>

lemma block_of_offset:
  fixes e :: Extent
  assumes "wf_extent e"
  shows "unat (Start e) * BlockSize \<le> i \<and> i < unat (Start e) * BlockSize + unat (Blocks e) * BlockSize \<longleftrightarrow>
    i div BlockSize < 2 ^ 64 \<and> (of_nat (i div BlockSize) :: u64) \<in> ext_set e"
proof -
  have end_eq: "unat (extent_end e) = unat (Start e) + unat (Blocks e)" by (rule unat_end [OF assms])
  have rng: "unat (Start e) * BlockSize \<le> i \<and> i < unat (Start e) * BlockSize + unat (Blocks e) * BlockSize \<longleftrightarrow>
      unat (Start e) \<le> i div BlockSize \<and> i div BlockSize < unat (extent_end e)"
    unfolding end_eq add_mult_distrib [symmetric]
    by (simp add: div_less_iff_less_mult less_eq_div_iff_mult_less_eq)
  show ?thesis
  proof (cases "i div BlockSize < 2 ^ 64")
    case True
    then have "unat (of_nat (i div BlockSize) :: u64) = i div BlockSize" by (simp add: unat_of_nat)
    then show ?thesis using True rng by (simp add: ext_set_def word_le_nat_alt word_less_nat_alt)
  next
    case False
    then show ?thesis using rng unat_u64 [of "extent_end e"] by auto
  qed
qed

end
