(* ===== verification/Segment.thy ===== *)
theory Segment
  imports Generation
begin

text \<open>
  Segments (\<open>internal/replica/segment.go\<close>): the binary format a generation is uploaded
  in, its decoder, and writing decoded runs into an image. gzip and SHA-256 are
  parameters (\<open>codec\<close>): every theorem holds for any digest function, and the ones that
  read back what was written assume only that decompression inverts compression.
\<close>

section \<open>Encoding\<close>

record codec =
  sha256 :: "bytes \<Rightarrow> bytes"
  gzip :: "bytes \<Rightarrow> bytes"
  gunzip :: "bytes \<Rightarrow> stream result"

definition gzip_ok :: "codec \<Rightarrow> bool" where
  "gzip_ok c \<longleftrightarrow> (\<forall>x. gunzip c (gzip c x) = Inr (x, True))"

record Segment =
  seg_Data :: bytes
  seg_SHA256 :: string
  seg_Bytes :: int
  seg_Blocks :: int
  seg_Extents :: "Extent list"
  seg_ZeroExtents :: "Extent list"

definition string_bytes :: "string \<Rightarrow> bytes" where
  "string_bytes s = map of_char s"

definition segmentMagic :: bytes where
  "segmentMagic = string_bytes ''SATSEG01''"

definition maxRunBlocks :: nat where
  "maxRunBlocks = 256"

definition DefaultSegmentBlocks :: int where
  "DefaultSegmentBlocks = 1024"

definition isZero :: "bytes \<Rightarrow> bool" where
  "isZero data = list_all (\<lambda>v. v = 0) data"

definition add_run :: "u64 list list \<Rightarrow> u64 \<Rightarrow> u64 list list" where
  "add_run runs block =
     (if runs = [] \<or> block \<noteq> last (last runs) + 1 \<or> length (last runs) \<ge> maxRunBlocks
      then runs @ [[block]]
      else butlast runs @ [last runs @ [block]])"

fun build_runs :: "Generation \<Rightarrow> u64 list list \<Rightarrow> u64 list \<Rightarrow> u64 list list result" where
  "build_runs g runs [] = Inr runs"
| "build_runs g runs (block # blocks) =
     (if length (block_data g block) \<noteq> BlockSize then Inl (Errorf ''block has wrong length'')
      else build_runs g (add_run runs block) blocks)"

definition encode_run :: "Generation \<Rightarrow> u64 list \<Rightarrow> bytes" where
  "encode_run g run =
     PutUint64 (hd run) @ PutUint32 (of_nat (length run * BlockSize)) @
     concat (map (block_data g) run)"

definition segment_payload :: "Generation \<Rightarrow> u64 list list \<Rightarrow> bytes" where
  "segment_payload g runs =
     segmentMagic @ PutUint32 (of_nat BlockSize) @ PutUint32 (of_nat (length runs)) @
     concat (map (encode_run g) runs)"

definition run_to_extent :: "u64 list \<Rightarrow> Extent" where
  "run_to_extent run = Extent (hd run) (of_nat (length run))"

definition zeroExtents :: "Generation \<Rightarrow> u64 list \<Rightarrow> Extent list" where
  "zeroExtents g blocks = blocksToExtents (filter (\<lambda>b. isZero (block_data g b)) blocks)"

text \<open>
  \<open>encodeSegmentBlocks\<close>. The gzip writer writes to a memory buffer, whose writes never
  fail, so the \<open>closeWithError\<close> paths do not occur.
\<close>

definition encodeSegmentBlocks :: "codec \<Rightarrow> Generation \<Rightarrow> u64 list \<Rightarrow> Segment result" where
  "encodeSegmentBlocks c g blocks =
     bindR (build_runs g [] blocks) (\<lambda>runs.
       let data = gzip c (segment_payload g runs) in
       Inr \<lparr>seg_Data = data, seg_SHA256 = hex_EncodeToString (sha256 c data),
            seg_Bytes = int (length data), seg_Blocks = int (length blocks),
            seg_Extents = map run_to_extent runs, seg_ZeroExtents = zeroExtents g blocks\<rparr>)"

definition EncodeSegment :: "codec \<Rightarrow> Generation option \<Rightarrow> Segment result" where
  "EncodeSegment c g =
     (if Generation_Empty g then Inl (Errorf ''cannot encode an empty generation'')
      else encodeSegmentBlocks c (the g) (sortedBlocks (the g)))"

text \<open>
  \<open>EncodeSegments\<close>: the slice \<open>blocks[index*n : min(len, index*n+n)]\<close> of every index is
  encoded by up to four workers. The workers share nothing but the result slots, so the
  outcome is that of encoding the slices in order; the error they can report is the same
  whichever slice fails first.
\<close>

definition segment_slice :: "u64 list \<Rightarrow> nat \<Rightarrow> nat \<Rightarrow> u64 list" where
  "segment_slice blocks n index = take n (drop (index * n) blocks)"

definition EncodeSegments :: "codec \<Rightarrow> Generation option \<Rightarrow> int \<Rightarrow> Segment list result" where
  "EncodeSegments c g blocksPerSegment =
     (if Generation_Empty g then Inl (Errorf ''cannot encode an empty generation'')
      else
        let n = nat (if blocksPerSegment \<le> 0 then DefaultSegmentBlocks else blocksPerSegment);
            blocks = sortedBlocks (the g);
            count = (length blocks - 1) div n + 1
        in if count = 1 then bindR (EncodeSegment c g) (\<lambda>s. Inr [s])
           else mapR (\<lambda>index. encodeSegmentBlocks c (the g) (segment_slice blocks n index)) [0..<count])"

section \<open>Decoding\<close>

record decodedRun =
  run_extent :: Extent
  run_data :: bytes

definition maxImageBlocks :: u64 where
  "maxImageBlocks = of_nat ((2 ^ 63 - 1) div 4096)"

text \<open>The loop over the runs; \<open>segBlocks\<close> is \<open>segment.Blocks\<close>, and the last three
  arguments are \<open>blocks\<close>, \<open>lastEnd\<close> and the result so far.\<close>

fun decode_runs ::
  "nat \<Rightarrow> nat \<Rightarrow> u32 \<Rightarrow> int \<Rightarrow> stream \<Rightarrow> int \<Rightarrow> u64 \<Rightarrow> decodedRun list \<Rightarrow>
     (decodedRun list \<times> int \<times> stream) result" where
  "decode_runs 0 i blockSize segBlocks s blocks lastEnd runs = Inr (runs, blocks, s)"
| "decode_runs (Suc k) i blockSize segBlocks s blocks lastEnd runs =
     bindR (io_ReadFull 8 s) (\<lambda>(b1, s1).
     bindR (io_ReadFull 4 s1) (\<lambda>(b2, s2).
       let block = Uint64 b1; len = Uint32 b2 in
       if len = 0 \<or> len mod blockSize \<noteq> 0 \<or> len > of_nat maxRunBlocks * blockSize
       then Inl (Errorf ''segment contains an invalid extent'')
       else
         let extent = Extent block (ucast (len div blockSize)) in
         if uint (Blocks extent) > segBlocks - blocks
         then Inl (Errorf ''segment block count exceeds its manifest'')
         else if extent_end extent < Start extent \<or> extent_end extent > maxImageBlocks \<or>
                 i > 0 \<and> Start extent < lastEnd
         then Inl (Errorf ''segment contains overlapping or out-of-range extents'')
         else
           bindR (io_ReadFull (unat len) s2) (\<lambda>(data, s3).
             decode_runs k (Suc i) blockSize segBlocks s3 (blocks + uint (Blocks extent))
               (extent_end extent) (runs @ [\<lparr>run_extent = extent, run_data = data\<rparr>]))))"

definition decodeSegment :: "codec \<Rightarrow> Segment \<Rightarrow> decodedRun list result" where
  "decodeSegment c segment =
     (if seg_Bytes segment \<noteq> 0 \<and> seg_Bytes segment \<noteq> int (length (seg_Data segment))
      then Inl (Errorf ''segment length mismatch'')
      else if hex_EncodeToString (sha256 c (seg_Data segment)) \<noteq> seg_SHA256 segment
      then Inl (Errorf ''segment checksum mismatch'')
      else
        case gunzip c (seg_Data segment) of
          Inl e \<Rightarrow> Inl (Wrap ''open segment'' e)
        | Inr s \<Rightarrow>
            bindR (io_ReadFull (length segmentMagic) s) (\<lambda>(header, s1).
            if header \<noteq> segmentMagic then Inl (Errorf ''invalid segment magic'')
            else bindR (io_ReadFull 4 s1) (\<lambda>(b2, s2).
            if Uint32 b2 \<noteq> of_nat BlockSize then Inl (Errorf ''unsupported segment block size'')
            else bindR (io_ReadFull 4 s2) (\<lambda>(b3, s3).
            let runCount = Uint32 b3 in
            if seg_Blocks segment \<le> 0 \<or> uint runCount > seg_Blocks segment
            then Inl (Errorf ''segment has an invalid run count'')
            else bindR (decode_runs (unat runCount) 0 (Uint32 b2) (seg_Blocks segment) s3 0 0 [])
              (\<lambda>(runs, blocks, s4).
                 if fst s4 \<noteq> [] \<or> \<not> snd s4
                 then Inl (Errorf ''segment has trailing or unreadable data'')
                 else if seg_Blocks segment \<noteq> 0 \<and> seg_Blocks segment \<noteq> blocks
                 then Inl (Errorf ''segment block count mismatch'')
                 else Inr runs)))))"

section \<open>Writing runs into an image\<close>

text \<open>
  One overlap of a run. A slice expression outside the run's data would panic; the guard
  shows where. Punching a hole leaves zeros, exactly what writing the zero data leaves.
\<close>

definition apply_overlap ::
  "fileio \<Rightarrow> int \<Rightarrow> decodedRun \<Rightarrow> image \<Rightarrow> Extent \<Rightarrow> image \<times> unit result" where
  "apply_overlap io sz run img overlap =
     (if extent_end overlap < Start overlap \<or>
         extent_end overlap > word_of_int (sz div DefaultBlockSize)
      then (img, Inl (Errorf ''segment contains an extent outside the image''))
      else
        let offset = unat (Start overlap) * BlockSize;
            len = unat (Blocks overlap) * BlockSize;
            start = unat (Start overlap - Start (run_extent run)) * BlockSize
        in if start + len > length (run_data run) then (img, Inl (Errorf ''slice bounds out of range''))
           else
             let data = take len (drop start (run_data run)) in
             if isZero data \<and> \<not> punch_fails io offset len then (file_write img offset data, Inr ())
             else
               (case file_WriteAt io img data offset of
                  (img', n, None) \<Rightarrow> (img', Inr ())
                | (img', n, Some e) \<Rightarrow> (img', Inl e)))"

fun apply_overlaps ::
  "fileio \<Rightarrow> int \<Rightarrow> decodedRun \<Rightarrow> image \<Rightarrow> Extent list \<Rightarrow> image \<times> unit result" where
  "apply_overlaps io sz run img [] = (img, Inr ())"
| "apply_overlaps io sz run img (overlap # overlaps) =
     (case apply_overlap io sz run img overlap of
        (img', Inl e) \<Rightarrow> (img', Inl e)
      | (img', Inr _) \<Rightarrow> apply_overlaps io sz run img' overlaps)"

fun apply_runs_loop ::
  "fileio \<Rightarrow> int \<Rightarrow> Extent list \<Rightarrow> image \<Rightarrow> decodedRun list \<Rightarrow> image \<times> unit result" where
  "apply_runs_loop io sz selected img [] = (img, Inr ())"
| "apply_runs_loop io sz selected img (run # runs) =
     (case apply_overlaps io sz run img (intersectExtent (run_extent run) selected) of
        (img', Inl e) \<Rightarrow> (img', Inl e)
      | (img', Inr _) \<Rightarrow> apply_runs_loop io sz selected img' runs)"

text \<open>A nil \<open>selected\<close> selects every run.\<close>

definition applyRuns ::
  "fileio \<Rightarrow> image \<Rightarrow> int \<Rightarrow> decodedRun list \<Rightarrow> Extent list option \<Rightarrow> image \<times> unit result" where
  "applyRuns io img sz runs selected =
     (let sel = (case selected of None \<Rightarrow> map run_extent runs | Some es \<Rightarrow> es) in
      if sz < 0 then (img, Inl (Errorf ''segment cannot be applied to a negative-size image''))
      else apply_runs_loop io sz sel img runs)"

text \<open>\<open>ApplySegment\<close>: \<open>opened\<close> is the result of opening the image file.\<close>

definition ApplySegment ::
  "codec \<Rightarrow> fileio \<Rightarrow> image result \<Rightarrow> int \<Rightarrow> Segment \<Rightarrow> (image \<times> unit result) result" where
  "ApplySegment c io opened sz segment =
     bindR (decodeSegment c segment) (\<lambda>runs.
     bindR opened (\<lambda>img. Inr (applyRuns io img sz runs None)))"

section \<open>What runs hold\<close>

definition wf_run :: "decodedRun \<Rightarrow> bool" where
  "wf_run r \<longleftrightarrow> wf_extent (run_extent r) \<and>
     length (run_data r) = unat (Blocks (run_extent r)) * BlockSize"

definition wf_runs :: "decodedRun list \<Rightarrow> bool" where
  "wf_runs rs \<longleftrightarrow> list_all wf_run rs \<and> wf_extents (map run_extent rs) \<and>
     exts_set (map run_extent rs) \<subseteq> {..<maxImageBlocks}"

definition run_block :: "decodedRun \<Rightarrow> u64 \<Rightarrow> bytes" where
  "run_block r b = take BlockSize (drop (unat (b - Start (run_extent r)) * BlockSize) (run_data r))"

fun runs_block :: "decodedRun list \<Rightarrow> u64 \<Rightarrow> bytes option" where
  "runs_block [] b = None"
| "runs_block (r # rs) b =
     (if Start (run_extent r) \<le> b \<and> b < extent_end (run_extent r) then Some (run_block r b)
      else runs_block rs b)"

section \<open>Runs of consecutive blocks\<close>

definition consec :: "u64 list \<Rightarrow> bool" where
  "consec run \<longleftrightarrow> run \<noteq> [] \<and> (\<forall>i<length run. run ! i = hd run + of_nat i)"

lemma consec_last: "consec run \<Longrightarrow> last run = hd run + of_nat (length run - 1)"
  by (auto simp: consec_def last_conv_nth)

lemma consec_snoc: "consec run \<Longrightarrow> consec (run @ [last run + 1])"
proof -
  assume c: "consec run"
  then have "last run + 1 = hd run + of_nat (length run)"
    using consec_last [OF c] by (cases run) (auto simp: consec_def add.assoc)
  then show ?thesis
    using c unfolding consec_def by (auto simp: nth_append less_Suc_eq)
qed

lemma consec_single [simp]: "consec [b]"
  by (simp add: consec_def)

lemma consec_nonempty: "consec run \<Longrightarrow> run \<noteq> []"
  by (simp add: consec_def)

lemma consec_step: "consec run \<Longrightarrow> Suc i < length run \<Longrightarrow> run ! Suc i = run ! i + 1"
  by (simp add: consec_def add.commute add.left_commute)

text \<open>The invariant of the run builder.\<close>

definition good_runs :: "u64 list list \<Rightarrow> bool" where
  "good_runs runs \<longleftrightarrow> list_all (\<lambda>run. consec run \<and> length run \<le> maxRunBlocks) runs"

lemma good_runs_snoc:
  "good_runs (rs @ [r]) \<longleftrightarrow> good_runs rs \<and> consec r \<and> length r \<le> maxRunBlocks"
  by (auto simp: good_runs_def)

lemma add_run_spec:
  assumes "good_runs runs"
  shows "good_runs (add_run runs b) \<and> concat (add_run runs b) = concat runs @ [b]"
proof (cases runs rule: rev_cases)
  case Nil
  then show ?thesis by (simp add: add_run_def good_runs_def maxRunBlocks_def)
next
  case (snoc rs r)
  show ?thesis
  proof (cases "b \<noteq> last r + 1 \<or> length r \<ge> maxRunBlocks")
    case True
    then show ?thesis
      using assms snoc by (auto simp: add_run_def good_runs_def maxRunBlocks_def)
  next
    case False
    then show ?thesis
      using assms snoc consec_snoc by (auto simp: add_run_def good_runs_snoc)
  qed
qed

lemma build_runs_Inr:
  "good_runs runs \<Longrightarrow> build_runs g runs bs = Inr out \<Longrightarrow>
     good_runs out \<and> concat out = concat runs @ bs \<and> (\<forall>b\<in>set bs. length (block_data g b) = BlockSize)"
proof (induction bs arbitrary: runs)
  case (Cons b bs)
  then show ?case using add_run_spec [of runs b] by (auto split: if_splits)
qed simp

lemma build_runs_ok:
  "(\<forall>b\<in>set bs. length (block_data g b) = BlockSize) \<Longrightarrow> \<exists>out. build_runs g runs bs = Inr out"
  by (induction bs arbitrary: runs) auto

text \<open>A run below the image limit covers exactly its blocks.\<close>

lemma maxImageBlocks_val: "unat maxImageBlocks = 2251799813685247"
  by (simp add: maxImageBlocks_def)

lemma consec_unat:
  assumes "consec run" "length run \<le> maxRunBlocks" "hd run < maxImageBlocks" "i \<le> length run"
  shows "unat (hd run + of_nat i) = unat (hd run) + i"
proof -
  have "i \<le> 256" using assms by (simp add: maxRunBlocks_def)
  then have "unat (of_nat i :: u64) = i" by (simp add: unat_of_nat)
  moreover have "unat (hd run) < 2251799813685247"
    using assms(3) maxImageBlocks_val by (simp add: word_less_nat_alt)
  ultimately show ?thesis
    using \<open>i \<le> 256\<close> by (simp add: unat_word_ariths)
qed

lemma run_to_extent_spec:
  assumes "consec run" "length run \<le> maxRunBlocks" "hd run < maxImageBlocks"
  shows "ext_set (run_to_extent run) = set run" "wf_extent (run_to_extent run)"
    "unat (Blocks (run_to_extent run)) = length run"
proof -
  note u = consec_unat [OF assms]
  have pos: "0 < length run" using assms(1) by (simp add: consec_def)
  have len: "unat (of_nat (length run) :: u64) = length run"
    using assms(2) by (simp add: unat_of_nat maxRunBlocks_def)
  show "unat (Blocks (run_to_extent run)) = length run" by (simp add: run_to_extent_def len)
  show "wf_extent (run_to_extent run)"
    using u [of "length run"] pos
    by (simp add: wf_extent_def run_to_extent_def extent_end_def word_less_nat_alt)
  have "b \<in> set run \<longleftrightarrow> hd run \<le> b \<and> b < hd run + of_nat (length run)" for b
  proof
    assume "b \<in> set run"
    then obtain i where i: "i < length run" "b = hd run + of_nat i"
      using assms(1) by (auto simp: in_set_conv_nth consec_def)
    then show "hd run \<le> b \<and> b < hd run + of_nat (length run)"
      using u [of i] u [of "length run"] by (simp add: word_le_nat_alt word_less_nat_alt)
  next
    assume b: "hd run \<le> b \<and> b < hd run + of_nat (length run)"
    define i where "i = unat b - unat (hd run)"
    have i: "i < length run" "unat (hd run) + i = unat b"
      using b u [of "length run"] by (auto simp: i_def word_le_nat_alt word_less_nat_alt)
    then have "unat (hd run + of_nat i) = unat b" using u [of i] by simp
    then have "b = hd run + of_nat i" by (metis unsigned_word_eqI)
    then show "b \<in> set run" using assms(1) i(1) by (metis consec_def nth_mem)
  qed
  then show "ext_set (run_to_extent run) = set run"
    by (auto simp: ext_set_def run_to_extent_def extent_end_def)
qed

lemma runs_wf_extents:
  assumes "good_runs runs" "sorted_wrt (<) (concat runs)" "\<forall>b\<in>set (concat runs). b < maxImageBlocks"
  shows "wf_extents (map run_to_extent runs) \<and> exts_set (map run_to_extent runs) = set (concat runs)"
  using assms
proof (induction runs)
  case (Cons r rs)
  then have r: "consec r" "length r \<le> maxRunBlocks" by (simp_all add: good_runs_def)
  then have "hd r < maxImageBlocks" using Cons.prems(3) consec_nonempty by simp
  note R = run_to_extent_spec [OF r this]
  have IH: "wf_extents (map run_to_extent rs)" "exts_set (map run_to_extent rs) = set (concat rs)"
    using Cons by (auto simp: good_runs_def sorted_wrt_append)
  have "extent_end (run_to_extent r) \<le> Start x" if x: "x \<in> set (map run_to_extent rs)" for x
  proof -
    obtain r' where r': "r' \<in> set rs" "x = run_to_extent r'"
      using x by auto
    then have ne: "r' \<noteq> []" using Cons.prems(1) by (auto simp: good_runs_def list_all_iff consec_def)
    have all: "\<forall>b\<in>set r. b < hd r'"
      using Cons.prems(2) r' ne by (auto simp: sorted_wrt_append)
    have "hd r' \<notin> ext_set (run_to_extent r)" using all R(1) by auto
    moreover have "hd r < hd r'" using all consec_nonempty [OF r(1)] by simp
    ultimately show ?thesis using r'(2) by (auto simp: ext_set_def run_to_extent_def not_less)
  qed
  then show ?case using IH R by (auto simp: wf_extents_Cons)
qed simp



section \<open>Decoding accepts only well-formed runs\<close>

lemma decode_extent_wf:
  assumes "len \<noteq> 0" "len mod of_nat BlockSize = 0" "len \<le> of_nat maxRunBlocks * of_nat BlockSize"
    "\<not> extent_end e < Start e" "e = Extent blk (ucast (len div of_nat BlockSize :: u32))"
  shows "wf_extent e" "unat (Blocks e) * BlockSize = unat len" 
proof -
  have d: "unat (len div of_nat BlockSize) = unat len div 4096"
    by (simp add: unat_div BlockSize_simps)
  have "unat (len mod of_nat BlockSize) = unat len mod 4096"
    by (simp add: unat_mod BlockSize_simps)
  then have m: "unat len mod 4096 = 0" using assms(2) by simp
  have "unat len div 4096 < 2 ^ 64"
    using unat_u32 [of len] by simp
  then have u: "unat (ucast (len div of_nat BlockSize :: u32) :: u64) = unat len div 4096"
    using d by (simp add: unsigned_ucast_eq take_bit_nat_eq_self)
  show b: "unat (Blocks e) * BlockSize = unat len"
    using m u assms(5) by (simp add: BlockSize_simps mod_eq_0_iff_dvd)
  then have "Blocks e \<noteq> 0" using assms(1) by (auto simp: unat_eq_zero)
  then show "wf_extent e" using assms(4) wf_extent_alt by blast
qed


definition run_count :: "decodedRun list \<Rightarrow> int" where
  "run_count rs = (\<Sum>r\<leftarrow>rs. uint (Blocks (run_extent r)))"

definition decode_inv :: "decodedRun list \<Rightarrow> int \<Rightarrow> u64 \<Rightarrow> nat \<Rightarrow> bool" where
  "decode_inv runs blocks lastEnd i \<longleftrightarrow> wf_runs runs \<and> blocks = run_count runs \<and> i = length runs \<and>
     (\<forall>r\<in>set runs. extent_end (run_extent r) \<le> lastEnd)"

lemma decode_inv_step:
  assumes "decode_inv runs blocks lastEnd i" "wf_extent e" "extent_end e \<le> maxImageBlocks"
    "i > 0 \<longrightarrow> lastEnd \<le> Start e" "length d = unat (Blocks e) * BlockSize"
  shows "decode_inv (runs @ [\<lparr>run_extent = e, run_data = d\<rparr>]) (blocks + uint (Blocks e)) (extent_end e) (Suc i)"
proof -
  have before: "extent_end (run_extent r) \<le> Start e" if "r \<in> set runs" for r
    using assms(1,4) that by (cases runs) (auto simp: decode_inv_def intro: order_trans)
  have "extent_end (run_extent r) \<le> extent_end e" if "r \<in> set runs" for r
    using before [OF that] assms(2) by (auto simp: wf_extent_def)
  moreover have "wf_extents (map run_extent runs @ [e])"
    using assms(1,2) before
    by (auto simp: wf_extents_append wf_extents_Cons decode_inv_def wf_runs_def)
  ultimately show ?thesis
    using assms before by (auto simp: decode_inv_def wf_runs_def run_count_def wf_run_def ext_set_def)
qed

lemma decode_runs_sound:
  "decode_runs k i (of_nat BlockSize) n s blocks lastEnd runs = Inr (out, m, s') \<Longrightarrow>
     decode_inv runs blocks lastEnd i \<Longrightarrow>
     wf_runs out \<and> m = run_count out \<and> length out = length runs + k"
proof (induction k arbitrary: i s blocks lastEnd runs)
  case 0
  then show ?case by (simp add: decode_inv_def)
next
  case (Suc k)
  obtain b1 s1 b2 s2 where rd: "io_ReadFull 8 s = Inr (b1, s1)" "io_ReadFull 4 s1 = Inr (b2, s2)"
    using Suc.prems(1) by auto
  define len e where "len = Uint32 b2" "e = Extent (Uint64 b1) (ucast (len div of_nat BlockSize))"
  have g: "len \<noteq> 0" "len mod of_nat BlockSize = 0" "len \<le> of_nat maxRunBlocks * of_nat BlockSize"
      "\<not> extent_end e < Start e" "extent_end e \<le> maxImageBlocks" "i > 0 \<longrightarrow> lastEnd \<le> Start e"
    using Suc.prems(1) rd by (auto simp: Let_def len_e_def not_less split: if_splits)
  obtain d s3 where d: "io_ReadFull (unat len) s2 = Inr (d, s3)"
    and rest: "decode_runs k (Suc i) (of_nat BlockSize) n s3 (blocks + uint (Blocks e)) (extent_end e)
        (runs @ [\<lparr>run_extent = e, run_data = d\<rparr>]) = Inr (out, m, s')"
    using Suc.prems(1) rd g by (auto simp: Let_def len_e_def not_less split: if_splits)
  have wf: "wf_extent e" "unat (Blocks e) * BlockSize = unat len"
    using decode_extent_wf [OF g(1-4) len_e_def(2)] by auto
  have "length d = unat len" using d by (auto simp: io_ReadFull_def split: if_splits)
  with wf decode_inv_step [OF Suc.prems(2) wf(1) g(5,6), of d]
  have "decode_inv (runs @ [\<lparr>run_extent = e, run_data = d\<rparr>]) (blocks + uint (Blocks e)) (extent_end e) (Suc i)"
    by simp
  from Suc.IH [OF rest this] show ?case by simp
qed

lemma decodeSegment_sound:
  assumes "decodeSegment c segment = Inr runs"
  shows "wf_runs runs" "run_count runs = seg_Blocks segment"
    "hex_EncodeToString (sha256 c (seg_Data segment)) = seg_SHA256 segment"
proof -
  obtain k n s s' where "decode_runs k 0 (of_nat BlockSize) (seg_Blocks segment) s 0 0 [] = Inr (runs, n, s')"
    and n: "n = seg_Blocks segment"
    using assms by (auto simp: decodeSegment_def Let_def split: if_splits sum.splits)
  from decode_runs_sound [OF this(1)]
  have "wf_runs runs \<and> n = run_count runs"
    by (simp add: decode_inv_def wf_runs_def run_count_def)
  then show "wf_runs runs" "run_count runs = seg_Blocks segment" using n by auto
  show "hex_EncodeToString (sha256 c (seg_Data segment)) = seg_SHA256 segment"
    using assms by (auto simp: decodeSegment_def split: if_splits)
qed


section \<open>Decoding inverts encoding\<close>

definition as_decoded :: "Generation \<Rightarrow> u64 list \<Rightarrow> decodedRun" where
  "as_decoded g run = \<lparr>run_extent = run_to_extent run, run_data = concat (map (block_data g) run)\<rparr>"

definition full_blocks :: "Generation \<Rightarrow> u64 list \<Rightarrow> bool" where
  "full_blocks g bs \<longleftrightarrow> (\<forall>b\<in>set bs. length (block_data g b) = BlockSize)"

lemma full_blocks_length: "full_blocks g run \<Longrightarrow> length (concat (map (block_data g) run)) = length run * BlockSize"
  by (induction run) (auto simp: full_blocks_def)

text \<open>The length field of a run, as the decoder reads it.\<close>

lemma run_len_word:
  fixes len :: u32
  assumes "unat len = n * 4096" "0 < n" "n \<le> 256"
  shows "len \<noteq> 0" "len mod of_nat BlockSize = 0" "\<not> len > of_nat maxRunBlocks * of_nat BlockSize"
    "ucast (len div of_nat BlockSize) = (of_nat n :: u64)"
proof -
  show "len \<noteq> 0" using assms(1,2) by auto
  show "len mod of_nat BlockSize = 0"
    by (rule unsigned_word_eqI [where ?'a = nat]) (simp add: unat_mod BlockSize_simps assms(1))
  show "\<not> len > of_nat maxRunBlocks * of_nat BlockSize"
    using assms(1,3) by (simp add: word_less_nat_alt BlockSize_simps maxRunBlocks_def)
  show "ucast (len div of_nat BlockSize) = (of_nat n :: u64)"
    using assms(3) by (intro unsigned_word_eqI [where ?'a = nat])
      (simp add: unsigned_ucast_eq take_bit_nat_eq_self unat_div unat_of_nat BlockSize_simps assms(1))
qed

lemma unat_run_len: "n \<le> 256 \<Longrightarrow> unat (of_nat (n * BlockSize) :: u32) = n * 4096"
  by (simp add: unat_of_nat BlockSize_simps del: of_nat_mult)

lemma decode_one_run:
  assumes run: "consec run" "length run \<le> maxRunBlocks" "hd run < maxImageBlocks"
    and "full_blocks g run" "extent_end (run_to_extent run) \<le> maxImageBlocks" 
    "i > 0 \<longrightarrow> lastEnd \<le> hd run" "int (length run) \<le> n - blocks"
  shows "decode_runs (Suc k) i (of_nat BlockSize) n (encode_run g run @ rest, eof) blocks lastEnd out =
    decode_runs k (Suc i) (of_nat BlockSize) n (rest, eof) (blocks + int (length run))
      (extent_end (run_to_extent run)) (out @ [as_decoded g run])"
proof -
  define len :: u32 where "len = of_nat (length run * BlockSize)"
  define dat where "dat = concat (map (block_data g) run)"
  define ex where "ex = run_to_extent run"
  have le: "length run \<le> 256" "0 < length run"
    using run by (auto simp: consec_def maxRunBlocks_def)
  from le(1) have ul: "unat len = length run * 4096" unfolding len_def by (rule unat_run_len)
  note L = run_len_word [OF ul le(2,1)]
  note R = run_to_extent_spec [OF run, folded ex_def]
  have bytes: "encode_run g run @ rest = PutUint64 (hd run) @ PutUint32 len @ dat @ rest"
    by (simp add: encode_run_def len_def dat_def)
  have ext: "Extent (hd run) (ucast (len div of_nat BlockSize)) = ex"
    by (simp add: run_to_extent_def ex_def L(4))
  have bl: "uint (Blocks ex) = int (length run)" by (simp only: uint_nat R(3))
  have data: "length dat = unat len"
    using full_blocks_length [OF assms(4)] by (simp add: ul dat_def BlockSize_simps)
  have noend: "\<not> extent_end ex < Start ex" using R(2) by (auto simp: wf_extent_def)
  have st: "Start ex = hd run" by (simp add: run_to_extent_def ex_def)
  have dec: "as_decoded g run = \<lparr>run_extent = ex, run_data = dat\<rparr>"
    by (simp add: as_decoded_def ex_def dat_def)
  have ok: "\<not> (extent_end ex < Start ex \<or> extent_end ex > maxImageBlocks \<or> i > 0 \<and> Start ex < lastEnd)"
    "\<not> n - blocks < int (length run)" "\<not> (len = 0 \<or> len mod of_nat BlockSize \<noteq> 0 \<or> len > of_nat maxRunBlocks * of_nat BlockSize)"
    using noend assms(5-7) L bl by (auto simp: ex_def [symmetric] st not_less)
  show ?thesis
    unfolding bytes dec ex_def [symmetric] decode_runs.simps Put_length [THEN ReadFull_append]
      bindR_simps split Uint64_Put Uint32_Put Let_def ext
    by (simp only: ok if_False ReadFull_append [OF data] bindR_simps split bl)
qed

lemma decode_runs_encode:
  assumes "good_runs rs" "full_blocks g (concat rs)" "wf_extents (map run_to_extent rs)"
    "exts_set (map run_to_extent rs) \<subseteq> {..<maxImageBlocks}"
    "i > 0 \<longrightarrow> (\<forall>r\<in>set rs. lastEnd \<le> hd r)" "int (length (concat rs)) \<le> n - blocks"
  shows "decode_runs (length rs) i (of_nat BlockSize) n (concat (map (encode_run g) rs) @ rest, eof) blocks lastEnd out =
    Inr (out @ map (as_decoded g) rs, blocks + int (length (concat rs)), (rest, eof))"
  using assms
proof (induction rs arbitrary: i blocks lastEnd out)
  case (Cons r rs)
  have r: "consec r" "length r \<le> maxRunBlocks" "full_blocks g r"
    and rs: "good_runs rs" "full_blocks g (concat rs)" "wf_extents (map run_to_extent rs)"
      "exts_set (map run_to_extent rs) \<subseteq> {..<maxImageBlocks}"
    using Cons.prems by (auto simp: good_runs_def full_blocks_def wf_extents_Cons)
  have e: "extent_end (run_to_extent r) \<le> maxImageBlocks" "wf_extent (run_to_extent r)"
    using Cons.prems(3,4) exts_set_bounded [OF Cons.prems(3), of maxImageBlocks]
    by (auto simp: wf_extents_Cons)
  then have h: "hd r < maxImageBlocks"
    by (simp add: wf_extent_def run_to_extent_def) 
  have after: "\<forall>r'\<in>set rs. extent_end (run_to_extent r) \<le> hd r'"
    using Cons.prems(3) by (auto simp: wf_extents_Cons run_to_extent_def)
  have "decode_runs (length (r # rs)) i (of_nat BlockSize) n
      (encode_run g r @ concat (map (encode_run g) rs) @ rest, eof) blocks lastEnd out =
    decode_runs (length rs) (Suc i) (of_nat BlockSize) n (concat (map (encode_run g) rs) @ rest, eof)
      (blocks + int (length r)) (extent_end (run_to_extent r)) (out @ [as_decoded g r])"
    using Cons.prems(5,6) by (simp only: list.size(4) add_Suc_right add_0_right, intro decode_one_run r e h) auto
  also have "\<dots> = Inr ((out @ [as_decoded g r]) @ map (as_decoded g) rs,
      blocks + int (length r) + int (length (concat rs)), (rest, eof))"
    using Cons.prems(6) after by (intro Cons.IH rs) auto
  finally show ?case by (simp add: add.assoc)
qed simp

lemma run_block_as_decoded:
  assumes run: "consec run" "length run \<le> maxRunBlocks" "hd run < maxImageBlocks"
    and "full_blocks g run" "b \<in> set run"
  shows "run_block (as_decoded g run) b = block_data g b"
proof -
  obtain i where i: "i < length run" "b = run ! i" using assms(5) by (auto simp: in_set_conv_nth)
  then have b: "b = hd run + of_nat i" using run(1) by (simp add: consec_def)
  have "i < 2 ^ 64" using i run(2) by (simp add: maxRunBlocks_def)
  then have "unat (b - hd run) = i" by (simp add: b unat_of_nat)
  then show ?thesis
    using concat_uniform [of run "block_data g" BlockSize i] assms(4) i
    by (simp add: run_block_def as_decoded_def run_to_extent_def full_blocks_def)
qed

lemma runs_block_as_decoded:
  assumes "good_runs rs" "full_blocks g (concat rs)" "\<forall>b\<in>set (concat rs). b < maxImageBlocks"
  shows "runs_block (map (as_decoded g) rs) b =
    (if b \<in> set (concat rs) then Some (block_data g b) else None)"
  using assms
proof (induction rs)
  case (Cons r rs)
  then have r: "consec r" "length r \<le> maxRunBlocks" "full_blocks g r"
    by (auto simp: good_runs_def full_blocks_def)
  then have h: "hd r < maxImageBlocks" using Cons.prems(3) consec_nonempty by simp
  have "Start (run_to_extent r) \<le> b \<and> b < extent_end (run_to_extent r) \<longleftrightarrow> b \<in> set r"
    using run_to_extent_spec(1) [OF r(1,2) h] by (auto simp: ext_set_def)
  moreover have "run_extent (as_decoded g r) = run_to_extent r" by (simp add: as_decoded_def)
  moreover have "runs_block (map (as_decoded g) rs) b =
      (if b \<in> set (concat rs) then Some (block_data g b) else None)"
    using Cons.prems by (intro Cons.IH) (auto simp: good_runs_def full_blocks_def)
  ultimately show ?case
    using run_block_as_decoded [OF r(1,2) h r(3), of b] by simp
qed simp

lemma wf_runs_as_decoded:
  assumes "good_runs rs" "full_blocks g (concat rs)" "sorted_wrt (<) (concat rs)"
    "\<forall>b\<in>set (concat rs). b < maxImageBlocks"
  shows "wf_runs (map (as_decoded g) rs)"
proof -
  have "wf_run (as_decoded g r)" if "r \<in> set rs" for r
  proof -
    have r: "consec r" "length r \<le> maxRunBlocks" "full_blocks g r" "hd r < maxImageBlocks"
      using assms that consec_nonempty by (auto simp: good_runs_def list_all_iff full_blocks_def)
    show ?thesis
      using run_to_extent_spec [OF r(1,2,4)] full_blocks_length [OF r(3)]
      by (simp add: wf_run_def as_decoded_def)
  qed
  then have "list_all wf_run (map (as_decoded g) rs)" by (simp add: list_all_iff)
  moreover have "map run_extent (map (as_decoded g) rs) = map run_to_extent rs"
    by (simp add: as_decoded_def)
  ultimately show ?thesis
    using runs_wf_extents [OF assms(1,3,4)] assms(4) by (simp only: wf_runs_def) auto
qed

text \<open>What an encodable list of blocks is.\<close>

definition encodable :: "Generation \<Rightarrow> u64 list \<Rightarrow> bool" where
  "encodable g bs \<longleftrightarrow> full_blocks g bs \<and> sorted_wrt (<) bs \<and>
     (\<forall>b\<in>set bs. b < maxImageBlocks) \<and> length bs < 2 ^ 32"

lemma good_runs_count: "good_runs runs \<Longrightarrow> length runs \<le> length (concat runs)"
proof (induction runs)
  case (Cons r rs)
  then have "1 \<le> length r" using consec_nonempty by (cases r) (auto simp: good_runs_def)
  with Cons show ?case by (simp add: good_runs_def)
qed simp

lemma encodeSegmentBlocks_decode:
  assumes c: "gzip_ok c" and bs: "encodable g bs" "bs \<noteq> []"
  shows "\<exists>runs seg. encodeSegmentBlocks c g bs = Inr seg \<and>
    decodeSegment c seg = Inr (map (as_decoded g) runs) \<and> seg_Blocks seg = int (length bs) \<and>
    seg_Extents seg = map run_to_extent runs \<and> seg_ZeroExtents seg = zeroExtents g bs \<and>
    good_runs runs \<and> concat runs = bs"
proof -
  have full: "full_blocks g bs" using bs(1) by (simp add: encodable_def)
  obtain runs where b: "build_runs g [] bs = Inr runs"
    using build_runs_ok full unfolding full_blocks_def by blast
  then have runs: "good_runs runs" "concat runs = bs"
    using build_runs_Inr [OF _ b] by (auto simp: good_runs_def)
  define seg where "seg = (let data = gzip c (segment_payload g runs) in
       \<lparr>seg_Data = data, seg_SHA256 = hex_EncodeToString (sha256 c data),
            seg_Bytes = int (length data), seg_Blocks = int (length bs),
            seg_Extents = map run_to_extent runs, seg_ZeroExtents = zeroExtents g bs\<rparr>)"
  have enc: "encodeSegmentBlocks c g bs = Inr seg"
    by (simp add: encodeSegmentBlocks_def b seg_def Let_def)
  have cnt: "length runs \<le> length bs" using good_runs_count [OF runs(1)] runs(2) by simp
  then have lt: "length runs < 2 ^ 32" using bs(1) by (simp add: encodable_def)
  then have un: "unat (of_nat (length runs) :: u32) = length runs" by (simp add: unat_of_nat)
  have ui: "uint (of_nat (length runs) :: u32) = int (length runs)" by (simp only: uint_nat un)
  have wf: "wf_extents (map run_to_extent runs)" "exts_set (map run_to_extent runs) \<subseteq> {..<maxImageBlocks}"
    using runs_wf_extents [OF runs(1)] bs(1) unfolding runs(2) encodable_def by auto
  have dec: "decode_runs (length runs) 0 (of_nat BlockSize) (int (length bs))
      (concat (map (encode_run g) runs), True) 0 0 [] = Inr (map (as_decoded g) runs, int (length bs), ([], True))"
    using decode_runs_encode [OF runs(1) _ wf, of g 0 0 "int (length bs)" 0 "[]" True "[]"] full
    by (simp add: runs(2))
  have pos: "0 < length bs" using bs(2) by simp
  have "decodeSegment c seg = Inr (map (as_decoded g) runs)"
    using c cnt pos dec
    by (simp add: decodeSegment_def seg_def Let_def gzip_ok_def segment_payload_def un ui)
  then show ?thesis
    using enc runs by (intro exI [of _ runs] exI [of _ seg]) (auto simp: seg_def Let_def)
qed

lemma wf_extent_mono:
  "ext_set ov \<subseteq> ext_set e \<Longrightarrow> wf_extent ov \<Longrightarrow> wf_extent e \<and> Start e \<le> Start ov"
  by (auto simp: wf_extent_def ext_set_def subset_iff)

lemma ext_set_subset_bounds:
  assumes "ext_set ov \<subseteq> ext_set e" "wf_extent ov" "wf_extent e"
  shows "unat (Start ov - Start e) + unat (Blocks ov) \<le> unat (Blocks e)"
    "unat (Start ov - Start e) = unat (Start ov) - unat (Start e)" "unat (Start e) \<le> unat (Start ov)"
proof -
  have s: "Start e \<le> Start ov" using wf_extent_mono assms by blast
  have "extent_end e \<notin> ext_set ov" using assms(1) by (auto simp: ext_set_def)
  moreover have "Start ov < extent_end e"
    using assms(1,2) by (auto simp: ext_set_def wf_extent_def subset_iff)
  ultimately have "extent_end ov \<le> extent_end e" by (auto simp: ext_set_def not_less)
  then have "unat (extent_end ov) \<le> unat (extent_end e)" by (simp add: word_le_nat_alt)
  then have "unat (Start ov) + unat (Blocks ov) \<le> unat (Start e) + unat (Blocks e)"
    by (simp add: unat_end assms)
  moreover show d: "unat (Start ov - Start e) = unat (Start ov) - unat (Start e)"
    by (rule unat_sub [OF s])
  moreover show "unat (Start e) \<le> unat (Start ov)" using s by (simp add: word_le_nat_alt)
  ultimately show "unat (Start ov - Start e) + unat (Blocks ov) \<le> unat (Blocks e)" by linarith
qed

text \<open>The blocks one overlap contributes.\<close>

definition overlap_blocks :: "decodedRun \<Rightarrow> u64 set \<Rightarrow> u64 \<rightharpoonup> bytes" where
  "overlap_blocks run B b = (if b \<in> B then Some (run_block run b) else None)"

lemma write_overlap:
  assumes "wf_run run" "wf_extent ov" "ext_set ov \<subseteq> ext_set (run_extent run)"
  shows "unat (Start ov - Start (run_extent run)) * BlockSize + unat (Blocks ov) * BlockSize
      \<le> length (run_data run)" (is ?len)
    and "file_write img (unat (Start ov) * BlockSize)
      (take (unat (Blocks ov) * BlockSize)
        (drop (unat (Start ov - Start (run_extent run)) * BlockSize) (run_data run))) =
      overlay (overlap_blocks run (ext_set ov)) img" (is ?img)
proof -
  note wf = assms(1) [unfolded wf_run_def]
  note B = ext_set_subset_bounds [OF assms(3,2) wf [THEN conjunct1]]
  show len: ?len using B(1) wf by (simp add: add_mult_distrib [symmetric])
  define p where "p = take (unat (Blocks ov) * BlockSize)
    (drop (unat (Start ov - Start (run_extent run)) * BlockSize) (run_data run))"
  have lp: "length p = unat (Blocks ov) * BlockSize" using len by (simp add: p_def)
  have at: "p ! (i - unat (Start ov) * BlockSize) = run_block run (of_nat (i div BlockSize)) ! (i mod BlockSize)"
    if i: "unat (Start ov) * BlockSize \<le> i" "i < unat (Start ov) * BlockSize + unat (Blocks ov) * BlockSize"
    for i
  proof -
    define b :: u64 where "b = of_nat (i div BlockSize)"
    have b: "i div BlockSize < 2 ^ 64" "b \<in> ext_set ov"
      using block_of_offset [OF assms(2), of i] i by (auto simp: b_def)
    then have ub: "unat b = i div BlockSize" by (simp add: b_def unat_of_nat)
    have "Start (run_extent run) \<le> b" using b(2) assms(3) by (auto simp: ext_set_def)
    then have bs: "unat (b - Start (run_extent run)) = i div BlockSize - unat (Start (run_extent run))"
      by (simp add: unat_sub ub)
    have le: "unat (Start (run_extent run)) \<le> i div BlockSize"
      using \<open>Start (run_extent run) \<le> b\<close> by (simp add: word_le_nat_alt ub)
    have "unat (Start ov - Start (run_extent run)) * BlockSize + (i - unat (Start ov) * BlockSize) =
        i - unat (Start (run_extent run)) * BlockSize"
      using B(2,3) i(1) by (simp add: diff_mult_distrib)
    also have "\<dots> = unat (b - Start (run_extent run)) * BlockSize + i mod BlockSize"
      using le by (simp add: bs diff_mult_distrib)
    finally have idx: "unat (Start ov - Start (run_extent run)) * BlockSize + (i - unat (Start ov) * BlockSize) =
        unat (b - Start (run_extent run)) * BlockSize + i mod BlockSize" .
    then have bd: "unat (b - Start (run_extent run)) * BlockSize \<le> length (run_data run)"
      using i len by linarith
    from idx have "p ! (i - unat (Start ov) * BlockSize) =
        run_data run ! (unat (b - Start (run_extent run)) * BlockSize + i mod BlockSize)"
      using i len by (simp add: p_def)
    also have "\<dots> = run_block run b ! (i mod BlockSize)"
      using bd by (simp add: run_block_def)
    finally show ?thesis by (simp add: b_def)
  qed
  show ?img
  proof (rule ext)
    fix i
    show "file_write img (unat (Start ov) * BlockSize) (take (unat (Blocks ov) * BlockSize)
        (drop (unat (Start ov - Start (run_extent run)) * BlockSize) (run_data run))) i =
      overlay (overlap_blocks run (ext_set ov)) img i"
      unfolding p_def [symmetric] file_write_def lp overlay_def overlap_blocks_def
      using at [of i] block_of_offset [OF assms(2), of i] by auto
  qed
qed


lemma apply_overlap_sound:
  assumes "sound_io io" "wf_run run" "wf_extent ov" "ext_set ov \<subseteq> ext_set (run_extent run)"
    "extent_end ov \<le> word_of_int (sz div DefaultBlockSize)"
  shows "apply_overlap io sz run img ov = (overlay (overlap_blocks run (ext_set ov)) img, Inr ())"
  using assms write_overlap [OF assms(2-4)] unfolding apply_overlap_def Let_def
  by (simp add: file_simps wf_extent_def not_less order.strict_implies_order)

lemma overlap_blocks_Un:
  "overlap_blocks run A ++ overlap_blocks run B = overlap_blocks run (A \<union> B)"
  by (auto simp: overlap_blocks_def map_add_def fun_eq_iff)

lemma apply_overlaps_sound:
  assumes "sound_io io" "wf_run run" "wf_extents ovs" "exts_set ovs \<subseteq> ext_set (run_extent run)"
    "exts_set ovs \<subseteq> {..<word_of_int (sz div DefaultBlockSize)}"
  shows "apply_overlaps io sz run img ovs = (overlay (overlap_blocks run (exts_set ovs)) img, Inr ())"
  using assms(3-5)
proof (induction ovs arbitrary: img)
  case Nil
  then show ?case by (simp add: overlap_blocks_def)
next
  case (Cons ov ovs)
  have "apply_overlap io sz run img ov = (overlay (overlap_blocks run (ext_set ov)) img, Inr ())"
    using Cons.prems exts_set_bounded [OF Cons.prems(1), of "word_of_int (sz div DefaultBlockSize)"]
    by (intro apply_overlap_sound assms) (auto simp: wf_extents_Cons)
  then show ?case
    using Cons by (simp add: wf_extents_Cons overlay_overlay overlap_blocks_Un)
qed

definition selected_blocks :: "decodedRun list \<Rightarrow> u64 set \<Rightarrow> u64 \<rightharpoonup> bytes" where
  "selected_blocks runs S = (\<lambda>b. if b \<in> S then runs_block runs b else None)"

lemma runs_block_dom: "runs_block runs b = None \<longleftrightarrow> b \<notin> exts_set (map run_extent runs)"
  by (induction runs) (auto simp: ext_set_def)

lemma wf_runs_Cons:
  "wf_runs (r # rs) \<longleftrightarrow> wf_run r \<and> wf_runs rs \<and> ext_set (run_extent r) \<subseteq> {..<maxImageBlocks} \<and>
     (\<forall>x\<in>set rs. extent_end (run_extent r) \<le> Start (run_extent x))"
  by (auto simp: wf_runs_def wf_extents_Cons wf_run_def)

lemma selected_blocks_Cons:
  assumes "wf_runs (r # rs)"
  shows "selected_blocks (r # rs) S = overlap_blocks r (ext_set (run_extent r) \<inter> S) ++ selected_blocks rs S"
proof (rule ext)
  fix b
  have "runs_block rs b = None" if "b \<in> ext_set (run_extent r)"
    using assms that wf_extents_tail_bound [of "run_extent r" "map run_extent rs" b]
    by (fastforce simp: runs_block_dom wf_runs_def ext_set_def)
  then show "selected_blocks (r # rs) S b =
      (overlap_blocks r (ext_set (run_extent r) \<inter> S) ++ selected_blocks rs S) b"
    by (auto simp: selected_blocks_def overlap_blocks_def map_add_def ext_set_def split: option.splits)
qed

lemma apply_runs_loop_sound:
  assumes "sound_io io" "wf_runs runs" "wf_extents sel"
    "exts_set (map run_extent runs) \<inter> exts_set sel \<subseteq> {..<word_of_int (sz div DefaultBlockSize)}"
  shows "apply_runs_loop io sz sel img runs = (overlay (selected_blocks runs (exts_set sel)) img, Inr ())"
  using assms(2,4)
proof (induction runs arbitrary: img)
  case Nil
  have "selected_blocks [] S = Map.empty" for S by (auto simp: selected_blocks_def)
  then show ?case by simp
next
  case (Cons r rs)
  note I = intersectExtent_spec [OF assms(3), of "run_extent r"]
  have "apply_overlaps io sz r img (intersectExtent (run_extent r) sel) =
      (overlay (overlap_blocks r (ext_set (run_extent r) \<inter> exts_set sel)) img, Inr ())"
    using I Cons.prems apply_overlaps_sound [OF assms(1), of r "intersectExtent (run_extent r) sel" sz img]
    by (auto simp: wf_runs_Cons)
  moreover have "apply_runs_loop io sz sel img' rs = (overlay (selected_blocks rs (exts_set sel)) img', Inr ())" for img'
    using Cons.prems by (intro Cons.IH) (auto simp: wf_runs_Cons)
  ultimately show ?case
    using selected_blocks_Cons [OF Cons.prems(1)] by (simp add: overlay_overlay)
qed

text \<open>Whatever the disk does, only selected blocks inside the image change.\<close>

definition changed_within :: "image \<Rightarrow> image \<Rightarrow> u64 set \<Rightarrow> bool" where
  "changed_within img img' B \<longleftrightarrow>
     (\<forall>i. img' i \<noteq> img i \<longrightarrow> i div BlockSize < 2 ^ 64 \<and> of_nat (i div BlockSize) \<in> B)"

lemma changed_within_trans:
  "changed_within a b B \<Longrightarrow> changed_within b c B \<Longrightarrow> changed_within a c B"
  unfolding changed_within_def by metis

lemma changed_within_refl [simp]: "changed_within a a B"
  by (simp add: changed_within_def)

lemma changed_within_write:
  assumes "wf_extent ov" "length p \<le> unat (Blocks ov) * BlockSize" "ext_set ov \<subseteq> B"
  shows "changed_within img (file_write img (unat (Start ov) * BlockSize) p) B"
  using assms block_of_offset [OF assms(1)]
  by (fastforce simp: changed_within_def file_write_def)

lemma apply_overlap_within:
  assumes "wf_extent ov" "ext_set ov \<subseteq> S" "B = S \<inter> {..<word_of_int (sz div DefaultBlockSize)}"
  shows "changed_within img (fst (apply_overlap io sz run img ov)) B"
proof (cases "extent_end ov \<le> word_of_int (sz div DefaultBlockSize)")
  case True
  then have "ext_set ov \<subseteq> B" using assms by (auto simp: ext_set_def)
  note W = changed_within_write [OF assms(1) _ this]
  show ?thesis
    by (auto simp: apply_overlap_def Let_def file_WriteAt_def intro!: W split: option.splits)
next
  case False
  then show ?thesis by (simp add: apply_overlap_def not_le)
qed


lemma apply_overlaps_within:
  assumes "wf_extents ovs" "exts_set ovs \<subseteq> S" "B = S \<inter> {..<word_of_int (sz div DefaultBlockSize)}"
  shows "changed_within img (fst (apply_overlaps io sz run img ovs)) B"
  using assms(1,2)
proof (induction ovs arbitrary: img)
  case (Cons ov ovs)
  obtain img' r where step: "apply_overlap io sz run img ov = (img', r)" by fastforce
  have "changed_within img img' B"
    using apply_overlap_within [OF _ _ assms(3), of ov img io run] Cons.prems step
    by (simp add: wf_extents_Cons)
  then show ?case
    using Cons step by (auto simp: wf_extents_Cons split: sum.splits intro: changed_within_trans)
qed simp

lemma apply_runs_loop_within:
  assumes "wf_extents sel" "B = exts_set (map run_extent runs) \<inter> exts_set sel \<inter> {..<word_of_int (sz div DefaultBlockSize)}"
    "set rs \<subseteq> set runs"
  shows "changed_within img (fst (apply_runs_loop io sz sel img rs)) B"
  using assms(3)
proof (induction rs arbitrary: img)
  case (Cons r rs)
  obtain img' res where step: "apply_overlaps io sz r img (intersectExtent (run_extent r) sel) = (img', res)"
    by fastforce
  note I = intersectExtent_spec [OF assms(1), of "run_extent r"]
  have "exts_set (intersectExtent (run_extent r) sel) \<subseteq> exts_set (map run_extent runs) \<inter> exts_set sel"
    using I Cons.prems by (auto simp: exts_set_def)
  then have "changed_within img img' B"
    using apply_overlaps_within [OF _ _ assms(2), of "intersectExtent (run_extent r) sel" img io r] I step
    by simp
  then show ?case
    using Cons step by (auto split: sum.splits intro: changed_within_trans)
qed simp

section \<open>Whole generations\<close>

lemma slices_concat:
  "0 < n \<Longrightarrow> length bs \<le> k * n \<Longrightarrow> concat (map (segment_slice bs n) [0..<k]) = bs"
proof (induction k arbitrary: bs)
  case (Suc k)
  have shift: "segment_slice bs n (Suc i) = segment_slice (drop n bs) n i" for i
    by (simp add: segment_slice_def add.commute)
  have "concat (map (segment_slice bs n) [0..<Suc k]) =
      segment_slice bs n 0 @ concat (map (\<lambda>i. segment_slice bs n (Suc i)) [0..<k])"
    by (simp only: upt_conv_Cons zero_less_Suc map_Suc_upt [symmetric] list.map concat.simps map_map comp_def)
  also have "concat (map (\<lambda>i. segment_slice bs n (Suc i)) [0..<k]) = drop n bs"
    unfolding shift using Suc.prems by (intro Suc.IH) auto
  finally show ?case by (simp add: segment_slice_def)
qed simp

definition segment_count :: "nat \<Rightarrow> nat \<Rightarrow> nat" where
  "segment_count len n = (len - 1) div n + 1"

lemma segment_count_bounds:
  assumes "0 < n" "0 < len"
  shows "len \<le> segment_count len n * n" "i < segment_count len n \<Longrightarrow> i * n < len"
proof -
  have d: "(len - 1) div n * n + (len - 1) mod n = len - 1" by simp
  have "(len - 1) mod n < n" using assms(1) by simp
  moreover have "segment_count len n * n = (len - 1) div n * n + n"
    by (simp add: segment_count_def add_mult_distrib)
  ultimately show "len \<le> segment_count len n * n" using d assms(2) by linarith
  assume "i < segment_count len n"
  then have "i * n \<le> (len - 1) div n * n" by (simp add: segment_count_def)
  then show "i * n < len" using d assms(2) by linarith
qed

definition segment_blocks_per :: "int \<Rightarrow> nat" where
  "segment_blocks_per n = nat (if n \<le> 0 then DefaultSegmentBlocks else n)"

lemma EncodeSegments_slices:
  assumes "\<not> Generation_Empty (Some g)"
  shows "EncodeSegments c (Some g) k =
    mapR (\<lambda>i. encodeSegmentBlocks c g (segment_slice (sortedBlocks g) (segment_blocks_per k) i))
      [0..<segment_count (length (sortedBlocks g)) (segment_blocks_per k)]"
proof -
  define n where "n = segment_blocks_per k"
  have n: "0 < n" by (simp add: n_def segment_blocks_per_def DefaultSegmentBlocks_def)
  have len: "0 < length (sortedBlocks g)" using assms sortedBlocks_Nil by auto
  have "segment_slice (sortedBlocks g) n 0 = sortedBlocks g" if "segment_count (length (sortedBlocks g)) n = 1"
    using segment_count_bounds(1) [OF n len] that by (simp add: segment_slice_def)
  then show ?thesis
    using assms unfolding EncodeSegments_def EncodeSegment_def Let_def segment_blocks_per_def [symmetric]
      n_def [symmetric] segment_count_def [symmetric] option.sel
    by simp
qed

lemma encode_slices_decode:
  assumes c: "gzip_ok c"
  shows "(\<And>i. i \<in> set is \<Longrightarrow> encodable g (f i) \<and> f i \<noteq> []) \<Longrightarrow>
    \<exists>segs runss. mapR (\<lambda>i. encodeSegmentBlocks c g (f i)) is = Inr segs \<and>
      mapR (decodeSegment c) segs = Inr (map (map (as_decoded g)) runss) \<and>
      map seg_Extents segs = map (map run_to_extent) runss \<and>
      map seg_ZeroExtents segs = map (\<lambda>i. zeroExtents g (f i)) is \<and>
      good_runs (concat runss) \<and> concat (concat runss) = concat (map f is)"
proof (induction "is")
  case Nil
  then show ?case by (simp add: good_runs_def)
next
  case (Cons i "is")
  obtain segs runss where IH: "mapR (\<lambda>i. encodeSegmentBlocks c g (f i)) is = Inr segs"
      "mapR (decodeSegment c) segs = Inr (map (map (as_decoded g)) runss)"
      "map seg_Extents segs = map (map run_to_extent) runss"
      "map seg_ZeroExtents segs = map (\<lambda>i. zeroExtents g (f i)) is"
      "good_runs (concat runss)" "concat (concat runss) = concat (map f is)"
    using Cons by auto
  obtain runs seg where "encodeSegmentBlocks c g (f i) = Inr seg"
      "decodeSegment c seg = Inr (map (as_decoded g) runs)" "seg_Extents seg = map run_to_extent runs"
      "seg_ZeroExtents seg = zeroExtents g (f i)" "good_runs runs" "concat runs = f i"
    using encodeSegmentBlocks_decode [OF c, of g "f i"] Cons.prems [of i] by auto
  then show ?case
    using IH by (intro exI [of _ "seg # segs"] exI [of _ "runs # runss"]) (simp add: good_runs_def)
qed

lemma block_data_lookup: "fmlookup (gen_Blocks g) b = Some d \<Longrightarrow> block_data g b = d"
  by (simp add: block_data_def)

definition encodable_generation :: "Generation \<Rightarrow> bool" where
  "encodable_generation g \<longleftrightarrow> wf_generation g \<and> \<not> Generation_Empty (Some g) \<and>
     fset (fmdom (gen_Blocks g)) \<subseteq> {..<maxImageBlocks}"

lemma encodable_sortedBlocks:
  assumes "encodable_generation g"
  shows "full_blocks g (sortedBlocks g)" "\<forall>b\<in>set (sortedBlocks g). b < maxImageBlocks"
  using assms
  by (auto simp: encodable_generation_def full_blocks_def wf_generation_def fmdom_lookup block_data_lookup)

lemma encodable_slice:
  assumes "encodable_generation g" "n < 2 ^ 32"
  shows "encodable g (segment_slice (sortedBlocks g) n i)"
proof -
  have "set (segment_slice (sortedBlocks g) n i) \<subseteq> set (sortedBlocks g)"
    unfolding segment_slice_def by (meson order.trans set_drop_subset set_take_subset)
  then show ?thesis
    using encodable_sortedBlocks [OF assms(1)] assms(2) sorted_sortedBlocks [of g]
    by (auto simp: encodable_def full_blocks_def segment_slice_def sorted_wrt_take sorted_wrt_drop)
qed

lemma EncodeSegments_decode:
  assumes "gzip_ok c" "encodable_generation g" "k < 2 ^ 32"
  shows "\<exists>segs runss. EncodeSegments c (Some g) k = Inr segs \<and>
    mapR (decodeSegment c) segs = Inr runss \<and> wf_runs (concat runss) \<and>
    runs_block (concat runss) = fmlookup (gen_Blocks g) \<and>
    map seg_Extents segs = map (map run_extent) runss"
proof -
  let ?bs = "sortedBlocks g"
  define n where "n = segment_blocks_per k"
  define m where "m = segment_count (length ?bs) n"
  have ne: "\<not> Generation_Empty (Some g)" using assms(2) by (simp add: encodable_generation_def)
  have n: "0 < n" "n < 2 ^ 32"
    using assms(3) by (auto simp: n_def segment_blocks_per_def DefaultSegmentBlocks_def)
  have len: "0 < length ?bs" using ne sortedBlocks_Nil by auto
  have slice: "encodable g (segment_slice ?bs n i) \<and> segment_slice ?bs n i \<noteq> []" if "i \<in> set [0..<m]" for i
    using encodable_slice [OF assms(2) n(2)] segment_count_bounds(2) [OF n(1) len] that n(1)
    by (simp add: m_def segment_slice_def not_le)
  obtain segs runss where r: "mapR (\<lambda>i. encodeSegmentBlocks c g (segment_slice ?bs n i)) [0..<m] = Inr segs"
      "mapR (decodeSegment c) segs = Inr (map (map (as_decoded g)) runss)"
      "map seg_Extents segs = map (map run_to_extent) runss"
      "good_runs (concat runss)" "concat (concat runss) = concat (map (segment_slice ?bs n) [0..<m])"
    using encode_slices_decode [OF assms(1), of "[0..<m]" g "segment_slice ?bs n"] slice by auto
  have all: "concat (concat runss) = ?bs"
    unfolding r(5) using segment_count_bounds(1) [OF n(1) len] n by (intro slices_concat) (simp_all add: m_def)
  note B = encodable_sortedBlocks [OF assms(2)]
  have dec: "concat (map (map (as_decoded g)) runss) = map (as_decoded g) (concat runss)"
    by (simp add: map_concat)
  have "wf_runs (concat (map (map (as_decoded g)) runss))"
    unfolding dec by (rule wf_runs_as_decoded [OF r(4)]) (simp_all only: all B sorted_sortedBlocks, rule B(2))
  moreover have "runs_block (concat (map (map (as_decoded g)) runss)) b = fmlookup (gen_Blocks g) b" for b
    unfolding dec using runs_block_as_decoded [OF r(4), of g b] B fmdom_lookup [of b "gen_Blocks g"]
    by (auto simp: all block_data_lookup fmlookup_dom_iff)
  moreover have "EncodeSegments c (Some g) k = Inr segs"
    using EncodeSegments_slices [OF ne] r(1) by (simp add: n_def m_def)
  moreover have "map seg_Extents segs = map (map run_extent) (map (map (as_decoded g)) runss)"
    by (simp add: r(3) as_decoded_def)
  ultimately show ?thesis using r(2) by blast
qed

lemma maxImageBlocks_lt: "b < maxImageBlocks \<Longrightarrow> b < - 1"
  by (simp add: maxImageBlocks_def word_less_nat_alt unsigned_minus_1_eq_mask mask_eq_exp_minus_1)

lemma zeroExtents_spec:
  assumes "encodable g bs"
  shows "normal_extents (zeroExtents g bs)" "exts_set (zeroExtents g bs) = {b \<in> set bs. isZero (block_data g b)}"
proof -
  have s: "sorted_wrt (<) (filter (\<lambda>b. isZero (block_data g b)) bs)"
    using assms by (auto simp: encodable_def sorted_wrt_filter)
  have "\<forall>b\<in>set (filter (\<lambda>b. isZero (block_data g b)) bs). b < - 1"
    using assms maxImageBlocks_lt by (auto simp: encodable_def)
  from blocksToExtents_spec [OF s this]
  show "normal_extents (zeroExtents g bs)" "exts_set (zeroExtents g bs) = {b \<in> set bs. isZero (block_data g b)}"
    by (auto simp: zeroExtents_def)
qed

section \<open>The properties\<close>

text \<open>
  C27. Encoding a generation into segments and decoding them gives back exactly the blocks of
  the generation: for every segment size below 2^32 the encoding succeeds, every segment
  decodes, the decoded runs together are sorted, disjoint and inside the addressable image,
  they hold at each block what the generation holds, and the extents a segment declares are
  those of its runs.
\<close>

theorem EncodeSegments_roundtrip:
  assumes "gzip_ok c" "encodable_generation g" "k < 2 ^ 32"
  shows "\<exists>segs runss. EncodeSegments c (Some g) k = Inr segs \<and>
    mapR (decodeSegment c) segs = Inr runss \<and> wf_runs (concat runss) \<and>
    runs_block (concat runss) = fmlookup (gen_Blocks g) \<and>
    map seg_Extents segs = map (map run_extent) runss"
  by (rule EncodeSegments_decode [OF assms])

definition plain_codec :: codec where
  "plain_codec = \<lparr>sha256 = (\<lambda>x. [of_nat (length x)]), gzip = (\<lambda>x. 31 # x),
     gunzip = (\<lambda>x. case x of [] \<Rightarrow> Inl EOF | b # y \<Rightarrow> if b = 31 then Inr (y, True) else Inl (Errorf ''header''))\<rparr>"

definition sample_generation :: Generation where
  "sample_generation = \<lparr>gen_Blocks = fmap_of_list [(3, replicate BlockSize 7), (4, replicate BlockSize 0)],
     gen_bytes = 8192, journalSeq = 1\<rparr>"

lemma sample_encodable: "encodable_generation sample_generation"
  by (auto simp: encodable_generation_def sample_generation_def wf_generation_def Generation_Empty_def
      maxImageBlocks_def fmlookup_of_list split: if_splits)

lemma plain_codec_ok: "gzip_ok plain_codec"
  by (simp add: gzip_ok_def plain_codec_def)

theorem EncodeSegments_roundtrip_witness:
  "\<exists>segs runss. EncodeSegments plain_codec (Some sample_generation) 1 = Inr segs \<and>
    mapR (decodeSegment plain_codec) segs = Inr runss \<and> wf_runs (concat runss) \<and>
    runs_block (concat runss) = fmlookup (gen_Blocks sample_generation) \<and>
    map seg_Extents segs = map (map run_extent) runss"
  by (rule EncodeSegments_roundtrip [OF plain_codec_ok sample_encodable]) simp

text \<open>
  C28. Whatever bytes a segment holds, the decoder accepts only well-formed runs: sorted,
  disjoint, inside the addressable image, each with exactly the data of its blocks, as many
  blocks as the manifest declares, from data whose digest is the declared one.
\<close>

theorem decodeSegment_wellformed:
  assumes "decodeSegment c segment = Inr runs"
  shows "wf_runs runs \<and> run_count runs = seg_Blocks segment \<and>
    hex_EncodeToString (sha256 c (seg_Data segment)) = seg_SHA256 segment"
  using decodeSegment_sound [OF assms] by blast

theorem decodeSegment_wellformed_witness:
  "\<exists>segment runs. encodeSegmentBlocks plain_codec sample_generation [3, 4] = Inr segment \<and>
    decodeSegment plain_codec segment = Inr runs \<and> wf_runs runs \<and> run_count runs = 2"
proof -
  have "encodable sample_generation [3, 4]"
    by (simp add: encodable_def full_blocks_def block_data_def sample_generation_def fmlookup_of_list
        maxImageBlocks_def)
  then obtain segment runs where "encodeSegmentBlocks plain_codec sample_generation [3, 4] = Inr segment"
      "decodeSegment plain_codec segment = Inr runs" "seg_Blocks segment = 2"
    using encodeSegmentBlocks_decode [OF plain_codec_ok, of sample_generation "[3, 4]"] by auto
  with decodeSegment_wellformed [OF this(2)] show ?thesis by auto
qed

text \<open>
  On a disk that completes its calls, applying decoded runs writes the selected blocks
  and nothing else: the image becomes the old one with every block that is both selected and
  held by a run replaced by the run's data.
\<close>

theorem applyRuns_writes_selected:
  assumes "sound_io io" "wf_runs runs" "wf_extents sel" "0 \<le> sz"
    "exts_set (map run_extent runs) \<inter> exts_set sel \<subseteq> {..<word_of_int (sz div DefaultBlockSize)}"
  shows "applyRuns io img sz runs (Some sel) =
    (overlay (\<lambda>b. if b \<in> exts_set sel then runs_block runs b else None) img, Inr ())"
  using apply_runs_loop_sound [OF assms(1-3,5)] assms(4)
  by (simp add: applyRuns_def selected_blocks_def)

definition ideal_io :: fileio where
  "ideal_io = \<lparr>write_fails = (\<lambda>off n. None), read_fails = (\<lambda>off n. None), punch_fails = (\<lambda>off n. False),
     sync_fails = False\<rparr>"

definition sample_runs :: "decodedRun list" where
  "sample_runs = [\<lparr>run_extent = Extent 2 2, run_data = replicate (2 * BlockSize) 9\<rparr>]"

lemma sample_runs_wf: "wf_runs sample_runs"
  by (auto simp: sample_runs_def wf_runs_def wf_run_def wf_extents_def wf_extent_def extent_end_def
      maxImageBlocks_def ext_set_def intro: less_trans [of _ 4])

theorem applyRuns_writes_selected_witness:
  "applyRuns ideal_io empty_image 40960 sample_runs (Some [Extent 0 3]) =
    (overlay (\<lambda>b. if b \<in> exts_set [Extent 0 3] then runs_block sample_runs b else None) empty_image, Inr ())"
proof (rule applyRuns_writes_selected [OF _ sample_runs_wf])
  show "exts_set (map run_extent sample_runs) \<inter> exts_set [Extent 0 3]
      \<subseteq> {..<word_of_int (40960 div DefaultBlockSize)}"
    by (auto simp: sample_runs_def DefaultBlockSize_def ext_set_def extent_end_def intro: less_trans [of _ 4])
qed (simp_all add: sound_io_def ideal_io_def wf_extents_def wf_extent_def extent_end_def)

text \<open>
  Whatever the disk does (short writes, refused hole punching), applying runs changes
  only bytes of selected blocks of the runs inside the image, whether it succeeds or stops
  with an error.
\<close>

theorem applyRuns_stays_inside:
  assumes "wf_extents sel"
  shows "changed_within img (fst (applyRuns io img sz runs (Some sel)))
    (exts_set (map run_extent runs) \<inter> exts_set sel \<inter> {..<word_of_int (sz div DefaultBlockSize)})"
  using apply_runs_loop_within [OF assms refl, of runs runs img io sz]
  by (simp add: applyRuns_def)


theorem applyRuns_stays_inside_witness:
  "changed_within empty_image (fst (applyRuns
      (ideal_io\<lparr>write_fails := (\<lambda>off n. Some 100), punch_fails := (\<lambda>off n. True)\<rparr>) empty_image 40960 sample_runs
      (Some [Extent 0 3])))
    (exts_set (map run_extent sample_runs) \<inter> exts_set [Extent 0 3] \<inter> {..<word_of_int (40960 div DefaultBlockSize)})"
  by (rule applyRuns_stays_inside) (simp add: wf_extents_def wf_extent_def extent_end_def)

end
