(* ===== verification/ObjectStore.thy ===== *)
theory ObjectStore
  imports Bytes "HOL-Library.Finite_Map" "HOL-Library.List_Lexorder" "HOL-Library.Char_ord"
begin

text \<open>
  Object stores (\<open>internal/objectstore\<close>): the in-memory store of \<open>memory.go\<close> as a state, the
  store interface as a record of operations (\<open>store_ops\<close>), the contract the replica code needs
  of it (\<open>object_store\<close>), and the start-up probes of \<open>s3.go\<close>. The S3 client itself is not part
  of the model: it is any implementation of the interface.
\<close>

section \<open>Strings\<close>

definition strings_HasPrefix :: "string \<Rightarrow> string \<Rightarrow> bool" where
  "strings_HasPrefix s p \<longleftrightarrow> take (length p) s = p"

definition strings_HasSuffix :: "string \<Rightarrow> string \<Rightarrow> bool" where
  "strings_HasSuffix s p \<longleftrightarrow> length p \<le> length s \<and> drop (length s - length p) s = p"

definition strings_CutPrefix :: "string \<Rightarrow> string \<Rightarrow> string option" where
  "strings_CutPrefix s p = (if strings_HasPrefix s p then Some (drop (length p) s) else None)"

definition strings_CutSuffix :: "string \<Rightarrow> string \<Rightarrow> string option" where
  "strings_CutSuffix s p = (if strings_HasSuffix s p then Some (take (length s - length p) s) else None)"

text \<open>\<open>%d\<close> of a natural number.\<close>

definition dec_digit :: "nat \<Rightarrow> char" where
  "dec_digit n = ''0123456789'' ! n"

fun dec :: "nat \<Rightarrow> string" where
  "dec n = (if n < 10 then [dec_digit n] else dec (n div 10) @ [dec_digit (n mod 10)])"

declare dec.simps [simp del]

section \<open>The interface\<close>

record Object =
  obj_Data :: bytes
  obj_ETag :: string

record 's store_ops =
  st_Get :: "string \<Rightarrow> 's \<Rightarrow> 's \<times> Object result"
  st_Put :: "string \<Rightarrow> bytes \<Rightarrow> 's \<Rightarrow> 's \<times> string result"
  st_PutIfAbsent :: "string \<Rightarrow> bytes \<Rightarrow> 's \<Rightarrow> 's \<times> string result"
  st_PutIfMatch :: "string \<Rightarrow> bytes \<Rightarrow> string \<Rightarrow> 's \<Rightarrow> 's \<times> string result"
  st_Delete :: "string \<Rightarrow> 's \<Rightarrow> 's \<times> unit result"
  st_List :: "string \<Rightarrow> 's \<Rightarrow> 's \<times> string list result"
  st_DeletePrefix :: "string \<Rightarrow> 's \<Rightarrow> 's \<times> unit result"

section \<open>The in-memory store\<close>

record Memory =
  objects :: "(string, Object) fmap"
  mem_seq :: nat
  unconditional :: bool

definition NewMemory :: Memory where
  "NewMemory = \<lparr>objects = fmempty, mem_seq = 0, unconditional = False\<rparr>"

definition NewUnconditionalMemory :: Memory where
  "NewUnconditionalMemory = \<lparr>objects = fmempty, mem_seq = 0, unconditional = True\<rparr>"

definition Memory_Get :: "string \<Rightarrow> Memory \<Rightarrow> Memory \<times> Object result" where
  "Memory_Get key m =
     (m, case fmlookup (objects m) key of None \<Rightarrow> Inl ErrNotFound | Some obj \<Rightarrow> Inr obj)"

definition mem_etag :: "nat \<Rightarrow> string" where
  "mem_etag n = [CHR 34] @ dec n @ [CHR 34]"

definition Memory_store :: "string \<Rightarrow> bytes \<Rightarrow> Memory \<Rightarrow> Memory \<times> string" where
  "Memory_store key data m =
     (let n = mem_seq m + 1; etag = mem_etag n in
      (m\<lparr>mem_seq := n, objects := fmupd key \<lparr>obj_Data = data, obj_ETag = etag\<rparr> (objects m)\<rparr>, etag))"

definition Memory_Put :: "string \<Rightarrow> bytes \<Rightarrow> Memory \<Rightarrow> Memory \<times> string result" where
  "Memory_Put key data m = (case Memory_store key data m of (m', etag) \<Rightarrow> (m', Inr etag))"

definition Memory_PutIfAbsent :: "string \<Rightarrow> bytes \<Rightarrow> Memory \<Rightarrow> Memory \<times> string result" where
  "Memory_PutIfAbsent key data m =
     (if fmlookup (objects m) key \<noteq> None \<and> \<not> unconditional m then (m, Inl ErrPreconditionFailed)
      else (case Memory_store key data m of (m', etag) \<Rightarrow> (m', Inr etag)))"

definition Memory_PutIfMatch :: "string \<Rightarrow> bytes \<Rightarrow> string \<Rightarrow> Memory \<Rightarrow> Memory \<times> string result" where
  "Memory_PutIfMatch key data etag m =
     (if \<not> unconditional m \<and>
         (case fmlookup (objects m) key of None \<Rightarrow> True | Some current \<Rightarrow> obj_ETag current \<noteq> etag)
      then (m, Inl ErrPreconditionFailed)
      else (case Memory_store key data m of (m', new) \<Rightarrow> (m', Inr new)))"

definition Memory_Delete :: "string \<Rightarrow> Memory \<Rightarrow> Memory \<times> unit result" where
  "Memory_Delete key m = (m\<lparr>objects := fmdrop key (objects m)\<rparr>, Inr ())"

definition Memory_List :: "string \<Rightarrow> Memory \<Rightarrow> Memory \<times> string list result" where
  "Memory_List prefix m =
     (m, Inr (filter (\<lambda>k. strings_HasPrefix k prefix) (sorted_list_of_fset (fmdom (objects m)))))"

definition Memory_DeletePrefix :: "string \<Rightarrow> Memory \<Rightarrow> Memory \<times> unit result" where
  "Memory_DeletePrefix prefix m =
     (m\<lparr>objects := fmfilter (\<lambda>k. \<not> strings_HasPrefix k prefix) (objects m)\<rparr>, Inr ())"

definition memory_ops :: "Memory store_ops" where
  "memory_ops = \<lparr>st_Get = Memory_Get, st_Put = Memory_Put, st_PutIfAbsent = Memory_PutIfAbsent,
     st_PutIfMatch = Memory_PutIfMatch, st_Delete = Memory_Delete, st_List = Memory_List,
     st_DeletePrefix = Memory_DeletePrefix\<rparr>"

section \<open>Start-up probes\<close>

text \<open>
  \<open>VerifyConditionalWrites\<close>; \<open>uuid\<close> is the fresh identifier. The deferred delete runs on every
  path and its result is ignored.
\<close>

definition probe_body :: bytes where
  "probe_body = map of_char ''probe''"

definition is_err :: "error \<Rightarrow> 'a result \<Rightarrow> bool" where
  "is_err e r = (case r of Inl x \<Rightarrow> errors_Is x e | Inr _ \<Rightarrow> False)"

definition VerifyConditionalWrites :: "'s store_ops \<Rightarrow> string \<Rightarrow> 's \<Rightarrow> 's \<times> unit result" where
  "VerifyConditionalWrites ops uuid s =
     (let probe = ''leases/.probe-'' @ uuid;
          cleanup = (\<lambda>(s', r). (fst (st_Delete ops probe s'), r))
      in case st_PutIfAbsent ops probe probe_body s of
           (s1, Inl e) \<Rightarrow> cleanup (s1, Inl (Wrap ''probe write'' e))
         | (s1, Inr etag) \<Rightarrow>
             (case st_PutIfAbsent ops probe probe_body s1 of (s2, r2) \<Rightarrow>
                if \<not> is_err ErrPreconditionFailed r2
                then cleanup (s2, Inl (Errorf ''backend accepted If-None-Match PUT on an existing key''))
                else
                  (case st_PutIfMatch ops probe probe_body ([CHR 34] @ ''bogus'' @ [CHR 34]) s2 of (s3, r3) \<Rightarrow>
                     if \<not> is_err ErrPreconditionFailed r3
                     then cleanup (s3, Inl (Errorf ''backend accepted If-Match PUT with a stale ETag''))
                     else
                       (case st_PutIfMatch ops probe probe_body etag s3 of
                          (s4, Inl e) \<Rightarrow> cleanup (s4, Inl (Wrap ''If-Match PUT with the current ETag failed'' e))
                        | (s4, Inr _) \<Rightarrow> cleanup (s4, Inr ())))))"

definition VerifyListedWrites :: "'s store_ops \<Rightarrow> string \<Rightarrow> 's \<Rightarrow> 's \<times> unit result" where
  "VerifyListedWrites ops uuid s =
     (let prefix = ''leases/.probe-'' @ uuid;
          key = prefix @ ''/head'';
          cleanup = (\<lambda>(s', r). (fst (st_Delete ops key s'), r))
      in case st_Put ops key probe_body s of
           (s1, Inl e) \<Rightarrow> cleanup (s1, Inl (Wrap ''probe write'' e))
         | (s1, Inr _) \<Rightarrow>
             (case st_List ops prefix s1 of
                (s2, Inl e) \<Rightarrow> cleanup (s2, Inl (Wrap ''probe list'' e))
              | (s2, Inr keys) \<Rightarrow>
                  if keys \<noteq> [key]
                  then cleanup (s2, Inl (Errorf ''backend listing did not return a just-written key''))
                  else
                    (case st_Get ops key s2 of
                       (s3, Inl e) \<Rightarrow> cleanup (s3, Inl (Errorf ''probe read after write failed''))
                     | (s3, Inr obj) \<Rightarrow>
                         if obj_Data obj \<noteq> probe_body
                         then cleanup (s3, Inl (Errorf ''probe read after write failed''))
                         else
                           (case st_Delete ops key s3 of
                              (s4, Inl e) \<Rightarrow> cleanup (s4, Inl (Wrap ''probe delete'' e))
                            | (s4, Inr _) \<Rightarrow>
                                (case st_List ops prefix s4 of
                                   (s5, Inl e) \<Rightarrow> cleanup (s5, Inl (Wrap ''probe list after delete'' e))
                                 | (s5, Inr keys') \<Rightarrow>
                                     if keys' \<noteq> []
                                     then cleanup (s5, Inl (Errorf ''backend listing still returns a deleted key''))
                                     else cleanup (s5, Inr ()))))))"

section \<open>Decimal numbers are injective\<close>

lemma dec_digit_inj: "a < 10 \<Longrightarrow> b < 10 \<Longrightarrow> dec_digit a = dec_digit b \<Longrightarrow> a = b"
  unfolding dec_digit_def by (auto simp: numeral_eq_Suc less_Suc_eq)

lemma dec_nonempty [simp]: "dec n \<noteq> []" "[] \<noteq> dec n"
  by (subst dec.simps, simp)+

lemma dec_inj: "dec a = dec b \<Longrightarrow> a = b"
proof (induction a arbitrary: b rule: less_induct)
  case (less a)
  consider "a < 10" "b < 10" | "a < 10" "\<not> b < 10" | "\<not> a < 10" "b < 10" | "\<not> a < 10" "\<not> b < 10" by blast
  then show ?case
  proof cases
    case 1
    then show ?thesis using less.prems dec_digit_inj by (simp add: dec.simps [of a] dec.simps [of b])
  next
    case 4
    then have "dec (a div 10) = dec (b div 10)" "dec_digit (a mod 10) = dec_digit (b mod 10)"
      using less.prems by (simp_all add: dec.simps [of a] dec.simps [of b])
    then have "a div 10 = b div 10" "a mod 10 = b mod 10"
      using less.IH [of "a div 10"] 4 dec_digit_inj by auto
    then show ?thesis by (metis div_mult_mod_eq)
  qed (use less.prems in \<open>auto simp: dec.simps [of a] dec.simps [of b]\<close>)
qed

lemma mem_etag_inj: "mem_etag a = mem_etag b \<Longrightarrow> a = b"
  by (auto simp: mem_etag_def dest: dec_inj)

section \<open>The contract\<close>

text \<open>
  What the replica code needs of a store. \<open>cur\<close> is the current content and \<open>hist\<close> every
  version that was ever stored; two versions of a key with the same entity tag have the same
  data. A call that reports an error may still have taken effect (a lost response), and a
  conditional write takes effect only when its condition holds.
\<close>

definition stored :: "('s \<Rightarrow> string \<rightharpoonup> Object) \<Rightarrow> ('s \<Rightarrow> (string \<times> Object) set) \<Rightarrow> string \<Rightarrow> bytes \<Rightarrow> string \<Rightarrow> 's \<Rightarrow> 's \<Rightarrow> bool" where
  "stored cur hist key data etag s s' \<longleftrightarrow>
     cur s' = (cur s)(key \<mapsto> \<lparr>obj_Data = data, obj_ETag = etag\<rparr>) \<and>
     hist s' = insert (key, \<lparr>obj_Data = data, obj_ETag = etag\<rparr>) (hist s)"

definition untouched :: "('s \<Rightarrow> string \<rightharpoonup> Object) \<Rightarrow> ('s \<Rightarrow> (string \<times> Object) set) \<Rightarrow> 's \<Rightarrow> 's \<Rightarrow> bool" where
  "untouched cur hist s s' \<longleftrightarrow> cur s' = cur s \<and> hist s' = hist s"

locale object_store =
  fixes ops :: "'s store_ops" and cur :: "'s \<Rightarrow> string \<rightharpoonup> Object" and hist :: "'s \<Rightarrow> (string \<times> Object) set"
    and sinv :: "'s \<Rightarrow> bool"
  assumes cur_hist: "sinv s \<Longrightarrow> cur s key = Some obj \<Longrightarrow> (key, obj) \<in> hist s"
    and etag_data: "sinv s \<Longrightarrow> (key, a) \<in> hist s \<Longrightarrow> (key, b) \<in> hist s \<Longrightarrow> obj_ETag a = obj_ETag b \<Longrightarrow> obj_Data a = obj_Data b"
    and etag_nonempty: "sinv s \<Longrightarrow> (key, a) \<in> hist s \<Longrightarrow> obj_ETag a \<noteq> []"
    and get: "sinv s \<Longrightarrow> st_Get ops key s = (s', got) \<Longrightarrow> sinv s' \<and> untouched cur hist s s' \<and>
       (case got of Inr obj \<Rightarrow> cur s key = Some obj | Inl e \<Rightarrow> errors_Is e ErrNotFound \<longrightarrow> cur s key = None)"
    and put: "sinv s \<Longrightarrow> st_Put ops key data s = (s', r) \<Longrightarrow> sinv s' \<and>
       (case r of Inr etag \<Rightarrow> stored cur hist key data etag s s'
        | Inl e \<Rightarrow> untouched cur hist s s' \<or> (\<exists>etag. stored cur hist key data etag s s'))"
    and put_if_absent: "sinv s \<Longrightarrow> st_PutIfAbsent ops key data s = (s', r) \<Longrightarrow> sinv s' \<and>
       (case r of Inr etag \<Rightarrow> cur s key = None \<and> stored cur hist key data etag s s'
        | Inl e \<Rightarrow> untouched cur hist s s' \<or> (cur s key = None \<and> (\<exists>etag. stored cur hist key data etag s s')))"
    and put_if_match: "sinv s \<Longrightarrow> st_PutIfMatch ops key data etag s = (s', r) \<Longrightarrow> sinv s' \<and>
       (case r of Inr new \<Rightarrow> (\<exists>obj. cur s key = Some obj \<and> obj_ETag obj = etag) \<and> stored cur hist key data new s s'
        | Inl e \<Rightarrow> untouched cur hist s s' \<or>
            ((\<exists>obj. cur s key = Some obj \<and> obj_ETag obj = etag) \<and> (\<exists>new. stored cur hist key data new s s')))"
    and del: "sinv s \<Longrightarrow> st_Delete ops key s = (s', removed) \<Longrightarrow> sinv s' \<and> hist s' = hist s \<and>
       (case removed of Inr _ \<Rightarrow> cur s' = (cur s)(key := None) | Inl e \<Rightarrow> cur s' = cur s \<or> cur s' = (cur s)(key := None))"
    and list_keys: "sinv s \<Longrightarrow> st_List ops prefix s = (s', listed) \<Longrightarrow> sinv s' \<and> untouched cur hist s s' \<and>
       (case listed of Inr keys \<Rightarrow> distinct keys \<and> set keys = {k \<in> dom (cur s). strings_HasPrefix k prefix} | Inl e \<Rightarrow> True)"
begin

lemma put_hist_mono:
  "sinv s \<Longrightarrow> st_PutIfMatch ops key data etag s = (s', r) \<Longrightarrow> hist s \<subseteq> hist s'"
  "sinv s \<Longrightarrow> st_PutIfAbsent ops key data s = (s', r) \<Longrightarrow> hist s \<subseteq> hist s'"
  using put_if_match [of s key data etag s' r] put_if_absent [of s key data s' r]
  by (auto simp: stored_def untouched_def split: sum.splits)

text \<open>A conditional write that succeeds replaces exactly the data the tag stands for.\<close>

lemma match_replaces:
  assumes "sinv s" "st_PutIfMatch ops key data etag s = (s', Inr new)" "(key, obj) \<in> hist s" "obj_ETag obj = etag"
  shows "\<exists>o1. cur s key = Some o1 \<and> obj_Data o1 = obj_Data obj" "cur s' key = Some \<lparr>obj_Data = data, obj_ETag = new\<rparr>"
proof -
  obtain o1 where o1: "cur s key = Some o1" "obj_ETag o1 = etag" "stored cur hist key data new s s'"
    using put_if_match [OF assms(1,2)] by auto
  then show "\<exists>o1. cur s key = Some o1 \<and> obj_Data o1 = obj_Data obj"
    using etag_data [OF assms(1) cur_hist [OF assms(1) o1(1)] assms(3)] assms(4) by auto
  show "cur s' key = Some \<lparr>obj_Data = data, obj_ETag = new\<rparr>" using o1(3) by (simp add: stored_def)
qed

end

section \<open>The in-memory store keeps the contract\<close>

text \<open>The store with the history of its versions, and with network faults: a fault makes one
  call report an error, either without or after its effect.\<close>

datatype fault = NoFault | FailBefore | FailAfter

type_synonym logged_memory = "Memory \<times> (string \<times> Object) set \<times> fault list"

definition next_fault :: "fault list \<Rightarrow> fault \<times> fault list" where
  "next_fault fs = (case fs of [] \<Rightarrow> (NoFault, []) | f # r \<Rightarrow> (f, r))"

definition versions :: "(string, Object) fmap \<Rightarrow> (string \<times> Object) set" where
  "versions m = (\<lambda>k. (k, the (fmlookup m k))) ` fset (fmdom m)"

lemma versions_eq: "versions m = {(key, obj). fmlookup m key = Some obj}"
  by (force simp: versions_def fmlookup_dom_iff)

definition faulty :: "(Memory \<Rightarrow> Memory \<times> 'a result) \<Rightarrow> logged_memory \<Rightarrow> logged_memory \<times> 'a result" where
  "faulty f s =
     (case s of (m, h, fs) \<Rightarrow>
        case next_fault fs of
          (FailBefore, rest) \<Rightarrow> ((m, h, rest), Inl ContextError)
        | (k, rest) \<Rightarrow>
            (case f m of (m', r) \<Rightarrow>
               ((m', h \<union> versions (objects m'), rest),
                if k = FailAfter then Inl ContextError else r)))"

definition faulty_ops :: "logged_memory store_ops" where
  "faulty_ops = \<lparr>st_Get = (\<lambda>k. faulty (Memory_Get k)), st_Put = (\<lambda>k d. faulty (Memory_Put k d)),
     st_PutIfAbsent = (\<lambda>k d. faulty (Memory_PutIfAbsent k d)),
     st_PutIfMatch = (\<lambda>k d e. faulty (Memory_PutIfMatch k d e)), st_Delete = (\<lambda>k. faulty (Memory_Delete k)),
     st_List = (\<lambda>p. faulty (Memory_List p)), st_DeletePrefix = (\<lambda>p. faulty (Memory_DeletePrefix p))\<rparr>"

definition logged_cur :: "logged_memory \<Rightarrow> string \<rightharpoonup> Object" where
  "logged_cur s = fmlookup (objects (fst s))"

definition logged_hist :: "logged_memory \<Rightarrow> (string \<times> Object) set" where
  "logged_hist s = fst (snd s)"

definition covers :: "(string, Object) fmap \<Rightarrow> (string \<times> Object) set \<Rightarrow> bool" where
  "covers m h \<longleftrightarrow> {(key, obj). fmlookup m key = Some obj} \<subseteq> h"

definition tagged_upto :: "nat \<Rightarrow> (string \<times> Object) set \<Rightarrow> bool" where
  "tagged_upto n h \<longleftrightarrow> (\<forall>x\<in>h. \<exists>k \<le> n. obj_ETag (snd x) = mem_etag k)"

definition tags_determine :: "(string \<times> Object) set \<Rightarrow> bool" where
  "tags_determine h \<longleftrightarrow> (\<forall>x\<in>h. \<forall>y\<in>h. fst x = fst y \<longrightarrow> obj_ETag (snd x) = obj_ETag (snd y) \<longrightarrow> obj_Data (snd x) = obj_Data (snd y))"

definition logged_inv :: "logged_memory \<Rightarrow> bool" where
  "logged_inv s \<longleftrightarrow> \<not> unconditional (fst s) \<and> covers (objects (fst s)) (logged_hist s) \<and>
     tagged_upto (mem_seq (fst s)) (logged_hist s) \<and> tags_determine (logged_hist s)"

lemma logged_inv_iff: "logged_inv (m, h, fs) \<longleftrightarrow> \<not> unconditional m \<and> covers (objects m) h \<and>
     tagged_upto (mem_seq m) h \<and> tags_determine h"
  by (simp add: logged_inv_def logged_hist_def)

lemma faulty_cases:
  assumes "faulty f (m, h, fs) = (s', r)"
  shows "(\<exists>rest. s' = (m, h, rest) \<and> r = Inl ContextError) \<or>
    (\<exists>m' r0 rest. f m = (m', r0) \<and> s' = (m', h \<union> {(key, obj). fmlookup (objects m') key = Some obj}, rest) \<and>
       (r = r0 \<or> r = Inl ContextError))"
proof -
  obtain k rest where n: "next_fault fs = (k, rest)" by fastforce
  obtain m' r0 where f: "f m = (m', r0)" by fastforce
  show ?thesis
  proof (cases "k = FailBefore")
    case True
    then have "s' = (m, h, rest)" "r = Inl ContextError" using assms n by (simp_all add: faulty_def)
    then show ?thesis by blast
  next
    case False
    then have "s' = (m', h \<union> {(key, obj). fmlookup (objects m') key = Some obj}, rest)" "r = r0 \<or> r = Inl ContextError"
      using assms n f by (cases k; simp add: faulty_def versions_eq)+
    then show ?thesis using f by blast
  qed
qed

lemma covers_Un: "covers m h \<Longrightarrow> h \<union> {(key, obj). fmlookup m key = Some obj} = h"
  unfolding covers_def by blast

lemma logged_same:
  assumes "logged_inv (m, h, fs)"
  shows "h \<union> {(key, obj). fmlookup (objects m) key = Some obj} = h" "logged_inv (m, h, rest)"
  using assms covers_Un unfolding logged_inv_iff by blast+

lemma Memory_store_logged:
  assumes inv: "logged_inv (m, h, fs)" and st: "Memory_store key data m = (m', etag)"
  defines "obj \<equiv> \<lparr>obj_Data = data, obj_ETag = etag\<rparr>"
  shows "h \<union> {(k, x). fmlookup (objects m') k = Some x} = insert (key, obj) h"
    and "logged_inv (m', insert (key, obj) h, rest)" and "fmlookup (objects m') = (fmlookup (objects m))(key \<mapsto> obj)"
proof -
  have e: "etag = mem_etag (mem_seq m + 1)"
    and m': "objects m' = fmupd key obj (objects m)" "mem_seq m' = mem_seq m + 1" "unconditional m' = unconditional m"
    using st by (auto simp: Memory_store_def Let_def obj_def)
  show lk: "fmlookup (objects m') = (fmlookup (objects m))(key \<mapsto> obj)" by (auto simp: m')
  have cov: "covers (objects m) h" and tag: "tagged_upto (mem_seq m) h" and det: "tags_determine h"
    using inv unfolding logged_inv_iff by blast+
  have sub: "{(k, x). fmlookup (objects m') k = Some x} \<subseteq> insert (key, obj) h"
  proof
    fix p assume p: "p \<in> {(k, x). fmlookup (objects m') k = Some x}"
    show "p \<in> insert (key, obj) h"
    proof (cases "fst p = key")
      case True
      then show ?thesis using p by (cases p) (simp add: lk)
    next
      case False
      then have "p \<in> {(k, x). fmlookup (objects m) k = Some x}" using p by (cases p) (simp add: lk)
      then show ?thesis using cov unfolding covers_def by blast
    qed
  qed
  moreover have "fmlookup (objects m') key = Some obj" by (simp add: lk)
  ultimately show "h \<union> {(k, x). fmlookup (objects m') k = Some x} = insert (key, obj) h" by blast
  have fresh: "obj_ETag (snd x) \<noteq> etag" if x: "x \<in> h" for x
  proof -
    obtain k where "k \<le> mem_seq m" "obj_ETag (snd x) = mem_etag k" using tag x unfolding tagged_upto_def by blast
    then show ?thesis using mem_etag_inj [of k "mem_seq m + 1"] by (auto simp: e)
  qed
  have "tags_determine (insert (key, obj) h)"
    unfolding tags_determine_def
  proof (intro ballI impI)
    fix x y assume "x \<in> insert (key, obj) h" "y \<in> insert (key, obj) h" "fst x = fst y" "obj_ETag (snd x) = obj_ETag (snd y)"
    then consider "x = y" | "x \<in> h" "y \<in> h" | "x \<in> h" "obj_ETag (snd x) = etag" | "y \<in> h" "obj_ETag (snd y) = etag"
      using obj_def by fastforce
    then show "obj_Data (snd x) = obj_Data (snd y)"
    proof cases
      case 2
      then show ?thesis
        using det \<open>fst x = fst y\<close> \<open>obj_ETag (snd x) = obj_ETag (snd y)\<close> unfolding tags_determine_def by blast
    qed (use fresh in simp_all)
  qed
  moreover have "tagged_upto (mem_seq m') (insert (key, obj) h)"
    unfolding tagged_upto_def
  proof
    fix x assume "x \<in> insert (key, obj) h"
    then consider "x = (key, obj)" | k where "k \<le> mem_seq m" "obj_ETag (snd x) = mem_etag k"
      using tag unfolding tagged_upto_def by blast
    then show "\<exists>k\<le>mem_seq m'. obj_ETag (snd x) = mem_etag k"
      by cases (use e m'(2) in \<open>auto simp: obj_def intro: le_SucI\<close>)
  qed
  moreover have "covers (objects m') (insert (key, obj) h)" using sub by (simp add: covers_def)
  ultimately show "logged_inv (m', insert (key, obj) h, rest)"
    using inv m'(3) by (simp add: logged_inv_iff)
qed

text \<open>A write of the in-memory store under faults, in the form the contract asks for.\<close>

lemma faulty_put:
  assumes inv: "logged_inv s" and f: "faulty f s = (s', r)"
    and cases: "\<And>m. \<not> unconditional m \<Longrightarrow> f m = (m, Inl ErrPreconditionFailed) \<or> cond m \<and> (\<exists>m' e. Memory_store key data m = (m', e) \<and> f m = (m', Inr e))"
  shows "logged_inv s' \<and>
    (case r of Inr etag \<Rightarrow> cond (fst s) \<and> stored logged_cur logged_hist key data etag s s'
     | Inl e \<Rightarrow> untouched logged_cur logged_hist s s' \<or> (cond (fst s) \<and> (\<exists>etag. stored logged_cur logged_hist key data etag s s')))"
proof -
  obtain m h fs where s: "s = (m, h, fs)" by (cases s) auto
  note L = logged_same [OF inv [unfolded s]]
  from faulty_cases [OF f [unfolded s]] consider
      rest where "s' = (m, h, rest)" "r = Inl ContextError"
    | m' r0 rest where "f m = (m', r0)" "s' = (m', h \<union> {(key, obj). fmlookup (objects m') key = Some obj}, rest)"
        "r = r0 \<or> r = Inl ContextError" by blast
  then show ?thesis
  proof cases
    case 1
    then show ?thesis using L by (simp add: s untouched_def logged_cur_def logged_hist_def)
  next
    case 2
    have "\<not> unconditional m" using inv by (simp add: s logged_inv_iff)
    from cases [OF this] show ?thesis
    proof (elim disjE conjE exE)
      assume "f m = (m, Inl ErrPreconditionFailed)"
      then show ?thesis using 2 L by (auto simp: s untouched_def logged_cur_def logged_hist_def)
    next
      fix m1 e assume c: "cond m" and st: "Memory_store key data m = (m1, e)" and fm: "f m = (m1, Inr e)"
      note M = Memory_store_logged [OF inv [unfolded s] st]
      have "s' = (m1, insert (key, \<lparr>obj_Data = data, obj_ETag = e\<rparr>) h, rest)" using 2 fm M(1) by simp
      moreover have "stored logged_cur logged_hist key data e s (m1, insert (key, \<lparr>obj_Data = data, obj_ETag = e\<rparr>) h, rest)"
        by (simp add: stored_def s logged_cur_def logged_hist_def M(3))
      ultimately show ?thesis using 2 fm M(2) c by (auto simp: s)
    qed
  qed
qed

lemma logged_inv_drop:
  assumes "logged_inv (m, h, fs)" "\<And>k x. fmlookup O' k = Some x \<Longrightarrow> fmlookup (objects m) k = Some x"
  shows "logged_inv (m\<lparr>objects := O'\<rparr>, h, rest)" "h \<union> {(key, obj). fmlookup O' key = Some obj} = h"
proof -
  have "covers O' h" using assms unfolding logged_inv_iff covers_def by blast
  then show "logged_inv (m\<lparr>objects := O'\<rparr>, h, rest)" "h \<union> {(key, obj). fmlookup O' key = Some obj} = h"
    using assms(1) covers_Un by (simp_all add: logged_inv_iff)
qed

lemma Memory_write_cases:
  "\<exists>m' e. Memory_store key data m = (m', e) \<and> Memory_Put key data m = (m', Inr e)"
  "\<not> unconditional m \<Longrightarrow> Memory_PutIfAbsent key data m = (m, Inl ErrPreconditionFailed) \<or>
     fmlookup (objects m) key = None \<and> (\<exists>m' e. Memory_store key data m = (m', e) \<and> Memory_PutIfAbsent key data m = (m', Inr e))"
  "\<not> unconditional m \<Longrightarrow> Memory_PutIfMatch key data etag m = (m, Inl ErrPreconditionFailed) \<or>
     (\<exists>obj. fmlookup (objects m) key = Some obj \<and> obj_ETag obj = etag) \<and>
     (\<exists>m' e. Memory_store key data m = (m', e) \<and> Memory_PutIfMatch key data etag m = (m', Inr e))"
  by (auto simp: Memory_Put_def Memory_PutIfAbsent_def Memory_PutIfMatch_def split: prod.splits option.splits)

text \<open>Calls that only read.\<close>

lemma faulty_read:
  assumes inv: "logged_inv s" and f: "faulty f s = (s', r)" and read: "\<And>m. \<exists>r0. f m = (m, r0)"
  shows "logged_inv s' \<and> untouched logged_cur logged_hist s s' \<and> (r = Inl ContextError \<or> r = snd (f (fst s)))"
proof -
  obtain m h fs where s: "s = (m, h, fs)" by (cases s) auto
  obtain r0 where r0: "f m = (m, r0)" using read by blast
  note L = logged_same [OF inv [unfolded s]]
  from faulty_cases [OF f [unfolded s]] r0 L(1) obtain rest where "s' = (m, h, rest)" "r = Inl ContextError \<or> r = r0"
    by auto
  then show ?thesis using L(2) r0 by (simp add: s untouched_def logged_cur_def logged_hist_def)
qed

lemma faulty_delete:
  assumes inv: "logged_inv s" and f: "faulty (Memory_Delete key) s = (s', r)"
  shows "logged_inv s' \<and> logged_hist s' = logged_hist s \<and>
    (case r of Inr _ \<Rightarrow> logged_cur s' = (logged_cur s)(key := None)
     | Inl e \<Rightarrow> logged_cur s' = logged_cur s \<or> logged_cur s' = (logged_cur s)(key := None))"
proof -
  obtain m h fs where s: "s = (m, h, fs)" by (cases s) auto
  note L = logged_same [OF inv [unfolded s]]
  have drop: "fmlookup (fmdrop key (objects m)) = (fmlookup (objects m))(key := None)" by auto
  define m1 where "m1 = m\<lparr>objects := fmdrop key (objects m)\<rparr>"
  have md: "Memory_Delete key m = (m1, Inr ())" by (simp add: Memory_Delete_def m1_def)
  have h1: "h \<union> {(key, obj). fmlookup (objects m1) key = Some obj} = h" 
    unfolding m1_def Memory.simps by (rule logged_inv_drop(2) [OF inv [unfolded s]]) (simp split: if_splits)
  have i1: "logged_inv (m1, h, rest)" for rest
    unfolding m1_def by (rule logged_inv_drop(1) [OF inv [unfolded s]]) (simp split: if_splits)
  have o1: "fmlookup (objects m1) = (fmlookup (objects m))(key := None)" using drop by (simp add: m1_def)
  from faulty_cases [OF f [unfolded s]] md h1 consider rest where "s' = (m, h, rest)" "r = Inl ContextError"
    | rest where "s' = (m1, h, rest)" "r = Inr () \<or> r = Inl ContextError" by auto
  then show ?thesis
    by cases (use L(2) i1 o1 in \<open>auto simp: s logged_cur_def logged_hist_def\<close>)
qed

interpretation memory: object_store faulty_ops logged_cur logged_hist logged_inv
proof
  fix s key obj assume "logged_inv s" "logged_cur s key = Some obj"
  then show "(key, obj) \<in> logged_hist s" by (auto simp: logged_inv_def covers_def logged_cur_def)
next
  fix s key a b assume "logged_inv s" "(key, a) \<in> logged_hist s" "(key, b) \<in> logged_hist s" "obj_ETag a = obj_ETag b"
  then show "obj_Data a = obj_Data b" unfolding logged_inv_def tags_determine_def by fastforce
next
  fix s key a assume "logged_inv s" "(key, a) \<in> logged_hist s"
  then show "obj_ETag a \<noteq> []" by (fastforce simp: logged_inv_def tagged_upto_def mem_etag_def)
next
  fix s key s' and got :: "Object result" assume "logged_inv s" "st_Get faulty_ops key s = (s', got)"
  then show "logged_inv s' \<and> untouched logged_cur logged_hist s s' \<and>
      (case got of Inl e \<Rightarrow> errors_Is e ErrNotFound \<longrightarrow> logged_cur s key = None | Inr obj \<Rightarrow> logged_cur s key = Some obj)"
    using faulty_read [of s "Memory_Get key" s' got]
    by (auto simp: faulty_ops_def Memory_Get_def logged_cur_def split: option.splits)
next
  fix s key data s' r assume "logged_inv s" "st_Put faulty_ops key data s = (s', r)"
  then show "logged_inv s' \<and> (case r of Inl e \<Rightarrow> untouched logged_cur logged_hist s s' \<or> (\<exists>etag. stored logged_cur logged_hist key data etag s s')
      | Inr etag \<Rightarrow> stored logged_cur logged_hist key data etag s s')"
    using faulty_put [of s "Memory_Put key data" s' r "\<lambda>_. True" key data] Memory_write_cases(1)
    by (cases r) (simp_all add: faulty_ops_def)
next
  fix s key data s' r assume "logged_inv s" "st_PutIfAbsent faulty_ops key data s = (s', r)"
  then show "logged_inv s' \<and> (case r of Inl e \<Rightarrow> untouched logged_cur logged_hist s s' \<or>
        (logged_cur s key = None \<and> (\<exists>etag. stored logged_cur logged_hist key data etag s s'))
      | Inr etag \<Rightarrow> logged_cur s key = None \<and> stored logged_cur logged_hist key data etag s s')"
    using faulty_put [of s "Memory_PutIfAbsent key data" s' r "\<lambda>m. fmlookup (objects m) key = None" key data]
      Memory_write_cases(2) by (cases r) (simp_all add: faulty_ops_def logged_cur_def)
next
  fix s key data etag s' r assume "logged_inv s" "st_PutIfMatch faulty_ops key data etag s = (s', r)"
  then show "logged_inv s' \<and> (case r of Inl e \<Rightarrow> untouched logged_cur logged_hist s s' \<or>
        ((\<exists>obj. logged_cur s key = Some obj \<and> obj_ETag obj = etag) \<and> (\<exists>new. stored logged_cur logged_hist key data new s s'))
      | Inr new \<Rightarrow> (\<exists>obj. logged_cur s key = Some obj \<and> obj_ETag obj = etag) \<and> stored logged_cur logged_hist key data new s s')"
    using faulty_put [of s "Memory_PutIfMatch key data etag" s' r
        "\<lambda>m. \<exists>obj. fmlookup (objects m) key = Some obj \<and> obj_ETag obj = etag" key data]
      Memory_write_cases(3) by (cases r) (simp_all add: faulty_ops_def logged_cur_def)
next
  fix s key s' and removed :: "unit result" assume "logged_inv s" "st_Delete faulty_ops key s = (s', removed)"
  then show "logged_inv s' \<and> logged_hist s' = logged_hist s \<and>
    (case removed of Inl e \<Rightarrow> logged_cur s' = logged_cur s \<or> logged_cur s' = (logged_cur s)(key := None)
     | Inr x \<Rightarrow> logged_cur s' = (logged_cur s)(key := None))"
    using faulty_delete [of s key s' removed] by (simp add: faulty_ops_def)
next
  fix s prefix s' and listed :: "string list result" assume "logged_inv s" "st_List faulty_ops prefix s = (s', listed)"
  then show "logged_inv s' \<and> untouched logged_cur logged_hist s s' \<and>
      (case listed of Inl e \<Rightarrow> True | Inr keys \<Rightarrow> distinct keys \<and> set keys = {k \<in> dom (logged_cur s). strings_HasPrefix k prefix})"
    using faulty_read [of s "Memory_List prefix" s' listed]
    by (auto simp: faulty_ops_def Memory_List_def logged_cur_def sorted_list_of_fset.rep_eq sorted_list_of_fset_simps fmdom'_notI
        fmlookup_dom_iff dom_def)
qed

section \<open>The probes\<close>

lemma dec_digits: "set (dec n) \<subseteq> set ''0123456789''"
proof (induction n rule: dec.induct)
  case (1 n)
  have "dec_digit k \<in> set ''0123456789''" if "k < 10" for k
    using that unfolding dec_digit_def by (auto simp: numeral_eq_Suc less_Suc_eq)
  then show ?case using 1 by (subst dec.simps) auto
qed

lemma mem_etag_not_bogus: "mem_etag n \<noteq> [CHR 34] @ ''bogus'' @ [CHR 34]"
  using dec_digits [of n] by (auto simp: mem_etag_def)

lemma fmdrop_fmupd_absent: "fmlookup m k = None \<Longrightarrow> fmdrop k (fmupd k x m) = m"
  by (rule fmap_ext) auto



end
