(* ===== verification/Manifest.thy ===== *)
theory Manifest
  imports Segment ObjectStore
begin

text \<open>
  The metadata of a volume (\<open>internal/replica/remote.go\<close>): the state document, manifests,
  manifest bundles and segment references, their validation, and reading manifests from the
  inline area, the bundle chain or standalone objects. JSON encoding is a parameter (\<open>wire\<close>,
  which extends the segment codec); times are nanoseconds, 0 being the zero time. A Go error
  wrapping another is \<open>Wrap\<close>.
\<close>

section \<open>Documents\<close>

record LeaseRecord =
  Holder :: string
  Token :: string
  lr_Epoch :: u64
  ExpiresAt :: int
  MountedAt :: int

record ManifestBundleRef =
  mb_Key :: string
  FirstGeneration :: u64
  LastGeneration :: u64

record State =
  s_Format :: string
  s_ID :: string
  s_Name :: string
  s_Size :: int
  s_BlockSize :: int
  Filesystem :: string
  s_Generation :: u64
  s_Manifest :: string
  InlineManifests :: "(string, bytes) fmap"
  ManifestBundle :: "ManifestBundleRef option"
  Checkpoint :: u64
  s_Epoch :: u64
  Deleting :: bool
  s_Lease :: "LeaseRecord option"

record ObjectRef =
  ref_Key :: string
  SourceManifest :: string
  SourceBundle :: string
  SourceIndex :: u32
  InlineData :: bytes
  ref_SHA256 :: string
  ref_Bytes :: int
  ref_Blocks :: int
  ref_Extents :: "Extent list"
  ref_ZeroExtents :: "Extent list"

record Manifest =
  m_Format :: string
  VolumeID :: string
  m_Generation :: u64
  m_Epoch :: u64
  Kind :: string
  Parent :: string
  Segments :: "ObjectRef list"
  CreatedAt :: int

record bundledManifest =
  bm_Key :: string
  bm_Body :: bytes

record manifestBundle =
  b_Format :: string
  b_VolumeID :: string
  b_FirstGeneration :: u64
  b_LastGeneration :: u64
  b_Parent :: "ManifestBundleRef option"
  Manifests :: "bundledManifest list"

record gcRecord =
  gc_Format :: string
  gc_VolumeID :: string
  gc_CreatedAt :: int
  gc_Objects :: "string list"

record wire = codec +
  marshalState :: "State \<Rightarrow> bytes"
  unmarshalState :: "bytes \<Rightarrow> State result"
  marshalManifest :: "Manifest \<Rightarrow> bytes"
  unmarshalManifest :: "bytes \<Rightarrow> Manifest result"
  marshalBundle :: "manifestBundle \<Rightarrow> bytes"
  unmarshalBundle :: "bytes \<Rightarrow> manifestBundle result"
  marshalGC :: "gcRecord \<Rightarrow> bytes"
  unmarshalGC :: "bytes \<Rightarrow> gcRecord result"

text \<open>\<open>json.Unmarshal\<close> reads back what \<open>json.Marshal\<close> wrote.\<close>

definition json_ok :: "wire \<Rightarrow> bool" where
  "json_ok w \<longleftrightarrow> (\<forall>x. unmarshalState w (marshalState w x) = Inr x) \<and>
     (\<forall>x. unmarshalManifest w (marshalManifest w x) = Inr x) \<and>
     (\<forall>x. unmarshalBundle w (marshalBundle w x) = Inr x) \<and>
     (\<forall>x. unmarshalGC w (marshalGC w x) = Inr x)"

section \<open>Names and limits\<close>

definition Format :: string where
  "Format = ''satchel-block-v2''"

definition inlineSegmentLimit :: int where "inlineSegmentLimit = 65536"
definition inlineManifestLimit :: int where "inlineManifestLimit = 65536"
definition inlineManifestStateLimit :: int where "inlineManifestStateLimit = 65536"
definition manifestBundleTarget :: int where "manifestBundleTarget = 16384"

definition VolumePrefix :: "string \<Rightarrow> string" where
  "VolumePrefix name = ''volumes/'' @ name @ ''/''"

definition StateKey :: "string \<Rightarrow> string" where
  "StateKey name = ''volumes/'' @ name @ ''/state.json''"

text \<open>The regular expression of \<open>validVolumeName\<close>: a letter or digit, then letters, digits,
  underscore, dot and dash.\<close>

definition alnum :: "char \<Rightarrow> bool" where
  "alnum ch \<longleftrightarrow> (let n = (of_char ch :: nat) in 48 \<le> n \<and> n \<le> 57 \<or> 65 \<le> n \<and> n \<le> 90 \<or> 97 \<le> n \<and> n \<le> 122)"

definition validVolumeName :: "string \<Rightarrow> bool" where
  "validVolumeName s = (case s of [] \<Rightarrow> False
     | ch # rest \<Rightarrow> alnum ch \<and> list_all (\<lambda>x. alnum x \<or> x \<in> set ''_.-'') rest)"

definition manifestKey :: "wire \<Rightarrow> string \<Rightarrow> bytes \<Rightarrow> string" where
  "manifestKey w name body = VolumePrefix name @ ''manifests/'' @ hex_EncodeToString (sha256 w body) @ ''.json''"

definition bundleKey :: "wire \<Rightarrow> string \<Rightarrow> bytes \<Rightarrow> string" where
  "bundleKey w name body = VolumePrefix name @ ''manifest-bundles/'' @ hex_EncodeToString (sha256 w body) @ ''.json''"

definition segmentKey :: "string \<Rightarrow> u64 \<Rightarrow> u64 \<Rightarrow> string \<Rightarrow> string" where
  "segmentKey name epoch generation digest =
     VolumePrefix name @ ''segments/e'' @ dec (unat epoch) @ ''-g'' @ dec (unat generation) @ ''-'' @ digest @ ''.seg.gz''"

definition validManifestBundleRef :: "string \<Rightarrow> ManifestBundleRef \<Rightarrow> bool" where
  "validManifestBundleRef name ref \<longleftrightarrow>
     strings_HasPrefix (mb_Key ref) (VolumePrefix name @ ''manifest-bundles/'') \<and>
     strings_HasSuffix (mb_Key ref) ''.json'' \<and>
     FirstGeneration ref > 0 \<and> LastGeneration ref \<ge> FirstGeneration ref"

section \<open>Validation\<close>

text \<open>\<open>hex.DecodeString\<close>: the number of bytes decoded, or \<open>None\<close> for an odd length or a character
  that is not a hexadecimal digit (upper case is accepted).\<close>

definition hex_DecodedLen :: "string \<Rightarrow> nat option" where
  "hex_DecodedLen s =
     (if even (length s) \<and> list_all (\<lambda>x. x \<in> set ''0123456789abcdefABCDEF'') s
      then Some (length s div 2) else None)"

abbreviation invalid :: "string \<Rightarrow> 'a result" where
  "invalid msg \<equiv> Inl (Errorf msg)"

text \<open>The storage of one segment reference: exactly one of a key, inline data or a source.\<close>

definition checkStorage :: "wire \<Rightarrow> State \<Rightarrow> ObjectRef \<Rightarrow> unit result" where
  "checkStorage w state ref =
     (let segmentPrefix = VolumePrefix (s_Name state) @ ''segments/'';
          manifestPrefix = VolumePrefix (s_Name state) @ ''manifests/'';
          bundlePrefix = VolumePrefix (s_Name state) @ ''manifest-bundles/'';
          kinds = (if ref_Key ref \<noteq> [] then 1 else 0) + (if InlineData ref \<noteq> [] then 1 else 0) +
                  (if SourceManifest ref \<noteq> [] then 1 else (0::nat))
      in if ref_Key ref \<noteq> [] \<and>
            (\<not> strings_HasPrefix (ref_Key ref) segmentPrefix \<or>
             \<not> strings_HasSuffix (ref_Key ref) (''-'' @ ref_SHA256 ref @ ''.seg.gz''))
         then invalid ''invalid segment key''
         else if InlineData ref \<noteq> [] \<and>
            (int (length (InlineData ref)) \<noteq> ref_Bytes ref \<or>
             hex_EncodeToString (sha256 w (InlineData ref)) \<noteq> ref_SHA256 ref)
         then invalid ''invalid inline segment data''
         else if SourceManifest ref \<noteq> [] \<and>
            (\<not> strings_HasPrefix (SourceManifest ref) manifestPrefix \<or> \<not> strings_HasSuffix (SourceManifest ref) ''.json'')
         then invalid ''invalid inline segment source''
         else if SourceManifest ref \<noteq> [] \<and> SourceBundle ref \<noteq> [] \<and>
            (\<not> strings_HasPrefix (SourceBundle ref) bundlePrefix \<or> \<not> strings_HasSuffix (SourceBundle ref) ''.json'')
         then invalid ''invalid segment source bundle''
         else if SourceManifest ref = [] \<and> SourceBundle ref \<noteq> []
         then invalid ''segment bundle without a source manifest''
         else if kinds \<noteq> 1 then invalid ''invalid segment storage''
         else Inr ())"

text \<open>The loop over the segments: \<open>blocks\<close> and \<open>exts\<close> are \<open>manifestBlocks\<close> and \<open>manifestExtents\<close>.\<close>

fun validate_segments ::
  "wire \<Rightarrow> State \<Rightarrow> string \<Rightarrow> u64 \<Rightarrow> ObjectRef list \<Rightarrow> u64 \<Rightarrow> Extent list \<Rightarrow> (u64 \<times> Extent list) result" where
  "validate_segments w state kind maxBlocks [] blocks exts = Inr (blocks, exts)"
| "validate_segments w state kind maxBlocks (ref # refs) blocks exts =
     (if ref_Bytes ref \<le> 0 \<or> ref_Blocks ref \<le> 0 \<or> word_of_int (ref_Blocks ref) > maxBlocks \<or> ref_Extents ref = []
      then invalid ''invalid segment reference''
      else if hex_DecodedLen (ref_SHA256 ref) \<noteq> Some 32 then invalid ''invalid segment digest''
      else bindR (checkStorage w state ref) (\<lambda>_.
        case validateExtents (ref_Extents ref) maxBlocks of
          Inl _ \<Rightarrow> invalid ''invalid segment extents''
        | Inr n \<Rightarrow>
            if n > word_of_int (ref_Blocks ref) \<or> kind = ''delta'' \<and> n \<noteq> word_of_int (ref_Blocks ref)
            then invalid ''invalid segment extents''
            else if \<not> is_ok (validateExtents (ref_ZeroExtents ref) maxBlocks) \<or>
                    \<not> extentsContain (ref_Extents ref) (ref_ZeroExtents ref)
            then invalid ''invalid zero extents''
            else if blocks > - 1 - n then invalid ''extent count overflows''
            else validate_segments w state kind maxBlocks refs (blocks + n) (exts @ ref_Extents ref)))"

definition validateManifest :: "wire \<Rightarrow> State \<Rightarrow> Manifest \<Rightarrow> u64 \<Rightarrow> unit result" where
  "validateManifest w state manifest expectedGeneration =
     (if m_Format manifest \<noteq> Format \<or> VolumeID manifest \<noteq> s_ID state \<or> m_Epoch manifest = 0
      then invalid ''manifest does not belong to volume''
      else if m_Generation manifest \<noteq> expectedGeneration \<or> expectedGeneration = 0
      then invalid ''manifest breaks the generation chain''
      else if Kind manifest = ''delta'' \<and> Segments manifest = [] then invalid ''delta manifest has no segments''
      else if Kind manifest \<noteq> ''delta'' \<and> Kind manifest \<noteq> ''checkpoint'' then invalid ''manifest has unknown kind''
      else
        let maxBlocks = word_of_int (s_Size state div s_BlockSize state) in
        bindR (validate_segments w state (Kind manifest) maxBlocks (Segments manifest) 0 []) (\<lambda>(blocks, exts).
          case validateExtents (unionExtents [] exts) maxBlocks of
            Inl _ \<Rightarrow> invalid ''overlapping segment extents''
          | Inr covered \<Rightarrow> if covered \<noteq> blocks then invalid ''overlapping segment extents'' else Inr ()))"

definition decodeManifest :: "wire \<Rightarrow> State \<Rightarrow> string \<Rightarrow> bytes \<Rightarrow> u64 \<Rightarrow> Manifest result" where
  "decodeManifest w state key body expectedGeneration =
     (case unmarshalManifest w body of
        Inl e \<Rightarrow> Inl (Wrap ''decode manifest'' e)
      | Inr manifest \<Rightarrow>
          if key \<noteq> manifestKey w (s_Name state) body then invalid ''manifest checksum mismatch''
          else
            let expected = (if expectedGeneration = 0 then m_Generation manifest else expectedGeneration) in
            bindR (validateManifest w state manifest expected) (\<lambda>_. Inr manifest))"

text \<open>The loop over the inline manifests. Go visits the map in an unspecified order; the model
  takes the order of the keys, which decides only the error reported.\<close>

fun validate_inline :: "wire \<Rightarrow> State \<Rightarrow> string list \<Rightarrow> int \<Rightarrow> unit result" where
  "validate_inline w state [] inlineBytes = Inr ()"
| "validate_inline w state (key # keys) inlineBytes =
     (let body = the (fmlookup (InlineManifests state) key);
          inlineBytes' = inlineBytes + int (length body)
      in if inlineBytes' > inlineManifestStateLimit then invalid ''too much inline manifest data''
         else bindR (decodeManifest w state key body 0) (\<lambda>_. validate_inline w state keys inlineBytes'))"

definition inline_keys :: "(string, bytes) fmap \<Rightarrow> string list" where
  "inline_keys m = sorted_list_of_fset (fmdom m)"

definition validateState :: "wire \<Rightarrow> string \<Rightarrow> State \<Rightarrow> unit result" where
  "validateState w name state =
     (if s_Format state \<noteq> Format then invalid ''unsupported format''
      else if s_Name state \<noteq> name \<or> s_ID state = [] then invalid ''corrupt identity''
      else if s_Size state \<le> 0 \<or> s_Size state mod DefaultBlockSize \<noteq> 0 \<or> s_BlockSize state \<noteq> DefaultBlockSize
      then invalid ''invalid geometry''
      else if Checkpoint state > s_Generation state then invalid ''invalid checkpoint generation''
      else if (s_Generation state = 0) \<noteq> (s_Manifest state = []) then invalid ''inconsistent generation metadata''
      else bindR (validate_inline w state (inline_keys (InlineManifests state)) 0) (\<lambda>_.
        case ManifestBundle state of
          None \<Rightarrow> Inr ()
        | Some bundle \<Rightarrow>
            if validManifestBundleRef (s_Name state) bundle then Inr () else invalid ''invalid manifest bundle''))"

section \<open>Reading manifests\<close>

text \<open>Objects are read through \<open>get\<close>, the \<open>Get\<close> of the store while a restore runs; manifests,
  bundles and segments are immutable and named by their digest.\<close>

type_synonym getter = "string \<Rightarrow> Object result"

fun check_bundle_entries :: "wire \<Rightarrow> State \<Rightarrow> manifestBundle \<Rightarrow> nat \<Rightarrow> u64 \<Rightarrow> u64 \<Rightarrow> bundledManifest list \<Rightarrow> (u64 \<times> u64) result" where
  "check_bundle_entries w state bundle index first previous [] = Inr (first, previous)"
| "check_bundle_entries w state bundle index first previous (entry # entries) =
     (case decodeManifest w state (bm_Key entry) (bm_Body entry) 0 of
        Inl e \<Rightarrow> Inl (Wrap ''validate manifest bundle'' e)
      | Inr manifest \<Rightarrow>
          if m_Generation manifest < b_FirstGeneration bundle \<or> m_Generation manifest > b_LastGeneration bundle \<or>
             index > 0 \<and> m_Generation manifest \<le> previous
          then invalid ''unordered generations''
          else check_bundle_entries w state bundle (Suc index)
                 (if index = 0 then m_Generation manifest else first) (m_Generation manifest) entries)"

definition readManifestBundle :: "wire \<Rightarrow> getter \<Rightarrow> State \<Rightarrow> ManifestBundleRef \<Rightarrow> manifestBundle result" where
  "readManifestBundle w get state ref =
     (case get (mb_Key ref) of
        Inl e \<Rightarrow> Inl (Wrap ''read manifest bundle'' e)
      | Inr obj \<Rightarrow>
          if mb_Key ref \<noteq> bundleKey w (s_Name state) (obj_Data obj) then invalid ''manifest bundle checksum mismatch''
          else
            (case unmarshalBundle w (obj_Data obj) of
               Inl e \<Rightarrow> Inl (Wrap ''decode manifest bundle'' e)
             | Inr bundle \<Rightarrow>
                 if b_Format bundle \<noteq> Format \<or> b_VolumeID bundle \<noteq> s_ID state \<or>
                    b_FirstGeneration bundle \<noteq> FirstGeneration ref \<or> b_LastGeneration bundle \<noteq> LastGeneration ref \<or>
                    Manifests bundle = []
                 then invalid ''invalid manifest bundle''
                 else if (case b_Parent bundle of None \<Rightarrow> False
                          | Some p \<Rightarrow> \<not> validManifestBundleRef (s_Name state) p \<or> LastGeneration p \<ge> b_FirstGeneration bundle)
                 then invalid ''manifest bundle has an invalid parent''
                 else bindR (check_bundle_entries w state bundle 0 0 0 (Manifests bundle)) (\<lambda>(first, previous).
                   if first \<noteq> b_FirstGeneration bundle \<or> previous \<noteq> b_LastGeneration bundle
                   then invalid ''manifest bundle has an invalid generation range''
                   else Inr bundle)))"

type_synonym bundle_cache = "(string, manifestBundle) fmap"

definition cachedBundle :: "wire \<Rightarrow> getter \<Rightarrow> State \<Rightarrow> ManifestBundleRef \<Rightarrow> bundle_cache \<Rightarrow> (manifestBundle \<times> bundle_cache) result" where
  "cachedBundle w get state ref bundles =
     (case fmlookup bundles (mb_Key ref) of
        Some bundle \<Rightarrow> Inr (bundle, bundles)
      | None \<Rightarrow> bindR (readManifestBundle w get state ref) (\<lambda>bundle. Inr (bundle, fmupd (mb_Key ref) bundle bundles)))"

text \<open>
  The walk down the bundle chain. Each bundle's parent ends before it starts, so the walk ends;
  \<open>fuel\<close> bounds it by the generation it looks for. \<open>Inr None\<close> is leaving the loop without a hit.
\<close>

fun search_bundles ::
  "nat \<Rightarrow> wire \<Rightarrow> getter \<Rightarrow> State \<Rightarrow> string \<Rightarrow> u64 \<Rightarrow> ManifestBundleRef option \<Rightarrow> bundle_cache \<Rightarrow>
     ((Manifest \<times> string) option \<times> bundle_cache) result" where
  "search_bundles 0 w get state key expected bundleRef bundles = Inl (Errorf ''manifest bundle chain is too long'')"
| "search_bundles (Suc fuel) w get state key expected bundleRef bundles =
     (case bundleRef of
        None \<Rightarrow> Inr (None, bundles)
      | Some ref \<Rightarrow>
          if expected = 0 \<or> expected > LastGeneration ref then Inr (None, bundles)
          else bindR (cachedBundle w get state ref bundles) (\<lambda>(bundle, bundles').
            if expected \<ge> FirstGeneration ref
            then (case find (\<lambda>entry. bm_Key entry = key) (Manifests bundle) of
                    Some entry \<Rightarrow>
                      bindR (decodeManifest w state key (bm_Body entry) expected)
                        (\<lambda>manifest. Inr (Some (manifest, mb_Key ref), bundles'))
                  | None \<Rightarrow> Inr (None, bundles'))
            else search_bundles fuel w get state key expected (b_Parent bundle) bundles'))"

definition readManifestWithSourceCache ::
  "wire \<Rightarrow> getter \<Rightarrow> State \<Rightarrow> string \<Rightarrow> u64 \<Rightarrow> bundle_cache \<Rightarrow> (Manifest \<times> string \<times> bundle_cache) result" where
  "readManifestWithSourceCache w get state key expected bundles =
     (case fmlookup (InlineManifests state) key of
        Some body \<Rightarrow> bindR (decodeManifest w state key body expected) (\<lambda>manifest. Inr (manifest, [], bundles))
      | None \<Rightarrow>
          bindR (search_bundles (2 ^ 64) w get state key expected (ManifestBundle state) bundles) (\<lambda>(hit, bundles').
            case hit of
              Some (manifest, bundle) \<Rightarrow> Inr (manifest, bundle, bundles')
            | None \<Rightarrow>
                (case get key of
                   Inl e \<Rightarrow> Inl (Wrap ''read manifest'' e)
                 | Inr obj \<Rightarrow>
                     bindR (decodeManifest w state key (obj_Data obj) expected)
                       (\<lambda>manifest. Inr (manifest, [], bundles')))))"

record manifestEntry =
  e_key :: string
  e_manifest :: Manifest
  e_bundle :: string

text \<open>
  \<open>restoreManifests\<close>: the chain from the head down to the newest checkpoint. The source stops
  with an error once it has read more than a million manifests; \<open>fuel\<close> is what is left of that.
\<close>

fun restore_loop ::
  "nat \<Rightarrow> wire \<Rightarrow> getter \<Rightarrow> State \<Rightarrow> string \<Rightarrow> u64 \<Rightarrow> bundle_cache \<Rightarrow> manifestEntry list \<Rightarrow> manifestEntry list result" where
  "restore_loop 0 w get state key expected bundles acc = invalid ''manifest chain is too long''"
| "restore_loop (Suc fuel) w get state key expected bundles acc =
     (if key = [] then (if expected \<noteq> 0 then invalid ''manifest chain ended before generation zero'' else Inr acc)
      else bindR (readManifestWithSourceCache w get state key expected bundles) (\<lambda>(manifest, bundle, bundles').
        let acc' = acc @ [\<lparr>e_key = key, e_manifest = manifest, e_bundle = bundle\<rparr>] in
        if Kind manifest = ''checkpoint'' then Inr acc'
        else restore_loop fuel w get state (Parent manifest) (expected - 1) bundles' acc'))"

definition restoreManifests :: "wire \<Rightarrow> getter \<Rightarrow> State \<Rightarrow> manifestEntry list result" where
  "restoreManifests w get state =
     restore_loop 1000001 w get state (s_Manifest state) (s_Generation state) fmempty []"

section \<open>What validation guarantees\<close>

text \<open>The blocks of a segment reference, and of the part it declares zero.\<close>

definition ref_blocks :: "ObjectRef \<Rightarrow> u64 set" where
  "ref_blocks r = exts_set (ref_Extents r)"

definition ref_zeros :: "ObjectRef \<Rightarrow> u64 set" where
  "ref_zeros r = exts_set (ref_ZeroExtents r)"

definition wf_ref :: "u64 \<Rightarrow> ObjectRef \<Rightarrow> bool" where
  "wf_ref n r \<longleftrightarrow> wf_extents (ref_Extents r) \<and> wf_extents (ref_ZeroExtents r) \<and> ref_Extents r \<noteq> [] \<and>
     ref_blocks r \<subseteq> {..<n} \<and> ref_zeros r \<subseteq> ref_blocks r"

definition disjoint_refs :: "ObjectRef list \<Rightarrow> bool" where
  "disjoint_refs rs \<longleftrightarrow> sorted_wrt (\<lambda>a b. ref_blocks a \<inter> ref_blocks b = {}) rs"

definition wf_refs :: "u64 \<Rightarrow> ObjectRef list \<Rightarrow> bool" where
  "wf_refs n rs \<longleftrightarrow> list_all (wf_ref n) rs \<and> disjoint_refs rs"

lemma disjoint_refs_simps [simp]:
  "disjoint_refs []" "disjoint_refs (r # rs) \<longleftrightarrow> (\<forall>x\<in>set rs. ref_blocks r \<inter> ref_blocks x = {}) \<and> disjoint_refs rs"
  by (auto simp: disjoint_refs_def)

lemma finite_blocks [simp]: "finite (S :: u64 set)"
  by simp

text \<open>A family whose union is as large as the sum of its members is disjoint.\<close>

lemma card_disjoint:
  "card (\<Union>r\<in>set rs. ref_blocks r) = (\<Sum>r\<leftarrow>rs. card (ref_blocks r)) \<Longrightarrow> disjoint_refs rs"
proof (induction rs)
  case (Cons r rs)
  let ?U = "\<Union>x\<in>set rs. ref_blocks x"
  have le: "card ?U \<le> (\<Sum>x\<leftarrow>rs. card (ref_blocks x))"
    by (induction rs) (auto intro: order_trans [OF card_Un_le])
  have "card (ref_blocks r \<union> ?U) + card (ref_blocks r \<inter> ?U) = card (ref_blocks r) + card ?U"
    by (rule card_Un_Int [symmetric]) auto
  moreover have "card (ref_blocks r \<union> ?U) = card (ref_blocks r) + (\<Sum>x\<leftarrow>rs. card (ref_blocks x))"
    using Cons.prems by simp
  ultimately have z: "card (ref_blocks r \<inter> ?U) = 0" and u: "card ?U = (\<Sum>x\<leftarrow>rs. card (ref_blocks x))"
    using le by linarith+
  from z have "ref_blocks r \<inter> ?U = {}" by simp
  then show ?case using Cons.IH [OF u] by auto
qed simp

lemma validate_segments_Inr:
  assumes "validate_segments w state kind n refs blocks exts = Inr (blocks', exts')"
  shows "list_all (wf_ref n) refs \<and> exts' = exts @ concat (map ref_Extents refs) \<and>
    unat blocks' = unat blocks + (\<Sum>r\<leftarrow>refs. card (ref_blocks r)) \<and>
    (\<forall>r\<in>set refs. is_ok (checkStorage w state r) \<and> hex_DecodedLen (ref_SHA256 r) = Some 32 \<and> 0 < ref_Bytes r)"
  using assms
proof (induction refs arbitrary: blocks exts)
  case (Cons r refs)
  obtain k where k: "validateExtents (ref_Extents r) n = Inr k" and z: "is_ok (validateExtents (ref_ZeroExtents r) n)"
      "extentsContain (ref_Extents r) (ref_ZeroExtents r)" and ne: "ref_Extents r \<noteq> []"
    and ov: "\<not> blocks > - 1 - k" and st: "checkStorage w state r = Inr ()"
      "hex_DecodedLen (ref_SHA256 r) = Some 32" "0 < ref_Bytes r"
    and rest: "validate_segments w state kind n refs (blocks + k) (exts @ ref_Extents r) = Inr (blocks', exts')"
    using Cons.prems by (auto simp: result_Inr)
  obtain kz where kz: "validateExtents (ref_ZeroExtents r) n = Inr kz" using z(1) by (cases "validateExtents (ref_ZeroExtents r) n") auto
  note V = validateExtents_Inr [THEN iffD1, OF k] validateExtents_Inr [THEN iffD1, OF kz]
  have wf: "wf_ref n r"
    using V z(2) ne extentsContain_subset [of "ref_Extents r" "ref_ZeroExtents r"]
    by (auto simp: wf_ref_def ref_blocks_def ref_zeros_def)
  have "unat (blocks + k) = unat blocks + unat k"
    using ov word_add_no_overflow [of k blocks] by (simp add: unat_word_ariths)
  then show ?case using Cons.IH [OF rest] wf st V by (auto simp: ref_blocks_def)
qed simp

lemma exts_set_concat: "exts_set (concat ess) = (\<Union>es\<in>set ess. exts_set es)"
  by (auto simp: exts_set_def)

lemma validateManifest_refs:
  assumes "validateManifest w state m g = Inr ()"
  shows "wf_refs (word_of_int (s_Size state div s_BlockSize state)) (Segments m)"
    "m_Generation m = g" "g \<noteq> 0" "Kind m = ''delta'' \<or> Kind m = ''checkpoint''"
    "\<forall>r\<in>set (Segments m). is_ok (checkStorage w state r)"
proof -
  let ?n = "word_of_int (s_Size state div s_BlockSize state) :: u64"
  obtain blocks exts covered where v: "validate_segments w state (Kind m) ?n (Segments m) 0 [] = Inr (blocks, exts)"
    and c: "validateExtents (unionExtents [] exts) ?n = Inr covered" "covered = blocks"
    using assms by (auto simp: validateManifest_def Let_def result_Inr)
  note V = validate_segments_Inr [OF v]
  have nw: "no_wrap exts"
    using V by (auto simp: wf_ref_def wf_extents_def wf_extent_def no_wrap_def list_all_iff intro: less_imp_le)
  have "card (exts_set exts) = unat blocks"
    using validateExtents_Inr [THEN iffD1, OF c(1)] c(2) unionExtents_spec [of "[]" exts] nw by simp
  then have "card (\<Union>r\<in>set (Segments m). ref_blocks r) = (\<Sum>r\<leftarrow>Segments m. card (ref_blocks r))"
    using V by (simp add: exts_set_concat ref_blocks_def)
  then have "disjoint_refs (Segments m)" by (rule card_disjoint)
  then show "wf_refs ?n (Segments m)" using V by (simp add: wf_refs_def)
  show "\<forall>r\<in>set (Segments m). is_ok (checkStorage w state r)" using V by simp
qed (use assms in \<open>auto simp: validateManifest_def Let_def result_Inr\<close>)

section \<open>The bundle walk ends\<close>

text \<open>
  Bundles name each other by digest, so no bundle can be its own ancestor: \<open>rank\<close> is any
  measure that decreases from a stored bundle to its parent.
\<close>

definition ranked :: "wire \<Rightarrow> getter \<Rightarrow> State \<Rightarrow> (string \<Rightarrow> nat) \<Rightarrow> bool" where
  "ranked w get state rank \<longleftrightarrow> (\<forall>key obj b p. get key = Inr obj \<longrightarrow> key = bundleKey w (s_Name state) (obj_Data obj) \<longrightarrow>
     unmarshalBundle w (obj_Data obj) = Inr b \<longrightarrow> b_Parent b = Some p \<longrightarrow> rank (mb_Key p) < rank key)"

text \<open>Every cached bundle was read by \<open>readManifestBundle\<close> under its key.\<close>

definition cache_ok :: "wire \<Rightarrow> getter \<Rightarrow> State \<Rightarrow> bundle_cache \<Rightarrow> bool" where
  "cache_ok w get state bundles \<longleftrightarrow> (\<forall>key b. fmlookup bundles key = Some b \<longrightarrow>
     (\<exists>ref. mb_Key ref = key \<and> readManifestBundle w get state ref = Inr b))"

lemma cache_ok_empty [simp]: "cache_ok w get state fmempty"
  by (simp add: cache_ok_def)

lemma readManifestBundle_rank:
  assumes "readManifestBundle w get state ref = Inr bundle" "ranked w get state rank" "b_Parent bundle = Some p"
  shows "rank (mb_Key p) < rank (mb_Key ref)"
proof -
  obtain obj where "get (mb_Key ref) = Inr obj" "mb_Key ref = bundleKey w (s_Name state) (obj_Data obj)"
      "unmarshalBundle w (obj_Data obj) = Inr bundle"
    using assms(1) by (auto simp: readManifestBundle_def result_Inr)
  then show ?thesis using assms(2,3) unfolding ranked_def by blast
qed

lemma cachedBundle_Inr:
  assumes "cachedBundle w get state ref bundles = Inr (bundle, bundles')" "cache_ok w get state bundles"
  shows "cache_ok w get state bundles'" "\<exists>r. mb_Key r = mb_Key ref \<and> readManifestBundle w get state r = Inr bundle"
  using assms by (fastforce simp: cachedBundle_def cache_ok_def split: option.splits if_splits)+

lemma search_bundles_fuel:
  assumes "ranked w get state rank" "cache_ok w get state bundles"
    "bundleRef \<noteq> None \<longrightarrow> Suc (rank (mb_Key (the bundleRef))) < fuel" "0 < fuel"
  shows "search_bundles (fuel + k) w get state key expected bundleRef bundles =
    search_bundles fuel w get state key expected bundleRef bundles"
  using assms
proof (induction fuel arbitrary: bundleRef bundles)
  case (Suc fuel)
  show ?case
  proof (cases bundleRef)
    case (Some ref)
    have "search_bundles (fuel + k) w get state key expected (b_Parent b) bundles' =
        search_bundles fuel w get state key expected (b_Parent b) bundles'"
      if c: "cachedBundle w get state ref bundles = Inr (b, bundles')" for b bundles'
    proof (cases "b_Parent b")
      case None
      then show ?thesis using Suc.prems Some by (cases fuel) auto
    next
      case p: (Some p)
      have "rank (mb_Key p) < rank (mb_Key ref)"
        using cachedBundle_Inr(2) [OF c Suc.prems(2)] readManifestBundle_rank [OF _ Suc.prems(1) p] by metis
      then have "Suc (rank (mb_Key p)) < fuel" using Suc.prems(3) Some by simp
      then show ?thesis using Suc.IH [OF Suc.prems(1) cachedBundle_Inr(1) [OF c Suc.prems(2)]] p by auto
    qed
    then show ?thesis using Some by (auto intro!: bindR_cong)
  qed simp
qed simp

lemma search_bundles_None [simp]: "0 < fuel \<Longrightarrow> search_bundles fuel w get state key g None bundles = Inr (None, bundles)"
  by (cases fuel) auto

section \<open>A small volume\<close>

text \<open>One generation of one segment, in a manifest that is an object of its own.\<close>

definition sample_ref :: ObjectRef where
  "sample_ref = \<lparr>ref_Key = ''volumes/v/segments/e1-g1-'' @ replicate 64 (CHR ''0'') @ ''.seg.gz'', SourceManifest = [], SourceBundle = [],
     SourceIndex = 0, InlineData = [], ref_SHA256 = replicate 64 (CHR ''0''), ref_Bytes = 10, ref_Blocks = 2,
     ref_Extents = [Extent 3 2], ref_ZeroExtents = [Extent 4 1]\<rparr>"

definition sample_manifest :: Manifest where
  "sample_manifest = \<lparr>m_Format = Format, VolumeID = ''id'', m_Generation = 1, m_Epoch = 1, Kind = ''delta'', Parent = [],
     Segments = [sample_ref], CreatedAt = 7\<rparr>"

definition sample_wire :: wire where
  "sample_wire = \<lparr>sha256 = (\<lambda>x. replicate 32 (of_nat (length x))), gzip = (\<lambda>x. 31 # x),
     gunzip = (\<lambda>x. case x of [] \<Rightarrow> Inl EOF | b # y \<Rightarrow> Inr (y, True)),
     marshalState = (\<lambda>_. [1]), unmarshalState = (\<lambda>_. Inl EOF),
     marshalManifest = (\<lambda>_. [5]), unmarshalManifest = (\<lambda>x. if x = [5] then Inr sample_manifest else Inl EOF),
     marshalBundle = (\<lambda>_. [6]), unmarshalBundle = (\<lambda>_. Inl EOF), marshalGC = (\<lambda>_. [7]), unmarshalGC = (\<lambda>_. Inl EOF)\<rparr>"

definition sample_state :: State where
  "sample_state = \<lparr>s_Format = Format, s_ID = ''id'', s_Name = ''v'', s_Size = 40960, s_BlockSize = 4096, Filesystem = ''ext4'',
     s_Generation = 1, s_Manifest = manifestKey sample_wire ''v'' [5], InlineManifests = fmempty, ManifestBundle = None, Checkpoint = 0,
     s_Epoch = 1, Deleting = False, s_Lease = None\<rparr>"

definition sample_get :: getter where
  "sample_get key = (if key = manifestKey sample_wire ''v'' [5] then Inr \<lparr>obj_Data = [5], obj_ETag = ''e''\<rparr> else Inl ErrNotFound)"

lemma sample_valid: "validateManifest sample_wire sample_state sample_manifest 1 = Inr ()"
  by code_simp

lemma sample_decodes: "decodeManifest sample_wire sample_state (manifestKey sample_wire ''v'' [5]) [5] 1 = Inr sample_manifest"
  by code_simp

section \<open>Properties\<close>

text \<open>
  C35. A manifest that passes validation has only well-formed segment references: the extents of
  each are sorted, non-empty and disjoint, lie inside the volume and contain its zero extents,
  no two references share a block, every reference is stored in exactly one valid place, and the
  generation is the one asked for.
\<close>

theorem validateManifest_sound:
  assumes "validateManifest w state m g = Inr ()"
  shows "wf_refs (word_of_int (s_Size state div s_BlockSize state)) (Segments m) \<and> m_Generation m = g \<and> g \<noteq> 0 \<and>
    (\<forall>r\<in>set (Segments m). is_ok (checkStorage w state r))"
  using validateManifest_refs [OF assms] by blast

theorem validateManifest_sound_witness:
  "wf_refs 10 [sample_ref] \<and> is_ok (checkStorage sample_wire sample_state sample_ref)"
  using validateManifest_sound [OF sample_valid] by (simp add: sample_manifest_def sample_state_def)



end
