(* ===== verification/Head.thy ===== *)
theory Head
  imports Manifest
begin

text \<open>
  The head of a volume (\<open>internal/replica/head.go\<close>): the interface \<open>volumeHead\<close>, its
  implementation by conditional writes, and the contract the leases rely on. Other clients may
  act between any two calls of an operation; \<open>shared_store\<close> is a store seen by one of its clients.
\<close>

section \<open>A store shared with other clients\<close>

definition later :: "('s \<Rightarrow> (string \<times> Object) set) \<Rightarrow> ('s \<Rightarrow> bool) \<Rightarrow> 's \<Rightarrow> 's \<Rightarrow> bool" where
  "later hist sinv s s0 \<longleftrightarrow> sinv s0 \<and> hist s \<subseteq> hist s0"

text \<open>The laws of \<open>object_store\<close>, each for the state \<open>s0\<close> in which the call takes effect.\<close>

locale shared_store =
  fixes ops :: "'s store_ops" and cur :: "'s \<Rightarrow> string \<rightharpoonup> Object" and hist :: "'s \<Rightarrow> (string \<times> Object) set"
    and sinv :: "'s \<Rightarrow> bool"
  assumes cur_hist: "sinv s \<Longrightarrow> cur s key = Some obj \<Longrightarrow> (key, obj) \<in> hist s"
    and etag_data: "sinv s \<Longrightarrow> (key, a) \<in> hist s \<Longrightarrow> (key, b) \<in> hist s \<Longrightarrow> obj_ETag a = obj_ETag b \<Longrightarrow> obj_Data a = obj_Data b"
    and etag_nonempty: "sinv s \<Longrightarrow> (key, a) \<in> hist s \<Longrightarrow> obj_ETag a \<noteq> []"
    and get: "sinv s \<Longrightarrow> st_Get ops key s = (s', got) \<Longrightarrow> \<exists>s0. later hist sinv s s0 \<and> sinv s' \<and> untouched cur hist s0 s' \<and>
       (case got of Inr obj \<Rightarrow> cur s0 key = Some obj | Inl e \<Rightarrow> errors_Is e ErrNotFound \<longrightarrow> cur s0 key = None)"
    and put_if_absent: "sinv s \<Longrightarrow> st_PutIfAbsent ops key data s = (s', r) \<Longrightarrow> \<exists>s0. later hist sinv s s0 \<and> sinv s' \<and>
       (case r of Inr etag \<Rightarrow> cur s0 key = None \<and> stored cur hist key data etag s0 s'
        | Inl e \<Rightarrow> untouched cur hist s0 s' \<or> (cur s0 key = None \<and> (\<exists>etag. stored cur hist key data etag s0 s')))"
    and put_if_match: "sinv s \<Longrightarrow> st_PutIfMatch ops key data etag s = (s', r) \<Longrightarrow> \<exists>s0. later hist sinv s s0 \<and> sinv s' \<and>
       (case r of Inr new \<Rightarrow> (\<exists>obj. cur s0 key = Some obj \<and> obj_ETag obj = etag) \<and> stored cur hist key data new s0 s'
        | Inl e \<Rightarrow> untouched cur hist s0 s' \<or>
            ((\<exists>obj. cur s0 key = Some obj \<and> obj_ETag obj = etag) \<and> (\<exists>new. stored cur hist key data new s0 s')))"
    and list_keys: "sinv s \<Longrightarrow> st_List ops prefix s = (s', listed) \<Longrightarrow> \<exists>s0. later hist sinv s s0 \<and> sinv s' \<and> untouched cur hist s0 s' \<and>
       (case listed of Inr keys \<Rightarrow> set keys = {k \<in> dom (cur s0). strings_HasPrefix k prefix} | Inl e \<Rightarrow> True)"

text \<open>A store nobody else uses is a special case.\<close>

sublocale object_store \<subseteq> shared: shared_store ops cur hist sinv
proof
  fix s assume s: "sinv s"
  then have self: "later hist sinv s s" by (simp add: later_def)
  show "(key, obj) \<in> hist s" if "cur s key = Some obj" for key obj using cur_hist [OF s that] .
  show "obj_Data a = obj_Data b" if "(key, a) \<in> hist s" "(key, b) \<in> hist s" "obj_ETag a = obj_ETag b" for key a b
    using etag_data [OF s that] .
  show "obj_ETag a \<noteq> []" if "(key, a) \<in> hist s" for key a using etag_nonempty [OF s that] .
  show "\<exists>s0. later hist sinv s s0 \<and> sinv s' \<and> untouched cur hist s0 s' \<and>
       (case got of Inr obj \<Rightarrow> cur s0 key = Some obj | Inl e \<Rightarrow> errors_Is e ErrNotFound \<longrightarrow> cur s0 key = None)"
    if "st_Get ops key s = (s', got)" for key s' got using get [OF s that] self by blast
  show "\<exists>s0. later hist sinv s s0 \<and> sinv s' \<and>
       (case r of Inr etag \<Rightarrow> cur s0 key = None \<and> stored cur hist key data etag s0 s'
        | Inl e \<Rightarrow> untouched cur hist s0 s' \<or> (cur s0 key = None \<and> (\<exists>etag. stored cur hist key data etag s0 s')))"
    if "st_PutIfAbsent ops key data s = (s', r)" for key data s' r using put_if_absent [OF s that] self by blast
  show "\<exists>s0. later hist sinv s s0 \<and> sinv s' \<and>
       (case r of Inr new \<Rightarrow> (\<exists>obj. cur s0 key = Some obj \<and> obj_ETag obj = etag) \<and> stored cur hist key data new s0 s'
        | Inl e \<Rightarrow> untouched cur hist s0 s' \<or>
            ((\<exists>obj. cur s0 key = Some obj \<and> obj_ETag obj = etag) \<and> (\<exists>new. stored cur hist key data new s0 s')))"
    if "st_PutIfMatch ops key data etag s = (s', r)" for key data etag s' r using put_if_match [OF s that] self by blast
  show "\<exists>s0. later hist sinv s s0 \<and> sinv s' \<and> untouched cur hist s0 s' \<and>
       (case listed of Inr keys \<Rightarrow> set keys = {k \<in> dom (cur s0). strings_HasPrefix k prefix} | Inl e \<Rightarrow> True)"
    if "st_List ops prefix s = (s', listed)" for prefix s' listed
    using list_keys [OF s that] self by (intro exI [of _ s]) (auto split: sum.splits)
qed

section \<open>Head modes\<close>

datatype HeadMode = ConditionalHead | AppendHead

text \<open>\<open>strings.TrimSpace\<close>: the UTF-8 encodings of the characters Go counts as white space are
  taken off both ends. \<open>strings.ToLower\<close> on ASCII text.\<close>

definition space_encodings :: "string list" where
  "space_encodings = map (map char_of)
     ([[9], [10], [11], [12], [13], [32], [194, 133], [194, 160], [225, 154, 128]] @ map (\<lambda>n. [226, 128, n]) [128..<139] @
      [[226, 128, 168], [226, 128, 169], [226, 128, 175], [226, 129, 159], [227, 128, 128 :: nat]])"

function trim_front :: "string list \<Rightarrow> string \<Rightarrow> string" where
  "trim_front spaces s =
     (case find (\<lambda>e. e \<noteq> [] \<and> take (length e) s = e) spaces of
        None \<Rightarrow> s
      | Some e \<Rightarrow> trim_front spaces (drop (length e) s))"
  by pat_completeness auto
termination
proof (relation "measure (\<lambda>(spaces, s). length s)")
  fix spaces s and e :: string
  assume "find (\<lambda>e. e \<noteq> [] \<and> take (length e) s = e) spaces = Some e"
  then have "e \<noteq> []" "take (length e) s = e" by (auto simp: find_Some_iff)
  then show "((spaces, drop (length e) s), spaces, s) \<in> measure (\<lambda>(spaces, s). length s)" by (cases s) auto
qed simp

declare trim_front.simps [simp del]

definition strings_TrimSpace :: "string \<Rightarrow> string" where
  "strings_TrimSpace s = rev (trim_front (map rev space_encodings) (rev (trim_front space_encodings s)))"

definition char_ToLower :: "char \<Rightarrow> char" where
  "char_ToLower ch = (let n = of_char ch :: nat in if 65 \<le> n \<and> n \<le> 90 then char_of (n + 32) else ch)"

definition strings_ToLower :: "string \<Rightarrow> string" where
  "strings_ToLower s = map char_ToLower s"

definition ParseHeadMode :: "string \<Rightarrow> HeadMode result" where
  "ParseHeadMode value =
     (let v = strings_ToLower (strings_TrimSpace value) in
      if v = [] \<or> v = ''conditional'' then Inr ConditionalHead
      else if v = ''append'' then Inr AppendHead
      else Inl (Errorf ''unknown head mode''))"

definition HeadPrefix :: "string \<Rightarrow> string" where
  "HeadPrefix name = VolumePrefix name @ ''heads/''"

definition foreignHeadError :: "string \<Rightarrow> HeadMode \<Rightarrow> error" where
  "foreignHeadError name mode = Errorf (''volume is published with the other head: '' @ name)"

record 's volumeHead =
  hd_read :: "string \<Rightarrow> 's \<Rightarrow> 's \<times> (bytes \<times> string) result"
  hd_commit :: "string \<Rightarrow> bytes \<Rightarrow> string \<Rightarrow> State \<Rightarrow> 's \<Rightarrow> 's \<times> string result"
  hd_owns :: "string \<Rightarrow> string \<Rightarrow> bool"
  hd_remove :: "string \<Rightarrow> 's \<Rightarrow> 's \<times> unit result"
  hd_verifyBackend :: "string \<Rightarrow> 's \<Rightarrow> 's \<times> unit result"

section \<open>The conditional head\<close>

definition conditional_read :: "'s store_ops \<Rightarrow> string \<Rightarrow> 's \<Rightarrow> 's \<times> (bytes \<times> string) result" where
  "conditional_read ops name s =
     (case st_Get ops (StateKey name) s of
        (s', Inl e) \<Rightarrow> (s', Inl e)
      | (s', Inr obj) \<Rightarrow> (s', Inr (obj_Data obj, obj_ETag obj)))"

definition conditional_commit :: "'s store_ops \<Rightarrow> string \<Rightarrow> bytes \<Rightarrow> string \<Rightarrow> State \<Rightarrow> 's \<Rightarrow> 's \<times> string result" where
  "conditional_commit ops name body prev nxt s =
     (if prev = [] then
        (case st_List ops (HeadPrefix name) s of
           (s1, Inr (k # ks)) \<Rightarrow> (s1, Inl (foreignHeadError name AppendHead))
         | (s1, _) \<Rightarrow> st_PutIfAbsent ops (StateKey name) body s1)
      else st_PutIfMatch ops (StateKey name) body prev s)"

definition conditional_owns :: "string \<Rightarrow> string \<Rightarrow> bool" where
  "conditional_owns name key \<longleftrightarrow> key = StateKey name"

definition conditional_remove :: "'s store_ops \<Rightarrow> string \<Rightarrow> 's \<Rightarrow> 's \<times> unit result" where
  "conditional_remove ops name s = st_Delete ops (StateKey name) s"

definition conditional_verifyBackend :: "'s store_ops \<Rightarrow> string \<Rightarrow> 's \<Rightarrow> 's \<times> unit result" where
  "conditional_verifyBackend ops uuid s = VerifyConditionalWrites ops uuid s"

definition conditionalHead :: "'s store_ops \<Rightarrow> 's volumeHead" where
  "conditionalHead ops =
     \<lparr>hd_read = conditional_read ops, hd_commit = conditional_commit ops, hd_owns = conditional_owns,
      hd_remove = conditional_remove ops, hd_verifyBackend = conditional_verifyBackend ops\<rparr>"

section \<open>The contract of a head\<close>

text \<open>
  A head is one versioned cell per volume: \<open>hcur\<close> its current body and cursor, \<open>hhist\<close> every
  version there was. A commit replaces exactly the version with the given cursor (no version
  when the cursor is empty), or does nothing; a commit that reports an error may have done either.
\<close>

definition expects :: "('s \<Rightarrow> string \<rightharpoonup> bytes \<times> string) \<Rightarrow> string \<Rightarrow> string \<Rightarrow> 's \<Rightarrow> bool" where
  "expects hcur name prev s \<longleftrightarrow> (if prev = [] then hcur s name = None else \<exists>body. hcur s name = Some (body, prev))"

definition installed ::
  "('s \<Rightarrow> string \<rightharpoonup> bytes \<times> string) \<Rightarrow> ('s \<Rightarrow> (string \<times> bytes \<times> string) set) \<Rightarrow> string \<Rightarrow> bytes \<Rightarrow> string \<Rightarrow> 's \<Rightarrow> 's \<Rightarrow> bool" where
  "installed hcur hhist name body cursor s s' \<longleftrightarrow>
     hcur s' name = Some (body, cursor) \<and> (\<forall>n. n \<noteq> name \<longrightarrow> hcur s' n = hcur s n) \<and> hhist s' = insert (name, body, cursor) (hhist s)"

definition same_heads ::
  "('s \<Rightarrow> string \<rightharpoonup> bytes \<times> string) \<Rightarrow> ('s \<Rightarrow> (string \<times> bytes \<times> string) set) \<Rightarrow> 's \<Rightarrow> 's \<Rightarrow> bool" where
  "same_heads hcur hhist s s' \<longleftrightarrow> hcur s' = hcur s \<and> hhist s' = hhist s"

definition hlater :: "('s \<Rightarrow> (string \<times> bytes \<times> string) set) \<Rightarrow> ('s \<Rightarrow> bool) \<Rightarrow> 's \<Rightarrow> 's \<Rightarrow> bool" where
  "hlater hhist hinv s s0 \<longleftrightarrow> hinv s0 \<and> hhist s \<subseteq> hhist s0"

locale volume_head =
  fixes h :: "'s volumeHead" and hcur :: "'s \<Rightarrow> string \<rightharpoonup> bytes \<times> string" and hhist :: "'s \<Rightarrow> (string \<times> bytes \<times> string) set"
    and hinv :: "'s \<Rightarrow> bool"
  assumes hcur_hist: "hinv s \<Longrightarrow> hcur s name = Some (b, c) \<Longrightarrow> (name, b, c) \<in> hhist s"
    and cursor_body: "hinv s \<Longrightarrow> (name, a, c) \<in> hhist s \<Longrightarrow> (name, b, c) \<in> hhist s \<Longrightarrow> a = b"
    and cursor_nonempty: "hinv s \<Longrightarrow> (name, a, c) \<in> hhist s \<Longrightarrow> c \<noteq> []"
    and read: "hinv s \<Longrightarrow> hd_read h name s = (s', got) \<Longrightarrow> \<exists>s0. hlater hhist hinv s s0 \<and> hinv s' \<and> same_heads hcur hhist s0 s' \<and>
       (case got of Inr bc \<Rightarrow> hcur s0 name = Some bc | Inl e \<Rightarrow> errors_Is e ErrNotFound \<longrightarrow> hcur s0 name = None)"
    and commit: "hinv s \<Longrightarrow> hd_commit h name body prev nxt s = (s', r) \<Longrightarrow> \<exists>s0. hlater hhist hinv s s0 \<and> hinv s' \<and>
       (case r of Inr c \<Rightarrow> expects hcur name prev s0 \<and> installed hcur hhist name body c s0 s'
        | Inl e \<Rightarrow> same_heads hcur hhist s0 s' \<or> (expects hcur name prev s0 \<and> (\<exists>c. installed hcur hhist name body c s0 s')))"
begin

lemma hlater_refl: "hinv s \<Longrightarrow> hlater hhist hinv s s"
  by (simp add: hlater_def)

lemma hlater_trans: "hlater hhist hinv a b \<Longrightarrow> hlater hhist hinv b c \<Longrightarrow> hlater hhist hinv a c"
  by (auto simp: hlater_def)

lemma read_later: "hinv s \<Longrightarrow> hd_read h name s = (s', r) \<Longrightarrow> hlater hhist hinv s s'"
  using read [of s name s' r] by (auto simp: hlater_def same_heads_def)

lemma commit_later: "hinv s \<Longrightarrow> hd_commit h name body prev nxt s = (s', r) \<Longrightarrow> hlater hhist hinv s s'"
  using commit [of s name body prev nxt s' r] by (cases r) (auto simp: hlater_def same_heads_def installed_def)

lemma read_hist: "hinv s \<Longrightarrow> hd_read h name s = (s', Inr (b, c)) \<Longrightarrow> (name, b, c) \<in> hhist s'"
  using read [of s name s' "Inr (b, c)"] hcur_hist by (fastforce simp: hlater_def same_heads_def)

lemma commit_hist: "hinv s \<Longrightarrow> hd_commit h name body prev nxt s = (s', Inr c) \<Longrightarrow> (name, body, c) \<in> hhist s'"
  using commit [of s name body prev nxt s' "Inr c"] by (auto simp: installed_def)

text \<open>A commit that takes effect replaces the body its cursor stands for.\<close>

lemma commit_replaces:
  assumes "hinv s" "hd_commit h name body prev nxt s = (s', r)" "(name, old, prev) \<in> hhist s"
  shows "\<exists>s0. hlater hhist hinv s s0 \<and> hinv s' \<and>
    (same_heads hcur hhist s0 s' \<and> r \<in> range Inl \<or>
     hcur s0 name = Some (old, prev) \<and> (\<exists>c. installed hcur hhist name body c s0 s' \<and> (r = Inr c \<or> r \<in> range Inl)))"
proof -
  obtain s0 where s0: "hlater hhist hinv s s0" "hinv s'" and eff: "case r of Inr c \<Rightarrow> expects hcur name prev s0 \<and> installed hcur hhist name body c s0 s'
        | Inl e \<Rightarrow> same_heads hcur hhist s0 s' \<or> (expects hcur name prev s0 \<and> (\<exists>c. installed hcur hhist name body c s0 s'))"
    using commit [OF assms(1,2)] by blast
  have "hcur s0 name = Some (old, prev)" if e: "expects hcur name prev s0"
  proof -
    have "prev \<noteq> []" using cursor_nonempty [OF assms(1,3)] .
    then obtain b where b: "hcur s0 name = Some (b, prev)" using e by (auto simp: expects_def)
    have "(name, old, prev) \<in> hhist s0" "(name, b, prev) \<in> hhist s0"
      using s0(1) assms(3) hcur_hist [OF _ b] by (auto simp: hlater_def)
    then show ?thesis using cursor_body [of s0 name old prev b] s0(1) b by (simp add: hlater_def)
  qed
  then show ?thesis using s0 eff by (cases r) auto
qed

end

definition store_hcur :: "('s \<Rightarrow> string \<rightharpoonup> Object) \<Rightarrow> 's \<Rightarrow> string \<rightharpoonup> bytes \<times> string" where
  "store_hcur cur s name = map_option (\<lambda>o'. (obj_Data o', obj_ETag o')) (cur s (StateKey name))"

definition store_hhist :: "('s \<Rightarrow> (string \<times> Object) set) \<Rightarrow> 's \<Rightarrow> (string \<times> bytes \<times> string) set" where
  "store_hhist hist s = {(name, b, c). (StateKey name, \<lparr>obj_Data = b, obj_ETag = c\<rparr>) \<in> hist s}"

lemma StateKey_inj: "StateKey a = StateKey b \<longleftrightarrow> a = b"
  by (simp add: StateKey_def)

lemma store_hcur_Some: "store_hcur cur s name = Some (b, c) \<longleftrightarrow> cur s (StateKey name) = Some \<lparr>obj_Data = b, obj_ETag = c\<rparr>"
  by (auto simp: store_hcur_def)

lemma stored_installed:
  assumes "stored cur hist (StateKey name) data etag s s'"
  shows "installed (store_hcur cur) (store_hhist hist) name data etag s s'"
  using assms by (auto simp: stored_def installed_def store_hcur_def store_hhist_def StateKey_inj)

lemma untouched_heads: "untouched cur hist s s' \<Longrightarrow> same_heads (store_hcur cur) (store_hhist hist) s s'"
  by (simp add: untouched_def same_heads_def store_hcur_def store_hhist_def fun_eq_iff)

lemma later_heads: "later hist sinv s s' \<Longrightarrow> hlater (store_hhist hist) sinv s s'"
  by (auto simp: later_def hlater_def store_hhist_def)

lemma later_trans: "later hist sinv a b \<Longrightarrow> later hist sinv b c \<Longrightarrow> later hist sinv a c"
  by (auto simp: later_def)

lemma expects_None: "store_hcur cur s name = None \<longleftrightarrow> cur s (StateKey name) = None"
  by (simp add: store_hcur_def)

text \<open>Conditional writes make a head out of every store that honours them.\<close>

sublocale shared_store \<subseteq> cond: volume_head "conditionalHead ops" "store_hcur cur" "store_hhist hist" sinv
proof
  fix s name b c assume "sinv s" "store_hcur cur s name = Some (b, c)"
  then show "(name, b, c) \<in> store_hhist hist s" using cur_hist by (simp add: store_hcur_Some store_hhist_def)
next
  fix s name a c b assume "sinv s" "(name, a, c) \<in> store_hhist hist s" "(name, b, c) \<in> store_hhist hist s"
  then show "a = b" using etag_data [of s "StateKey name"] by (fastforce simp: store_hhist_def)
next
  fix s name a c assume "sinv s" "(name, a, c) \<in> store_hhist hist s"
  then show "c \<noteq> []" using etag_nonempty [of s "StateKey name"] by (fastforce simp: store_hhist_def)
next
  fix s name s' and got :: "(bytes \<times> string) result"
  assume s: "sinv s" and r: "hd_read (conditionalHead ops) name s = (s', got)"
  obtain g where g: "st_Get ops (StateKey name) s = (s', g)"
      "got = (case g of Inl e \<Rightarrow> Inl e | Inr obj \<Rightarrow> Inr (obj_Data obj, obj_ETag obj))"
    using r by (auto simp: conditionalHead_def conditional_read_def split: prod.splits sum.splits)
  obtain s0 where s0: "later hist sinv s s0" "sinv s'" "untouched cur hist s0 s'"
      "case g of Inr obj \<Rightarrow> cur s0 (StateKey name) = Some obj | Inl e \<Rightarrow> errors_Is e ErrNotFound \<longrightarrow> cur s0 (StateKey name) = None"
    using get [OF s g(1)] by blast
  then show "\<exists>s0. hlater (store_hhist hist) sinv s s0 \<and> sinv s' \<and> same_heads (store_hcur cur) (store_hhist hist) s0 s' \<and>
      (case got of Inl e \<Rightarrow> errors_Is e ErrNotFound \<longrightarrow> store_hcur cur s0 name = None | Inr bc \<Rightarrow> store_hcur cur s0 name = Some bc)"
    using later_heads [OF s0(1)] untouched_heads [OF s0(3)] g(2)
    by (intro exI [of _ s0]) (auto simp: store_hcur_def split: sum.splits)
next
  fix s name body prev nxt s' r
  assume s: "sinv s" and c: "hd_commit (conditionalHead ops) name body prev nxt s = (s', r)"
  have absent: "\<exists>s0. hlater (store_hhist hist) sinv s s0 \<and> sinv s' \<and>
      (case r of Inl e \<Rightarrow> same_heads (store_hcur cur) (store_hhist hist) s0 s' \<or>
         expects (store_hcur cur) name [] s0 \<and> (\<exists>c. installed (store_hcur cur) (store_hhist hist) name body c s0 s')
       | Inr c \<Rightarrow> expects (store_hcur cur) name [] s0 \<and> installed (store_hcur cur) (store_hhist hist) name body c s0 s')"
    if "later hist sinv s s1" "st_PutIfAbsent ops (StateKey name) body s1 = (s', r)" for s1
  proof -
    have "sinv s1" using that(1) by (simp add: later_def)
    from put_if_absent [OF this that(2)] obtain s0 where s0: "later hist sinv s1 s0" "sinv s'"
        "case r of Inr etag \<Rightarrow> cur s0 (StateKey name) = None \<and> stored cur hist (StateKey name) body etag s0 s'
         | Inl e \<Rightarrow> untouched cur hist s0 s' \<or> (cur s0 (StateKey name) = None \<and> (\<exists>etag. stored cur hist (StateKey name) body etag s0 s'))"
      by blast
    then show ?thesis
      using later_heads [OF later_trans [OF that(1) s0(1)]]
      by (intro exI [of _ s0]) (auto simp: expects_def expects_None intro: stored_installed untouched_heads split: sum.splits)
  qed
  show "\<exists>s0. hlater (store_hhist hist) sinv s s0 \<and> sinv s' \<and>
      (case r of Inl e \<Rightarrow> same_heads (store_hcur cur) (store_hhist hist) s0 s' \<or>
         expects (store_hcur cur) name prev s0 \<and> (\<exists>c. installed (store_hcur cur) (store_hhist hist) name body c s0 s')
       | Inr c \<Rightarrow> expects (store_hcur cur) name prev s0 \<and> installed (store_hcur cur) (store_hhist hist) name body c s0 s')"
  proof (cases "prev = []")
    case True
    obtain s1 ks where l: "st_List ops (HeadPrefix name) s = (s1, ks)" by fastforce
    obtain s0 where s0: "later hist sinv s s0" "sinv s1" "untouched cur hist s0 s1" using list_keys [OF s l] by blast
    then have l1: "later hist sinv s s1" by (auto simp: later_def untouched_def)
    have "st_PutIfAbsent ops (StateKey name) body s1 = (s', r) \<or> (s' = s1 \<and> r = Inl (foreignHeadError name AppendHead))"
      using c True l by (auto simp: conditionalHead_def conditional_commit_def split: sum.splits list.splits)
    then show ?thesis
    proof
      assume "st_PutIfAbsent ops (StateKey name) body s1 = (s', r)"
      then show ?thesis unfolding True by (rule absent [OF l1])
    next
      assume "s' = s1 \<and> r = Inl (foreignHeadError name AppendHead)"
      then show ?thesis using later_heads [OF l1] s0(2) by (intro exI [of _ s1]) (auto simp: same_heads_def)
    qed
  next
    case False
    then have "st_PutIfMatch ops (StateKey name) body prev s = (s', r)"
      using c by (simp add: conditionalHead_def conditional_commit_def)
    from put_if_match [OF s this] obtain s0 where s0: "later hist sinv s s0" "sinv s'"
        "case r of Inr new \<Rightarrow> (\<exists>obj. cur s0 (StateKey name) = Some obj \<and> obj_ETag obj = prev) \<and> stored cur hist (StateKey name) body new s0 s'
         | Inl e \<Rightarrow> untouched cur hist s0 s' \<or>
             ((\<exists>obj. cur s0 (StateKey name) = Some obj \<and> obj_ETag obj = prev) \<and> (\<exists>new. stored cur hist (StateKey name) body new s0 s'))"
      by blast
    have "expects (store_hcur cur) name prev s0" if "cur s0 (StateKey name) = Some obj" "obj_ETag obj = prev" for obj
      using that False by (auto simp: expects_def store_hcur_def)
    then show ?thesis
      using later_heads [OF s0(1)] s0(2,3)
      by (intro exI [of _ s0]) (auto intro: stored_installed untouched_heads split: sum.splits)
  qed
qed

section \<open>A contended in-memory store\<close>

text \<open>Before each call of this client, other clients write what the script says.\<close>

type_synonym contended_memory = "logged_memory \<times> (string \<times> bytes) list list"

definition foreign :: "(string \<times> bytes) list \<Rightarrow> logged_memory \<Rightarrow> logged_memory" where
  "foreign writes s = fold (\<lambda>(key, data) s. fst (st_Put faulty_ops key data s)) writes s"

definition contended :: "(logged_memory \<Rightarrow> logged_memory \<times> 'a result) \<Rightarrow> contended_memory \<Rightarrow> contended_memory \<times> 'a result" where
  "contended f c =
     (case c of (s, batches) \<Rightarrow>
        (case f (foreign (if batches = [] then [] else hd batches) s) of (s', r) \<Rightarrow> ((s', tl batches), r)))"

definition contended_ops :: "contended_memory store_ops" where
  "contended_ops = \<lparr>st_Get = (\<lambda>k. contended (st_Get faulty_ops k)), st_Put = (\<lambda>k d. contended (st_Put faulty_ops k d)),
     st_PutIfAbsent = (\<lambda>k d. contended (st_PutIfAbsent faulty_ops k d)),
     st_PutIfMatch = (\<lambda>k d e. contended (st_PutIfMatch faulty_ops k d e)), st_Delete = (\<lambda>k. contended (st_Delete faulty_ops k)),
     st_List = (\<lambda>p. contended (st_List faulty_ops p)), st_DeletePrefix = (\<lambda>p. contended (st_DeletePrefix faulty_ops p))\<rparr>"

definition contended_cur :: "contended_memory \<Rightarrow> string \<rightharpoonup> Object" where
  "contended_cur c = logged_cur (fst c)"

definition contended_hist :: "contended_memory \<Rightarrow> (string \<times> Object) set" where
  "contended_hist c = logged_hist (fst c)"

definition contended_inv :: "contended_memory \<Rightarrow> bool" where
  "contended_inv c = logged_inv (fst c)"

lemma foreign_later: "logged_inv s \<Longrightarrow> logged_inv (foreign writes s) \<and> logged_hist s \<subseteq> logged_hist (foreign writes s)"
proof (induction writes arbitrary: s)
  case (Cons kd writes)
  obtain k d where kd: "kd = (k, d)" by fastforce
  obtain s1 r where p: "st_Put faulty_ops k d s = (s1, r)" by fastforce
  have "logged_inv s1" "logged_hist s \<subseteq> logged_hist s1"
    using memory.put [OF Cons.prems p] by (cases r; auto simp: stored_def untouched_def)+
  then show ?case using Cons.IH [of s1] p by (auto simp: foreign_def kd)
qed (simp add: foreign_def)

lemma contended_step:
  assumes "contended_inv c" "contended f c = (c', r)"
  obtains s0 where "later contended_hist contended_inv c (s0, tl (snd c))" "f s0 = (fst c', r)" "logged_inv s0" "c' = (fst c', tl (snd c))"
proof -
  obtain s batches where c: "c = (s, batches)" by fastforce
  define s0 where "s0 = foreign (if batches = [] then [] else hd batches) s"
  have "logged_inv s0" "logged_hist s \<subseteq> logged_hist s0"
    using foreign_later assms(1) by (simp_all add: s0_def contended_inv_def c)
  moreover have "f s0 = (fst c', r)" "c' = (fst c', tl (snd c))"
    using assms(2) by (auto simp: contended_def c s0_def split: prod.splits)
  ultimately show ?thesis
    using that [of s0] by (simp add: later_def contended_hist_def contended_inv_def c)
qed

lemma contended_views:
  "contended_cur (s0, x) = logged_cur s0" "contended_inv c = logged_inv (fst c)"
  "untouched contended_cur contended_hist (s0, x) c \<longleftrightarrow> untouched logged_cur logged_hist s0 (fst c)"
  "stored contended_cur contended_hist key data etag (s0, x) c \<longleftrightarrow> stored logged_cur logged_hist key data etag s0 (fst c)"
  by (simp_all add: contended_cur_def contended_inv_def contended_hist_def untouched_def stored_def)

interpretation contended: shared_store contended_ops contended_cur contended_hist contended_inv
proof
  fix c key obj assume "contended_inv c" "contended_cur c key = Some obj"
  then show "(key, obj) \<in> contended_hist c" using memory.cur_hist by (simp add: contended_inv_def contended_cur_def contended_hist_def)
next
  fix c key a b assume "contended_inv c" "(key, a) \<in> contended_hist c" "(key, b) \<in> contended_hist c" "obj_ETag a = obj_ETag b"
  then show "obj_Data a = obj_Data b"
    unfolding contended_inv_def contended_hist_def by (rule memory.etag_data)
next
  fix c key a assume "contended_inv c" "(key, a) \<in> contended_hist c"
  then show "obj_ETag a \<noteq> []" unfolding contended_inv_def contended_hist_def by (rule memory.etag_nonempty)
next
  fix c key c' and got :: "Object result" assume c: "contended_inv c" "st_Get contended_ops key c = (c', got)"
  show "\<exists>s0. later contended_hist contended_inv c s0 \<and> contended_inv c' \<and> untouched contended_cur contended_hist s0 c' \<and>
      (case got of Inl e \<Rightarrow> errors_Is e ErrNotFound \<longrightarrow> contended_cur s0 key = None | Inr obj \<Rightarrow> contended_cur s0 key = Some obj)"
  proof -
    have f: "contended (st_Get faulty_ops key) c = (c', got)" using c(2) by (simp add: contended_ops_def)
    obtain s0 where s0: "later contended_hist contended_inv c (s0, tl (snd c))" "st_Get faulty_ops key s0 = (fst c', got)" "logged_inv s0"
      using contended_step [OF c(1) f] by blast
    show ?thesis
      using s0(1) memory.get [OF s0(3,2)] by (intro exI [of _ "(s0, tl (snd c))"]) (auto simp: contended_views split: sum.splits)
  qed
next
  fix c key data c' r assume c: "contended_inv c" "st_PutIfAbsent contended_ops key data c = (c', r)"
  show "\<exists>s0. later contended_hist contended_inv c s0 \<and> contended_inv c' \<and>
      (case r of Inl e \<Rightarrow> untouched contended_cur contended_hist s0 c' \<or>
          contended_cur s0 key = None \<and> (\<exists>etag. stored contended_cur contended_hist key data etag s0 c')
       | Inr etag \<Rightarrow> contended_cur s0 key = None \<and> stored contended_cur contended_hist key data etag s0 c')"
  proof -
    have f: "contended (st_PutIfAbsent faulty_ops key data) c = (c', r)" using c(2) by (simp add: contended_ops_def)
    obtain s0 where s0: "later contended_hist contended_inv c (s0, tl (snd c))" "st_PutIfAbsent faulty_ops key data s0 = (fst c', r)" "logged_inv s0"
      using contended_step [OF c(1) f] by blast
    show ?thesis
      using s0(1) memory.put_if_absent [OF s0(3,2)] by (intro exI [of _ "(s0, tl (snd c))"]) (auto simp: contended_views split: sum.splits)
  qed
next
  fix c key data etag c' r assume c: "contended_inv c" "st_PutIfMatch contended_ops key data etag c = (c', r)"
  show "\<exists>s0. later contended_hist contended_inv c s0 \<and> contended_inv c' \<and>
      (case r of Inl e \<Rightarrow> untouched contended_cur contended_hist s0 c' \<or>
          (\<exists>obj. contended_cur s0 key = Some obj \<and> obj_ETag obj = etag) \<and> (\<exists>new. stored contended_cur contended_hist key data new s0 c')
       | Inr new \<Rightarrow> (\<exists>obj. contended_cur s0 key = Some obj \<and> obj_ETag obj = etag) \<and> stored contended_cur contended_hist key data new s0 c')"
  proof -
    have f: "contended (st_PutIfMatch faulty_ops key data etag) c = (c', r)" using c(2) by (simp add: contended_ops_def)
    obtain s0 where s0: "later contended_hist contended_inv c (s0, tl (snd c))" "st_PutIfMatch faulty_ops key data etag s0 = (fst c', r)" "logged_inv s0"
      using contended_step [OF c(1) f] by blast
    show ?thesis
      using s0(1) memory.put_if_match [OF s0(3,2)] by (intro exI [of _ "(s0, tl (snd c))"]) (auto simp: contended_views split: sum.splits)
  qed
next
  fix c prefix c' and listed :: "string list result" assume c: "contended_inv c" "st_List contended_ops prefix c = (c', listed)"
  show "\<exists>s0. later contended_hist contended_inv c s0 \<and> contended_inv c' \<and> untouched contended_cur contended_hist s0 c' \<and>
      (case listed of Inl e \<Rightarrow> True | Inr keys \<Rightarrow> set keys = {k \<in> dom (contended_cur s0). strings_HasPrefix k prefix})"
  proof -
    have f: "contended (st_List faulty_ops prefix) c = (c', listed)" using c(2) by (simp add: contended_ops_def)
    obtain s0 where s0: "later contended_hist contended_inv c (s0, tl (snd c))" "st_List faulty_ops prefix s0 = (fst c', listed)" "logged_inv s0"
      using contended_step [OF c(1) f] by blast
    show ?thesis
      using s0(1) memory.list_keys [OF s0(3,2)] by (intro exI [of _ "(s0, tl (snd c))"]) (auto simp: contended_views split: sum.splits)
  qed
qed

end
