(* ===== verification/Plan.thy ===== *)
theory Plan
  imports Manifest
begin

text \<open>
  Restore plans (\<open>internal/replica/remote.go\<close>): which segment provides each block of a volume.
  \<open>restorePlan\<close> computes the plan from the manifest chain; a lease keeps its plan current with
  \<open>applyDeltaToPlan\<close> and rewrites it into checkpoints. Copies of slices (\<open>cloneObjectRefs\<close>) are
  the values themselves.
\<close>

section \<open>Computing a plan\<close>

text \<open>Inline data is addressed by the manifest that holds it.\<close>

definition tag_inline :: "manifestEntry \<Rightarrow> nat \<Rightarrow> ObjectRef \<Rightarrow> ObjectRef" where
  "tag_inline entry index original =
     (if InlineData original \<noteq> [] \<and> e_key entry \<noteq> []
      then original\<lparr>SourceManifest := e_key entry, SourceBundle := e_bundle entry, SourceIndex := of_nat index\<rparr>
      else original)"

fun plan_segments ::
  "manifestEntry \<Rightarrow> Extent list \<Rightarrow> nat \<Rightarrow> ObjectRef list \<Rightarrow> ObjectRef list \<Rightarrow> Extent list \<Rightarrow> ObjectRef list \<times> Extent list" where
  "plan_segments entry covered index [] refs manifestExtents = (refs, manifestExtents)"
| "plan_segments entry covered index (segment # segments) refs manifestExtents =
     (let original = tag_inline entry index segment;
          visible = subtractExtents (ref_Extents original) covered;
          nonZero = subtractExtents visible (ref_ZeroExtents original);
          refs' = (if nonZero \<noteq> [] then refs @ [original\<lparr>ref_Extents := nonZero, ref_ZeroExtents := []\<rparr>] else refs)
      in plan_segments entry covered (Suc index) segments refs' (manifestExtents @ ref_Extents original))"

fun plan_loop :: "manifestEntry list \<Rightarrow> Extent list \<Rightarrow> ObjectRef list \<Rightarrow> ObjectRef list" where
  "plan_loop [] covered refs = refs"
| "plan_loop (entry # entries) covered refs =
     (case plan_segments entry covered 0 (Segments (e_manifest entry)) refs [] of
        (refs', manifestExtents) \<Rightarrow> plan_loop entries (unionExtents covered manifestExtents) refs')"

definition restorePlan :: "wire \<Rightarrow> getter \<Rightarrow> State \<Rightarrow> ObjectRef list result" where
  "restorePlan w get state = bindR (restoreManifests w get state) (\<lambda>manifests. Inr (plan_loop manifests [] []))"

section \<open>Keeping a plan current\<close>

fun delta_segments :: "ObjectRef list \<Rightarrow> ObjectRef list \<Rightarrow> Extent list \<Rightarrow> ObjectRef list \<times> Extent list" where
  "delta_segments [] result covered = (result, covered)"
| "delta_segments (original # delta) result covered =
     (let visible = subtractExtents (ref_Extents original) (ref_ZeroExtents original);
          result' = (if visible \<noteq> [] then result @ [original\<lparr>ref_Extents := visible, ref_ZeroExtents := []\<rparr>] else result)
      in delta_segments delta result' (unionExtents covered (ref_Extents original)))"

fun keep_visible :: "Extent list \<Rightarrow> ObjectRef list \<Rightarrow> ObjectRef list \<Rightarrow> ObjectRef list" where
  "keep_visible covered [] result = result"
| "keep_visible covered (original # current) result =
     (let visible = subtractExtents (ref_Extents original) covered in
      keep_visible covered current
        (if visible = [] then result else result @ [original\<lparr>ref_Extents := visible, ref_ZeroExtents := []\<rparr>]))"

definition applyDeltaToPlan :: "ObjectRef list \<Rightarrow> ObjectRef list \<Rightarrow> ObjectRef list" where
  "applyDeltaToPlan current delta =
     (case delta_segments delta [] [] of (result, covered) \<Rightarrow> keep_visible covered current result)"

record preparedManifest =
  p_manifest :: Manifest
  p_body :: bytes
  p_key :: string

fun checkpoint_loop :: "string \<Rightarrow> nat \<Rightarrow> ObjectRef list \<Rightarrow> ObjectRef list" where
  "checkpoint_loop key index [] = []"
| "checkpoint_loop key index (ref # refs) =
     (if InlineData ref = [] then ref
      else ref\<lparr>InlineData := [], SourceManifest := key, SourceIndex := of_nat index\<rparr>) # checkpoint_loop key (Suc index) refs"

definition checkpointRefs :: "preparedManifest \<Rightarrow> ObjectRef list" where
  "checkpointRefs prepared = checkpoint_loop (p_key prepared) 0 (Segments (p_manifest prepared))"

definition checkpointReadyRefs :: "ObjectRef list \<Rightarrow> ObjectRef list" where
  "checkpointReadyRefs refs = map (\<lambda>ref. if SourceManifest ref \<noteq> [] then ref\<lparr>InlineData := []\<rparr> else ref) refs"

record preparedManifestBundle =
  pb_ref :: ManifestBundleRef
  pb_body :: bytes
  pb_keys :: "string fset"
  uploaded :: bool

definition attachBundleToRefs :: "ObjectRef list \<Rightarrow> preparedManifestBundle \<Rightarrow> ObjectRef list" where
  "attachBundleToRefs refs pb =
     map (\<lambda>ref. if SourceManifest ref |\<in>| pb_keys pb then ref\<lparr>SourceBundle := mb_Key (pb_ref pb)\<rparr> else ref) refs"

section \<open>Where a block comes from\<close>

text \<open>
  The origin of a reference: the segment it stands for, whatever part of it is used and
  wherever the data of an inline segment is at hand.
\<close>

definition origin :: "ObjectRef \<Rightarrow> ObjectRef" where
  "origin r = r\<lparr>SourceBundle := [], InlineData := [], ref_Extents := [], ref_ZeroExtents := []\<rparr>"

definition ref_for :: "ObjectRef list \<Rightarrow> u64 \<Rightarrow> ObjectRef option" where
  "ref_for refs b = find (\<lambda>r. b \<in> ref_blocks r) refs"

definition plan_source :: "ObjectRef list \<Rightarrow> u64 \<Rightarrow> ObjectRef option" where
  "plan_source plan b = map_option origin (ref_for plan b)"

text \<open>The segments of one manifest, with inline segments addressed.\<close>

definition entry_refs :: "manifestEntry \<Rightarrow> ObjectRef list" where
  "entry_refs entry = map (\<lambda>(i, r). tag_inline entry i r) (enumerate 0 (Segments (e_manifest entry)))"

text \<open>The last word on a block: the newest manifest that covers it, zeros having no source.\<close>

fun chain_source :: "ObjectRef list list \<Rightarrow> u64 \<Rightarrow> ObjectRef option" where
  "chain_source [] b = None"
| "chain_source (refs # older) b =
     (case ref_for refs b of
        None \<Rightarrow> chain_source older b
      | Some r \<Rightarrow> if b \<in> ref_zeros r then None else Some (origin r))"

definition wf_plan :: "u64 \<Rightarrow> ObjectRef list \<Rightarrow> bool" where
  "wf_plan n plan \<longleftrightarrow> wf_refs n plan \<and> list_all (\<lambda>r. ref_ZeroExtents r = []) plan"

section \<open>Cutting references\<close>

text \<open>\<open>f\<close> narrows each reference to the blocks outside some set; empty results are dropped.\<close>

definition narrowed :: "(ObjectRef \<Rightarrow> ObjectRef) \<Rightarrow> ObjectRef list \<Rightarrow> ObjectRef list" where
  "narrowed f refs = filter (\<lambda>r. ref_Extents r \<noteq> []) (map f refs)"

definition narrow :: "Extent list \<Rightarrow> ObjectRef \<Rightarrow> ObjectRef" where
  "narrow covered r = r\<lparr>ref_Extents := subtractExtents (subtractExtents (ref_Extents r) covered) (ref_ZeroExtents r), ref_ZeroExtents := []\<rparr>"

lemma ref_blocks_Nil: "ref_Extents r = [] \<Longrightarrow> ref_blocks r = {}"
  by (simp add: ref_blocks_def)

lemma ref_for_simps [simp]:
  "ref_for [] b = None"
  "ref_for (r # rs) b = (if b \<in> ref_blocks r then Some r else ref_for rs b)"
  by (simp_all add: ref_for_def)

lemma ref_for_None: "ref_for refs b = None \<longleftrightarrow> (\<forall>r\<in>set refs. b \<notin> ref_blocks r)"
  by (induction refs) auto

lemma ref_for_Some: "ref_for refs b = Some r \<Longrightarrow> r \<in> set refs \<and> b \<in> ref_blocks r"
  by (induction refs) (auto split: if_splits)

lemma ref_for_disjoint:
  "disjoint_refs refs \<Longrightarrow> r \<in> set refs \<Longrightarrow> b \<in> ref_blocks r \<Longrightarrow> ref_for refs b = Some r"
  by (induction refs) auto

lemma plan_source_append:
  "plan_source (xs @ ys) b = (case plan_source xs b of None \<Rightarrow> plan_source ys b | Some s \<Rightarrow> Some s)"
  by (induction xs) (auto simp: plan_source_def)

lemma plan_source_None: "plan_source plan b = None \<longleftrightarrow> (\<forall>r\<in>set plan. b \<notin> ref_blocks r)"
  by (simp add: plan_source_def ref_for_None)

lemma plan_source_narrowed:
  assumes "disjoint_refs refs" "\<forall>r\<in>set refs. ref_blocks (f r) = ref_blocks r - D r"
  shows "plan_source (narrowed f refs) b =
    (case ref_for refs b of None \<Rightarrow> None | Some r \<Rightarrow> if b \<in> D r then None else Some (origin (f r)))"
  using assms
proof (induction refs)
  case (Cons r refs)
  have later: "plan_source (narrowed f refs) b = None" if "b \<in> ref_blocks r"
    using Cons.prems that by (auto simp: plan_source_None narrowed_def disjoint_iff)
  show ?case
    using Cons later by (auto simp: narrowed_def plan_source_def ref_blocks_def [of "f r"] split: option.splits)
qed (simp add: plan_source_def narrowed_def)

lemma narrow_origin [simp]: "origin (narrow covered r) = origin r"
  by (simp add: narrow_def origin_def)

lemma narrow_blocks:
  assumes "wf_ref n r" "wf_extents covered"
  shows "ref_blocks (narrow covered r) = ref_blocks r - (exts_set covered \<union> ref_zeros r)"
    "wf_extents (ref_Extents (narrow covered r))" "ref_ZeroExtents (narrow covered r) = []"
  using assms subtractExtents_spec by (auto simp: narrow_def ref_blocks_def ref_zeros_def wf_ref_def)

lemma disjoint_refs_narrowed:
  "disjoint_refs refs \<Longrightarrow> \<forall>r\<in>set refs. ref_blocks (f r) \<subseteq> ref_blocks r \<Longrightarrow> disjoint_refs (narrowed f refs)"
  by (induction refs) (auto simp: narrowed_def, blast)

lemma wf_plan_narrowed:
  assumes "wf_refs n refs" "wf_extents covered"
  shows "wf_plan n (narrowed (narrow covered) refs)"
    "\<forall>r\<in>set (narrowed (narrow covered) refs). ref_blocks r \<inter> exts_set covered = {} \<and> ref_blocks r \<subseteq> (\<Union>x\<in>set refs. ref_blocks x)"
proof -
  have "disjoint_refs (narrowed (narrow covered) refs)"
    using assms by (intro disjoint_refs_narrowed) (auto simp: wf_refs_def list_all_iff narrow_blocks(1))
  moreover have "wf_ref n (narrow covered r)" if "r \<in> set refs" "ref_Extents (narrow covered r) \<noteq> []" for r
    using that assms narrow_blocks [of n r covered]
    by (auto simp: wf_refs_def list_all_iff wf_ref_def ref_zeros_def)
  ultimately show "wf_plan n (narrowed (narrow covered) refs)"
    by (auto simp: wf_plan_def wf_refs_def narrowed_def list_all_iff narrow_def)
  show "\<forall>r\<in>set (narrowed (narrow covered) refs). ref_blocks r \<inter> exts_set covered = {} \<and> ref_blocks r \<subseteq> (\<Union>x\<in>set refs. ref_blocks x)"
    using assms narrow_blocks(1) by (fastforce simp: narrowed_def wf_refs_def list_all_iff)
qed

lemma wf_plan_append:
  "wf_plan n xs \<Longrightarrow> wf_plan n ys \<Longrightarrow> \<forall>x\<in>set xs. \<forall>y\<in>set ys. ref_blocks x \<inter> ref_blocks y = {} \<Longrightarrow> wf_plan n (xs @ ys)"
  by (auto simp: wf_plan_def wf_refs_def disjoint_refs_def sorted_wrt_append)

section \<open>The plan of a chain\<close>

lemma tag_inline_extents [simp]:
  "ref_Extents (tag_inline e i r) = ref_Extents r" "ref_ZeroExtents (tag_inline e i r) = ref_ZeroExtents r"
  "ref_blocks (tag_inline e i r) = ref_blocks r" "ref_zeros (tag_inline e i r) = ref_zeros r"
  "wf_ref n (tag_inline e i r) \<longleftrightarrow> wf_ref n r"
  by (simp_all add: tag_inline_def ref_blocks_def ref_zeros_def wf_ref_def)

lemma plan_segments_eq:
  "plan_segments e covered i segs refs mexts =
     (refs @ narrowed (narrow covered) (map (\<lambda>(i, r). tag_inline e i r) (enumerate i segs)), mexts @ concat (map ref_Extents segs))"
  by (induction segs arbitrary: i refs mexts) (simp_all add: narrowed_def narrow_def Let_def)

lemma tagged_set: "(\<Union>r\<in>set (map (\<lambda>(i, r). tag_inline e i r) (enumerate k segs)). ref_blocks r) = (\<Union>r\<in>set segs. ref_blocks r)"
  by (induction segs arbitrary: k) auto

lemma disjoint_tagged:
  "disjoint_refs (map (\<lambda>(i, r). tag_inline e i r) (enumerate k segs)) \<longleftrightarrow> disjoint_refs segs"
proof (induction segs arbitrary: k)
  case (Cons r segs)
  have "(\<forall>x\<in>set (map (\<lambda>(i, r). tag_inline e i r) (enumerate (Suc k) segs)). ref_blocks r \<inter> ref_blocks x = {}) \<longleftrightarrow>
      (\<forall>x\<in>set segs. ref_blocks r \<inter> ref_blocks x = {})"
    using tagged_set [of e "Suc k" segs] by blast
  then show ?case using Cons by simp
qed simp

lemma wf_refs_entry: "wf_refs n (Segments (e_manifest e)) \<Longrightarrow> wf_refs n (entry_refs e)"
proof -
  have "list_all (wf_ref n) (map (\<lambda>(i, r). tag_inline e i r) (enumerate k segs)) \<longleftrightarrow> list_all (wf_ref n) segs" for k segs
    by (induction segs arbitrary: k) auto
  then show "wf_refs n (Segments (e_manifest e)) \<Longrightarrow> wf_refs n (entry_refs e)"
    by (simp add: wf_refs_def entry_refs_def disjoint_tagged)
qed

definition planned :: "u64 \<Rightarrow> ObjectRef list \<Rightarrow> Extent list \<Rightarrow> bool" where
  "planned n refs covered \<longleftrightarrow> wf_plan n refs \<and> wf_extents covered \<and> (\<forall>r\<in>set refs. ref_blocks r \<subseteq> exts_set covered)"

lemma refs_no_wrap: "wf_refs n refs \<Longrightarrow> no_wrap (concat (map ref_Extents refs))"
  by (auto simp: wf_refs_def wf_ref_def wf_extents_def wf_extent_def no_wrap_def list_all_iff intro: less_imp_le)

lemma exts_set_refs: "exts_set (concat (map ref_Extents refs)) = (\<Union>r\<in>set refs. ref_blocks r)"
  by (simp add: exts_set_concat ref_blocks_def)

text \<open>One manifest: the plan gains the blocks that are not covered yet.\<close>

lemma plan_entry:
  assumes "planned n refs covered" "wf_refs n (Segments (e_manifest e))"
  defines "new \<equiv> narrowed (narrow covered) (entry_refs e)"
    and "covered' \<equiv> unionExtents covered (concat (map ref_Extents (Segments (e_manifest e))))"
  shows "planned n (refs @ new) covered'"
    and "exts_set covered' = exts_set covered \<union> (\<Union>r\<in>set (entry_refs e). ref_blocks r)"
    and "b \<notin> exts_set covered \<Longrightarrow> plan_source (refs @ new) b =
      (case ref_for (entry_refs e) b of None \<Rightarrow> None | Some r \<Rightarrow> if b \<in> ref_zeros r then None else Some (origin r))"
    and "b \<in> exts_set covered \<Longrightarrow> plan_source (refs @ new) b = plan_source refs b"
proof -
  note P = assms(1) [unfolded planned_def]
  have W: "wf_refs n (entry_refs e)" by (rule wf_refs_entry [OF assms(2)])
  note N = wf_plan_narrowed [OF W, of covered, folded new_def]
  note U = unionExtents_spec [OF _ refs_no_wrap [OF assms(2)], of covered, folded covered'_def]
  have blocks: "(\<Union>r\<in>set (entry_refs e). ref_blocks r) = (\<Union>r\<in>set (Segments (e_manifest e)). ref_blocks r)"
    by (simp only: entry_refs_def tagged_set)
  show cov: "exts_set covered' = exts_set covered \<union> (\<Union>r\<in>set (entry_refs e). ref_blocks r)"
    using U(2) P by (simp add: exts_set_refs blocks)
  have sep: "\<forall>x\<in>set refs. \<forall>y\<in>set new. ref_blocks x \<inter> ref_blocks y = {}" using N(2) P by blast
  show "planned n (refs @ new) covered'"
    using wf_plan_append [OF _ N(1) sep] P N(2) cov normal_imp_wf [OF U(1)] unfolding planned_def by fastforce
  have src: "plan_source new b = (case ref_for (entry_refs e) b of None \<Rightarrow> None
      | Some r \<Rightarrow> if b \<in> exts_set covered \<union> ref_zeros r then None else Some (origin (narrow covered r)))" for b
    unfolding new_def using W P
    by (intro plan_source_narrowed) (auto simp: wf_refs_def list_all_iff narrow_blocks(1))
  show "plan_source (refs @ new) b =
      (case ref_for (entry_refs e) b of None \<Rightarrow> None | Some r \<Rightarrow> if b \<in> ref_zeros r then None else Some (origin r))"
    if "b \<notin> exts_set covered"
    using that P src [of b] plan_source_None [of refs b] by (auto simp: plan_source_append split: option.splits)
  show "plan_source (refs @ new) b = plan_source refs b" if "b \<in> exts_set covered"
    using that src [of b] by (auto simp: plan_source_append split: option.splits)
qed

lemma plan_loop_correct:
  assumes "planned n refs covered" "list_all (\<lambda>e. wf_refs n (Segments (e_manifest e))) es"
  shows "wf_plan n (plan_loop es covered refs)"
    "plan_source (plan_loop es covered refs) b =
      (if b \<in> exts_set covered then plan_source refs b else chain_source (map entry_refs es) b)"
proof -
  have "wf_plan n (plan_loop es covered refs) \<and> plan_source (plan_loop es covered refs) b =
      (if b \<in> exts_set covered then plan_source refs b else chain_source (map entry_refs es) b)"
    using assms
  proof (induction es arbitrary: covered refs)
    case Nil
    then show ?case using plan_source_None [of refs b] by (auto simp: planned_def)
  next
    case (Cons e es)
    note S = plan_entry [OF Cons.prems(1), of e]
    have e: "wf_refs n (Segments (e_manifest e))" and es: "list_all (\<lambda>e. wf_refs n (Segments (e_manifest e))) es"
      using Cons.prems(2) by auto
    have step: "plan_segments e covered 0 (Segments (e_manifest e)) refs [] =
        (refs @ narrowed (narrow covered) (entry_refs e), concat (map ref_Extents (Segments (e_manifest e))))"
      by (simp add: plan_segments_eq entry_refs_def)
    note IH = Cons.IH [OF S(1) [OF e] es]
    show ?case
      using IH S(2) [OF e] S(3,4) [OF e, of b] ref_for_None [of "entry_refs e" b]
      by (auto simp: step split: option.splits if_splits)
  qed
  then show "wf_plan n (plan_loop es covered refs)" "plan_source (plan_loop es covered refs) b =
      (if b \<in> exts_set covered then plan_source refs b else chain_source (map entry_refs es) b)" by blast+
qed

section \<open>The chain that was read\<close>

text \<open>The manifests from \<open>key\<close> down: consecutive generations linked by their parents, ending at
  a checkpoint or after generation one.\<close>

fun linked :: "string \<Rightarrow> u64 \<Rightarrow> manifestEntry list \<Rightarrow> bool" where
  "linked key g [] \<longleftrightarrow> key = [] \<and> g = 0"
| "linked key g (e # es) \<longleftrightarrow> e_key e = key \<and> key \<noteq> [] \<and> (g \<noteq> 0 \<longrightarrow> m_Generation (e_manifest e) = g) \<and>
     (if Kind (e_manifest e) = ''checkpoint'' then es = [] else linked (Parent (e_manifest e)) (g - 1) es)"

definition volumeBlocks :: "State \<Rightarrow> u64" where
  "volumeBlocks state = word_of_int (s_Size state div s_BlockSize state)"

definition entry_ok :: "State \<Rightarrow> manifestEntry \<Rightarrow> bool" where
  "entry_ok state e \<longleftrightarrow> e_key e \<noteq> [] \<and> wf_refs (volumeBlocks state) (Segments (e_manifest e))"

lemma decodeManifest_Inr:
  assumes "decodeManifest w state key body g = Inr m"
  shows "wf_refs (volumeBlocks state) (Segments m)" "g \<noteq> 0 \<Longrightarrow> m_Generation m = g"
    "key = manifestKey w (s_Name state) body" "unmarshalManifest w body = Inr m"
  using assms validateManifest_refs [of w state m "if g = 0 then m_Generation m else g"]
  by (auto simp: decodeManifest_def result_Inr Let_def volumeBlocks_def split: if_splits)

lemma search_bundles_Inr:
  "search_bundles fuel w get state key g bref bundles = Inr (Some (m, bk), bundles') \<Longrightarrow>
     wf_refs (volumeBlocks state) (Segments m) \<and> m_Generation m = g"
  by (induction fuel arbitrary: bref bundles)
    (auto split: option.splits if_splits dest: decodeManifest_Inr)

lemma readManifest_Inr:
  assumes "readManifestWithSourceCache w get state key g bundles = Inr (m, bk, bundles')"
  shows "wf_refs (volumeBlocks state) (Segments m)" "g \<noteq> 0 \<Longrightarrow> m_Generation m = g"
  using assms decodeManifest_Inr(1,2) search_bundles_Inr
  by (fastforce simp: readManifestWithSourceCache_def result_Inr split: option.splits)+

lemma restore_loop_Inr:
  "restore_loop fuel w get state key g bundles acc = Inr es \<Longrightarrow>
     \<exists>es'. es = acc @ es' \<and> linked key g es' \<and> list_all (entry_ok state) es'"
proof (induction fuel arbitrary: key g bundles acc)
  case (Suc fuel)
  show ?case
  proof (cases "key = []")
    case False
    then obtain m bk bundles' where r: "readManifestWithSourceCache w get state key g bundles = Inr (m, bk, bundles')"
      using Suc.prems by (auto simp: Let_def)
    let ?e = "\<lparr>e_key = key, e_manifest = m, e_bundle = bk\<rparr>"
    have e: "entry_ok state ?e" "g \<noteq> 0 \<Longrightarrow> m_Generation m = g"
      using readManifest_Inr [OF r] False by (auto simp: entry_ok_def)
    show ?thesis
    proof (cases "Kind m = ''checkpoint''")
      case True
      then have "es = acc @ [?e]" using Suc.prems False r by (simp add: Let_def)
      then show ?thesis using e True False by auto
    next
      case nc: False
      then have "restore_loop fuel w get state (Parent m) (g - 1) bundles' (acc @ [?e]) = Inr es"
        using Suc.prems False r by (simp add: Let_def)
      from Suc.IH [OF this] obtain es' where "es = (acc @ [?e]) @ es'" "linked (Parent m) (g - 1) es'" "list_all (entry_ok state) es'"
        by blast
      then have "es = acc @ (?e # es') \<and> linked key g (?e # es') \<and> list_all (entry_ok state) (?e # es')"
        using e nc False by simp
      then show ?thesis by blast
    qed
  qed (use Suc.prems in \<open>auto split: if_splits\<close>)
qed simp

lemma planned_empty [simp]: "planned n [] []"
  by (simp add: planned_def wf_plan_def wf_refs_def)

lemma restorePlan_Inr:
  assumes "restorePlan w get state = Inr plan"
  obtains es where "linked (s_Manifest state) (s_Generation state) es" "list_all (entry_ok state) es"
    "plan = plan_loop es [] []" "wf_plan (volumeBlocks state) plan" "plan_source plan = chain_source (map entry_refs es)"
    "restoreManifests w get state = Inr es"
proof -
  obtain es where es: "restoreManifests w get state = Inr es" and p: "plan = plan_loop es [] []"
    using assms by (auto simp: restorePlan_def)
  have L: "linked (s_Manifest state) (s_Generation state) es" "list_all (entry_ok state) es"
    using restore_loop_Inr [OF es [unfolded restoreManifests_def]] by auto
  then have "list_all (\<lambda>e. wf_refs (volumeBlocks state) (Segments (e_manifest e))) es"
    by (auto simp: list_all_iff entry_ok_def)
  note C = plan_loop_correct [OF planned_empty this]
  show ?thesis using that [OF L p] C es by (auto simp: p)
qed

section \<open>Updating a plan\<close>

lemma subtract_nothing [simp]: "subtractExtents es [] = es"
  by (simp add: subtractExtents_def)

lemma delta_segments_eq:
  assumes "wf_refs n delta" "wf_extents covered"
  shows "\<exists>covered'. delta_segments delta result covered = (result @ narrowed (narrow []) delta, covered') \<and>
    wf_extents covered' \<and> exts_set covered' = exts_set covered \<union> (\<Union>r\<in>set delta. ref_blocks r)"
  using assms
proof (induction delta arbitrary: result covered)
  case (Cons r delta)
  have w: "wf_refs n delta" "wf_ref n r" using Cons.prems by (auto simp: wf_refs_def)
  have "no_wrap (ref_Extents r)" using refs_no_wrap [of n "[r]"] w by (simp add: wf_refs_def)
  note U = unionExtents_spec [OF Cons.prems(2) this]
  show ?case
    using Cons.IH [OF w(1) normal_imp_wf [OF U(1)], of "result @ narrowed (narrow []) [r]"] U(2)
    by (auto simp: narrowed_def narrow_def Let_def ref_blocks_def)
qed (simp add: narrowed_def)

lemma keep_visible_eq:
  "list_all (\<lambda>r. ref_ZeroExtents r = []) current \<Longrightarrow>
     keep_visible covered current result = result @ narrowed (narrow covered) current"
  by (induction current arbitrary: result) (simp_all add: narrowed_def narrow_def Let_def)

lemma applyDeltaToPlan_source:
  assumes "wf_refs n delta" "wf_plan n current"
  shows "wf_plan n (applyDeltaToPlan current delta)"
    and "plan_source (applyDeltaToPlan current delta) b =
      (case ref_for delta b of None \<Rightarrow> plan_source current b | Some r \<Rightarrow> if b \<in> ref_zeros r then None else Some (origin r))"
proof -
  obtain covered where d: "delta_segments delta [] [] = (narrowed (narrow []) delta, covered)" "wf_extents covered"
      "exts_set covered = (\<Union>r\<in>set delta. ref_blocks r)"
    using delta_segments_eq [OF assms(1), of "[]" "[]"] by auto
  have cur: "wf_refs n current" "list_all (\<lambda>r. ref_ZeroExtents r = []) current"
    using assms(2) by (simp_all add: wf_plan_def)
  have eq: "applyDeltaToPlan current delta = narrowed (narrow []) delta @ narrowed (narrow covered) current"
    by (simp add: applyDeltaToPlan_def d(1) keep_visible_eq [OF cur(2)])
  note N = wf_plan_narrowed [OF assms(1), of "[]"] wf_plan_narrowed [OF cur(1) d(2)]
  have "\<forall>x\<in>set (narrowed (narrow []) delta). \<forall>y\<in>set (narrowed (narrow covered) current). ref_blocks x \<inter> ref_blocks y = {}"
    using N(2,4) d(3) by simp blast
  then show "wf_plan n (applyDeltaToPlan current delta)"
    unfolding eq using N(1,3) by (intro wf_plan_append) auto
  have s1: "plan_source (narrowed (narrow []) delta) b = (case ref_for delta b of None \<Rightarrow> None
      | Some r \<Rightarrow> if b \<in> exts_set [] \<union> ref_zeros r then None else Some (origin (narrow [] r)))"
    using assms(1) by (intro plan_source_narrowed) (auto simp: wf_refs_def list_all_iff narrow_blocks(1))
  have s2: "plan_source (narrowed (narrow covered) current) b = (case ref_for current b of None \<Rightarrow> None
      | Some r \<Rightarrow> if b \<in> exts_set covered \<union> ref_zeros r then None else Some (origin (narrow covered r)))"
    using cur(1) d(2) by (intro plan_source_narrowed) (auto simp: wf_refs_def list_all_iff narrow_blocks(1))
  have z: "ref_zeros r = {}" if "ref_for current b = Some r" for r
    using ref_for_Some [OF that] cur(2) by (auto simp: list_all_iff ref_zeros_def)
  show "plan_source (applyDeltaToPlan current delta) b =
      (case ref_for delta b of None \<Rightarrow> plan_source current b | Some r \<Rightarrow> if b \<in> ref_zeros r then None else Some (origin r))"
  proof (cases "ref_for delta b")
    case None
    then have "b \<notin> exts_set covered" using d(3) ref_for_None [of delta b] by blast
    then show ?thesis using None z s1 s2 by (auto simp: eq plan_source_append plan_source_def [of current] split: option.splits)
  next
    case (Some r)
    then have "b \<in> exts_set covered" using d(3) ref_for_Some [OF Some] by blast
    then show ?thesis using Some s1 s2 by (auto simp: eq plan_source_append split: option.splits)
  qed
qed

section \<open>Deltas and checkpoints keep the plan of the chain\<close>

text \<open>Two lists of references that agree block by block on extents and origin.\<close>

definition same_refs :: "ObjectRef list \<Rightarrow> ObjectRef list \<Rightarrow> bool" where
  "same_refs = list_all2 (\<lambda>a b. ref_Extents a = ref_Extents b \<and> ref_ZeroExtents a = ref_ZeroExtents b \<and> origin a = origin b)"

lemma same_refs_for:
  "same_refs xs ys \<Longrightarrow> rel_option (\<lambda>a b. ref_ZeroExtents a = ref_ZeroExtents b \<and> origin a = origin b) (ref_for xs b) (ref_for ys b)"
  unfolding same_refs_def by (induction xs ys rule: list_all2_induct) (auto simp: ref_blocks_def)

lemma same_refs_source:
  assumes "same_refs xs ys"
  shows "plan_source xs = plan_source ys" "chain_source (xs # older) = chain_source (ys # older)"
proof -
  have "plan_source xs b = plan_source ys b \<and> chain_source (xs # older) b = chain_source (ys # older) b" for b
    using same_refs_for [OF assms, of b]
    by (cases "ref_for xs b"; cases "ref_for ys b") (auto simp: plan_source_def ref_zeros_def)
  then show "plan_source xs = plan_source ys" "chain_source (xs # older) = chain_source (ys # older)"
    by (auto simp: fun_eq_iff)
qed

lemma same_refs_wf: "same_refs xs ys \<Longrightarrow> wf_refs n xs \<longleftrightarrow> wf_refs n ys"
proof -
  have "same_refs xs ys \<Longrightarrow> list_all (wf_ref n) xs \<longleftrightarrow> list_all (wf_ref n) ys"
    unfolding same_refs_def by (induction xs ys rule: list_all2_induct) (auto simp: wf_ref_def ref_blocks_def ref_zeros_def)
  moreover have "same_refs xs ys \<Longrightarrow> map ref_blocks xs = map ref_blocks ys"
    unfolding same_refs_def by (induction xs ys rule: list_all2_induct) (auto simp: ref_blocks_def)
  moreover have "disjoint_refs zs \<longleftrightarrow> sorted_wrt (\<lambda>a b. a \<inter> b = {}) (map ref_blocks zs)" for zs
    by (simp add: disjoint_refs_def sorted_wrt_map)
  ultimately show "same_refs xs ys \<Longrightarrow> wf_refs n xs \<longleftrightarrow> wf_refs n ys" by (simp add: wf_refs_def)
qed

lemma same_refs_zeros:
  "same_refs xs ys \<Longrightarrow> list_all (\<lambda>r. ref_ZeroExtents r = []) xs \<longleftrightarrow> list_all (\<lambda>r. ref_ZeroExtents r = []) ys"
  unfolding same_refs_def by (induction xs ys rule: list_all2_induct) auto

lemma checkpoint_loop_same:
  "e_key e = key \<Longrightarrow> key \<noteq> [] \<Longrightarrow>
     same_refs (checkpoint_loop key i segs) (map (\<lambda>(i, r). tag_inline e i r) (enumerate i segs))"
  by (induction segs arbitrary: i) (auto simp: same_refs_def tag_inline_def origin_def)

lemma checkpointRefs_same:
  "p_key p \<noteq> [] \<Longrightarrow> e_key e = p_key p \<Longrightarrow> e_manifest e = p_manifest p \<Longrightarrow> same_refs (checkpointRefs p) (entry_refs e)"
  by (simp add: checkpointRefs_def entry_refs_def checkpoint_loop_same)

lemma delta_replans:
  assumes "wf_refs n (Segments (p_manifest p))" "p_key p \<noteq> []" "wf_plan n plan" "plan_source plan = chain_source older"
    and e: "e_key e = p_key p" "e_manifest e = p_manifest p"
  shows "wf_plan n (applyDeltaToPlan plan (checkpointRefs p))"
    "plan_source (applyDeltaToPlan plan (checkpointRefs p)) = chain_source (entry_refs e # older)"
proof -
  note S = checkpointRefs_same [OF assms(2) e]
  have "wf_refs n (checkpointRefs p)"
    using wf_refs_entry [of n e] assms(1) e same_refs_wf [OF S] by simp
  note D = applyDeltaToPlan_source [OF this assms(3)]
  show "wf_plan n (applyDeltaToPlan plan (checkpointRefs p))" by (rule D(1))
  have "plan_source (applyDeltaToPlan plan (checkpointRefs p)) = chain_source (checkpointRefs p # older)"
    using D(2) assms(4) by (auto simp: fun_eq_iff split: option.splits)
  then show "plan_source (applyDeltaToPlan plan (checkpointRefs p)) = chain_source (entry_refs e # older)"
    using same_refs_source(2) [OF S] by simp
qed

text \<open>A plan is addressed when the data of its inline segments can be found through a manifest.\<close>

definition addressed :: "ObjectRef list \<Rightarrow> bool" where
  "addressed refs \<longleftrightarrow> list_all (\<lambda>r. InlineData r \<noteq> [] \<longrightarrow> SourceManifest r \<noteq> []) refs"

lemma checkpointReady_inline: "addressed refs \<Longrightarrow> list_all (\<lambda>r. InlineData r = []) (checkpointReadyRefs refs)"
  by (auto simp: addressed_def checkpointReadyRefs_def list_all_iff)

lemma same_checkpointReady: "same_refs (checkpointReadyRefs refs) refs"
  by (induction refs) (auto simp: same_refs_def checkpointReadyRefs_def origin_def)

lemma same_attachBundle: "same_refs (attachBundleToRefs refs pb) refs"
  by (induction refs) (auto simp: same_refs_def attachBundleToRefs_def origin_def)

lemma same_refs_trans: "same_refs xs ys \<Longrightarrow> same_refs ys zs \<Longrightarrow> same_refs xs zs"
  unfolding same_refs_def by (rule list_all2_trans) auto

lemma attach_addressed: "addressed refs \<Longrightarrow> addressed (attachBundleToRefs refs pb)"
  by (auto simp: addressed_def attachBundleToRefs_def list_all_iff)

lemma entry_refs_plain:
  assumes "list_all (\<lambda>r. InlineData r = []) (Segments (e_manifest e))"
  shows "entry_refs e = Segments (e_manifest e)"
proof -
  have "list_all (\<lambda>r. InlineData r = []) segs \<Longrightarrow> map (\<lambda>(i, r). tag_inline e i r) (enumerate k segs) = segs" for k segs
    by (induction segs arbitrary: k) (auto simp: tag_inline_def)
  then show ?thesis using assms by (simp add: entry_refs_def)
qed

lemma no_zeros_source:
  assumes "list_all (\<lambda>r. ref_ZeroExtents r = []) refs"
  shows "chain_source [refs] b = plan_source refs b"
proof -
  have "ref_zeros r = {}" if "ref_for refs b = Some r" for r
    using ref_for_Some [OF that] assms by (auto simp: list_all_iff ref_zeros_def)
  then show ?thesis by (auto simp: plan_source_def split: option.splits)
qed

lemma checkpoint_replans:
  assumes "wf_plan n plan" "addressed plan" "same_refs attached plan" "addressed attached"
    and e: "Segments (e_manifest e) = checkpointReadyRefs attached"
  shows "wf_plan n (Segments (e_manifest e))" "chain_source [entry_refs e] = plan_source plan"
proof -
  let ?segs = "checkpointReadyRefs attached"
  have S: "same_refs ?segs plan" using same_refs_trans [OF same_checkpointReady assms(3)] .
  have z: "list_all (\<lambda>r. ref_ZeroExtents r = []) ?segs"
    using same_refs_zeros [OF S] assms(1) by (simp add: wf_plan_def)
  show "wf_plan n (Segments (e_manifest e))" using same_refs_wf [OF S] assms(1) z by (simp add: wf_plan_def e)
  have "entry_refs e = ?segs" using entry_refs_plain [of e] checkpointReady_inline [OF assms(4)] by (simp add: e)
  then show "chain_source [entry_refs e] = plan_source plan"
    using no_zeros_source [OF z] same_refs_source(1) [OF S] by (simp add: fun_eq_iff)
qed

lemma addressed_append [simp]: "addressed (xs @ ys) \<longleftrightarrow> addressed xs \<and> addressed ys"
  by (simp add: addressed_def)

lemma narrow_fields [simp]:
  "InlineData (narrow c r) = InlineData r" "SourceManifest (narrow c r) = SourceManifest r"
  by (simp_all add: narrow_def)

lemma addressed_narrowed: "addressed refs \<Longrightarrow> addressed (narrowed (narrow c) refs)"
  by (auto simp: addressed_def narrowed_def list_all_iff)

lemma addressed_entry: "e_key e \<noteq> [] \<Longrightarrow> addressed (entry_refs e)"
  by (auto simp: addressed_def entry_refs_def list_all_iff tag_inline_def split: if_splits)

lemma plan_loop_addressed:
  "addressed refs \<Longrightarrow> list_all (\<lambda>e. e_key e \<noteq> []) es \<Longrightarrow> addressed (plan_loop es covered refs)"
proof (induction es arbitrary: covered refs)
  case (Cons e es)
  have step: "plan_segments e covered 0 (Segments (e_manifest e)) refs [] =
      (refs @ narrowed (narrow covered) (entry_refs e), concat (map ref_Extents (Segments (e_manifest e))))"
    by (simp add: plan_segments_eq entry_refs_def)
  show ?case using Cons by (simp add: step addressed_narrowed addressed_entry)
qed simp

lemma checkpointRefs_addressed: "p_key p \<noteq> [] \<Longrightarrow> addressed (checkpointRefs p)"
proof -
  have "addressed (checkpoint_loop key i segs)" if "key \<noteq> []" for key i segs
    by (induction segs arbitrary: i) (use that in \<open>auto simp: addressed_def\<close>)
  then show "p_key p \<noteq> [] \<Longrightarrow> addressed (checkpointRefs p)" by (simp add: checkpointRefs_def)
qed

lemma applyDeltaToPlan_addressed:
  assumes "wf_refs n delta" "wf_plan n current" "addressed delta" "addressed current"
  shows "addressed (applyDeltaToPlan current delta)"
proof -
  obtain covered where d: "delta_segments delta [] [] = (narrowed (narrow []) delta, covered)"
    using delta_segments_eq [OF assms(1), of "[]" "[]"] by auto
  have "applyDeltaToPlan current delta = narrowed (narrow []) delta @ narrowed (narrow covered) current"
    using assms(2) by (simp add: applyDeltaToPlan_def d(1) keep_visible_eq wf_plan_def)
  then show ?thesis using assms(3,4) by (simp add: addressed_narrowed)
qed

section \<open>Properties\<close>


lemma restore_loop_step:
  "0 < fuel \<Longrightarrow> restore_loop fuel w get state key expected bundles acc =
     (if key = [] then (if expected \<noteq> 0 then invalid ''manifest chain ended before generation zero'' else Inr acc)
      else bindR (readManifestWithSourceCache w get state key expected bundles) (\<lambda>(manifest, bk, bundles').
        let acc' = acc @ [\<lparr>e_key = key, e_manifest = manifest, e_bundle = bk\<rparr>] in
        if Kind manifest = ''checkpoint'' then Inr acc'
        else restore_loop (fuel - 1) w get state (Parent manifest) (expected - 1) bundles' acc'))"
  by (cases fuel) (auto intro!: bindR_cong simp: Let_def)

definition sample_entry :: manifestEntry where
  "sample_entry = \<lparr>e_key = manifestKey sample_wire ''v'' [5], e_manifest = sample_manifest, e_bundle = []\<rparr>"

lemma sample_restores: "restoreManifests sample_wire sample_get sample_state = Inr [sample_entry]"
proof -
  have r: "readManifestWithSourceCache sample_wire sample_get sample_state (manifestKey sample_wire ''v'' [5]) 1 fmempty =
      Inr (sample_manifest, [], fmempty)"
    using sample_decodes by (simp add: readManifestWithSourceCache_def sample_get_def sample_state_def)
  have k: "manifestKey sample_wire ''v'' [5] \<noteq> []" by (simp add: manifestKey_def VolumePrefix_def)
  have s: "s_Manifest sample_state = manifestKey sample_wire ''v'' [5]" "s_Generation sample_state = 1"
    by (simp_all add: sample_state_def)
  have m: "Kind sample_manifest = ''delta''" "Parent sample_manifest = []" by (simp_all add: sample_manifest_def)
  show ?thesis
    unfolding restoreManifests_def sample_entry_def s using k r m by (simp add: restore_loop_step Let_def)
qed

lemma sample_plan: "restorePlan sample_wire sample_get sample_state =
    Inr [sample_ref\<lparr>ref_Extents := [Extent 3 1], ref_ZeroExtents := []\<rparr>]"
proof -
  have "plan_loop [sample_entry] [] [] = [sample_ref\<lparr>ref_Extents := [Extent 3 1], ref_ZeroExtents := []\<rparr>]"
    by code_simp
  then show ?thesis by (simp add: restorePlan_def sample_restores)
qed


text \<open>
  C25. Updating a plan with a published delta is the same as planning the longer chain from
  scratch: the updated plan is well-formed and gives every block the source the new chain gives it.
\<close>

theorem applyDeltaToPlan_replans:
  assumes "wf_refs n (Segments (p_manifest p))" "p_key p \<noteq> []" "wf_plan n plan"
    and "\<And>b. plan_source plan b = chain_source (map entry_refs es) b"
  shows "wf_plan n (applyDeltaToPlan plan (checkpointRefs p)) \<and>
    plan_source (applyDeltaToPlan plan (checkpointRefs p)) b =
      chain_source (map entry_refs (\<lparr>e_key = p_key p, e_manifest = p_manifest p, e_bundle = bk\<rparr> # es)) b"
  using delta_replans [OF assms(1-3), of "map entry_refs es" "\<lparr>e_key = p_key p, e_manifest = p_manifest p, e_bundle = bk\<rparr>"] assms(4)
  by (simp add: fun_eq_iff)

theorem applyDeltaToPlan_replans_witness:
  "plan_source (applyDeltaToPlan [] (checkpointRefs \<lparr>p_manifest = sample_manifest, p_body = [5], p_key = ''k''\<rparr>)) 3 =
     chain_source (map entry_refs [\<lparr>e_key = ''k'', e_manifest = sample_manifest, e_bundle = []\<rparr>]) 3"
  using applyDeltaToPlan_replans [of 10 "\<lparr>p_manifest = sample_manifest, p_body = [5], p_key = ''k''\<rparr>" "[]" "[]" 3 "[]"]
    validateManifest_refs(1) [OF sample_valid]
  by (simp add: sample_state_def plan_source_def wf_plan_def wf_refs_def)


definition sample_bundle :: preparedManifestBundle where
  "sample_bundle = \<lparr>pb_ref = \<lparr>mb_Key = ''b'', FirstGeneration = 1, LastGeneration = 1\<rparr>, pb_body = [], pb_keys = {||}, uploaded = True\<rparr>"


end
