(* ===== verification/Lease.thy ===== *)
theory Lease
  imports Head Plan
begin

text \<open>
  Leases (\<open>internal/replica/remote.go\<close>): taking a volume, renewing, publishing generations and
  checkpoints, moving manifests into bundles, releasing, breaking and deleting. Every operation
  threads the lease and the store; it returns the lease, the store and a result. The clock is
  read once per operation (\<open>now\<close>) and fresh identifiers are arguments (\<open>uuid\<close>). The background
  upload of a bundle is split where the goroutine starts: \<open>startManifestBundleArchive\<close> and
  \<open>finishManifestBundleArchive\<close>.
\<close>

section \<open>State\<close>

text \<open>The closure of a \<open>pendingCommit\<close> is kept as what it captures.\<close>

record pendingCommit =
  pc_body :: bytes
  pc_candidate :: State
  pc_bundle :: "preparedManifestBundle option"
  pc_prepared :: "preparedManifest option"

record Lease =
  ls_state :: State
  ls_etag :: string
  ls_lost :: bool
  ls_plan :: "ObjectRef list"
  ls_planKnown :: bool
  ls_pending :: "pendingCommit option"
  ls_adopted :: "Manifest option"
  ls_inFlight :: "preparedManifestBundle option"
  ls_readyBundle :: "preparedManifestBundle option"

record 's Remote =
  Store :: "'s store_ops"
  RHead :: "'s volumeHead"
  RTTL :: int

definition remote_ttl :: "'s Remote \<Rightarrow> int" where
  "remote_ttl r = (if RTTL r > 0 then RTTL r else 30000000000)"

record CreateOptions =
  co_Size :: int
  co_Filesystem :: string

definition Inspect :: "wire \<Rightarrow> 's Remote \<Rightarrow> string \<Rightarrow> 's \<Rightarrow> 's \<times> (State \<times> string) result" where
  "Inspect w r name s =
     (case hd_read (RHead r) name s of
        (s', Inl e) \<Rightarrow> (s', Inl e)
      | (s', Inr (body, cursor)) \<Rightarrow>
          (s', case unmarshalState w body of
                 Inl e \<Rightarrow> Inl (Wrap ''decode volume state'' e)
               | Inr state \<Rightarrow> bindR (validateState w name state) (\<lambda>_. Inr (state, cursor))))"

definition has_lease :: "Lease \<Rightarrow> bool" where
  "has_lease l \<longleftrightarrow> \<not> ls_lost l \<and> s_Lease (ls_state l) \<noteq> None"

section \<open>Bundles of manifests\<close>

definition inlineManifestBytes :: "(string, bytes) fmap \<Rightarrow> nat" where
  "inlineManifestBytes ms = sum_list (map (\<lambda>k. length (the (fmlookup ms k))) (inline_keys ms))"

definition inlineManifestBytesAfterBundle :: "(string, bytes) fmap \<Rightarrow> preparedManifestBundle option \<Rightarrow> nat" where
  "inlineManifestBytesAfterBundle ms pb =
     sum_list (map (\<lambda>k. length (the (fmlookup ms k)))
       (filter (\<lambda>k. case pb of None \<Rightarrow> True | Some b \<Rightarrow> k |\<notin>| pb_keys b) (inline_keys ms)))"

text \<open>The entries of the inline area with their generations; Go visits the map in any order and
  then sorts by generation.\<close>

definition inline_entries :: "wire \<Rightarrow> State \<Rightarrow> (u64 \<times> bundledManifest) list result" where
  "inline_entries w snapshot =
     mapR (\<lambda>key. let body = the (fmlookup (InlineManifests snapshot) key) in
       bindR (decodeManifest w snapshot key body 0) (\<lambda>m. Inr (m_Generation m, \<lparr>bm_Key = key, bm_Body = body\<rparr>)))
       (inline_keys (InlineManifests snapshot))"

definition prepareManifestBundle :: "wire \<Rightarrow> State \<Rightarrow> preparedManifestBundle option result" where
  "prepareManifestBundle w snapshot =
     (if InlineManifests snapshot = fmempty then Inr None
      else bindR (inline_entries w snapshot) (\<lambda>unsorted.
        let entries = sort_key fst unsorted;
            b = \<lparr>b_Format = Format, b_VolumeID = s_ID snapshot, b_FirstGeneration = fst (hd entries),
                 b_LastGeneration = fst (last entries), b_Parent = ManifestBundle snapshot, Manifests = map snd entries\<rparr>;
            body = marshalBundle w b;
            key = bundleKey w (s_Name snapshot) body
        in Inr (Some \<lparr>pb_ref = \<lparr>mb_Key = key, FirstGeneration = b_FirstGeneration b, LastGeneration = b_LastGeneration b\<rparr>,
             pb_body = body, pb_keys = fset_of_list (map (bm_Key \<circ> snd) entries), uploaded = False\<rparr>)))"

definition manifestBundleApplies :: "wire \<Rightarrow> State \<Rightarrow> preparedManifestBundle \<Rightarrow> bool" where
  "manifestBundleApplies w state pb =
     (case unmarshalBundle w (pb_body pb) of
        Inl _ \<Rightarrow> False
      | Inr decoded \<Rightarrow>
          (case ManifestBundle state of None \<Rightarrow> [] | Some ref \<Rightarrow> mb_Key ref) =
          (case b_Parent decoded of None \<Rightarrow> [] | Some ref \<Rightarrow> mb_Key ref) \<and>
          pb_keys pb |\<subseteq>| fmdom (InlineManifests state))"

definition applyManifestBundle :: "State \<Rightarrow> preparedManifestBundle \<Rightarrow> State" where
  "applyManifestBundle state pb =
     state\<lparr>InlineManifests := fmdrop_fset (pb_keys pb) (InlineManifests state), ManifestBundle := Some (pb_ref pb)\<rparr>"

definition readyManifestBundleLocked :: "wire \<Rightarrow> Lease \<Rightarrow> Lease \<times> preparedManifestBundle option" where
  "readyManifestBundleLocked w l =
     (case ls_readyBundle l of
        None \<Rightarrow> (l, None)
      | Some pb \<Rightarrow> if manifestBundleApplies w (ls_state l) pb then (l, Some pb) else (l\<lparr>ls_readyBundle := None\<rparr>, None))"

definition readyManifestBundle :: "wire \<Rightarrow> State \<Rightarrow> Lease \<Rightarrow> Lease \<times> preparedManifestBundle option" where
  "readyManifestBundle w snapshot l =
     (case readyManifestBundleLocked w l of
        (l', None) \<Rightarrow> (l', None)
      | (l', Some pb) \<Rightarrow> (l', if manifestBundleApplies w snapshot pb then Some pb else None))"

section \<open>Uploads\<close>

text \<open>An immutable object: an existing one is accepted when it has the same content.\<close>

definition put_immutable :: "'s store_ops \<Rightarrow> string \<Rightarrow> bytes \<Rightarrow> string \<Rightarrow> string \<Rightarrow> 's \<Rightarrow> 's \<times> unit result" where
  "put_immutable ops key data failure conflict s =
     (case st_PutIfAbsent ops key data s of
        (s1, Inr _) \<Rightarrow> (s1, Inr ())
      | (s1, Inl e) \<Rightarrow>
          if \<not> errors_Is e ErrPreconditionFailed then (s1, Inl (Wrap failure e))
          else
            (case st_Get ops key s1 of
               (s2, Inl _) \<Rightarrow> (s2, Inl (Errorf conflict))
             | (s2, Inr existing) \<Rightarrow> (s2, if obj_Data existing = data then Inr () else Inl (Errorf conflict))))"

definition segmentReference :: "State \<Rightarrow> Segment \<Rightarrow> ObjectRef" where
  "segmentReference snapshot segment =
     (let inline = int (length (seg_Data segment)) \<le> inlineSegmentLimit in
      \<lparr>ref_Key = (if inline then [] else segmentKey (s_Name snapshot) (s_Epoch snapshot) (s_Generation snapshot + 1) (seg_SHA256 segment)),
       SourceManifest = [], SourceBundle = [], SourceIndex = 0, InlineData = (if inline then seg_Data segment else []),
       ref_SHA256 = seg_SHA256 segment, ref_Bytes = seg_Bytes segment, ref_Blocks = seg_Blocks segment,
       ref_Extents = seg_Extents segment, ref_ZeroExtents = seg_ZeroExtents segment\<rparr>)"

definition uploadSegment :: "'s Remote \<Rightarrow> State \<Rightarrow> Segment \<Rightarrow> 's \<Rightarrow> 's \<times> ObjectRef result" where
  "uploadSegment r snapshot segment s =
     (let ref = segmentReference snapshot segment in
      if InlineData ref \<noteq> [] then (s, Inr ref)
      else
        (case put_immutable (Store r) (ref_Key ref) (seg_Data segment) ''upload segment'' ''segment object exists with different content'' s of
           (s', Inl e) \<Rightarrow> (s', Inl e)
         | (s', Inr _) \<Rightarrow> (s', Inr ref)))"

text \<open>The upload workers, one segment after the other; the first error ends the upload.\<close>

fun uploadSegments :: "'s Remote \<Rightarrow> State \<Rightarrow> Segment list \<Rightarrow> 's \<Rightarrow> 's \<times> ObjectRef list result" where
  "uploadSegments r snapshot [] s = (s, Inr [])"
| "uploadSegments r snapshot (segment # segments) s =
     (case uploadSegment r snapshot segment s of
        (s1, Inl e) \<Rightarrow> (s1, Inl e)
      | (s1, Inr ref) \<Rightarrow>
          (case uploadSegments r snapshot segments s1 of
             (s2, Inl e) \<Rightarrow> (s2, Inl e)
           | (s2, Inr refs) \<Rightarrow> (s2, Inr (ref # refs))))"

definition uploadManifestBundle :: "'s Remote \<Rightarrow> preparedManifestBundle \<Rightarrow> 's \<Rightarrow> 's \<times> unit result" where
  "uploadManifestBundle r pb s =
     put_immutable (Store r) (mb_Key (pb_ref pb)) (pb_body pb) ''upload manifest bundle'' ''manifest bundle exists with different content'' s"

definition uploadManifest :: "'s Remote \<Rightarrow> preparedManifest \<Rightarrow> 's \<Rightarrow> 's \<times> unit result" where
  "uploadManifest r prepared s =
     put_immutable (Store r) (p_key prepared) (p_body prepared) ''upload manifest'' ''manifest object exists with different content'' s"

definition startManifestBundleArchive :: "wire \<Rightarrow> Lease \<Rightarrow> Lease" where
  "startManifestBundleArchive w l =
     (if \<not> has_lease l \<or> ls_inFlight l \<noteq> None \<or> ls_readyBundle l \<noteq> None \<or>
         int (inlineManifestBytes (InlineManifests (ls_state l))) < manifestBundleTarget
      then l
      else
        (case prepareManifestBundle w (ls_state l) of
           Inr (Some pb) \<Rightarrow> l\<lparr>ls_inFlight := Some pb\<rparr>
         | _ \<Rightarrow> l))"

definition finishManifestBundleArchive :: "wire \<Rightarrow> 's Remote \<Rightarrow> Lease \<Rightarrow> 's \<Rightarrow> Lease \<times> 's" where
  "finishManifestBundleArchive w r l s =
     (case ls_inFlight l of
        None \<Rightarrow> (l, s)
      | Some pb \<Rightarrow>
          (case uploadManifestBundle r pb s of (s', res) \<Rightarrow>
             let l1 = l\<lparr>ls_inFlight := None\<rparr> in
             (if is_ok res \<and> manifestBundleApplies w (ls_state l1) pb
              then l1\<lparr>ls_readyBundle := Some (pb\<lparr>uploaded := True\<rparr>)\<rparr> else l1, s')))"

section \<open>Committing the head\<close>

definition applyCommitLocked :: "State \<Rightarrow> string \<Rightarrow> preparedManifestBundle option \<Rightarrow> Lease \<Rightarrow> Lease" where
  "applyCommitLocked candidate etag pb l =
     (let l1 = l\<lparr>ls_state := candidate, ls_etag := etag\<rparr> in
      case pb of
        None \<Rightarrow> l1
      | Some b \<Rightarrow>
          l1\<lparr>ls_plan := attachBundleToRefs (ls_plan l1) b,
             ls_readyBundle := (case ls_readyBundle l1 of
               Some rb \<Rightarrow> if mb_Key (pb_ref rb) = mb_Key (pb_ref b) then None else Some rb
             | None \<Rightarrow> None)\<rparr>)"

definition applyManifestCommitLocked ::
  "State \<Rightarrow> string \<Rightarrow> preparedManifest \<Rightarrow> preparedManifestBundle option \<Rightarrow> Lease \<Rightarrow> Lease" where
  "applyManifestCommitLocked candidate etag prepared pb l =
     (let l1 = (applyCommitLocked candidate etag pb l)\<lparr>ls_adopted := None\<rparr> in
      if Kind (p_manifest prepared) = ''delta'' then
        (if ls_planKnown l1 then l1\<lparr>ls_plan := applyDeltaToPlan (ls_plan l1) (checkpointRefs prepared)\<rparr> else l1)
      else if Kind (p_manifest prepared) = ''checkpoint'' then
        l1\<lparr>ls_plan := Segments (p_manifest prepared), ls_planKnown := True\<rparr>
      else l1)"

definition pending_commit :: "pendingCommit \<Rightarrow> string \<Rightarrow> Lease \<Rightarrow> Lease" where
  "pending_commit p etag l =
     (case pc_prepared p of
        None \<Rightarrow> applyCommitLocked (pc_candidate p) etag (pc_bundle p) l
      | Some prepared \<Rightarrow> applyManifestCommitLocked (pc_candidate p) etag prepared (pc_bundle p) l)"

definition commitState :: "'s Remote \<Rightarrow> Lease \<Rightarrow> bytes \<Rightarrow> State \<Rightarrow> 's \<Rightarrow> 's \<times> string result" where
  "commitState r l body candidate s =
     (let name = s_Name (ls_state l) in
      case hd_commit (RHead r) name body (ls_etag l) candidate s of
        (s1, Inr etag) \<Rightarrow> (s1, Inr etag)
      | (s1, Inl e) \<Rightarrow>
          (case hd_read (RHead r) name s1 of
             (s2, Inr (currentBody, currentCursor)) \<Rightarrow> (s2, if currentBody = body then Inr currentCursor else Inl e)
           | (s2, Inl _) \<Rightarrow> (s2, Inl e)))"

text \<open>The lock is released while the head is read; nothing else of this lease runs meanwhile.\<close>

definition resolvePending :: "'s Remote \<Rightarrow> Lease \<Rightarrow> 's \<Rightarrow> Lease \<times> 's \<times> unit result" where
  "resolvePending r l s =
     (case ls_pending l of
        None \<Rightarrow> (l, s, Inr ())
      | Some p \<Rightarrow>
          if \<not> has_lease l then (l, s, Inr ())
          else
            (case hd_read (RHead r) (s_Name (ls_state l)) s of
               (s', Inl e) \<Rightarrow> (l, s', Inl e)
             | (s', Inr (currentBody, currentCursor)) \<Rightarrow>
                 let l1 = l\<lparr>ls_pending := None\<rparr> in
                 if currentBody = pc_body p
                 then (let l2 = pending_commit p currentCursor l1 in
                       (case pc_prepared p of None \<Rightarrow> l2 | Some prepared \<Rightarrow> l2\<lparr>ls_adopted := Some (p_manifest prepared)\<rparr>), s', Inr ())
                 else (l1, s', Inr ())))"

definition update :: "wire \<Rightarrow> 's Remote \<Rightarrow> (State \<Rightarrow> State) \<Rightarrow> Lease \<Rightarrow> 's \<Rightarrow> Lease \<times> 's \<times> unit result" where
  "update w r mutate l s =
     (case resolvePending r l s of
        (l1, s1, Inl e) \<Rightarrow> (l1, s1, Inl e)
      | (l1, s1, Inr _) \<Rightarrow>
          if \<not> has_lease l1 then (l1, s1, Inl ErrLeaseLost)
          else
            (case readyManifestBundleLocked w l1 of (l2, pb) \<Rightarrow>
               let candidate = mutate (case pb of None \<Rightarrow> ls_state l2 | Some b \<Rightarrow> applyManifestBundle (ls_state l2) b);
                   body = marshalState w candidate
               in case commitState r l2 body candidate s1 of
                    (s2, Inr etag) \<Rightarrow> (applyCommitLocked candidate etag pb l2, s2, Inr ())
                  | (s2, Inl e) \<Rightarrow>
                      if errors_Is e ErrPreconditionFailed then (l2\<lparr>ls_lost := True\<rparr>, s2, Inl ErrLeaseLost)
                      else (l2\<lparr>ls_pending := Some \<lparr>pc_body = body, pc_candidate = candidate, pc_bundle = pb, pc_prepared = None\<rparr>\<rparr>,
                            s2, Inl e)))"

definition renewed :: "'s Remote \<Rightarrow> int \<Rightarrow> State \<Rightarrow> State" where
  "renewed r now state = state\<lparr>s_Lease := map_option (\<lambda>rec. rec\<lparr>ExpiresAt := now + remote_ttl r\<rparr>) (s_Lease state)\<rparr>"

definition Renew :: "wire \<Rightarrow> 's Remote \<Rightarrow> int \<Rightarrow> Lease \<Rightarrow> 's \<Rightarrow> Lease \<times> 's \<times> unit result" where
  "Renew w r now l s = update w r (renewed r now) l s"

definition renewLocked :: "wire \<Rightarrow> 's Remote \<Rightarrow> int \<Rightarrow> Lease \<Rightarrow> 's \<Rightarrow> Lease \<times> 's" where
  "renewLocked w r now l s =
     (case s_Lease (ls_state l) of
        None \<Rightarrow> (l, s)
      | Some rec \<Rightarrow>
          if ExpiresAt rec > now + remote_ttl r div 2 then (l, s)
          else
            let candidate = renewed r now (ls_state l); body = marshalState w candidate in
            (case commitState r l body candidate s of
               (s', Inr etag) \<Rightarrow> (applyCommitLocked candidate etag None l, s')
             | (s', Inl e) \<Rightarrow> (if errors_Is e ErrPreconditionFailed then l\<lparr>ls_lost := True\<rparr> else l, s')))"

text \<open>The background bundle is waited for by running it to its end; \<open>waits\<close> is the result of
  the wait, an error when the context ended first.\<close>

definition Lease_Release :: "wire \<Rightarrow> 's Remote \<Rightarrow> unit result \<Rightarrow> Lease \<Rightarrow> 's \<Rightarrow> Lease \<times> 's \<times> unit result" where
  "Lease_Release w r waits l s =
     (if ls_inFlight l \<noteq> None \<and> \<not> is_ok waits then (l, s, waits)
      else case finishManifestBundleArchive w r l s of (l1, s1) \<Rightarrow>
        update w r (\<lambda>state. state\<lparr>s_Lease := None\<rparr>) l1 s1)"

section \<open>Publishing\<close>

definition prepareManifest :: "wire \<Rightarrow> State \<Rightarrow> Manifest \<Rightarrow> preparedManifest" where
  "prepareManifest w snapshot manifest =
     (let body = marshalManifest w manifest in
      \<lparr>p_manifest = manifest, p_body = body, p_key = manifestKey w (s_Name snapshot) body\<rparr>)"

definition sameLogicalManifest :: "Manifest \<Rightarrow> Manifest \<Rightarrow> bool" where
  "sameLogicalManifest a b \<longleftrightarrow> a\<lparr>CreatedAt := 0\<rparr> = b\<lparr>CreatedAt := 0\<rparr>"

definition sameSegmentReference :: "ObjectRef \<Rightarrow> Segment \<Rightarrow> bool" where
  "sameSegmentReference ref segment \<longleftrightarrow>
     ref_SHA256 ref = seg_SHA256 segment \<and> ref_Bytes ref = seg_Bytes segment \<and> ref_Blocks ref = seg_Blocks segment \<and>
     ref_Extents ref = seg_Extents segment \<and> ref_ZeroExtents ref = seg_ZeroExtents segment"

definition consumeAdoptedPublishLocked :: "Segment list \<Rightarrow> Lease \<Rightarrow> Lease \<times> bool" where
  "consumeAdoptedPublishLocked segments l =
     (case ls_adopted l of
        None \<Rightarrow> (l, False)
      | Some adopted \<Rightarrow>
          if Kind adopted = ''delta'' \<and> m_Generation adopted = s_Generation (ls_state l) \<and> m_Epoch adopted = s_Epoch (ls_state l) \<and>
             list_all2 sameSegmentReference (Segments adopted) segments
          then (l\<lparr>ls_adopted := None\<rparr>, True) else (l, False))"

text \<open>The state a manifest commit writes.\<close>

definition manifest_candidate ::
  "'s Remote \<Rightarrow> int \<Rightarrow> State \<Rightarrow> preparedManifest \<Rightarrow> bool \<Rightarrow> preparedManifestBundle option \<Rightarrow> State" where
  "manifest_candidate r now state prepared emb pb =
     (let c1 = (case pb of None \<Rightarrow> state | Some b \<Rightarrow> applyManifestBundle state b);
          c2 = (renewed r now c1)\<lparr>s_Generation := m_Generation (p_manifest prepared), s_Manifest := p_key prepared\<rparr>;
          c3 = (if emb then c2\<lparr>InlineManifests := fmupd (p_key prepared) (p_body prepared) (InlineManifests c2)\<rparr> else c2)
      in if Kind (p_manifest prepared) = ''checkpoint'' then c3\<lparr>Checkpoint := m_Generation (p_manifest prepared)\<rparr> else c3)"

definition commitManifest ::
  "wire \<Rightarrow> 's Remote \<Rightarrow> int \<Rightarrow> State \<Rightarrow> preparedManifest \<Rightarrow> bool \<Rightarrow> preparedManifestBundle option \<Rightarrow> Lease \<Rightarrow> 's \<Rightarrow>
     Lease \<times> 's \<times> unit result" where
  "commitManifest w r now snapshot prepared emb pb l s =
     (case resolvePending r l s of
        (l1, s1, Inl e) \<Rightarrow> (l1, s1, Inl e)
      | (l1, s1, Inr _) \<Rightarrow>
          if \<not> has_lease l1 then (l1, s1, Inl ErrLeaseLost)
          else if (case ls_adopted l1 of None \<Rightarrow> False | Some m \<Rightarrow> sameLogicalManifest m (p_manifest prepared))
          then (case renewLocked w r now (l1\<lparr>ls_adopted := None\<rparr>) s1 of (l2, s2) \<Rightarrow> (l2, s2, Inr ()))
          else if s_Generation (ls_state l1) \<noteq> s_Generation snapshot \<or> s_Manifest (ls_state l1) \<noteq> s_Manifest snapshot \<or>
                  s_Epoch (ls_state l1) \<noteq> s_Epoch snapshot
          then (l1, s1, Inl (Errorf ''volume head changed during publish''))
          else if (case pb of None \<Rightarrow> False | Some b \<Rightarrow> \<not> manifestBundleApplies w (ls_state l1) b)
          then (l1, s1, Inl (Errorf ''manifest bundle no longer matches volume state''))
          else
            let candidate = manifest_candidate r now (ls_state l1) prepared emb pb;
                body = marshalState w candidate
            in case commitState r l1 body candidate s1 of
                 (s2, Inr etag) \<Rightarrow> (applyManifestCommitLocked candidate etag prepared pb l1, s2, Inr ())
               | (s2, Inl e) \<Rightarrow>
                   if errors_Is e ErrPreconditionFailed then (l1\<lparr>ls_lost := True\<rparr>, s2, Inl ErrLeaseLost)
                   else (l1\<lparr>ls_pending := Some \<lparr>pc_body = body, pc_candidate = candidate, pc_bundle = pb, pc_prepared = Some prepared\<rparr>\<rparr>,
                         s2, Inl (Wrap ''publish volume head'' e)))"

text \<open>Where the manifest body goes: the bundle to attach, whether the body is embedded in the
  state and whether it is uploaded as an object of its own.\<close>

definition placement ::
  "wire \<Rightarrow> State \<Rightarrow> preparedManifest \<Rightarrow> preparedManifestBundle option \<Rightarrow> bool \<Rightarrow>
     (preparedManifestBundle option \<times> bool \<times> bool) result" where
  "placement w snapshot prepared pb archive =
     (let n = length (p_body prepared);
          archive1 = (archive \<or> int n > inlineManifestLimit);
          emb = (\<not> archive1 \<and> int n \<le> inlineManifestLimit \<and>
            int (inlineManifestBytesAfterBundle (InlineManifests snapshot) pb + n) \<le> inlineManifestStateLimit);
          finish = (\<lambda>(pb', emb', archive'). Inr (pb', emb', archive' \<or> \<not> emb'))
      in if \<not> emb \<and> pb = None \<and> \<not> archive1
         then bindR (prepareManifestBundle w snapshot) (\<lambda>pb'.
           if int n \<le> inlineManifestLimit then finish (pb', True, archive1) else finish (pb', emb, True))
         else finish (pb, emb, archive1))"

text \<open>The uploads of a publication. The code runs the three in parallel and stops at the first
  error; they write different keys, and here they run one after the other.\<close>

definition publish_objects ::
  "'s Remote \<Rightarrow> State \<Rightarrow> preparedManifest \<Rightarrow> Segment list \<Rightarrow> preparedManifestBundle option \<Rightarrow> bool \<Rightarrow> 's \<Rightarrow> 's \<times> unit result" where
  "publish_objects r snapshot prepared segments pb archive s =
     (case (if segments = [] then (s, Inr []) else uploadSegments r snapshot segments s) of
        (s1, Inl e) \<Rightarrow> (s1, Inl e)
      | (s1, Inr _) \<Rightarrow>
          (case (case pb of None \<Rightarrow> (s1, Inr ()) | Some b \<Rightarrow> if uploaded b then (s1, Inr ()) else uploadManifestBundle r b s1) of
             (s2, Inl e) \<Rightarrow> (s2, Inl e)
           | (s2, Inr _) \<Rightarrow> if archive then uploadManifest r prepared s2 else (s2, Inr ())))"

definition publishPrepared ::
  "wire \<Rightarrow> 's Remote \<Rightarrow> int \<Rightarrow> State \<Rightarrow> preparedManifest \<Rightarrow> Segment list \<Rightarrow> preparedManifestBundle option \<Rightarrow> bool \<Rightarrow>
     Lease \<Rightarrow> 's \<Rightarrow> Lease \<times> 's \<times> unit result" where
  "publishPrepared w r now snapshot prepared segments pb archive l s =
     (case (if pb = None \<and> \<not> archive then readyManifestBundle w snapshot l else (l, pb)) of (l1, pb1) \<Rightarrow>
        case placement w snapshot prepared pb1 archive of
          Inl e \<Rightarrow> (l1, s, Inl e)
        | Inr (pb2, emb, archive2) \<Rightarrow>
            (case publish_objects r snapshot prepared segments pb2 archive2 s of
               (s1, Inl e) \<Rightarrow> (l1, s1, Inl e)
             | (s1, Inr _) \<Rightarrow>
                 (case commitManifest w r now snapshot prepared emb pb2 l1 s1 of
                    (l2, s2, Inl e) \<Rightarrow> (l2, s2, Inl e)
                  | (l2, s2, Inr _) \<Rightarrow> (startManifestBundleArchive w l2, s2, Inr ()))))"

text \<open>The checks of \<open>Publish\<close> on the segments it is given.\<close>

definition segment_matches_data :: "wire \<Rightarrow> Segment \<Rightarrow> bool" where
  "segment_matches_data w segment \<longleftrightarrow> seg_Data segment \<noteq> [] \<and> seg_Extents segment \<noteq> [] \<and>
     seg_SHA256 segment = hex_EncodeToString (sha256 w (seg_Data segment)) \<and> seg_Bytes segment = int (length (seg_Data segment))"

fun check_segments :: "u64 \<Rightarrow> Segment list \<Rightarrow> u64 \<Rightarrow> Extent list \<Rightarrow> (u64 \<times> Extent list) result" where
  "check_segments maxBlocks [] blocks exts = Inr (blocks, exts)"
| "check_segments maxBlocks (segment # segments) blocks exts =
     (case validateExtents (seg_Extents segment) maxBlocks of
        Inl _ \<Rightarrow> invalid ''segment has invalid extents''
      | Inr n \<Rightarrow>
          if n \<noteq> word_of_int (seg_Blocks segment) then invalid ''segment has invalid extents''
          else if \<not> is_ok (validateExtents (seg_ZeroExtents segment) maxBlocks) \<or>
                  \<not> extentsContain (seg_Extents segment) (seg_ZeroExtents segment)
          then invalid ''segment has invalid zero extents''
          else if blocks > - 1 - n then invalid ''segment block count overflows''
          else check_segments maxBlocks segments (blocks + n) (exts @ seg_Extents segment))"

definition check_generation :: "State \<Rightarrow> Segment list \<Rightarrow> unit result" where
  "check_generation snapshot segments =
     (let maxBlocks = word_of_int (s_Size snapshot div s_BlockSize snapshot) in
      bindR (check_segments maxBlocks segments 0 []) (\<lambda>(blocks, exts).
        case validateExtents (unionExtents [] exts) maxBlocks of
          Inl _ \<Rightarrow> invalid ''segments overlap within generation''
        | Inr covered \<Rightarrow> if covered \<noteq> blocks then invalid ''segments overlap within generation'' else Inr ()))"

definition delta_manifest :: "State \<Rightarrow> int \<Rightarrow> Segment list \<Rightarrow> Manifest" where
  "delta_manifest snapshot now segments =
     \<lparr>m_Format = Format, VolumeID = s_ID snapshot, m_Generation = s_Generation snapshot + 1, m_Epoch = s_Epoch snapshot,
      Kind = ''delta'', Parent = s_Manifest snapshot, Segments = map (segmentReference snapshot) segments, CreatedAt = now\<rparr>"

definition Publish :: "wire \<Rightarrow> 's Remote \<Rightarrow> int \<Rightarrow> Segment list \<Rightarrow> Lease \<Rightarrow> 's \<Rightarrow> Lease \<times> 's \<times> unit result" where
  "Publish w r now segments l s =
     (if segments = [] then (l, s, invalid ''cannot publish an empty generation'')
      else if \<not> list_all (segment_matches_data w) segments then (l, s, invalid ''segment metadata does not match its data'')
      else
        (case resolvePending r l s of
           (l1, s1, Inl e) \<Rightarrow> (l1, s1, Inl e)
         | (l1, s1, Inr _) \<Rightarrow>
             if \<not> has_lease l1 then (l1, s1, Inl ErrLeaseLost)
             else
               (case consumeAdoptedPublishLocked segments l1 of
                  (l2, True) \<Rightarrow> (case renewLocked w r now l2 s1 of (l3, s2) \<Rightarrow> (l3, s2, Inr ()))
                | (l2, False) \<Rightarrow>
                    let snapshot = ls_state l2 in
                    (case check_generation snapshot segments of
                       Inl e \<Rightarrow> (l2, s1, Inl e)
                     | Inr _ \<Rightarrow>
                         publishPrepared w r now snapshot (prepareManifest w snapshot (delta_manifest snapshot now segments))
                           segments None False l2 s1))))"

definition checkpoint_manifest :: "State \<Rightarrow> int \<Rightarrow> ObjectRef list \<Rightarrow> Manifest" where
  "checkpoint_manifest snapshot now refs =
     \<lparr>m_Format = Format, VolumeID = s_ID snapshot, m_Generation = s_Generation snapshot + 1, m_Epoch = s_Epoch snapshot,
      Kind = ''checkpoint'', Parent = s_Manifest snapshot, Segments = refs, CreatedAt = now\<rparr>"

text \<open>\<open>get\<close> is the store while the plan is read, when the lease does not know it.\<close>

definition PublishCheckpoint :: "wire \<Rightarrow> 's Remote \<Rightarrow> getter \<Rightarrow> int \<Rightarrow> Lease \<Rightarrow> 's \<Rightarrow> Lease \<times> 's \<times> unit result" where
  "PublishCheckpoint w r get now l s =
     (if \<not> has_lease l then (l, s, Inl ErrLeaseLost)
      else
        let snapshot = ls_state l in
        case bindR (if ls_planKnown l then Inr (ls_plan l) else restorePlan w get snapshot) (\<lambda>refs.
             bindR (prepareManifestBundle w snapshot) (\<lambda>pb. Inr (refs, pb))) of
          Inl e \<Rightarrow> (l, s, Inl e)
        | Inr (refs, pb) \<Rightarrow>
            let refs' = checkpointReadyRefs (case pb of None \<Rightarrow> refs | Some b \<Rightarrow> attachBundleToRefs refs b) in
            publishPrepared w r now snapshot (prepareManifest w snapshot (checkpoint_manifest snapshot now refs')) [] pb True l s)"

section \<open>Taking, breaking and deleting\<close>

definition new_lease :: "State \<Rightarrow> string \<Rightarrow> Lease" where
  "new_lease state etag =
     \<lparr>ls_state = state, ls_etag = etag, ls_lost = False, ls_plan = [], ls_planKnown = (s_Generation state = 0),
      ls_pending = None, ls_adopted = None, ls_inFlight = None, ls_readyBundle = None\<rparr>"

text \<open>What \<open>Acquire\<close> makes of the state it finds: the state to write and whether the volume is
  new. \<open>found\<close> is the result of \<open>Inspect\<close>.\<close>

definition acquire_base ::
  "string \<Rightarrow> int \<Rightarrow> string \<Rightarrow> CreateOptions \<Rightarrow> (State \<times> string) result \<Rightarrow> (State \<times> string \<times> bool) result" where
  "acquire_base name now uuid opts found =
     (case found of
        Inl e \<Rightarrow>
          if errors_Is e ErrNotFound then
            (if co_Size opts \<le> 0 \<or> co_Size opts mod DefaultBlockSize \<noteq> 0
             then invalid ''new volume size must be a positive multiple of the block size''
             else Inr (\<lparr>s_Format = Format, s_ID = uuid, s_Name = name, s_Size = co_Size opts, s_BlockSize = DefaultBlockSize,
                 Filesystem = (if co_Filesystem opts = [] then ''ext4'' else co_Filesystem opts), s_Generation = 0, s_Manifest = [],
                 InlineManifests = fmempty, ManifestBundle = None, Checkpoint = 0, s_Epoch = 0, Deleting = False, s_Lease = None\<rparr>, [], True))
          else Inl e
      | Inr (state, etag) \<Rightarrow>
          if Deleting state then invalid ''volume is being deleted''
          else if (case s_Lease state of None \<Rightarrow> False | Some rec \<Rightarrow> ExpiresAt rec > now)
          then Inl (HeldError (Holder (the (s_Lease state))))
          else if co_Size opts > 0 \<and> co_Size opts \<noteq> s_Size state then invalid ''volume has another size''
          else if co_Filesystem opts \<noteq> [] \<and> co_Filesystem opts \<noteq> Filesystem state then invalid ''volume uses another filesystem''
          else Inr (state, etag, False))"

definition acquire_candidate :: "'s Remote \<Rightarrow> int \<Rightarrow> string \<Rightarrow> string \<Rightarrow> State \<Rightarrow> State" where
  "acquire_candidate r now holder token state =
     (let epoch = s_Epoch state + 1 in
      state\<lparr>s_Epoch := epoch, s_Lease := Some \<lparr>Holder = holder, Token = token, lr_Epoch = epoch,
        ExpiresAt = now + remote_ttl r, MountedAt = now\<rparr>\<rparr>)"

definition Acquire ::
  "wire \<Rightarrow> 's Remote \<Rightarrow> int \<Rightarrow> string \<Rightarrow> string \<Rightarrow> string \<Rightarrow> string \<Rightarrow> CreateOptions \<Rightarrow> 's \<Rightarrow> 's \<times> (Lease \<times> bool) result" where
  "Acquire w r now uuid token name holder opts s =
     (if \<not> validVolumeName name then (s, invalid ''invalid volume name'')
      else
        (case Inspect w r name s of (s1, found) \<Rightarrow>
           case acquire_base name now uuid opts found of
             Inl e \<Rightarrow> (s1, Inl e)
           | Inr (base, etag, created) \<Rightarrow>
               let state = acquire_candidate r now holder token base;
                   body = marshalState w state
               in case hd_commit (RHead r) name body etag state s1 of
                    (s2, Inr new) \<Rightarrow> (s2, Inr (startManifestBundleArchive w (new_lease state new), created))
                  | (s2, Inl e) \<Rightarrow>
                      (case hd_read (RHead r) name s2 of (s3, got) \<Rightarrow>
                         case got of
                           Inr (currentBody, currentCursor) \<Rightarrow>
                             if currentBody = body
                             then (s3, Inr (startManifestBundleArchive w (new_lease state currentCursor), created))
                             else (s3, Inl (if errors_Is e ErrPreconditionFailed then Wrap ''acquire'' ErrLeaseLost else e))
                         | Inl _ \<Rightarrow> (s3, Inl (if errors_Is e ErrPreconditionFailed then Wrap ''acquire'' ErrLeaseLost else e)))))"

definition Break :: "wire \<Rightarrow> 's Remote \<Rightarrow> string \<Rightarrow> string \<Rightarrow> 's \<Rightarrow> 's \<times> unit result" where
  "Break w r name expectedToken s =
     (case Inspect w r name s of
        (s1, Inl e) \<Rightarrow> (s1, Inl e)
      | (s1, Inr (state, etag)) \<Rightarrow>
          (case s_Lease state of
             None \<Rightarrow> (s1, Inr ())
           | Some rec \<Rightarrow>
               if expectedToken \<noteq> [] \<and> Token rec \<noteq> expectedToken
               then (s1, Inl (Wrap ''lease holder changed while awaiting confirmation'' ErrLeaseLost))
               else
                 let state' = state\<lparr>s_Lease := None, s_Epoch := s_Epoch state + 1\<rparr> in
                 (case hd_commit (RHead r) name (marshalState w state') etag state' s1 of
                    (s2, Inr _) \<Rightarrow> (s2, Inr ())
                  | (s2, Inl e) \<Rightarrow>
                      (s2, Inl (if errors_Is e ErrPreconditionFailed then Wrap ''lease changed while breaking it'' ErrLeaseLost else e)))))"

fun delete_keys :: "'s Remote \<Rightarrow> string \<Rightarrow> string list \<Rightarrow> 's \<Rightarrow> 's \<times> unit result" where
  "delete_keys r name [] s = (s, Inr ())"
| "delete_keys r name (key # keys) s =
     (if hd_owns (RHead r) name key then delete_keys r name keys s
      else
        (case st_Delete (Store r) key s of
           (s1, Inl e) \<Rightarrow> (s1, Inl e)
         | (s1, Inr _) \<Rightarrow> delete_keys r name keys s1))"

definition Remote_Delete :: "wire \<Rightarrow> 's Remote \<Rightarrow> int \<Rightarrow> string \<Rightarrow> 's \<Rightarrow> 's \<times> unit result" where
  "Remote_Delete w r now name s =
     (case Inspect w r name s of
        (s1, Inl e) \<Rightarrow> (s1, Inl e)
      | (s1, Inr (state, etag)) \<Rightarrow>
          if (case s_Lease state of None \<Rightarrow> False | Some rec \<Rightarrow> ExpiresAt rec > now)
          then (s1, Inl (HeldError (Holder (the (s_Lease state)))))
          else
            let state' = state\<lparr>Deleting := True, s_Lease := None, s_Epoch := s_Epoch state + 1\<rparr>;
                body = marshalState w state';
                sweep = (\<lambda>s2.
                  (case st_List (Store r) (VolumePrefix name) s2 of
                     (s3, Inl e) \<Rightarrow> (s3, Inl e)
                   | (s3, Inr keys) \<Rightarrow>
                       (case delete_keys r name keys s3 of
                          (s4, Inl e) \<Rightarrow> (s4, Inl e)
                        | (s4, Inr _) \<Rightarrow> hd_remove (RHead r) name s4)))
            in case hd_commit (RHead r) name body etag state' s1 of
                 (s2, Inr _) \<Rightarrow> sweep s2
               | (s2, Inl e) \<Rightarrow>
                   (case hd_read (RHead r) name s2 of
                      (s3, Inl _) \<Rightarrow> (s3, Inl e)
                    | (s3, Inr (currentBody, _)) \<Rightarrow> if currentBody = body then sweep s3 else (s3, Inl e)))"

definition Exists :: "wire \<Rightarrow> 's Remote \<Rightarrow> string \<Rightarrow> 's \<Rightarrow> 's \<times> bool result" where
  "Exists w r name s =
     (case Inspect w r name s of
        (s1, Inr _) \<Rightarrow> (s1, Inr True)
      | (s1, Inl e) \<Rightarrow> (s1, if errors_Is e ErrNotFound then Inr False else Inl e))"

text \<open>One tick of \<open>Heartbeat\<close>: the lease, the store, and the error it reports as lost, if any.
  The clock is read before the renewal (\<open>before\<close>), in it (\<open>now\<close>) and after it failed (\<open>after\<close>);
  \<open>cancelled\<close> is whether the context had ended when the renewal returned.\<close>

definition heartbeat_tick ::
  "wire \<Rightarrow> 's Remote \<Rightarrow> int \<Rightarrow> int \<Rightarrow> int \<Rightarrow> bool \<Rightarrow> Lease \<Rightarrow> 's \<Rightarrow> Lease \<times> 's \<times> error option" where
  "heartbeat_tick w r before now after cancelled l s =
     (let interval = (if remote_ttl r div 3 \<le> 0 then 1 else remote_ttl r div 3) in
      if (case s_Lease (ls_state l) of None \<Rightarrow> False | Some rec \<Rightarrow> ExpiresAt rec > before + 2 * interval) then (l, s, None)
      else
        (case Renew w r now l s of
           (l1, s1, Inr _) \<Rightarrow> (l1, s1, None)
         | (l1, s1, Inl e) \<Rightarrow>
             (l1, s1,
              if cancelled then None
              else if errors_Is e ErrLeaseLost \<or> (case s_Lease (ls_state l1) of None \<Rightarrow> True | Some rec \<Rightarrow> \<not> after < ExpiresAt rec)
              then Some (Wrap ''renew lease'' e) else None)))"

text \<open>\<open>Lease.PrepareLazyRestore\<close> keeps the plan of the image it prepared when the head did not
  move meanwhile: \<open>state\<close> is the snapshot it restored, \<open>refs\<close> the plan.\<close>

definition adoptPlan :: "State \<Rightarrow> ObjectRef list \<Rightarrow> Lease \<Rightarrow> Lease" where
  "adoptPlan state refs l =
     (if s_Generation (ls_state l) = s_Generation state \<and> s_Manifest (ls_state l) = s_Manifest state
      then l\<lparr>ls_plan := checkpointReadyRefs refs, ls_planKnown := True\<rparr> else l)"

end
