(* ===== verification/LeaseRun.thy ===== *)
theory LeaseRun
  imports Lease
begin

text \<open>
  What the operations on leases guarantee on a store that other clients use at the same time.
  \<open>head_step\<close> is the protocol of the volume head as an abstract specification; the operations
  of \<open>Lease\<close> are shown to write the head only by its steps, each replacing exactly the state
  the operation worked on.
\<close>

section \<open>The protocol of the head\<close>

definition same_volume :: "State \<Rightarrow> State \<Rightarrow> bool" where
  "same_volume a b \<longleftrightarrow> s_Format b = s_Format a \<and> s_ID b = s_ID a \<and> s_Name b = s_Name a \<and> s_Size b = s_Size a \<and>
     s_BlockSize b = s_BlockSize a \<and> Filesystem b = Filesystem a"

definition same_content :: "State \<Rightarrow> State \<Rightarrow> bool" where
  "same_content a b \<longleftrightarrow> s_Generation b = s_Generation a \<and> s_Manifest b = s_Manifest a \<and> Checkpoint b = Checkpoint a"

definition next_generation :: "State \<Rightarrow> State \<Rightarrow> bool" where
  "next_generation a b \<longleftrightarrow> s_Generation b = s_Generation a + 1 \<and> (Checkpoint b = Checkpoint a \<or> Checkpoint b = s_Generation b)"

definition same_owner :: "LeaseRecord \<Rightarrow> LeaseRecord \<Rightarrow> bool" where
  "same_owner a b \<longleftrightarrow> Holder b = Holder a \<and> Token b = Token a \<and> lr_Epoch b = lr_Epoch a \<and> MountedAt b = MountedAt a"

text \<open>The steps: a volume is created, taken by a new holder, renewed or published by its holder,
  released by its holder, broken, or marked as deleting.\<close>

inductive head_step :: "State option \<Rightarrow> State \<Rightarrow> bool" where
  create: "head_step None st"
    if "s_Generation st = 0" "s_Manifest st = []" "s_Epoch st = 1" "\<not> Deleting st" "s_Lease st = Some rec" "lr_Epoch rec = 1"
| take: "head_step (Some old) st"
    if "same_volume old st" "same_content old st" "InlineManifests st = InlineManifests old" "ManifestBundle st = ManifestBundle old"
      "s_Epoch st = s_Epoch old + 1" "\<not> Deleting old" "\<not> Deleting st" "s_Lease st = Some rec" "lr_Epoch rec = s_Epoch st"
      "\<And>held. s_Lease old = Some held \<Longrightarrow> ExpiresAt held \<le> MountedAt rec"
| hold: "head_step (Some old) st"
    if "same_volume old st" "same_content old st \<or> next_generation old st" "s_Epoch st = s_Epoch old" "Deleting st = Deleting old"
      "s_Lease old = Some rec" "s_Lease st = Some rec'" "same_owner rec rec'"
| release: "head_step (Some old) st"
    if "same_volume old st" "same_content old st" "s_Epoch st = s_Epoch old" "Deleting st = Deleting old"
      "s_Lease old = Some rec" "s_Lease st = None"
| break: "head_step (Some old) st"
    if "same_volume old st" "same_content old st" "s_Epoch st = s_Epoch old + 1" "Deleting st = Deleting old"
      "s_Lease old \<noteq> None" "s_Lease st = None"
| erase: "head_step (Some old) st"
    if "same_volume old st" "same_content old st" "s_Epoch st = s_Epoch old + 1" "Deleting st" "s_Lease st = None"

text \<open>A run of one client: its own writes, and anything the others do in between.\<close>

inductive client_run ::
  "('s \<Rightarrow> string \<rightharpoonup> bytes \<times> string) \<Rightarrow> ('s \<Rightarrow> (string \<times> bytes \<times> string) set) \<Rightarrow> ('s \<Rightarrow> bool) \<Rightarrow>
     (string \<Rightarrow> (bytes \<times> string) option \<Rightarrow> bytes \<Rightarrow> bool) \<Rightarrow> 's \<Rightarrow> 's \<Rightarrow> bool"
  for hcur hhist hinv own where
  idle: "client_run hcur hhist hinv own s s"
| others: "client_run hcur hhist hinv own s s1 \<Longrightarrow> hlater hhist hinv s1 s2 \<Longrightarrow> client_run hcur hhist hinv own s s2"
| own_write: "client_run hcur hhist hinv own s s1 \<Longrightarrow> own name (hcur s1 name) body \<Longrightarrow> installed hcur hhist name body c s1 s2 \<Longrightarrow>
    hinv s2 \<Longrightarrow> client_run hcur hhist hinv own s s2"

lemma client_run_trans:
  assumes "client_run hcur hhist hinv own b c" "client_run hcur hhist hinv own a b"
  shows "client_run hcur hhist hinv own a c"
  using assms by (induction rule: client_run.induct) (auto intro: client_run.intros)

lemma client_run_mono:
  assumes "client_run hcur hhist hinv own a b" "\<And>name old body. own name old body \<Longrightarrow> own' name old body"
  shows "client_run hcur hhist hinv own' a b"
  using assms(1) by induction (auto intro: client_run.intros assms(2))

lemma client_run_later: "client_run hcur hhist hinv own a b \<Longrightarrow> hinv a \<Longrightarrow> hlater hhist hinv a b"
  by (induction rule: client_run.induct) (auto simp: hlater_def installed_def)

lemmas client_run_others = others [OF idle]

section \<open>The lease and its version of the head\<close>

text \<open>What the writes of a lease look like: the replaced head is the encoding of a state with
  the lease's epoch and owner, and the new head is the encoding of a step of the holder.\<close>

definition lease_write :: "wire \<Rightarrow> string \<Rightarrow> u64 \<Rightarrow> string \<Rightarrow> (bytes \<times> string) option \<Rightarrow> bytes \<Rightarrow> bool" where
  "lease_write w vol epoch name old body \<longleftrightarrow>
     name = vol \<and> (\<exists>a c b. old = Some (marshalState w a, c) \<and> body = marshalState w b \<and> s_Epoch a = epoch \<and> s_Epoch b = epoch \<and>
       s_Lease a \<noteq> None \<and> head_step (Some a) b)"

text \<open>The cursor of the lease stands for its state, and a commit in doubt is a holder's step.\<close>

definition holder_step :: "State \<Rightarrow> State \<Rightarrow> bool" where
  "holder_step a b \<longleftrightarrow> head_step (Some a) b \<and> s_Epoch b = s_Epoch a \<and> s_Name b = s_Name a \<and> s_Lease a \<noteq> None"

definition pending_ok :: "wire \<Rightarrow> Lease \<Rightarrow> bool" where
  "pending_ok w l \<longleftrightarrow> (\<forall>p. ls_pending l = Some p \<longrightarrow> pc_body p = marshalState w (pc_candidate p) \<and> holder_step (ls_state l) (pc_candidate p))"

definition lease_ok :: "wire \<Rightarrow> (string \<times> bytes \<times> string) set \<Rightarrow> Lease \<Rightarrow> bool" where
  "lease_ok w hh l \<longleftrightarrow> (s_Name (ls_state l), marshalState w (ls_state l), ls_etag l) \<in> hh \<and> pending_ok w l"

lemma lease_ok_mono: "lease_ok w a l \<Longrightarrow> a \<subseteq> b \<Longrightarrow> lease_ok w b l"
  by (auto simp: lease_ok_def)

text \<open>An operation of a lease keeps the volume and the epoch it is for.\<close>

definition same_lease :: "Lease \<Rightarrow> Lease \<Rightarrow> bool" where
  "same_lease a b \<longleftrightarrow> s_Name (ls_state b) = s_Name (ls_state a) \<and> s_Epoch (ls_state b) = s_Epoch (ls_state a)"

lemma same_lease_refl [simp]: "same_lease l l"
  by (simp add: same_lease_def)

lemma same_lease_trans: "same_lease a b \<Longrightarrow> same_lease b c \<Longrightarrow> same_lease a c"
  by (simp add: same_lease_def)

section \<open>The steps of a holder\<close>

lemma same_volume_refl [simp]: "same_volume a a" and same_content_refl [simp]: "same_content a a" and same_owner_refl [simp]: "same_owner rec rec"
  by (simp_all add: same_volume_def same_content_def same_owner_def)

definition published :: "preparedManifestBundle option \<Rightarrow> State \<Rightarrow> State" where
  "published pb state = (case pb of None \<Rightarrow> state | Some b \<Rightarrow> applyManifestBundle state b)"

lemma published_simps [simp]:
  "s_Lease (published pb st) = s_Lease st" "s_Epoch (published pb st) = s_Epoch st" "s_Name (published pb st) = s_Name st"
  "Deleting (published pb st) = Deleting st" "s_Generation (published pb st) = s_Generation st" "s_Manifest (published pb st) = s_Manifest st"
  "Checkpoint (published pb st) = Checkpoint st" "s_Format (published pb st) = s_Format st" "s_ID (published pb st) = s_ID st"
  "s_Size (published pb st) = s_Size st" "s_BlockSize (published pb st) = s_BlockSize st" "Filesystem (published pb st) = Filesystem st"
  by (simp_all add: published_def applyManifestBundle_def split: option.splits)

lemma renewed_step: "s_Lease st \<noteq> None \<Longrightarrow> holder_step st (renewed r now (published pb st))"
  unfolding holder_step_def
  by (auto simp: renewed_def same_volume_def same_content_def same_owner_def intro!: hold)

lemma released_step: "s_Lease st \<noteq> None \<Longrightarrow> holder_step st ((published pb st)\<lparr>s_Lease := None\<rparr>)"
  unfolding holder_step_def by (auto simp: same_volume_def same_content_def intro!: release)

lemma candidate_step:
  assumes "s_Lease st \<noteq> None" "m_Generation (p_manifest prepared) = s_Generation st + 1"
  shows "holder_step st (manifest_candidate r now st prepared emb pb)"
proof -
  obtain rec where "s_Lease st = Some rec" using assms(1) by blast
  then show ?thesis
    unfolding holder_step_def manifest_candidate_def Let_def published_def [symmetric]
    by (auto simp: renewed_def same_volume_def next_generation_def same_owner_def assms(2) intro!: hold)
qed

section \<open>What the operations change\<close>

lemma pending_commit_state [simp]:
  "ls_state (pending_commit p c l) = pc_candidate p" "ls_etag (pending_commit p c l) = c" "ls_pending (pending_commit p c l) = ls_pending l"
  by (auto simp: pending_commit_def applyCommitLocked_def applyManifestCommitLocked_def Let_def split: option.splits)

lemma readyManifestBundleLocked_fields:
  assumes "readyManifestBundleLocked w l = (l', pb)"
  shows "ls_state l' = ls_state l \<and> ls_etag l' = ls_etag l \<and> ls_pending l' = ls_pending l \<and> ls_lost l' = ls_lost l"
  using assms by (auto simp: readyManifestBundleLocked_def split: option.splits if_splits)

lemma lease_ok_cong:
  "ls_state l' = ls_state l \<Longrightarrow> ls_etag l' = ls_etag l \<Longrightarrow> ls_pending l' = ls_pending l \<Longrightarrow> lease_ok w hh l' \<longleftrightarrow> lease_ok w hh l"
  by (simp add: lease_ok_def pending_ok_def)

lemma applyCommit_fields [simp]:
  "ls_state (applyCommitLocked b c pb l) = b" "ls_etag (applyCommitLocked b c pb l) = c" "ls_pending (applyCommitLocked b c pb l) = ls_pending l"
  "ls_lost (applyCommitLocked b c pb l) = ls_lost l" "ls_adopted (applyCommitLocked b c pb l) = ls_adopted l"
  by (auto simp: applyCommitLocked_def Let_def split: option.splits)

lemma applyManifestCommit_fields [simp]:
  "ls_state (applyManifestCommitLocked b c prepared pb l) = b" "ls_etag (applyManifestCommitLocked b c prepared pb l) = c"
  "ls_pending (applyManifestCommitLocked b c prepared pb l) = ls_pending l" "ls_lost (applyManifestCommitLocked b c prepared pb l) = ls_lost l"
  "ls_adopted (applyManifestCommitLocked b c prepared pb l) = None"
  by (auto simp: applyManifestCommitLocked_def Let_def)

lemma has_lease_cong: "ls_state l' = ls_state l \<Longrightarrow> ls_lost l' = ls_lost l \<Longrightarrow> has_lease l' = has_lease l"
  by (simp add: has_lease_def)

lemma startArchive_fields [simp]:
  "ls_state (startManifestBundleArchive w l) = ls_state l" "ls_etag (startManifestBundleArchive w l) = ls_etag l"
  "ls_pending (startManifestBundleArchive w l) = ls_pending l" "ls_lost (startManifestBundleArchive w l) = ls_lost l"
  "ls_adopted (startManifestBundleArchive w l) = ls_adopted l"
  by (auto simp: startManifestBundleArchive_def split: sum.splits option.splits)

text \<open>Lease fields that only steer bundles and plans may change.\<close>

definition touched :: "Lease \<Rightarrow> Lease \<Rightarrow> bool" where
  "touched l l' \<longleftrightarrow> ls_state l' = ls_state l \<and> ls_etag l' = ls_etag l \<and> ls_pending l' = ls_pending l \<and> ls_lost l' = ls_lost l \<and>
     ls_adopted l' = ls_adopted l"

lemma readyManifestBundle_touched: "touched l (fst (readyManifestBundle w snapshot l))"
  by (auto simp: touched_def readyManifestBundle_def readyManifestBundleLocked_def split: option.splits prod.splits)

lemma consumeAdopted_touched:
  assumes "consumeAdoptedPublishLocked segments l = (l', used)"
  shows "ls_state l' = ls_state l \<and> ls_etag l' = ls_etag l \<and> ls_pending l' = ls_pending l \<and> ls_lost l' = ls_lost l"
    "\<not> used \<Longrightarrow> l' = l" "used \<Longrightarrow> ls_adopted l' = None"
  using assms by (auto simp: consumeAdoptedPublishLocked_def split: option.splits if_splits)

lemma prepared_generation:
  "m_Generation (p_manifest (prepareManifest w st (delta_manifest st now segments))) = s_Generation st + 1"
  "m_Generation (p_manifest (prepareManifest w st (checkpoint_manifest st now refs))) = s_Generation st + 1"
  by (simp_all add: prepareManifest_def delta_manifest_def checkpoint_manifest_def Let_def)

text \<open>The ways a publication can go.\<close>

lemma publishPrepared_cases:
  assumes "publishPrepared w r now snapshot prepared segments pb archive l s = (l', s', res)"
  obtains e where "touched l l'" "s' = s" "res = Inl e"
  | pb2 archive2 e where "touched l l'" "publish_objects r snapshot prepared segments pb2 archive2 s = (s', Inl e)" "res = Inl e"
  | l1 pb1 pb2 emb archive2 s1 l2 where "touched l l1" "placement w snapshot prepared pb1 archive = Inr (pb2, emb, archive2)"
      "publish_objects r snapshot prepared segments pb2 archive2 s = (s1, Inr ())"
      "commitManifest w r now snapshot prepared emb pb2 l1 s1 = (l2, s', res)" "touched l2 l'"
proof -
  obtain l1 pb1 where 1: "(if pb = None \<and> \<not> archive then readyManifestBundle w snapshot l else (l, pb)) = (l1, pb1)" by fastforce
  have t: "touched l l1"
    using 1 readyManifestBundle_touched [of l w snapshot] by (auto simp: touched_def split: if_splits)
  note pub = assms [unfolded publishPrepared_def 1 prod.case]
  show ?thesis
  proof (cases "placement w snapshot prepared pb1 archive")
    case (Inl e)
    then show ?thesis using that(1) t pub by auto
  next
    case Inr': (Inr p)
    obtain pb2 emb archive2 where p: "p = (pb2, emb, archive2)" by (cases p) auto
    obtain s1 r1 where o: "publish_objects r snapshot prepared segments pb2 archive2 s = (s1, r1)" by fastforce
    obtain l2 s2 r2 where c: "commitManifest w r now snapshot prepared emb pb2 l1 s1 = (l2, s2, r2)"
      by (cases "commitManifest w r now snapshot prepared emb pb2 l1 s1") auto
    show ?thesis
    proof (cases r1)
      case (Inl e)
      then show ?thesis using that(2) t pub Inr' p o by auto
    next
      case r1: (Inr u)
      have "s' = s2" "res = r2" "touched l2 l'"
        using pub Inr' p o r1 c by (cases r2; auto simp: touched_def)+
      then show ?thesis using that(3) [OF t] Inr' p o r1 c by simp
    qed
  qed
qed

lemma Publish_cases:
  assumes "Publish w r now segments l s = (l', s', res)"
  obtains "l' = l" "s' = s" "\<exists>e. res = Inl e"
  | l1 s1 r1 where "resolvePending r l s = (l1, s1, r1)" "l' = l1" "s' = s1" "\<exists>e. res = Inl e"
      "is_ok r1 \<Longrightarrow> has_lease l1 \<Longrightarrow> \<not> snd (consumeAdoptedPublishLocked segments l1)"
  | l1 s1 l2 where "resolvePending r l s = (l1, s1, Inr ())" "has_lease l1" "consumeAdoptedPublishLocked segments l1 = (l2, True)"
      "renewLocked w r now l2 s1 = (l', s')" "res = Inr ()"
  | l1 s1 where "resolvePending r l s = (l1, s1, Inr ())" "has_lease l1" "consumeAdoptedPublishLocked segments l1 = (l1, False)"
      "check_generation (ls_state l1) segments = Inr ()"
      "publishPrepared w r now (ls_state l1) (prepareManifest w (ls_state l1) (delta_manifest (ls_state l1) now segments))
         segments None False l1 s1 = (l', s', res)"
proof -
  obtain l1 s1 r1 where 1: "resolvePending r l s = (l1, s1, r1)" by (cases "resolvePending r l s") auto
  obtain l2 used where 2: "consumeAdoptedPublishLocked segments l1 = (l2, used)" by fastforce
  note pub = assms [unfolded Publish_def 1 prod.case]
  show ?thesis
  proof (cases "segments = [] \<or> \<not> list_all (segment_matches_data w) segments")
    case True
    then show ?thesis using pub that(1) by (auto split: if_splits)
  next
    case valid: False
    show ?thesis
    proof (cases "is_ok r1 \<and> has_lease l1")
      case False
      then show ?thesis using pub valid that(2) [OF 1] by (cases r1) auto
    next
      case True
      then have r1: "r1 = Inr ()" by (cases r1) auto
      note pub = pub [unfolded r1 sum.case 2 prod.case]
      show ?thesis
      proof (cases used)
        case used: True
        then show ?thesis using pub valid True that(3) 1 2 r1 by (auto split: prod.splits)
      next
        case False
        then have eq: "l2 = l1" using consumeAdopted_touched(2) [OF 2] by simp
        have "(case check_generation (ls_state l1) segments of Inl e \<Rightarrow> (l1, s1, Inl e)
            | Inr _ \<Rightarrow> publishPrepared w r now (ls_state l1) (prepareManifest w (ls_state l1) (delta_manifest (ls_state l1) now segments))
                segments None False l1 s1) = (l', s', res)"
          using pub valid True False unfolding eq by (simp add: Let_def)
        then consider e where "(l1, s1, Inl e) = (l', s', res)"
          | "check_generation (ls_state l1) segments = Inr ()" "publishPrepared w r now (ls_state l1)
              (prepareManifest w (ls_state l1) (delta_manifest (ls_state l1) now segments)) segments None False l1 s1 = (l', s', res)"
          by (simp split: sum.splits; blast)
        then show ?thesis using that(2) [OF 1] that(4) [of l1 s1] 1 2 r1 True False eq by cases auto
      qed
    qed
  qed
qed

section \<open>Operations on the head\<close>

definition lease_outcome ::
  "('s \<Rightarrow> string \<rightharpoonup> bytes \<times> string) \<Rightarrow> ('s \<Rightarrow> (string \<times> bytes \<times> string) set) \<Rightarrow> ('s \<Rightarrow> bool) \<Rightarrow> wire \<Rightarrow>
     Lease \<Rightarrow> 's \<Rightarrow> Lease \<Rightarrow> 's \<Rightarrow> bool" where
  "lease_outcome hcur hhist hinv w l s l' s' \<longleftrightarrow> hinv s' \<and> lease_ok w (hhist s') l' \<and> same_lease l l' \<and>
     client_run hcur hhist hinv (lease_write w (s_Name (ls_state l)) (s_Epoch (ls_state l))) s s'"

lemma lease_outcome_trans:
  "lease_outcome hcur hhist hinv w a s b t \<Longrightarrow> lease_outcome hcur hhist hinv w b t c u \<Longrightarrow> lease_outcome hcur hhist hinv w a s c u"
  using client_run_trans same_lease_trans by (fastforce simp: lease_outcome_def same_lease_def)

context volume_head
begin

abbreviation "ok w \<equiv> lease_outcome hcur hhist hinv w"

lemma ok_others:
  assumes "lease_ok w (hhist s) l'" "same_lease l l'" "hlater hhist hinv s s'"
  shows "ok w l s l' s'"
  using assms lease_ok_mono client_run_others [OF assms(3)] by (auto simp: lease_outcome_def hlater_def)

lemma ok_inv: "ok w l s l' s' \<Longrightarrow> hinv s' \<and> lease_ok w (hhist s') l'"
  by (simp add: lease_outcome_def)

lemma ok_refl: "hinv s \<Longrightarrow> lease_ok w (hhist s) l \<Longrightarrow> ok w l s l s"
  by (rule ok_others) (auto intro: hlater_refl)

lemma commit_run:
  assumes "hinv s" "hd_commit h name (marshalState w b) c b' s = (s', r)" "(name, marshalState w a, c) \<in> hhist s" "holder_step a b"
  shows "client_run hcur hhist hinv (lease_write w name (s_Epoch a)) s s'"
proof -
  obtain s0 where s0: "hlater hhist hinv s s0" "hinv s'"
      "same_heads hcur hhist s0 s' \<or> hcur s0 name = Some (marshalState w a, c) \<and> (\<exists>c'. installed hcur hhist name (marshalState w b) c' s0 s')"
    using commit_replaces [OF assms(1-3)] by blast
  have "lease_write w name (s_Epoch a) name (Some (marshalState w a, c)) (marshalState w b)"
    using assms(4) by (auto simp: lease_write_def holder_step_def)
  then show ?thesis
    using s0 client_run.own_write [OF client_run_others [OF s0(1)], where own = "lease_write w name (s_Epoch a)" and name = name]
      client_run_others [of hhist hinv s s'] by (auto simp: same_heads_def hlater_def)
qed

lemma commitState_run:
  assumes "hinv s" "lease_ok w (hhist s) l" "holder_step (ls_state l) b" "RHead r = h"
    "commitState r l (marshalState w b) b s = (s', res)"
  shows "hinv s' \<and> hhist s \<subseteq> hhist s' \<and>
    client_run hcur hhist hinv (lease_write w (s_Name (ls_state l)) (s_Epoch (ls_state l))) s s' \<and>
    (\<forall>c. res = Inr c \<longrightarrow> (s_Name (ls_state l), marshalState w b, c) \<in> hhist s')"
proof -
  let ?name = "s_Name (ls_state l)"
  obtain s1 r1 where c: "hd_commit h ?name (marshalState w b) (ls_etag l) b s = (s1, r1)" by fastforce
  have run: "client_run hcur hhist hinv (lease_write w ?name (s_Epoch (ls_state l))) s s1"
    using assms(2,3) by (intro commit_run [OF assms(1) c]) (auto simp: lease_ok_def)
  have s1: "hinv s1" "hhist s \<subseteq> hhist s1" using commit_later [OF assms(1) c] by (auto simp: hlater_def)
  show ?thesis
  proof (cases r1)
    case (Inr c')
    then have "s' = s1" "res = Inr c'" using assms(5) c by (simp_all add: commitState_def assms(4))
    then show ?thesis using s1 run commit_hist [OF assms(1)] c Inr by simp
  next
    case (Inl e)
    obtain got where g: "hd_read h ?name s1 = (s', got)" "\<And>c. res = Inr c \<Longrightarrow> got = Inr (marshalState w b, c)"
      using assms(5) c Inl by (auto simp: commitState_def assms(4) split: prod.splits sum.splits if_splits)
    have "hlater hhist hinv s1 s'" using read_later [OF s1(1) g(1)] .
    then show ?thesis
      using s1 client_run.others [OF run] read_hist [OF s1(1)] g by (auto simp: hlater_def)
  qed
qed

text \<open>A commit in doubt is settled by reading the head.\<close>

lemma resolvePending_ok:
  assumes "hinv s" "lease_ok w (hhist s) l" "RHead r = h" "resolvePending r l s = (l', s', res)"
  shows "ok w l s l' s'" "res = Inr () \<Longrightarrow> ls_pending l' = None \<or> \<not> has_lease l'"
proof -
  have "ok w l s l' s' \<and> (res = Inr () \<longrightarrow> ls_pending l' = None \<or> \<not> has_lease l')"
  proof (cases "ls_pending l")
    case None
    then show ?thesis using assms ok_refl by (simp add: resolvePending_def)
  next
    case (Some p)
    show ?thesis
    proof (cases "has_lease l")
      case False
      then show ?thesis using assms Some ok_refl by (simp add: resolvePending_def)
    next
      case True
      obtain got where g: "hd_read h (s_Name (ls_state l)) s = (s', got)"
        using assms(4) Some True by (auto simp: resolvePending_def assms(3) Let_def split: prod.splits sum.splits if_splits)
      have later: "hlater hhist hinv s s'" using read_later [OF assms(1) g] .
      have p: "pc_body p = marshalState w (pc_candidate p)" "s_Name (pc_candidate p) = s_Name (ls_state l)" "s_Epoch (pc_candidate p) = s_Epoch (ls_state l)"
        using assms(2) Some by (auto simp: lease_ok_def pending_ok_def holder_step_def)
      have base: "lease_ok w (hhist s') l" using assms(2) later by (auto intro: lease_ok_mono simp: hlater_def)
      have "lease_ok w (hhist s') l' \<and> same_lease l l' \<and> (res = Inr () \<longrightarrow> ls_pending l' = None \<or> \<not> has_lease l')"
      proof (cases got)
        case (Inl e)
        then show ?thesis using assms(4) Some True g base by (auto simp: resolvePending_def assms(3))
      next
        case (Inr bc)
        obtain b c where bc: "bc = (b, c)" by fastforce
        show ?thesis
        proof (cases "b = pc_body p")
          case False
          then show ?thesis using assms(4) Some True g base Inr bc
            by (auto simp: resolvePending_def assms(3) lease_ok_def pending_ok_def same_lease_def)
        next
          case True
          then have "(s_Name (ls_state l), marshalState w (pc_candidate p), c) \<in> hhist s'"
            using read_hist [OF assms(1)] g Inr bc p(1) by simp
          moreover have "ls_state l' = pc_candidate p" "ls_etag l' = c" "ls_pending l' = None"
            using assms(4) Some \<open>has_lease l\<close> g Inr bc True
            by (auto simp: resolvePending_def assms(3) Let_def split: option.splits)
          ultimately show ?thesis using p by (simp add: lease_ok_def pending_ok_def same_lease_def)
        qed
      qed
      then show ?thesis using later client_run_others [OF later] by (auto simp: lease_outcome_def hlater_def)
    qed
  qed
  then show "ok w l s l' s'" "res = Inr () \<Longrightarrow> ls_pending l' = None \<or> \<not> has_lease l'" by auto
qed

text \<open>A commit that succeeded, and one that failed or is in doubt.\<close>

lemma commit_done_ok:
  assumes "hinv s" "lease_ok w (hhist s) l" "holder_step (ls_state l) b" "RHead r = h"
    "commitState r l (marshalState w b) b s = (s', Inr c)" "ls_state l' = b" "ls_etag l' = c" "ls_pending l' = None"
  shows "ok w l s l' s'"
  using commitState_run [OF assms(1-5)] assms(3,6-8)
  by (auto simp: lease_outcome_def lease_ok_def pending_ok_def same_lease_def holder_step_def)

lemma commit_failed_ok:
  assumes "hinv s" "lease_ok w (hhist s) l" "holder_step (ls_state l) b" "RHead r = h"
    "commitState r l (marshalState w b) b s = (s', Inl e)" "ls_state l' = ls_state l" "ls_etag l' = ls_etag l"
    "ls_pending l' = None \<or> (\<exists>p. ls_pending l' = Some p \<and> pc_body p = marshalState w b \<and> pc_candidate p = b)"
  shows "ok w l s l' s'"
  using commitState_run [OF assms(1-5)] assms(2,3,6-8)
  by (auto simp: lease_outcome_def lease_ok_def pending_ok_def same_lease_def)

lemma update_ok:
  assumes "hinv s" "lease_ok w (hhist s) l" "RHead r = h" "update w r mutate l s = (l', s', res)"
    and mutate: "\<And>st pb. s_Lease st \<noteq> None \<Longrightarrow> holder_step st (mutate (published pb st))"
  shows "ok w l s l' s'"
proof -
  obtain l1 s1 r1 where res1: "resolvePending r l s = (l1, s1, r1)" by (cases "resolvePending r l s") auto
  have ok1: "ok w l s l1 s1" using resolvePending_ok(1) [OF assms(1-3) res1] .
  then have s1: "hinv s1" "lease_ok w (hhist s1) l1" by (simp_all add: lease_outcome_def)
  show ?thesis
  proof (cases "is_ok r1 \<and> has_lease l1")
    case False
    then have "l' = l1" "s' = s1" using assms(4) res1 by (auto simp: update_def split: sum.splits if_splits)
    then show ?thesis using ok1 by simp
  next
    case True
    then have pend: "ls_pending l1 = None" using resolvePending_ok(2) [OF assms(1-3) res1] by (cases r1) auto
    have held: "s_Lease (ls_state l1) \<noteq> None" using True by (simp add: has_lease_def)
    obtain l2 pb where ready: "readyManifestBundleLocked w l1 = (l2, pb)" by fastforce
    note f = readyManifestBundleLocked_fields [OF ready]
    define b where "b = mutate (published pb (ls_state l2))"
    have step: "holder_step (ls_state l2) b" using mutate [OF held] f by (simp add: b_def)
    have l2: "lease_ok w (hhist s1) l2" using lease_ok_cong [of l2 l1] f s1(2) by simp
    obtain s2 r2 where c: "commitState r l2 (marshalState w b) b s1 = (s2, r2)" by fastforce
    have r1: "r1 = Inr ()" using True by (cases r1) auto
    have upd: "(l', s', res) = (case r2 of Inr etag \<Rightarrow> (applyCommitLocked b etag pb l2, s2, Inr ())
        | Inl e \<Rightarrow> if errors_Is e ErrPreconditionFailed then (l2\<lparr>ls_lost := True\<rparr>, s2, Inl ErrLeaseLost)
            else (l2\<lparr>ls_pending := Some \<lparr>pc_body = marshalState w b, pc_candidate = b, pc_bundle = pb, pc_prepared = None\<rparr>\<rparr>, s2, Inl e))"
      using assms(4) True c by (cases r2) (auto simp: update_def res1 r1 ready Let_def published_def [symmetric] b_def [symmetric] split: if_splits)
    have "ok w l2 s1 l' s'"
    proof (cases r2)
      case (Inr c')
      then show ?thesis using commit_done_ok [OF s1(1) l2 step assms(3)] c f pend upd by simp
    next
      case (Inl e)
      then show ?thesis using commit_failed_ok [OF s1(1) l2 step assms(3), of s2 e l'] c f pend upd by (simp split: if_splits)
    qed
    moreover have "ok w l1 s1 l2 s1" using ok_others [OF l2 _ hlater_refl [OF s1(1)]] f by (simp add: same_lease_def)
    ultimately show ?thesis using lease_outcome_trans [OF ok1 lease_outcome_trans] by simp
  qed
qed

lemma renewLocked_ok:
  assumes "hinv s" "lease_ok w (hhist s) l" "RHead r = h" "ls_pending l = None" "renewLocked w r now l s = (l', s')"
  shows "ok w l s l' s'"
proof (cases "(l', s') = (l, s)")
  case True
  then show ?thesis using ok_refl assms(1,2) by simp
next
  case False
  let ?b = "renewed r now (ls_state l)"
  have held: "s_Lease (ls_state l) \<noteq> None" using False assms(5) by (auto simp: renewLocked_def split: option.splits)
  have step: "holder_step (ls_state l) ?b" using renewed_step [OF held, of r now None] by (simp add: published_def)
  obtain r2 where c: "commitState r l (marshalState w ?b) ?b s = (s', r2)"
    using False assms(5) by (cases "commitState r l (marshalState w ?b) ?b s") (auto simp: renewLocked_def Let_def split: option.splits sum.splits if_splits)
  show ?thesis
  proof (cases r2)
    case (Inr c')
    then have "l' = applyCommitLocked ?b c' None l"
      using False assms(5) c by (auto simp: renewLocked_def Let_def split: option.splits if_splits)
    then show ?thesis using commit_done_ok [OF assms(1,2) step assms(3)] c Inr assms(4) by simp
  next
    case (Inl e)
    then have "l' = l \<or> l' = l\<lparr>ls_lost := True\<rparr>"
      using False assms(5) c by (auto simp: renewLocked_def Let_def split: option.splits if_splits)
    then show ?thesis using commit_failed_ok [OF assms(1,2) step assms(3), of s' e l'] c Inl assms(4) by auto
  qed
qed

lemma commitManifest_ok:
  assumes "hinv s" "lease_ok w (hhist s) l" "RHead r = h" "m_Generation (p_manifest prepared) = s_Generation snapshot + 1"
    "commitManifest w r now snapshot prepared emb pb l s = (l', s', res)"
  shows "ok w l s l' s'"
proof -
  obtain l1 s1 r1 where res1: "resolvePending r l s = (l1, s1, r1)" by (cases "resolvePending r l s") auto
  have ok1: "ok w l s l1 s1" using resolvePending_ok(1) [OF assms(1-3) res1] .
  then have s1: "hinv s1" "lease_ok w (hhist s1) l1" by (simp_all add: lease_outcome_def)
  have pend: "ls_pending l1 = None" if "r1 = Inr ()" "has_lease l1"
    using resolvePending_ok(2) [OF assms(1-3) res1] that by auto
  let ?adopted = "case ls_adopted l1 of None \<Rightarrow> False | Some m \<Rightarrow> sameLogicalManifest m (p_manifest prepared)"
  let ?moved = "s_Generation (ls_state l1) \<noteq> s_Generation snapshot \<or> s_Manifest (ls_state l1) \<noteq> s_Manifest snapshot \<or>
                  s_Epoch (ls_state l1) \<noteq> s_Epoch snapshot"
  let ?stale = "case pb of None \<Rightarrow> False | Some b \<Rightarrow> \<not> manifestBundleApplies w (ls_state l1) b"
  let ?b = "manifest_candidate r now (ls_state l1) prepared emb pb"
  note commit = assms(5) [unfolded commitManifest_def res1]
  consider (early) "l' = l1" "s' = s1" | (adopted) "r1 = Inr ()" "has_lease l1" "?adopted"
    | (fresh) "r1 = Inr ()" "has_lease l1" "\<not> ?adopted" "\<not> ?moved" "\<not> ?stale"
    using commit by (cases r1) (auto split: if_splits)
  then have "ok w l1 s1 l' s'"
  proof cases
    case early
    then show ?thesis using ok_refl s1 by simp
  next
    case adopted
    then have "renewLocked w r now (l1\<lparr>ls_adopted := None\<rparr>) s1 = (l', s')"
      using commit by (auto split: prod.splits if_splits)
    moreover have "lease_ok w (hhist s1) (l1\<lparr>ls_adopted := None\<rparr>)" using s1(2) by (simp add: lease_ok_def pending_ok_def)
    ultimately show ?thesis
      using renewLocked_ok [OF s1(1) _ assms(3)] pend [OF adopted(1,2)] by (fastforce simp: lease_outcome_def same_lease_def)
  next
    case fresh
    have step: "holder_step (ls_state l1) ?b"
      using fresh(2,4) assms(4) by (intro candidate_step) (auto simp: has_lease_def)
    obtain r2 where c: "commitState r l1 (marshalState w ?b) ?b s1 = (s', r2)"
      using commit fresh by (cases "commitState r l1 (marshalState w ?b) ?b s1") (auto simp: Let_def split: sum.splits if_splits)
    show ?thesis
    proof (cases r2)
      case (Inr c')
      then have "l' = applyManifestCommitLocked ?b c' prepared pb l1" using commit fresh c by (auto simp: Let_def)
      then show ?thesis using commit_done_ok [OF s1 step assms(3)] c Inr pend [OF fresh(1,2)] by simp
    next
      case (Inl e)
      then have "l' = l1\<lparr>ls_lost := True\<rparr> \<or>
          l' = l1\<lparr>ls_pending := Some \<lparr>pc_body = marshalState w ?b, pc_candidate = ?b, pc_bundle = pb, pc_prepared = Some prepared\<rparr>\<rparr>"
        using commit fresh c by (auto simp: Let_def split: if_splits)
      then show ?thesis using commit_failed_ok [OF s1 step assms(3), of s' e l'] c Inl pend [OF fresh(1,2)] by auto
    qed
  qed
  with ok1 show ?thesis by (rule lease_outcome_trans)
qed

end

section \<open>A lease on a shared store\<close>

text \<open>The service a lease works with: a head, and a store for objects whose uses leave every
  version of the head in place.\<close>

locale lease_service = volume_head "RHead r" hcur hhist hinv
  for r :: "'s Remote" and hcur hhist hinv +
  assumes put_later: "hinv s \<Longrightarrow> st_PutIfAbsent (Store r) key data s = (s', put) \<Longrightarrow> hlater hhist hinv s s'"
    and get_later: "hinv s \<Longrightarrow> st_Get (Store r) key s = (s', got) \<Longrightarrow> hlater hhist hinv s s'"
begin

lemma put_immutable_later:
  assumes "hinv s" "put_immutable (Store r) key data failure conflict s = (s', res)"
  shows "hlater hhist hinv s s'"
proof -
  obtain s1 r1 where p: "st_PutIfAbsent (Store r) key data s = (s1, r1)" by fastforce
  have l1: "hlater hhist hinv s s1" using put_later [OF assms(1) p] .
  have "s' = s1 \<or> (\<exists>got. st_Get (Store r) key s1 = (s', got))"
    using assms(2) p by (auto simp: put_immutable_def split: sum.splits if_splits prod.splits)
  then show ?thesis
  proof
    assume "\<exists>got. st_Get (Store r) key s1 = (s', got)"
    then obtain got where "st_Get (Store r) key s1 = (s', got)" by blast
    moreover have "hinv s1" using l1 by (simp add: hlater_def)
    ultimately have "hlater hhist hinv s1 s'" using get_later by blast
    then show ?thesis by (rule hlater_trans [OF l1])
  qed (use l1 in simp)
qed

lemma uploadSegments_later:
  assumes "hinv s" "uploadSegments r snapshot segments s = (s', res)"
  shows "hlater hhist hinv s s'"
  using assms
proof (induction segments arbitrary: s res)
  case Nil
  then show ?case by (simp add: hlater_refl)
next
  case (Cons segment segments)
  obtain s1 r1 where u: "uploadSegment r snapshot segment s = (s1, r1)" by fastforce
  have l1: "hlater hhist hinv s s1"
    using u put_immutable_later [OF Cons.prems(1)] hlater_refl [OF Cons.prems(1)]
    by (auto simp: uploadSegment_def Let_def split: prod.splits sum.splits if_splits)
  then have "hinv s1" by (simp add: hlater_def)
  then have "hlater hhist hinv s1 s'" if "uploadSegments r snapshot segments s1 = (s', res')" for res'
    using Cons.IH that by blast
  then show ?case
    using Cons.prems(2) u l1 by (auto split: sum.splits prod.splits intro: hlater_trans)
qed

lemma touched_ok: "hinv s \<Longrightarrow> lease_ok w (hhist s) l \<Longrightarrow> touched l l' \<Longrightarrow> ok w l s l' s"
  using ok_others [of w s l' l s] lease_ok_cong [of l' l] hlater_refl by (simp add: touched_def same_lease_def)

lemma publish_objects_later:
  assumes "hinv s" "publish_objects r snapshot prepared segments pb archive s = (s', res)"
  shows "hlater hhist hinv s s'"
proof -
  obtain s1 r1 where u: "(if segments = [] then (s, Inr []) else uploadSegments r snapshot segments s) = (s1, r1)" by fastforce
  have l1: "hlater hhist hinv s s1"
    using u uploadSegments_later [OF assms(1)] hlater_refl [OF assms(1)] by (auto split: if_splits)
  then have s1: "hinv s1" by (simp add: hlater_def)
  obtain s2 r2 where b: "(case pb of None \<Rightarrow> (s1, Inr ()) | Some b \<Rightarrow> if uploaded b then (s1, Inr ()) else uploadManifestBundle r b s1) = (s2, r2)"
    by fastforce
  have l2: "hlater hhist hinv s1 s2"
    using b put_immutable_later [OF s1] hlater_refl [OF s1] by (auto simp: uploadManifestBundle_def split: option.splits if_splits)
  then have s2: "hinv s2" by (simp add: hlater_def)
  have "s' = s1 \<or> s' = s2 \<or> hlater hhist hinv s2 s'"
    using assms(2) [unfolded publish_objects_def u prod.case] b put_immutable_later [OF s2]
    by (cases r1; cases r2) (auto simp: uploadManifest_def split: if_splits)
  then show ?thesis using l1 hlater_trans [OF l1 l2] hlater_trans by blast
qed

lemma publishPrepared_ok:
  assumes "hinv s" "lease_ok w (hhist s) l" "m_Generation (p_manifest prepared) = s_Generation snapshot + 1"
    "publishPrepared w r now snapshot prepared segments pb archive l s = (l', s', res)"
  shows "ok w l s l' s'"
  using assms(4)
proof (cases rule: publishPrepared_cases)
  case (1 e)
  then show ?thesis using touched_ok assms(1,2) by simp
next
  case (2 pb2 archive2 e)
  then show ?thesis
    using ok_others [OF _ _ publish_objects_later [OF assms(1) 2(2)], of w l' l] assms(2) lease_ok_cong [of l' l] by (simp add: touched_def same_lease_def)
next
  case (3 l1 pb1 pb2 emb archive2 s1 l2)
  have a: "ok w l s l1 s1"
    using ok_others [OF _ _ publish_objects_later [OF assms(1) 3(3)], of w l1 l] assms(2) lease_ok_cong [of l1 l] 3(1) by (simp add: touched_def same_lease_def)
  then have "ok w l1 s1 l2 s'" using commitManifest_ok [OF _ _ refl assms(3) 3(4)] by (simp add: lease_outcome_def)
  moreover from ok_inv [OF this] have "ok w l2 s' l' s'" using touched_ok [OF _ _ 3(5)] by simp
  ultimately show ?thesis using lease_outcome_trans [OF a lease_outcome_trans] by simp
qed

lemma Publish_ok:
  assumes "hinv s" "lease_ok w (hhist s) l" "Publish w r now segments l s = (l', s', res)"
  shows "ok w l s l' s'"
  using assms(3)
proof (cases rule: Publish_cases)
  case 1
  then show ?thesis using ok_refl [OF assms(1,2)] by simp
next
  case (2 l1 s1 r1)
  then show ?thesis using resolvePending_ok(1) [OF assms(1,2) refl] by simp
next
  case (3 l1 s1 l2)
  have a: "ok w l s l1 s1" using resolvePending_ok(1) [OF assms(1,2) refl 3(1)] .
  have p: "ls_pending l1 = None" using resolvePending_ok(2) [OF assms(1,2) refl 3(1)] 3(2) by simp
  note f = consumeAdopted_touched(1) [OF 3(3)]
  have l2: "lease_ok w (hhist s1) l2" using ok_inv [OF a] lease_ok_cong [of l2 l1] f by simp
  have b: "ok w l1 s1 l2 s1" using ok_others [OF l2 _ hlater_refl] f ok_inv [OF a] by (simp add: same_lease_def)
  have "ok w l2 s1 l' s'" using renewLocked_ok [OF _ l2 refl _ 3(4)] f p ok_inv [OF a] by simp
  then show ?thesis using lease_outcome_trans [OF a lease_outcome_trans [OF b]] by simp
next
  case (4 l1 s1)
  have a: "ok w l s l1 s1" using resolvePending_ok(1) [OF assms(1,2) refl 4(1)] .
  have "ok w l1 s1 l' s'" using publishPrepared_ok [OF _ _ prepared_generation(1) 4(5)] ok_inv [OF a] by simp
  then show ?thesis by (rule lease_outcome_trans [OF a])
qed

lemma PublishCheckpoint_ok:
  assumes "hinv s" "lease_ok w (hhist s) l" "PublishCheckpoint w r get now l s = (l', s', res)"
  shows "ok w l s l' s'"
  using assms(3) ok_refl [OF assms(1,2)] publishPrepared_ok [OF assms(1,2) prepared_generation(2)]
  by (auto simp: PublishCheckpoint_def Let_def split: if_splits sum.splits prod.splits)

lemma finishArchive_ok:
  assumes "hinv s" "lease_ok w (hhist s) l" "finishManifestBundleArchive w r l s = (l', s')"
  shows "ok w l s l' s'"
proof (cases "ls_inFlight l")
  case None
  then show ?thesis using assms ok_refl by (simp add: finishManifestBundleArchive_def)
next
  case (Some pb)
  obtain res where u: "uploadManifestBundle r pb s = (s', res)" and t: "touched l l'"
    using assms(3) Some by (cases "uploadManifestBundle r pb s") (auto simp: finishManifestBundleArchive_def touched_def Let_def)
  have "hlater hhist hinv s s'" using u put_immutable_later [OF assms(1)] by (simp add: uploadManifestBundle_def)
  then show ?thesis using ok_others [of w s l' l s'] assms(2) lease_ok_cong [of l' l] t by (simp add: touched_def same_lease_def)
qed

lemma Renew_ok:
  assumes "hinv s" "lease_ok w (hhist s) l" "Renew w r now l s = (l', s', res)"
  shows "ok w l s l' s'"
  by (rule update_ok [OF assms(1,2) refl assms(3) [unfolded Renew_def] renewed_step])

lemma Release_ok:
  assumes "hinv s" "lease_ok w (hhist s) l" "Lease_Release w r waits l s = (l', s', res)"
  shows "ok w l s l' s'"
proof (cases "ls_inFlight l \<noteq> None \<and> \<not> is_ok waits")
  case True
  then show ?thesis using assms ok_refl by (simp add: Lease_Release_def)
next
  case False
  obtain l1 s1 where f: "finishManifestBundleArchive w r l s = (l1, s1)" by fastforce
  have a: "ok w l s l1 s1" using finishArchive_ok [OF assms(1,2) f] .
  have u: "update w r (\<lambda>state. state\<lparr>s_Lease := None\<rparr>) l1 s1 = (l', s', res)"
    using assms(3) False f by (auto simp: Lease_Release_def split: if_splits)
  have "ok w l1 s1 l' s'" using update_ok [OF _ _ refl u released_step] ok_inv [OF a] by simp
  then show ?thesis by (rule lease_outcome_trans [OF a])
qed

end

section \<open>Taking and breaking a lease\<close>

text \<open>The writes of an operation that inspects the volume first.\<close>

definition inspected_write :: "wire \<Rightarrow> (State option \<Rightarrow> State \<Rightarrow> bool) \<Rightarrow> string \<Rightarrow> string \<Rightarrow> (bytes \<times> string) option \<Rightarrow> bytes \<Rightarrow> bool" where
  "inspected_write w allowed vol name old body \<longleftrightarrow> name = vol \<and> (\<exists>b. body = marshalState w b \<and>
     (case old of None \<Rightarrow> allowed None b | Some (was, c) \<Rightarrow> (\<exists>a. unmarshalState w was = Inr a \<and> allowed (Some a) b)))"

definition broken :: "State \<Rightarrow> State" where
  "broken a = a\<lparr>s_Lease := None, s_Epoch := s_Epoch a + 1\<rparr>"

text \<open>What \<open>Break\<close> may do: break a held lease, the expected one if one is named.\<close>

definition may_break :: "string \<Rightarrow> State option \<Rightarrow> State \<Rightarrow> bool" where
  "may_break expected old st \<longleftrightarrow> (\<exists>a rec. old = Some a \<and> s_Lease a = Some rec \<and> (expected = [] \<or> Token rec = expected) \<and> st = broken a)"

lemma broken_step: "may_break expected old st \<Longrightarrow> head_step old st"
  by (auto simp: may_break_def broken_def same_volume_def same_content_def intro!: head_step.break)

text \<open>What may be taken: an absent volume (which is created), or one nobody holds any more.\<close>

definition acquirable :: "wire \<Rightarrow> string \<Rightarrow> int \<Rightarrow> bool \<Rightarrow> State \<Rightarrow> bool" where
  "acquirable w name now created base \<longleftrightarrow>
     (if created then s_Generation base = 0 \<and> s_Epoch base = 0 \<and> s_Manifest base = []
      else validateState w name base = Inr () \<and> \<not> Deleting base \<and> (\<forall>held. s_Lease base = Some held \<longrightarrow> ExpiresAt held \<le> now))"

lemma acquire_step:
  assumes "acquire_base name now uuid opts found = Inr (base, etag, created)"
  shows "if created then etag = [] \<and> head_step None (acquire_candidate r now holder token base)
    else found = Inr (base, etag) \<and> head_step (Some base) (acquire_candidate r now holder token base)"
proof (cases found)
  case (Inl e)
  then show ?thesis
    using assms by (auto simp: acquire_base_def acquire_candidate_def Let_def split: if_splits intro!: create)
next
  case (Inr found')
  then obtain c where f: "found = Inr (base, c)" "etag = c" "\<not> created" "\<not> Deleting base"
      "\<And>held. s_Lease base = Some held \<Longrightarrow> \<not> ExpiresAt held > now"
    using assms by (cases found') (auto simp: acquire_base_def split: if_splits option.splits)
  have "head_step (Some base) (acquire_candidate r now holder token base)"
    using f(4,5) by (intro take) (auto simp: acquire_candidate_def Let_def same_volume_def same_content_def)
  then show ?thesis using f by simp
qed

context lease_service
begin

lemma Inspect_hist:
  assumes "hinv s" "Inspect w r name s = (s', res)"
  shows "hlater hhist hinv s s'"
    "res = Inr (a, c) \<Longrightarrow> \<exists>was. (name, was, c) \<in> hhist s' \<and> unmarshalState w was = Inr a \<and> validateState w name a = Inr ()"
proof -
  obtain got where g: "hd_read (RHead r) name s = (s', got)"
    using assms(2) by (auto simp: Inspect_def split: prod.splits sum.splits)
  show "hlater hhist hinv s s'" using read_later [OF assms(1) g] .
  show "\<exists>was. (name, was, c) \<in> hhist s' \<and> unmarshalState w was = Inr a \<and> validateState w name a = Inr ()" if ok: "res = Inr (a, c)"
  proof -
    obtain was where "got = Inr (was, c)" "unmarshalState w was = Inr a" "validateState w name a = Inr ()"
      using assms(2) g ok by (auto simp: Inspect_def split: sum.splits)
    then show ?thesis using read_hist [OF assms(1)] g by blast
  qed
qed

lemma inspected_commit_run:
  assumes "hinv s" "hd_commit (RHead r) name (marshalState w b) c b' s = (s', res)"
    "c = [] \<and> allowed None b \<or> (\<exists>was a. (name, was, c) \<in> hhist s \<and> unmarshalState w was = Inr a \<and> allowed (Some a) b)"
  shows "client_run hcur hhist hinv (inspected_write w allowed name) s s'"
proof -
  let ?own = "inspected_write w allowed name"
  obtain s0 where s0: "hlater hhist hinv s s0" "hinv s'"
      and e: "same_heads hcur hhist s0 s' \<or> ?own name (hcur s0 name) (marshalState w b) \<and> (\<exists>c'. installed hcur hhist name (marshalState w b) c' s0 s')"
    using assms(3)
  proof (elim disjE conjE exE)
    assume "c = []" "allowed None b"
    then show ?thesis
      using commit [OF assms(1,2)] that by (cases res) (fastforce simp: expects_def inspected_write_def)+
  next
    fix was a assume "(name, was, c) \<in> hhist s" "unmarshalState w was = Inr a" "allowed (Some a) b"
    then show ?thesis using commit_replaces [OF assms(1,2)] that by (fastforce simp: inspected_write_def)
  qed
  from e show ?thesis
  proof
    assume "same_heads hcur hhist s0 s'"
    then show ?thesis using s0 client_run_others [of hhist hinv s s'] by (auto simp: hlater_def same_heads_def)
  next
    assume "?own name (hcur s0 name) (marshalState w b) \<and> (\<exists>c'. installed hcur hhist name (marshalState w b) c' s0 s')"
    then show ?thesis using own_write [OF client_run_others [OF s0(1)], where own = ?own] s0(2) by blast
  qed
qed

lemma Acquire_ok:
  assumes "hinv s" "Acquire w r now uuid token name holder opts s = (s', res)"
  shows "hinv s' \<and> client_run hcur hhist hinv (inspected_write w head_step name) s s' \<and>
    (\<forall>l created. res = Inr (l, created) \<longrightarrow> (name, marshalState w (ls_state l), ls_etag l) \<in> hhist s' \<and> ls_pending l = None \<and> has_lease l \<and>
       (\<exists>base. ls_state l = acquire_candidate r now holder token base \<and> acquirable w name now created base))"
proof (cases "validVolumeName name")
  case False
  then show ?thesis using assms by (auto simp: Acquire_def intro: idle)
next
  case True
  obtain s1 found where i: "Inspect w r name s = (s1, found)" by fastforce
  note later1 = Inspect_hist(1) [OF assms(1) i]
  then have s1: "hinv s1" by (simp add: hlater_def)
  note acq = assms(2) [unfolded Acquire_def i prod.case]
  show ?thesis
  proof (cases "acquire_base name now uuid opts found")
    case (Inl e)
    then have "s' = s1" "res = Inl e" using acq True by auto
    then show ?thesis using client_run_others [OF later1] s1 by simp
  next
    case (Inr base_etag)
    obtain base etag created where b: "base_etag = (base, etag, created)" by (cases base_etag) auto
    define st where "st = acquire_candidate r now holder token base"
    note step = acquire_step [OF Inr [unfolded b], of r holder token, folded st_def]
    obtain s2 r2 where c: "hd_commit (RHead r) name (marshalState w st) etag st s1 = (s2, r2)" by fastforce
    have "etag = [] \<and> head_step None st \<or> (\<exists>was a. (name, was, etag) \<in> hhist s1 \<and> unmarshalState w was = Inr a \<and> head_step (Some a) st)"
      using step Inspect_hist(2) [OF assms(1) i, of base etag] by (auto split: if_splits)
    note run = client_run_trans [OF inspected_commit_run [where allowed = head_step, OF s1 c this] client_run_others [OF later1]]
    have later2: "hlater hhist hinv s1 s2" using commit_later [OF s1 c] .
    have fields: "ls_state (startManifestBundleArchive w (new_lease st x)) = st" "ls_etag (startManifestBundleArchive w (new_lease st x)) = x"
      "ls_pending (startManifestBundleArchive w (new_lease st x)) = None" "has_lease (startManifestBundleArchive w (new_lease st x))" for x
      by (simp_all add: new_lease_def has_lease_def st_def acquire_candidate_def Let_def)
    have "acquirable w name now created base"
      using Inr b Inspect_hist(2) [OF assms(1) i, of base etag] by (auto simp: acquirable_def acquire_base_def split: sum.splits if_splits option.splits)
    then have "\<exists>base. st = acquire_candidate r now holder token base \<and> acquirable w name now created base"
      using st_def by blast
    then have post: "(name, marshalState w (ls_state l), ls_etag l) \<in> hhist t \<and> ls_pending l = None \<and> has_lease l \<and>
       (\<exists>base. ls_state l = acquire_candidate r now holder token base \<and> acquirable w name now created base)"
      if "(name, marshalState w st, x) \<in> hhist t" "l = startManifestBundleArchive w (new_lease st x)" for t x l
      using that fields by simp
    show ?thesis
    proof (cases r2)
      case (Inr x)
      then have "s' = s2" "res = Inr (startManifestBundleArchive w (new_lease st x), created)"
        using acq True \<open>acquire_base name now uuid opts found = Inr base_etag\<close> b c by (auto simp: st_def Let_def)
      then show ?thesis
        using run later2 post [OF commit_hist [OF s1 c [unfolded Inr]] refl] by (simp add: hlater_def del: startArchive_fields)
    next
      case (Inl e)
      obtain s3 got where g: "hd_read (RHead r) name s2 = (s3, got)" by fastforce
      have s2: "hinv s2" using later2 by (simp add: hlater_def)
      have s': "s' = s3" and r': "\<And>l cr. res = Inr (l, cr) \<Longrightarrow> cr = created \<and> (\<exists>x. got = Inr (marshalState w st, x) \<and> l = startManifestBundleArchive w (new_lease st x))"
        using acq True \<open>acquire_base name now uuid opts found = Inr base_etag\<close> b c Inl g
        by (auto simp: st_def Let_def split: sum.splits if_splits prod.splits)
      have s3: "hinv s'" "client_run hcur hhist hinv (inspected_write w head_step name) s s'"
        using others [OF run read_later [OF s2 g]] read_later [OF s2 g] by (simp_all add: hlater_def s')
      have hist: "(name, marshalState w st, x) \<in> hhist s'" if "got = Inr (marshalState w st, x)" for x
        using read_hist [OF s2] g that s' by blast
      show ?thesis
      proof (intro conjI allI impI)
        fix l cr assume "res = Inr (l, cr)"
        then obtain x where x: "cr = created" "got = Inr (marshalState w st, x)" "l = startManifestBundleArchive w (new_lease st x)"
          using r' by blast
        note p = post [OF hist [OF x(2)] x(3)]
        show "(name, marshalState w (ls_state l), ls_etag l) \<in> hhist s'" "ls_pending l = None" "has_lease l" using p by blast+
        show "\<exists>base. ls_state l = acquire_candidate r now holder token base \<and> acquirable w name now cr base"
          using p unfolding x(1) by blast
      qed (rule s3)+
    qed
  qed
qed

lemma Break_ok:
  assumes "hinv s" "Break w r name expected s = (s', res)"
  shows "hinv s' \<and> client_run hcur hhist hinv (inspected_write w (may_break expected) name) s s'"
proof -
  obtain s1 found where i: "Inspect w r name s = (s1, found)" by fastforce
  note later1 = Inspect_hist(1) [OF assms(1) i]
  then have s1: "hinv s1" by (simp add: hlater_def)
  show ?thesis
  proof (cases "s' = s1")
    case True
    then show ?thesis using client_run_others [OF later1] s1 by simp
  next
    case False
    obtain a c rec res2 where f: "found = Inr (a, c)" "s_Lease a = Some rec" "expected = [] \<or> Token rec = expected"
        "hd_commit (RHead r) name (marshalState w (broken a)) c (broken a) s1 = (s', res2)"
      using assms(2) i False by (auto simp: Break_def broken_def Let_def split: sum.splits option.splits if_splits prod.splits)
    have "may_break expected (Some a) (broken a)" using f(2,3) by (simp add: may_break_def)
    then have "client_run hcur hhist hinv (inspected_write w (may_break expected) name) s1 s'"
      using inspected_commit_run [OF s1 f(4)] Inspect_hist(2) [OF assms(1) i f(1)] by blast
    then show ?thesis
      using client_run_trans [OF _ client_run_others [OF later1]] commit_later [OF s1 f(4)] by (simp add: hlater_def)
  qed
qed

end

section \<open>Sequences of operations\<close>

inductive lease_step :: "wire \<Rightarrow> 's Remote \<Rightarrow> Lease \<times> 's \<Rightarrow> Lease \<times> 's \<Rightarrow> bool" for w r where
  step_renew: "Renew w r now l s = (l', s', res) \<Longrightarrow> lease_step w r (l, s) (l', s')"
| step_heartbeat: "heartbeat_tick w r before now after cancelled l s = (l', s', lost) \<Longrightarrow> lease_step w r (l, s) (l', s')"
| step_publish: "Publish w r now segments l s = (l', s', res) \<Longrightarrow> lease_step w r (l, s) (l', s')"
| step_checkpoint: "PublishCheckpoint w r get now l s = (l', s', res) \<Longrightarrow> lease_step w r (l, s) (l', s')"
| step_archive: "finishManifestBundleArchive w r l s = (l', s') \<Longrightarrow> lease_step w r (l, s) (l', s')"
| step_plan: "lease_step w r (l, s) (adoptPlan state refs l, s)"
| step_release: "Lease_Release w r waits l s = (l', s', res) \<Longrightarrow> lease_step w r (l, s) (l', s')"

context lease_service
begin

lemma lease_step_ok:
  assumes "lease_step w r c c'" "hinv (snd c)" "lease_ok w (hhist (snd c)) (fst c)"
  shows "ok w (fst c) (snd c) (fst c') (snd c')"
  using assms
proof cases
  case (step_heartbeat before now after cancelled l s l' s' lost)
  then have "(l' = l \<and> s' = s) \<or> (\<exists>res. Renew w r now l s = (l', s', res))"
    by (auto simp: heartbeat_tick_def Let_def split: if_splits prod.splits sum.splits)
  then show ?thesis using ok_refl Renew_ok assms(2,3) step_heartbeat(1,2) by auto
next
  case (step_plan l s state refs)
  have "touched l (adoptPlan state refs l)" by (simp add: touched_def adoptPlan_def)
  then show ?thesis using touched_ok assms(2,3) step_plan by simp
qed (use assms(2,3) Renew_ok Publish_ok PublishCheckpoint_ok finishArchive_ok Release_ok in auto)

lemma lease_steps_ok:
  assumes "(lease_step w r)\<^sup>*\<^sup>* c c'" "hinv (snd c)" "lease_ok w (hhist (snd c)) (fst c)"
  shows "ok w (fst c) (snd c) (fst c') (snd c')"
  using assms
proof (induction rule: rtranclp_induct)
  case base
  then show ?case by (rule ok_refl)
next
  case (step b d)
  then have "ok w (fst b) (snd b) (fst d) (snd d)" using lease_step_ok [OF step.hyps(2)] ok_inv by blast
  then show ?case using lease_outcome_trans [OF step.IH [OF step.prems]] by simp
qed

end

text \<open>The service of \<open>NewRemote\<close> with the conditional head.\<close>

definition conditional_remote :: "'s store_ops \<Rightarrow> int \<Rightarrow> 's Remote" where
  "conditional_remote ops ttl = \<lparr>Store = ops, RHead = conditionalHead ops, RTTL = ttl\<rparr>"

lemma conditional_remote_simps [simp]: "Store (conditional_remote ops ttl) = ops" "RHead (conditional_remote ops ttl) = conditionalHead ops"
  by (simp_all add: conditional_remote_def)

sublocale shared_store \<subseteq> lease: lease_service "conditional_remote ops ttl" "store_hcur cur" "store_hhist hist" sinv for ttl
proof (unfold_locales, goal_cases)
  case (1 s name b c)
  then show ?case using cond.hcur_hist by simp
next
  case (2 s name a c b)
  then show ?case using cond.cursor_body by simp
next
  case (3 s name a c)
  then show ?case using cond.cursor_nonempty by simp
next
  case (4 s name s' got)
  then show ?case using cond.read by simp
next
  case (5 s name body prev nxt s' res)
  then show ?case using cond.commit by simp
next
  case (6 s key data s' put)
  then show ?case using put_if_absent [of s key data s' put]
    by (cases put) (auto simp: hlater_def later_def stored_def untouched_def store_hhist_def)
next
  case (7 s key s' got)
  then show ?case using get [of s key s' got]
    by (auto simp: hlater_def later_def untouched_def store_hhist_def)
qed

context shared_store
begin

lemmas service = lease.lease_service_axioms

end

end
