(* ===== verification/Publishing.thy ===== *)
theory Publishing
  imports LeaseRun
begin

text \<open>
  Publishing generations under a lease: an attempt that fails half way can be repeated without
  publishing twice, a publication that succeeds is durable, and a lost lease is inert.
\<close>

section \<open>Publishing exactly once\<close>

text \<open>The caller's retry loop: the same segments are published until one attempt succeeds.\<close>

fun publish_retry :: "wire \<Rightarrow> 's Remote \<Rightarrow> Segment list \<Rightarrow> int list \<Rightarrow> Lease \<Rightarrow> 's \<Rightarrow> Lease \<times> 's \<times> unit result" where
  "publish_retry w r segments [] l s = (l, s, Inl (Errorf ''gave up''))"
| "publish_retry w r segments (now # nows) l s =
     (case Publish w r now segments l s of
        (l', s', Inr u) \<Rightarrow> (l', s', Inr u)
      | (l', s', Inl e) \<Rightarrow> publish_retry w r segments nows l' s')"

text \<open>The lease while the attempt for \<open>segments\<close> on top of \<open>base\<close> has not been acknowledged: it
  still is at the generation of \<open>base\<close>, and a commit in doubt is this publication.\<close>

definition this_publication :: "Segment list \<Rightarrow> State \<Rightarrow> Manifest \<Rightarrow> bool" where
  "this_publication segments base m \<longleftrightarrow> Kind m = ''delta'' \<and> m_Generation m = s_Generation base + 1 \<and> m_Epoch m = s_Epoch base \<and>
     list_all2 sameSegmentReference (Segments m) segments"

definition awaiting :: "Segment list \<Rightarrow> State \<Rightarrow> Lease \<Rightarrow> bool" where
  "awaiting segments base l \<longleftrightarrow> ls_adopted l = None \<and> s_Generation (ls_state l) = s_Generation base \<and> s_Epoch (ls_state l) = s_Epoch base \<and>
     (\<forall>p. ls_pending l = Some p \<longrightarrow> s_Generation (pc_candidate p) = s_Generation base + 1 \<and> s_Epoch (pc_candidate p) = s_Epoch base \<and>
        s_Lease (pc_candidate p) \<noteq> None \<and> (\<exists>prepared. pc_prepared p = Some prepared \<and> this_publication segments base (p_manifest prepared)))"

lemma sameSegmentReference_self: "list_all2 sameSegmentReference (map (segmentReference st) segments) segments"
  by (induction segments) (simp_all add: sameSegmentReference_def segmentReference_def Let_def)

lemma delta_this_publication:
  "s_Generation st = s_Generation base \<Longrightarrow> s_Epoch st = s_Epoch base \<Longrightarrow>
     this_publication segments base (p_manifest (prepareManifest w st (delta_manifest st now segments)))"
  by (simp add: this_publication_def prepareManifest_def delta_manifest_def Let_def sameSegmentReference_self)

lemma pending_commit_lost [simp]: "ls_lost (pending_commit p c l) = ls_lost l"
  by (simp add: pending_commit_def split: option.splits)

lemma resolve_awaiting:
  assumes "awaiting segments base l" "resolvePending r l s = (l1, s1, res)"
  shows "awaiting segments base l1 \<and> (res = Inr () \<and> has_lease l1 \<longrightarrow> ls_pending l1 = None) \<or>
    res = Inr () \<and> has_lease l1 \<and> s_Generation (ls_state l1) = s_Generation base + 1 \<and> snd (consumeAdoptedPublishLocked segments l1)"
proof (cases "ls_pending l")
  case None
  then show ?thesis using assms by (simp add: resolvePending_def)
next
  case (Some p)
  then obtain prepared where p: "s_Generation (pc_candidate p) = s_Generation base + 1" "s_Epoch (pc_candidate p) = s_Epoch base"
      "s_Lease (pc_candidate p) \<noteq> None" "pc_prepared p = Some prepared" "this_publication segments base (p_manifest prepared)"
    using assms(1) by (auto simp: awaiting_def)
  show ?thesis
  proof (cases "has_lease l")
    case False
    then show ?thesis using assms Some by (simp add: resolvePending_def)
  next
    case True
    obtain got where "hd_read (RHead r) (s_Name (ls_state l)) s = (s1, got)"
      using assms(2) Some True by (auto simp: resolvePending_def Let_def split: prod.splits sum.splits if_splits)
    moreover define resolved where "resolved c = (pending_commit p c (l\<lparr>ls_pending := None\<rparr>))\<lparr>ls_adopted := Some (p_manifest prepared)\<rparr>" for c
    ultimately have "l1 = l \<and> (\<exists>e. res = Inl e) \<or> res = Inr () \<and> (l1 = l\<lparr>ls_pending := None\<rparr> \<or> (\<exists>c. l1 = resolved c))"
      using assms(2) Some True p(4) by (cases got) (auto simp: resolvePending_def Let_def split: if_splits)
    moreover have "awaiting segments base (l\<lparr>ls_pending := None\<rparr>)" using assms(1) by (simp add: awaiting_def)
    moreover have "has_lease (resolved c) \<and> s_Generation (ls_state (resolved c)) = s_Generation base + 1 \<and> snd (consumeAdoptedPublishLocked segments (resolved c))" for c
      using p True by (simp add: has_lease_def resolved_def consumeAdoptedPublishLocked_def this_publication_def)
    ultimately show ?thesis using assms(1) by auto
  qed
qed

lemma renewLocked_generation: "renewLocked w r now l s = (l', s') \<Longrightarrow> s_Generation (ls_state l') = s_Generation (ls_state l)"
  by (auto simp: renewLocked_def renewed_def Let_def split: option.splits if_splits prod.splits sum.splits)

lemma candidate_generation [simp]:
  "s_Generation (manifest_candidate r now st prepared emb pb) = m_Generation (p_manifest prepared)"
  "s_Epoch (manifest_candidate r now st prepared emb pb) = s_Epoch st"
  "s_Manifest (manifest_candidate r now st prepared emb pb) = p_key prepared"
  "s_Lease (manifest_candidate r now st prepared emb pb) = None \<longleftrightarrow> s_Lease st = None"
  unfolding manifest_candidate_def Let_def published_def [symmetric] by (simp_all add: renewed_def)

text \<open>A commit with nothing in doubt and nothing adopted.\<close>

lemma commitManifest_fresh:
  assumes "ls_pending l = None" "ls_adopted l = None" "commitManifest w r now snapshot prepared emb pb l s = (l', s', res)"
  defines "b \<equiv> manifest_candidate r now (ls_state l) prepared emb pb"
  obtains c where "res = Inr ()" "l' = applyManifestCommitLocked b c prepared pb l" "has_lease l"
      "commitState r l (marshalState w b) b s = (s', Inr c)"
  | e where "res = Inl e" "ls_state l' = ls_state l" "ls_adopted l' = None"
      "\<And>p. ls_pending l' = Some p \<Longrightarrow> has_lease l \<and> pc_candidate p = b \<and> pc_prepared p = Some prepared"
proof -
  have r: "resolvePending r l s = (l, s, Inr ())" using assms(1) by (simp add: resolvePending_def)
  obtain s1 r1 where c: "commitState r l (marshalState w b) b s = (s1, r1)" by fastforce
  note commit = assms(3) [unfolded commitManifest_def r prod.case sum.case b_def [symmetric] Let_def c assms(2) option.case if_False]
  show ?thesis
  proof (cases r1)
    case (Inr x)
    then show ?thesis using commit that c assms(1,2) by (auto split: if_splits)
  next
    case (Inl e)
    then show ?thesis using commit that(2) assms(1,2) by (auto split: if_splits)
  qed
qed

lemma Publish_awaiting:
  assumes "awaiting segments base l" "Publish w r now segments l s = (l', s', res)"
  shows "if res = Inr () then s_Generation (ls_state l') = s_Generation base + 1 else awaiting segments base l'"
  using assms(2)
proof (cases rule: Publish_cases)
  case 1
  then show ?thesis using assms(1) by auto
next
  case (2 l1 s1 r1)
  then show ?thesis using resolve_awaiting [OF assms(1) 2(1)] by auto
next
  case (3 l1 s1 l2)
  then have "ls_adopted l1 \<noteq> None" by (auto simp: consumeAdoptedPublishLocked_def split: option.splits)
  then have "s_Generation (ls_state l1) = s_Generation base + 1"
    using resolve_awaiting [OF assms(1) 3(1)] by (auto simp: awaiting_def)
  then show ?thesis using 3(5) renewLocked_generation [OF 3(4)] consumeAdopted_touched(1) [OF 3(3)] by simp
next
  case (4 l1 s1)
  have aw: "awaiting segments base l1" "ls_pending l1 = None"
    using resolve_awaiting [OF assms(1) 4(1)] 4(2,3) by auto
  define prepared where "prepared = prepareManifest w (ls_state l1) (delta_manifest (ls_state l1) now segments)"
  have publ: "this_publication segments base (p_manifest prepared)"
    using aw(1) unfolding prepared_def by (intro delta_this_publication) (auto simp: awaiting_def)
  have keep: "awaiting segments base l2" if "touched l1 l2" for l2 using aw that by (simp add: awaiting_def touched_def)
  from 4(5) [folded prepared_def] show ?thesis
  proof (cases rule: publishPrepared_cases)
    case (3 la pb1 pb2 emb archive2 sa lb)
    have la: "ls_pending la = None" "ls_adopted la = None" "ls_state la = ls_state l1"
      using 3(1) aw by (auto simp: touched_def awaiting_def)
    show ?thesis
      using commitManifest_fresh [OF la(1,2) 3(4)]
    proof cases
      case (1 c)
      then show ?thesis using 3(5) publ by (simp add: touched_def this_publication_def)
    next
      case (2 e)
      then have "awaiting segments base lb"
        using aw la publ by (auto simp: awaiting_def this_publication_def has_lease_def)
      then show ?thesis using 2(1) 3(5) by (simp add: awaiting_def touched_def)
    qed
  qed (use keep in auto)
qed

lemma publish_retry_once:
  assumes "awaiting segments base l" "publish_retry w r segments nows l s = (l', s', Inr u)"
  shows "s_Generation (ls_state l') = s_Generation base + 1"
  using assms
proof (induction nows arbitrary: l s)
  case (Cons now nows)
  obtain l1 s1 res where p: "Publish w r now segments l s = (l1, s1, res)" by (cases "Publish w r now segments l s") auto
  show ?case
    using Publish_awaiting [OF Cons.prems(1) p] Cons.prems(2) Cons.IH p by (cases res) auto
qed simp

section \<open>Durability\<close>

definition was_stored :: "('s \<Rightarrow> (string \<times> Object) set) \<Rightarrow> 's \<Rightarrow> string \<Rightarrow> bytes \<Rightarrow> bool" where
  "was_stored hist s key data \<longleftrightarrow> (\<exists>etag. (key, \<lparr>obj_Data = data, obj_ETag = etag\<rparr>) \<in> hist s)"

lemma was_stored_later: "was_stored hist s key data \<Longrightarrow> later hist sinv s s' \<Longrightarrow> was_stored hist s' key data"
  by (auto simp: was_stored_def later_def)

context shared_store
begin

lemma put_later: "sinv s \<Longrightarrow> st_PutIfAbsent ops key data s = (s', r) \<Longrightarrow> later hist sinv s s'"
  using put_if_absent [of s key data s' r] by (cases r) (auto simp: later_def stored_def untouched_def)

lemma get_later: "sinv s \<Longrightarrow> st_Get ops key s = (s', got) \<Longrightarrow> later hist sinv s s'"
  using get [of s key s' got] by (auto simp: later_def untouched_def)

lemma put_immutable_stored:
  assumes "sinv s" "put_immutable ops key data failure conflict s = (s', res)"
  shows "later hist sinv s s'" "res = Inr () \<Longrightarrow> was_stored hist s' key data"
proof -
  obtain s1 r1 where p: "st_PutIfAbsent ops key data s = (s1, r1)" by fastforce
  have l1: "later hist sinv s s1" using put_later [OF assms(1) p] .
  then have s1: "sinv s1" by (simp add: later_def)
  have "later hist sinv s s' \<and> (res = Inr () \<longrightarrow> was_stored hist s' key data)"
  proof (cases r1)
    case (Inr etag)
    then have "s' = s1" using assms(2) p by (simp add: put_immutable_def)
    then show ?thesis using l1 put_if_absent [OF assms(1) p] Inr by (auto simp: was_stored_def stored_def)
  next
    case (Inl e)
    show ?thesis
    proof (cases "errors_Is e ErrPreconditionFailed")
      case False
      then show ?thesis using assms(2) p Inl l1 by (auto simp: put_immutable_def)
    next
      case True
      obtain got where g: "st_Get ops key s1 = (s', got)" "res = Inr () \<Longrightarrow> \<exists>x. got = Inr x \<and> obj_Data x = data"
        using assms(2) p Inl True by (auto simp: put_immutable_def split: prod.splits sum.splits if_splits)
      have "was_stored hist s' key data" if "got = Inr x" "obj_Data x = data" for x
        using get [OF s1 g(1)] cur_hist that by (auto simp: was_stored_def untouched_def) (metis Object.surjective old.unit.exhaust)
      then show ?thesis using g(2) later_trans [OF l1 get_later [OF s1 g(1)]] by blast
    qed
  qed
  then show "later hist sinv s s'" "res = Inr () \<Longrightarrow> was_stored hist s' key data" by blast+
qed

text \<open>Where the data of a segment is once it is published.\<close>

lemma uploadSegments_stored:
  assumes "sinv s" "Store r = ops" "uploadSegments r snapshot segments s = (s', res)"
  shows "later hist sinv s s' \<and> (\<forall>refs. res = Inr refs \<longrightarrow>
    (\<forall>seg\<in>set segments. InlineData (segmentReference snapshot seg) \<noteq> [] \<or> was_stored hist s' (ref_Key (segmentReference snapshot seg)) (seg_Data seg)))"
  using assms
proof (induction segments arbitrary: s res)
  case Nil
  then show ?case by (simp add: later_def)
next
  case (Cons seg segments)
  let ?ref = "segmentReference snapshot seg"
  obtain s1 r1 where u: "uploadSegment r snapshot seg s = (s1, r1)" by fastforce
  have u1: "later hist sinv s s1 \<and> (\<forall>ref. r1 = Inr ref \<longrightarrow> InlineData ?ref \<noteq> [] \<or> was_stored hist s1 (ref_Key ?ref) (seg_Data seg))"
  proof (cases "InlineData ?ref = []")
    case False
    then show ?thesis using u Cons.prems(1) by (simp add: uploadSegment_def Let_def later_def)
  next
    case True
    then show ?thesis
      using u put_immutable_stored [OF Cons.prems(1)] by (fastforce simp: uploadSegment_def Let_def Cons.prems(2) split: prod.splits sum.splits)
  qed
  show ?case
  proof (cases r1)
    case (Inl e)
    then show ?thesis using Cons.prems(3) u u1 by auto
  next
    case (Inr ref)
    obtain r2 where v: "uploadSegments r snapshot segments s1 = (s', r2)" "\<And>refs. res = Inr refs \<Longrightarrow> \<exists>refs'. r2 = Inr refs'"
      using Cons.prems(3) u Inr by (auto split: prod.splits sum.splits)
    have "sinv s1" using u1 by (simp add: later_def)
    note ih = Cons.IH [OF this Cons.prems(2) v(1)]
    show ?thesis
      using ih u1 Inr v(2) was_stored_later later_trans [of hist sinv s s1 s'] by (fastforce)
  qed
qed

lemma later_refl: "sinv s \<Longrightarrow> later hist sinv s s"
  by (simp add: later_def)

lemma publish_objects_stored:
  assumes "sinv s" "Store r = ops" "publish_objects r snapshot prepared segments pb archive s = (s', Inr ())"
  shows "later hist sinv s s'"
    "\<And>seg. seg \<in> set segments \<Longrightarrow> InlineData (segmentReference snapshot seg) \<noteq> [] \<or> was_stored hist s' (ref_Key (segmentReference snapshot seg)) (seg_Data seg)"
    "archive \<Longrightarrow> was_stored hist s' (p_key prepared) (p_body prepared)"
    "\<And>b. pb = Some b \<Longrightarrow> \<not> uploaded b \<Longrightarrow> was_stored hist s' (mb_Key (pb_ref b)) (pb_body b)"
proof -
  obtain s1 refs where u: "(if segments = [] then (s, Inr []) else uploadSegments r snapshot segments s) = (s1, Inr refs)"
    using assms(3) by (auto simp: publish_objects_def split: prod.splits sum.splits if_splits)
  note pub = assms(3) [unfolded publish_objects_def u prod.case sum.case]
  obtain s2 where b: "(case pb of None \<Rightarrow> (s1, Inr ()) | Some b \<Rightarrow> if uploaded b then (s1, Inr ()) else uploadManifestBundle r b s1) = (s2, Inr ())"
    using pub by (auto split: prod.splits sum.splits)
  have m: "(if archive then uploadManifest r prepared s2 else (s2, Inr ())) = (s', Inr ())" using pub unfolding b by simp
  have u1: "later hist sinv s s1" "\<And>seg. seg \<in> set segments \<Longrightarrow> InlineData (segmentReference snapshot seg) \<noteq> [] \<or>
      was_stored hist s1 (ref_Key (segmentReference snapshot seg)) (seg_Data seg)"
    using u uploadSegments_stored [OF assms(1,2)] later_refl [OF assms(1)] by (auto split: if_splits)
  then have s1: "sinv s1" by (simp add: later_def)
  have u2: "later hist sinv s1 s2" "\<And>b. pb = Some b \<Longrightarrow> \<not> uploaded b \<Longrightarrow> was_stored hist s2 (mb_Key (pb_ref b)) (pb_body b)"
    using b put_immutable_stored [OF s1] later_refl [OF s1] by (auto simp: uploadManifestBundle_def assms(2) split: option.splits if_splits)
  then have s2: "sinv s2" by (simp add: later_def)
  have u3: "later hist sinv s2 s'" "archive \<Longrightarrow> was_stored hist s' (p_key prepared) (p_body prepared)"
    using m put_immutable_stored [OF s2] later_refl [OF s2] by (auto simp: uploadManifest_def assms(2) split: if_splits)
  have l2: "later hist sinv s1 s'" using later_trans [OF u2(1) u3(1)] .
  show "later hist sinv s s'" using later_trans [OF u1(1) l2] .
  show "InlineData (segmentReference snapshot seg) \<noteq> [] \<or> was_stored hist s' (ref_Key (segmentReference snapshot seg)) (seg_Data seg)"
    if "seg \<in> set segments" for seg using u1(2) [OF that] was_stored_later [OF _ l2] by blast
  show "archive \<Longrightarrow> was_stored hist s' (p_key prepared) (p_body prepared)" using u3(2) .
  show "was_stored hist s' (mb_Key (pb_ref b)) (pb_body b)" if "pb = Some b" "\<not> uploaded b" for b
    using u2(2) [OF that] was_stored_later [OF _ u3(1)] by blast
qed

lemma head_later:
  assumes "sinv s"
  shows "hd_read (conditionalHead ops) name s = (s', got) \<Longrightarrow> later hist sinv s s'"
    and "hd_commit (conditionalHead ops) name body prev nxt s = (s', r) \<Longrightarrow> later hist sinv s s'"
proof -
  show "later hist sinv s s'" if "hd_read (conditionalHead ops) name s = (s', got)"
    using get_later [OF assms] that by (auto simp: conditionalHead_def conditional_read_def split: prod.splits sum.splits)
  show "later hist sinv s s'" if c: "hd_commit (conditionalHead ops) name body prev nxt s = (s', r)"
  proof (cases "prev = []")
    case False
    then have "st_PutIfMatch ops (StateKey name) body prev s = (s', r)" using c by (simp add: conditionalHead_def conditional_commit_def)
    then show ?thesis using put_if_match [OF assms, of "StateKey name" body prev s' r]
      by (cases r) (auto simp: later_def stored_def untouched_def)
  next
    case True
    obtain s1 ks where l: "st_List ops (HeadPrefix name) s = (s1, ks)" by fastforce
    have l1: "later hist sinv s s1" using list_keys [OF assms l] by (auto simp: later_def untouched_def)
    then have "sinv s1" by (simp add: later_def)
    moreover have "s' = s1 \<or> st_PutIfAbsent ops (StateKey name) body s1 = (s', r)"
      using c True l by (auto simp: conditionalHead_def conditional_commit_def split: sum.splits list.splits)
    ultimately show ?thesis using l1 put_later later_trans [OF l1] by blast
  qed
qed

lemma commitState_later:
  assumes "sinv s" "RHead r = conditionalHead ops" "commitState r l body b s = (s', res)"
  shows "later hist sinv s s'"
proof -
  obtain s1 r1 where c: "hd_commit (conditionalHead ops) (s_Name (ls_state l)) body (ls_etag l) b s = (s1, r1)" by fastforce
  have l1: "later hist sinv s s1" using head_later(2) [OF assms(1) c] .
  then have s1: "sinv s1" by (simp add: later_def)
  have "s' = s1 \<or> (\<exists>got. hd_read (conditionalHead ops) (s_Name (ls_state l)) s1 = (s', got))"
    using assms(3) c by (auto simp: commitState_def assms(2) Let_def split: sum.splits prod.splits)
  then show ?thesis using l1 later_trans [OF l1 head_later(1) [OF s1]] by blast
qed

end

lemma placement_somewhere: "placement w snapshot prepared pb archive = Inr (pb', emb, archive') \<Longrightarrow> emb \<or> archive'"
  by (auto simp: placement_def Let_def split: if_splits)

text \<open>The manifest of a publication is embedded in the state or an object of its own.\<close>

definition durable :: "('s \<Rightarrow> (string \<times> Object) set) \<Rightarrow> 's \<Rightarrow> State \<Rightarrow> preparedManifest \<Rightarrow> bool" where
  "durable hist s st prepared \<longleftrightarrow> s_Manifest st = p_key prepared \<and> s_Generation st = m_Generation (p_manifest prepared) \<and>
     (fmlookup (InlineManifests st) (p_key prepared) = Some (p_body prepared) \<or> was_stored hist s (p_key prepared) (p_body prepared))"

definition segment_durable :: "('s \<Rightarrow> (string \<times> Object) set) \<Rightarrow> 's \<Rightarrow> ObjectRef \<Rightarrow> Segment \<Rightarrow> bool" where
  "segment_durable hist s ref seg \<longleftrightarrow> InlineData ref = seg_Data seg \<or> was_stored hist s (ref_Key ref) (seg_Data seg)"

context shared_store
begin

lemma Publish_durable:
  assumes "sinv s" "ls_pending l = None" "ls_adopted l = None"
    "Publish w (conditional_remote ops ttl) now segments l s = (l', s', Inr ())"
  defines "prepared \<equiv> prepareManifest w (ls_state l) (delta_manifest (ls_state l) now segments)"
  shows "durable hist s' (ls_state l') prepared \<and> list_all2 (segment_durable hist s') (Segments (p_manifest prepared)) segments"
proof -
  let ?r = "conditional_remote ops ttl"
  have res: "resolvePending ?r l s = (l, s, Inr ())" using assms(2) by (simp add: resolvePending_def)
  have "consumeAdoptedPublishLocked segments l = (l, False)" using assms(3) by (simp add: consumeAdoptedPublishLocked_def)
  note res = res this
  have p: "publishPrepared w ?r now (ls_state l) prepared segments None False l s = (l', s', Inr ())"
    using assms(4) by (cases rule: Publish_cases) (use res in \<open>auto simp: prepared_def\<close>)
  obtain l1 pb1 pb2 emb archive2 s1 l2 where c: "touched l l1" "placement w (ls_state l) prepared pb1 False = Inr (pb2, emb, archive2)"
      "publish_objects ?r (ls_state l) prepared segments pb2 archive2 s = (s1, Inr ())"
      "commitManifest w ?r now (ls_state l) prepared emb pb2 l1 s1 = (l2, s', Inr ())" "touched l2 l'"
    by (rule publishPrepared_cases [OF p]) (simp, simp, blast)
  define b where "b = manifest_candidate ?r now (ls_state l1) prepared emb pb2"
  have l1: "ls_pending l1 = None" "ls_adopted l1 = None" using c(1) assms(2,3) by (simp_all add: touched_def)
  obtain x where x: "l2 = applyManifestCommitLocked b x prepared pb2 l1" "commitState ?r l1 (marshalState w b) b s1 = (s', Inr x)"
    using commitManifest_fresh [OF l1 c(4)] unfolding b_def by auto
  note st = publish_objects_stored [OF assms(1) _ c(3)]
  have "sinv s1" using st(1) by (simp add: later_def)
  then have later: "later hist sinv s1 s'" by (rule commitState_later [OF _ _ x(2)]) simp
  have state: "ls_state l' = b" using c(5) x(1) by (simp add: touched_def)
  have "emb \<Longrightarrow> fmlookup (InlineManifests b) (p_key prepared) = Some (p_body prepared)"
    by (simp add: b_def manifest_candidate_def Let_def)
  then have "durable hist s' (ls_state l') prepared"
    using placement_somewhere [OF c(2)] st(3) was_stored_later [OF _ later] by (auto simp: durable_def state b_def)
  moreover have "segment_durable hist s' (segmentReference (ls_state l) seg) seg" if "seg \<in> set segments" for seg
    using st(2) [OF _ that] was_stored_later [OF _ later] by (auto simp: segment_durable_def segmentReference_def Let_def split: if_splits)
  then have "list_all2 (segment_durable hist s') (Segments (p_manifest prepared)) segments"
    by (auto simp: prepared_def prepareManifest_def delta_manifest_def Let_def list_all2_map1 list_all2_same)
  ultimately show ?thesis by blast
qed

end

section \<open>A lost lease is inert\<close>

lemma lost_step:
  assumes "lease_step w r c c'" "\<not> has_lease (fst c)" "ls_inFlight (fst c) = None"
  shows "snd c' = snd c \<and> \<not> has_lease (fst c') \<and> ls_inFlight (fst c') = None"
proof -
  have res: "resolvePending r l s = (l, s, Inr ())" if "\<not> has_lease l" for l s
    using that by (simp add: resolvePending_def split: option.splits)
  have upd: "update w r mutate l s = (l, s, Inl ErrLeaseLost)" if "\<not> has_lease l" for mutate l s
    using that res by (simp add: update_def)
  show ?thesis
    using assms
  proof cases
    case (step_publish now segments l s l' s' result)
    then show ?thesis using assms res by (auto simp: Publish_def split: if_splits)
  next
    case (step_plan l s state refs)
    then show ?thesis using assms by (simp add: adoptPlan_def has_lease_def)
  qed (use assms upd in \<open>auto simp: Renew_def heartbeat_tick_def PublishCheckpoint_def finishManifestBundleArchive_def Lease_Release_def Let_def split: if_splits\<close>)
qed

lemma lost_steps:
  assumes "(lease_step w r)\<^sup>*\<^sup>* c c'" "\<not> has_lease (fst c)" "ls_inFlight (fst c) = None"
  shows "snd c' = snd c \<and> \<not> has_lease (fst c') \<and> ls_inFlight (fst c') = None"
  using assms by (induction rule: rtranclp_induct) (auto dest: lost_step)

end
