(* ===== verification/LeaseClaims.thy ===== *)
theory LeaseClaims
  imports Publishing
begin

text \<open>
  The properties of leases on a store shared with other clients, for every store that honours
  conditional writes (\<open>shared_store\<close>), and their instances on the in-memory store.
\<close>

section \<open>Samples\<close>

text \<open>A wire format that keeps epoch, generation, manifest and expiry apart, and a volume taken
  on an empty store.\<close>

definition tiny_held :: State where
  "tiny_held = \<lparr>s_Format = Format, s_ID = ''u'', s_Name = ''v'', s_Size = 8192, s_BlockSize = 4096, Filesystem = ''ext4'', s_Generation = 0,
     s_Manifest = [], InlineManifests = fmempty, ManifestBundle = None, Checkpoint = 0, s_Epoch = 1, Deleting = False,
     s_Lease = Some \<lparr>Holder = ''h'', Token = ''t'', lr_Epoch = 1, ExpiresAt = 130, MountedAt = 100\<rparr>\<rparr>"

definition tiny_wire :: wire where
  "tiny_wire = sample_wire\<lparr>marshalState := (\<lambda>st. [ucast (s_Epoch st), ucast (s_Generation st), of_nat (length (s_Manifest st)),
       case s_Lease st of None \<Rightarrow> 0 | Some rec \<Rightarrow> word_of_int (ExpiresAt rec)]),
     unmarshalState := (\<lambda>body. if body = [1, 0, 0, 130] then Inr tiny_held else Inl EOF)\<rparr>"

definition tiny_remote :: "contended_memory Remote" where
  "tiny_remote = conditional_remote contended_ops 30"

definition tiny_store :: contended_memory where
  "tiny_store = ((NewMemory, {}, []), [])"

definition tiny_acquire :: "contended_memory \<times> (Lease \<times> bool) result" where
  "tiny_acquire = Acquire tiny_wire tiny_remote 100 ''u'' ''t'' ''v'' ''h'' \<lparr>co_Size = 8192, co_Filesystem = []\<rparr> tiny_store"

definition tiny_taken :: contended_memory where
  "tiny_taken = fst tiny_acquire"

definition tiny_lease :: Lease where
  "tiny_lease = (case snd tiny_acquire of Inr (l, created) \<Rightarrow> l | Inl e \<Rightarrow> new_lease sample_state [])"

lemma tiny_inv: "contended_inv tiny_store"
  by (simp add: tiny_store_def contended_inv_def logged_inv_def logged_hist_def NewMemory_def covers_def tagged_upto_def tags_determine_def)

lemma tiny_acquired: "tiny_acquire = (tiny_taken, Inr (tiny_lease, True))"
proof -
  have "case snd tiny_acquire of Inr (l, created) \<Rightarrow> created | Inl e \<Rightarrow> False" by code_simp
  then show ?thesis by (auto simp: tiny_taken_def tiny_lease_def prod_eq_iff split: sum.splits)
qed

lemma tiny_acquire_eq:
  "Acquire tiny_wire (conditional_remote contended_ops 30) 100 ''u'' ''t'' ''v'' ''h'' \<lparr>co_Size = 8192, co_Filesystem = []\<rparr> tiny_store
     = (tiny_taken, Inr (tiny_lease, True))"
  using tiny_acquired by (simp add: tiny_acquire_def tiny_remote_def)

lemma tiny_name: "s_Name (ls_state tiny_lease) = ''v''"
  by code_simp

section \<open>Taking a volume\<close>



section \<open>Working under a lease\<close>

lemma tiny_lease_ok: "contended_inv tiny_taken" "lease_ok tiny_wire (store_hhist contended_hist tiny_taken) tiny_lease"
  using contended.lease.Acquire_ok [OF tiny_inv tiny_acquire_eq] by (auto simp: lease_ok_def pending_ok_def tiny_name)


definition tiny_renewed :: "Lease \<times> contended_memory \<times> unit result" where
  "tiny_renewed = Renew tiny_wire tiny_remote 120 tiny_lease tiny_taken"


section \<open>Breaking a lease\<close>


definition tiny_broken :: "contended_memory \<times> unit result" where
  "tiny_broken = Break tiny_wire tiny_remote ''v'' ''t'' tiny_taken"


section \<open>Publishing\<close>

definition tiny_segment :: Segment where
  "tiny_segment = \<lparr>seg_Data = [1, 2, 3], seg_SHA256 = hex_EncodeToString (sha256 tiny_wire [1, 2, 3]), seg_Bytes = 3, seg_Blocks = 1,
     seg_Extents = [Extent 0 1], seg_ZeroExtents = []\<rparr>"

text \<open>The store that loses the response of the next call and fails the one after.\<close>

definition tiny_shaky :: contended_memory where
  "tiny_shaky = (case tiny_taken of ((m, h, fs), batches) \<Rightarrow> ((m, h, [FailAfter, FailBefore]), batches))"

text \<open>
  C10. Publishing is safe to retry: when \<open>Publish\<close> is called with the same segments until one call
  succeeds, whatever the failed calls did or did not do to the store, the volume is exactly one
  generation further.
\<close>

theorem Publish_retry_publishes_once:
  assumes "ls_pending l = None" and "ls_adopted l = None"
    and "publish_retry w r segments nows l s = (l', s', Inr u)"
  shows "s_Generation (ls_state l') = s_Generation (ls_state l) + 1"
  using publish_retry_once [OF _ assms(3)] assms(1,2) by (simp add: awaiting_def)

definition tiny_retried :: "Lease \<times> contended_memory \<times> unit result" where
  "tiny_retried = publish_retry tiny_wire tiny_remote [tiny_segment] [110, 111] tiny_lease tiny_shaky"

theorem Publish_retry_publishes_once_witness:
  "\<not> is_ok (snd (snd (Publish tiny_wire tiny_remote 110 [tiny_segment] tiny_lease tiny_shaky))) \<and>
   s_Generation (ls_state (fst tiny_retried)) = s_Generation (ls_state tiny_lease) + 1"
proof -
  have "publish_retry tiny_wire tiny_remote [tiny_segment] [110, 111] tiny_lease tiny_shaky = (fst tiny_retried, fst (snd tiny_retried), snd (snd tiny_retried))"
    by (simp add: tiny_retried_def)
  moreover have "snd (snd tiny_retried) = Inr ()" by code_simp
  moreover have "ls_pending tiny_lease = None" by code_simp
  moreover have "ls_adopted tiny_lease = None" by code_simp
  ultimately have "s_Generation (ls_state (fst tiny_retried)) = s_Generation (ls_state tiny_lease) + 1"
    using Publish_retry_publishes_once [of tiny_lease] by metis
  moreover have "\<not> is_ok (snd (snd (Publish tiny_wire tiny_remote 110 [tiny_segment] tiny_lease tiny_shaky)))" by code_simp
  ultimately show ?thesis by blast
qed

text \<open>
  C11. A publication that succeeds is durable: the committed state names the manifest and its
  generation, the manifest body is embedded in that state or was stored as an object, and the data
  of each segment is inline in the manifest or was stored under the key the manifest gives.
\<close>

theorem Publish_is_durable:
  assumes "shared_store ops cur hist sinv" and "sinv s" and "ls_pending l = None" and "ls_adopted l = None"
    and "Publish w (conditional_remote ops ttl) now segments l s = (l', s', Inr ())"
  shows "durable hist s' (ls_state l') (prepareManifest w (ls_state l) (delta_manifest (ls_state l) now segments)) \<and>
    list_all2 (segment_durable hist s') (Segments (delta_manifest (ls_state l) now segments)) segments"
  using shared_store.Publish_durable [OF assms] by (simp add: prepareManifest_def Let_def)

definition tiny_published :: "Lease \<times> contended_memory \<times> unit result" where
  "tiny_published = Publish tiny_wire (conditional_remote contended_ops 30) 110 [tiny_segment] tiny_lease tiny_taken"

theorem Publish_is_durable_witness:
  "durable contended_hist (fst (snd tiny_published)) (ls_state (fst tiny_published))
     (prepareManifest tiny_wire (ls_state tiny_lease) (delta_manifest (ls_state tiny_lease) 110 [tiny_segment]))"
proof -
  have "snd (snd tiny_published) = Inr ()" by code_simp
  then have "Publish tiny_wire (conditional_remote contended_ops 30) 110 [tiny_segment] tiny_lease tiny_taken =
      (fst tiny_published, fst (snd tiny_published), Inr ())"
    by (simp add: tiny_published_def prod_eq_iff)
  moreover have "ls_pending tiny_lease = None" by code_simp
  moreover have "ls_adopted tiny_lease = None" by code_simp
  ultimately show ?thesis
    using Publish_is_durable [OF contended.shared_store_axioms tiny_lease_ok(1), of tiny_lease tiny_wire 30 110 "[tiny_segment]"] by blast
qed

text \<open>
  C12. A lease that was lost or released, with no archive upload under way, is inert: no operation
  makes it held again or reaches the store, and renewing, publishing, checkpointing and releasing
  report \<open>ErrLeaseLost\<close>.
\<close>

theorem lost_lease_is_inert:
  assumes "\<not> has_lease l" and "ls_inFlight l = None" and "(lease_step w r)\<^sup>*\<^sup>* (l, s) (l', s')"
  shows "s' = s \<and> \<not> has_lease l' \<and> snd (snd (Renew w r now l' s)) = Inl ErrLeaseLost \<and>
    snd (snd (Lease_Release w r waits l' s)) = Inl ErrLeaseLost \<and> snd (snd (PublishCheckpoint w r get now l' s)) = Inl ErrLeaseLost \<and>
    (list_all (segment_matches_data w) segments \<and> segments \<noteq> [] \<longrightarrow> snd (snd (Publish w r now segments l' s)) = Inl ErrLeaseLost)"
proof -
  have l': "s' = s" "\<not> has_lease l'" "ls_inFlight l' = None" using lost_steps [OF assms(3)] assms(1,2) by auto
  then have r: "resolvePending r l' s = (l', s, Inr ())" by (simp add: resolvePending_def split: option.splits)
  then have u: "update w r mutate l' s = (l', s, Inl ErrLeaseLost)" for mutate using l' by (simp add: update_def)
  then show ?thesis using l' r
    by (simp add: Renew_def Lease_Release_def PublishCheckpoint_def Publish_def finishManifestBundleArchive_def)
qed

theorem lost_lease_is_inert_witness:
  "\<not> has_lease (tiny_lease\<lparr>ls_lost := True\<rparr>) \<and> snd (snd (Renew tiny_wire tiny_remote 1 (tiny_lease\<lparr>ls_lost := True\<rparr>) tiny_taken)) = Inl ErrLeaseLost"
proof -
  have "\<not> has_lease (tiny_lease\<lparr>ls_lost := True\<rparr>)" by (simp add: has_lease_def)
  moreover have "ls_inFlight (tiny_lease\<lparr>ls_lost := True\<rparr>) = None" by code_simp
  ultimately show ?thesis
    using lost_lease_is_inert [of "tiny_lease\<lparr>ls_lost := True\<rparr>" tiny_wire tiny_remote tiny_taken "tiny_lease\<lparr>ls_lost := True\<rparr>" tiny_taken] by simp
qed

end
