(* ===== verification/Device.thy ===== *)
theory Device
  imports Segment
begin

text \<open>
  The block device (\<open>internal/replica/device.go\<close>): the local image, the set of changed
  blocks, dirty accounting and backpressure. Every method is a function on the state; the
  device lock makes each of them atomic. A method that would wait on the condition variable
  returns \<open>Waiting\<close> and is attempted again after a broadcast; callbacks are recorded as
  events. The lazy image is reached through the operations of \<open>hydrator_ops\<close>, whose
  contract is the locale \<open>hydrator_laws\<close>.
\<close>

section \<open>State\<close>

datatype device_event =
    Backpressure
  | DirtyReached
  | DirtyChange int
  | FlushCalled
  | DurableFlush "Generation option"
  | Broadcast

datatype 'a outcome = Waiting | Return 'a

record 'h hydrator_ops =
  Hydrate :: "'h \<Rightarrow> image \<Rightarrow> int \<Rightarrow> int \<Rightarrow> image \<times> 'h \<times> unit result"
  PrepareWrite :: "'h \<Rightarrow> image \<Rightarrow> int \<Rightarrow> int \<Rightarrow> image \<times> 'h \<times> unit result"
  CommitWrite :: "'h \<Rightarrow> int \<Rightarrow> int \<Rightarrow> 'h"
  hydrator_Close :: "'h \<Rightarrow> 'h \<times> unit result"

text \<open>
  Of a handler only its presence is kept. Buffers that \<open>Release\<close> returned to the pool keep
  their old bytes. The block size is always \<open>DefaultBlockSize\<close>.
\<close>

record 'h Device =
  d_file :: image
  d_size :: int
  maxDirty :: int
  d_dirty :: int
  d_active :: "(u64, bytes) fmap"
  onBackpressure :: bool
  onDirty :: bool
  onDirtyChange :: bool
  dirtyThreshold :: int
  dirtyNotified :: bool
  onFlush :: bool
  onDurableFlush :: bool
  skipLocalFlush :: bool
  localDirty :: bool
  blockPool :: "bytes list"
  d_hydrator :: "'h option"
  d_closed :: bool
  queuedFlush :: bool

text \<open>\<open>OpenDevice\<close>: \<open>opened\<close> is the content of the file after \<open>OpenFile\<close> and \<open>Truncate\<close>.\<close>

definition OpenDevice :: "image result \<Rightarrow> int \<Rightarrow> int \<Rightarrow> 'h Device result" where
  "OpenDevice opened sz limit =
     (if sz \<le> 0 \<or> sz mod DefaultBlockSize \<noteq> 0
      then Inl (Errorf ''image size must be a positive multiple of the block size'')
      else bindR opened (\<lambda>img. Inr
        \<lparr>d_file = img, d_size = sz, maxDirty = (if limit \<le> 0 then 268435456 else limit),
         d_dirty = 0, d_active = fmempty, onBackpressure = False, onDirty = False,
         onDirtyChange = False, dirtyThreshold = 0, dirtyNotified = False, onFlush = False,
         onDurableFlush = False, skipLocalFlush = False, localDirty = False, blockPool = [],
         d_hydrator = None, d_closed = False, queuedFlush = False\<rparr>))"

section \<open>Handlers\<close>

definition SetBackpressureHandler :: "'h Device \<Rightarrow> 'h Device" where
  "SetBackpressureHandler d = d\<lparr>onBackpressure := True\<rparr>"

definition SetDirtyHandler :: "int \<Rightarrow> 'h Device \<Rightarrow> 'h Device" where
  "SetDirtyHandler threshold d =
     d\<lparr>dirtyThreshold := threshold, onDirty := True,
       dirtyNotified := (threshold > 0 \<and> d_dirty d \<ge> threshold)\<rparr>"

definition SetDirtyObserver :: "'h Device \<Rightarrow> 'h Device" where
  "SetDirtyObserver d = d\<lparr>onDirtyChange := True\<rparr>"

definition observeDirty :: "'h Device \<Rightarrow> device_event list" where
  "observeDirty d = (if onDirtyChange d then [DirtyChange (d_dirty d)] else [])"

definition SetFlushHandler :: "'h Device \<Rightarrow> 'h Device" where
  "SetFlushHandler d =
     d\<lparr>onFlush := True, onDurableFlush := False, skipLocalFlush := False, queuedFlush := False\<rparr>"

definition SetDurableFlushHandler :: "'h Device \<Rightarrow> 'h Device" where
  "SetDurableFlushHandler d =
     d\<lparr>onFlush := False, onDurableFlush := True, skipLocalFlush := True, queuedFlush := True\<rparr>"

definition SetLazyImage :: "'h option \<Rightarrow> 'h Device \<Rightarrow> 'h Device" where
  "SetLazyImage h d = d\<lparr>d_hydrator := h\<rparr>"

definition notifyDirty :: "'h Device \<Rightarrow> 'h Device \<times> device_event list" where
  "notifyDirty d =
     (if \<not> onDirty d \<or> dirtyThreshold d \<le> 0 \<or> dirtyNotified d \<or> d_dirty d < dirtyThreshold d
      then (d, []) else (d\<lparr>dirtyNotified := True\<rparr>, [DirtyReached]))"

section \<open>Blocks\<close>

definition newBlock :: "'h Device \<Rightarrow> bytes \<times> 'h Device" where
  "newBlock d =
     (case blockPool d of
        buf # pool \<Rightarrow> (buf, d\<lparr>blockPool := pool\<rparr>)
      | [] \<Rightarrow> (replicate BlockSize 0, d))"

definition blockRange :: "int \<Rightarrow> int \<Rightarrow> u64 \<times> u64" where
  "blockRange off len =
     (let first = word_of_int (off div DefaultBlockSize) in
      if len = 0 then (first, first)
      else (first, word_of_int ((off + len - 1) div DefaultBlockSize) + 1))"

text \<open>The loop \<open>for block := first; block < last; block++\<close>.\<close>

definition block_seq :: "u64 \<Rightarrow> u64 \<Rightarrow> u64 list" where
  "block_seq first lastB = map of_nat [unat first..<unat lastB]"

definition newBlockCount :: "'h Device \<Rightarrow> u64 \<Rightarrow> u64 \<Rightarrow> int" where
  "newBlockCount d first lastB =
     int (length (filter (\<lambda>b. fmlookup (d_active d) b = None) (block_seq first lastB)))"

definition must_wait :: "'h Device \<Rightarrow> int \<Rightarrow> bool" where
  "must_wait d newBlocks \<longleftrightarrow>
     d_dirty d > 0 \<and> d_dirty d + newBlocks * DefaultBlockSize > maxDirty d"

text \<open>The buffer of a block in the active set, added when it is not there yet.\<close>

definition active_buf :: "'h Device \<Rightarrow> u64 \<Rightarrow> bytes \<times> bool \<times> 'h Device" where
  "active_buf d block =
     (case fmlookup (d_active d) block of
        Some buf \<Rightarrow> (buf, True, d)
      | None \<Rightarrow>
          (case newBlock d of (buf, d1) \<Rightarrow>
             (buf, False, d1\<lparr>d_active := fmupd block buf (d_active d1),
                             d_dirty := d_dirty d1 + DefaultBlockSize\<rparr>)))"

definition put_buf :: "u64 \<Rightarrow> bytes \<Rightarrow> 'h Device \<Rightarrow> 'h Device" where
  "put_buf block buf d = d\<lparr>d_active := fmupd block buf (d_active d)\<rparr>"

fun capture_loop :: "fileio \<Rightarrow> 'h Device \<Rightarrow> u64 list \<Rightarrow> 'h Device \<times> unit result" where
  "capture_loop io d [] = (d, Inr ())"
| "capture_loop io d (block # blocks) =
     (case active_buf d block of (buf, _, d1) \<Rightarrow>
        (case file_ReadAt io (d_file d1) buf (unat block * BlockSize) of
           (buf', Some e) \<Rightarrow>
             if e \<noteq> EOF then (put_buf block buf' d1, Inl e)
             else capture_loop io (put_buf block buf' d1) blocks
         | (buf', None) \<Rightarrow> capture_loop io (put_buf block buf' d1) blocks))"

definition capture :: "fileio \<Rightarrow> u64 \<Rightarrow> u64 \<Rightarrow> 'h Device \<Rightarrow> 'h Device \<times> unit result" where
  "capture io first lastB d = capture_loop io d (block_seq first lastB)"

text \<open>\<open>copy(buf[i:j], src)\<close> where both have the same length.\<close>

definition copy_into :: "bytes \<Rightarrow> nat \<Rightarrow> bytes \<Rightarrow> bytes" where
  "copy_into buf i src = take i buf @ src @ drop (i + length src) buf"

definition captureWrite_block ::
  "fileio \<Rightarrow> bytes \<Rightarrow> int \<Rightarrow> u64 \<Rightarrow> 'h Device \<Rightarrow> 'h Device \<times> unit result" where
  "captureWrite_block io data off block d =
     (let writeEnd = off + int (length data);
          blockOff = uint block * DefaultBlockSize;
          start = max off blockOff;
          fin = min writeEnd (blockOff + DefaultBlockSize);
          src = take (nat (fin - start)) (drop (nat (start - off)) data)
      in case active_buf d block of (buf, exists, d1) \<Rightarrow>
           if \<not> exists \<and> (start \<noteq> blockOff \<or> fin \<noteq> blockOff + DefaultBlockSize)
           then
             (case file_ReadAt io (d_file d1) buf (nat blockOff) of
                (buf', err) \<Rightarrow>
                  if err \<noteq> None \<and> err \<noteq> Some EOF then (put_buf block buf' d1, Inl (the err))
                  else (put_buf block (copy_into buf' (nat (start - blockOff)) src) d1, Inr ()))
           else (put_buf block (copy_into buf (nat (start - blockOff)) src) d1, Inr ()))"

fun captureWrite_loop ::
  "fileio \<Rightarrow> bytes \<Rightarrow> int \<Rightarrow> 'h Device \<Rightarrow> u64 list \<Rightarrow> 'h Device \<times> unit result" where
  "captureWrite_loop io data off d [] = (d, Inr ())"
| "captureWrite_loop io data off d (block # blocks) =
     (case captureWrite_block io data off block d of
        (d1, Inl e) \<Rightarrow> (d1, Inl e)
      | (d1, Inr _) \<Rightarrow> captureWrite_loop io data off d1 blocks)"

definition captureWrite ::
  "fileio \<Rightarrow> bytes \<Rightarrow> int \<Rightarrow> u64 \<Rightarrow> u64 \<Rightarrow> 'h Device \<Rightarrow> 'h Device \<times> unit result" where
  "captureWrite io data off first lastB d = captureWrite_loop io data off d (block_seq first lastB)"

section \<open>The lazy image behind the device\<close>

definition call_hydrate ::
  "('h \<Rightarrow> image \<Rightarrow> int \<Rightarrow> int \<Rightarrow> image \<times> 'h \<times> unit result) \<Rightarrow> 'h Device \<Rightarrow> int \<Rightarrow> int \<Rightarrow>
     'h Device \<times> unit result" where
  "call_hydrate f d off len =
     (case d_hydrator d of
        None \<Rightarrow> (d, Inr ())
      | Some h \<Rightarrow>
          (case f h (d_file d) off len of (img, h', r) \<Rightarrow>
             (d\<lparr>d_file := img, d_hydrator := Some h'\<rparr>, r)))"

definition call_commit :: "'h hydrator_ops \<Rightarrow> 'h Device \<Rightarrow> int \<Rightarrow> int \<Rightarrow> 'h Device" where
  "call_commit ops d off len =
     d\<lparr>d_hydrator := map_option (\<lambda>h. CommitWrite ops h off len) (d_hydrator d)\<rparr>"

section \<open>I/O\<close>

definition ReadAt ::
  "'h hydrator_ops \<Rightarrow> fileio \<Rightarrow> bytes \<Rightarrow> int \<Rightarrow> 'h Device \<Rightarrow> 'h Device \<times> bytes \<times> error option" where
  "ReadAt ops io p off d =
     (if d_closed d then (d, [], Some ErrDeviceClosed)
      else if off < 0 \<or> off \<ge> d_size d then (d, [], Some EOF)
      else
        let p' = (if int (length p) > d_size d - off then take (nat (d_size d - off)) p else p) in
        case call_hydrate (Hydrate ops) d off (int (length p')) of
          (d1, Inl e) \<Rightarrow> (d1, [], Some e)
        | (d1, Inr _) \<Rightarrow> (case file_ReadAt io (d_file d1) p' (nat off) of (buf, err) \<Rightarrow> (d1, buf, err)))"

text \<open>One attempt of \<open>WriteAt\<close>; \<open>reported\<close> is whether an earlier attempt has called the
  backpressure handler. The result is the number of bytes written and the error.\<close>

definition WriteAt ::
  "'h hydrator_ops \<Rightarrow> fileio \<Rightarrow> bool \<Rightarrow> bytes \<Rightarrow> int \<Rightarrow> 'h Device \<Rightarrow>
     'h Device \<times> device_event list \<times> (nat \<times> error option) outcome" where
  "WriteAt ops io reported p off d =
     (if d_closed d then (d, [], Return (0, Some ErrDeviceClosed))
      else if off < 0 \<or> int (length p) > d_size d - off then (d, [], Return (0, Some ErrShortWrite))
      else
        let (first, lastB) = blockRange off (int (length p));
            newBlocks = newBlockCount d first lastB
        in if must_wait d newBlocks
           then (d, if \<not> reported \<and> onBackpressure d then [Backpressure] else [], Waiting)
           else
             case call_hydrate (PrepareWrite ops) d off (int (length p)) of
               (d1, Inl e) \<Rightarrow> (d1, [], Return (0, Some e))
             | (d1, Inr _) \<Rightarrow>
                 (case file_WriteAt io (d_file d1) p (nat off) of (img, n, err) \<Rightarrow>
                    if n = 0 then (d1\<lparr>d_file := img\<rparr>, [], Return (0, err))
                    else
                      let (actualFirst, actualLast) = blockRange off (int n) in
                      case captureWrite io (take n p) off actualFirst actualLast
                             (d1\<lparr>d_file := img, localDirty := True\<rparr>) of
                        (d2, Inl e) \<Rightarrow> (d2, [], Return (n, Some e))
                      | (d2, Inr _) \<Rightarrow>
                          let d3 = call_commit ops d2 off (int n);
                              (d4, evs) = notifyDirty d3
                          in (d4, observeDirty d3 @ evs, Return (n, err))))"

text \<open>Zeroing by writes, when punching a hole is refused: chunks of at most 1 MiB.\<close>

function zero_loop :: "fileio \<Rightarrow> image \<Rightarrow> nat \<Rightarrow> nat \<Rightarrow> nat \<Rightarrow> image \<times> unit result" where
  "zero_loop io img off len written =
     (if written < len then
        let n = min (min len 1048576) (len - written) in
        case file_WriteAt io img (replicate n 0) (off + written) of
          (img', _, Some e) \<Rightarrow> (img', Inl e)
        | (img', _, None) \<Rightarrow> zero_loop io img' off len (written + n)
      else (img, Inr ()))"
  by pat_completeness auto
termination
  by (relation "measure (\<lambda>(io, img, off, len, written). len - written)") auto

declare zero_loop.simps [simp del]

definition punch_or_zero :: "fileio \<Rightarrow> image \<Rightarrow> nat \<Rightarrow> nat \<Rightarrow> image \<times> unit result" where
  "punch_or_zero io img off len =
     (if len = 0 \<or> punch_fails io off len then zero_loop io img off len 0
      else (file_write img off (replicate len 0), Inr ()))"

definition Trim ::
  "'h hydrator_ops \<Rightarrow> fileio \<Rightarrow> bool \<Rightarrow> int \<Rightarrow> int \<Rightarrow> 'h Device \<Rightarrow>
     'h Device \<times> device_event list \<times> error option outcome" where
  "Trim ops io reported off len d =
     (if d_closed d then (d, [], Return (Some ErrDeviceClosed))
      else if off < 0 \<or> len < 0 \<or> len > d_size d - off
      then (d, [], Return (Some (Errorf ''trim outside device'')))
      else
        let (first, lastB) = blockRange off len;
            newBlocks = newBlockCount d first lastB
        in if must_wait d newBlocks
           then (d, if \<not> reported \<and> onBackpressure d then [Backpressure] else [], Waiting)
           else
             case call_hydrate (PrepareWrite ops) d off len of
               (d1, Inl e) \<Rightarrow> (d1, [], Return (Some e))
             | (d1, Inr _) \<Rightarrow>
                 (case punch_or_zero io (d_file d1) (nat off) (nat len) of
                    (img, Inl e) \<Rightarrow> (d1\<lparr>d_file := img\<rparr>, [], Return (Some e))
                  | (img, Inr _) \<Rightarrow>
                      (case capture io first lastB (d1\<lparr>d_file := img\<rparr>) of
                         (d2, Inl e) \<Rightarrow> (d2, [], Return (Some e))
                       | (d2, Inr _) \<Rightarrow>
                           let d3 = call_commit ops d2 off len;
                               d4 = (if len > 0 then d3\<lparr>localDirty := True\<rparr> else d3);
                               (d5, evs) = notifyDirty d4
                           in (d5, observeDirty d4 @ evs, Return None))))"

section \<open>Sealing, flushing and release\<close>

definition sealLocked :: "'h Device \<Rightarrow> Generation option \<times> 'h Device" where
  "sealLocked d =
     (if fmdom (d_active d) = {||} then (None, d)
      else (Some \<lparr>gen_Blocks = d_active d,
                   gen_bytes = int (fcard (fmdom (d_active d))) * DefaultBlockSize, journalSeq = 0\<rparr>,
            d\<lparr>d_active := fmempty\<rparr>))"

definition Seal :: "'h Device \<Rightarrow> Generation option \<times> 'h Device" where
  "Seal d = sealLocked d"

definition BeginDurableFlush :: "'h Device \<Rightarrow> 'h Device \<times> device_event list \<times> error option" where
  "BeginDurableFlush d =
     (if d_closed d then (d, [], Some ErrDeviceClosed)
      else if \<not> onDurableFlush d then (d, [], Some (Errorf ''durable flush is not configured''))
      else (case sealLocked d of (g, d') \<Rightarrow> (d', [DurableFlush g], None)))"

text \<open>\<open>Flush\<close>: \<open>durable_res\<close> is what arrives on the channel the durable handler returns,
  \<open>handler_res\<close> what the plain handler returns.\<close>

definition Flush ::
  "fileio \<Rightarrow> error option \<Rightarrow> error option \<Rightarrow> 'h Device \<Rightarrow> 'h Device \<times> device_event list \<times> error option" where
  "Flush io durable_res handler_res d =
     (if d_closed d then (d, [], Some ErrDeviceClosed)
      else
        let handler = onFlush d;
            err = (if \<not> skipLocalFlush d \<and> localDirty d \<and> sync_fails io then Some (Errno 5) else None);
            d1 = (if \<not> skipLocalFlush d \<and> localDirty d \<and> \<not> sync_fails io then d\<lparr>localDirty := False\<rparr> else d)
        in if err \<noteq> None then (d1, [], err)
           else if onDurableFlush d1
           then (case sealLocked d1 of (g, d2) \<Rightarrow> (d2, [DurableFlush g], durable_res))
           else if handler then (d1, [FlushCalled], handler_res)
           else (d1, [], None))"

definition Release :: "Generation option \<Rightarrow> 'h Device \<Rightarrow> 'h Device \<times> device_event list" where
  "Release g d =
     (case g of
        None \<Rightarrow> (d, [])
      | Some g' \<Rightarrow>
          let d1 = d\<lparr>d_dirty := max 0 (d_dirty d - Generation_Bytes g)\<rparr>;
              d2 = (if d_dirty d1 < dirtyThreshold d1 then d1\<lparr>dirtyNotified := False\<rparr> else d1)
          in (d2\<lparr>blockPool := map (block_data g') (sortedBlocks g') @ blockPool d2\<rparr>,
              observeDirty d2 @ [Broadcast]))"

definition Close :: "'h hydrator_ops \<Rightarrow> unit result \<Rightarrow> 'h Device \<Rightarrow> 'h Device \<times> device_event list \<times> unit result" where
  "Close ops close_res d =
     (if d_closed d then (d, [], Inr ())
      else
        let d1 = d\<lparr>d_closed := True, d_dirty := 0\<rparr> in
        case d_hydrator d1 of
          None \<Rightarrow> (d1, observeDirty d1 @ [Broadcast], close_res)
        | Some h \<Rightarrow>
            (case hydrator_Close ops h of (h', r) \<Rightarrow>
               (d1\<lparr>d_hydrator := Some h'\<rparr>, observeDirty d1 @ [Broadcast],
                (case close_res of Inl e \<Rightarrow> Inl e | Inr _ \<Rightarrow> r))))"

section \<open>Recovery and initial capture\<close>

text \<open>
  \<open>Replay\<close>. Go iterates over a map in an unspecified order: \<open>order\<close> is the order taken for
  each generation, and the theorems hold for every order that lists the keys.
\<close>

definition replay_block ::
  "'h hydrator_ops \<Rightarrow> fileio \<Rightarrow> u64 \<Rightarrow> bytes \<Rightarrow> 'h Device \<Rightarrow> 'h Device \<times> unit result" where
  "replay_block ops io block data d =
     (if length data \<noteq> BlockSize \<or> block \<ge> word_of_int (d_size d div DefaultBlockSize)
      then (d, Inl (Errorf ''invalid journal block''))
      else
        let offset = uint block * DefaultBlockSize in
        case file_WriteAt io (d_file d) data (nat offset) of
          (img, _, Some e) \<Rightarrow> (d\<lparr>d_file := img\<rparr>, Inl e)
        | (img, _, None) \<Rightarrow> (call_commit ops (d\<lparr>d_file := img\<rparr>) offset DefaultBlockSize, Inr ()))"

fun replay_blocks ::
  "'h hydrator_ops \<Rightarrow> fileio \<Rightarrow> Generation \<Rightarrow> 'h Device \<Rightarrow> u64 list \<Rightarrow> 'h Device \<times> unit result" where
  "replay_blocks ops io g d [] = (d, Inr ())"
| "replay_blocks ops io g d (block # blocks) =
     (case replay_block ops io block (block_data g block) d of
        (d1, Inl e) \<Rightarrow> (d1, Inl e)
      | (d1, Inr _) \<Rightarrow> replay_blocks ops io g d1 blocks)"

fun replay_loop ::
  "'h hydrator_ops \<Rightarrow> fileio \<Rightarrow> (Generation \<Rightarrow> u64 list) \<Rightarrow> 'h Device \<Rightarrow> Generation list \<Rightarrow>
     'h Device \<times> unit result" where
  "replay_loop ops io order d [] = (d, Inr ())"
| "replay_loop ops io order d (g # gs) =
     (case replay_blocks ops io g d (order g) of
        (d1, Inl e) \<Rightarrow> (d1, Inl e)
      | (d1, Inr _) \<Rightarrow>
          replay_loop ops io order (d1\<lparr>d_dirty := d_dirty d1 + Generation_Bytes (Some g)\<rparr>) gs)"

definition Replay ::
  "'h hydrator_ops \<Rightarrow> fileio \<Rightarrow> (Generation \<Rightarrow> u64 list) \<Rightarrow> Generation list \<Rightarrow> 'h Device \<Rightarrow>
     'h Device \<times> device_event list \<times> unit result" where
  "Replay ops io order generations d =
     (if d_closed d then (d, [], Inl ErrDeviceClosed)
      else
        case replay_loop ops io order d generations of
          (d1, Inl e) \<Rightarrow> (d1, [], Inl e)
        | (d1, Inr _) \<Rightarrow> (d1, observeDirty d1, Inr ()))"

fun captureNonZero_loop :: "fileio \<Rightarrow> 'h Device \<Rightarrow> u64 list \<Rightarrow> 'h Device \<times> unit result" where
  "captureNonZero_loop io d [] = (d, Inr ())"
| "captureNonZero_loop io d (block # blocks) =
     (case file_ReadAt io (d_file d) (replicate BlockSize 0) (unat block * BlockSize) of
        (buf, err) \<Rightarrow>
          if err \<noteq> None \<and> err \<noteq> Some EOF then (d, Inl (the err))
          else if isZero buf then captureNonZero_loop io d blocks
          else captureNonZero_loop io
                 (d\<lparr>d_active := fmupd block buf (d_active d), d_dirty := d_dirty d + DefaultBlockSize\<rparr>) blocks)"

definition captureNonZero :: "fileio \<Rightarrow> u64 \<Rightarrow> u64 \<Rightarrow> 'h Device \<Rightarrow> 'h Device \<times> unit result" where
  "captureNonZero io first lastB d = captureNonZero_loop io d (block_seq first lastB)"

definition markByScan :: "fileio \<Rightarrow> 'h Device \<Rightarrow> 'h Device \<times> unit result" where
  "markByScan io d = captureNonZero io 0 (word_of_int (d_size d div DefaultBlockSize)) d"

text \<open>
  \<open>MarkAllocated\<close>. \<open>seek_data\<close> and \<open>seek_hole\<close> are \<open>lseek\<close> with \<open>SEEK_DATA\<close> and
  \<open>SEEK_HOLE\<close>: an offset, \<open>None\<close> for \<open>ENXIO\<close>, or another error. The loop is bounded by fuel;
  \<open>None\<close> is running out of it.
\<close>

record seeker =
  seek_data :: "int \<Rightarrow> int option result"
  seek_hole :: "int \<Rightarrow> int option result"

fun mark_loop :: "nat \<Rightarrow> seeker \<Rightarrow> fileio \<Rightarrow> int \<Rightarrow> 'h Device \<Rightarrow> ('h Device \<times> unit result) option" where
  "mark_loop 0 sk io off d = (if off < d_size d then None else Some (d, Inr ()))"
| "mark_loop (Suc k) sk io off d =
     (if off < d_size d then
        (case seek_data sk off of
           Inr None \<Rightarrow> Some (d, Inr ())
         | Inl _ \<Rightarrow> Some (markByScan io d)
         | Inr (Some dat) \<Rightarrow>
             (case seek_hole sk dat of
                Inl _ \<Rightarrow> Some (markByScan io d)
              | Inr h \<Rightarrow>
                  let hole = (case h of None \<Rightarrow> d_size d | Some x \<Rightarrow> x);
                      (first, lastB) = blockRange dat (hole - dat)
                  in (case captureNonZero io first lastB d of
                        (d1, Inl e) \<Rightarrow> Some (d1, Inl e)
                      | (d1, Inr _) \<Rightarrow> mark_loop k sk io hole d1)))
      else Some (d, Inr ()))"

definition MarkAllocated :: "nat \<Rightarrow> seeker \<Rightarrow> fileio \<Rightarrow> 'h Device \<Rightarrow> ('h Device \<times> unit result) option" where
  "MarkAllocated fuel sk io d =
     (if d_closed d then Some (d, Inl ErrDeviceClosed) else mark_loop fuel sk io 0 d)"

section \<open>What the device holds\<close>

text \<open>
  The content a reader of the device sees: the local file, except where the lazy image has
  not loaded its source yet. \<open>res\<close> says which bytes of the local file are valid and \<open>src\<close>
  gives the bytes of the source.
\<close>

type_synonym 'h residency = "'h \<Rightarrow> nat \<Rightarrow> bool"
type_synonym 'h source = "'h \<Rightarrow> image"

definition dev_resident :: "'h residency \<Rightarrow> 'h Device \<Rightarrow> nat \<Rightarrow> bool" where
  "dev_resident res d i = (case d_hydrator d of None \<Rightarrow> True | Some h \<Rightarrow> res h i)"

definition content :: "'h residency \<Rightarrow> 'h source \<Rightarrow> 'h Device \<Rightarrow> image" where
  "content res src d = (\<lambda>i.
     case d_hydrator d of None \<Rightarrow> d_file d i | Some h \<Rightarrow> if res h i then d_file d i else src h i)"

text \<open>The block of an offset, and the offsets whose block a range of bytes touches.\<close>

definition blk :: "nat \<Rightarrow> u64" where
  "blk i = of_nat (i div BlockSize)"

definition touched :: "int \<Rightarrow> int \<Rightarrow> nat \<Rightarrow> bool" where
  "touched off n i \<longleftrightarrow> 0 < n \<and> off div DefaultBlockSize \<le> int (i div BlockSize) \<and>
     int (i div BlockSize) \<le> (off + n - 1) div DefaultBlockSize"

text \<open>The well-formedness invariant.\<close>

definition dev_wf :: "('h \<Rightarrow> bool) \<Rightarrow> ('h \<Rightarrow> int) \<Rightarrow> 'h Device \<Rightarrow> bool" where
  "dev_wf hinv hsize d \<longleftrightarrow>
     0 < d_size d \<and> d_size d mod DefaultBlockSize = 0 \<and> d_size d < 2 ^ 63 \<and>
     (\<forall>b buf. fmlookup (d_active d) b = Some buf \<longrightarrow>
        length buf = BlockSize \<and> int (unat b) < d_size d div DefaultBlockSize) \<and>
     (\<forall>buf\<in>set (blockPool d). length buf = BlockSize) \<and>
     (\<forall>h. d_hydrator d = Some h \<longrightarrow> hinv h \<and> hsize h = d_size d)"

text \<open>
  The replication invariant: the content is the base image with the active blocks on top,
  and the blocks of the active set are resident in the local file.
\<close>

definition tracks :: "'h residency \<Rightarrow> 'h source \<Rightarrow> image \<Rightarrow> 'h Device \<Rightarrow> bool" where
  "tracks res src base d \<longleftrightarrow>
     (\<forall>i. int i < d_size d \<longrightarrow>
        content res src d i = overlay (fmlookup (d_active d)) base i \<and>
        (fmlookup (d_active d) (blk i) \<noteq> None \<longrightarrow> dev_resident res d i))"

section \<open>Block ranges\<close>

definition in_image :: "'h Device \<Rightarrow> int \<Rightarrow> int \<Rightarrow> bool" where
  "in_image d off n \<longleftrightarrow> 0 \<le> off \<and> 0 \<le> n \<and> off + n \<le> d_size d"

lemma distinct_block_seq: "distinct (block_seq f l)"
proof -
  have "unat (of_nat x :: u64) = x" if "x \<in> {unat f..<unat l}" for x
    using that unat_u64 [of l] by (intro unat_of_nat64) auto
  then have "inj_on (of_nat :: nat \<Rightarrow> u64) {unat f..<unat l}"
    by (rule inj_on_inverseI)
  then show ?thesis by (simp add: block_seq_def distinct_map)
qed

lemma set_block_seq: "b \<in> set (block_seq f l) \<longleftrightarrow> f \<le> b \<and> b < l"
proof
  assume "b \<in> set (block_seq f l)"
  then obtain k where k: "b = of_nat k" "unat f \<le> k" "k < unat l" by (auto simp: block_seq_def)
  then have "unat b = k" using unat_u64 [of l] by (simp add: unat_of_nat)
  then show "f \<le> b \<and> b < l" using k by (simp add: word_le_nat_alt word_less_nat_alt)
next
  assume "f \<le> b \<and> b < l"
  then have "unat b \<in> {unat f..<unat l}" by (simp add: word_le_nat_alt word_less_nat_alt)
  then show "b \<in> set (block_seq f l)" unfolding block_seq_def
    by (auto intro!: image_eqI [of _ _ "unat b"])
qed

lemma blk_unat: "int i < 2 ^ 63 \<Longrightarrow> unat (blk i) = i div BlockSize"
  by (simp add: blk_def unat_of_nat BlockSize_simps)

lemma blockRange_touched:
  assumes "0 \<le> off" "0 \<le> n" "off + n \<le> sz" "sz < 2 ^ 63" "blockRange off n = (f, l)" "int i < 2 ^ 63"
  shows "blk i \<in> set (block_seq f l) \<longleftrightarrow> touched off n i"
proof (cases "n = 0")
  case True
  then show ?thesis using assms(5) by (auto simp: blockRange_def Let_def set_block_seq touched_def)
next
  case False
  define q r where "q = off div DefaultBlockSize" "r = (off + n - 1) div DefaultBlockSize"
  have q: "0 \<le> q" "q < 2 ^ 62" and r: "0 \<le> r" "r + 1 < 2 ^ 62"
    using assms False by (auto simp: q_r_def DefaultBlockSize_def)
  have f: "f = word_of_int q" and l: "l = word_of_int (r + 1)"
    using assms(5) False by (auto simp: blockRange_def Let_def q_r_def)
  have uf: "unat f = nat q" and ul: "unat l = nat (r + 1)"
    unfolding f l using q r by (intro unat_of_int64; simp)+
  show ?thesis
    using False q r assms(2) by (auto simp: set_block_seq touched_def word_le_nat_alt word_less_nat_alt
        blk_unat [OF assms(6)] uf ul q_r_def [symmetric])
qed


lemma blockRange_bound:
  assumes "in_image d off n" "d_size d mod DefaultBlockSize = 0" "d_size d < 2 ^ 63"
    "blockRange off n = (f, l)" "b \<in> set (block_seq f l)"
  shows "int (unat b) < d_size d div DefaultBlockSize"
proof -
  have n: "0 < n"
    using assms by (cases "n = 0") (auto simp: in_image_def blockRange_def Let_def set_block_seq)
  define r where "r = (off + n - 1) div DefaultBlockSize"
  have r: "0 \<le> r" "r < 2 ^ 62" using assms n by (auto simp: r_def in_image_def DefaultBlockSize_def)
  have l: "l = word_of_int (r + 1)" using assms(4) n by (auto simp: blockRange_def Let_def r_def)
  have "unat l = nat (r + 1)" unfolding l using r by (intro unat_of_int64) auto
  moreover have "unat b < unat l" using assms(5) by (simp add: set_block_seq word_less_nat_alt)
  ultimately have "int (unat b) \<le> r" using r by linarith
  moreover have "r < d_size d div DefaultBlockSize"
    using assms n by (auto simp: r_def in_image_def DefaultBlockSize_def)
  ultimately show ?thesis by simp
qed

section \<open>Capturing blocks\<close>

definition captured :: "image \<Rightarrow> u64 list \<Rightarrow> (u64, bytes) fmap \<Rightarrow> (u64, bytes) fmap" where
  "captured img bs m = foldl (\<lambda>m b. fmupd b (img_block img b) m) m bs"

definition fresh_count :: "(u64, bytes) fmap \<Rightarrow> u64 list \<Rightarrow> int" where
  "fresh_count m bs = int (length (filter (\<lambda>b. fmlookup m b = None) bs))"

definition bufs_ok :: "'h Device \<Rightarrow> bool" where
  "bufs_ok d \<longleftrightarrow> (\<forall>b buf. fmlookup (d_active d) b = Some buf \<longrightarrow> length buf = BlockSize) \<and>
     (\<forall>buf\<in>set (blockPool d). length buf = BlockSize)"

lemma fmlookup_captured:
  "fmlookup (captured img bs m) b = (if b \<in> set bs then Some (img_block img b) else fmlookup m b)"
  unfolding captured_def by (induction bs arbitrary: m) auto

lemma captured_Cons: "captured img (b # bs) m = captured img bs (fmupd b (img_block img b) m)"
  by (simp add: captured_def)

lemma fmupd_twice [simp]: "fmupd b x (fmupd b y m) = fmupd b x m"
  by (rule fmap_ext) simp

lemma img_block_length [simp]: "length (img_block img b) = BlockSize"
  by (simp add: img_block_def)

lemma fresh_count_Cons:
  "b \<notin> set bs \<Longrightarrow> fresh_count m (b # bs) =
     (if fmlookup m b = None then 1 else 0) + fresh_count (fmupd b x m) bs"
proof -
  assume "b \<notin> set bs"
  then have "filter (\<lambda>b'. fmlookup (fmupd b x m) b' = None) bs = filter (\<lambda>b. fmlookup m b = None) bs"
    by (intro filter_cong) auto
  then show ?thesis unfolding fresh_count_def by (simp del: fmupd_lookup)
qed

text \<open>What capturing the blocks \<open>bs\<close> does: their content in the file becomes the active data.\<close>

definition capture_result :: "'h Device \<Rightarrow> u64 list \<Rightarrow> 'h Device \<Rightarrow> bool" where
  "capture_result d bs d' \<longleftrightarrow>
     d' = d\<lparr>d_active := captured (d_file d) bs (d_active d),
            d_dirty := d_dirty d + fresh_count (d_active d) bs * DefaultBlockSize,
            blockPool := blockPool d'\<rparr> \<and> bufs_ok d'"

lemma capture_result_Nil: "bufs_ok d \<Longrightarrow> capture_result d [] d"
  by (simp add: capture_result_def captured_def fresh_count_def)

definition capture_step :: "'h Device \<Rightarrow> u64 \<Rightarrow> 'h Device \<Rightarrow> bool" where
  "capture_step d b d' \<longleftrightarrow>
     d' = d\<lparr>d_active := fmupd b (img_block (d_file d) b) (d_active d),
            d_dirty := d_dirty d + (if fmlookup (d_active d) b = None then DefaultBlockSize else 0),
            blockPool := blockPool d'\<rparr> \<and> bufs_ok d'"

lemma capture_result_Cons:
  assumes "capture_step d b d1" "capture_result d1 bs d2" "b \<notin> set bs"
  shows "capture_result d (b # bs) d2"
proof -
  define m where "m = fmupd b (img_block (d_file d) b) (d_active d)"
  define D1 where "D1 = d_dirty d + (if fmlookup (d_active d) b = None then DefaultBlockSize else 0)"
  have d1: "d1 = d\<lparr>d_active := m, d_dirty := D1, blockPool := blockPool d1\<rparr>"
    using assms(1) by (simp add: capture_step_def m_def D1_def)
  have sel: "d_active d1 = m" "d_file d1 = d_file d" "d_dirty d1 = D1"
    by (subst d1, simp)+
  have d2: "d2 = d1\<lparr>d_active := captured (d_file d) bs m,
      d_dirty := D1 + fresh_count m bs * DefaultBlockSize, blockPool := blockPool d2\<rparr>"
    using assms(2) unfolding capture_result_def sel by blast
  have fc: "D1 + fresh_count m bs * DefaultBlockSize = d_dirty d + fresh_count (d_active d) (b # bs) * DefaultBlockSize"
    using fresh_count_Cons [OF assms(3), of "d_active d" "img_block (d_file d) b"]
    by (simp add: D1_def m_def distrib_right)
  have "d2 = d\<lparr>d_active := captured (d_file d) (b # bs) (d_active d),
      d_dirty := d_dirty d + fresh_count (d_active d) (b # bs) * DefaultBlockSize, blockPool := blockPool d2\<rparr>"
    by (subst d2, subst d1) (simp add: fc captured_Cons m_def [symmetric])
  then show ?thesis using assms(2) unfolding capture_result_def by blast
qed

lemma active_buf_ok:
  assumes "bufs_ok d" "active_buf d b = (buf, exists, d1)"
  shows "length buf = BlockSize" "exists \<longleftrightarrow> fmlookup (d_active d) b \<noteq> None"
    "exists \<Longrightarrow> fmlookup (d_active d) b = Some buf" "d_file d1 = d_file d"
    "capture_step d b (put_buf b (img_block (d_file d) b) d1)"
  using assms
  by (auto simp: active_buf_def newBlock_def bufs_ok_def capture_step_def put_buf_def
      split: option.splits list.splits if_splits prod.splits)

lemma capture_loop_sound:
  assumes "sound_reads io" "bufs_ok d" "distinct bs"
  shows "\<exists>d'. capture_loop io d bs = (d', Inr ()) \<and> capture_result d bs d'"
  using assms(2,3)
proof (induction bs arbitrary: d)
  case Nil
  then show ?case by (simp add: capture_result_Nil)
next
  case (Cons b bs)
  obtain buf ex d1 where ab: "active_buf d b = (buf, ex, d1)" by (cases "active_buf d b") auto
  note A = active_buf_ok [OF Cons.prems(1) ab]
  let ?d2 = "put_buf b (img_block (d_file d) b) d1"
  have ok: "bufs_ok ?d2" using A(5) by (simp add: capture_step_def)
  from Cons.IH [OF ok] Cons.prems(2) obtain d' where
    d': "capture_loop io ?d2 bs = (d', Inr ())" "capture_result ?d2 bs d'" by auto
  have "capture_loop io d (b # bs) = capture_loop io ?d2 bs"
    using A(1,4) assms(1) by (simp add: ab file_simps img_block_def)
  then show ?case using d' capture_result_Cons [OF A(5) d'(2)] Cons.prems(2) by auto
qed


text \<open>Copying the part of a write that falls into a block.\<close>

lemma copy_into_nth:
  "i + length src \<le> length buf \<Longrightarrow> j < length buf \<Longrightarrow>
     copy_into buf i src ! j = (if i \<le> j \<and> j < i + length src then src ! (j - i) else buf ! j)"
  by (auto simp: copy_into_def nth_append min_def)

lemma copy_into_length [simp]: "i + length src \<le> length buf \<Longrightarrow> length (copy_into buf i src) = length buf"
  by (simp add: copy_into_def)

lemma copy_block:
  fixes off :: nat
  assumes "length buf = BlockSize" "blockOff = unat b * BlockSize"
    and "start = max off blockOff" "fin = min (off + length data) (blockOff + BlockSize)" "start \<le> fin"
    and "\<And>j. j < BlockSize \<Longrightarrow> blockOff + j < off \<or> off + length data \<le> blockOff + j \<Longrightarrow> buf ! j = img (blockOff + j)"
    and "\<And>i. off \<le> i \<Longrightarrow> i < off + length data \<Longrightarrow> img i = data ! (i - off)"
  shows "copy_into buf (start - blockOff) (take (fin - start) (drop (start - off) data)) = img_block img b"
proof (rule nth_equalityI)
  let ?src = "take (fin - start) (drop (start - off) data)"
  have src: "length ?src = fin - start" using assms(3,4,5) by auto
  have fit: "start - blockOff + length ?src \<le> length buf" using assms(1,3,4,5) src by auto
  show "length (copy_into buf (start - blockOff) ?src) = length (img_block img b)" using fit assms(1) by simp
  fix j assume "j < length (copy_into buf (start - blockOff) ?src)"
  then have j: "j < BlockSize" using fit assms(1) by simp
  then have "copy_into buf (start - blockOff) ?src ! j =
      (if start - blockOff \<le> j \<and> j < start - blockOff + (fin - start) then ?src ! (j - (start - blockOff)) else buf ! j)"
    using copy_into_nth [OF fit] assms(1) src by simp
  also have "\<dots> = img (blockOff + j)"
  proof (cases "start - blockOff \<le> j \<and> j < start - blockOff + (fin - start)")
    case True
    then have r: "off \<le> blockOff + j" "blockOff + j < off + length data" using assms(3,4,5) by auto
    have k: "j - (start - blockOff) < fin - start" "start - off \<le> length data"
      using True assms(3,4,5) by (linarith, auto)
    have "?src ! (j - (start - blockOff)) = data ! (start - off + (j - (start - blockOff)))"
      using k by simp
    also have "start - off + (j - (start - blockOff)) = blockOff + j - off"
      using True assms(3) by auto
    finally show ?thesis using True assms(7) [OF r] by simp
  next
    case False
    then have "blockOff + j < off \<or> off + length data \<le> blockOff + j" using j assms(3,4) by auto
    then show ?thesis using False assms(6) [OF j] by auto
  qed
  also have "\<dots> = img_block img b ! j"
    using j assms(2) by (simp add: img_block_def file_simps)
  finally show "copy_into buf (start - blockOff) ?src ! j = img_block img b ! j" .
qed


lemma captureWrite_block_sound:
  assumes "sound_reads io" "bufs_ok d" "data \<noteq> []"
    and touch: "off div BlockSize \<le> unat b" "unat b \<le> (off + length data - 1) div BlockSize"
    and old: "\<And>buf j. fmlookup (d_active d) b = Some buf \<Longrightarrow> j < BlockSize \<Longrightarrow>
      unat b * BlockSize + j < off \<or> off + length data \<le> unat b * BlockSize + j \<Longrightarrow>
      buf ! j = d_file d (unat b * BlockSize + j)"
    and new: "\<And>i. off \<le> i \<Longrightarrow> i < off + length data \<Longrightarrow> d_file d i = data ! (i - off)"
  shows "\<exists>d'. captureWrite_block io data (int off) b d = (d', Inr ()) \<and> capture_step d b d'"
proof -
  obtain buf ex d1 where ab: "active_buf d b = (buf, ex, d1)" by (cases "active_buf d b") auto
  note A = active_buf_ok [OF assms(2) ab]
  define bo where "bo = unat b * BlockSize"
  define st where "st = max off bo"
  define fi where "fi = min (off + length data) (bo + BlockSize)"
  have ints: "uint b * DefaultBlockSize = int bo" "max (int off) (int bo) = int st"
    "min (int off + int (length data)) (int bo + DefaultBlockSize) = int fi"
    by (simp_all add: bo_def st_def fi_def BlockSize_simps(2) of_nat_max of_nat_min)
  have "off div BlockSize < unat b + 1" using touch(1) by simp
  then have t1: "off < bo + BlockSize" by (simp add: div_less_iff_less_mult bo_def)
  have "bo \<le> off + length data - 1" using touch(2) by (simp add: bo_def less_eq_div_iff_mult_less_eq)
  then have t2: "bo < off + length data" using assms(3) by (cases data) auto
  from t1 t2 have sf: "st \<le> fi" by (auto simp: st_def fi_def)
  have copy: "copy_into x (st - bo) (take (fi - st) (drop (st - off) data)) = img_block (d_file d) b"
    if "length x = BlockSize" "\<And>j. j < BlockSize \<Longrightarrow> bo + j < off \<or> off + length data \<le> bo + j \<Longrightarrow> x ! j = d_file d (bo + j)" for x
    using copy_block [OF that(1) bo_def st_def fi_def sf that(2) new] by blast
  have nats: "nat (int st - int bo) = st - bo" "nat (int fi - int st) = fi - st" "nat (int st - int off) = st - off"
    by (simp_all add: nat_diff_distrib')
  have eqs: "(int st \<noteq> int bo \<or> int fi \<noteq> int bo + DefaultBlockSize) = (st \<noteq> bo \<or> fi \<noteq> bo + BlockSize)"
    by (metis BlockSize_simps(2) of_nat_add of_nat_eq_iff)
  have unf: "captureWrite_block io data (int off) b d =
     (let src = take (fi - st) (drop (st - off) data) in
      if \<not> ex \<and> (st \<noteq> bo \<or> fi \<noteq> bo + BlockSize)
      then (case file_ReadAt io (d_file d1) buf bo of (buf', err) \<Rightarrow>
              if err \<noteq> None \<and> err \<noteq> Some EOF then (put_buf b buf' d1, Inl (the err))
              else (put_buf b (copy_into buf' (st - bo) src) d1, Inr ()))
      else (put_buf b (copy_into buf (st - bo) src) d1, Inr ()))"
    unfolding captureWrite_block_def Let_def ints ab split nats eqs nat_int ..
  have "captureWrite_block io data (int off) b d = (put_buf b (img_block (d_file d) b) d1, Inr ())"
  proof (cases "\<not> ex \<and> (st \<noteq> bo \<or> fi \<noteq> bo + BlockSize)")
    case True
    have "file_ReadAt io (d_file d1) buf bo = (img_block (d_file d) b, None)"
      using A(1,4) assms(1) by (simp add: file_simps img_block_def bo_def)
    moreover have "copy_into (img_block (d_file d) b) (st - bo) (take (fi - st) (drop (st - off) data)) = img_block (d_file d) b"
      by (rule copy) (simp_all add: img_block_def bo_def file_simps)
    ultimately show ?thesis
      using True unfolding unf Let_def by simp
  next
    case False
    have "copy_into buf (st - bo) (take (fi - st) (drop (st - off) data)) = img_block (d_file d) b"
    proof (rule copy [OF A(1)])
      fix j assume j: "j < BlockSize" "bo + j < off \<or> off + length data \<le> bo + j"
      then have ex using False by (auto simp: st_def fi_def)
      then show "buf ! j = d_file d (bo + j)" using old [OF A(3)] j by (simp add: bo_def)
    qed
    with False show ?thesis unfolding unf Let_def by (simp only: if_False)
  qed
  then show ?thesis using A(5) by blast
qed

lemma capture_step_sel:
  assumes "capture_step d b d1"
  shows "d_file d1 = d_file d" "d_active d1 = fmupd b (img_block (d_file d) b) (d_active d)" "bufs_ok d1"
proof -
  have eq: "d1 = d\<lparr>d_active := fmupd b (img_block (d_file d) b) (d_active d),
            d_dirty := d_dirty d + (if fmlookup (d_active d) b = None then DefaultBlockSize else 0),
            blockPool := blockPool d1\<rparr>" "bufs_ok d1"
    using assms unfolding capture_step_def by blast+
  show "d_file d1 = d_file d" "d_active d1 = fmupd b (img_block (d_file d) b) (d_active d)" "bufs_ok d1"
    by (subst eq(1), simp, subst eq(1), simp, rule eq(2))
qed

definition write_ready :: "bytes \<Rightarrow> nat \<Rightarrow> u64 \<Rightarrow> 'h Device \<Rightarrow> bool" where
  "write_ready data off b d \<longleftrightarrow>
     off div BlockSize \<le> unat b \<and> unat b \<le> (off + length data - 1) div BlockSize \<and>
     (\<forall>buf j. fmlookup (d_active d) b = Some buf \<longrightarrow> j < BlockSize \<longrightarrow>
        unat b * BlockSize + j < off \<or> off + length data \<le> unat b * BlockSize + j \<longrightarrow>
        buf ! j = d_file d (unat b * BlockSize + j))"

lemma captureWrite_loop_sound:
  assumes "sound_reads io" "data \<noteq> []" "bufs_ok d" "distinct bs" "\<forall>b\<in>set bs. write_ready data off b d"
    "\<And>i. off \<le> i \<Longrightarrow> i < off + length data \<Longrightarrow> d_file d i = data ! (i - off)"
  shows "\<exists>d'. captureWrite_loop io data (int off) d bs = (d', Inr ()) \<and> capture_result d bs d'"
  using assms(3-6)
proof (induction bs arbitrary: d)
  case Nil
  then show ?case by (simp add: capture_result_Nil)
next
  case (Cons b bs)
  have rb: "write_ready data off b d" using Cons.prems(3) by simp
  obtain d1 where d1: "captureWrite_block io data (int off) b d = (d1, Inr ())" "capture_step d b d1"
    using captureWrite_block_sound [OF assms(1) Cons.prems(1) assms(2), of off b] rb Cons.prems(4)
    unfolding write_ready_def by blast
  have sel: "d_file d1 = d_file d" "d_active d1 = fmupd b (img_block (d_file d) b) (d_active d)" "bufs_ok d1"
    using capture_step_sel [OF d1(2)] by auto
  have "\<forall>b'\<in>set bs. write_ready data off b' d1"
    using Cons.prems(2,3) by (auto simp: write_ready_def sel)
  with Cons.IH [of d1] Cons.prems(2,4) sel obtain d' where
    "captureWrite_loop io data (int off) d1 bs = (d', Inr ())" "capture_result d1 bs d'" by auto
  then show ?case using d1 capture_result_Cons [OF d1(2)] Cons.prems(2) by auto
qed

lemma capture_result_sel:
  assumes "capture_result d bs d'"
  shows "d_file d' = d_file d" "d_active d' = captured (d_file d) bs (d_active d)" "d_size d' = d_size d"
    "d_hydrator d' = d_hydrator d" "d_closed d' = d_closed d" "bufs_ok d'"
    "d_dirty d' = d_dirty d + fresh_count (d_active d) bs * DefaultBlockSize"
    "maxDirty d' = maxDirty d"
proof -
  have eq: "d' = d\<lparr>d_active := captured (d_file d) bs (d_active d),
            d_dirty := d_dirty d + fresh_count (d_active d) bs * DefaultBlockSize,
            blockPool := blockPool d'\<rparr>" "bufs_ok d'"
    using assms unfolding capture_result_def by blast+
  show "d_file d' = d_file d" "d_active d' = captured (d_file d) bs (d_active d)" "d_size d' = d_size d"
    "d_hydrator d' = d_hydrator d" "d_closed d' = d_closed d"
    "d_dirty d' = d_dirty d + fresh_count (d_active d) bs * DefaultBlockSize"
    "maxDirty d' = maxDirty d" by (subst eq(1), simp)+
  show "bufs_ok d'" by (rule eq(2))
qed

section \<open>Dirty accounting\<close>

definition active_bytes :: "'h Device \<Rightarrow> int" where
  "active_bytes d = int (fcard (fmdom (d_active d))) * DefaultBlockSize"

text \<open>The dirty bytes that belong to sealed generations.\<close>

definition balance :: "'h Device \<Rightarrow> int" where
  "balance d = d_dirty d - active_bytes d"

lemma fresh_count_card:
  "distinct bs \<Longrightarrow> int (fcard (fmdom (captured img bs m))) = int (fcard (fmdom m)) + fresh_count m bs"
proof (induction bs arbitrary: m)
  case Nil
  then show ?case by (simp add: captured_def fresh_count_def)
next
  case (Cons b bs)
  have "int (fcard (fmdom (fmupd b x m))) = int (fcard (fmdom m)) + (if fmlookup m b = None then 1 else 0)" for x
    by (auto simp: fcard_finsert_if fmdom_notI fmlookup_dom_iff dest: fmdom_notD)
  with Cons fresh_count_Cons [of b bs m "img_block img b"] show ?case by (simp add: captured_Cons)
qed

lemma capture_result_dirty:
  assumes "capture_result d bs d'" "distinct bs"
  shows "balance d' = balance d"
  using fresh_count_card [OF assms(2), of "d_file d" "d_active d"]
  by (simp add: capture_result_sel [OF assms(1)] balance_def active_bytes_def algebra_simps flip: distrib_right)

section \<open>Bytes and blocks\<close>

lemma in_range_touched: "0 \<le> off \<Longrightarrow> off \<le> int i \<Longrightarrow> int i < off + n \<Longrightarrow> touched off n i"
  by (auto simp: touched_def BlockSize_simps(2) [symmetric] zdiv_int intro!: zdiv_mono1)

lemma img_block_nth: "int i < 2 ^ 63 \<Longrightarrow> img_block img (blk i) ! (i mod BlockSize) = img i"
  by (simp add: img_block_def file_simps blk_unat)

lemma overlay_lt: "int i < 2 ^ 63 \<Longrightarrow>
    overlay f img i = (case f (blk i) of None \<Rightarrow> img i | Some d \<Rightarrow> d ! (i mod BlockSize))"
proof -
  assume "int i < 2 ^ 63"
  then have "i div BlockSize < 2 ^ 64" by (simp add: BlockSize_simps)
  then show ?thesis by (simp add: overlay_def blk_def)
qed

lemma block_index:
  assumes "int (unat b) < sz div DefaultBlockSize" "sz < 2 ^ 63" "j < BlockSize"
  shows "int (unat b * BlockSize + j) < sz" "blk (unat b * BlockSize + j) = b"
    "(unat b * BlockSize + j) mod BlockSize = j" "(unat b * BlockSize + j) div BlockSize = unat b"
proof -
  show d: "(unat b * BlockSize + j) div BlockSize = unat b"
    using assms(3) by simp
  show "(unat b * BlockSize + j) mod BlockSize = j" using assms(3) by simp
  show "blk (unat b * BlockSize + j) = b" unfolding blk_def d by simp
  have "int (unat b) + 1 \<le> sz div 4096" using assms(1) by (simp add: DefaultBlockSize_def)
  then have "(int (unat b) + 1) * 4096 \<le> sz div 4096 * 4096" by (intro mult_right_mono) auto
  also have "\<dots> \<le> sz" by presburger
  finally have "(int (unat b) + 1) * 4096 \<le> sz" .
  then show "int (unat b * BlockSize + j) < sz" using assms(3) by (simp add: BlockSize_simps)
qed

lemma touched_nat:
  "touched (int k) (int n) i \<longleftrightarrow> 0 < n \<and> k div BlockSize \<le> i div BlockSize \<and> i div BlockSize \<le> (k + n - 1) div BlockSize"
proof (cases n)
  case (Suc m)
  have "(int k + int (Suc m) - 1) div int BlockSize = int ((k + m) div BlockSize)" by (simp add: zdiv_int)
  moreover have "int k div int BlockSize = int (k div BlockSize)" by (simp add: zdiv_int)
  ultimately show ?thesis unfolding touched_def BlockSize_simps(2) [symmetric] Suc by simp
qed (simp add: touched_def)

lemma touched_mono: "n \<le> n' \<Longrightarrow> touched off n i \<Longrightarrow> touched off n' i"
  by (auto simp: touched_def DefaultBlockSize_def intro: order_trans zdiv_mono1)

lemma touched_block:
  "touched (uint b * DefaultBlockSize) DefaultBlockSize i \<longleftrightarrow> i div BlockSize = unat b"
proof -
  have "touched (int (unat b * BlockSize)) (int BlockSize) i \<longleftrightarrow> i div BlockSize = unat b"
    unfolding touched_nat by (auto simp: BlockSize_simps)
  then show ?thesis by (simp add: BlockSize_simps(2))
qed

lemma block_in_image:
  assumes "int (unat b) < d_size d div DefaultBlockSize"
  shows "in_image d (uint b * DefaultBlockSize) DefaultBlockSize"
proof -
  have "int (unat b) + 1 \<le> d_size d div 4096" using assms by (simp add: DefaultBlockSize_def)
  then have "(int (unat b) + 1) * 4096 \<le> d_size d div 4096 * 4096" by (intro mult_right_mono) auto
  also have "\<dots> \<le> d_size d" by presburger
  finally show ?thesis by (simp add: in_image_def DefaultBlockSize_def)
qed

lemma overlay_at: "img i = overlay h img0 i \<Longrightarrow> overlay f img i = overlay (h ++ f) img0 i"
proof -
  assume "img i = overlay h img0 i"
  then have "overlay f img i = overlay f (overlay h img0) i" by (simp add: overlay_def split: option.split)
  then show ?thesis by (simp add: overlay_overlay)
qed

end
