(* ===== verification/DeviceRun.thy ===== *)
theory DeviceRun
  imports Device
begin

text \<open>
  Correctness of the block device of \<open>Device\<close>. The lazy image is used only through the
  contract \<open>hydrator_laws\<close>; inside it, every operation is shown to keep the replication
  invariant \<open>tracks\<close> (the content is the published image with the queued generations and the
  active blocks on top), and runs of the device keep \<open>run_inv\<close>.
\<close>

section \<open>The contract of the lazy image\<close>

text \<open>
  What a call that loads data may do: bytes that were valid stay as they are, and bytes that
  become valid get the value of the source. Bytes that are still invalid may hold anything,
  as after a load that failed half way.
\<close>

definition hyd_keeps ::
  "'h residency \<Rightarrow> 'h source \<Rightarrow> ('h \<Rightarrow> bool) \<Rightarrow> ('h \<Rightarrow> int) \<Rightarrow> 'h \<Rightarrow> image \<Rightarrow> 'h \<Rightarrow> image \<Rightarrow> bool" where
  "hyd_keeps res src hinv hsize h img h' img' \<longleftrightarrow>
     hinv h' \<and> hsize h' = hsize h \<and> src h' = src h \<and>
     (\<forall>i. res h i \<longrightarrow> res h' i \<and> img' i = img i) \<and>
     (\<forall>i. res h' i \<and> \<not> res h i \<longrightarrow> img' i = src h i)"

locale hydrator_laws =
  fixes ops :: "'h hydrator_ops" and res :: "'h residency" and src :: "'h source"
    and hinv :: "'h \<Rightarrow> bool" and hsize :: "'h \<Rightarrow> int"
  assumes hydrate_keeps:
      "hinv h \<Longrightarrow> Hydrate ops h img off n = (img', h', r) \<Longrightarrow> hyd_keeps res src hinv hsize h img h' img'"
    and hydrate_ok:
      "hinv h \<Longrightarrow> Hydrate ops h img off n = (img', h', Inr ()) \<Longrightarrow> 0 \<le> off \<Longrightarrow> off + n \<le> hsize h \<Longrightarrow>
         off \<le> int i \<Longrightarrow> int i < off + n \<Longrightarrow> res h' i"
    and prepare_keeps:
      "hinv h \<Longrightarrow> PrepareWrite ops h img off n = (img', h', r) \<Longrightarrow> hyd_keeps res src hinv hsize h img h' img'"
    and prepare_ok:
      "hinv h \<Longrightarrow> PrepareWrite ops h img off n = (img', h', Inr ()) \<Longrightarrow> 0 \<le> off \<Longrightarrow> 0 \<le> n \<Longrightarrow> off + n \<le> hsize h \<Longrightarrow>
         touched off n i \<Longrightarrow> \<not> (off \<le> int i \<and> int i < off + n) \<Longrightarrow> res h' i"
    and commit_wf:
      "hinv h \<Longrightarrow> 0 \<le> off \<Longrightarrow> 0 \<le> n \<Longrightarrow> off + n \<le> hsize h \<Longrightarrow>
         hinv (CommitWrite ops h off n) \<and> hsize (CommitWrite ops h off n) = hsize h \<and>
         src (CommitWrite ops h off n) = src h"
    and commit_res:
      "hinv h \<Longrightarrow> 0 \<le> off \<Longrightarrow> 0 \<le> n \<Longrightarrow> off + n \<le> hsize h \<Longrightarrow> int i < hsize h \<Longrightarrow>
         res (CommitWrite ops h off n) i \<longleftrightarrow> res h i \<or> touched off n i"
begin

abbreviation "dwf \<equiv> dev_wf hinv hsize"
abbreviation "cont \<equiv> content res src"

definition safe_call :: "('h \<Rightarrow> image \<Rightarrow> int \<Rightarrow> int \<Rightarrow> image \<times> 'h \<times> unit result) \<Rightarrow> bool" where
  "safe_call f \<longleftrightarrow> (\<forall>h img off n img' h' r. hinv h \<longrightarrow> f h img off n = (img', h', r) \<longrightarrow>
     hyd_keeps res src hinv hsize h img h' img')"

lemma safe_calls: "safe_call (Hydrate ops)" "safe_call (PrepareWrite ops)"
  using hydrate_keeps prepare_keeps unfolding safe_call_def by blast+

lemma call_hydrate_fields:
  assumes "call_hydrate f d off n = (d', r)"
  shows "d_active d' = d_active d" "d_size d' = d_size d" "d_closed d' = d_closed d"
    "d_dirty d' = d_dirty d" "maxDirty d' = maxDirty d" "balance d' = balance d"
  using assms by (auto simp: call_hydrate_def balance_def active_bytes_def split: option.splits prod.splits)

lemma call_hydrate_keeps:
  assumes "safe_call f" "dwf d" "call_hydrate f d off n = (d', r)"
  shows "dwf d'" "cont d' = cont d" "dev_resident res d i \<Longrightarrow> dev_resident res d' i"
proof -
  show "dwf d'" "cont d' = cont d" "dev_resident res d i \<Longrightarrow> dev_resident res d' i"
  proof (atomize (full), cases "d_hydrator d")
    case None
    then show "dwf d' \<and> cont d' = cont d \<and> (dev_resident res d i \<longrightarrow> dev_resident res d' i)"
      using assms by (simp add: call_hydrate_def)
  next
    case (Some h)
    obtain img h' where c: "f h (d_file d) off n = (img, h', r)"
      and d': "d' = d\<lparr>d_file := img, d_hydrator := Some h'\<rparr>"
      using assms(3) Some by (auto simp: call_hydrate_def split: prod.splits)
    have h: "hinv h" "hsize h = d_size d" using assms(2) Some by (auto simp: dev_wf_def)
    have k: "hyd_keeps res src hinv hsize h (d_file d) h' img"
      using assms(1) h(1) c unfolding safe_call_def by blast
    have "dwf d'" using assms(2) k h(2) by (auto simp: dev_wf_def d' hyd_keeps_def)
    moreover have "cont d' = cont d"
      using k by (auto simp: content_def d' Some hyd_keeps_def fun_eq_iff)
    moreover have "dev_resident res d i \<longrightarrow> dev_resident res d' i"
      using k by (auto simp: dev_resident_def d' Some hyd_keeps_def)
    ultimately show "dwf d' \<and> cont d' = cont d \<and> (dev_resident res d i \<longrightarrow> dev_resident res d' i)" by blast
  qed
qed

lemma call_hydrate_tracks:
  assumes "safe_call f" "dwf d" "call_hydrate f d off n = (d', r)" "tracks res src base d"
  shows "tracks res src base d'"
  using assms(4) call_hydrate_keeps [OF assms(1-3)] call_hydrate_fields [OF assms(3)]
  by (auto simp: tracks_def)

lemma call_commit_fields:
  "d_active (call_commit ops d off n) = d_active d" "d_size (call_commit ops d off n) = d_size d"
  "d_file (call_commit ops d off n) = d_file d" "d_closed (call_commit ops d off n) = d_closed d"
  "blockPool (call_commit ops d off n) = blockPool d" "balance (call_commit ops d off n) = balance d"
  by (simp_all add: call_commit_def balance_def active_bytes_def)

lemma call_commit_keeps:
  assumes "\<forall>h. d_hydrator d = Some h \<longrightarrow> hinv h \<and> hsize h = d_size d" "in_image d off n"
  shows "\<forall>h. d_hydrator (call_commit ops d off n) = Some h \<longrightarrow> hinv h \<and> hsize h = d_size d"
    and "int i < d_size d \<Longrightarrow> dev_resident res (call_commit ops d off n) i \<longleftrightarrow> dev_resident res d i \<or> touched off n i"
    and "int i < d_size d \<Longrightarrow> cont (call_commit ops d off n) i = (if touched off n i then d_file d i else cont d i)"
  using assms commit_wf commit_res
  by (auto simp: call_commit_def dev_resident_def content_def in_image_def split: option.splits)

lemma commit_capture:
  assumes d1: "dwf d1" "tracks res src base d1" and im: "in_image d1 off n"
    and same: "\<And>i. \<not> (off \<le> int i \<and> int i < off + n) \<Longrightarrow> img2 i = d_file d1 i"
    and range: "blockRange off n = (f, l)"
    and d2: "capture_result (d1\<lparr>d_file := img2, localDirty := ld\<rparr>) (block_seq f l) d2"
    and d3: "d3 = call_commit ops d2 off n"
  shows "dwf d3" "tracks res src base d3" "d_size d3 = d_size d1"
    "int i < d_size d1 \<Longrightarrow> cont d3 i = (if touched off n i then img2 i else cont d1 i)"
proof -
  note S = capture_result_sel [OF d2, simplified]
  have sz: "d_size d1 < 2 ^ 63" using d1(1) by (simp add: dev_wf_def)
  have seq: "blk i \<in> set (block_seq f l) \<longleftrightarrow> touched off n i" if "int i < d_size d1" for i
    using blockRange_touched [OF _ _ _ sz range, of i] im that sz by (auto simp: in_image_def)
  have hyd: "\<forall>h. d_hydrator d2 = Some h \<longrightarrow> hinv h \<and> hsize h = d_size d2"
    using d1(1) S by (simp add: dev_wf_def)
  have im2: "in_image d2 off n" using im S by (simp add: in_image_def)
  note C = call_commit_keeps [OF hyd im2, folded d3]
  note F = call_commit_fields [of d2 off n, folded d3]
  show size: "d_size d3 = d_size d1" using F S by simp
  have cont2: "cont d2 i = cont d1 i" if "\<not> touched off n i" for i
  proof -
    have "\<not> (off \<le> int i \<and> int i < off + n)"
      using that in_range_touched [of off i n] im by (auto simp: in_image_def)
    then show ?thesis using same S by (simp add: content_def split: option.split)
  qed
  show cont: "cont d3 i = (if touched off n i then img2 i else cont d1 i)" if "int i < d_size d1" for i
    using C(3) [of i] that S cont2 by simp
  have act: "fmlookup (d_active d3) (blk i) = (if touched off n i then Some (img_block img2 (blk i))
      else fmlookup (d_active d1) (blk i))" if "int i < d_size d1" for i
    using seq [OF that] F S by (simp add: fmlookup_captured)
  show "tracks res src base d3"
    unfolding tracks_def size
  proof (intro allI impI)
    fix i assume i: "int i < d_size d1"
    then have lt: "int i < 2 ^ 63" using sz by simp
    have t: "cont d1 i = overlay (fmlookup (d_active d1)) base i"
      "fmlookup (d_active d1) (blk i) \<noteq> None \<longrightarrow> dev_resident res d1 i"
      using d1(2) i by (auto simp: tracks_def)
    have "dev_resident res d2 i = dev_resident res d1 i" using S by (simp add: dev_resident_def)
    then show "cont d3 i = overlay (fmlookup (d_active d3)) base i \<and>
        (fmlookup (d_active d3) (blk i) \<noteq> None \<longrightarrow> dev_resident res d3 i)"
      using t C(2) [of i] i S by (simp add: cont [OF i] overlay_lt [OF lt] act [OF i] img_block_nth [OF lt])
  qed
  have "int (unat b) < d_size d1 div DefaultBlockSize" if "b \<in> set (block_seq f l)" for b
    using blockRange_bound [OF im _ sz range that] d1(1) by (simp add: dev_wf_def)
  then show "dwf d3"
    using d1(1) C(1) S(6) F S by (auto simp: dev_wf_def bufs_ok_def fmlookup_captured split: if_splits)
qed

end

context hydrator_laws
begin

lemma notify_keeps:
  assumes "notifyDirty d = (d', evs)"
  shows "dwf d' = dwf d" "tracks res src base d' = tracks res src base d" "cont d' = cont d" "d_size d' = d_size d"
    "balance d' = balance d"
proof -
  have "content res src (d\<lparr>dirtyNotified := x\<rparr>) = cont d" "dev_resident res (d\<lparr>dirtyNotified := x\<rparr>) = dev_resident res d" for x
    by (auto simp: content_def dev_resident_def fun_eq_iff split: option.split)
  then show "dwf d' = dwf d" "tracks res src base d' = tracks res src base d" "cont d' = cont d" "d_size d' = d_size d"
    "balance d' = balance d"
    using assms by (auto simp: notifyDirty_def dev_wf_def tracks_def balance_def active_bytes_def split: if_splits)
qed

lemma active_byte:
  assumes "dwf d" "tracks res src base d" "fmlookup (d_active d) b = Some buf" "j < BlockSize"
  shows "buf ! j = d_file d (unat b * BlockSize + j)"
proof -
  have b: "int (unat b) < d_size d div DefaultBlockSize" "d_size d < 2 ^ 63"
    using assms(1,3) by (auto simp: dev_wf_def)
  note B = block_index [OF b assms(4)]
  have "int (unat b * BlockSize + j) < 2 ^ 63" using B(1) b(2) by simp
  note O = overlay_lt [OF this]
  have "dev_resident res d (unat b * BlockSize + j)"
      "cont d (unat b * BlockSize + j) = overlay (fmlookup (d_active d)) base (unat b * BlockSize + j)"
    using assms(2,3) B by (auto simp: tracks_def)
  then show ?thesis
    using assms(3,4) by (simp add: O B content_def dev_resident_def split: option.splits)
qed

lemma dwf_bufs: "dwf d \<Longrightarrow> bufs_ok d"
  by (auto simp: dev_wf_def bufs_ok_def)

lemma WriteAt_capture:
  assumes io: "sound_reads io" and d1: "dwf d1" "tracks res src base d1"
    and im: "in_image d1 off (int (length data))" and ne: "data \<noteq> []"
    and range: "blockRange off (int (length data)) = (f, l)"
  shows "\<exists>d2. captureWrite io data off f l (d1\<lparr>d_file := file_write (d_file d1) (nat off) data, localDirty := True\<rparr>) = (d2, Inr ()) \<and>
    capture_result (d1\<lparr>d_file := file_write (d_file d1) (nat off) data, localDirty := True\<rparr>) (block_seq f l) d2"
proof -
  let ?d = "d1\<lparr>d_file := file_write (d_file d1) (nat off) data, localDirty := True\<rparr>"
  have off: "int (nat off) = off" "0 \<le> off" using im by (auto simp: in_image_def)
  have sz: "d_size d1 < 2 ^ 63" "d_size d1 mod DefaultBlockSize = 0" using d1(1) by (auto simp: dev_wf_def)
  have "write_ready data (nat off) b ?d" if b: "b \<in> set (block_seq f l)" for b
  proof -
    have bd: "int (unat b) < d_size d1 div DefaultBlockSize" by (rule blockRange_bound [OF im sz(2,1) range b])
    note B = block_index [OF bd sz(1), of 0]
    have "touched off (int (length data)) (unat b * BlockSize)"
      using blockRange_touched [OF _ _ _ sz(1) range, of "unat b * BlockSize"] b B im sz by (simp add: in_image_def)
    then have "nat off div BlockSize \<le> unat b" "unat b \<le> (nat off + length data - 1) div BlockSize"
      using touched_nat [of "nat off" "length data"] B(4) off by auto
    then show ?thesis
      using active_byte [OF d1] by (auto simp: write_ready_def file_write_def)
  qed
  then show ?thesis
    using captureWrite_loop_sound [OF io ne _ distinct_block_seq, of ?d f l "nat off"] dwf_bufs [OF d1(1)] off
    by (simp add: captureWrite_def bufs_ok_def file_write_def)
qed

end

text \<open>What an operation keeps: well-formedness, the size and the replication invariant.\<close>

definition dev_kept ::
  "'h residency \<Rightarrow> 'h source \<Rightarrow> ('h \<Rightarrow> bool) \<Rightarrow> ('h \<Rightarrow> int) \<Rightarrow> 'h Device \<Rightarrow> 'h Device \<Rightarrow> bool" where
  "dev_kept res src hinv hsize d d' \<longleftrightarrow> dev_wf hinv hsize d' \<and> d_size d' = d_size d \<and>
     (\<forall>base. tracks res src base d \<longrightarrow> tracks res src base d')"

definition same_outside :: "'h residency \<Rightarrow> 'h source \<Rightarrow> int \<Rightarrow> int \<Rightarrow> 'h Device \<Rightarrow> 'h Device \<Rightarrow> bool" where
  "same_outside res src off n d d' \<longleftrightarrow>
     (\<forall>i. int i < d_size d \<longrightarrow> \<not> (off \<le> int i \<and> int i < off + n) \<longrightarrow> content res src d' i = content res src d i)"

definition holds_data :: "'h residency \<Rightarrow> 'h source \<Rightarrow> int \<Rightarrow> bytes \<Rightarrow> 'h Device \<Rightarrow> bool" where
  "holds_data res src off data d \<longleftrightarrow> (\<forall>k < length data. content res src d (nat off + k) = data ! k)"

context hydrator_laws
begin

abbreviation "kept \<equiv> dev_kept res src hinv hsize"

lemma kept_refl: "dwf d \<Longrightarrow> kept d d"
  by (simp add: dev_kept_def)

lemma kept_trans: "kept a b \<Longrightarrow> kept b c \<Longrightarrow> kept a c"
  by (simp add: dev_kept_def)

lemma kept_hydrate:
  assumes "safe_call f" "dwf d" "call_hydrate f d off n = (d', r)"
  shows "kept d d'"
  using call_hydrate_keeps [OF assms] call_hydrate_fields [OF assms(3)] call_hydrate_tracks [OF assms]
  by (auto simp: dev_kept_def)

lemma prepare_resident:
  assumes "dwf d" "call_hydrate (PrepareWrite ops) d off n = (d', Inr ())" "in_image d off n"
    "touched off n i" "\<not> (off \<le> int i \<and> int i < off + n)"
  shows "dev_resident res d' i"
  using assms prepare_ok
  by (auto simp: call_hydrate_def dev_resident_def dev_wf_def in_image_def split: option.splits prod.splits)

lemma resident_content: "dev_resident res d i \<Longrightarrow> cont d i = d_file d i"
  by (auto simp: content_def dev_resident_def split: option.splits)

text \<open>Writing into the file, capturing and committing, from a prepared device.\<close>

lemma commit_effect:
  assumes d1: "dwf d1" and im: "in_image d1 off n" and mn: "0 \<le> m" "m \<le> n"
    and bound: "\<And>i. touched off n i \<Longrightarrow> \<not> (off \<le> int i \<and> int i < off + n) \<Longrightarrow> dev_resident res d1 i"
    and same: "\<And>i. \<not> (off \<le> int i \<and> int i < off + m) \<Longrightarrow> img2 i = d_file d1 i"
    and range: "blockRange off m = (f, l)"
    and tr: "tracks res src base d1"
    and d2: "capture_result (d1\<lparr>d_file := img2, localDirty := ld\<rparr>) (block_seq f l) d2"
    and d3: "d3 = call_commit ops d2 off m"
  shows "dwf d3" "tracks res src base d3" "d_size d3 = d_size d1" "same_outside res src off n d1 d3"
    "off \<le> int i \<Longrightarrow> int i < off + m \<Longrightarrow> cont d3 i = img2 i"
proof -
  have im': "in_image d1 off m" using im mn by (simp add: in_image_def)
  have C: "cont d3 i = (if touched off m i then img2 i else cont d1 i)" if "int i < d_size d1" for i
    by (rule commit_capture(4) [OF d1 tr im' _ range d2 d3 that]) (rule same)
  show "dwf d3" "tracks res src base d3" "d_size d3 = d_size d1"
    using commit_capture(1-3) [OF d1 tr im' _ range d2 d3] same by blast+
  show "cont d3 i = img2 i" if "off \<le> int i" "int i < off + m"
    using C [of i] in_range_touched [of off i m] that im' by (simp add: in_image_def)
  show "same_outside res src off n d1 d3"
    unfolding same_outside_def
  proof (intro allI impI)
    fix i assume i: "int i < d_size d1" "\<not> (off \<le> int i \<and> int i < off + n)"
    show "cont d3 i = cont d1 i"
    proof (cases "touched off m i")
      case True
      then have "dev_resident res d1 i" using bound touched_mono mn i(2) by blast
      then show ?thesis using C [OF i(1)] True same [of i] i(2) mn by (auto simp: resident_content)
    next
      case False
      then show ?thesis using C [OF i(1)] by simp
    qed
  qed
qed

lemma same_outside_refl: "cont d' = cont d \<Longrightarrow> same_outside res src off n d d'"
  by (simp add: same_outside_def)

definition write_post :: "bytes \<Rightarrow> int \<Rightarrow> image \<Rightarrow> 'h Device \<Rightarrow> 'h Device \<Rightarrow> (nat \<times> error option) outcome \<Rightarrow> bool" where
  "write_post p off base d d' out \<longleftrightarrow>
     dwf d' \<and> tracks res src base d' \<and> d_size d' = d_size d \<and> same_outside res src off (int (length p)) d d' \<and>
     balance d' = balance d \<and>
     (case out of Waiting \<Rightarrow> d' = d
      | Return (n, err) \<Rightarrow> holds_data res src off (take n p) d' \<and> (err = None \<longrightarrow> n = length p))"

text \<open>The part of \<open>WriteAt\<close> after \<open>PrepareWrite\<close> succeeded.\<close>

lemma WriteAt_prepared:
  assumes io: "sound_reads io" and d1: "dwf d1" "tracks res src base d1" and im: "in_image d1 off (int (length p))"
    and bound: "\<And>i. touched off (int (length p)) i \<Longrightarrow> \<not> (off \<le> int i \<and> int i < off + int (length p)) \<Longrightarrow> dev_resident res d1 i"
    and wr: "file_WriteAt io (d_file d1) p (nat off) = (img, n, err)" and fl: "blockRange off (int n) = (f, l)"
    and n: "n \<noteq> 0"
  shows "\<exists>d2. captureWrite io (take n p) off f l (d1\<lparr>d_file := img, localDirty := True\<rparr>) = (d2, Inr ()) \<and>
    (\<forall>d' evs. notifyDirty (call_commit ops d2 off (int n)) = (d', evs) \<longrightarrow> write_post p off base d1 d' (Return (n, err)))"
proof -
  note W = file_WriteAt_cases [OF wr]
  have len: "length (take n p) = n" "take n p \<noteq> []" using W(2) n by auto
  have off: "0 \<le> off" using im by (simp add: in_image_def)
  have im': "in_image d1 off (int (length (take n p)))" using im W(2) by (simp add: in_image_def)
  obtain d2 where d2: "captureWrite io (take n p) off f l (d1\<lparr>d_file := img, localDirty := True\<rparr>) = (d2, Inr ())"
      "capture_result (d1\<lparr>d_file := img, localDirty := True\<rparr>) (block_seq f l) d2"
    using WriteAt_capture [OF io d1 im' len(2)] fl unfolding len(1) W(1) by blast
  have same: "img i = d_file d1 i" if "\<not> (off \<le> int i \<and> int i < off + int n)" for i
    using that off len(1) by (auto simp: W(1) file_write_def)
  note E = commit_effect [OF d1(1) im _ _ bound same fl d1(2) d2(2) refl]
  have bal: "balance (call_commit ops d2 off (int n)) = balance d1"
    using capture_result_dirty [OF d2(2) distinct_block_seq] call_commit_fields(6) [of d2]
    by (simp add: balance_def active_bytes_def)
  have "write_post p off base d1 d' (Return (n, err))" if "notifyDirty (call_commit ops d2 off (int n)) = (d', evs)" for d' evs
  proof -
    note N = notify_keeps [OF that]
    have "cont d' (nat off + k) = take n p ! k" if "k < n" for k
      using E(5) [of "nat off + k"] off W len(1) that N(3) by (simp add: file_write_def)
    then show ?thesis
      using E(1-4) W(2,3) N bal by (simp add: write_post_def same_outside_def holds_data_def)
  qed
  with d2(1) show ?thesis by blast
qed

lemma write_post_trans:
  assumes "cont d1 = cont d" "d_size d1 = d_size d" "balance d1 = balance d" "write_post p off base d1 d' (Return x)"
  shows "write_post p off base d d' (Return x)"
  using assms by (auto simp: write_post_def same_outside_def)

lemma WriteAt_correct:
  assumes io: "sound_reads io" and d: "dwf d" "tracks res src base d"
    and w: "WriteAt ops io reported p off d = (d', evs, out)"
  shows "write_post p off base d d' out"
proof (cases "d_closed d \<or> off < 0 \<or> int (length p) > d_size d - off")
  case True
  then show ?thesis using w d by (auto simp: WriteAt_def write_post_def same_outside_def holds_data_def split: if_splits)
next
  case False
  have im: "in_image d off (int (length p))" using False by (simp add: in_image_def)
  obtain f l where fl: "blockRange off (int (length p)) = (f, l)" by fastforce
  obtain d1 r where pr: "call_hydrate (PrepareWrite ops) d off (int (length p)) = (d1, r)" by fastforce
  note K = call_hydrate_keeps [OF safe_calls(2) d(1) pr] call_hydrate_tracks [OF safe_calls(2) d(1) pr d(2)]
    call_hydrate_fields [OF pr]
  obtain img n err where wr: "file_WriteAt io (d_file d1) p (nat off) = (img, n, err)" by (metis prod_cases3)
  obtain af al where af: "blockRange off (int n) = (af, al)" by fastforce
  consider "must_wait d (newBlockCount d f l)" | e where "\<not> must_wait d (newBlockCount d f l)" "r = Inl e"
    | "\<not> must_wait d (newBlockCount d f l)" "r = Inr ()" by (cases r) auto
  then show ?thesis
  proof cases
    case 1
    then show ?thesis using w False fl d by (simp add: WriteAt_def write_post_def same_outside_def)
  next
    case 2
    then show ?thesis
      using w False fl pr K by (auto simp: WriteAt_def write_post_def same_outside_refl holds_data_def)
  next
    case 3
    note P = write_post_trans [OF K(2) K(6) K(10)]
    have im1: "in_image d1 off (int (length p))" using im K(6) by (simp add: in_image_def)
    show ?thesis
    proof (cases "n = 0")
      case True
      then have "img = d_file d1" using file_WriteAt_cases(1) [OF wr] by simp
      then have "d1\<lparr>d_file := img\<rparr> = d1" by simp
      then show ?thesis
        using w False fl 3 pr wr True K file_WriteAt_cases(3) [OF wr]
        by (auto simp: WriteAt_def write_post_def same_outside_refl holds_data_def)
    next
      case n: False
      from WriteAt_prepared [OF io K(1,4) im1 prepare_resident [OF d(1) pr [unfolded 3] im] wr af n]
      show ?thesis using P w False fl 3 pr wr n af
        by (auto simp: WriteAt_def Let_def split: prod.splits)
    qed
  qed
qed

end

lemma zero_loop_effect:
  "zero_loop io img off len w = (img', r) \<Longrightarrow> w \<le> len \<Longrightarrow>
     (\<forall>i. \<not> (off + w \<le> i \<and> i < off + len) \<longrightarrow> img' i = img i) \<and>
     (r = Inr () \<longrightarrow> (\<forall>i. off + w \<le> i \<and> i < off + len \<longrightarrow> img' i = 0))"
proof (induction io img off len w arbitrary: img' r rule: zero_loop.induct)
  case (1 io img off len w)
  show ?case
  proof (cases "w < len")
    case False
    then have "img' = img" using "1.prems"(1) by (subst (asm) zero_loop.simps) simp
    then show ?thesis using False by auto
  next
    case True
    define n where "n = min (min len 1048576) (len - w)"
    have n: "w + n \<le> len" "0 < n" using True by (auto simp: n_def)
    obtain img1 k err where wr: "file_WriteAt io img (replicate n 0) (off + w) = (img1, k, err)"
      by (metis prod_cases3)
    note W = file_WriteAt_cases [OF wr]
    have o: "img1 i = img i" if "\<not> (off + w \<le> i \<and> i < off + w + n)" for i
      using that W(1,2) by (auto simp: file_write_def)
    show ?thesis
    proof (cases err)
      case (Some e)
      then have "img' = img1" "r = Inl e"
        using "1.prems"(1) True wr by (auto simp: zero_loop.simps [of io img off len w] n_def [symmetric] Let_def)
      then show ?thesis using o n by auto
    next
      case None
      then have rec: "zero_loop io img1 off len (w + n) = (img', r)"
        using "1.prems"(1) True wr by (auto simp: zero_loop.simps [of io img off len w] n_def [symmetric] Let_def)
      have z: "img1 i = 0" if "off + w \<le> i" "i < off + w + n" for i
        using that W None by (simp add: file_write_def)
      have IH: "(\<forall>i. \<not> (off + (w + n) \<le> i \<and> i < off + len) \<longrightarrow> img' i = img1 i) \<and>
          (r = Inr () \<longrightarrow> (\<forall>i. off + (w + n) \<le> i \<and> i < off + len \<longrightarrow> img' i = 0))"
        using "1.IH" [OF True n_def wr [symmetric]] None rec n(1) by simp
      have "img' i = img i" if "\<not> (off + w \<le> i \<and> i < off + len)" for i
      proof -
        have "\<not> (off + (w + n) \<le> i \<and> i < off + len)" "\<not> (off + w \<le> i \<and> i < off + w + n)"
          using that n(1) by linarith+
        then show ?thesis using IH o by simp
      qed
      moreover have "img' i = 0" if "r = Inr ()" "off + w \<le> i" "i < off + len" for i
        using IH [THEN conjunct1, rule_format, of i] IH [THEN conjunct2, rule_format, of i] z [of i] that
        by (cases "i < off + w + n") (auto simp: add.assoc)
      ultimately show ?thesis by blast
    qed
  qed
qed

lemma zero_loop_sound: "sound_io io \<Longrightarrow> \<exists>img'. zero_loop io img off len w = (img', Inr ())"
proof (induction io img off len w rule: zero_loop.induct)
  case (1 io img off len w)
  then show ?case
    by (cases "w < len") (auto simp: zero_loop.simps [of io img off len w] Let_def file_simps)
qed

lemma punch_or_zero_effect:
  assumes "punch_or_zero io img off len = (img', r)"
  shows "\<not> (off \<le> i \<and> i < off + len) \<Longrightarrow> img' i = img i"
    and "r = Inr () \<Longrightarrow> off \<le> i \<Longrightarrow> i < off + len \<Longrightarrow> img' i = 0"
    and "sound_io io \<Longrightarrow> r = Inr ()"
  using assms zero_loop_effect [of io img off len 0 img' r] zero_loop_sound [of io img off len 0]
  by (auto simp: punch_or_zero_def file_write_def split: if_splits)

context hydrator_laws
begin

definition trim_post :: "fileio \<Rightarrow> int \<Rightarrow> int \<Rightarrow> image \<Rightarrow> 'h Device \<Rightarrow> 'h Device \<Rightarrow> error option outcome \<Rightarrow> bool" where
  "trim_post io off n base d d' out \<longleftrightarrow>
     dwf d' \<and> d_size d' = d_size d \<and> same_outside res src off n d d' \<and> balance d' = balance d \<and>
     (case out of Waiting \<Rightarrow> d' = d
      | Return err \<Rightarrow> (err = None \<longrightarrow> holds_data res src off (replicate (nat n) 0) d') \<and>
          (err = None \<or> sound_io io \<longrightarrow> tracks res src base d'))"

lemma Trim_prepared:
  assumes io: "sound_reads io" and d1: "dwf d1" "tracks res src base d1" and im: "in_image d1 off n"
    and bound: "\<And>i. touched off n i \<Longrightarrow> \<not> (off \<le> int i \<and> int i < off + n) \<Longrightarrow> dev_resident res d1 i"
    and z: "punch_or_zero io (d_file d1) (nat off) (nat n) = (img, Inr ())" and fl: "blockRange off n = (f, l)"
  shows "\<exists>d2. capture io f l (d1\<lparr>d_file := img\<rparr>) = (d2, Inr ()) \<and>
    (\<forall>d' evs. notifyDirty (let d3 = call_commit ops d2 off n in if n > 0 then d3\<lparr>localDirty := True\<rparr> else d3) = (d', evs) \<longrightarrow>
       trim_post io off n base d1 d' (Return None))"
proof -
  note Z = punch_or_zero_effect [OF z]
  have off: "0 \<le> off" "0 \<le> n" using im by (auto simp: in_image_def)
  let ?ld = "localDirty d1"
  have upd: "d1\<lparr>d_file := img\<rparr> = d1\<lparr>d_file := img, localDirty := ?ld\<rparr>" by simp
  have "bufs_ok (d1\<lparr>d_file := img\<rparr>)" using dwf_bufs [OF d1(1)] by (simp add: bufs_ok_def)
  then obtain d2 where d2: "capture io f l (d1\<lparr>d_file := img\<rparr>) = (d2, Inr ())"
      "capture_result (d1\<lparr>d_file := img, localDirty := ?ld\<rparr>) (block_seq f l) d2"
    using capture_loop_sound [OF io _ distinct_block_seq] unfolding capture_def upd [symmetric] by blast
  have same: "img i = d_file d1 i" if "\<not> (off \<le> int i \<and> int i < off + n)" for i
    by (rule Z(1)) (use that off in linarith)
  note E = commit_effect [OF d1(1) im off(2) order_refl bound same fl d1(2) d2(2) refl]
  have bal: "balance (call_commit ops d2 off n) = balance d1"
    using capture_result_dirty [OF d2(2) distinct_block_seq] call_commit_fields(6) [of d2]
    by (simp add: balance_def active_bytes_def)
  have "trim_post io off n base d1 d' (Return None)"
    if nd: "notifyDirty (let d3 = call_commit ops d2 off n in if n > 0 then d3\<lparr>localDirty := True\<rparr> else d3) = (d', evs)" for d' evs
  proof -
    note N = notify_keeps [OF nd]
    let ?d3 = "call_commit ops d2 off n"
    have L: "dwf (?d3\<lparr>localDirty := x\<rparr>) = dwf ?d3" "tracks res src base (?d3\<lparr>localDirty := x\<rparr>) = tracks res src base ?d3"
      "cont (?d3\<lparr>localDirty := x\<rparr>) = cont ?d3" "balance (?d3\<lparr>localDirty := x\<rparr>) = balance ?d3" for x
      by (auto simp: balance_def active_bytes_def dev_wf_def tracks_def content_def dev_resident_def fun_eq_iff split: option.split)
    have C: "cont d' = cont ?d3" "dwf d'" "tracks res src base d'" "d_size d' = d_size d1" "balance d' = balance d1"
      using N L bal E(1-3) by (auto simp: Let_def split: if_splits)
    have "cont d' (nat off + k) = 0" if "k < nat n" for k
      using E(5) [of "nat off + k"] Z(2) [of "nat off + k"] off that C(1) by simp
    then show ?thesis
      using C E(4) by (simp add: trim_post_def same_outside_def holds_data_def)
  qed
  with d2(1) show ?thesis by blast
qed

end

context hydrator_laws
begin

lemma trim_post_trans:
  assumes "cont d1 = cont d" "d_size d1 = d_size d" "balance d1 = balance d" "trim_post io off n base d1 d' (Return x)"
  shows "trim_post io off n base d d' (Return x)"
  using assms by (auto simp: trim_post_def same_outside_def)

lemma Trim_correct:
  assumes io: "sound_reads io" and d: "dwf d" "tracks res src base d"
    and w: "Trim ops io reported off n d = (d', evs, out)"
  shows "trim_post io off n base d d' out"
proof (cases "d_closed d \<or> off < 0 \<or> n < 0 \<or> n > d_size d - off")
  case True
  then show ?thesis using w d by (auto simp: Trim_def trim_post_def same_outside_def split: if_splits)
next
  case False
  have im: "in_image d off n" using False by (simp add: in_image_def)
  obtain f l where fl: "blockRange off n = (f, l)" by fastforce
  obtain d1 r where pr: "call_hydrate (PrepareWrite ops) d off n = (d1, r)" by fastforce
  note K = call_hydrate_keeps [OF safe_calls(2) d(1) pr] call_hydrate_tracks [OF safe_calls(2) d(1) pr d(2)]
    call_hydrate_fields [OF pr]
  obtain img zr where z: "punch_or_zero io (d_file d1) (nat off) (nat n) = (img, zr)" by fastforce
  note P = trim_post_trans [OF K(2) K(6) K(10)]
  consider "must_wait d (newBlockCount d f l)" | e where "\<not> must_wait d (newBlockCount d f l)" "r = Inl e"
    | e where "\<not> must_wait d (newBlockCount d f l)" "r = Inr ()" "zr = Inl e"
    | "\<not> must_wait d (newBlockCount d f l)" "r = Inr ()" "zr = Inr ()" by (cases r; cases zr) auto
  then show ?thesis
  proof cases
    case 1
    then show ?thesis using w False fl d by (simp add: Trim_def trim_post_def same_outside_def)
  next
    case 2
    then show ?thesis using w False fl pr K by (auto simp: Trim_def trim_post_def same_outside_refl)
  next
    case 3
    have "d' = d1\<lparr>d_file := img\<rparr>" "out = Return (Some e)"
      using w False fl 3 pr z by (auto simp: Trim_def)
    moreover have "dwf (d1\<lparr>d_file := img\<rparr>)" using K(1) by (simp add: dev_wf_def)
    moreover have "content res src (d1\<lparr>d_file := img\<rparr>) i = cont d1 i" if "\<not> (off \<le> int i \<and> int i < off + n)" for i
    proof -
      have "\<not> (nat off \<le> i \<and> i < nat off + nat n)" using that False by linarith
      then have "img i = d_file d1 i" by (rule punch_or_zero_effect(1) [OF z])
      then show ?thesis by (simp add: content_def split: option.split)
    qed
    moreover have "\<not> sound_io io" using punch_or_zero_effect(3) [OF z] 3 by auto
    moreover have "balance (d1\<lparr>d_file := img\<rparr>) = balance d1" by (simp add: balance_def active_bytes_def)
    ultimately show ?thesis
      using K(2,6,10) by (auto simp: trim_post_def same_outside_def)
  next
    case 4
    have im1: "in_image d1 off n" using im K(6) by (simp add: in_image_def)
    from Trim_prepared [OF io K(1,4) im1 prepare_resident [OF d(1) pr [unfolded 4] im] z [unfolded 4] fl]
    obtain d2 where "capture io f l (d1\<lparr>d_file := img\<rparr>) = (d2, Inr ())"
      "\<And>d' evs. notifyDirty (let d3 = call_commit ops d2 off n in if n > 0 then d3\<lparr>localDirty := True\<rparr> else d3) = (d', evs) \<Longrightarrow>
       trim_post io off n base d1 d' (Return None)" by blast
    then show ?thesis using P w False fl 4 pr z by (auto simp: Trim_def Let_def split: prod.splits)
  qed
qed

lemma ReadAt_correct:
  assumes io: "sound_reads io" and d: "dwf d" and w: "ReadAt ops io p off d = (d', buf, err)"
  shows "dwf d'" "cont d' = cont d" "d_size d' = d_size d" "balance d' = balance d" "tracks res src base d \<Longrightarrow> tracks res src base d'"
    "err = None \<Longrightarrow> buf = file_read (cont d) (nat off) (min (length p) (nat (d_size d - off)))"
proof -
  define p' where "p' = (if int (length p) > d_size d - off then take (nat (d_size d - off)) p else p)"
  obtain d1 r where pr: "call_hydrate (Hydrate ops) d off (int (length p')) = (d1, r)" by fastforce
  note K = call_hydrate_keeps [OF safe_calls(1) d pr] call_hydrate_fields [OF pr]
  show "dwf d'" "cont d' = cont d" "d_size d' = d_size d" "balance d' = balance d" "tracks res src base d \<Longrightarrow> tracks res src base d'"
    using w d K call_hydrate_tracks [OF safe_calls(1) d pr] pr
    by (auto simp: ReadAt_def p'_def [symmetric] Let_def split: if_splits sum.splits prod.splits)
  assume e: "err = None"
  have off: "0 \<le> off" "off < d_size d" and r: "r = Inr ()" and buf: "buf = file_read (d_file d1) (nat off) (length p')"
    using w e pr io by (auto simp: ReadAt_def p'_def [symmetric] Let_def file_simps split: if_splits sum.splits prod.splits)
  have len: "length p' = min (length p) (nat (d_size d - off))" by (auto simp: p'_def)
  have "d_file d1 (nat off + k) = cont d (nat off + k)" if "k < length p'" for k
  proof -
    have i: "off \<le> int (nat off + k)" "int (nat off + k) < off + int (length p')" "off + int (length p') \<le> d_size d"
      using that len off by auto
    have "dev_resident res d1 (nat off + k)"
      using pr [unfolded r] hydrate_ok [of _ _ off "int (length p')"] i off d
      by (auto simp: call_hydrate_def dev_resident_def dev_wf_def split: option.splits prod.splits)
    then show ?thesis using resident_content K(2) by metis
  qed
  then show "buf = file_read (cont d) (nat off) (min (length p) (nat (d_size d - off)))"
    unfolding buf len [symmetric] by (intro nth_equalityI) (auto simp: file_simps)
qed

end

section \<open>Sealing, releasing and accounting\<close>

text \<open>Applying generations in order to an image.\<close>

definition apply_generations :: "Generation list \<Rightarrow> image \<Rightarrow> image" where
  "apply_generations gs base = foldl (\<lambda>img g. overlay (fmlookup (gen_Blocks g)) img) base gs"

lemma apply_generations_simps [simp]:
  "apply_generations [] base = base"
  "apply_generations (g # gs) base = apply_generations gs (overlay (fmlookup (gen_Blocks g)) base)"
  "apply_generations (gs @ hs) base = apply_generations hs (apply_generations gs base)"
  by (simp_all add: apply_generations_def)

text \<open>Merging queued generations and applying the result is applying them one after the other.\<close>

lemma foldl_fmadd_overlay:
  "overlay (fmlookup (foldl (\<lambda>m g. fmadd m (gen_Blocks g)) m gs)) base =
     apply_generations gs (overlay (fmlookup m) base)"
proof (induction gs arbitrary: m)
  case (Cons g gs)
  then show ?case by (simp add: overlay_overlay fmadd.rep_eq)
qed simp

lemma mergeGenerations_apply:
  "overlay (fmlookup (gen_Blocks (mergeGenerations gs))) base = apply_generations gs base"
  using foldl_fmadd_overlay [of fmempty gs base] by (simp add: mergeGenerations_def Let_def fmempty.rep_eq)

definition queued_bytes :: "Generation list \<Rightarrow> int" where
  "queued_bytes gs = (\<Sum>g\<leftarrow>gs. Generation_Bytes (Some g))"

lemma sealLocked_Some:
  assumes "sealLocked d = (Some g, d')"
  shows "d' = d\<lparr>d_active := fmempty\<rparr>" "gen_Blocks g = d_active d" "Generation_Bytes (Some g) = active_bytes d"
    "active_bytes d' = 0" "d_active d \<noteq> fmempty"
proof -
  have ne: "fmdom (d_active d) \<noteq> {||}" and g: "g = \<lparr>gen_Blocks = d_active d,
      gen_bytes = int (fcard (fmdom (d_active d))) * DefaultBlockSize, journalSeq = 0\<rparr>"
    and d': "d' = d\<lparr>d_active := fmempty\<rparr>"
    using assms by (auto simp: sealLocked_def split: if_splits)
  show "d' = d\<lparr>d_active := fmempty\<rparr>" "gen_Blocks g = d_active d" using g d' by auto
  have "fcard (fmdom (d_active d)) \<noteq> 0" using ne by simp
  then show "Generation_Bytes (Some g) = active_bytes d"
    by (simp add: Generation_Bytes_def g active_bytes_def DefaultBlockSize_def)
  show "active_bytes d' = 0" by (simp add: d' active_bytes_def)
  show "d_active d \<noteq> fmempty" using ne by auto
qed

lemma sealLocked_None: "sealLocked d = (None, d') \<Longrightarrow> d' = d \<and> d_active d = fmempty"
proof -
  have "fmdom m = {||} \<Longrightarrow> m = fmempty" for m :: "(u64, bytes) fmap"
    by (rule fmap_ext) (simp add: fmdom_notD)
  then show "sealLocked d = (None, d') \<Longrightarrow> d' = d \<and> d_active d = fmempty"
    by (simp add: sealLocked_def split: if_splits)
qed

section \<open>Runs of the device\<close>

text \<open>
  A run of the device: the image published so far, the generations sealed but not released,
  and the device. Writes may stop short with an error; trims and captures assume a disk that
  completes its calls. A generation is released once it is published.
\<close>

definition sealed_events :: "device_event list \<Rightarrow> Generation list" where
  "sealed_events evs = concat (map (\<lambda>e. case e of DurableFlush (Some g) \<Rightarrow> [g] | _ \<Rightarrow> []) evs)"

inductive dev_step ::
  "'h hydrator_ops \<Rightarrow> image \<times> Generation list \<times> 'h Device \<Rightarrow> image \<times> Generation list \<times> 'h Device \<Rightarrow> bool"
  for ops where
  dev_write: "sound_reads io \<Longrightarrow> WriteAt ops io reported p off d = (d', evs, out) \<Longrightarrow>
     dev_step ops (base, q, d) (base, q, d')"
| dev_trim: "sound_io io \<Longrightarrow> Trim ops io reported off n d = (d', evs, out) \<Longrightarrow>
     dev_step ops (base, q, d) (base, q, d')"
| dev_read: "sound_reads io \<Longrightarrow> ReadAt ops io p off d = (d', buf, err) \<Longrightarrow>
     dev_step ops (base, q, d) (base, q, d')"
| dev_seal: "Seal d = (g, d') \<Longrightarrow> dev_step ops (base, q, d) (base, q @ (case g of None \<Rightarrow> [] | Some x \<Rightarrow> [x]), d')"
| dev_flush: "Flush io durable_res handler_res d = (d', evs, err) \<Longrightarrow>
     dev_step ops (base, q, d) (base, q @ sealed_events evs, d')"
| dev_begin: "BeginDurableFlush d = (d', evs, err) \<Longrightarrow>
     dev_step ops (base, q, d) (base, q @ sealed_events evs, d')"
| dev_release: "Release (Some g) d = (d', evs) \<Longrightarrow>
     dev_step ops (base, g # q, d) (overlay (fmlookup (gen_Blocks g)) base, q, d')"

inductive_cases dev_stepE: "dev_step ops s t"

definition run_inv ::
  "'h residency \<Rightarrow> 'h source \<Rightarrow> ('h \<Rightarrow> bool) \<Rightarrow> ('h \<Rightarrow> int) \<Rightarrow> image \<times> Generation list \<times> 'h Device \<Rightarrow> bool" where
  "run_inv res src hinv hsize s = (case s of (base, q, d) \<Rightarrow>
     dev_wf hinv hsize d \<and> tracks res src (apply_generations q base) d \<and>
     (\<forall>g\<in>set q. wf_generation g \<and> 0 \<le> gen_bytes g) \<and> balance d = queued_bytes q)"

lemma queued_bytes_simps [simp]:
  "queued_bytes [] = 0" "queued_bytes (g # gs) = Generation_Bytes (Some g) + queued_bytes gs"
  "queued_bytes (gs @ hs) = queued_bytes gs + queued_bytes hs"
  by (simp_all add: queued_bytes_def)

lemma active_bytes_nonneg: "0 \<le> active_bytes d"
  by (simp add: active_bytes_def DefaultBlockSize_def)

lemma wf_Generation_Bytes_nonneg: "wf_generation g \<Longrightarrow> 0 \<le> gen_bytes g \<Longrightarrow> 0 \<le> Generation_Bytes (Some g)"
  by (auto simp: Generation_Bytes_def intro!: sum_list_nonneg)

context hydrator_laws
begin

lemma seal_inv:
  assumes "run_inv res src hinv hsize (base, q, d)" "sealLocked d = (g, d')"
  shows "run_inv res src hinv hsize (base, q @ (case g of None \<Rightarrow> [] | Some x \<Rightarrow> [x]), d')"
proof (cases g)
  case None
  then show ?thesis using assms sealLocked_None [of d d'] by auto
next
  case (Some x)
  note S = sealLocked_Some [OF assms(2) [unfolded Some]]
  have c: "cont d' = cont d" by (auto simp: S content_def fun_eq_iff split: option.split)
  have "wf_generation x" using assms(1) S(2) by (auto simp: run_inv_def dev_wf_def wf_generation_def)
  moreover have "0 \<le> gen_bytes x"
    using assms(2) Some by (auto simp: sealLocked_def DefaultBlockSize_def split: if_splits)
  moreover have "dwf d'" using assms(1) by (auto simp: run_inv_def dev_wf_def S(1))
  moreover have "tracks res src (apply_generations (q @ [x]) base) d'"
    using assms(1) c unfolding run_inv_def tracks_def by (simp add: S(1,2) fmempty.rep_eq)
  moreover have "balance d' = queued_bytes q + Generation_Bytes (Some x)"
    using assms(1) S(4) unfolding S(3) by (simp add: run_inv_def balance_def S(1))
  ultimately show ?thesis using assms(1) by (auto simp: run_inv_def Some)
qed

lemma run_inv_irrelevant:
  "run_inv res src hinv hsize (base, q, d\<lparr>localDirty := x\<rparr>) = run_inv res src hinv hsize (base, q, d)"
  by (auto simp: run_inv_def dev_wf_def tracks_def content_def dev_resident_def balance_def active_bytes_def
      fun_eq_iff split: option.split)

lemma flush_inv:
  assumes "run_inv res src hinv hsize (base, q, d)" "Flush io durable_res handler_res d = (d', evs, err)"
  shows "run_inv res src hinv hsize (base, q @ sealed_events evs, d')"
proof -
  define d1 where "d1 = (if \<not> skipLocalFlush d \<and> localDirty d \<and> \<not> sync_fails io then d\<lparr>localDirty := False\<rparr> else d)"
  have i1: "run_inv res src hinv hsize (base, q, d1)" using assms(1) by (simp add: d1_def run_inv_irrelevant)
  obtain g d2 where sl: "sealLocked d1 = (g, d2)" by fastforce
  show ?thesis
    using assms i1 seal_inv [OF i1 sl] sl
    by (auto simp: Flush_def Let_def d1_def [symmetric] sealed_events_def split: if_splits option.splits)
qed

lemma begin_inv:
  assumes "run_inv res src hinv hsize (base, q, d)" "BeginDurableFlush d = (d', evs, err)"
  shows "run_inv res src hinv hsize (base, q @ sealed_events evs, d')"
  using assms seal_inv [OF assms(1)]
  by (auto simp: BeginDurableFlush_def sealed_events_def split: if_splits prod.splits option.splits)

lemma release_inv:
  assumes "run_inv res src hinv hsize (base, g # q, d)" "Release (Some g) d = (d', evs)"
  shows "run_inv res src hinv hsize (overlay (fmlookup (gen_Blocks g)) base, q, d')"
proof -
  have I: "dwf d" "tracks res src (apply_generations q (overlay (fmlookup (gen_Blocks g)) base)) d"
      "wf_generation g" "\<forall>g\<in>set (g # q). wf_generation g \<and> 0 \<le> gen_bytes g"
      "balance d = Generation_Bytes (Some g) + queued_bytes q"
    using assms(1) by (auto simp: run_inv_def)
  have "0 \<le> queued_bytes q"
    unfolding queued_bytes_def using I(4) wf_Generation_Bytes_nonneg by (intro sum_list_nonneg) auto
  then have dd: "d_dirty d' = d_dirty d - Generation_Bytes (Some g)"
    using assms(2) I(5) active_bytes_nonneg [of d] by (auto simp: Release_def Let_def balance_def split: if_splits)
  have S: "d_active d' = d_active d" "d_file d' = d_file d" "d_hydrator d' = d_hydrator d" "d_size d' = d_size d"
    "blockPool d' = map (block_data g) (sortedBlocks g) @ blockPool d"
    using assms(2) by (auto simp: Release_def Let_def split: if_splits)
  have "length (block_data g b) = BlockSize" if "b \<in> set (sortedBlocks g)" for b
    using that I(3) by (auto simp: wf_generation_def block_data_def fmdom_lookup)
  then have "dwf d'" using I(1) S by (auto simp: dev_wf_def)
  moreover have "cont d' = cont d" "dev_resident res d' = dev_resident res d"
    by (auto simp: content_def dev_resident_def S intro!: ext split: option.split)
  moreover have "balance d' = queued_bytes q" using I(5) dd S by (simp add: balance_def active_bytes_def)
  ultimately show ?thesis using I S by (simp add: run_inv_def tracks_def)
qed

theorem dev_step_inv:
  assumes "dev_step ops s t" "run_inv res src hinv hsize s"
  shows "run_inv res src hinv hsize t"
  using assms
proof cases
  case (dev_write io reported p off d d' evs out base q)
  then show ?thesis
    using WriteAt_correct [of io d "apply_generations q base" reported p off d' evs out] assms(2)
    by (auto simp: run_inv_def write_post_def)
next
  case (dev_trim io reported off n d d' evs out base q)
  then show ?thesis
    using Trim_correct [of io d "apply_generations q base" reported off n d' evs out] assms(2) sound_io_reads
    by (cases out) (auto simp: run_inv_def trim_post_def)
next
  case (dev_read io p off d d' buf err base q)
  then show ?thesis
    using ReadAt_correct [of io d p off d' buf err] assms(2) by (auto simp: run_inv_def)
next
  case (dev_seal d g d' base q)
  then show ?thesis using seal_inv assms(2) by (simp add: Seal_def)
next
  case (dev_flush io dr hr d d' evs err base q)
  then show ?thesis using flush_inv assms(2) by simp
next
  case (dev_begin d d' evs err base q)
  then show ?thesis using begin_inv assms(2) by simp
next
  case (dev_release g d d' evs base q)
  then show ?thesis using release_inv assms(2) by simp
qed

theorem dev_run_inv:
  assumes "(dev_step ops)\<^sup>*\<^sup>* s t" "run_inv res src hinv hsize s"
  shows "run_inv res src hinv hsize t"
  using assms by (induction rule: rtranclp_induct) (auto intro: dev_step_inv)

end

section \<open>Replay\<close>

definition replayable :: "(Generation \<Rightarrow> u64 list) \<Rightarrow> 'h Device \<Rightarrow> Generation \<Rightarrow> bool" where
  "replayable order d g \<longleftrightarrow> wf_generation g \<and> 0 \<le> gen_bytes g \<and>
     set (order g) = fset (fmdom (gen_Blocks g)) \<and>
     (\<forall>b\<in>fset (fmdom (gen_Blocks g)). int (unat b) < d_size d div DefaultBlockSize)"

lemma apply_generations_at: "a i = b i \<Longrightarrow> apply_generations gs a i = apply_generations gs b i"
proof (induction gs arbitrary: a b)
  case (Cons g gs)
  have "overlay (fmlookup (gen_Blocks g)) a i = overlay (fmlookup (gen_Blocks g)) b i"
    using Cons.prems by (simp add: overlay_def split: option.split)
  then show ?case unfolding apply_generations_simps by (rule Cons.IH)
qed simp

context hydrator_laws
begin

lemma replay_block_sound:
  assumes "sound_io io" "dwf d" "length data = BlockSize" "int (unat b) < d_size d div DefaultBlockSize"
  shows "\<exists>d'. replay_block ops io b data d = (d', Inr ()) \<and> dwf d' \<and> d_size d' = d_size d \<and>
    d_active d' = d_active d \<and> d_dirty d' = d_dirty d \<and>
    (\<forall>i. int i < d_size d \<longrightarrow> cont d' i = overlay [b \<mapsto> data] (cont d) i)"
proof -
  define img where "img = file_write (d_file d) (unat b * BlockSize) data"
  let ?d1 = "d\<lparr>d_file := img\<rparr>"
  let ?d2 = "call_commit ops ?d1 (uint b * DefaultBlockSize) DefaultBlockSize"
  have sz: "0 < d_size d" "d_size d < 2 ^ 63" using assms(2) by (auto simp: dev_wf_def)
  have q: "unat (word_of_int (d_size d div DefaultBlockSize) :: u64) = nat (d_size d div DefaultBlockSize)"
    using sz by (intro unat_of_int64) (auto simp: DefaultBlockSize_def)
  have "\<not> b \<ge> word_of_int (d_size d div DefaultBlockSize)"
    using assms(4) by (simp add: word_le_nat_alt q nat_le_iff not_le)
  then have r: "replay_block ops io b data d = (?d2, Inr ())"
    using assms(1,3) by (simp add: replay_block_def Let_def file_simps img_def nat_mult_distrib
        DefaultBlockSize_def BlockSize_simps)
  have im: "in_image ?d1 (uint b * DefaultBlockSize) DefaultBlockSize"
    using block_in_image [OF assms(4)] by (simp add: in_image_def)
  have hyd: "\<forall>h. d_hydrator ?d1 = Some h \<longrightarrow> hinv h \<and> hsize h = d_size ?d1"
    using assms(2) by (simp add: dev_wf_def)
  note C = call_commit_keeps [OF hyd im, unfolded touched_block]
  note F = call_commit_fields [of ?d1 "uint b * DefaultBlockSize" DefaultBlockSize]
  have "cont ?d2 i = overlay [b \<mapsto> data] (cont d) i" if i: "int i < d_size d" for i
  proof -
    have lt: "int i < 2 ^ 63" using i sz by simp
    have iff: "blk i = b \<longleftrightarrow> i div BlockSize = unat b"
      using blk_unat [OF lt] by (metis blk_def of_nat_unat ucast_id unsigned_word_eqI)
    have pos: "unat b * BlockSize + i mod BlockSize = i" if "i div BlockSize = unat b"
      using that by (metis div_mult_mod_eq)
    have "img i = data ! (i mod BlockSize)" if "i div BlockSize = unat b"
    proof -
      have m: "i mod BlockSize < BlockSize" by simp
      have "img i = data ! (i - unat b * BlockSize)"
        unfolding img_def by (rule file_write_in) (use pos [OF that] m assms(3) in linarith)+
      moreover have "i - unat b * BlockSize = i mod BlockSize" using pos [OF that] by linarith
      ultimately show ?thesis by simp
    qed
    moreover have "img i = d_file d i" if "i div BlockSize \<noteq> unat b"
      using that assms(3) by (auto simp: img_def file_write_def div_nat_eqI mult.commute)
    ultimately show ?thesis
      using C(3) [of i] i iff unfolding overlay_lt [OF lt]
      by (auto simp: content_def split: option.split)
  qed
  moreover have "dwf ?d2" using assms(2) C(1) F by (auto simp: dev_wf_def)
  moreover have "d_dirty ?d2 = d_dirty d" by (simp add: call_commit_def)
  ultimately show ?thesis using r F by auto
qed

lemma replay_blocks_sound:
  assumes "sound_io io" "wf_generation g" "set bs \<subseteq> fset (fmdom (gen_Blocks g))"
    "\<forall>b\<in>set bs. int (unat b) < sz div DefaultBlockSize" "dwf d" "d_size d = sz"
  shows "\<exists>d'. replay_blocks ops io g d bs = (d', Inr ()) \<and> dwf d' \<and> d_size d' = sz \<and>
    d_active d' = d_active d \<and> d_dirty d' = d_dirty d \<and>
    (\<forall>i. int i < sz \<longrightarrow> cont d' i = overlay (fmlookup (gen_Blocks g) |` set bs) (cont d) i)"
  using assms(3-6)
proof (induction bs arbitrary: d)
  case (Cons b bs)
  obtain x where x: "fmlookup (gen_Blocks g) b = Some x"
    using Cons.prems(1) by (auto simp: fmdom_lookup)
  then have len: "length (block_data g b) = BlockSize" "block_data g b = x"
    using assms(2) by (auto simp: wf_generation_def block_data_def)
  obtain d1 where d1: "replay_block ops io b (block_data g b) d = (d1, Inr ())" "dwf d1" "d_size d1 = d_size d"
      "d_active d1 = d_active d" "d_dirty d1 = d_dirty d"
      "\<And>i. int i < d_size d \<Longrightarrow> cont d1 i = overlay [b \<mapsto> x] (cont d) i"
    using replay_block_sound [OF assms(1) Cons.prems(3) len(1), of b] Cons.prems(2,4) len(2) by auto
  obtain d' where d': "replay_blocks ops io g d1 bs = (d', Inr ())" "dwf d'" "d_size d' = sz" "d_active d' = d_active d1"
      "d_dirty d' = d_dirty d1" "\<And>i. int i < sz \<Longrightarrow> cont d' i = overlay (fmlookup (gen_Blocks g) |` set bs) (cont d1) i"
    using Cons.IH [of d1] Cons.prems d1 by auto
  have "[b \<mapsto> x] ++ (fmlookup (gen_Blocks g) |` set bs) = fmlookup (gen_Blocks g) |` set (b # bs)"
    using x by (auto simp: map_add_def restrict_map_def fun_eq_iff split: option.split)
  then have "cont d' i = overlay (fmlookup (gen_Blocks g) |` set (b # bs)) (cont d) i" if "int i < sz" for i
    using d'(6) [OF that] overlay_at [of "cont d1" i "[b \<mapsto> x]" "cont d"] d1(6) [of i] that Cons.prems(4) by simp
  then show ?case using d1 d' by auto
qed simp

lemma replay_loop_sound:
  assumes "sound_io io" "\<forall>g\<in>set gs. replayable order d g" "dwf d" "d_size d = sz"
  shows "\<exists>d'. replay_loop ops io order d gs = (d', Inr ()) \<and> dwf d' \<and> d_size d' = sz \<and>
    d_active d' = d_active d \<and> d_dirty d' = d_dirty d + queued_bytes gs \<and>
    (\<forall>i. int i < sz \<longrightarrow> cont d' i = apply_generations gs (cont d) i)"
  using assms(2-4)
proof (induction gs arbitrary: d)
  case (Cons g gs)
  have g: "wf_generation g" "set (order g) = fset (fmdom (gen_Blocks g))"
      "\<forall>b\<in>set (order g). int (unat b) < sz div DefaultBlockSize"
    using Cons.prems by (auto simp: replayable_def)
  obtain d1 where d1: "replay_blocks ops io g d (order g) = (d1, Inr ())" "dwf d1" "d_size d1 = sz"
      "d_active d1 = d_active d" "d_dirty d1 = d_dirty d"
      "\<And>i. int i < sz \<Longrightarrow> cont d1 i = overlay (fmlookup (gen_Blocks g) |` set (order g)) (cont d) i"
    using replay_blocks_sound [OF assms(1) g(1) _ g(3) Cons.prems(2,3)] g(2) by auto
  have full: "fmlookup (gen_Blocks g) |` set (order g) = fmlookup (gen_Blocks g)"
    using g(2) by (auto simp: restrict_map_def fun_eq_iff fmdom_lookup)
  let ?d1 = "d1\<lparr>d_dirty := d_dirty d1 + Generation_Bytes (Some g)\<rparr>"
  have same: "cont ?d1 = cont d1" by (auto simp: content_def fun_eq_iff split: option.split)
  have "dwf ?d1" using d1(2) by (simp add: dev_wf_def)
  then obtain d' where d': "replay_loop ops io order ?d1 gs = (d', Inr ())" "dwf d'" "d_size d' = sz"
      "d_active d' = d_active d" "d_dirty d' = d_dirty ?d1 + queued_bytes gs"
      "\<And>i. int i < sz \<Longrightarrow> cont d' i = apply_generations gs (cont d1) i"
    using Cons.IH [of ?d1] Cons.prems d1 unfolding same by (auto simp: replayable_def)
  have "cont d' i = apply_generations (g # gs) (cont d) i" if "int i < sz" for i
    using d'(6) [OF that] d1(6) [OF that]
      apply_generations_at [of "cont d1" i "overlay (fmlookup (gen_Blocks g)) (cont d)" gs] by (simp add: full)
  then show ?case using d1 d' by auto
qed simp

lemma Replay_inv:
  assumes "sound_io io" "\<forall>g\<in>set gs. replayable order d g" "\<not> d_closed d"
    "run_inv res src hinv hsize (base, [], d)" "d_active d = fmempty"
  shows "\<exists>d' evs. Replay ops io order gs d = (d', evs, Inr ()) \<and> run_inv res src hinv hsize (base, gs, d') \<and>
    (\<forall>i. int i < d_size d \<longrightarrow> cont d' i = apply_generations gs (cont d) i)"
proof -
  have I: "dwf d" "tracks res src base d" "balance d = 0" using assms(4) by (auto simp: run_inv_def)
  obtain d' where d': "replay_loop ops io order d gs = (d', Inr ())" "dwf d'" "d_size d' = d_size d"
      "d_active d' = fmempty" "d_dirty d' = d_dirty d + queued_bytes gs"
      "\<And>i. int i < d_size d \<Longrightarrow> cont d' i = apply_generations gs (cont d) i"
    using replay_loop_sound [OF assms(1,2) I(1) refl] assms(5) by auto
  have "tracks res src (apply_generations gs base) d'"
    unfolding tracks_def d'(3,4) fmempty.rep_eq overlay_empty
  proof (intro allI impI conjI)
    fix i assume i: "int i < d_size d"
    then have "cont d i = base i" using I(2) by (simp add: tracks_def assms(5) fmempty.rep_eq)
    then show "cont d' i = apply_generations gs base i" using d'(6) [OF i] apply_generations_at [of "cont d" i base gs] by simp
  qed simp
  moreover have "balance d' = queued_bytes gs"
    using I(3) d'(4,5) assms(5) by (simp add: balance_def active_bytes_def)
  moreover have "\<forall>g\<in>set gs. wf_generation g \<and> 0 \<le> gen_bytes g" using assms(2) by (simp add: replayable_def)
  ultimately show ?thesis using d' assms(3) by (simp add: Replay_def run_inv_def)
qed

end

section \<open>The first capture\<close>

text \<open>Every active block holds the data of the file, inside the image.\<close>

definition marks_file :: "'h Device \<Rightarrow> bool" where
  "marks_file d \<longleftrightarrow> (\<forall>b buf. fmlookup (d_active d) b = Some buf \<longrightarrow>
     buf = img_block (d_file d) b \<and> int (unat b) < d_size d div DefaultBlockSize)"

text \<open>Every byte below an offset that is not zero is in an active block.\<close>

definition marked_below :: "'h Device \<Rightarrow> int \<Rightarrow> bool" where
  "marked_below d off \<longleftrightarrow> (\<forall>i. int i < off \<longrightarrow> d_file d i \<noteq> 0 \<longrightarrow> fmlookup (d_active d) (blk i) \<noteq> None)"

text \<open>What \<open>lseek\<close> promises: the bytes it skips are zero, and a hole starts after its data.\<close>

definition seek_ok :: "seeker \<Rightarrow> image \<Rightarrow> int \<Rightarrow> bool" where
  "seek_ok sk img sz \<longleftrightarrow> (\<forall>off. 0 \<le> off \<and> off < sz \<longrightarrow>
     (seek_data sk off = Inr None \<longrightarrow> (\<forall>i. off \<le> int i \<and> int i < sz \<longrightarrow> img i = 0)) \<and>
     (\<forall>x. seek_data sk off = Inr (Some x) \<longrightarrow> off \<le> x \<and> x < sz \<and> (\<forall>i. off \<le> int i \<and> int i < x \<longrightarrow> img i = 0)) \<and>
     (\<forall>h. seek_hole sk off = Inr (Some h) \<longrightarrow> off < h \<and> h \<le> sz))"

lemma seek_okD:
  assumes "seek_ok sk img sz" "0 \<le> off" "off < sz"
  shows "seek_data sk off = Inr None \<Longrightarrow> off \<le> int i \<Longrightarrow> int i < sz \<Longrightarrow> img i = 0"
    and "seek_data sk off = Inr (Some x) \<Longrightarrow> off \<le> x \<and> x < sz"
    and "seek_data sk off = Inr (Some x) \<Longrightarrow> off \<le> int i \<Longrightarrow> int i < x \<Longrightarrow> img i = 0"
    and "seek_hole sk off = Inr (Some h) \<Longrightarrow> off < h \<and> h \<le> sz"
  using assms unfolding seek_ok_def by blast+

lemma captureNonZero_loop_effect:
  assumes "sound_reads io"
  shows "\<exists>A D. captureNonZero_loop io d bs = (d\<lparr>d_active := A, d_dirty := D\<rparr>, Inr ()) \<and>
    (\<forall>b. fmlookup A b = (if b \<in> set bs \<and> \<not> isZero (img_block (d_file d) b) then Some (img_block (d_file d) b)
       else fmlookup (d_active d) b))"
proof (induction bs arbitrary: d)
  case Nil
  show ?case by (rule exI [of _ "d_active d"], rule exI [of _ "d_dirty d"]) simp
next
  case (Cons b bs)
  have rd: "file_ReadAt io (d_file d) (replicate BlockSize 0) (unat b * BlockSize) = (img_block (d_file d) b, None)"
    using assms by (simp add: file_simps img_block_def)
  show ?case
  proof (cases "isZero (img_block (d_file d) b)")
    case True
    then show ?thesis using Cons [of d] rd by auto
  next
    case False
    define d1 where "d1 = d\<lparr>d_active := fmupd b (img_block (d_file d) b) (d_active d), d_dirty := d_dirty d + DefaultBlockSize\<rparr>"
    obtain A D where "captureNonZero_loop io d1 bs = (d1\<lparr>d_active := A, d_dirty := D\<rparr>, Inr ())"
        "\<forall>c. fmlookup A c = (if c \<in> set bs \<and> \<not> isZero (img_block (d_file d1) c) then Some (img_block (d_file d1) c)
       else fmlookup (d_active d1) c)" using Cons [of d1] by blast
    then show ?thesis using rd False by (intro exI [of _ A] exI [of _ D]) (auto simp: d1_def)
  qed
qed

lemma isZero_img_block:
  assumes "int i < 2 ^ 63" "isZero (img_block img (blk i))"
  shows "img i = 0"
  using assms(2) img_block_nth [OF assms(1), of img] unfolding isZero_def list_all_length
  by (metis BlockSize_pos img_block_length mod_less_divisor)

lemma captureNonZero_marks:
  assumes "sound_reads io" "marks_file d" "marked_below d x" "in_image d x n" "blockRange x n = (f, l)"
    "d_size d < 2 ^ 63" "d_size d mod DefaultBlockSize = 0"
  shows "\<exists>A D. captureNonZero io f l d = (d\<lparr>d_active := A, d_dirty := D\<rparr>, Inr ()) \<and>
    marks_file (d\<lparr>d_active := A, d_dirty := D\<rparr>) \<and> marked_below (d\<lparr>d_active := A, d_dirty := D\<rparr>) (x + n)"
proof -
  obtain A D where r: "captureNonZero io f l d = (d\<lparr>d_active := A, d_dirty := D\<rparr>, Inr ())"
    and A: "\<And>b. fmlookup A b = (if b \<in> set (block_seq f l) \<and> \<not> isZero (img_block (d_file d) b) then Some (img_block (d_file d) b)
       else fmlookup (d_active d) b)"
    using captureNonZero_loop_effect [OF assms(1)] unfolding captureNonZero_def by blast
  have "marks_file (d\<lparr>d_active := A, d_dirty := D\<rparr>)"
    using assms(2) blockRange_bound [OF assms(4,7,6,5)] by (auto simp: marks_file_def A split: if_splits)
  moreover have "marked_below (d\<lparr>d_active := A, d_dirty := D\<rparr>) (x + n)"
    unfolding marked_below_def
  proof (intro allI impI)
    fix i assume i: "int i < x + n" "d_file (d\<lparr>d_active := A, d_dirty := D\<rparr>) i \<noteq> 0"
    have lt: "int i < 2 ^ 63" using i(1) assms(4,6) by (auto simp: in_image_def)
    have nz: "\<not> isZero (img_block (d_file d) (blk i))" using isZero_img_block [OF lt] i(2) by auto
    show "fmlookup (d_active (d\<lparr>d_active := A, d_dirty := D\<rparr>)) (blk i) \<noteq> None"
    proof (cases "int i < x")
      case True
      then show ?thesis using assms(3) i(2) by (auto simp: marked_below_def A)
    next
      case False
      then have "touched x n i"
        using i(1) assms(4) by (intro in_range_touched) (auto simp: in_image_def)
      then show ?thesis
        using nz blockRange_touched [OF _ _ _ assms(6,5) lt] assms(4) by (simp add: in_image_def A)
    qed
  qed
  ultimately show ?thesis using r by blast
qed


lemma marked_below_mono: "marked_below d x \<Longrightarrow> y \<le> x \<Longrightarrow> marked_below d y"
  by (auto simp: marked_below_def)

lemma marked_below_zero:
  "marked_below d off \<Longrightarrow> (\<And>i. off \<le> int i \<Longrightarrow> int i < x \<Longrightarrow> d_file d i = 0) \<Longrightarrow> marked_below d x"
  by (meson linorder_not_le marked_below_def)

definition mark_post :: "'h Device \<Rightarrow> 'h Device \<Rightarrow> bool" where
  "mark_post d d' \<longleftrightarrow> (\<exists>A D. d' = d\<lparr>d_active := A, d_dirty := D\<rparr>) \<and> marks_file d' \<and> marked_below d' (d_size d)"

lemma mark_post_upd: "mark_post (d\<lparr>d_active := A, d_dirty := D\<rparr>) d' \<Longrightarrow> mark_post d d'"
  by (auto simp: mark_post_def)

definition image_size_ok :: "int \<Rightarrow> bool" where
  "image_size_ok sz \<longleftrightarrow> 0 < sz \<and> sz < 2 ^ 63 \<and> sz mod DefaultBlockSize = 0"

lemma markByScan_effect:
  assumes "sound_reads io" "marks_file d" "image_size_ok (d_size d)"
  shows "\<exists>d'. markByScan io d = (d', Inr ()) \<and> mark_post d d'"
proof -
  have sz: "0 < d_size d" "d_size d < 2 ^ 63" "d_size d mod 4096 = 0"
    using assms(3) by (auto simp: image_size_ok_def DefaultBlockSize_def)
  have m: "(d_size d - 1) div 4096 + 1 = d_size d div 4096"
  proof -
    define q where "q = d_size d div 4096"
    have "d_size d = 4096 * q" using sz(3) mult_div_mod_eq [of 4096 "d_size d"] by (simp add: q_def)
    then have "(d_size d - 1) div 4096 = q - 1" by (intro int_div_pos_eq [of _ _ _ 4095]) auto
    then show ?thesis by (simp add: q_def)
  qed
  have "blockRange 0 (d_size d) = (0, word_of_int ((d_size d - 1) div 4096 + 1))"
    using sz by (simp add: blockRange_def Let_def DefaultBlockSize_def)
  then have br: "blockRange 0 (d_size d) = (0, word_of_int (d_size d div DefaultBlockSize))"
    unfolding m by (simp add: DefaultBlockSize_def)
  have z: "marked_below d 0" "in_image d 0 (d_size d)" using sz(1) by (auto simp: marked_below_def in_image_def)
  have md: "d_size d mod DefaultBlockSize = 0" using assms(3) by (simp add: image_size_ok_def)
  obtain A D where c: "markByScan io d = (d\<lparr>d_active := A, d_dirty := D\<rparr>, Inr ())"
      "marks_file (d\<lparr>d_active := A, d_dirty := D\<rparr>)" "marked_below (d\<lparr>d_active := A, d_dirty := D\<rparr>) (d_size d)"
    using captureNonZero_marks [OF assms(1,2) z br sz(2) md] unfolding markByScan_def add_0 by blast
  then show ?thesis unfolding mark_post_def by blast
qed

lemma mark_loop_effect:
  assumes io: "sound_reads io" and sk: "seek_ok sk (d_file d) (d_size d)" and sz: "image_size_ok (d_size d)"
  shows "0 \<le> off \<Longrightarrow> marks_file d \<Longrightarrow> marked_below d off \<Longrightarrow> nat (d_size d - off) \<le> k \<Longrightarrow>
    \<exists>d'. mark_loop k sk io off d = Some (d', Inr ()) \<and> mark_post d d'"
  using sk sz
proof (induction k arbitrary: off d)
  case 0
  then have "mark_post d d" using marked_below_mono [OF "0.prems"(3)]
    by (auto simp: mark_post_def intro!: exI [of _ "d_active d"] exI [of _ "d_dirty d"])
  then show ?case using 0 by auto
next
  case (Suc k)
  have self: "mark_post d d" if "marked_below d (d_size d)"
    using Suc.prems that by (auto simp: mark_post_def intro!: exI [of _ "d_active d"] exI [of _ "d_dirty d"])
  have scan: "\<exists>d'. markByScan io d = (d', Inr ()) \<and> mark_post d d'"
    by (rule markByScan_effect [OF io Suc.prems(2,6)])
  show ?case
  proof (cases "off < d_size d")
    case False
    then show ?thesis using self marked_below_mono [OF Suc.prems(3)] by simp
  next
    case lt: True
    note K = seek_okD [OF Suc.prems(5,1) lt]
    consider e where "seek_data sk off = Inl e" | "seek_data sk off = Inr None"
      | x e where "seek_data sk off = Inr (Some x)" "seek_hole sk x = Inl e"
      | x h where "seek_data sk off = Inr (Some x)" "seek_hole sk x = Inr h"
    proof (cases "seek_data sk off")
      case (Inr y)
      then show ?thesis using that by (cases y; cases "seek_hole sk (the y)") auto
    qed blast
    then show ?thesis
    proof cases
      case 1
      then show ?thesis using lt scan by auto
    next
      case 2
      then have "marked_below d (d_size d)" using K by (intro marked_below_zero [OF Suc.prems(3)]) auto
      then show ?thesis using 2 lt self by simp
    next
      case 3
      then show ?thesis using lt scan by auto
    next
      case 4
      define hole where "hole = (case h of None \<Rightarrow> d_size d | Some y \<Rightarrow> y)"
      have x: "off \<le> x" "x < d_size d" using K(2) 4(1) by auto
      have hole: "x < hole" "hole \<le> d_size d"
        using seek_okD(4) [OF Suc.prems(5), of x] x Suc.prems(1) 4(2)
        by (auto simp: hole_def split: option.splits)
      have mb: "marked_below d x" using K 4(1) by (intro marked_below_zero [OF Suc.prems(3)]) auto
      obtain f l where fl: "blockRange x (hole - x) = (f, l)" by fastforce
      have im: "in_image d x (hole - x)" using x hole Suc.prems(1) by (simp add: in_image_def)
      obtain A D where c: "captureNonZero io f l d = (d\<lparr>d_active := A, d_dirty := D\<rparr>, Inr ())"
          "marks_file (d\<lparr>d_active := A, d_dirty := D\<rparr>)" "marked_below (d\<lparr>d_active := A, d_dirty := D\<rparr>) hole"
        using captureNonZero_marks [OF io Suc.prems(2) mb im fl] Suc.prems(6) by (auto simp: image_size_ok_def)
      have "\<exists>d'. mark_loop k sk io hole (d\<lparr>d_active := A, d_dirty := D\<rparr>) = Some (d', Inr ()) \<and>
          mark_post (d\<lparr>d_active := A, d_dirty := D\<rparr>) d'"
        using Suc.prems x hole c by (intro Suc.IH) auto
      then show ?thesis
        using 4 lt fl c(1) mark_post_upd by (auto simp: hole_def [symmetric] Let_def)
    qed
  qed
qed

lemma MarkAllocated_tracks:
  assumes "sound_reads io" "seek_ok sk (d_file d) (d_size d)" "image_size_ok (d_size d)"
    "\<not> d_closed d" "d_active d = fmempty" "d_hydrator d = None" "nat (d_size d) \<le> fuel"
  shows "\<exists>d'. MarkAllocated fuel sk io d = Some (d', Inr ()) \<and> tracks res src empty_image d' \<and> d_file d' = d_file d"
proof -
  have "marks_file d" "marked_below d 0" using assms(5) by (auto simp: marks_file_def marked_below_def)
  then obtain d' where r: "mark_loop fuel sk io 0 d = Some (d', Inr ())" and p: "mark_post d d'"
    using mark_loop_effect [OF assms(1-3), of 0 fuel] assms(7) by auto
  obtain A D where d': "d' = d\<lparr>d_active := A, d_dirty := D\<rparr>" using p by (auto simp: mark_post_def)
  have "tracks res src empty_image d'"
    unfolding tracks_def
  proof (intro allI impI)
    fix i assume i: "int i < d_size d'"
    then have lt: "int i < 2 ^ 63" using assms(3) by (simp add: d' image_size_ok_def)
    have "d_file d' i = (case fmlookup (d_active d') (blk i) of None \<Rightarrow> 0 | Some buf \<Rightarrow> buf ! (i mod BlockSize))"
      using p i img_block_nth [OF lt, of "d_file d'"]
      by (auto simp: mark_post_def marks_file_def marked_below_def d' split: option.split)
    then show "content res src d' i = overlay (fmlookup (d_active d')) empty_image i \<and>
        (fmlookup (d_active d') (blk i) \<noteq> None \<longrightarrow> dev_resident res d' i)"
      unfolding overlay_lt [OF lt] by (simp add: content_def dev_resident_def d' assms(6) empty_image_def split: option.split)
  qed
  then show ?thesis using r assms(4) by (simp add: MarkAllocated_def d')
qed

end
