(* ===== verification/Restore.thy ===== *)
theory Restore
  imports Plan "HOL-Library.Multiset"
begin

text \<open>
  Restoring an image (\<open>internal/replica/remote.go\<close>): finding the bytes of a segment (inline,
  through the manifest that holds them, or an object of its own), checking them, and writing the
  planned blocks. \<open>get\<close> is the store during the restore and may return anything; what is written
  is decided by the digests.
\<close>

section \<open>Finding inline segments\<close>

record manifestSourceLoader =
  ml_volumeID :: string
  ml_inline :: "(string, bytes) fmap"
  ml_head :: "ManifestBundleRef option"
  ml_bundles :: bundle_cache

definition newManifestSourceLoader :: "State \<Rightarrow> manifestSourceLoader" where
  "newManifestSourceLoader state =
     \<lparr>ml_volumeID = s_ID state, ml_inline = InlineManifests state, ml_head = ManifestBundle state, ml_bundles = fmempty\<rparr>"

definition loadBundle :: "wire \<Rightarrow> getter \<Rightarrow> manifestSourceLoader \<Rightarrow> string \<Rightarrow> manifestSourceLoader \<times> manifestBundle result" where
  "loadBundle w get l bkey =
     (case fmlookup (ml_bundles l) bkey of
        Some b \<Rightarrow> (l, Inr b)
      | None \<Rightarrow>
          (case get bkey of
             Inl e \<Rightarrow> (l, Inl (Wrap ''read manifest bundle'' e))
           | Inr obj \<Rightarrow>
               if \<not> strings_HasSuffix bkey (''/manifest-bundles/'' @ hex_EncodeToString (sha256 w (obj_Data obj)) @ ''.json'')
               then (l, invalid ''manifest bundle checksum mismatch'')
               else
                 (case unmarshalBundle w (obj_Data obj) of
                    Inl e \<Rightarrow> (l, Inl (Wrap ''decode manifest bundle'' e))
                  | Inr b \<Rightarrow>
                      if b_Format b \<noteq> Format \<or> b_VolumeID b \<noteq> ml_volumeID l \<or> Manifests b = []
                      then (l, invalid ''invalid manifest bundle'')
                      else (l\<lparr>ml_bundles := fmupd bkey b (ml_bundles l)\<rparr>, Inr b))))"

text \<open>The body of a manifest in a bundle; the nil slice is \<open>[]\<close>.\<close>

definition bundle_entry :: "manifestBundle \<Rightarrow> string \<Rightarrow> bytes option" where
  "bundle_entry b key = map_option bm_Body (find (\<lambda>entry. bm_Key entry = key) (Manifests b))"

definition manifestBody :: "wire \<Rightarrow> getter \<Rightarrow> manifestSourceLoader \<Rightarrow> string \<Rightarrow> string \<Rightarrow> manifestSourceLoader \<times> bytes result" where
  "manifestBody w get l bkey key =
     (case loadBundle w get l bkey of
        (l', Inl e) \<Rightarrow> (l', Inl e)
      | (l', Inr b) \<Rightarrow>
          (case bundle_entry b key of
             Some body \<Rightarrow> (l', Inr body)
           | None \<Rightarrow> (l', invalid ''manifest is absent from bundle'')))"

text \<open>The walk over the whole bundle chain, collecting the keys passed. Bundles are linked by
  digest, so the chain is finite; \<open>fuel\<close> bounds it.\<close>

fun search_chain ::
  "nat \<Rightarrow> wire \<Rightarrow> getter \<Rightarrow> manifestSourceLoader \<Rightarrow> string \<Rightarrow> ManifestBundleRef option \<Rightarrow> string list \<Rightarrow>
     manifestSourceLoader \<times> (bytes \<times> string list) result" where
  "search_chain 0 w get l key ref path = (l, invalid ''manifest bundle chain is too long'')"
| "search_chain (Suc fuel) w get l key ref path =
     (case ref of
        None \<Rightarrow> (l, Inr ([], path))
      | Some r \<Rightarrow>
          (case loadBundle w get l (mb_Key r) of
             (l', Inl e) \<Rightarrow> (l', Inl e)
           | (l', Inr b) \<Rightarrow>
               (case bundle_entry b key of
                  Some body \<Rightarrow> (l', Inr (body, path @ [mb_Key r]))
                | None \<Rightarrow> search_chain fuel w get l' key (b_Parent b) (path @ [mb_Key r]))))"

definition searchBundleChain ::
  "wire \<Rightarrow> getter \<Rightarrow> manifestSourceLoader \<Rightarrow> string \<Rightarrow> manifestSourceLoader \<times> (bytes \<times> string list) result" where
  "searchBundleChain w get l key = search_chain (2 ^ 64) w get l key (ml_head l) []"

definition resolve :: "wire \<Rightarrow> getter \<Rightarrow> manifestSourceLoader \<Rightarrow> string \<Rightarrow> manifestSourceLoader \<times> bytes result" where
  "resolve w get l key =
     (case fmlookup (ml_inline l) key of
        Some body \<Rightarrow> (l, Inr body)
      | None \<Rightarrow>
          (case searchBundleChain w get l key of (l', r) \<Rightarrow>
             let stop = (case r of Inl e \<Rightarrow> if errors_Is e ErrNotFound then None else Some (Inl e)
                         | Inr (body, _) \<Rightarrow> if body \<noteq> [] then Some (Inr body) else None)
             in case stop of
                  Some result \<Rightarrow> (l', result)
                | None \<Rightarrow> (l', bindR (get key) (\<lambda>obj. Inr (obj_Data obj)))))"

definition findBundlePath :: "wire \<Rightarrow> getter \<Rightarrow> manifestSourceLoader \<Rightarrow> string \<Rightarrow> manifestSourceLoader \<times> string list result" where
  "findBundlePath w get l key =
     (case fmlookup (ml_inline l) key of
        Some _ \<Rightarrow> (l, Inr [])
      | None \<Rightarrow>
          (case searchBundleChain w get l key of
             (l', Inl e) \<Rightarrow> (l', Inl e)
           | (l', Inr (body, path)) \<Rightarrow> (l', Inr (if body \<noteq> [] then path else []))))"

definition inlineSegment :: "wire \<Rightarrow> getter \<Rightarrow> manifestSourceLoader \<Rightarrow> ObjectRef \<Rightarrow> manifestSourceLoader \<times> bytes result" where
  "inlineSegment w get l ref =
     (case (if SourceBundle ref \<noteq> [] then manifestBody w get l (SourceBundle ref) (SourceManifest ref)
            else resolve w get l (SourceManifest ref)) of
        (l', Inl e) \<Rightarrow> (l', Inl (Wrap ''read inline segment manifest'' e))
      | (l', Inr sourceBody) \<Rightarrow>
          (l', if \<not> strings_HasSuffix (SourceManifest ref) (''/manifests/'' @ hex_EncodeToString (sha256 w sourceBody) @ ''.json'')
               then invalid ''inline segment manifest checksum mismatch''
               else case unmarshalManifest w sourceBody of
                 Inl e \<Rightarrow> Inl (Wrap ''decode inline segment manifest'' e)
               | Inr source \<Rightarrow>
                   if unat (SourceIndex ref) \<ge> length (Segments source)
                   then invalid ''inline segment index is outside manifest''
                   else
                     let sourceRef = Segments source ! unat (SourceIndex ref) in
                     if InlineData sourceRef = [] \<or> ref_SHA256 sourceRef \<noteq> ref_SHA256 ref \<or>
                        ref_Bytes sourceRef \<noteq> ref_Bytes ref \<or> ref_Blocks sourceRef \<noteq> ref_Blocks ref \<or>
                        int (length (InlineData sourceRef)) \<noteq> ref_Bytes ref \<or>
                        hex_EncodeToString (sha256 w (InlineData sourceRef)) \<noteq> ref_SHA256 ref
                     then invalid ''inline segment does not match its reference''
                     else Inr (InlineData sourceRef)))"

section \<open>Writing references\<close>

definition ref_segment :: "ObjectRef \<Rightarrow> bytes \<Rightarrow> Segment" where
  "ref_segment ref data =
     \<lparr>seg_Data = data, seg_SHA256 = ref_SHA256 ref, seg_Bytes = ref_Bytes ref, seg_Blocks = ref_Blocks ref,
      seg_Extents = [], seg_ZeroExtents = []\<rparr>"

definition ref_data :: "wire \<Rightarrow> getter \<Rightarrow> manifestSourceLoader \<Rightarrow> ObjectRef \<Rightarrow> manifestSourceLoader \<times> bytes result" where
  "ref_data w get l ref =
     (if InlineData ref = [] \<and> SourceManifest ref \<noteq> [] then inlineSegment w get l ref
      else if InlineData ref = [] then
        (l, case get (ref_Key ref) of Inl e \<Rightarrow> Inl (Wrap ''read segment'' e) | Inr obj \<Rightarrow> Inr (obj_Data obj))
      else (l, Inr (InlineData ref)))"

definition applyObjectRef ::
  "wire \<Rightarrow> getter \<Rightarrow> fileio \<Rightarrow> manifestSourceLoader \<Rightarrow> image \<Rightarrow> int \<Rightarrow> ObjectRef \<Rightarrow>
     manifestSourceLoader \<times> image \<times> unit result" where
  "applyObjectRef w get io l img sz ref =
     (case ref_data w get l ref of
        (l', Inl e) \<Rightarrow> (l', img, Inl e)
      | (l', Inr data) \<Rightarrow>
          (case decodeSegment (codec.truncate w) (ref_segment ref data) of
             Inl e \<Rightarrow> (l', img, Inl (Wrap ''decode segment'' e))
           | Inr runs \<Rightarrow>
               if \<not> extentsContain (map run_extent runs) (ref_Extents ref)
               then (l', img, invalid ''segment does not contain its manifest extents'')
               else
                 (case applyRuns io img sz runs (Some (ref_Extents ref)) of
                    (img', Inl e) \<Rightarrow> (l', img', Inl (Wrap ''apply segment'' e))
                  | (img', Inr _) \<Rightarrow> (l', img', Inr ()))))"

text \<open>
  The workers of \<open>applyObjectRefs\<close> take references from a channel; \<open>order\<close> is the order in which
  they are applied, any rearrangement of the plan. After the first error the rest is given up
  (the image is then discarded by the caller).
\<close>

fun applyObjectRefs ::
  "wire \<Rightarrow> getter \<Rightarrow> fileio \<Rightarrow> manifestSourceLoader \<Rightarrow> image \<Rightarrow> int \<Rightarrow> ObjectRef list \<Rightarrow>
     manifestSourceLoader \<times> image \<times> unit result" where
  "applyObjectRefs w get io l img sz [] = (l, img, Inr ())"
| "applyObjectRefs w get io l img sz (ref # order) =
     (case applyObjectRef w get io l img sz ref of
        (l', img', Inl e) \<Rightarrow> (l', img', Inl e)
      | (l', img', Inr _) \<Rightarrow> applyObjectRefs w get io l' img' sz order)"

text \<open>A nil error from \<open>createSparseImage\<close> is an image of zeros; \<open>creates\<close> is its outcome.\<close>

definition createSparseImage :: "unit result \<Rightarrow> image result" where
  "createSparseImage creates = bindR creates (\<lambda>_. Inr empty_image)"

definition RestoreState ::
  "wire \<Rightarrow> getter \<Rightarrow> fileio \<Rightarrow> unit result \<Rightarrow> (ObjectRef list \<Rightarrow> ObjectRef list) \<Rightarrow> State \<Rightarrow> image result" where
  "RestoreState w get io creates schedule state =
     bindR (validateState w (s_Name state) state) (\<lambda>_.
     bindR (restorePlan w get state) (\<lambda>refs.
     bindR (createSparseImage creates) (\<lambda>img.
       case applyObjectRefs w get io (newManifestSourceLoader state) img (s_Size state) (schedule refs) of
         (_, img', Inl e) \<Rightarrow> Inl e
       | (_, img', Inr _) \<Rightarrow> Inr img')))"

section \<open>What is restored\<close>

text \<open>
  \<open>payload\<close> gives the data behind each digest. It is fixed by the segments that were published
  as long as nobody finds a second preimage of their digests.
\<close>

definition second_preimage_free :: "wire \<Rightarrow> (string \<Rightarrow> bytes) \<Rightarrow> ObjectRef list \<Rightarrow> bool" where
  "second_preimage_free w payload refs \<longleftrightarrow>
     (\<forall>r\<in>set refs. \<forall>x. hex_EncodeToString (sha256 w x) = ref_SHA256 r \<longrightarrow> x = payload (ref_SHA256 r))"

definition ref_block :: "wire \<Rightarrow> (string \<Rightarrow> bytes) \<Rightarrow> ObjectRef \<Rightarrow> u64 \<Rightarrow> bytes option" where
  "ref_block w payload r b =
     (case decodeSegment (codec.truncate w) (ref_segment r (payload (ref_SHA256 r))) of
        Inl _ \<Rightarrow> None | Inr runs \<Rightarrow> runs_block runs b)"

definition plan_blocks :: "wire \<Rightarrow> (string \<Rightarrow> bytes) \<Rightarrow> ObjectRef list \<Rightarrow> u64 \<rightharpoonup> bytes" where
  "plan_blocks w payload plan b =
     (case ref_for plan b of None \<Rightarrow> None | Some r \<Rightarrow> ref_block w payload r b)"

definition plan_image :: "wire \<Rightarrow> (string \<Rightarrow> bytes) \<Rightarrow> ObjectRef list \<Rightarrow> image" where
  "plan_image w payload plan = overlay (plan_blocks w payload plan) empty_image"

section \<open>Applying one reference\<close>

text \<open>A call that reports success did what a disk without faults does.\<close>

lemma apply_overlap_success:
  "apply_overlap io sz run img ov = (img', Inr ()) \<Longrightarrow> apply_overlap ideal_io sz run img ov = (img', Inr ())"
  by (auto simp: apply_overlap_def ideal_io_def file_WriteAt_def Let_def split: if_splits option.splits prod.splits)

lemma apply_overlaps_success:
  "apply_overlaps io sz run img ovs = (img', Inr ()) \<Longrightarrow> apply_overlaps ideal_io sz run img ovs = (img', Inr ())"
proof (induction ovs arbitrary: img)
  case (Cons ov ovs)
  then obtain img1 where "apply_overlap io sz run img ov = (img1, Inr ())" "apply_overlaps io sz run img1 ovs = (img', Inr ())"
    by (auto split: prod.splits sum.splits)
  then show ?case using Cons.IH apply_overlap_success by fastforce
qed simp

lemma apply_runs_loop_success:
  "apply_runs_loop io sz sel img runs = (img', Inr ()) \<Longrightarrow> apply_runs_loop ideal_io sz sel img runs = (img', Inr ())"
proof (induction runs arbitrary: img)
  case (Cons run runs)
  then obtain img1 where "apply_overlaps io sz run img (intersectExtent (run_extent run) sel) = (img1, Inr ())"
      "apply_runs_loop io sz sel img1 runs = (img', Inr ())"
    by (auto split: prod.splits sum.splits)
  then show ?case using Cons.IH apply_overlaps_success by fastforce
qed simp

lemma run_block_length:
  assumes "wf_run r" "Start (run_extent r) \<le> b" "b < extent_end (run_extent r)"
  shows "length (run_block r b) = BlockSize"
proof -
  have "unat (b - Start (run_extent r)) + 1 \<le> unat (Blocks (run_extent r))"
    using assms unat_end [of "run_extent r"] by (simp add: wf_run_def unat_sub word_le_nat_alt word_less_nat_alt)
  then have "(unat (b - Start (run_extent r)) + 1) * BlockSize \<le> unat (Blocks (run_extent r)) * BlockSize"
    by (rule mult_le_mono1)
  then show ?thesis using assms(1) by (simp add: run_block_def wf_run_def)
qed

lemma runs_block_length: "wf_runs runs \<Longrightarrow> runs_block runs b = Some d \<Longrightarrow> length d = BlockSize"
  by (induction runs) (auto simp: wf_runs_Cons run_block_length split: if_splits)

lemma ref_block_segment:
  assumes "decodeSegment (codec.truncate w) (ref_segment ref data) = Inr runs" "second_preimage_free w payload refs" "ref \<in> set refs"
  shows "ref_block w payload ref = runs_block runs"
proof -
  have "hex_EncodeToString (sha256 w data) = ref_SHA256 ref"
    using assms(1) by (auto simp: decodeSegment_def ref_segment_def codec.defs split: if_splits)
  then have "data = payload (ref_SHA256 ref)" using assms(2,3) by (auto simp: second_preimage_free_def)
  then show ?thesis using assms(1) by (auto simp: ref_block_def fun_eq_iff)
qed

definition ref_overlay :: "wire \<Rightarrow> (string \<Rightarrow> bytes) \<Rightarrow> ObjectRef \<Rightarrow> u64 \<rightharpoonup> bytes" where
  "ref_overlay w payload r b = (if b \<in> ref_blocks r then ref_block w payload r b else None)"

text \<open>The volume's size in blocks bounds what a well-formed reference touches.\<close>

definition sizeBlocks :: "int \<Rightarrow> u64" where
  "sizeBlocks sz = word_of_int (sz div DefaultBlockSize)"

lemma applyObjectRef_within:
  assumes "wf_extents (ref_Extents ref)" "applyObjectRef w get io l img sz ref = (l', img', r)"
  shows "changed_within img img' (ref_blocks ref)"
proof -
  have W: "changed_within img x (ref_blocks ref)" if "applyRuns io img sz runs (Some (ref_Extents ref)) = (x, y)" for runs x y
  proof -
    have "changed_within img (fst (apply_runs_loop io sz (ref_Extents ref) img runs))
        (exts_set (map run_extent runs) \<inter> exts_set (ref_Extents ref) \<inter> {..<word_of_int (sz div DefaultBlockSize)})"
      by (rule apply_runs_loop_within [OF assms(1) refl subset_refl])
    then show ?thesis using that by (auto simp: applyRuns_def changed_within_def ref_blocks_def split: if_splits)
  qed
  show ?thesis
    using assms(2) by (auto simp: applyObjectRef_def dest: W split: prod.splits sum.splits if_splits)
qed

lemma applyObjectRef_Inr:
  assumes "applyObjectRef w get io l img sz ref = (l', img', Inr ())" "wf_ref (sizeBlocks sz) ref"
    "second_preimage_free w payload refs" "ref \<in> set refs"
  shows "img' = overlay (ref_overlay w payload ref) img"
    and "\<forall>b\<in>ref_blocks ref. \<exists>d. ref_block w payload ref b = Some d \<and> length d = BlockSize"
proof -
  obtain data runs where d: "ref_data w get l ref = (l', Inr data)"
      "decodeSegment (codec.truncate w) (ref_segment ref data) = Inr runs"
      "extentsContain (map run_extent runs) (ref_Extents ref)"
      "applyRuns io img sz runs (Some (ref_Extents ref)) = (img', Inr ())"
    using assms(1) by (auto simp: applyObjectRef_def split: prod.splits sum.splits if_splits)
  have W: "wf_runs runs" by (rule decodeSegment_sound(1) [OF d(2)])
  have wfe: "wf_extents (ref_Extents ref)" and inside: "exts_set (ref_Extents ref) \<subseteq> {..<word_of_int (sz div DefaultBlockSize)}"
    using assms(2) by (auto simp: wf_ref_def ref_blocks_def sizeBlocks_def)
  have loop: "apply_runs_loop io sz (ref_Extents ref) img runs = (img', Inr ())"
    using d(4) by (auto simp: applyRuns_def split: if_splits)
  have "apply_runs_loop ideal_io sz (ref_Extents ref) img runs = (overlay (selected_blocks runs (ref_blocks ref)) img, Inr ())"
    unfolding ref_blocks_def using W wfe inside by (intro apply_runs_loop_sound) (auto simp: ideal_io_def sound_io_def)
  then have "img' = overlay (selected_blocks runs (ref_blocks ref)) img"
    using apply_runs_loop_success [OF loop] by simp
  moreover have "selected_blocks runs (ref_blocks ref) = ref_overlay w payload ref"
    using ref_block_segment [OF d(2) assms(3,4)] by (auto simp: selected_blocks_def ref_overlay_def fun_eq_iff)
  ultimately show "img' = overlay (ref_overlay w payload ref) img" by simp
  have sub: "ref_blocks ref \<subseteq> exts_set (map run_extent runs)"
    using extentsContain_subset [of "map run_extent runs" "ref_Extents ref"] d(3) W wfe
    by (simp add: ref_blocks_def wf_runs_def)
  show "\<forall>b\<in>ref_blocks ref. \<exists>d. ref_block w payload ref b = Some d \<and> length d = BlockSize"
  proof
    fix b assume "b \<in> ref_blocks ref"
    then obtain d where "runs_block runs b = Some d" using sub runs_block_dom [of runs b] by blast
    then show "\<exists>d. ref_block w payload ref b = Some d \<and> length d = BlockSize"
      using ref_block_segment [OF d(2) assms(3,4)] runs_block_length [OF W] by simp
  qed
qed

section \<open>Applying a plan\<close>

lemma disjoint_card: "disjoint_refs rs \<Longrightarrow> card (\<Union>r\<in>set rs. ref_blocks r) = (\<Sum>r\<leftarrow>rs. card (ref_blocks r))"
proof (induction rs)
  case (Cons r rs)
  have "ref_blocks r \<inter> (\<Union>x\<in>set rs. ref_blocks x) = {}" using Cons.prems by auto
  then have "card (ref_blocks r \<union> (\<Union>x\<in>set rs. ref_blocks x)) = card (ref_blocks r) + card (\<Union>x\<in>set rs. ref_blocks x)"
    by (intro card_Un_disjoint) auto
  then show ?case using Cons by simp
qed simp

lemma wf_refs_mset:
  assumes "mset xs = mset ys" "wf_refs n ys"
  shows "wf_refs n xs"
proof -
  have "set xs = set ys" "(\<Sum>r\<leftarrow>xs. card (ref_blocks r)) = (\<Sum>r\<leftarrow>ys. card (ref_blocks r))"
    using assms(1) mset_eq_setD by (auto simp flip: sum_mset_sum_list)
  then show ?thesis
    using assms(2) disjoint_card [of ys] card_disjoint [of xs] by (auto simp: wf_refs_def list_all_iff)
qed

lemma ref_for_mset:
  assumes "mset xs = mset ys" "disjoint_refs xs" "disjoint_refs ys"
  shows "ref_for xs = ref_for ys"
proof
  fix b
  have "set xs = set ys" using assms(1) mset_eq_setD by blast
  then show "ref_for xs b = ref_for ys b"
    using ref_for_disjoint [OF assms(2)] ref_for_disjoint [OF assms(3)] ref_for_None [of xs b] ref_for_None [of ys b] ref_for_Some [of xs b]
    by (cases "ref_for xs b") auto
qed

lemma plan_blocks_Cons:
  "disjoint_refs (r # rs) \<Longrightarrow> plan_blocks w payload (r # rs) = ref_overlay w payload r ++ plan_blocks w payload rs"
  by (auto simp: plan_blocks_def ref_overlay_def map_add_def fun_eq_iff ref_for_None split: option.splits dest: ref_for_Some)

lemma applyObjectRefs_Inr:
  assumes "applyObjectRefs w get io l img sz order = (l', img', Inr ())" "wf_refs (sizeBlocks sz) order"
    "second_preimage_free w payload order"
  shows "img' = overlay (plan_blocks w payload order) img \<and>
    (\<forall>r\<in>set order. \<forall>b\<in>ref_blocks r. \<exists>d. ref_block w payload r b = Some d \<and> length d = BlockSize)"
  using assms
proof (induction order arbitrary: l img)
  case Nil
  have "plan_blocks w payload [] = Map.empty" by (auto simp: plan_blocks_def)
  then show ?case using Nil by simp
next
  case (Cons r order)
  obtain l1 img1 where s: "applyObjectRef w get io l img sz r = (l1, img1, Inr ())"
      "applyObjectRefs w get io l1 img1 sz order = (l', img', Inr ())"
    using Cons.prems(1) by (auto split: prod.splits sum.splits)
  have w: "wf_ref (sizeBlocks sz) r" "wf_refs (sizeBlocks sz) order" "disjoint_refs (r # order)"
    using Cons.prems(2) by (auto simp: wf_refs_def)
  have p: "second_preimage_free w payload order" using Cons.prems(3) by (auto simp: second_preimage_free_def)
  note A = applyObjectRef_Inr [OF s(1) w(1) Cons.prems(3)]
  show ?case
    using A Cons.IH [OF s(2) w(2) p] plan_blocks_Cons [OF w(3)] by (simp add: overlay_overlay)
qed

lemma ref_block_origin: "ref_block w payload (origin r) = ref_block w payload r"
  by (simp add: ref_block_def fun_eq_iff origin_def ref_segment_def)

lemma plan_blocks_source:
  "plan_blocks w payload plan b = (case plan_source plan b of None \<Rightarrow> None | Some s \<Rightarrow> ref_block w payload s b)"
  by (simp add: plan_blocks_def plan_source_def ref_block_origin split: option.splits)

lemma zeros_block: "img_block empty_image b = replicate BlockSize 0"
  by (rule nth_equalityI) (auto simp: img_block_def empty_image_def file_read_nth)

lemma validateState_geometry:
  assumes "validateState w name state = Inr ()"
  shows "s_BlockSize state = DefaultBlockSize" "0 < s_Size state" "s_Size state mod DefaultBlockSize = 0"
    "volumeBlocks state = sizeBlocks (s_Size state)"
  using assms by (auto simp: validateState_def volumeBlocks_def sizeBlocks_def split: if_splits)

text \<open>A restore writes the image of its plan, in whatever order the references are applied.\<close>

lemma RestoreState_image:
  assumes r: "RestoreState w get io creates schedule state = Inr img"
    and perm: "\<And>refs. mset (schedule refs) = mset refs"
    and digests: "\<And>refs. restorePlan w get state = Inr refs \<Longrightarrow> second_preimage_free w payload refs"
    and p: "restorePlan w get state = Inr refs"
  shows "img = plan_image w payload refs"
    and "\<forall>r\<in>set refs. \<forall>b\<in>ref_blocks r. \<exists>d. ref_block w payload r b = Some d \<and> length d = BlockSize"
proof -
  have v: "validateState w (s_Name state) state = Inr ()" using r by (auto simp: RestoreState_def)
  obtain l' where a: "applyObjectRefs w get io (newManifestSourceLoader state) empty_image (s_Size state) (schedule refs) = (l', img, Inr ())"
    using r v p by (cases "applyObjectRefs w get io (newManifestSourceLoader state) empty_image (s_Size state) (schedule refs)")
      (auto simp: RestoreState_def createSparseImage_def split: sum.splits)
  obtain es where wfp: "wf_plan (volumeBlocks state) refs" using restorePlan_Inr [OF p] .
  have wfr: "wf_refs (sizeBlocks (s_Size state)) refs" using wfp validateState_geometry(4) [OF v] by (simp add: wf_plan_def)
  have wf: "wf_refs (sizeBlocks (s_Size state)) (schedule refs)" by (rule wf_refs_mset [OF perm wfr])
  have same: "set (schedule refs) = set refs" using perm mset_eq_setD by blast
  then have free: "second_preimage_free w payload (schedule refs)" using digests [OF p] by (simp add: second_preimage_free_def)
  have "ref_for (schedule refs) = ref_for refs"
    using ref_for_mset [OF perm] wf wfr by (simp add: wf_refs_def)
  then have blocks: "plan_blocks w payload (schedule refs) = plan_blocks w payload refs"
    by (simp add: plan_blocks_def fun_eq_iff)
  note A = applyObjectRefs_Inr [OF a wf free]
  show "img = plan_image w payload refs" using A by (simp add: plan_image_def blocks)
  show "\<forall>r\<in>set refs. \<forall>b\<in>ref_blocks r. \<exists>d. ref_block w payload r b = Some d \<and> length d = BlockSize"
    using A same by simp
qed

text \<open>The restored image: every block is the newest version in the chain, or zero.\<close>

lemma RestoreState_chain:
  assumes r: "RestoreState w get io creates schedule state = Inr img"
    and perm: "\<And>refs. mset (schedule refs) = mset refs"
    and digests: "\<And>refs. restorePlan w get state = Inr refs \<Longrightarrow> second_preimage_free w payload refs"
  shows "\<exists>es. restoreManifests w get state = Inr es \<and> linked (s_Manifest state) (s_Generation state) es \<and>
    (\<forall>b. case chain_source (map entry_refs es) b of
       None \<Rightarrow> img_block img b = replicate BlockSize 0
     | Some s \<Rightarrow> ref_block w payload s b = Some (img_block img b))"
proof -
  obtain refs where p: "restorePlan w get state = Inr refs" using r by (auto simp: RestoreState_def)
  obtain es where es: "restoreManifests w get state = Inr es" "linked (s_Manifest state) (s_Generation state) es"
      "plan_source refs = chain_source (map entry_refs es)"
    using restorePlan_Inr [OF p] .
  have A: "img = plan_image w payload refs"
      "\<forall>r\<in>set refs. \<forall>b\<in>ref_blocks r. \<exists>d. ref_block w payload r b = Some d \<and> length d = BlockSize"
    by (rule RestoreState_image [OF r perm digests p]; assumption)+
  have full: "\<exists>d. ref_block w payload s b = Some d \<and> length d = BlockSize" if "plan_source refs b = Some s" for b s
    using that A(2) ref_for_Some [of refs b] by (auto simp: plan_source_def ref_block_origin)
  have "case chain_source (map entry_refs es) b of None \<Rightarrow> img_block img b = replicate BlockSize 0
     | Some s \<Rightarrow> ref_block w payload s b = Some (img_block img b)" for b
  proof -
    have "img_block img b = (case plan_blocks w payload refs b of None \<Rightarrow> img_block empty_image b | Some d \<Rightarrow> d)"
      unfolding A(1) plan_image_def using full [of b]
      by (intro img_block_overlay) (auto simp: plan_blocks_source split: option.splits)
    then show ?thesis using full [of b] es(3) by (auto simp: plan_blocks_source zeros_block split: option.splits)
  qed
  then show ?thesis using es(1,2) by blast
qed

section \<open>Properties\<close>


text \<open>A volume whose head is an empty checkpoint: every block restores as zeros.\<close>

definition blank_manifest :: Manifest where
  "blank_manifest = sample_manifest\<lparr>Kind := ''checkpoint'', Segments := []\<rparr>"

definition blank_wire :: wire where
  "blank_wire = sample_wire\<lparr>unmarshalManifest := (\<lambda>x. if x = [5] then Inr blank_manifest else Inl EOF)\<rparr>"

lemma blank_plan: "restorePlan blank_wire sample_get sample_state = Inr []"
proof -
  have "decodeManifest blank_wire sample_state (manifestKey sample_wire ''v'' [5]) [5] 1 = Inr blank_manifest"
    by code_simp
  then have r: "readManifestWithSourceCache blank_wire sample_get sample_state (manifestKey sample_wire ''v'' [5]) 1 fmempty =
      Inr (blank_manifest, [], fmempty)"
    by (simp add: readManifestWithSourceCache_def sample_get_def sample_state_def)
  have k: "manifestKey sample_wire ''v'' [5] \<noteq> []" by (simp add: manifestKey_def VolumePrefix_def)
  have s: "s_Manifest sample_state = manifestKey sample_wire ''v'' [5]" "s_Generation sample_state = 1"
    by (simp_all add: sample_state_def)
  show ?thesis
    unfolding restorePlan_def restoreManifests_def s using k r
    by (simp add: restore_loop_step Let_def blank_manifest_def)
qed

lemma blank_restores: "RestoreState blank_wire sample_get ideal_io (Inr ()) id sample_state = Inr empty_image"
proof -
  have "validateState blank_wire ''v'' sample_state = Inr ()"
    by (simp add: validateState_def sample_state_def inline_keys_def sorted_list_of_fset.rep_eq DefaultBlockSize_def manifestKey_def VolumePrefix_def)
  then show ?thesis
    by (simp add: RestoreState_def blank_plan createSparseImage_def) (simp add: sample_state_def)
qed


end
