(* ===== verification/LazyImage.thy ===== *)
theory LazyImage
  imports DeviceRun Restore
begin

text \<open>
  The lazy image (\<open>internal/replica/lazy.go\<close>): a sparse file whose blocks are fetched from the
  segments of a restore plan when they are first needed. It provides the operations the block
  device calls, and is shown to keep their contract (\<open>hydrator_laws\<close>).
\<close>

section \<open>State and operations\<close>

record lazyExtent =
  le_Extent :: Extent
  le_ref :: nat

text \<open>The store answers differently over time; \<open>l_store t\<close> is how it answers during the \<open>t\<close>-th
  call. The file is the device's image, passed along by the device.\<close>

record LazyImage =
  l_store :: "nat \<Rightarrow> getter"
  l_time :: nat
  l_manifests :: manifestSourceLoader
  l_size :: int
  l_refs :: "ObjectRef list"
  l_sources :: "lazyExtent list"
  l_loaded :: "bool list"
  l_overridden :: "Extent list"
  l_closed :: bool

definition lazy_sources :: "ObjectRef list \<Rightarrow> lazyExtent list" where
  "lazy_sources refs =
     sort_key (\<lambda>s. Start (le_Extent s))
       (concat (map (\<lambda>(i, r). map (\<lambda>e. \<lparr>le_Extent = e, le_ref = i\<rparr>) (ref_Extents r)) (enumerate 0 refs)))"

definition PrepareLazyRestore ::
  "wire \<Rightarrow> getter \<Rightarrow> (nat \<Rightarrow> getter) \<Rightarrow> unit result \<Rightarrow> State \<Rightarrow> (image \<times> LazyImage) result" where
  "PrepareLazyRestore w get later creates state =
     bindR (validateState w (s_Name state) state) (\<lambda>_.
     bindR (restorePlan w get state) (\<lambda>refs.
     bindR (createSparseImage creates) (\<lambda>img.
       Inr (img, \<lparr>l_store = later, l_time = 0, l_manifests = newManifestSourceLoader state, l_size = s_Size state,
         l_refs = refs, l_sources = lazy_sources refs, l_loaded = replicate (length refs) False,
         l_overridden = [], l_closed = False\<rparr>))))"

text \<open>The scan of \<open>hydrateLocked\<close>: the references with a block that is asked for, not loaded and
  not overwritten.\<close>

fun scan_sources :: "bool list \<Rightarrow> Extent list \<Rightarrow> Extent list \<Rightarrow> lazyExtent list \<Rightarrow> nat list \<Rightarrow> nat list" where
  "scan_sources loaded overridden requested [] wanted = wanted"
| "scan_sources loaded overridden requested (source # sources) wanted =
     (if Start (le_Extent source) \<ge> extent_end (last requested) then wanted
      else if loaded ! le_ref source \<or> intersectExtent (le_Extent source) requested = []
      then scan_sources loaded overridden requested sources wanted
      else
        let visible = subtractExtents (intersectExtent (le_Extent source) requested) overridden in
        scan_sources loaded overridden requested sources
          (if visible \<noteq> [] then List.insert (le_ref source) wanted else wanted))"

fun hydrate_refs :: "wire \<Rightarrow> fileio \<Rightarrow> getter \<Rightarrow> LazyImage \<Rightarrow> image \<Rightarrow> nat list \<Rightarrow> image \<times> LazyImage \<times> unit result" where
  "hydrate_refs w io get l img [] = (img, l, Inr ())"
| "hydrate_refs w io get l img (index # indexes) =
     (let selected = subtractExtents (ref_Extents (l_refs l ! index)) (l_overridden l) in
      if selected = [] then hydrate_refs w io get (l\<lparr>l_loaded := (l_loaded l)[index := True]\<rparr>) img indexes
      else
        (case applyObjectRef w get io (l_manifests l) img (l_size l) ((l_refs l ! index)\<lparr>ref_Extents := selected\<rparr>) of
           (m, img', Inl e) \<Rightarrow> (img', l\<lparr>l_manifests := m\<rparr>, Inl e)
         | (m, img', Inr _) \<Rightarrow>
             hydrate_refs w io get (l\<lparr>l_manifests := m, l_loaded := (l_loaded l)[index := True]\<rparr>) img' indexes))"

definition wanted_refs :: "LazyImage \<Rightarrow> Extent list \<Rightarrow> nat list" where
  "wanted_refs l requested =
     (let first = sort_Search (length (l_sources l)) (\<lambda>i. extent_end (le_Extent (l_sources l ! i)) > Start (hd requested))
      in sort (scan_sources (l_loaded l) (l_overridden l) requested (drop first (l_sources l)) []))"

definition hydrateLocked :: "wire \<Rightarrow> fileio \<Rightarrow> LazyImage \<Rightarrow> image \<Rightarrow> Extent list \<Rightarrow> image \<times> LazyImage \<times> unit result" where
  "hydrateLocked w io l img requested =
     (if l_closed l then (img, l, Inl ErrDeviceClosed)
      else if requested = [] then (img, l, Inr ())
      else hydrate_refs w io (l_store l (l_time l)) (l\<lparr>l_time := Suc (l_time l)\<rparr>) img (wanted_refs l requested))"

definition Lazy_Hydrate :: "wire \<Rightarrow> fileio \<Rightarrow> LazyImage \<Rightarrow> image \<Rightarrow> int \<Rightarrow> int \<Rightarrow> image \<times> LazyImage \<times> unit result" where
  "Lazy_Hydrate w io l img off len = hydrateLocked w io l img (byteRangeExtents off len (l_size l))"

definition write_boundaries :: "int \<Rightarrow> int \<Rightarrow> Extent list" where
  "write_boundaries off len =
     (let en = off + len;
          b1 = (if off mod DefaultBlockSize \<noteq> 0 then [Extent (word_of_int (off div DefaultBlockSize)) 1] else []);
          lastBlock = word_of_int ((en - 1) div DefaultBlockSize)
      in if en mod DefaultBlockSize \<noteq> 0 \<and> (b1 = [] \<or> Start (hd b1) \<noteq> lastBlock) then b1 @ [Extent lastBlock 1] else b1)"

definition Lazy_PrepareWrite :: "wire \<Rightarrow> fileio \<Rightarrow> LazyImage \<Rightarrow> image \<Rightarrow> int \<Rightarrow> int \<Rightarrow> image \<times> LazyImage \<times> unit result" where
  "Lazy_PrepareWrite w io l img off len =
     (if l_closed l then (img, l, Inl ErrDeviceClosed)
      else if len \<le> 0 then (img, l, Inr ())
      else hydrateLocked w io l img (write_boundaries off len))"

definition Lazy_CommitWrite :: "LazyImage \<Rightarrow> int \<Rightarrow> int \<Rightarrow> LazyImage" where
  "Lazy_CommitWrite l off len =
     (if l_closed l then l
      else l\<lparr>l_overridden := unionExtents (l_overridden l) (byteRangeExtents off len (l_size l))\<rparr>)"

text \<open>\<open>closes\<close> is the result of closing the file.\<close>

definition Lazy_Close :: "unit result \<Rightarrow> LazyImage \<Rightarrow> LazyImage \<times> unit result" where
  "Lazy_Close closes l = (if l_closed l then (l, Inr ()) else (l\<lparr>l_closed := True\<rparr>, closes))"

definition lazy_ops :: "wire \<Rightarrow> fileio \<Rightarrow> LazyImage hydrator_ops" where
  "lazy_ops w io = \<lparr>Hydrate = Lazy_Hydrate w io, PrepareWrite = Lazy_PrepareWrite w io,
     CommitWrite = Lazy_CommitWrite, hydrator_Close = Lazy_Close (Inr ())\<rparr>"

section \<open>What is resident\<close>

text \<open>A block waits for its reference until the reference is loaded or the block is overwritten.\<close>

definition pending_block :: "LazyImage \<Rightarrow> u64 \<Rightarrow> bool" where
  "pending_block l b \<longleftrightarrow> b \<notin> exts_set (l_overridden l) \<and>
     (\<exists>k < length (l_refs l). b \<in> ref_blocks (l_refs l ! k) \<and> \<not> l_loaded l ! k)"

definition lazy_resident :: "LazyImage \<Rightarrow> nat \<Rightarrow> bool" where
  "lazy_resident l i \<longleftrightarrow> \<not> (i div BlockSize < 2 ^ 64 \<and> pending_block l (of_nat (i div BlockSize)))"

definition lazy_source :: "wire \<Rightarrow> (string \<Rightarrow> bytes) \<Rightarrow> LazyImage \<Rightarrow> image" where
  "lazy_source w payload l = plan_image w payload (l_refs l)"

definition sources_ok :: "ObjectRef list \<Rightarrow> lazyExtent list \<Rightarrow> bool" where
  "sources_ok refs ss \<longleftrightarrow> wf_extents (map le_Extent ss) \<and>
     (\<forall>s. s \<in> set ss \<longleftrightarrow> le_ref s < length refs \<and> le_Extent s \<in> set (ref_Extents (refs ! le_ref s)))"

definition lazy_inv :: "wire \<Rightarrow> (string \<Rightarrow> bytes) \<Rightarrow> LazyImage \<Rightarrow> bool" where
  "lazy_inv w payload l \<longleftrightarrow> \<not> l_closed l \<and> wf_plan (sizeBlocks (l_size l)) (l_refs l) \<and>
     length (l_loaded l) = length (l_refs l) \<and> wf_extents (l_overridden l) \<and>
     sources_ok (l_refs l) (l_sources l) \<and> second_preimage_free w payload (l_refs l) \<and>
     0 < l_size l \<and> l_size l < 2 ^ 63"

section \<open>Loading references\<close>

lemma ref_unique:
  assumes "lazy_inv w payload l" "j < length (l_refs l)" "b \<in> ref_blocks (l_refs l ! j)" "k < length (l_refs l)" "b \<in> ref_blocks (l_refs l ! k)"
  shows "j = k"
  using assms unfolding lazy_inv_def wf_plan_def wf_refs_def disjoint_refs_def sorted_wrt_iff_nth_less
  by (metis disjoint_iff linorder_neqE_nat)

lemma pending_ref:
  assumes "lazy_inv w payload l" "k < length (l_refs l)" "b \<in> ref_blocks (l_refs l ! k)"
  shows "pending_block l b \<longleftrightarrow> b \<notin> exts_set (l_overridden l) \<and> \<not> l_loaded l ! k"
  using assms(2,3) ref_unique [OF assms(1) _ _ assms(2,3)] unfolding pending_block_def by blast

lemma pending_loaded:
  assumes "lazy_inv w payload l" "k < length (l_refs l)"
    and l': "l_refs l' = l_refs l" "l_overridden l' = l_overridden l" "l_loaded l' = (l_loaded l)[k := True]"
  shows "pending_block l' b \<longleftrightarrow> pending_block l b \<and> b \<notin> ref_blocks (l_refs l ! k)"
proof -
  have len: "length (l_loaded l) = length (l_refs l)" using assms(1) by (simp add: lazy_inv_def)
  have "pending_block l' b \<longleftrightarrow> b \<notin> exts_set (l_overridden l) \<and>
      (\<exists>j < length (l_refs l). b \<in> ref_blocks (l_refs l ! j) \<and> \<not> l_loaded l ! j \<and> j \<noteq> k)"
    unfolding pending_block_def l' using assms(2) len by (auto simp: nth_list_update)
  then show ?thesis
    using ref_unique [OF assms(1) _ _ assms(2)] unfolding pending_block_def by blast
qed

lemma lazy_inv_update:
  assumes "lazy_inv w payload l" "l_refs l' = l_refs l" "l_sources l' = l_sources l" "l_overridden l' = l_overridden l"
    "l_size l' = l_size l" "l_closed l' = l_closed l" "length (l_loaded l') = length (l_loaded l)"
  shows "lazy_inv w payload l'" "lazy_source w payload l' = lazy_source w payload l"
  using assms by (simp_all add: lazy_inv_def lazy_source_def)

definition selected_ref :: "LazyImage \<Rightarrow> nat \<Rightarrow> ObjectRef" where
  "selected_ref l k = (l_refs l ! k)\<lparr>ref_Extents := subtractExtents (ref_Extents (l_refs l ! k)) (l_overridden l)\<rparr>"

lemma selected_ref_blocks:
  assumes "lazy_inv w payload l" "k < length (l_refs l)"
  shows "ref_blocks (selected_ref l k) = ref_blocks (l_refs l ! k) - exts_set (l_overridden l)"
    "wf_extents (ref_Extents (selected_ref l k))"
    "ref_block w payload (selected_ref l k) = ref_block w payload (l_refs l ! k)"
proof -
  have "wf_ref (sizeBlocks (l_size l)) (l_refs l ! k)" "wf_extents (l_overridden l)"
    using assms by (auto simp: lazy_inv_def wf_plan_def wf_refs_def list_all_length)
  then show "ref_blocks (selected_ref l k) = ref_blocks (l_refs l ! k) - exts_set (l_overridden l)"
    "wf_extents (ref_Extents (selected_ref l k))"
    using subtractExtents_spec by (auto simp: selected_ref_def ref_blocks_def wf_ref_def)
  show "ref_block w payload (selected_ref l k) = ref_block w payload (l_refs l ! k)"
    by (simp add: ref_block_def fun_eq_iff selected_ref_def ref_segment_def)
qed

lemma source_block:
  assumes "lazy_inv w payload l" "k < length (l_refs l)" "b \<in> ref_blocks (l_refs l ! k)"
  shows "plan_blocks w payload (l_refs l) b = ref_block w payload (l_refs l ! k) b"
  using assms ref_for_disjoint [of "l_refs l" "l_refs l ! k" b]
  by (simp add: plan_blocks_def lazy_inv_def wf_plan_def wf_refs_def)

text \<open>One reference: an error leaves everything resident as it was, success makes its blocks
  resident with the data of the source.\<close>

abbreviation "lazy_keeps w payload \<equiv> hyd_keeps lazy_resident (lazy_source w payload) (lazy_inv w payload) l_size"

lemma lazy_step_error:
  assumes inv: "lazy_inv w payload l" "k < length (l_refs l)" "\<not> l_loaded l ! k"
    and a: "applyObjectRef w get io m img (l_size l) (selected_ref l k) = (m', img', r)"
  shows "lazy_keeps w payload l img (l\<lparr>l_manifests := m'\<rparr>) img'"
proof -
  have ch: "changed_within img img' (ref_blocks (selected_ref l k))"
    by (rule applyObjectRef_within [OF selected_ref_blocks(2) [OF inv(1,2)] a])
  have res: "lazy_resident (l\<lparr>l_manifests := m'\<rparr>) = lazy_resident l"
    by (auto simp: lazy_resident_def pending_block_def fun_eq_iff)
  have "img' i = img i" if "lazy_resident l i" for i
  proof (rule ccontr)
    assume "img' i \<noteq> img i"
    then have "i div BlockSize < 2 ^ 64" "of_nat (i div BlockSize) \<in> ref_blocks (selected_ref l k)"
      using ch by (auto simp: changed_within_def)
    then show False
      using that pending_ref [OF inv(1,2)] inv(3) selected_ref_blocks(1) [OF inv(1,2)] by (auto simp: lazy_resident_def)
  qed
  moreover have "lazy_inv w payload (l\<lparr>l_manifests := m'\<rparr>)" "lazy_source w payload (l\<lparr>l_manifests := m'\<rparr>) = lazy_source w payload l"
    by (rule lazy_inv_update [OF inv(1)]; simp)+
  ultimately show ?thesis by (simp add: hyd_keeps_def res)
qed

lemma lazy_step_ok:
  assumes inv: "lazy_inv w payload l" "k < length (l_refs l)" "\<not> l_loaded l ! k"
    and ne: "ref_Extents (selected_ref l k) \<noteq> []"
    and a: "applyObjectRef w get io m img (l_size l) (selected_ref l k) = (m', img', Inr ())"
  shows "lazy_keeps w payload l img (l\<lparr>l_manifests := m', l_loaded := (l_loaded l)[k := True]\<rparr>) img'"
proof -
  let ?l = "l\<lparr>l_manifests := m', l_loaded := (l_loaded l)[k := True]\<rparr>" and ?s = "selected_ref l k"
  note S = selected_ref_blocks [OF inv(1,2)]
  have pend: "pending_block ?l b \<longleftrightarrow> pending_block l b \<and> b \<notin> ref_blocks (l_refs l ! k)" for b
    by (rule pending_loaded [OF inv(1,2)]) simp_all
  have wf: "wf_ref (sizeBlocks (l_size l)) (l_refs l ! k)" "ref_ZeroExtents (l_refs l ! k) = []"
    and free: "second_preimage_free w payload (l_refs l)"
    using inv(1,2) by (auto simp: lazy_inv_def wf_plan_def wf_refs_def list_all_length)
  have s: "ref_ZeroExtents ?s = []" "ref_SHA256 ?s = ref_SHA256 (l_refs l ! k)" using wf(2) by (auto simp: selected_ref_def)
  have fs: "second_preimage_free w payload [?s]" using free inv(2) s(2) by (auto simp: second_preimage_free_def)
  have ws: "wf_ref (sizeBlocks (l_size l)) ?s" using wf(1) s S(1,2) ne by (auto simp: wf_ref_def ref_zeros_def)
  note A = applyObjectRef_Inr [OF a ws fs]
  note E = lazy_step_error [OF inv a, unfolded hyd_keeps_def]
  have inv': "lazy_inv w payload ?l" "lazy_source w payload ?l = lazy_source w payload l"
    by (rule lazy_inv_update [OF inv(1)]; simp)+
  have old: "lazy_resident ?l i \<and> img' i = img i" if "lazy_resident l i" for i
    using that E pend by (auto simp: lazy_resident_def)
  have new: "img' i = lazy_source w payload l i" if "lazy_resident ?l i" "\<not> lazy_resident l i" for i
  proof -
    let ?b = "of_nat (i div BlockSize) :: u64"
    have b: "i div BlockSize < 2 ^ 64" "pending_block l ?b" "?b \<in> ref_blocks (l_refs l ! k)"
      using that pend by (auto simp: lazy_resident_def)
    then have bs: "?b \<in> ref_blocks ?s" using S(1) pending_ref [OF inv(1,2) b(3)] by simp
    obtain d where d: "ref_block w payload ?s ?b = Some d" using A(2) bs by auto
    then have "plan_blocks w payload (l_refs l) ?b = Some d" using source_block [OF inv(1,2) b(3)] S(3) by simp
    then show ?thesis using A(1) b(1) bs d by (simp add: overlay_def ref_overlay_def lazy_source_def plan_image_def)
  qed
  show ?thesis unfolding hyd_keeps_def using inv' old new by simp
qed

text \<open>A reference with nothing left to fetch.\<close>

lemma lazy_step_skip:
  assumes inv: "lazy_inv w payload l" "k < length (l_refs l)" and e: "ref_Extents (selected_ref l k) = []"
  shows "lazy_keeps w payload l img (l\<lparr>l_loaded := (l_loaded l)[k := True]\<rparr>) img"
proof -
  let ?l = "l\<lparr>l_loaded := (l_loaded l)[k := True]\<rparr>"
  have "ref_blocks (l_refs l ! k) \<subseteq> exts_set (l_overridden l)"
    using selected_ref_blocks(1) [OF inv] ref_blocks_Nil [OF e] by blast
  moreover have "pending_block ?l b \<longleftrightarrow> pending_block l b \<and> b \<notin> ref_blocks (l_refs l ! k)" for b
    by (rule pending_loaded [OF inv]) simp_all
  ultimately have "lazy_resident ?l = lazy_resident l"
    unfolding lazy_resident_def fun_eq_iff pending_block_def [of l] by blast
  then show ?thesis
    using lazy_inv_update [OF inv(1), of ?l] by (simp add: hyd_keeps_def)
qed

lemma hyd_keeps_trans:
  assumes "hyd_keeps res src hinv hsize h img h1 img1" "hyd_keeps res src hinv hsize h1 img1 h2 img2"
  shows "hyd_keeps res src hinv hsize h img h2 img2"
  using assms unfolding hyd_keeps_def by metis

lemma hydrate_refs_Cons:
  "hydrate_refs w io get l img (k # ks) =
     (if ref_Extents (selected_ref l k) = [] then hydrate_refs w io get (l\<lparr>l_loaded := (l_loaded l)[k := True]\<rparr>) img ks
      else
        (case applyObjectRef w get io (l_manifests l) img (l_size l) (selected_ref l k) of
           (m, img', Inl e) \<Rightarrow> (img', l\<lparr>l_manifests := m\<rparr>, Inl e)
         | (m, img', Inr _) \<Rightarrow>
             hydrate_refs w io get (l\<lparr>l_manifests := m, l_loaded := (l_loaded l)[k := True]\<rparr>) img' ks))"
  by (simp add: selected_ref_def Let_def)

lemma hydrate_refs_keeps:
  assumes "lazy_inv w payload l" "distinct ks" "\<forall>k\<in>set ks. k < length (l_refs l) \<and> \<not> l_loaded l ! k"
    "hydrate_refs w io get l img ks = (img', l', r)"
  shows "lazy_keeps w payload l img l' img' \<and> l_refs l' = l_refs l \<and> l_overridden l' = l_overridden l \<and>
    (r = Inr () \<longrightarrow> (\<forall>k < length (l_refs l). l_loaded l ! k \<or> k \<in> set ks \<longrightarrow> l_loaded l' ! k))"
  using assms
proof (induction ks arbitrary: l img)
  case Nil
  then show ?case by (auto simp: hyd_keeps_def)
next
  case (Cons k ks)
  have k: "k < length (l_refs l)" "\<not> l_loaded l ! k" "k \<notin> set ks" "distinct ks" using Cons.prems by auto
  have len: "length (l_loaded l) = length (l_refs l)" using Cons.prems(1) by (simp add: lazy_inv_def)
  note step = Cons.prems(4) [unfolded hydrate_refs_Cons]
  have more: ?case if one: "lazy_keeps w payload l img l1 img1" and l1: "l_refs l1 = l_refs l" "l_overridden l1 = l_overridden l"
      "l_loaded l1 = (l_loaded l)[k := True]" and rest: "hydrate_refs w io get l1 img1 ks = (img', l', r)" for l1 img1
  proof -
    have "lazy_inv w payload l1" using one by (simp add: hyd_keeps_def)
    moreover have "\<forall>j\<in>set ks. j < length (l_refs l1) \<and> \<not> l_loaded l1 ! j"
      using Cons.prems(3) k l1 len by (auto simp: nth_list_update)
    ultimately have IH: "lazy_keeps w payload l1 img1 l' img' \<and> l_refs l' = l_refs l1 \<and> l_overridden l' = l_overridden l1 \<and>
      (r = Inr () \<longrightarrow> (\<forall>j < length (l_refs l1). l_loaded l1 ! j \<or> j \<in> set ks \<longrightarrow> l_loaded l' ! j))"
      using Cons.IH rest k(4) by blast
    then show ?thesis using hyd_keeps_trans [OF one] l1 k len by (auto simp: nth_list_update)
  qed
  show ?case
  proof (cases "ref_Extents (selected_ref l k) = []")
    case True
    then show ?thesis
      using more [OF lazy_step_skip [OF Cons.prems(1) k(1) True]] step by simp
  next
    case False
    obtain m img1 r1 where a: "applyObjectRef w get io (l_manifests l) img (l_size l) (selected_ref l k) = (m, img1, r1)"
      by (metis prod_cases3)
    show ?thesis
    proof (cases r1)
      case (Inl e)
      then show ?thesis
        using lazy_step_error [OF Cons.prems(1) k(1,2) a] step False a by auto
    next
      case (Inr u)
      then have ok: "applyObjectRef w get io (l_manifests l) img (l_size l) (selected_ref l k) = (m, img1, Inr ())" using a by simp
      then show ?thesis
        using more [OF lazy_step_ok [OF Cons.prems(1) k(1,2) False ok]] step False by simp
    qed
  qed
qed

section \<open>The scan finds every reference that is needed\<close>

lemma scan_sources_mono: "set wanted \<subseteq> set (scan_sources loaded ov req ss wanted)"
  by (induction ss arbitrary: wanted) (auto simp: Let_def subset_iff)

lemma scan_sources_props:
  assumes "distinct wanted" "set wanted \<subseteq> {k. k < n \<and> \<not> loaded ! k}" "\<forall>s\<in>set ss. le_ref s < n"
  shows "distinct (scan_sources loaded ov req ss wanted) \<and> set (scan_sources loaded ov req ss wanted) \<subseteq> {k. k < n \<and> \<not> loaded ! k}"
  using assms
proof (induction ss arbitrary: wanted)
  case (Cons s ss)
  have s: "le_ref s < n" "\<forall>t\<in>set ss. le_ref t < n" using Cons.prems(3) by auto
  have same: "distinct (scan_sources loaded ov req ss wanted) \<and> set (scan_sources loaded ov req ss wanted) \<subseteq> {k. k < n \<and> \<not> loaded ! k}"
    by (rule Cons.IH [OF Cons.prems(1,2) s(2)])
  have more: "distinct (scan_sources loaded ov req ss (List.insert (le_ref s) wanted)) \<and>
      set (scan_sources loaded ov req ss (List.insert (le_ref s) wanted)) \<subseteq> {k. k < n \<and> \<not> loaded ! k}"
    if "\<not> loaded ! le_ref s"
    by (rule Cons.IH) (use Cons.prems(1,2) s that in simp_all)
  show ?case using same more Cons.prems(1,2) by (simp add: Let_def)
qed simp

lemma scan_sources_finds:
  assumes "s \<in> set ss" "wf_extents (map le_Extent ss)" "wf_extents req" "req \<noteq> []" "wf_extents ov"
    "b \<in> ext_set (le_Extent s)" "b \<in> exts_set req" "b \<notin> exts_set ov" "\<not> loaded ! le_ref s"
  shows "le_ref s \<in> set (scan_sources loaded ov req ss wanted)"
  using assms(1,2)
proof (induction ss arbitrary: wanted)
  case (Cons t ss)
  have last: "b < extent_end (last req)"
  proof -
    obtain e where e: "e \<in> set req" "b < extent_end e" using assms(7) by (auto simp: exts_set_def ext_set_def)
    then obtain i where i: "i < length req" "e = req ! i" by (auto simp: in_set_conv_nth)
    have "extent_end (req ! i) \<le> extent_end (req ! (length req - 1))"
      using i assms(4) by (intro wf_extents_end_mono [OF assms(3)]) auto
    then show ?thesis using e(2) i(2) assms(4) by (simp add: last_conv_nth)
  qed
  have starts: "Start (le_Extent t) \<le> b"
    using Cons.prems assms(6) by (auto simp: wf_extents_Cons ext_set_def wf_extent_def intro: order_trans less_imp_le)
  then have go: "\<not> Start (le_Extent t) \<ge> extent_end (last req)" using last by auto
  show ?case
  proof (cases "s = t")
    case True
    note I = intersectExtent_spec [OF assms(3), of "le_Extent t"]
    have bi: "b \<in> exts_set (intersectExtent (le_Extent t) req)" using I assms(6,7) True by simp
    have "b \<in> exts_set (subtractExtents (intersectExtent (le_Extent t) req) ov)"
      using subtractExtents_spec(1) [of "intersectExtent (le_Extent t) req" ov] I assms(5,8) bi by simp
    then have ne: "intersectExtent (le_Extent t) req \<noteq> []" "subtractExtents (intersectExtent (le_Extent t) req) ov \<noteq> []"
      using bi by auto
    then show ?thesis
      using go assms(9) True scan_sources_mono [of "List.insert (le_ref t) wanted" loaded ov req ss] by (auto simp: Let_def)
  next
    case False
    then show ?thesis using Cons go by (auto simp: Let_def wf_extents_Cons)
  qed
qed simp

lemma search_first:
  assumes "wf_extents (map le_Extent ss)" "s \<in> set ss" "c \<le> b" "b \<in> ext_set (le_Extent s)"
  shows "s \<in> set (drop (sort_Search (length ss) (\<lambda>i. extent_end (le_Extent (ss ! i)) > c)) ss)"
proof -
  let ?f = "\<lambda>i. extent_end (le_Extent (ss ! i)) > c"
  have mono: "?f j" if "i \<le> j" "j < length ss" "?f i" for i j
    using wf_extents_end_mono [OF assms(1), of i j] that by auto
  obtain i where i: "i < length ss" "ss ! i = s" using assms(2) by (auto simp: in_set_conv_nth)
  have "?f i" using assms(3,4) i by (auto simp: ext_set_def)
  then have "\<not> i < sort_Search (length ss) ?f" using sort_Search_mono [of "length ss" ?f] mono by blast
  then show ?thesis using i by (auto simp: in_set_conv_nth intro!: exI [of _ "i - sort_Search (length ss) ?f"])
qed

lemma wanted_refs_ok:
  assumes "lazy_inv w payload l"
  shows "distinct (wanted_refs l req)" "\<forall>k\<in>set (wanted_refs l req). k < length (l_refs l) \<and> \<not> l_loaded l ! k"
proof -
  have "\<forall>s\<in>set (drop n (l_sources l)). le_ref s < length (l_refs l)" for n
    using assms by (auto simp: lazy_inv_def sources_ok_def dest: in_set_dropD)
  from scan_sources_props [OF _ _ this, of "[]" "l_loaded l"]
  show "distinct (wanted_refs l req)" "\<forall>k\<in>set (wanted_refs l req). k < length (l_refs l) \<and> \<not> l_loaded l ! k"
    by (auto simp: wanted_refs_def Let_def)
qed

lemma wanted_refs_finds:
  assumes inv: "lazy_inv w payload l" and req: "wf_extents req" "b \<in> exts_set req"
    and p: "pending_block l b" "k < length (l_refs l)" "b \<in> ref_blocks (l_refs l ! k)"
  shows "k \<in> set (wanted_refs l req)"
proof -
  note I = inv [unfolded lazy_inv_def sources_ok_def]
  obtain e where e: "e \<in> set (ref_Extents (l_refs l ! k))" "b \<in> ext_set e"
    using p(3) by (auto simp: ref_blocks_def exts_set_def)
  define s where "s = \<lparr>le_Extent = e, le_ref = k\<rparr>"
  have s: "s \<in> set (l_sources l)" using I e p(2) by (simp add: s_def)
  have ne: "req \<noteq> []" using req(2) by auto
  have "Start (hd req) \<le> b"
    using req ne by (cases req) (auto simp: wf_extents_Cons ext_set_def exts_set_def wf_extent_def intro: order_trans less_imp_le)
  then have "s \<in> set (drop (sort_Search (length (l_sources l)) (\<lambda>i. extent_end (le_Extent (l_sources l ! i)) > Start (hd req))) (l_sources l))"
    using search_first [OF _ s] I e(2) by (simp add: s_def)
  from scan_sources_finds [OF this _ req(1) ne _ _ req(2)]
  have "le_ref s \<in> set (scan_sources (l_loaded l) (l_overridden l) req (drop (sort_Search (length (l_sources l)) (\<lambda>i. extent_end (le_Extent (l_sources l ! i)) > Start (hd req))) (l_sources l)) [])"
    using I e(2) pending_ref [OF inv p(2,3)] p(1) by (simp add: s_def drop_map [symmetric] wf_extents_drop)
  then show ?thesis by (simp add: wanted_refs_def Let_def s_def)
qed

section \<open>The contract\<close>

lemma hydrateLocked_keeps:
  assumes "lazy_inv w payload l" "hydrateLocked w io l img req = (img', l', r)"
  shows "lazy_keeps w payload l img l' img'"
    and "r = Inr () \<Longrightarrow> wf_extents req \<Longrightarrow> b \<in> exts_set req \<Longrightarrow> \<not> pending_block l' b"
proof -
  have open_l: "\<not> l_closed l" using assms(1) by (simp add: lazy_inv_def)
  let ?l = "l\<lparr>l_time := Suc (l_time l)\<rparr>"
  have t: "lazy_keeps w payload l img ?l img" "lazy_inv w payload ?l"
    using lazy_inv_update [OF assms(1), of ?l] by (auto simp: hyd_keeps_def lazy_resident_def pending_block_def)
  have "lazy_keeps w payload l img l' img' \<and> (r = Inr () \<longrightarrow> wf_extents req \<longrightarrow> b \<in> exts_set req \<longrightarrow> \<not> pending_block l' b)"
  proof (cases "req = []")
    case True
    then show ?thesis using assms open_l by (auto simp: hydrateLocked_def hyd_keeps_def)
  next
    case False
    then have h: "hydrate_refs w io (l_store l (l_time l)) ?l img (wanted_refs l req) = (img', l', r)"
      using assms(2) open_l by (simp add: hydrateLocked_def)
    note H = hydrate_refs_keeps [OF t(2) wanted_refs_ok(1) [OF assms(1)] _ h]
    have H': "lazy_keeps w payload ?l img l' img'" "l_refs l' = l_refs l" "l_overridden l' = l_overridden l"
      "r = Inr () \<longrightarrow> (\<forall>k < length (l_refs l). l_loaded l ! k \<or> k \<in> set (wanted_refs l req) \<longrightarrow> l_loaded l' ! k)"
      using H wanted_refs_ok(2) [OF assms(1)] by auto
    have "\<not> pending_block l' b" if "r = Inr ()" "wf_extents req" "b \<in> exts_set req"
    proof
      assume p: "pending_block l' b"
      then obtain k where k: "k < length (l_refs l)" "b \<in> ref_blocks (l_refs l ! k)" "\<not> l_loaded l' ! k" "b \<notin> exts_set (l_overridden l)"
        using H'(2,3) by (auto simp: pending_block_def)
      then have "\<not> l_loaded l ! k" using H'(4) that(1) by blast
      then have "pending_block l b" using k by (auto simp: pending_block_def)
      then have "k \<in> set (wanted_refs l req)" using wanted_refs_finds [OF assms(1) that(2,3)] k by blast
      then show False using H'(4) that(1) k by blast
    qed
    then show ?thesis using hyd_keeps_trans [OF t(1) H'(1)] by blast
  qed
  then show "lazy_keeps w payload l img l' img'"
    and "r = Inr () \<Longrightarrow> wf_extents req \<Longrightarrow> b \<in> exts_set req \<Longrightarrow> \<not> pending_block l' b" by blast+
qed

lemma lazy_touched_block:
  assumes "0 \<le> off" "0 \<le> n" "off + n \<le> sz" "sz < 2 ^ 63" "i div BlockSize < 2 ^ 64"
  shows "(of_nat (i div BlockSize) :: u64) \<in> exts_set (byteRangeExtents off n sz) \<longleftrightarrow> touched off n i"
proof -
  let ?b = "of_nat (i div BlockSize) :: u64"
  have u: "uint ?b = int (i div BlockSize)" using unat_of_nat64 [OF assms(5)] by (metis uint_nat)
  have "?b \<in> exts_set (byteRangeExtents off n sz) \<longleftrightarrow> (\<exists>j. off \<le> j \<and> j < off + n \<and> j < sz \<and> int (i div BlockSize) = j div DefaultBlockSize)"
    using byteRangeExtents_spec(2) [OF assms(4,1)] u by simp
  also have "\<dots> \<longleftrightarrow> touched off n i"
  proof
    assume "\<exists>j. off \<le> j \<and> j < off + n \<and> j < sz \<and> int (i div BlockSize) = j div DefaultBlockSize"
    then obtain j where j: "off \<le> j" "j < off + n" "int (i div BlockSize) = j div DefaultBlockSize" by blast
    have "off div DefaultBlockSize \<le> j div DefaultBlockSize" "j div DefaultBlockSize \<le> (off + n - 1) div DefaultBlockSize"
      using j by (auto intro!: zdiv_mono1 simp: DefaultBlockSize_def)
    then show "touched off n i" using j by (simp add: touched_def)
  next
    assume t: "touched off n i"
    define j where "j = max off (int (i div BlockSize) * DefaultBlockSize)"
    have k: "off div DefaultBlockSize \<le> int (i div BlockSize)" "int (i div BlockSize) \<le> (off + n - 1) div DefaultBlockSize" "0 < n"
      using t by (auto simp: touched_def)
    have "int (i div BlockSize) * DefaultBlockSize \<le> off + n - 1"
      using k(2) by (simp add: DefaultBlockSize_def)
    then have "off \<le> j" "j < off + n" using k(3) by (auto simp: j_def)
    moreover have "j div DefaultBlockSize = int (i div BlockSize)"
      using k(1) unfolding j_def DefaultBlockSize_def by (auto simp: max_def)
    ultimately show "\<exists>j. off \<le> j \<and> j < off + n \<and> j < sz \<and> int (i div BlockSize) = j div DefaultBlockSize"
      using assms(3) by (intro exI [of _ j]) simp
  qed
  finally show ?thesis .
qed

lemma block_range: "0 \<le> x \<Longrightarrow> x < 2 ^ 63 \<Longrightarrow> uint (word_of_int (x div DefaultBlockSize) :: u64) = x div DefaultBlockSize"
  by (simp add: DefaultBlockSize_def uint_word_of_int take_bit_int_eq_self)

lemma unat_plus1: "unat (b::u64) < 2 ^ 64 - 1 \<Longrightarrow> unat (b + 1) = unat b + 1"
  by (simp add: unat_word_ariths)

lemma one_block: "unat b < 2 ^ 64 - 1 \<Longrightarrow> wf_extent (Extent b 1) \<and> ext_set (Extent b 1) = {b}"
proof -
  assume "unat b < 2 ^ 64 - 1"
  then have "unat (b + 1) = unat b + 1" by (rule unat_plus1)
  then show "wf_extent (Extent b 1) \<and> ext_set (Extent b 1) = {b}"
    by (auto simp: wf_extent_def ext_set_def extent_end_def word_le_nat_alt word_less_nat_alt intro!: unsigned_word_eqI [where ?'a = nat])
qed

lemma write_boundaries_spec:
  assumes "0 \<le> off" "0 < n" "off + n \<le> sz" "sz < 2 ^ 63"
  shows "wf_extents (write_boundaries off n)"
    "off mod DefaultBlockSize \<noteq> 0 \<Longrightarrow> word_of_int (off div DefaultBlockSize) \<in> exts_set (write_boundaries off n)"
    "(off + n) mod DefaultBlockSize \<noteq> 0 \<Longrightarrow> word_of_int ((off + n - 1) div DefaultBlockSize) \<in> exts_set (write_boundaries off n)"
proof -
  define f l :: u64 where "f = word_of_int (off div DefaultBlockSize)" and "l = word_of_int ((off + n - 1) div DefaultBlockSize)"
  have u: "uint f = off div DefaultBlockSize" "uint l = (off + n - 1) div DefaultBlockSize"
    unfolding f_def l_def using assms by (auto intro: block_range)
  have "uint f \<le> uint l" unfolding u using assms by (intro zdiv_mono1) (auto simp: DefaultBlockSize_def)
  moreover have "uint l < 9223372036854775808" unfolding u using assms by (simp add: DefaultBlockSize_def)
  ultimately have small: "unat f \<le> unat l" "unat l < 9223372036854775808"
    using uint_nat [of f] uint_nat [of l] by linarith+
  have one: "wf_extent (Extent f 1)" "ext_set (Extent f 1) = {f}" "wf_extent (Extent l 1)" "ext_set (Extent l 1) = {l}"
    using one_block [of f] one_block [of l] small by auto
  have lt: "extent_end (Extent f 1) \<le> l" if "f \<noteq> l"
  proof -
    have "unat f \<noteq> unat l" using that unsigned_word_eqI by blast
    then have "unat f < unat l" using small by simp
    moreover have "unat (f + 1) = unat f + 1" using small by (intro unat_plus1) simp
    ultimately show ?thesis by (simp add: extent_end_def word_le_nat_alt)
  qed
  have eq: "write_boundaries off n = (let b1 = (if off mod DefaultBlockSize \<noteq> 0 then [Extent f 1] else []) in
      if (off + n) mod DefaultBlockSize \<noteq> 0 \<and> (b1 = [] \<or> Start (hd b1) \<noteq> l) then b1 @ [Extent l 1] else b1)"
    by (simp add: write_boundaries_def f_def l_def Let_def)
  show "wf_extents (write_boundaries off n)"
    using one lt by (auto simp: eq Let_def wf_extents_def)
  show "word_of_int (off div DefaultBlockSize) \<in> exts_set (write_boundaries off n)" if "off mod DefaultBlockSize \<noteq> 0"
    using one that by (auto simp: eq Let_def f_def [symmetric])
  show "word_of_int ((off + n - 1) div DefaultBlockSize) \<in> exts_set (write_boundaries off n)" if "(off + n) mod DefaultBlockSize \<noteq> 0"
    using one that by (auto simp: eq Let_def l_def [symmetric])
qed

text \<open>The bytes of the touched blocks outside the written range lie in the first or last block.\<close>

lemma boundary_byte:
  assumes "0 \<le> off" "0 < n" "touched off n i" "\<not> (off \<le> int i \<and> int i < off + n)"
  shows "off mod DefaultBlockSize \<noteq> 0 \<and> int (i div BlockSize) = off div DefaultBlockSize \<or>
    (off + n) mod DefaultBlockSize \<noteq> 0 \<and> int (i div BlockSize) = (off + n - 1) div DefaultBlockSize"
proof -
  have id: "int (i div BlockSize) = int i div 4096" by (simp add: BlockSize_def DefaultBlockSize_def zdiv_int)
  have t: "off div 4096 \<le> int i div 4096" "int i div 4096 \<le> (off + n - 1) div 4096"
    using assms(3) by (auto simp: touched_def id DefaultBlockSize_def)
  show ?thesis
  proof (cases "int i < off")
    case True
    then have "int i div 4096 \<le> off div 4096" by (simp add: zdiv_mono1)
    then have e: "int i div 4096 = off div 4096" using t by simp
    have "off mod 4096 \<noteq> 0"
    proof
      assume "off mod 4096 = 0"
      then have "off = off div 4096 * 4096" by (simp add: minus_mod_eq_div_mult [symmetric])
      moreover have "int i div 4096 * 4096 \<le> int i" by simp
      ultimately show False using True e by linarith
    qed
    then show ?thesis using e by (simp add: id DefaultBlockSize_def)
  next
    case False
    then have ge: "off + n \<le> int i" using assms(4) by simp
    then have "(off + n - 1) div 4096 \<le> int i div 4096" by (simp add: zdiv_mono1)
    then have e: "int i div 4096 = (off + n - 1) div 4096" using t by simp
    have "(off + n) mod 4096 \<noteq> 0"
    proof
      assume z: "(off + n) mod 4096 = 0"
      then have q: "off + n = (off + n) div 4096 * 4096" by (simp add: minus_mod_eq_div_mult [symmetric])
      have "(off + n) div 4096 \<le> int i div 4096" using ge by (simp add: zdiv_mono1)
      moreover have "(off + n - 1) div 4096 = (off + n) div 4096 - 1"
        by (rule int_div_pos_eq [where r = 4095]) (use q in simp_all)
      ultimately show False using e by linarith
    qed
    then show ?thesis using e by (simp add: id DefaultBlockSize_def)
  qed
qed

interpretation lazy: hydrator_laws "lazy_ops w io" lazy_resident "lazy_source w payload" "lazy_inv w payload" l_size
  for w io payload
proof
  fix h img off n img' h' and r :: "unit result"
  assume "lazy_inv w payload h" "Hydrate (lazy_ops w io) h img off n = (img', h', r)"
  then show "lazy_keeps w payload h img h' img'"
    using hydrateLocked_keeps(1) by (simp add: lazy_ops_def Lazy_Hydrate_def)
next
  fix h img off n img' h' i
  assume h: "lazy_inv w payload h" "Hydrate (lazy_ops w io) h img off n = (img', h', Inr ())"
    and b: "0 \<le> off" "off + n \<le> l_size h" "off \<le> int i" "int i < off + n"
  have sz: "l_size h < 2 ^ 63" using h(1) by (simp add: lazy_inv_def)
  have i: "i div BlockSize < 2 ^ 64" using b sz by (simp add: BlockSize_def DefaultBlockSize_def)
  have "touched off n i"
    using b by (simp add: touched_def BlockSize_def DefaultBlockSize_def zdiv_int zdiv_mono1)
  then have "of_nat (i div BlockSize) \<in> exts_set (byteRangeExtents off n (l_size h))"
    using lazy_touched_block [OF b(1) _ b(2) sz i] b by simp
  then show "lazy_resident h' i"
    using hydrateLocked_keeps(2) [OF h(1)] h(2) byteRangeExtents_spec(1) [OF sz]
    by (simp add: lazy_ops_def Lazy_Hydrate_def lazy_resident_def)
next
  fix h img off n img' h' and r :: "unit result"
  assume h: "lazy_inv w payload h" "PrepareWrite (lazy_ops w io) h img off n = (img', h', r)"
  then have "h' = h \<and> img' = img \<or> hydrateLocked w io h img (write_boundaries off n) = (img', h', r)"
    by (auto simp: lazy_ops_def Lazy_PrepareWrite_def split: if_splits)
  then show "lazy_keeps w payload h img h' img'"
    using hydrateLocked_keeps(1) [OF h(1)] h(1) by (auto simp: hyd_keeps_def)
next
  fix h img off n img' h' i
  assume h: "lazy_inv w payload h" "PrepareWrite (lazy_ops w io) h img off n = (img', h', Inr ())"
    and b: "0 \<le> off" "0 \<le> n" "off + n \<le> l_size h" "touched off n i" "\<not> (off \<le> int i \<and> int i < off + n)"
  have sz: "l_size h < 2 ^ 63" and n: "0 < n" using h(1) b(4) by (simp_all add: lazy_inv_def touched_def)
  have hyd: "hydrateLocked w io h img (write_boundaries off n) = (img', h', Inr ())"
    using h n by (auto simp: lazy_ops_def Lazy_PrepareWrite_def lazy_inv_def)
  note W = write_boundaries_spec [OF b(1) n b(3) sz]
  have w: "(of_nat (i div BlockSize) :: u64) = word_of_int (int (i div BlockSize))" by simp
  have "of_nat (i div BlockSize) \<in> exts_set (write_boundaries off n)"
    using boundary_byte [OF b(1) n b(4,5)] W(2,3) unfolding w by metis
  then show "lazy_resident h' i"
    using hydrateLocked_keeps(2) [OF h(1) hyd _ W(1)] by (simp add: lazy_resident_def)
next
  fix h off n assume h: "lazy_inv w payload h" and b: "0 \<le> off" "0 \<le> n" "off + n \<le> l_size h"
  have sz: "l_size h < 2 ^ 63" "wf_extents (l_overridden h)" "\<not> l_closed h" using h by (simp_all add: lazy_inv_def)
  have nw: "no_wrap (byteRangeExtents off n (l_size h))"
    using byteRangeExtents_spec(1) [OF sz(1)] by (auto simp: wf_extents_def wf_extent_def no_wrap_def list_all_iff intro: less_imp_le)
  note U = unionExtents_spec [OF sz(2) nw]
  show "lazy_inv w payload (CommitWrite (lazy_ops w io) h off n) \<and> l_size (CommitWrite (lazy_ops w io) h off n) = l_size h \<and>
      lazy_source w payload (CommitWrite (lazy_ops w io) h off n) = lazy_source w payload h"
    using h normal_imp_wf [OF U(1)] by (simp add: lazy_ops_def Lazy_CommitWrite_def lazy_inv_def lazy_source_def)
  fix i assume i: "int i < l_size h"
  have i64: "i div BlockSize < 2 ^ 64" using i sz by (simp add: BlockSize_def DefaultBlockSize_def)
  show "lazy_resident (CommitWrite (lazy_ops w io) h off n) i \<longleftrightarrow> lazy_resident h i \<or> touched off n i"
    using lazy_touched_block [OF b sz(1) i64] U(2) sz(3) i64
    by (auto simp: lazy_ops_def Lazy_CommitWrite_def lazy_resident_def pending_block_def)
qed

end
