(* ===== verification/LazyDevice.thy ===== *)
theory LazyDevice
  imports LazyImage
begin

text \<open>
  The device on top of a lazy image: a freshly prepared lazy image satisfies its invariant, and
  the theorems of \<open>DeviceRun\<close> hold of the device that runs over it.
\<close>

section \<open>A prepared lazy image\<close>

lemma sorted_wrt_insort:
  "symp D \<Longrightarrow> sorted_wrt D xs \<Longrightarrow> \<forall>y\<in>set xs. D x y \<Longrightarrow> sorted_wrt D (insort_key f x xs)"
  by (induction xs) (auto simp: set_insort_key dest: sympD)

lemma sorted_wrt_sort: "symp D \<Longrightarrow> sorted_wrt D xs \<Longrightarrow> sorted_wrt D (sort_key f xs)"
  by (induction xs) (auto intro: sorted_wrt_insort)

definition apart :: "lazyExtent \<Rightarrow> lazyExtent \<Rightarrow> bool" where
  "apart a b \<longleftrightarrow> ext_set (le_Extent a) \<inter> ext_set (le_Extent b) = {}"

lemma symp_apart: "symp apart"
  by (auto simp: symp_def apart_def)

lemma apart_order:
  assumes "apart a b" "wf_extent (le_Extent a)" "wf_extent (le_Extent b)" "Start (le_Extent a) \<le> Start (le_Extent b)"
  shows "extent_end (le_Extent a) \<le> Start (le_Extent b)"
proof (rule ccontr)
  assume "\<not> ?thesis"
  then have "Start (le_Extent b) \<in> ext_set (le_Extent a) \<inter> ext_set (le_Extent b)"
    using assms by (auto simp: ext_set_def wf_extent_def)
  then show False using assms(1) by (auto simp: apart_def)
qed

lemma sorted_sources_wf:
  assumes "sorted_wrt apart ss" "\<forall>s\<in>set ss. wf_extent (le_Extent s)"
  shows "wf_extents (map le_Extent (sort_key (\<lambda>s. Start (le_Extent s)) ss))"
proof -
  let ?r = "sort_key (\<lambda>s. Start (le_Extent s)) ss"
  have a: "sorted_wrt apart ?r" by (rule sorted_wrt_sort [OF symp_apart assms(1)])
  have s: "sorted (map (\<lambda>s. Start (le_Extent s)) ?r)" by simp
  have wf: "\<forall>s\<in>set ?r. wf_extent (le_Extent s)" using assms(2) by simp
  have "sorted_wrt (\<lambda>a b. extent_end (le_Extent a) \<le> Start (le_Extent b)) ?r"
    unfolding sorted_wrt_iff_nth_less
  proof (intro allI impI)
    fix i j assume ij: "i < j" "j < length ?r"
    have "Start (le_Extent (?r ! i)) \<le> Start (le_Extent (?r ! j))"
      using sorted_nth_mono [OF s, of i j] ij by simp
    moreover have "apart (?r ! i) (?r ! j)" using a ij by (simp only: sorted_wrt_iff_nth_less)
    moreover have "wf_extent (le_Extent (?r ! i))" "wf_extent (le_Extent (?r ! j))" using wf ij by (meson nth_mem order_less_trans)+
    ultimately show "extent_end (le_Extent (?r ! i)) \<le> Start (le_Extent (?r ! j))" by (intro apart_order)
  qed
  then show ?thesis using wf by (simp add: wf_extents_def sorted_wrt_map list_all_iff)
qed

lemma wf_extents_apart:
  "wf_extents es \<Longrightarrow> sorted_wrt apart (map (\<lambda>e. \<lparr>le_Extent = e, le_ref = k\<rparr>) es)"
  unfolding wf_extents_def sorted_wrt_map by (auto simp: apart_def ext_set_def elim!: sorted_wrt_mono_rel [rotated])

lemma sources_apart:
  "wf_refs n refs \<Longrightarrow>
     sorted_wrt apart (concat (map (\<lambda>(i, r). map (\<lambda>e. \<lparr>le_Extent = e, le_ref = i\<rparr>) (ref_Extents r)) (enumerate k refs)))"
proof (induction refs arbitrary: k)
  case (Cons r refs)
  have w: "wf_refs n refs" "wf_extents (ref_Extents r)" "\<forall>x\<in>set refs. ref_blocks r \<inter> ref_blocks x = {}"
    using Cons.prems by (auto simp: wf_refs_def wf_ref_def)
  have "apart \<lparr>le_Extent = e, le_ref = k\<rparr> \<lparr>le_Extent = e', le_ref = i\<rparr>"
    if "e \<in> set (ref_Extents r)" "(i, x) \<in> set (enumerate (Suc k) refs)" "e' \<in> set (ref_Extents x)" for e e' i x
  proof -
    have "x \<in> set refs" using that(2) by (auto simp: in_set_enumerate_eq)
    then show ?thesis using w(3) that(1,3) by (fastforce simp: apart_def ref_blocks_def exts_set_def)
  qed
  then show ?case using Cons.IH [OF w(1)] wf_extents_apart [OF w(2), of k] by (auto simp: sorted_wrt_append)
qed simp

lemma lazy_sources_ok:
  assumes "wf_refs n refs"
  shows "sources_ok refs (lazy_sources refs)"
proof -
  have wf: "wf_extent e" if "i < length refs" "e \<in> set (ref_Extents (refs ! i))" for i e
  proof -
    have "wf_ref n (refs ! i)" using assms that(1) by (auto simp: wf_refs_def list_all_length)
    then show ?thesis using that(2) by (auto simp: wf_ref_def wf_extents_def list_all_iff)
  qed
  have mem: "s \<in> set (lazy_sources refs) \<longleftrightarrow> le_ref s < length refs \<and> le_Extent s \<in> set (ref_Extents (refs ! le_ref s))" for s
    by (cases s) (force simp: lazy_sources_def in_set_enumerate_eq)
  have "wf_extents (map le_Extent (lazy_sources refs))"
    unfolding lazy_sources_def
    by (rule sorted_sources_wf [OF sources_apart [OF assms]]) (use wf in \<open>auto simp: in_set_enumerate_eq\<close>)
  then show ?thesis using mem by (simp add: sources_ok_def)
qed

lemma PrepareLazyRestore_inv:
  assumes "PrepareLazyRestore w get later creates state = Inr (img, l)" "s_Size state < 2 ^ 63"
    and "\<And>refs. restorePlan w get state = Inr refs \<Longrightarrow> second_preimage_free w payload refs"
  shows "lazy_inv w payload l" "img = empty_image" "l_size l = s_Size state" "restorePlan w get state = Inr (l_refs l)"
    "\<And>i. lazy_resident l i \<Longrightarrow> lazy_source w payload l i = 0"
proof -
  obtain refs where v: "validateState w (s_Name state) state = Inr ()" and p: "restorePlan w get state = Inr refs"
    and img: "img = empty_image" and l: "l = \<lparr>l_store = later, l_time = 0, l_manifests = newManifestSourceLoader state,
         l_size = s_Size state, l_refs = refs, l_sources = lazy_sources refs, l_loaded = replicate (length refs) False,
         l_overridden = [], l_closed = False\<rparr>"
    using assms(1) by (auto simp: PrepareLazyRestore_def createSparseImage_def)
  obtain es where wf: "wf_plan (volumeBlocks state) refs" using restorePlan_Inr [OF p] .
  note V = validateState_geometry [OF v]
  show "lazy_inv w payload l"
    using wf V assms(2) assms(3) [OF p] lazy_sources_ok [of "volumeBlocks state" refs]
    by (auto simp: lazy_inv_def l wf_plan_def)
  show "img = empty_image" "l_size l = s_Size state" "restorePlan w get state = Inr (l_refs l)" by (simp_all add: img l p)
  fix i assume r: "lazy_resident l i"
  have "plan_blocks w payload refs (of_nat (i div BlockSize)) = None" if "i div BlockSize < 2 ^ 64"
  proof -
    have "\<not> pending_block l (of_nat (i div BlockSize))" using r that by (simp add: lazy_resident_def)
    then have "ref_for refs (of_nat (i div BlockSize)) = None"
      by (auto simp: pending_block_def l ref_for_None in_set_conv_nth)
    then show ?thesis by (simp add: plan_blocks_def)
  qed
  then show "lazy_source w payload l i = 0"
    by (simp add: lazy_source_def l plan_image_def overlay_def empty_image_def)
qed

section \<open>Properties\<close>

abbreviation "lazy_content w payload \<equiv> content lazy_resident (lazy_source w payload)"
abbreviation "lazy_run_inv w payload \<equiv> run_inv lazy_resident (lazy_source w payload) (lazy_inv w payload) l_size"
abbreviation "lazy_dev_wf w payload \<equiv> dev_wf (lazy_inv w payload) l_size"
abbreviation "lazy_tracks w payload \<equiv> tracks lazy_resident (lazy_source w payload)"



text \<open>
  C29. A write changes exactly its range: after \<open>WriteAt\<close> the content holds the bytes it reports
  written (all of them when it reports no error), is unchanged outside the range, and every
  changed block is captured for replication; when it has to wait nothing has changed.
\<close>

theorem WriteAt_writes_and_captures:
  assumes "sound_reads io" "lazy_dev_wf w payload d" "lazy_tracks w payload base d"
    and "WriteAt (lazy_ops w lio) io reported p off d = (d', evs, out)"
  shows "lazy_dev_wf w payload d' \<and> lazy_tracks w payload base d' \<and>
    same_outside lazy_resident (lazy_source w payload) off (int (length p)) d d' \<and>
    (case out of Waiting \<Rightarrow> d' = d
     | Return (n, err) \<Rightarrow> holds_data lazy_resident (lazy_source w payload) off (take n p) d' \<and> (err = None \<longrightarrow> n = length p))"
  using lazy.WriteAt_correct [OF assms] by (auto simp: lazy.write_post_def)

text \<open>
  C30. A trim that reports success leaves zeros in its range and captures them for replication,
  whether the hole is punched or zeros are written, and leaves the rest of the content alone.
\<close>

theorem Trim_zeroes_and_captures:
  assumes "sound_reads io" "lazy_dev_wf w payload d" "lazy_tracks w payload base d"
    and "Trim (lazy_ops w lio) io reported off n d = (d', evs, out)"
  shows "lazy_dev_wf w payload d' \<and> same_outside lazy_resident (lazy_source w payload) off n d d' \<and>
    (case out of Waiting \<Rightarrow> d' = d
     | Return err \<Rightarrow> err = None \<longrightarrow> lazy_tracks w payload base d' \<and>
         holds_data lazy_resident (lazy_source w payload) off (replicate (nat n) 0) d')"
  using lazy.Trim_correct [OF assms] by (auto simp: lazy.trim_post_def split: outcome.splits)

text \<open>
  C31. A read that reports no error returns the content of the device at the offset, as many
  bytes as asked for or as remain, and changes nothing a reader can see.
\<close>

theorem ReadAt_reads_content:
  assumes "sound_reads io" "lazy_dev_wf w payload d" "ReadAt (lazy_ops w lio) io p off d = (d', buf, err)"
  shows "(err = None \<longrightarrow> buf = file_read (lazy_content w payload d) (nat off) (min (length p) (nat (d_size d - off)))) \<and>
    lazy_content w payload d' = lazy_content w payload d \<and> d_dirty d' - active_bytes d' = d_dirty d - active_bytes d"
  using lazy.ReadAt_correct [OF assms] by (simp add: balance_def)

text \<open>
  C32. Replaying the generations of a journal on a clean device puts them all on top of the
  content in order, in whatever order the blocks of one generation are written, and accounts for
  them as queued.
\<close>

theorem Replay_restores_journal:
  assumes "sound_io io" "\<forall>g\<in>set gs. replayable order d g" "\<not> d_closed d"
    and "lazy_run_inv w payload (base, [], d)" "d_active d = fmempty"
  shows "\<exists>d' evs. Replay (lazy_ops w lio) io order gs d = (d', evs, Inr ()) \<and> lazy_run_inv w payload (base, gs, d') \<and>
    (\<forall>i. int i < d_size d \<longrightarrow> lazy_content w payload d' i = apply_generations gs (lazy_content w payload d) i)"
  by (rule lazy.Replay_inv [OF assms])

text \<open>
  Backpressure cannot hold a writer for good: a write waits only while some generation is
  queued or some block is active, so once everything captured has been published and released the
  next attempt goes through.
\<close>

theorem WriteAt_drained_proceeds:
  assumes "lazy_run_inv w payload (base, [], d)" "d_active d = fmempty"
  shows "snd (snd (WriteAt ops io reported p off d)) \<noteq> Waiting"
proof -
  have "d_dirty d = 0" using assms by (auto simp: run_inv_def balance_def active_bytes_def)
  then show ?thesis by (auto simp: WriteAt_def must_wait_def Let_def split: prod.splits sum.splits)
qed

text \<open>
  C33. Marking the allocated blocks of a new image captures all of its content: whatever the file
  system says about data and holes, and also when it cannot tell, every byte of the image is
  recorded as a change to the empty volume, and the scan ends.
\<close>

theorem MarkAllocated_captures_image:
  assumes "sound_reads io" "seek_ok sk (d_file d) (d_size d)" "image_size_ok (d_size d)"
    and "\<not> d_closed d" "d_active d = fmempty" "d_hydrator d = None" "nat (d_size d) \<le> fuel"
  shows "\<exists>d'. MarkAllocated fuel sk io d = Some (d', Inr ()) \<and> lazy_tracks w payload empty_image d' \<and> d_file d' = d_file d"
  by (rule MarkAllocated_tracks [OF assms])

section \<open>Witnesses\<close>

definition blank_lazy :: LazyImage where
  "blank_lazy = \<lparr>l_store = (\<lambda>_. sample_get), l_time = 0, l_manifests = newManifestSourceLoader sample_state, l_size = 40960,
     l_refs = [], l_sources = [], l_loaded = [], l_overridden = [], l_closed = False\<rparr>"

definition blank_device :: "LazyImage Device" where
  "blank_device = \<lparr>d_file = empty_image, d_size = 40960, maxDirty = 268435456, d_dirty = 0, d_active = fmempty,
     onBackpressure = False, onDirty = False, onDirtyChange = False, dirtyThreshold = 0, dirtyNotified = False, onFlush = False,
     onDurableFlush = False, skipLocalFlush = False, localDirty = False, blockPool = [], d_hydrator = Some blank_lazy,
     d_closed = False, queuedFlush = False\<rparr>"

lemma blank_valid: "validateState blank_wire ''v'' sample_state = Inr ()"
  using blank_restores by (auto simp: RestoreState_def sample_state_def)

lemma blank_prepared: "PrepareLazyRestore blank_wire sample_get (\<lambda>_. sample_get) (Inr ()) sample_state = Inr (empty_image, blank_lazy)"
proof -
  have "s_Name sample_state = ''v''" "s_Size sample_state = 40960" by (simp_all add: sample_state_def)
  then show ?thesis
    by (simp add: PrepareLazyRestore_def blank_valid blank_plan createSparseImage_def blank_lazy_def lazy_sources_def)
qed

lemma sample_size: "s_Size sample_state = 40960"
  by (simp add: sample_state_def)

lemma blank_free: "restorePlan blank_wire sample_get sample_state = Inr refs \<Longrightarrow> second_preimage_free blank_wire (\<lambda>_. []) refs"
  by (simp add: blank_plan second_preimage_free_def)

lemma blank_inv: "lazy_inv blank_wire (\<lambda>_. []) blank_lazy"
  by (rule PrepareLazyRestore_inv(1) [OF blank_prepared _ blank_free]) (simp_all add: sample_size)

lemma blank_run_inv: "lazy_run_inv blank_wire (\<lambda>_. []) (empty_image, [], blank_device)"
proof -
  have "plan_blocks blank_wire (\<lambda>_. []) [] = Map.empty" by (auto simp: plan_blocks_def)
  then have "lazy_source blank_wire (\<lambda>_. []) blank_lazy = empty_image"
    by (simp add: lazy_source_def blank_lazy_def plan_image_def)
  then show ?thesis
    using blank_inv
    by (simp add: run_inv_def dev_wf_def tracks_def content_def balance_def active_bytes_def blank_device_def DefaultBlockSize_def fmempty.rep_eq)
      (simp add: blank_lazy_def)
qed

lemma blank_dev: "lazy_dev_wf blank_wire (\<lambda>_. []) blank_device" "lazy_tracks blank_wire (\<lambda>_. []) empty_image blank_device"
  using blank_run_inv by (simp_all add: run_inv_def)

lemma ideal_sound: "sound_io ideal_io" "sound_reads ideal_io"
  by (simp_all add: ideal_io_def sound_io_def sound_reads_def)

lemma device_size: "d_size blank_device = 40960"
  by (simp add: blank_device_def)



theorem WriteAt_writes_and_captures_witness:
  "case WriteAt (lazy_ops blank_wire ideal_io) ideal_io False [1, 2] 5 blank_device of (d', evs, out) \<Rightarrow>
     lazy_tracks blank_wire (\<lambda>_. []) empty_image d' \<and> (case out of Waiting \<Rightarrow> d' = blank_device
     | Return (n, err) \<Rightarrow> holds_data lazy_resident (lazy_source blank_wire (\<lambda>_. [])) 5 (take n [1, 2]) d' \<and> (err = None \<longrightarrow> n = 2))"
  using WriteAt_writes_and_captures [OF ideal_sound(2) blank_dev, of ideal_io False "[1, 2]" 5]
  by (auto split: prod.splits outcome.splits)

theorem Trim_zeroes_and_captures_witness:
  "case Trim (lazy_ops blank_wire ideal_io) ideal_io False 4095 2 blank_device of (d', evs, out) \<Rightarrow>
     lazy_dev_wf blank_wire (\<lambda>_. []) d' \<and> (out = Return None \<longrightarrow> lazy_tracks blank_wire (\<lambda>_. []) empty_image d')"
  using Trim_zeroes_and_captures [OF ideal_sound(2) blank_dev, of ideal_io False 4095 2]
  by (auto split: prod.splits outcome.splits)

theorem ReadAt_reads_content_witness:
  "case ReadAt (lazy_ops blank_wire ideal_io) ideal_io [0, 0, 0] 40958 blank_device of (d', buf, err) \<Rightarrow>
     err = None \<longrightarrow> buf = file_read (lazy_content blank_wire (\<lambda>_. []) blank_device) 40958 2"
  using ReadAt_reads_content [OF ideal_sound(2) blank_dev(1), of ideal_io "[0, 0, 0]" 40958]
  by (auto simp: device_size numeral_2_eq_2 split: prod.splits)

theorem Replay_restores_journal_witness:
  "\<exists>d' evs. Replay (lazy_ops blank_wire ideal_io) ideal_io sortedBlocks [sample_generation] blank_device = (d', evs, Inr ()) \<and>
    (\<forall>i. int i < 40960 \<longrightarrow> lazy_content blank_wire (\<lambda>_. []) d' i =
       apply_generations [sample_generation] (lazy_content blank_wire (\<lambda>_. []) blank_device) i)"
proof -
  have g: "wf_generation sample_generation" using sample_encodable by (simp add: encodable_generation_def)
  have b: "unat b < 10" if "b \<in> fset (fmdom (gen_Blocks sample_generation))" for b
    using that by (auto simp: sample_generation_def fmdom_lookup fmlookup_of_list split: if_splits)
  have "replayable sortedBlocks blank_device sample_generation"
    using g b by (auto simp: replayable_def set_sortedBlocks blank_device_def DefaultBlockSize_def sample_generation_def)
  from Replay_restores_journal [OF ideal_sound(1) _ _ blank_run_inv, of "[sample_generation]" sortedBlocks ideal_io] this
  show ?thesis by (auto simp: blank_device_def)
qed

theorem WriteAt_drained_proceeds_witness:
  "snd (snd (WriteAt (lazy_ops blank_wire ideal_io) ideal_io False [1, 2] 5 blank_device)) \<noteq> Waiting"
  by (rule WriteAt_drained_proceeds [OF blank_run_inv]) (simp add: blank_device_def)

theorem MarkAllocated_captures_image_witness:
  "\<exists>d'. MarkAllocated 40960 \<lparr>seek_data = (\<lambda>_. Inl (Errno 22)), seek_hole = (\<lambda>_. Inl (Errno 22))\<rparr> ideal_io
      (blank_device\<lparr>d_hydrator := None, d_file := (\<lambda>i. if i = 5000 then 1 else 0)\<rparr>) = Some (d', Inr ()) \<and>
    lazy_tracks blank_wire (\<lambda>_. []) empty_image d'"
  using MarkAllocated_captures_image [OF ideal_sound(2), of "\<lparr>seek_data = (\<lambda>_. Inl (Errno 22)), seek_hole = (\<lambda>_. Inl (Errno 22))\<rparr>"
      "blank_device\<lparr>d_hydrator := None, d_file := (\<lambda>i. if i = 5000 then 1 else 0)\<rparr>" 40960 blank_wire "\<lambda>_. []"]
  by (auto simp: seek_ok_def image_size_ok_def blank_device_def DefaultBlockSize_def)

end
