(* ===== verification/AppendHead.thy ===== *)
theory AppendHead
  imports Head
begin

text \<open>
  The head for stores without conditional writes (\<open>appendHead\<close> in \<open>internal/replica/head.go\<close>):
  every version of the head is an object of its own whose key sorts by epoch, owner and sequence
  number. A new holder claims an epoch, lets other claims settle, and then writes and confirms
  its first version.
\<close>

section \<open>Numbers in keys\<close>

text \<open>\<open>%0wd\<close> of a natural number and of an integer.\<close>

definition pad :: "nat \<Rightarrow> nat \<Rightarrow> string" where
  "pad w n = replicate (w - length (dec n)) (CHR ''0'') @ dec n"

definition pad_int :: "nat \<Rightarrow> int \<Rightarrow> string" where
  "pad_int w i = (if i < 0 then CHR ''-'' # pad (w - 1) (nat (- i)) else pad w (nat i))"

definition char_digit :: "char \<Rightarrow> nat option" where
  "char_digit ch = (let n = of_char ch in if 48 \<le> n \<and> n \<le> 57 then Some (n - 48) else None)"

fun parse_digits :: "nat \<Rightarrow> string \<Rightarrow> nat option" where
  "parse_digits acc [] = Some acc"
| "parse_digits acc (ch # cs) = (case char_digit ch of None \<Rightarrow> None | Some d \<Rightarrow> parse_digits (acc * 10 + d) cs)"

text \<open>\<open>strconv.ParseUint(s, 10, 64)\<close> and \<open>strconv.ParseInt(s, 10, 64)\<close>.\<close>

definition ParseUint :: "string \<Rightarrow> u64 option" where
  "ParseUint s =
     (if s = [] then None
      else case parse_digits 0 s of None \<Rightarrow> None | Some n \<Rightarrow> if n < 2 ^ 64 then Some (of_nat n) else None)"

definition ParseInt :: "string \<Rightarrow> int option" where
  "ParseInt s =
     (case s of
        [] \<Rightarrow> None
      | ch # cs \<Rightarrow>
          let neg = (ch = CHR ''-''); body = (if neg \<or> ch = CHR ''+'' then cs else s) in
          if body = [] then None
          else case parse_digits 0 body of
                 None \<Rightarrow> None
               | Some n \<Rightarrow>
                   if neg then (if n \<le> 2 ^ 63 then Some (- int n) else None)
                   else (if n < 2 ^ 63 then Some (int n) else None))"

text \<open>\<open>strings.Split\<close> at a one-character separator.\<close>

fun split_at :: "char \<Rightarrow> string \<Rightarrow> string list" where
  "split_at sep [] = [[]]"
| "split_at sep (ch # cs) =
     (if ch = sep then [] # split_at sep cs
      else (case split_at sep cs of [] \<Rightarrow> [[ch]] | p # ps \<Rightarrow> (ch # p) # ps))"

section \<open>Versions\<close>

record headVersion =
  hv_epoch :: u64
  hv_token :: string
  hv_seq :: u64
  hv_claim :: int

definition headVersion_key :: "headVersion \<Rightarrow> string \<Rightarrow> string" where
  "headVersion_key v name =
     HeadPrefix name @ pad 20 (unat (- 1 - hv_epoch v)) @ ''_'' @ hv_token v @ ''_'' @ pad 20 (unat (- 1 - hv_seq v)) @ ''_'' @
       pad_int 13 (hv_claim v) @ ''.json''"

definition sameOwner :: "headVersion \<Rightarrow> headVersion \<Rightarrow> bool" where
  "sameOwner v other \<longleftrightarrow> hv_epoch v = hv_epoch other \<and> hv_token v = hv_token other"

definition headTokenLength :: nat where
  "headTokenLength = 36"

definition parse_parts :: "string list \<Rightarrow> headVersion option" where
  "parse_parts parts =
     (case parts of
        [p0, p1, p2, p3] \<Rightarrow>
          if length p0 \<noteq> 20 \<or> length p1 \<noteq> headTokenLength \<or> length p2 \<noteq> 20 \<or> length p3 \<noteq> 13 then None
          else (case (ParseUint p0, ParseUint p2, ParseInt p3) of
                  (Some invEpoch, Some invSeq, Some claim) \<Rightarrow>
                    Some \<lparr>hv_epoch = - 1 - invEpoch, hv_token = p1, hv_seq = - 1 - invSeq, hv_claim = claim\<rparr>
                | _ \<Rightarrow> None)
      | _ \<Rightarrow> None)"

definition parseHeadKey :: "string \<Rightarrow> string \<Rightarrow> headVersion option" where
  "parseHeadKey name key =
     (case strings_CutPrefix key (HeadPrefix name) of
        None \<Rightarrow> None
      | Some rest \<Rightarrow>
          (case strings_CutSuffix rest ''.json'' of
             None \<Rightarrow> None
           | Some rest' \<Rightarrow> parse_parts (split_at (CHR ''_'') rest')))"

record headEntry =
  he_key :: string
  he_version :: headVersion

section \<open>Deciding on a listing\<close>

fun committedHead :: "headEntry list \<Rightarrow> headEntry option" where
  "committedHead [] = None"
| "committedHead (entry # entries) = (if hv_seq (he_version entry) > 0 then Some entry else committedHead entries)"

fun claimWins :: "headEntry list \<Rightarrow> headVersion \<Rightarrow> bool" where
  "claimWins [] claim = False"
| "claimWins (entry # entries) claim =
     (let v = he_version entry in
      if hv_epoch v > hv_epoch claim \<or> hv_epoch v = hv_epoch claim \<and> hv_seq v > 0 then False
      else if hv_epoch v = hv_epoch claim then hv_token v = hv_token claim
      else claimWins entries claim)"

fun base_found :: "headEntry list \<Rightarrow> headVersion \<Rightarrow> bool" where
  "base_found [] base = False"
| "base_found (entry # entries) base =
     (if sameOwner (he_version entry) base then hv_seq (he_version entry) = hv_seq base else base_found entries base)"

definition baseUnchanged :: "headEntry list \<Rightarrow> headVersion \<Rightarrow> bool" where
  "baseUnchanged entries base \<longleftrightarrow> hv_token base = [] \<or> base_found entries base"

definition ownerStillCurrent :: "headEntry list \<Rightarrow> headVersion \<Rightarrow> bool" where
  "ownerStillCurrent entries version =
     list_all (\<lambda>entry. let other = he_version entry in
       \<not> (hv_epoch other > hv_epoch version \<or> hv_epoch other = hv_epoch version \<and> hv_token other \<noteq> hv_token version \<and> hv_seq other > 0) \<and>
       \<not> (sameOwner other version \<and> hv_seq other > hv_seq version)) entries"

definition claimPresent :: "headEntry list \<Rightarrow> headVersion \<Rightarrow> bool" where
  "claimPresent entries owner = list_ex (\<lambda>entry. sameOwner (he_version entry) owner \<and> hv_seq (he_version entry) = 0) entries"

section \<open>Operations\<close>

text \<open>The configuration of the head, and what it gets from outside during one call: a fresh
  identifier, the clock when the claim starts, after it was written and when versions are listed,
  and the outcome of the wait.\<close>

record 's appendHead =
  ah_store :: "'s store_ops"
  ah_settle :: int
  ah_ttl :: int
  ah_uuid :: string
  ah_started :: int
  ah_claimed :: int
  ah_now :: int
  ah_sleep :: "unit result"

definition append_owns :: "string \<Rightarrow> string \<Rightarrow> bool" where
  "append_owns name key \<longleftrightarrow> strings_HasPrefix key (HeadPrefix name)"

definition append_verifyBackend :: "'s store_ops \<Rightarrow> string \<Rightarrow> 's \<Rightarrow> 's \<times> unit result" where
  "append_verifyBackend ops uuid s = VerifyListedWrites ops uuid s"

definition head_entries :: "string \<Rightarrow> string list \<Rightarrow> headEntry list" where
  "head_entries name keys =
     List.map_filter (\<lambda>key. map_option (\<lambda>v. \<lparr>he_key = key, he_version = v\<rparr>) (parseHeadKey name key)) (sort keys)"

definition append_list :: "'s appendHead \<Rightarrow> string \<Rightarrow> 's \<Rightarrow> 's \<times> headEntry list result" where
  "append_list h name s =
     (case st_List (ah_store h) (HeadPrefix name) s of
        (s', Inl e) \<Rightarrow> (s', Inl e)
      | (s', Inr keys) \<Rightarrow> (s', Inr (head_entries name keys)))"

fun read_attempts :: "nat \<Rightarrow> 's appendHead \<Rightarrow> string \<Rightarrow> 's \<Rightarrow> 's \<times> (bytes \<times> string) result" where
  "read_attempts 0 h name s = (s, Inl (Errorf ''head of volume kept changing while reading it''))"
| "read_attempts (Suc n) h name s =
     (case append_list h name s of
        (s1, Inl e) \<Rightarrow> (s1, Inl e)
      | (s1, Inr entries) \<Rightarrow>
          (case committedHead entries of
             None \<Rightarrow>
               (case st_Get (ah_store h) (StateKey name) s1 of
                  (s2, Inr _) \<Rightarrow> (s2, Inl (foreignHeadError name ConditionalHead))
                | (s2, Inl _) \<Rightarrow> (s2, Inl ErrNotFound))
           | Some head \<Rightarrow>
               (case st_Get (ah_store h) (he_key head) s1 of
                  (s2, Inl e) \<Rightarrow> if errors_Is e ErrNotFound then read_attempts n h name s2 else (s2, Inl e)
                | (s2, Inr obj) \<Rightarrow> (s2, Inr (obj_Data obj, he_key head)))))"

definition append_read :: "'s appendHead \<Rightarrow> string \<Rightarrow> 's \<Rightarrow> 's \<times> (bytes \<times> string) result" where
  "append_read h name s = read_attempts 4 h name s"

definition deadClaim :: "'s appendHead \<Rightarrow> headEntry list \<Rightarrow> headEntry \<Rightarrow> bool" where
  "deadClaim h entries entry \<longleftrightarrow> hv_seq (he_version entry) = 0 \<and>
     \<not> list_ex (\<lambda>other. sameOwner (he_version other) (he_version entry) \<and> hv_seq (he_version other) > 0) entries \<and>
     ah_now h - hv_claim (he_version entry) * 1000000 > max (ah_ttl h) (2 * ah_settle h)"

text \<open>\<open>live := entries[:0]\<close> reuses the array it is filtered from: \<open>arr\<close> is that array, \<open>i\<close> the
  position of the loop and \<open>k\<close> the length of \<open>live\<close>.\<close>

function live_loop :: "'s appendHead \<Rightarrow> headEntry list \<Rightarrow> nat \<Rightarrow> nat \<Rightarrow> 's \<Rightarrow> 's \<times> headEntry list result" where
  "live_loop h arr i k s =
     (if i < length arr then
        let entry = arr ! i in
        if \<not> deadClaim h arr entry then live_loop h (arr[k := entry]) (i + 1) (k + 1) s
        else
          (case st_Delete (ah_store h) (he_key entry) s of
             (s', Inl e) \<Rightarrow> (s', Inl (Wrap ''remove abandoned head claim'' e))
           | (s', Inr _) \<Rightarrow> live_loop h arr (i + 1) k s')
      else (s, Inr (take k arr)))"
  by pat_completeness auto
termination
  by (relation "measure (\<lambda>(h, arr, i, k, s). length arr - i)") auto

declare live_loop.simps [simp del]

definition liveEntries :: "'s appendHead \<Rightarrow> string \<Rightarrow> 's \<Rightarrow> 's \<times> headEntry list result" where
  "liveEntries h name s =
     (case append_list h name s of
        (s1, Inl e) \<Rightarrow> (s1, Inl e)
      | (s1, Inr entries) \<Rightarrow> live_loop h entries 0 0 s1)"

definition retainedHeadVersions :: u64 where
  "retainedHeadVersions = 2"

definition superseded :: "headVersion \<Rightarrow> headVersion \<Rightarrow> bool" where
  "superseded version current \<longleftrightarrow>
     hv_epoch version < hv_epoch current \<or>
     hv_epoch version = hv_epoch current \<and> hv_token version \<noteq> hv_token current \<or>
     sameOwner version current \<and> hv_seq version > 0 \<and> hv_seq version + retainedHeadVersions \<le> hv_seq current"

text \<open>The pruning goroutine; it is run to its end here, and its errors are ignored.\<close>

definition pruneBehind :: "'s appendHead \<Rightarrow> headEntry list \<Rightarrow> headVersion \<Rightarrow> 's \<Rightarrow> 's" where
  "pruneBehind h entries current s =
     fold (\<lambda>entry s. fst (st_Delete (ah_store h) (he_key entry) s)) (filter (\<lambda>entry. superseded (he_version entry) current) entries) s"

definition append_confirm :: "'s appendHead \<Rightarrow> string \<Rightarrow> string \<Rightarrow> headVersion \<Rightarrow> 's \<Rightarrow> 's \<times> string result" where
  "append_confirm h name key version s =
     (case liveEntries h name s of
        (s1, Inl e) \<Rightarrow> (s1, Inl e)
      | (s1, Inr entries) \<Rightarrow>
          if \<not> ownerStillCurrent entries version \<or> \<not> claimPresent entries version then (s1, Inl ErrPreconditionFailed)
          else (pruneBehind h entries version s1, Inr key))"

definition append_advance :: "'s appendHead \<Rightarrow> string \<Rightarrow> bytes \<Rightarrow> headVersion \<Rightarrow> 's \<Rightarrow> 's \<times> string result" where
  "append_advance h name body base s =
     (let version = base\<lparr>hv_seq := hv_seq base + 1\<rparr>; key = headVersion_key version name in
      case st_Put (ah_store h) key body s of
        (s1, Inl e) \<Rightarrow> (s1, Inl e)
      | (s1, Inr _) \<Rightarrow> append_confirm h name key version s1)"

definition append_claim :: "'s appendHead \<Rightarrow> string \<Rightarrow> bytes \<Rightarrow> headVersion \<Rightarrow> State \<Rightarrow> 's \<Rightarrow> 's \<times> string result" where
  "append_claim h name body base nxt s =
     (let token = (case s_Lease nxt of None \<Rightarrow> ah_uuid h | Some rec \<Rightarrow> Token rec) in
      if length token \<noteq> headTokenLength then (s, invalid ''lease token has the wrong length for a head key'')
      else
        let claim = \<lparr>hv_epoch = s_Epoch nxt, hv_token = token, hv_seq = 0, hv_claim = ah_started h div 1000000\<rparr>;
            claimKey = headVersion_key claim name;
            abort = (\<lambda>s e. (fst (st_Delete (ah_store h) claimKey s), Inl e))
        in case st_Put (ah_store h) claimKey body s of
             (s1, Inl e) \<Rightarrow> (s1, Inl e)
           | (s1, Inr _) \<Rightarrow>
               if ah_claimed h - ah_started h > ah_settle h div 2 then abort s1 (Wrap ''claim'' ErrClaimTooSlow)
               else
                 (case ah_sleep h of
                    Inl e \<Rightarrow> abort s1 e
                  | Inr _ \<Rightarrow>
                      (case liveEntries h name s1 of
                         (s2, Inl e) \<Rightarrow> abort s2 e
                       | (s2, Inr entries) \<Rightarrow>
                           if \<not> claimWins entries claim \<or> \<not> baseUnchanged entries base then abort s2 ErrPreconditionFailed
                           else
                             let first = claim\<lparr>hv_seq := 1\<rparr>; firstKey = headVersion_key first name in
                             (case st_Put (ah_store h) firstKey body s2 of
                                (s3, Inl e) \<Rightarrow> abort s3 e
                              | (s3, Inr _) \<Rightarrow>
                                  (case append_confirm h name firstKey first s3 of
                                     (s4, Inl e) \<Rightarrow> abort (fst (st_Delete (ah_store h) firstKey s4)) e
                                   | (s4, Inr cursor) \<Rightarrow> (s4, Inr cursor))))))"

definition append_commit :: "'s appendHead \<Rightarrow> string \<Rightarrow> bytes \<Rightarrow> string \<Rightarrow> State \<Rightarrow> 's \<Rightarrow> 's \<times> string result" where
  "append_commit h name body prev nxt s =
     (case (if prev = [] then Some \<lparr>hv_epoch = 0, hv_token = [], hv_seq = 0, hv_claim = 0\<rparr> else parseHeadKey name prev) of
        None \<Rightarrow> (s, invalid ''invalid head cursor'')
      | Some base \<Rightarrow>
          if s_Epoch nxt > hv_epoch base then append_claim h name body base nxt s
          else if s_Epoch nxt = hv_epoch base \<and> prev \<noteq> [] then append_advance h name body base s
          else (s, invalid ''head epoch cannot move''))"

definition append_remove :: "'s appendHead \<Rightarrow> string \<Rightarrow> 's \<Rightarrow> 's \<times> unit result" where
  "append_remove h name s = st_DeletePrefix (ah_store h) (HeadPrefix name) s"

definition appendHead_volume :: "'s appendHead \<Rightarrow> 's volumeHead" where
  "appendHead_volume h =
     \<lparr>hd_read = append_read h, hd_commit = append_commit h, hd_owns = append_owns, hd_remove = append_remove h,
      hd_verifyBackend = append_verifyBackend (ah_store h)\<rparr>"

section \<open>Padded numbers\<close>

fun digits :: "nat \<Rightarrow> nat \<Rightarrow> string" where
  "digits 0 n = []"
| "digits (Suc w) n = digits w (n div 10) @ [dec_digit (n mod 10)]"

lemma length_digits [simp]: "length (digits w n) = w"
  by (induction w arbitrary: n) auto

lemma digits_0: "digits w 0 = replicate w (CHR ''0'')"
  by (induction w) (simp_all add: dec_digit_def replicate_append_same)

lemma pad_Suc: "n < 10 ^ Suc w \<Longrightarrow> pad (Suc w) n = digits (Suc w) n"
proof (induction w arbitrary: n)
  case 0
  then show ?case by (simp add: pad_def dec.simps [of n])
next
  case (Suc w)
  show ?case
  proof (cases "n < 10")
    case True
    then show ?thesis by (simp add: pad_def dec.simps [of n] digits_0 replicate_append_same flip: replicate_Suc)
  next
    case False
    have "n div 10 < 10 ^ Suc w" using Suc.prems by auto
    moreover have "pad (Suc (Suc w)) n = pad (Suc w) (n div 10) @ [dec_digit (n mod 10)]"
      using False by (simp add: pad_def dec.simps [of n])
    ultimately show ?thesis using Suc.IH [of "n div 10"] by simp
  qed
qed

lemma pad_digits: "0 < w \<Longrightarrow> n < 10 ^ w \<Longrightarrow> pad w n = digits w n"
  using pad_Suc by (cases w) auto

lemma less_10: "(n :: nat) < 10 \<longleftrightarrow> n \<in> {0, 1, 2, 3, 4, 5, 6, 7, 8, 9}"
  by auto

lemma char_digit_dec: "d < 10 \<Longrightarrow> char_digit (dec_digit d) = Some d"
  unfolding less_10 by (auto simp: char_digit_def dec_digit_def)

lemma dec_digit_of: "n < 10 \<Longrightarrow> (of_char (dec_digit n) :: nat) = 48 + n"
  unfolding less_10 by (auto simp: dec_digit_def)

lemma char_digit_Some: "char_digit ch = Some d \<Longrightarrow> d < 10 \<and> ch = dec_digit d"
proof -
  assume "char_digit ch = Some d"
  then have d: "of_char ch = 48 + d" "d < 10" by (auto simp: char_digit_def Let_def split: if_splits)
  then have "(of_char ch :: nat) = of_char (dec_digit d)" using dec_digit_of by simp
  then show ?thesis using d(2) by simp
qed

lemma parse_digits_append: "parse_digits acc (xs @ ys) = (case parse_digits acc xs of None \<Rightarrow> None | Some a \<Rightarrow> parse_digits a ys)"
  by (induction xs arbitrary: acc) (auto split: option.splits)

lemma parse_digits_digits: "n < 10 ^ w \<Longrightarrow> parse_digits acc (digits w n) = Some (acc * 10 ^ w + n)"
proof (induction w arbitrary: n)
  case (Suc w)
  have "n div 10 < 10 ^ w" using Suc.prems by auto
  then show ?case using Suc.IH [of "n div 10"] by (simp add: parse_digits_append char_digit_dec)
qed simp

lemma parse_digits_Some:
  assumes "parse_digits acc s = Some n"
  shows "\<exists>m. n = acc * 10 ^ length s + m \<and> m < 10 ^ length s \<and> s = digits (length s) m"
  using assms
proof (induction s arbitrary: n rule: rev_induct)
  case (snoc ch s)
  obtain a d where a: "parse_digits acc s = Some a" and d: "char_digit ch = Some d" "n = a * 10 + d"
    using snoc.prems by (auto simp: parse_digits_append split: option.splits)
  obtain m where m: "a = acc * 10 ^ length s + m" "m < 10 ^ length s" "s = digits (length s) m" using snoc.IH [OF a] by blast
  have d': "d < 10" "ch = dec_digit d" using char_digit_Some [OF d(1)] by auto
  have "s @ [ch] = digits (length (s @ [ch])) (m * 10 + d)" using m(3) d' by simp
  moreover have "n = acc * 10 ^ length (s @ [ch]) + (m * 10 + d)" "m * 10 + d < 10 ^ length (s @ [ch])"
    using d(2) m(1,2) d'(1) by (auto simp: algebra_simps)
  ultimately show ?case by blast
qed simp

lemma append_less_iff:
  "length xs = length ys \<Longrightarrow> xs @ us < ys @ vs \<longleftrightarrow> xs < ys \<or> xs = ys \<and> us < (vs :: 'a :: linorder list)"
  by (induction xs ys rule: list_induct2) auto

lemma dec_digit_less: "a < 10 \<Longrightarrow> b < 10 \<Longrightarrow> dec_digit a < dec_digit b \<longleftrightarrow> a < b"
  by (simp add: less_char_def dec_digit_of)

lemma digit_pair_less: "r1 < 10 \<Longrightarrow> r2 < 10 \<Longrightarrow> 10 * q1 + r1 < 10 * q2 + (r2 :: nat) \<longleftrightarrow> q1 < q2 \<or> q1 = q2 \<and> r1 < r2"
  by linarith

lemma digits_inj: "a < 10 ^ w \<Longrightarrow> b < 10 ^ w \<Longrightarrow> digits w a = digits w b \<longleftrightarrow> a = b"
  by (metis option.inject parse_digits_digits add_left_cancel)

lemma digits_less: "a < 10 ^ w \<Longrightarrow> b < 10 ^ w \<Longrightarrow> digits w a < digits w b \<longleftrightarrow> a < b"
proof (induction w arbitrary: a b)
  case (Suc w)
  have ab: "a div 10 < 10 ^ w" "b div 10 < 10 ^ w" using Suc.prems by auto
  have "digits (Suc w) a < digits (Suc w) b \<longleftrightarrow> a div 10 < b div 10 \<or> a div 10 = b div 10 \<and> a mod 10 < b mod 10"
    using Suc.IH [OF ab] digits_inj [OF ab] by (simp add: append_less_iff dec_digit_less)
  also have "\<dots> \<longleftrightarrow> a < b" using digit_pair_less [of "a mod 10" "b mod 10" "a div 10" "b div 10"] by simp
  finally show ?case .
qed simp

section \<open>Keys\<close>

lemma split_at_plain: "sep \<notin> set a \<Longrightarrow> split_at sep a = [a]"
  by (induction a) auto

lemma split_at_sep: "sep \<notin> set a \<Longrightarrow> split_at sep (a @ sep # b) = a # split_at sep b"
  by (induction a) auto

fun joined :: "char \<Rightarrow> string list \<Rightarrow> string" where
  "joined sep [] = []"
| "joined sep [p] = p"
| "joined sep (p # ps) = p @ sep # joined sep ps"

lemma split_at_joined: "split_at sep s = ps \<Longrightarrow> ps \<noteq> [] \<and> joined sep ps = s \<and> (\<forall>p\<in>set ps. sep \<notin> set p)"
proof (induction s arbitrary: ps)
  case (Cons ch s)
  obtain q qs where q: "split_at sep s = q # qs" using Cons.IH [OF refl] by (cases "split_at sep s") auto
  have ih: "joined sep (q # qs) = s" "sep \<notin> set q" "\<forall>p\<in>set qs. sep \<notin> set p" using Cons.IH [OF q] by auto
  show ?case
  proof (cases "ch = sep")
    case True
    then show ?thesis using Cons.prems q ih by auto
  next
    case False
    then have "ps = (ch # q) # qs" using Cons.prems q by simp
    then show ?thesis using ih False by (cases qs) auto
  qed
qed auto

lemma u64_digits: "pad 20 (unat (u :: u64)) = digits 20 (unat u)" "unat (u :: u64) < 10 ^ 20"
proof -
  show lt: "unat (u :: u64) < 10 ^ 20" using unat_u64 [of u] by simp
  then show "pad 20 (unat u) = digits 20 (unat u)" by (rule pad_digits [rotated]) simp
qed

lemma ParseUint_digits: "ParseUint (digits 20 (unat u)) = Some u"
proof -
  have "digits 20 (unat u) \<noteq> []" by (metis length_digits list.size(3) zero_neq_numeral)
  then show ?thesis using unat_u64 [of u] parse_digits_digits [OF u64_digits(2), of 0 u] by (simp add: ParseUint_def)
qed

lemma ParseUint_Some: "ParseUint s = Some u \<Longrightarrow> length s = 20 \<Longrightarrow> s = digits 20 (unat u)"
proof -
  assume u: "ParseUint s = Some u" "length s = 20"
  then obtain n where n: "parse_digits 0 s = Some n" "n < 2 ^ 64" "u = of_nat n"
    by (auto simp: ParseUint_def split: if_splits option.splits)
  then have "unat u = n" by (simp add: unsigned_of_nat take_bit_nat_eq_self)
  then show ?thesis using parse_digits_Some [OF n(1)] u(2) by auto
qed

lemma CutPrefix_Some: "strings_CutPrefix s p = Some r \<longleftrightarrow> s = p @ r"
proof -
  have "take (length p) s = p \<longleftrightarrow> s = p @ drop (length p) s" by (metis append_eq_conv_conj append_take_drop_id)
  then show ?thesis by (auto simp: strings_CutPrefix_def strings_HasPrefix_def)
qed

lemma CutSuffix_Some: "strings_CutSuffix s p = Some r \<longleftrightarrow> s = r @ p"
proof -
  have "drop (length s - length p) s = p \<and> length p \<le> length s \<longleftrightarrow> s = take (length s - length p) s @ p"
    by (metis append_take_drop_id le_add2 length_append same_append_eq)
  then show ?thesis by (auto simp: strings_CutSuffix_def strings_HasSuffix_def)
qed

lemma parseHeadKey_Some:
  assumes "parseHeadKey name key = Some v"
  obtains p3 where "key = HeadPrefix name @ digits 20 (unat (- 1 - hv_epoch v)) @ ''_'' @ hv_token v @ ''_'' @
      digits 20 (unat (- 1 - hv_seq v)) @ ''_'' @ p3 @ ''.json''"
    "length (hv_token v) = headTokenLength" "CHR ''_'' \<notin> set (hv_token v)" "length p3 = 13"
proof -
  obtain rest rest' where r: "strings_CutPrefix key (HeadPrefix name) = Some rest" "strings_CutSuffix rest ''.json'' = Some rest'"
      "parse_parts (split_at (CHR ''_'') rest') = Some v"
    using assms by (auto simp: parseHeadKey_def split: option.splits)
  have key: "key = HeadPrefix name @ rest' @ ''.json''"
    using r(1,2) by (simp add: CutPrefix_Some CutSuffix_Some)
  obtain p0 p1 p2 p3 ie iq c where p: "split_at (CHR ''_'') rest' = [p0, p1, p2, p3]" "length p0 = 20" "length p1 = headTokenLength"
      "length p2 = 20" "length p3 = 13" "ParseUint p0 = Some ie" "ParseUint p2 = Some iq"
      "v = \<lparr>hv_epoch = - 1 - ie, hv_token = p1, hv_seq = - 1 - iq, hv_claim = c\<rparr>"
    using r(3) by (auto simp: parse_parts_def split: list.splits option.splits if_splits)
  have "rest' = p0 @ ''_'' @ p1 @ ''_'' @ p2 @ ''_'' @ p3" "CHR ''_'' \<notin> set p1"
    using split_at_joined [OF p(1)] by auto
  moreover have "p0 = digits 20 (unat (- 1 - hv_epoch v))" "p2 = digits 20 (unat (- 1 - hv_seq v))"
    using ParseUint_Some [OF p(6,2)] ParseUint_Some [OF p(7,4)] p(8) by simp_all
  ultimately show ?thesis using that [of p3] key p(3,5,8) by simp
qed

text \<open>Keys sort by descending epoch, then by owner, then by descending sequence number.\<close>

definition head_before :: "headVersion \<Rightarrow> headVersion \<Rightarrow> bool" where
  "head_before a b \<longleftrightarrow> hv_epoch a > hv_epoch b \<or> hv_epoch a = hv_epoch b \<and> (hv_token a < hv_token b \<or> hv_token a = hv_token b \<and> hv_seq a \<ge> hv_seq b)"

lemma word_inv_less: "unat (- 1 - a :: u64) < unat (- 1 - b) \<longleftrightarrow> b < a"
proof -
  have inv: "unat (- 1 - c :: u64) = 2 ^ 64 - 1 - unat c" for c :: u64
    by (simp add: unat_sub unsigned_minus_1_eq_mask mask_eq_exp_minus_1)
  show ?thesis using unat_u64 [of a] unat_u64 [of b] unfolding inv word_less_nat_alt by linarith
qed

lemma key_order:
  assumes a: "parseHeadKey name ka = Some a" and b: "parseHeadKey name kb = Some b" and le: "ka \<le> kb"
  shows "head_before a b"
proof -
  obtain pa where ka: "ka = HeadPrefix name @ digits 20 (unat (- 1 - hv_epoch a)) @ ''_'' @ hv_token a @ ''_'' @
      digits 20 (unat (- 1 - hv_seq a)) @ ''_'' @ pa @ ''.json''" "length (hv_token a) = headTokenLength"
    using parseHeadKey_Some [OF a] by blast
  obtain pb where kb: "kb = HeadPrefix name @ digits 20 (unat (- 1 - hv_epoch b)) @ ''_'' @ hv_token b @ ''_'' @
      digits 20 (unat (- 1 - hv_seq b)) @ ''_'' @ pb @ ''.json''" "length (hv_token b) = headTokenLength"
    using parseHeadKey_Some [OF b] by blast
  have less: "digits 20 (unat (- 1 - x :: u64)) < digits 20 (unat (- 1 - y)) \<longleftrightarrow> y < x" for x y
    using digits_less [OF u64_digits(2) u64_digits(2)] word_inv_less by blast
  have inj: "digits 20 (unat (- 1 - x :: u64)) = digits 20 (unat (- 1 - y)) \<longleftrightarrow> x = y" for x y
    using digits_inj [OF u64_digits(2) u64_digits(2)] by (metis add_diff_cancel_right' diff_add_cancel word_inv_less less_irrefl linorder_neqE)
  show ?thesis
    using le unfolding ka(1) kb(1) head_before_def
    by (auto simp: append_less_iff less inj ka(2) kb(2) order_le_less simp del: append_assoc)
qed

lemma dec_digit_plain: "d < 10 \<Longrightarrow> dec_digit d \<notin> set ''_+-''"
  unfolding less_10 by (auto simp: dec_digit_def)

lemma digits_plain: "set (digits w n) \<inter> set ''_+-'' = {}"
  by (induction w arbitrary: n) (use dec_digit_plain in auto)

lemma parse_parts_key:
  assumes "length token = headTokenLength" "0 \<le> claim" "claim < 10 ^ 13"
  shows "parse_parts [digits 20 (unat (- 1 - epoch)), token, digits 20 (unat (- 1 - seq)), pad_int 13 claim] =
    Some \<lparr>hv_epoch = epoch, hv_token = token, hv_seq = seq, hv_claim = claim\<rparr>"
proof -
  define n where "n = nat claim"
  have n: "claim = int n" "n < 10 ^ 13" using assms(2,3) by (simp_all add: n_def)
  have p: "pad_int 13 claim = digits 13 n" using n by (simp add: pad_int_def pad_digits)
  obtain ch cs where d: "digits 13 n = ch # cs" by (metis length_digits list.exhaust list.size(3) zero_neq_numeral)
  have "ch \<noteq> CHR ''-''" "ch \<noteq> CHR ''+''" using digits_plain [of 13 n] d by auto
  moreover have "parse_digits 0 (ch # cs) = Some n" using parse_digits_digits [OF n(2), of 0] d by simp
  moreover have "(10 :: nat) ^ 13 < 2 ^ 63" by simp
  ultimately have "ParseInt (ch # cs) = Some claim" using n by (simp add: ParseInt_def Let_def)
  then have "ParseInt (pad_int 13 claim) = Some claim" using p d by simp
  moreover have "length (pad_int 13 claim) = 13" using p by simp
  ultimately show ?thesis using assms(1) by (simp add: parse_parts_def ParseUint_digits)
qed

lemma parse_key:
  assumes "length (hv_token v) = headTokenLength" "CHR ''_'' \<notin> set (hv_token v)" "0 \<le> hv_claim v" "hv_claim v < 10 ^ 13"
  shows "parseHeadKey name (headVersion_key v name) = Some v"
proof -
  let ?d = "\<lambda>u :: u64. digits 20 (unat (- 1 - u))"
  let ?body = "?d (hv_epoch v) @ CHR ''_'' # hv_token v @ CHR ''_'' # ?d (hv_seq v) @ CHR ''_'' # pad_int 13 (hv_claim v)"
  have claim: "CHR ''_'' \<notin> set (pad_int 13 (hv_claim v))"
    using assms(3,4) digits_plain [of 13 "nat (hv_claim v)"] by (auto simp: pad_int_def pad_digits)
  have plain: "CHR ''_'' \<notin> set (digits 20 n)" for n using digits_plain [of 20 n] by auto
  have "headVersion_key v name = HeadPrefix name @ ?body @ ''.json''" by (simp add: headVersion_key_def u64_digits)
  then have "strings_CutPrefix (headVersion_key v name) (HeadPrefix name) = Some (?body @ ''.json'')"
    "strings_CutSuffix (?body @ ''.json'') ''.json'' = Some ?body"
    by (simp_all only: CutPrefix_Some CutSuffix_Some)
  then have "parseHeadKey name (headVersion_key v name) = parse_parts (split_at (CHR ''_'') ?body)" by (simp add: parseHeadKey_def)
  also have "split_at (CHR ''_'') ?body = [?d (hv_epoch v), hv_token v, ?d (hv_seq v), pad_int 13 (hv_claim v)]"
    using plain assms(2) claim by (simp add: split_at_sep split_at_plain)
  also have "parse_parts \<dots> = Some v" using parse_parts_key [OF assms(1,3,4)] by simp
  finally show ?thesis .
qed

section \<open>Listings\<close>

lemma set_head_entries: "set (head_entries name keys) = {e. he_key e \<in> set keys \<and> parseHeadKey name (he_key e) = Some (he_version e)}"
  by (auto simp: head_entries_def List.map_filter_def image_iff)
    (metis headEntry.surjective old.unit.exhaust option.sel option.simps(3) option.map(2) mem_Collect_eq)+

lemma head_entries_sorted: "sorted_wrt (\<lambda>a b. head_before (he_version a) (he_version b)) (head_entries name keys)"
proof -
  have "sorted_wrt (\<lambda>a b. head_before (he_version a) (he_version b))
      (List.map_filter (\<lambda>key. map_option (\<lambda>v. \<lparr>he_key = key, he_version = v\<rparr>) (parseHeadKey name key)) ks)" if "sorted ks" for ks
    using that
  proof (induction ks)
    case (Cons k ks)
    have "head_before a b" if "parseHeadKey name k = Some a" "k' \<in> set ks" "parseHeadKey name k' = Some b" for a b k'
      using key_order [OF that(1,3)] Cons.prems that(2) by auto
    then show ?case using Cons by (auto simp: List.map_filter_def split: option.splits)
  qed (simp add: List.map_filter_def)
  then show ?thesis by (simp add: head_entries_def)
qed

lemma committedHead_first:
  assumes "sorted_wrt (\<lambda>a b. head_before (he_version a) (he_version b)) entries"
  shows "case committedHead entries of
      None \<Rightarrow> \<forall>e\<in>set entries. hv_seq (he_version e) = 0
    | Some e \<Rightarrow> e \<in> set entries \<and> hv_seq (he_version e) > 0 \<and>
        (\<forall>e'\<in>set entries. hv_seq (he_version e') > 0 \<longrightarrow> e' = e \<or> head_before (he_version e) (he_version e'))"
  using assms by (induction entries) (auto split: option.splits simp: word_gt_0)

text \<open>Filtering in place is filtering: the array keeps every entry that \<open>deadClaim\<close> looks at.\<close>

lemma deadClaim_committed:
  assumes "\<And>e. hv_seq (he_version e) > 0 \<Longrightarrow> e \<in> set xs \<longleftrightarrow> e \<in> set ys"
  shows "deadClaim h xs entry = deadClaim h ys entry"
  using assms by (auto simp: deadClaim_def list_ex_iff)

definition filtered :: "'s appendHead \<Rightarrow> headEntry list \<Rightarrow> headEntry list \<Rightarrow> nat \<Rightarrow> nat \<Rightarrow> bool" where
  "filtered h entries arr i k \<longleftrightarrow> k \<le> i \<and> i \<le> length entries \<and> length arr = length entries \<and> set arr \<subseteq> set entries \<and>
     take k arr = filter (\<lambda>e. \<not> deadClaim h entries e) (take i entries) \<and> drop i arr = drop i entries"

lemma filtered_dead: "filtered h entries arr i k \<Longrightarrow> deadClaim h arr entry = deadClaim h entries entry"
proof (rule deadClaim_committed)
  fix e :: headEntry assume f: "filtered h entries arr i k" and seq: "hv_seq (he_version e) > 0"
  have live: "\<not> deadClaim h entries e" using seq by (auto simp: deadClaim_def)
  show "e \<in> set arr \<longleftrightarrow> e \<in> set entries"
  proof
    assume "e \<in> set entries"
    then have "e \<in> set (take i entries) \<or> e \<in> set (drop i entries)" by (metis Un_iff append_take_drop_id set_append)
    then have "e \<in> set (take k arr) \<or> e \<in> set (drop i arr)" using f live by (auto simp: filtered_def)
    then show "e \<in> set arr" by (auto dest: in_set_takeD in_set_dropD)
  qed (use f in \<open>auto simp: filtered_def\<close>)
qed

lemma filtered_step:
  assumes "filtered h entries arr i k" "i < length arr"
  shows "arr ! i = entries ! i"
    "\<not> deadClaim h entries (arr ! i) \<Longrightarrow> filtered h entries (arr[k := arr ! i]) (i + 1) (k + 1)"
    "deadClaim h entries (arr ! i) \<Longrightarrow> filtered h entries arr (i + 1) k"
proof -
  have len: "i < length entries" "k < length arr" "k \<le> i" using assms by (auto simp: filtered_def)
  show eq: "arr ! i = entries ! i"
    using assms len by (metis Cons_nth_drop_Suc filtered_def list.inject)
  have rest: "drop (i + 1) arr = drop (i + 1) entries" using assms(1) by (metis add.commute drop_drop filtered_def)
  have take: "take (i + 1) entries = take i entries @ [arr ! i]" using len eq by (simp add: take_Suc_conv_app_nth)
  show "filtered h entries (arr[k := arr ! i]) (i + 1) (k + 1)" if "\<not> deadClaim h entries (arr ! i)"
  proof -
    have "take (k + 1) (arr[k := arr ! i]) = take k arr @ [arr ! i]" using len by (simp add: take_Suc_conv_app_nth)
    moreover have "drop (i + 1) (arr[k := arr ! i]) = drop (i + 1) arr" using len by simp
    moreover have "set (arr[k := arr ! i]) \<subseteq> set entries"
      using assms len eq set_update_subset_insert [of arr k "arr ! i"] by (auto simp: filtered_def)
    ultimately show ?thesis using assms(1) len that rest take by (simp add: filtered_def)
  qed
  show "filtered h entries arr (i + 1) k" if "deadClaim h entries (arr ! i)"
    using assms(1) len that rest take by (simp add: filtered_def)
qed

lemma live_loop_filter:
  assumes "filtered h entries arr i k" "live_loop h arr i k s = (s', Inr live)"
  shows "live = filter (\<lambda>e. \<not> deadClaim h entries e) entries"
  using assms
proof (induction h arr i k s rule: live_loop.induct)
  case (1 h arr i k s)
  show ?case
  proof (cases "i < length arr")
    case False
    then show ?thesis using 1(3,4) by (simp add: live_loop.simps [of h arr] filtered_def)
  next
    case True
    note step = filtered_step [OF 1(3) True] and dead = filtered_dead [OF 1(3)]
    show ?thesis
    proof (cases "deadClaim h arr (arr ! i)")
      case False
      then show ?thesis using 1(1) [OF True refl False] 1(4) True step(2) dead by (simp add: live_loop.simps [of h arr])
    next
      case d: True
      obtain s1 u where "st_Delete (ah_store h) (he_key (arr ! i)) s = (s1, Inr u)" "live_loop h arr (i + 1) k s1 = (s', Inr live)"
        using 1(4) True d by (auto simp: live_loop.simps [of h arr] split: prod.splits sum.splits)
      then show ?thesis using 1(2) [OF True refl] True d step(3) dead by simp
    qed
  qed
qed

lemma liveEntries_filter:
  assumes "liveEntries h name s = (s', Inr live)"
  obtains s1 entries where "append_list h name s = (s1, Inr entries)" "live = filter (\<lambda>e. \<not> deadClaim h entries e) entries"
proof -
  obtain s1 entries where l: "append_list h name s = (s1, Inr entries)" "live_loop h entries 0 0 s1 = (s', Inr live)"
    using assms by (auto simp: liveEntries_def split: prod.splits sum.splits)
  have "filtered h entries entries 0 0" by (simp add: filtered_def)
  from live_loop_filter [OF this l(2)] show ?thesis using that l(1) by blast
qed

end
