(* ===== verification/HeadRace.thy ===== *)
theory HeadRace
  imports AppendHead Publishing
begin

text \<open>
  Claimants of the append-only head racing each other, one volume at a time. Every store call is
  a step of its own; a claimant decides on a listing with the functions of \<open>AppendHead\<close>. The race
  tracks the versions present, those written and not yet confirmed, the last sequence number each
  owner confirmed, the deletions pruning has scheduled, and the owners that gave up. Abandoned
  claims may disappear at any time, and any number of claimants may stop for good.
\<close>

type_synonym owner = "u64 \<times> string"

definition owner_of :: "headVersion \<Rightarrow> owner" where
  "owner_of v = (hv_epoch v, hv_token v)"

record race =
  rc_present :: "headVersion set"
  rc_writing :: "headVersion set"
  rc_confirmed :: "owner \<rightharpoonup> u64"
  rc_prunes :: "headVersion set"
  rc_dead :: "owner set"

definition race_start :: race where
  "race_start = \<lparr>rc_present = {}, rc_writing = {}, rc_confirmed = Map.empty, rc_prunes = {}, rc_dead = {}\<rparr>"

text \<open>A listing without some of the abandoned claims: \<open>liveEntries\<close>.\<close>

definition listing :: "race \<Rightarrow> headEntry list \<Rightarrow> bool" where
  "listing c entries \<longleftrightarrow> he_version ` set entries \<subseteq> rc_present c \<and> {v \<in> rc_present c. hv_seq v > 0} \<subseteq> he_version ` set entries"

definition idle_owner :: "race \<Rightarrow> owner \<Rightarrow> bool" where
  "idle_owner c ow \<longleftrightarrow> ow \<notin> rc_dead c \<and> (\<forall>v \<in> rc_writing c. owner_of v \<noteq> ow)"

text \<open>Sequence numbers stay below \<open>2 ^ 63\<close>: one commit per nanosecond for 292 years.\<close>

inductive race_step :: "race \<Rightarrow> race \<Rightarrow> bool" where
  race_claim: "hv_seq v = 0 \<Longrightarrow> race_step c (c\<lparr>rc_present := insert v (rc_present c)\<rparr>)"
| race_first: "hv_seq v = 1 \<Longrightarrow> rc_confirmed c (owner_of v) = None \<Longrightarrow> idle_owner c (owner_of v) \<Longrightarrow>
    race_step c (c\<lparr>rc_present := insert v (rc_present c), rc_writing := insert v (rc_writing c)\<rparr>)"
| race_advance: "rc_confirmed c (owner_of v) = Some n \<Longrightarrow> hv_seq v = n + 1 \<Longrightarrow> n < 2 ^ 63 \<Longrightarrow> idle_owner c (owner_of v) \<Longrightarrow>
    race_step c (c\<lparr>rc_present := insert v (rc_present c), rc_writing := insert v (rc_writing c)\<rparr>)"
| race_confirm: "v \<in> rc_writing c \<Longrightarrow> listing c entries \<Longrightarrow> ownerStillCurrent entries v \<Longrightarrow> claimPresent entries v \<Longrightarrow>
    race_step c (c\<lparr>rc_writing := rc_writing c - {v}, rc_confirmed := (rc_confirmed c)(owner_of v \<mapsto> hv_seq v),
      rc_prunes := rc_prunes c \<union> {u \<in> he_version ` set entries. superseded u v}\<rparr>)"
| race_lost: "v \<in> rc_writing c \<Longrightarrow>
    race_step c (c\<lparr>rc_writing := rc_writing c - {v}, rc_dead := insert (owner_of v) (rc_dead c)\<rparr>)"
| race_give_up: "idle_owner c ow \<Longrightarrow> race_step c (c\<lparr>rc_dead := insert ow (rc_dead c)\<rparr>)"
| race_abort: "rc_confirmed c (owner_of v) = None \<Longrightarrow> owner_of v \<in> rc_dead c \<Longrightarrow> race_step c (c\<lparr>rc_present := rc_present c - {v}\<rparr>)"
| race_reap: "hv_seq v = 0 \<Longrightarrow> race_step c (c\<lparr>rc_present := rc_present c - {v}\<rparr>)"
| race_prune: "v \<in> rc_prunes c \<Longrightarrow> race_step c (c\<lparr>rc_present := rc_present c - {v}\<rparr>)"

section \<open>The invariant\<close>

text \<open>A version superseded by a confirmed owner.\<close>

definition overtaken :: "race \<Rightarrow> headVersion \<Rightarrow> bool" where
  "overtaken c v \<longleftrightarrow> (\<exists>e t n. rc_confirmed c (e, t) = Some n \<and>
     (hv_epoch v < e \<or> hv_epoch v = e \<and> hv_token v \<noteq> t \<or> hv_epoch v = e \<and> hv_token v = t \<and> hv_seq v < n))"

text \<open>The newest confirmed version of an owner, or a later one of its, is present as long as no
  later epoch is confirmed.\<close>

definition anchored :: "race \<Rightarrow> owner \<Rightarrow> u64 \<Rightarrow> bool" where
  "anchored c ow n \<longleftrightarrow> (\<exists>v \<in> rc_present c. owner_of v = ow \<and> hv_seq v \<ge> n) \<or> (\<exists>e t. fst ow < e \<and> rc_confirmed c (e, t) \<noteq> None)"

definition race_inv :: "race \<Rightarrow> bool" where
  "race_inv c \<longleftrightarrow>
     (\<forall>ow n. rc_confirmed c ow = Some n \<longrightarrow> 0 < n \<and> n \<le> 2 ^ 63 \<and> anchored c ow n) \<and>
     (\<forall>e t u. rc_confirmed c (e, t) \<noteq> None \<longrightarrow> rc_confirmed c (e, u) \<noteq> None \<longrightarrow> t = u) \<and>
     (\<forall>v \<in> rc_writing c. 0 < hv_seq v \<and> hv_seq v \<le> 2 ^ 63 \<and> owner_of v \<notin> rc_dead c \<and>
        (\<forall>n. rc_confirmed c (owner_of v) = Some n \<longrightarrow> n < hv_seq v) \<and> (v \<in> rc_present c \<or> overtaken c v)) \<and>
     (\<forall>v \<in> rc_writing c. \<forall>u \<in> rc_writing c. owner_of v = owner_of u \<longrightarrow> v = u) \<and>
     (\<forall>v \<in> rc_prunes c. overtaken c v)"

text \<open>A confirmed owner shows in every listing, at its epoch or a later one.\<close>

lemma confirmed_shows:
  assumes inv: "race_inv c" and "rc_confirmed c (e, t) = Some n"
  shows "\<exists>v \<in> rc_present c. 0 < hv_seq v \<and> (e < hv_epoch v \<or> owner_of v = (e, t) \<and> n \<le> hv_seq v)"
  using assms(2)
proof (induction "2 ^ 64 - unat e" arbitrary: e t n rule: less_induct)
  case less
  have n: "0 < n" "anchored c (e, t) n" using inv less.prems unfolding race_inv_def by blast+
  from n(2) consider v where "v \<in> rc_present c" "owner_of v = (e, t)" "n \<le> hv_seq v" | e' t' where "e < e'" "rc_confirmed c (e', t') \<noteq> None"
    by (auto simp: anchored_def)
  then show ?case
  proof cases
    case 1
    then show ?thesis using n(1) by (intro bexI [of _ v]) auto
  next
    case 2
    then obtain m where m: "rc_confirmed c (e', t') = Some m" by blast
    have "2 ^ 64 - unat e' < 2 ^ 64 - unat e" using 2(1) unat_u64 [of e'] by (simp add: word_less_nat_alt)
    from less.hyps [OF this m] obtain v where "v \<in> rc_present c" "0 < hv_seq v" "e' < hv_epoch v \<or> owner_of v = (e', t') \<and> m \<le> hv_seq v" by blast
    then show ?thesis using 2(1) by (intro bexI [of _ v]) (auto simp: owner_of_def)
  qed
qed

text \<open>What a successful confirmation means for the owners confirmed before.\<close>

lemma confirm_current:
  assumes "race_inv c" "listing c entries" "ownerStillCurrent entries v" "rc_confirmed c (e, t) = Some n"
  shows "e < hv_epoch v \<or> owner_of v = (e, t) \<and> n \<le> hv_seq v"
proof -
  obtain u where u: "u \<in> rc_present c" "0 < hv_seq u" "e < hv_epoch u \<or> owner_of u = (e, t) \<and> n \<le> hv_seq u"
    using confirmed_shows [OF assms(1,4)] by blast
  then have "u \<in> he_version ` set entries" using assms(2) by (auto simp: listing_def)
  then have "\<not> hv_epoch v < hv_epoch u" "hv_epoch u = hv_epoch v \<Longrightarrow> hv_token u = hv_token v"
      "hv_epoch u = hv_epoch v \<Longrightarrow> hv_token u = hv_token v \<Longrightarrow> hv_seq u \<le> hv_seq v"
    using assms(3) u(2) by (auto simp: ownerStillCurrent_def list_all_iff sameOwner_def Let_def)
  then show ?thesis using u(3) by (auto simp: owner_of_def)
qed

lemma writing_present:
  assumes "race_inv c" "v \<in> rc_writing c" "listing c entries" "ownerStillCurrent entries v"
  shows "v \<in> rc_present c"
proof (rule ccontr)
  assume "v \<notin> rc_present c"
  then have "overtaken c v" using assms(1,2) by (auto simp: race_inv_def)
  then obtain e t n where o: "rc_confirmed c (e, t) = Some n"
      "hv_epoch v < e \<or> hv_epoch v = e \<and> hv_token v \<noteq> t \<or> hv_epoch v = e \<and> hv_token v = t \<and> hv_seq v < n"
    by (auto simp: overtaken_def)
  show False using confirm_current [OF assms(1,3,4) o(1)] o(2) by (auto simp: owner_of_def)
qed

section \<open>Every step keeps the invariant\<close>

lemma race_invI:
  assumes "\<And>ow n. rc_confirmed c ow = Some n \<Longrightarrow> 0 < n \<and> n \<le> 2 ^ 63 \<and> anchored c ow n"
    and "\<And>e t u. rc_confirmed c (e, t) \<noteq> None \<Longrightarrow> rc_confirmed c (e, u) \<noteq> None \<Longrightarrow> t = u"
    and "\<And>v. v \<in> rc_writing c \<Longrightarrow> 0 < hv_seq v \<and> hv_seq v \<le> 2 ^ 63 \<and> owner_of v \<notin> rc_dead c"
    and "\<And>v n. v \<in> rc_writing c \<Longrightarrow> rc_confirmed c (owner_of v) = Some n \<Longrightarrow> n < hv_seq v"
    and "\<And>v. v \<in> rc_writing c \<Longrightarrow> v \<notin> rc_present c \<Longrightarrow> overtaken c v"
    and "\<And>v u. v \<in> rc_writing c \<Longrightarrow> u \<in> rc_writing c \<Longrightarrow> owner_of v = owner_of u \<Longrightarrow> v = u"
    and "\<And>v. v \<in> rc_prunes c \<Longrightarrow> overtaken c v"
  shows "race_inv c"
  using assms unfolding race_inv_def by blast

lemma race_invD:
  assumes "race_inv c"
  shows "rc_confirmed c ow = Some n \<Longrightarrow> 0 < n" "rc_confirmed c ow = Some n \<Longrightarrow> n \<le> 2 ^ 63" "rc_confirmed c ow = Some n \<Longrightarrow> anchored c ow n"
    "rc_confirmed c (e, t) \<noteq> None \<Longrightarrow> rc_confirmed c (e, u) \<noteq> None \<Longrightarrow> t = u"
    "v \<in> rc_writing c \<Longrightarrow> 0 < hv_seq v" "v \<in> rc_writing c \<Longrightarrow> hv_seq v \<le> 2 ^ 63" "v \<in> rc_writing c \<Longrightarrow> owner_of v \<notin> rc_dead c"
    "v \<in> rc_writing c \<Longrightarrow> rc_confirmed c (owner_of v) = Some n \<Longrightarrow> n < hv_seq v"
    "v \<in> rc_writing c \<Longrightarrow> v \<notin> rc_present c \<Longrightarrow> overtaken c v"
    "v \<in> rc_writing c \<Longrightarrow> w \<in> rc_writing c \<Longrightarrow> owner_of v = owner_of w \<Longrightarrow> v = w"
    "v \<in> rc_prunes c \<Longrightarrow> overtaken c v"
  using assms unfolding race_inv_def by blast+

lemma overtaken_update [simp]:
  "overtaken (c\<lparr>rc_present := P\<rparr>) v = overtaken c v" "overtaken (c\<lparr>rc_writing := W\<rparr>) v = overtaken c v" "overtaken (c\<lparr>rc_dead := D\<rparr>) v = overtaken c v"
  by (simp_all add: overtaken_def)

text \<open>Putting a version and forgetting one that nothing rests on.\<close>

lemma race_put:
  assumes inv: "race_inv c" and "0 < hv_seq v" "hv_seq v \<le> 2 ^ 63" "idle_owner c (owner_of v)"
    "\<And>n. rc_confirmed c (owner_of v) = Some n \<Longrightarrow> n < hv_seq v"
  shows "race_inv (c\<lparr>rc_present := insert v (rc_present c), rc_writing := insert v (rc_writing c)\<rparr>)"
  using assms(2-5) race_invD [OF inv]
  by (intro race_invI) (auto simp: anchored_def idle_owner_def)

lemma race_delete:
  assumes inv: "race_inv c" and writing: "v \<in> rc_writing c \<Longrightarrow> overtaken c v"
    and anchor: "\<And>n. rc_confirmed c (owner_of v) = Some n \<Longrightarrow> n \<le> hv_seq v \<Longrightarrow> \<exists>e t. hv_epoch v < e \<and> rc_confirmed c (e, t) \<noteq> None"
  shows "race_inv (c\<lparr>rc_present := rc_present c - {v}\<rparr>)"
proof -
  have "anchored (c\<lparr>rc_present := rc_present c - {v}\<rparr>) ow n" if "rc_confirmed c ow = Some n" for ow n
    using race_invD(3) [OF inv that] anchor [of n] that by (auto simp: anchored_def owner_of_def)
  then show ?thesis
    using race_invD [OF inv] writing by (intro race_invI) auto
qed

lemma overtaken_mono:
  assumes "overtaken c v" "\<And>ow n. rc_confirmed c ow = Some n \<Longrightarrow> \<exists>m \<ge> n. rc_confirmed c' ow = Some m"
  shows "overtaken c' v"
proof -
  obtain e t n where o: "rc_confirmed c (e, t) = Some n"
      "hv_epoch v < e \<or> hv_epoch v = e \<and> hv_token v \<noteq> t \<or> hv_epoch v = e \<and> hv_token v = t \<and> hv_seq v < n"
    using assms(1) by (auto simp: overtaken_def)
  obtain m where "n \<le> m" "rc_confirmed c' (e, t) = Some m" using assms(2) [OF o(1)] by blast
  then show ?thesis using o(2) unfolding overtaken_def by (intro exI [of _ e] exI [of _ t] exI [of _ m]) auto
qed

lemma below_two:
  assumes "(a :: u64) \<le> 2 ^ 63" "a + 2 \<le> b" "a \<le> b"
  shows "a < b"
proof -
  have "unat (2 ^ 63 :: u64) = 2 ^ 63" by simp
  then have "unat a \<le> 2 ^ 63" using assms(1) by (metis word_le_nat_alt)
  then have "unat (a + 2) = unat a + 2" by (simp add: unat_word_ariths)
  then show ?thesis using assms(2,3) by (simp add: word_le_nat_alt word_less_nat_alt)
qed

lemma race_confirmed:
  assumes inv: "race_inv c" and w: "v \<in> rc_writing c" and l: "listing c entries" and cur: "ownerStillCurrent entries v"
  defines "c' \<equiv> c\<lparr>rc_writing := rc_writing c - {v}, rc_confirmed := (rc_confirmed c)(owner_of v \<mapsto> hv_seq v),
      rc_prunes := rc_prunes c \<union> {u \<in> he_version ` set entries. superseded u v}\<rparr>"
  shows "race_inv c'"
proof -
  note D = race_invD [OF inv]
  have present: "v \<in> rc_present c" using writing_present [OF inv w l cur] .
  have grow: "\<exists>m \<ge> n. rc_confirmed c' ow = Some m" if "rc_confirmed c ow = Some n" for ow n
    using that D(8) [OF w] by (auto simp: c'_def)
  have over: "overtaken c' u" if "overtaken c u" for u using overtaken_mono [OF that grow] .
  have conf: "rc_confirmed c' ow = (if ow = owner_of v then Some (hv_seq v) else rc_confirmed c ow)" for ow by (simp add: c'_def)
  show ?thesis
  proof (rule race_invI)
    fix ow n assume n: "rc_confirmed c' ow = Some n"
    show "0 < n \<and> n \<le> 2 ^ 63 \<and> anchored c' ow n"
    proof (cases "ow = owner_of v")
      case True
      then show ?thesis using n D(5,6) [OF w] present by (auto simp: conf anchored_def c'_def)
    next
      case False
      then have o: "rc_confirmed c ow = Some n" using n by (simp add: conf)
      then show ?thesis using D(1-3) [OF o] grow by (fastforce simp: anchored_def c'_def)
    qed
  next
    fix e t u assume "rc_confirmed c' (e, t) \<noteq> None" "rc_confirmed c' (e, u) \<noteq> None"
    moreover have "x = hv_token v" if "rc_confirmed c (hv_epoch v, x) \<noteq> None" for x
      using that confirm_current [OF inv l cur, of "hv_epoch v" x] by (auto simp: owner_of_def)
    ultimately show "t = u"
      using D(4) [of e t u] unfolding conf owner_of_def by (cases "e = hv_epoch v") (metis prod.inject)+
  next
    fix u assume u: "u \<in> rc_prunes c'"
    show "overtaken c' u"
    proof (cases "u \<in> rc_prunes c")
      case True
      then show ?thesis using D(11) over by blast
    next
      case False
      then have s: "u \<in> he_version ` set entries" "superseded u v" using u by (auto simp: c'_def)
      have "hv_seq u \<le> hv_seq v" if "sameOwner u v"
        using s(1) cur that by (auto simp: ownerStillCurrent_def list_all_iff Let_def)
      then have "hv_seq u < hv_seq v" if "sameOwner u v" "hv_seq u + retainedHeadVersions \<le> hv_seq v"
        using that D(6) [OF w] by (intro below_two) (auto simp: retainedHeadVersions_def)
      then show ?thesis using s(2) by (auto simp: overtaken_def conf owner_of_def superseded_def sameOwner_def)
    qed
  next
    fix u assume "u \<in> rc_writing c'"
    then have u: "u \<in> rc_writing c" "u \<noteq> v" by (simp_all add: c'_def)
    then have other: "owner_of u \<noteq> owner_of v" using D(10) w by blast
    show "0 < hv_seq u \<and> hv_seq u \<le> 2 ^ 63 \<and> owner_of u \<notin> rc_dead c'" using D(5-7) [OF u(1)] by (simp add: c'_def)
    show "n < hv_seq u" if "rc_confirmed c' (owner_of u) = Some n" for n using that D(8) [OF u(1)] other by (simp add: conf)
    show "overtaken c' u" if "u \<notin> rc_present c'" using that over D(9) [OF u(1)] by (simp add: c'_def)
    show "u = x" if "x \<in> rc_writing c'" "owner_of u = owner_of x" for x using that D(10) [OF u(1)] by (simp add: c'_def)
  qed
qed

lemma race_inv_start: "race_inv race_start"
  by (simp add: race_inv_def race_start_def)

lemma race_step_inv:
  assumes "race_step c c'" and inv: "race_inv c"
  shows "race_inv c'"
  using assms(1)
proof cases
  case (race_claim v)
  then show ?thesis using race_invD [OF inv] by (intro race_invI) (auto simp: anchored_def)
next
  case (race_first v)
  then show ?thesis using race_put [OF inv, of v] by simp
next
  case (race_advance v n)
  have "n \<le> 2 ^ 63" "0 < n" using race_invD(1,2) [OF inv race_advance(2)] by auto
  then have "0 < n + 1" "n + 1 \<le> 2 ^ 63" "n < n + 1"
    using race_advance(4) by (auto simp: word_less_nat_alt word_le_nat_alt unat_word_ariths)
  then show ?thesis using race_put [OF inv, of v] race_advance by auto
next
  case (race_confirm v entries)
  then show ?thesis using race_confirmed [OF inv] by simp
next
  case (race_lost v)
  then show ?thesis using race_invD [OF inv] by (intro race_invI) (auto simp: anchored_def)
next
  case (race_give_up ow)
  then show ?thesis using race_invD [OF inv] by (intro race_invI) (auto simp: anchored_def idle_owner_def)
next
  case (race_abort v)
  then show ?thesis using race_invD(7) [OF inv] by (auto intro!: race_delete [OF inv])
next
  case (race_reap v)
  then show ?thesis using race_invD(1,5) [OF inv] by (fastforce intro!: race_delete [OF inv])
next
  case (race_prune v)
  have o: "overtaken c v" using race_invD(11) [OF inv race_prune(2)] .
  have "\<exists>e t. hv_epoch v < e \<and> rc_confirmed c (e, t) \<noteq> None" if "rc_confirmed c (owner_of v) = Some n" "n \<le> hv_seq v" for n
    using o that race_invD(4) [OF inv, of "hv_epoch v" "hv_token v"] by (fastforce simp: overtaken_def owner_of_def)
  then show ?thesis unfolding race_prune(1) by (rule race_delete [OF inv o])
qed

lemma race_reachable: "race_step\<^sup>*\<^sup>* race_start c \<Longrightarrow> race_inv c"
  by (induction rule: rtranclp_induct) (auto intro: race_inv_start race_step_inv)

text \<open>A step confirms an owner only at or above every confirmed epoch.\<close>

lemma race_step_fenced:
  assumes "race_step c c'" "race_inv c" "rc_confirmed c (e', t') \<noteq> None" "e < e'"
  shows "rc_confirmed c' (e, t) = rc_confirmed c (e, t)"
  using assms(1)
proof cases
  case (race_confirm v entries)
  obtain n where n: "rc_confirmed c (e', t') = Some n" using assms(3) by blast
  have "e' \<le> hv_epoch v" using confirm_current [OF assms(2) race_confirm(3,4) n] by (auto simp: owner_of_def)
  then have "owner_of v \<noteq> (e, t)" using assms(4) by (auto simp: owner_of_def)
  then show ?thesis using race_confirm(1) by simp
qed (use assms in auto)

text \<open>The decisions of \<open>append_confirm\<close> are those of the race.\<close>

lemma append_confirm_decides:
  assumes "append_confirm h name key v s = (s', Inr c)"
  obtains s1 entries live where "append_list h name s = (s1, Inr entries)" "live = filter (\<lambda>e. \<not> deadClaim h entries e) entries"
    "ownerStillCurrent live v" "claimPresent live v" "c = key"
proof -
  obtain s2 live where l: "liveEntries h name s = (s2, Inr live)" "ownerStillCurrent live v" "claimPresent live v" "c = key"
    using assms by (auto simp: append_confirm_def split: prod.splits sum.splits if_splits)
  from liveEntries_filter [OF l(1)] show ?thesis using that l(2-4) by metis
qed

section \<open>Reading\<close>

text \<open>The versions of a volume in a store, and the one a reader takes.\<close>

definition newest_in :: "(string \<rightharpoonup> Object) \<Rightarrow> string \<Rightarrow> string \<Rightarrow> headVersion \<Rightarrow> bool" where
  "newest_in content name key v \<longleftrightarrow> content key \<noteq> None \<and> parseHeadKey name key = Some v \<and> hv_seq v > 0 \<and>
     (\<forall>k u. content k \<noteq> None \<longrightarrow> parseHeadKey name k = Some u \<longrightarrow> hv_seq u > 0 \<longrightarrow> k = key \<or> head_before v u)"

lemma parse_prefix: "parseHeadKey name k = Some u \<Longrightarrow> strings_HasPrefix k (HeadPrefix name)"
  by (auto simp: parseHeadKey_def strings_CutPrefix_def split: option.splits if_splits)

lemma committed_newest:
  assumes "set keys = {k \<in> dom content. strings_HasPrefix k (HeadPrefix name)}" "committedHead (head_entries name keys) = Some e"
  shows "newest_in content name (he_key e) (he_version e)"
proof -
  note first = committedHead_first [OF head_entries_sorted [of name keys]]
  have e: "e \<in> set (head_entries name keys)" "hv_seq (he_version e) > 0"
      "\<And>e'. e' \<in> set (head_entries name keys) \<Longrightarrow> hv_seq (he_version e') > 0 \<Longrightarrow> e' = e \<or> head_before (he_version e) (he_version e')"
    using first assms(2) by auto
  have "k = he_key e \<or> head_before (he_version e) u" if "content k \<noteq> None" "parseHeadKey name k = Some u" "hv_seq u > 0" for k u
  proof -
    have "\<lparr>he_key = k, he_version = u\<rparr> \<in> set (head_entries name keys)"
      using that(1,2) parse_prefix [OF that(2)] assms(1) by (auto simp: set_head_entries)
    then show ?thesis using e(3) that(3) by fastforce
  qed
  then show ?thesis using e(1,2) assms(1) by (auto simp: newest_in_def set_head_entries)
qed

context shared_store
begin

lemma append_list_newest:
  assumes "sinv s" "ah_store h = ops" "append_list h name s = (s1, Inr entries)" "committedHead entries = Some e"
  shows "later hist sinv s s1" "newest_in (cur s1) name (he_key e) (he_version e)"
proof -
  obtain keys where l: "st_List ops (HeadPrefix name) s = (s1, Inr keys)" "entries = head_entries name keys"
    using assms(2,3) by (auto simp: append_list_def split: prod.splits sum.splits)
  obtain s0 where s0: "later hist sinv s s0" "sinv s1" "untouched cur hist s0 s1" "set keys = {k \<in> dom (cur s0). strings_HasPrefix k (HeadPrefix name)}"
    using list_keys [OF assms(1) l(1)] by auto
  show "later hist sinv s s1" using s0 by (auto simp: later_def untouched_def)
  show "newest_in (cur s1) name (he_key e) (he_version e)"
    using committed_newest [OF s0(4)] assms(4) l(2) s0(3) by (simp add: untouched_def)
qed

lemma read_attempts_newest:
  assumes "sinv s" "ah_store h = ops" "read_attempts n h name s = (s', Inr (body, key))"
  shows "\<exists>s1 v. later hist sinv s s1 \<and> newest_in (cur s1) name key v \<and> was_stored hist s' key body"
  using assms(1,3)
proof (induction n arbitrary: s)
  case (Suc n)
  obtain s1 entries e where l: "append_list h name s = (s1, Inr entries)" "committedHead entries = Some e"
    using Suc.prems(2) by (auto split: prod.splits sum.splits option.splits)
  note newest = append_list_newest [OF Suc.prems(1) assms(2) l]
  then have s1: "sinv s1" by (simp add: later_def)
  obtain s2 got where g: "st_Get ops (he_key e) s1 = (s2, got)" by fastforce
  have l2: "later hist sinv s s2" using later_trans [OF newest(1) get_later [OF s1 g]] .
  show ?case
  proof (cases got)
    case (Inl err)
    then have "read_attempts n h name s2 = (s', Inr (body, key))"
      using Suc.prems(2) l g assms(2) by (auto split: if_splits)
    moreover have "sinv s2" using l2 by (simp add: later_def)
    ultimately obtain s3 v where "later hist sinv s2 s3" "newest_in (cur s3) name key v" "was_stored hist s' key body"
      using Suc.IH by blast
    then show ?thesis using later_trans [OF l2] by blast
  next
    case (Inr obj)
    then have r: "s' = s2" "body = obj_Data obj" "key = he_key e" using Suc.prems(2) l g assms(2) by auto
    obtain s0 where s0: "later hist sinv s1 s0" "untouched cur hist s0 s2" "cur s0 (he_key e) = Some obj"
      using get [OF s1 g] Inr by auto
    then have "(he_key e, obj) \<in> hist s2" using cur_hist by (auto simp: later_def untouched_def)
    then have "was_stored hist s' key body" using r by (cases obj) (auto simp: was_stored_def)
    then show ?thesis using newest r(3) by blast
  qed
qed simp

end

section \<open>Properties\<close>

text \<open>
  The key of a head version reads back as the version: every epoch and sequence number, any
  token of the required length without a separator, and any claim time of up to thirteen digits.
\<close>

theorem head_key_roundtrip:
  assumes "length (hv_token v) = headTokenLength" and "CHR ''_'' \<notin> set (hv_token v)" and "0 \<le> hv_claim v" and "hv_claim v < 10 ^ 13"
  shows "parseHeadKey name (headVersion_key v name) = Some v"
  using parse_key [OF assms] .

definition race_version :: "u64 \<Rightarrow> headVersion" where
  "race_version n = \<lparr>hv_epoch = 3, hv_token = replicate 36 (CHR ''a''), hv_seq = n, hv_claim = 1700000000000\<rparr>"

theorem head_key_roundtrip_witness:
  "parseHeadKey ''v'' (headVersion_key (race_version 18446744073709551615) ''v'') = Some (race_version 18446744073709551615)"
  by (rule head_key_roundtrip) (simp_all add: race_version_def headTokenLength_def)

text \<open>
  C13. A successful read of the append-only head returns the content of a version that, at a moment
  during the read, was the newest committed one by epoch, owner and sequence number, whatever
  other clients and the network do.
\<close>

theorem append_read_newest:
  assumes "shared_store ops cur hist sinv" and "sinv s" and "ah_store h = ops" and "append_read h name s = (s', Inr (body, key))"
  shows "\<exists>s1 v. later hist sinv s s1 \<and> newest_in (cur s1) name key v \<and> was_stored hist s' key body"
  using shared_store.read_attempts_newest [OF assms(1-3)] assms(4) by (simp add: append_read_def)

definition race_head :: "contended_memory appendHead" where
  "race_head = \<lparr>ah_store = contended_ops, ah_settle = 3, ah_ttl = 30, ah_uuid = replicate 36 (CHR ''b''), ah_started = 10, ah_claimed = 11,
     ah_now = 15, ah_sleep = Inr ()\<rparr>"

definition race_key :: string where
  "race_key = headVersion_key (race_version 1) ''v''"

definition race_store :: contended_memory where
  "race_store = (((NewMemory\<lparr>objects := fmupd race_key \<lparr>obj_Data = [7], obj_ETag = mem_etag 1\<rparr> fmempty, mem_seq := 1\<rparr>),
     {(race_key, \<lparr>obj_Data = [7], obj_ETag = mem_etag 1\<rparr>)}, []), [])"

lemma race_store_inv: "contended_inv race_store"
  by (auto simp: contended_inv_def logged_inv_def logged_hist_def race_store_def NewMemory_def covers_def tagged_upto_def tags_determine_def
    split: if_splits)

lemma race_key_parses: "parseHeadKey ''v'' race_key = Some (race_version 1)"
  unfolding race_key_def by (rule parse_key) (simp_all add: race_version_def headTokenLength_def)

lemma race_read: "append_read race_head ''v'' race_store = (race_store, Inr ([7], race_key))"
proof -
  have p: "strings_HasPrefix race_key (HeadPrefix ''v'')" using parse_prefix [OF race_key_parses] .
  have v: "versions (fmupd race_key x fmempty) = {(race_key, x)}" for x by (auto simp: versions_eq split: if_splits)
  have "sorted_list_of_fset {|race_key|} = [race_key]" by (simp add: sorted_list_of_fset.rep_eq)
  then have l: "append_list race_head ''v'' race_store = (race_store, Inr [\<lparr>he_key = race_key, he_version = race_version 1\<rparr>])"
    using p v by (simp add: append_list_def race_head_def contended_ops_def contended_def foreign_def faulty_ops_def faulty_def race_store_def
      next_fault_def Memory_List_def head_entries_def race_key_parses List.map_filter_def)
  have g: "st_Get contended_ops race_key race_store = (race_store, Inr \<lparr>obj_Data = [7], obj_ETag = mem_etag 1\<rparr>)"
    using v by (simp add: contended_ops_def contended_def foreign_def faulty_ops_def faulty_def race_store_def next_fault_def Memory_Get_def)
  have "hv_seq (race_version 1) = 1" by (simp add: race_version_def)
  then show ?thesis using l g by (simp add: append_read_def numeral_eq_Suc race_head_def)
qed

theorem append_read_newest_witness:
  "\<exists>s1 v. later contended_hist contended_inv race_store s1 \<and> newest_in (contended_cur s1) ''v'' race_key v \<and> was_stored contended_hist race_store race_key [7]"
  using append_read_newest [OF contended.shared_store_axioms race_store_inv _ race_read] by (simp add: race_head_def)


text \<open>A claimant that claims, writes and confirms.\<close>

definition race_won :: race where
  "race_won = race_start\<lparr>rc_present := {race_version 0, race_version 1}, rc_confirmed := [owner_of (race_version 1) \<mapsto> 1]\<rparr>"

lemma race_won_reachable: "race_step\<^sup>*\<^sup>* race_start race_won"
proof -
  let ?v = "race_version 1" and ?c = "race_version 0"
  let ?s1 = "race_start\<lparr>rc_present := {?c}\<rparr>"
  let ?s2 = "?s1\<lparr>rc_present := {?v, ?c}, rc_writing := {?v}\<rparr>"
  let ?l = "[\<lparr>he_key = [], he_version = ?v\<rparr>, \<lparr>he_key = [], he_version = ?c\<rparr>]"
  have v: "hv_seq ?v = 1" "hv_seq ?c = 0" "owner_of ?v = owner_of ?c" by (simp_all add: race_version_def owner_of_def)
  have "race_step race_start ?s1" using race_claim [of ?c race_start] v by (simp add: race_start_def)
  moreover have "race_step ?s1 ?s2" using race_first [of ?v ?s1] v by (simp add: race_start_def idle_owner_def)
  moreover have "race_step ?s2 race_won"
  proof -
    have "race_step ?s2 (?s2\<lparr>rc_writing := rc_writing ?s2 - {?v}, rc_confirmed := (rc_confirmed ?s2)(owner_of ?v \<mapsto> hv_seq ?v),
        rc_prunes := rc_prunes ?s2 \<union> {u \<in> he_version ` set ?l. superseded u ?v}\<rparr>)"
      using v by (intro race_confirm)
        (auto simp: listing_def ownerStillCurrent_def claimPresent_def sameOwner_def Let_def race_version_def)
    moreover have "{u. (u = ?v \<or> u = ?c) \<and> superseded u ?v} = {}"
      by (auto simp: superseded_def race_version_def sameOwner_def retainedHeadVersions_def word_le_nat_alt)
    ultimately show ?thesis using v by (simp only: race_won_def race_start_def) (simp add: insert_commute)
  qed
  ultimately show ?thesis by auto
qed


end
