(* ===== verification/Journal.thy ===== *)
theory Journal
  imports Manifest
begin

text \<open>
  The local journal (\<open>internal/replica/journal.go\<close>): generations acknowledged before they reach
  the remote store. This theory has the file format with its reader, and the operations. The
  journal state includes the file (its content, how much of it is known to be on stable storage,
  and the file it replaced while the replacement is not stable); a caller waiting for a flush is a number, and the log records what each was told. The
  flushing goroutine is split into its two halves, before and after the flush. I/O outcomes are
  arguments.
\<close>

section \<open>Format\<close>

definition journalFormat :: string where "journalFormat = ''satchel-local-journal-v1''"
definition journalHeaderMagic :: bytes where "journalHeaderMagic = string_bytes ''SATJNL01''"
definition journalRecordMagic :: bytes where "journalRecordMagic = string_bytes ''SATGEN01''"
definition journalHeaderPrefix :: nat where "journalHeaderPrefix = 12"
definition journalRecordHeader :: nat where "journalRecordHeader = 60"
definition maxJournalMetadata :: nat where "maxJournalMetadata = 65536"
definition journalCompactBytes :: int where "journalCompactBytes = 67108864"

record JournalMetadata =
  jm_Format :: string
  jm_VolumeID :: string
  jm_VolumeName :: string
  jm_Holder :: string
  jm_Size :: int
  jm_BlockSize :: int
  jm_WriterEpoch :: u64
  jm_BaseGeneration :: u64
  jm_BaseManifest :: string

text \<open>SHA-256 and the JSON form of the metadata are parameters.\<close>

record jcodec =
  jc_sha256 :: "bytes \<Rightarrow> bytes"
  jc_marshal :: "JournalMetadata \<Rightarrow> bytes"
  jc_unmarshal :: "bytes \<Rightarrow> JournalMetadata result"

definition journalMetadata :: "State \<Rightarrow> JournalMetadata result" where
  "journalMetadata state =
     (case s_Lease state of
        None \<Rightarrow> invalid ''cannot create local journal without a lease''
      | Some rec \<Rightarrow> Inr \<lparr>jm_Format = journalFormat, jm_VolumeID = s_ID state, jm_VolumeName = s_Name state, jm_Holder = Holder rec,
          jm_Size = s_Size state, jm_BlockSize = s_BlockSize state, jm_WriterEpoch = s_Epoch state,
          jm_BaseGeneration = s_Generation state, jm_BaseManifest = s_Manifest state\<rparr>)"

text \<open>\<open>writeAll\<close> over a script of \<open>Write\<close> results (bytes taken, error); when the script has run
  out, a write takes everything. The result is what reached the file and the error.\<close>

fun writeAll :: "(nat \<times> error option) list \<Rightarrow> bytes \<Rightarrow> bytes \<times> error option" where
  "writeAll [] data = (data, None)"
| "writeAll ((n, err) # script) data =
     (if data = [] then ([], None)
      else
        case err of
          Some e \<Rightarrow> (take n data, Some e)
        | None \<Rightarrow>
            if n = 0 then ([], Some ErrShortWrite)
            else (case writeAll script (drop n data) of (rest, e) \<Rightarrow> (take n data @ rest, e)))"

definition journalHeader :: "jcodec \<Rightarrow> JournalMetadata \<Rightarrow> bytes result" where
  "journalHeader c metadata =
     (let body = jc_marshal c metadata in
      if length body = 0 \<or> length body > maxJournalMetadata then invalid ''local journal metadata has a bad length''
      else Inr (journalHeaderMagic @ PutUint32 (of_nat (length body)) @ body @ jc_sha256 c body))"

definition writeJournalHeader :: "jcodec \<Rightarrow> JournalMetadata \<Rightarrow> (nat \<times> error option) list \<Rightarrow> bytes \<times> error option" where
  "writeJournalHeader c metadata script =
     (case journalHeader c metadata of Inl e \<Rightarrow> ([], Some e) | Inr header \<Rightarrow> writeAll script header)"

definition journalRecordSize :: "Generation \<Rightarrow> int" where
  "journalRecordSize g = int journalRecordHeader + int (fcard (fmdom (gen_Blocks g))) * (8 + DefaultBlockSize)"

definition journal_payload :: "Generation \<Rightarrow> u64 list \<Rightarrow> bytes" where
  "journal_payload g blocks = concat (map (\<lambda>b. PutUint64 b @ block_data g b) blocks)"

text \<open>\<open>copy\<close> of a digest into its place in the record.\<close>

definition digest_field :: "bytes \<Rightarrow> bytes" where
  "digest_field d = take 32 (d @ replicate 32 0)"

definition encodeJournalRecord :: "jcodec \<Rightarrow> Generation option \<Rightarrow> u64 \<Rightarrow> (bytes \<times> Generation) result" where
  "encodeJournalRecord c g sequence =
     (if Generation_Empty g then invalid ''cannot journal an empty generation''
      else
        let g' = the g; blocks = sortedBlocks g'; payloadBytes = int (length blocks) * (8 + DefaultBlockSize) in
        if int (length blocks) > 2 ^ 32 - 1 then invalid ''journal generation has too many blocks''
        else if payloadBytes > 2 ^ 63 - 1 - int journalRecordHeader then invalid ''journal generation is too large''
        else if \<not> list_all (\<lambda>b. length (block_data g' b) = BlockSize) blocks then invalid ''journal block has a bad length''
        else
          let dims = PutUint64 sequence @ PutUint32 (of_nat (length blocks)) @ PutUint64 (word_of_int payloadBytes);
              payload = journal_payload g' blocks
          in Inr (journalRecordMagic @ dims @ digest_field (jc_sha256 c (dims @ payload)) @ payload, g'\<lparr>journalSeq := sequence\<rparr>))"

section \<open>Reading\<close>

text \<open>What reading one record can come to: the journal ends here (cleanly or in a torn record),
  it is damaged, or a record was read.\<close>

datatype 'a outcome = Torn | Damaged error | Got 'a

definition torn_or :: "error \<Rightarrow> 'a outcome" where
  "torn_or e = (if e = EOF \<or> e = ErrUnexpectedEOF then Torn else Damaged e)"

definition volume_blocks :: "JournalMetadata \<Rightarrow> u64" where
  "volume_blocks m = word_of_int (jm_Size m div jm_BlockSize m)"

text \<open>The blocks of a record; \<open>hashed\<close> is what the digest has been given so far.\<close>

fun read_blocks :: "nat \<Rightarrow> JournalMetadata \<Rightarrow> stream \<Rightarrow> (u64, bytes) fmap \<Rightarrow> bytes \<Rightarrow> ((u64, bytes) fmap \<times> bytes \<times> stream) outcome" where
  "read_blocks 0 m s blocks hashed = Got (blocks, hashed, s)"
| "read_blocks (Suc n) m s blocks hashed =
     (case io_ReadFull 8 s of
        Inl e \<Rightarrow> torn_or e
      | Inr (blockHeader, s1) \<Rightarrow>
          let block = Uint64 blockHeader in
          if block \<ge> volume_blocks m then Damaged (Errorf ''local journal block is outside the volume'')
          else if fmlookup blocks block \<noteq> None then Damaged (Errorf ''local journal repeats a block in one generation'')
          else
            (case io_ReadFull (nat (jm_BlockSize m)) s1 of
               Inl e \<Rightarrow> torn_or e
             | Inr (data, s2) \<Rightarrow> read_blocks n m s2 (fmupd block data blocks) (hashed @ blockHeader @ data)))"

definition read_record :: "jcodec \<Rightarrow> JournalMetadata \<Rightarrow> u64 \<Rightarrow> stream \<Rightarrow> (Generation \<times> stream) outcome" where
  "read_record c m lastSequence s =
     (case io_ReadFull journalRecordHeader s of
        Inl e \<Rightarrow> torn_or e
      | Inr (header, s1) \<Rightarrow>
          if take 8 header \<noteq> journalRecordMagic then Damaged (Errorf ''local journal record has invalid magic'')
          else
            let sequence = Uint64 (take 8 (drop 8 header)); blockCount = ucast (Uint32 (take 4 (drop 16 header))) :: u64;
                payloadBytes = Uint64 (take 8 (drop 20 header)) in
            if sequence \<le> lastSequence \<or> blockCount = 0 \<or> blockCount > volume_blocks m \<or> payloadBytes \<noteq> blockCount * of_nat (8 + BlockSize)
            then Damaged (Errorf ''local journal record has invalid dimensions'')
            else
              (case read_blocks (unat blockCount) m s1 fmempty (take 20 (drop 8 header)) of
                 Torn \<Rightarrow> Torn
               | Damaged e \<Rightarrow> Damaged e
               | Got (blocks, hashed, s2) \<Rightarrow>
                   if take 32 (drop 28 header) \<noteq> jc_sha256 c hashed then Damaged (Errorf ''local journal record checksum does not match'')
                   else Got (\<lparr>gen_Blocks = blocks, gen_bytes = uint blockCount * jm_BlockSize m, journalSeq = sequence\<rparr>, s2)))"

lemma read_blocks_shrinks: "read_blocks n m s blocks hashed = Got (b, h, s') \<Longrightarrow> length (fst s') \<le> length (fst s)"
proof (induction n arbitrary: s blocks hashed)
  case (Suc n)
  then show ?case
    by (auto simp: io_ReadFull_def Let_def torn_or_def split: if_splits) (fastforce dest: Suc.IH)+
qed simp

lemma read_record_shrinks: "read_record c m q s = Got (g, s') \<Longrightarrow> length (fst s') < length (fst s)"
  by (auto simp: read_record_def io_ReadFull_def Let_def torn_or_def journalRecordHeader_def split: if_splits outcome.splits dest!: read_blocks_shrinks)

text \<open>The loop over the records: the generations and the offset where the next record starts.\<close>

function read_records :: "jcodec \<Rightarrow> JournalMetadata \<Rightarrow> u64 \<Rightarrow> int \<Rightarrow> stream \<Rightarrow> (Generation list \<times> int) result" where
  "read_records c m lastSequence offset s =
     (case read_record c m lastSequence s of
        Torn \<Rightarrow> Inr ([], offset)
      | Damaged e \<Rightarrow> Inl e
      | Got (g, s') \<Rightarrow>
          bindR (read_records c m (journalSeq g) (offset + int (length (fst s) - length (fst s'))) s') (\<lambda>(gs, end_offset).
            Inr (g # gs, end_offset)))"
  by pat_completeness auto
termination
  by (relation "measure (\<lambda>(c, m, q, off, s). length (fst s))") (auto dest: read_record_shrinks)

declare read_records.simps [simp del]

definition readJournal :: "jcodec \<Rightarrow> stream \<Rightarrow> (JournalMetadata \<times> Generation list \<times> int) result" where
  "readJournal c s =
     (case io_ReadFull journalHeaderPrefix s of
        Inl e \<Rightarrow> Inl (Wrap ''read local journal header'' e)
      | Inr (prefix, s1) \<Rightarrow>
          if take 8 prefix \<noteq> journalHeaderMagic then invalid ''local journal has invalid header magic''
          else
            let metadataBytes = unat (Uint32 (drop 8 prefix)) in
            if metadataBytes = 0 \<or> metadataBytes > maxJournalMetadata then invalid ''local journal metadata length is invalid''
            else
              (case io_ReadFull metadataBytes s1 of
                 Inl e \<Rightarrow> Inl (Wrap ''read local journal metadata'' e)
               | Inr (body, s2) \<Rightarrow>
                   (case io_ReadFull 32 s2 of
                      Inl e \<Rightarrow> Inl (Wrap ''read local journal metadata checksum'' e)
                    | Inr (digest, s3) \<Rightarrow>
                        if digest \<noteq> jc_sha256 c body then invalid ''local journal metadata checksum does not match''
                        else
                          (case jc_unmarshal c body of
                             Inl e \<Rightarrow> Inl (Wrap ''decode local journal metadata'' e)
                           | Inr m \<Rightarrow>
                               if jm_Format m \<noteq> journalFormat \<or> jm_VolumeID m = [] \<or> jm_VolumeName m = [] \<or> jm_Size m \<le> 0 \<or>
                                  jm_BlockSize m \<noteq> DefaultBlockSize
                               then invalid ''local journal metadata is invalid''
                               else bindR (read_records c m 0 (int (journalHeaderPrefix + metadataBytes + 32)) s3) (\<lambda>(gs, offset).
                                 Inr (m, gs, offset))))))"

section \<open>The journal\<close>

record Journal =
  jn_metadata :: JournalMetadata
  jn_entries :: "Generation list"
  jn_nextSeq :: u64
  jn_pendingSync :: "nat list"
  jn_pendingData :: nat
  jn_inflight :: "nat list"
  jn_syncRunning :: bool
  jn_syncing :: "(nat list \<times> nat) option"
  jn_closed :: bool
  jn_broken :: "error option"
  jn_diskBytes :: int
  jn_reclaimBytes :: int
  jn_compactAfter :: int
  jn_open :: bool
  jn_file :: bytes
  jn_stable :: nat
  jn_old :: "(bytes \<times> nat) option"
  jn_told :: "(nat \<times> error option) list"

definition jn_tell :: "nat list \<Rightarrow> error option \<Rightarrow> Journal \<Rightarrow> Journal" where
  "jn_tell ws err j = j\<lparr>jn_told := jn_told j @ map (\<lambda>w. (w, err)) ws\<rparr>"

text \<open>How a rewrite of the file ends. The steps before the rename leave the old file; after it
  the new file is in place, but opening it, asking for its size or making the rename stable can
  fail, and until the rename is stable a crash can bring back the old file (\<open>jn_old\<close>).\<close>

datatype rewrite_io = RewriteOk | FailedBefore error | FailedClose error | FailedRename error bool | FailedOpen error
  | FailedStat error | FailedDirSync error

definition journal_records :: "jcodec \<Rightarrow> Generation list \<Rightarrow> bytes result" where
  "journal_records c gs = bindR (mapR (\<lambda>g. encodeJournalRecord c (Some g) (journalSeq g)) gs) (\<lambda>rs. Inr (concat (map fst rs)))"

definition journal_content :: "jcodec \<Rightarrow> JournalMetadata \<Rightarrow> Generation list \<Rightarrow> bytes result" where
  "journal_content c m gs = bindR (journalHeader c m) (\<lambda>header. bindR (journal_records c gs) (\<lambda>records. Inr (header @ records)))"

definition rewriteLocked :: "jcodec \<Rightarrow> rewrite_io \<Rightarrow> Journal \<Rightarrow> Journal \<times> unit result" where
  "rewriteLocked c io j =
     (case journal_content c (jn_metadata j) (jn_entries j) of
        Inl e \<Rightarrow> (j, Inl e)
      | Inr content \<Rightarrow>
          let renamed = j\<lparr>jn_file := content, jn_stable := length content, jn_old := Some (jn_file j, jn_stable j), jn_open := True\<rparr> in
          case io of
            FailedBefore e \<Rightarrow> (j, Inl e)
          | FailedClose e \<Rightarrow> (j\<lparr>jn_open := False\<rparr>, Inl e)
          | FailedRename e reopened \<Rightarrow> (j\<lparr>jn_open := reopened\<rparr>, Inl e)
          | FailedOpen e \<Rightarrow> (renamed\<lparr>jn_open := False\<rparr>, Inl e)
          | FailedStat e \<Rightarrow> (renamed, Inl e)
          | FailedDirSync e \<Rightarrow> (renamed\<lparr>jn_diskBytes := int (length content), jn_reclaimBytes := 0\<rparr>, Inl e)
          | RewriteOk \<Rightarrow> (renamed\<lparr>jn_old := None, jn_diskBytes := int (length content), jn_reclaimBytes := 0\<rparr>, Inr ()))"

definition new_journal :: "JournalMetadata \<Rightarrow> Journal" where
  "new_journal m =
     \<lparr>jn_metadata = m, jn_entries = [], jn_nextSeq = 1, jn_pendingSync = [], jn_pendingData = 0, jn_inflight = [], jn_syncRunning = False,
      jn_syncing = None, jn_closed = False, jn_broken = None, jn_diskBytes = 0, jn_reclaimBytes = 0, jn_compactAfter = journalCompactBytes,
      jn_open = False, jn_file = [], jn_stable = 0, jn_old = None, jn_told = []\<rparr>"

definition CreateJournal :: "jcodec \<Rightarrow> rewrite_io \<Rightarrow> State \<Rightarrow> Journal result" where
  "CreateJournal c io state =
     bindR (journalMetadata state) (\<lambda>m.
       case rewriteLocked c io (new_journal m) of
         (j, Inl e) \<Rightarrow> Inl e
       | (j, Inr _) \<Rightarrow> Inr j)"

text \<open>\<open>truncated\<close> and \<open>synced\<close> are the outcomes of cutting off a torn tail and of making that stable.\<close>

definition OpenJournal :: "jcodec \<Rightarrow> unit result \<Rightarrow> unit result \<Rightarrow> bytes \<Rightarrow> Journal result" where
  "OpenJournal c truncated synced content =
     bindR (readJournal c (content, True)) (\<lambda>(m, entries, validBytes).
       let torn = validBytes < int (length content) in
       if torn \<and> \<not> is_ok truncated then invalid ''discard torn journal tail''
       else if torn \<and> \<not> is_ok synced then invalid ''sync repaired journal''
       else
         let kept = (if torn then take (nat validBytes) content else content) in
         Inr ((new_journal m)\<lparr>jn_entries := entries, jn_nextSeq := (if entries = [] then 1 else journalSeq (last entries) + 1),
           jn_diskBytes := int (length kept), jn_open := True, jn_file := kept, jn_stable := length kept\<rparr>))"

definition ValidateRecovery :: "State \<Rightarrow> Journal \<Rightarrow> unit result" where
  "ValidateRecovery state j =
     (let m = jn_metadata j; conflict = Inl (Wrap ''journal'' ErrJournalConflict) in
      if jm_Format m \<noteq> journalFormat \<or> jm_VolumeID m \<noteq> s_ID state \<or> jm_VolumeName m \<noteq> s_Name state \<or>
         jm_Size m \<noteq> s_Size state \<or> jm_BlockSize m \<noteq> s_BlockSize state then conflict
      else if s_Generation state < jm_BaseGeneration m then conflict
      else if s_Epoch state = jm_WriterEpoch m then
        (if s_Generation state = jm_BaseGeneration m \<and> s_Manifest state \<noteq> jm_BaseManifest m then conflict else Inr ())
      else
        let sameHolder = (case s_Lease state of None \<Rightarrow> False | Some rec \<Rightarrow> Holder rec = jm_Holder m);
            unchangedHead = (s_Generation state = jm_BaseGeneration m \<and> s_Manifest state = jm_BaseManifest m);
            resumedPublishedPrefix = (s_Epoch state = jm_WriterEpoch m + 1 \<and> s_Generation state > jm_BaseGeneration m)
        in if sameHolder \<and> (unchangedHead \<or> resumedPublishedPrefix) then Inr () else conflict)"

definition journal_usable :: "Journal \<Rightarrow> unit result" where
  "journal_usable j =
     (if jn_closed j then invalid ''local journal is closed'' else case jn_broken j of Some e \<Rightarrow> Inl e | None \<Rightarrow> Inr ())"

definition Rebase :: "jcodec \<Rightarrow> rewrite_io \<Rightarrow> State \<Rightarrow> Journal \<Rightarrow> Journal \<times> unit result" where
  "Rebase c io state j =
     (case journalMetadata state of
        Inl e \<Rightarrow> (j, Inl e)
      | Inr m \<Rightarrow>
          (case journal_usable j of
             Inl e \<Rightarrow> (j, Inl e)
           | Inr _ \<Rightarrow> rewriteLocked c io (j\<lparr>jn_metadata := m\<rparr>)))"

text \<open>\<open>Enqueue\<close> for the caller \<open>w\<close>: the journal, and the generation with its sequence number.\<close>

definition enqueue_barrier :: "nat \<Rightarrow> Journal \<Rightarrow> Journal" where
  "enqueue_barrier w j =
     (let err = (case jn_broken j of Some e \<Rightarrow> Some e | None \<Rightarrow> if jn_closed j then Some (Errorf ''local journal is closed'') else None) in
      if err = None \<and> jn_syncRunning j then
        (if jn_pendingData j = 0 then j\<lparr>jn_inflight := jn_inflight j @ [w]\<rparr> else j\<lparr>jn_pendingSync := jn_pendingSync j @ [w]\<rparr>)
      else jn_tell [w] err j)"

definition Journal_Enqueue ::
  "jcodec \<Rightarrow> (nat \<times> error option) list \<Rightarrow> nat \<Rightarrow> Generation option \<Rightarrow> Journal \<Rightarrow> Journal \<times> Generation option" where
  "Journal_Enqueue c script w g j =
     (if Generation_Empty g then (enqueue_barrier w j, g)
      else
        case journal_usable j of
          Inl e \<Rightarrow> (jn_tell [w] (Some e) j, g)
        | Inr _ \<Rightarrow>
            (case encodeJournalRecord c g (jn_nextSeq j) of
               Inl e \<Rightarrow> (jn_tell [w] (Some e) j, g)
             | Inr (record, g') \<Rightarrow>
                 (case (if jn_open j then writeAll script record else ([], Some (Errorf ''invalid argument''))) of
                    (written, Some e) \<Rightarrow>
                      let broken = Wrap ''append local journal'' e in
                      (jn_tell [w] (Some broken) (j\<lparr>jn_file := jn_file j @ written, jn_broken := Some broken\<rparr>), Some g')
                  | (written, None) \<Rightarrow>
                      (j\<lparr>jn_file := jn_file j @ written, jn_nextSeq := jn_nextSeq j + 1, jn_entries := jn_entries j @ [g'],
                         jn_diskBytes := jn_diskBytes j + int (length record), jn_pendingSync := jn_pendingSync j @ [w],
                         jn_pendingData := jn_pendingData j + 1, jn_syncRunning := True\<rparr>, Some g'))))"

text \<open>One round of \<open>syncPending\<close>: what it does before the flush, and after it.\<close>

definition sync_begin :: "Journal \<Rightarrow> Journal" where
  "sync_begin j =
     (if jn_pendingSync j = [] then j\<lparr>jn_syncRunning := False\<rparr>
      else j\<lparr>jn_syncing := Some (jn_pendingSync j, length (jn_file j)), jn_pendingSync := [], jn_pendingData := 0\<rparr>)"

definition sync_finish :: "unit result \<Rightarrow> Journal \<Rightarrow> Journal" where
  "sync_finish flushed j =
     (case jn_syncing j of
        None \<Rightarrow> j
      | Some (ws, covered) \<Rightarrow>
          let waiters = ws @ jn_inflight j; j1 = j\<lparr>jn_syncing := None, jn_inflight := []\<rparr> in
          case (if jn_open j then flushed else Inl (Errorf ''bad file descriptor'')) of
            Inl e \<Rightarrow>
              let broken = Wrap ''sync local journal'' e in
              jn_tell (waiters @ jn_pendingSync j) (Some broken)
                (j1\<lparr>jn_broken := Some broken, jn_pendingSync := [], jn_pendingData := 0, jn_syncRunning := False\<rparr>)
          | Inr _ \<Rightarrow>
              jn_tell waiters None
                (j1\<lparr>jn_stable := max covered (jn_stable j), jn_syncRunning := (jn_pendingSync j \<noteq> [])\<rparr>))"

definition Acknowledge :: "jcodec \<Rightarrow> rewrite_io \<Rightarrow> u64 \<Rightarrow> State \<Rightarrow> Journal \<Rightarrow> Journal \<times> unit result" where
  "Acknowledge c io sequence state j =
     (if sequence = 0 then (j, Inr ())
      else
        case journalMetadata state of
          Inl e \<Rightarrow> (j, Inl e)
        | Inr m \<Rightarrow>
            (case journal_usable j of
               Inl e \<Rightarrow> (j, Inl e)
             | Inr _ \<Rightarrow>
                 let gone = filter (\<lambda>g. journalSeq g \<le> sequence) (jn_entries j);
                     j1 = j\<lparr>jn_entries := filter (\<lambda>g. journalSeq g > sequence) (jn_entries j), jn_metadata := m,
                       jn_reclaimBytes := jn_reclaimBytes j + sum_list (map journalRecordSize gone)\<rparr>
                 in if jn_reclaimBytes j1 < jn_compactAfter j1 \<or> jn_reclaimBytes j1 * 2 < jn_diskBytes j1 then (j1, Inr ())
                    else
                      (case rewriteLocked c io j1 of
                         (j2, Inr _) \<Rightarrow> (j2, Inr ())
                       | (j2, Inl e) \<Rightarrow>
                           let broken = Wrap ''compact local journal'' e in (j2\<lparr>jn_broken := Some broken\<rparr>, Inl broken))))"

text \<open>\<open>Close\<close> marks the journal, waits for the flushing goroutine and then closes the file;
  \<open>closing\<close>, \<open>removing\<close> and \<open>dirsync\<close> are the outcomes of the last steps.\<close>

definition close_begin :: "Journal \<Rightarrow> Journal" where
  "close_begin j = j\<lparr>jn_closed := True\<rparr>"

definition close_finish :: "unit result \<Rightarrow> unit result \<Rightarrow> unit result \<Rightarrow> bool \<Rightarrow> Journal \<Rightarrow> Journal \<times> unit result" where
  "close_finish closing removing dirsync remove j =
     (j\<lparr>jn_open := False, jn_file := (if remove \<and> is_ok removing then [] else jn_file j)\<rparr>,
      if jn_open j \<and> \<not> is_ok closing then closing
      else if remove \<and> \<not> is_ok removing then removing
      else if remove \<and> \<not> is_ok dirsync then dirsync
      else Inr ())"

definition Journal_Entries :: "Journal \<Rightarrow> Generation list" where
  "Journal_Entries j = jn_entries j"

end
