(* ===== verification/JournalFile.thy ===== *)
theory JournalFile
  imports Journal "HOL-Library.Sublist"
begin

text \<open>
  What is written to the local journal is read back: headers, records, and a file that ends in
  the middle of a record.
\<close>

section \<open>Records\<close>

definition record_dims :: "Generation \<Rightarrow> bytes" where
  "record_dims g = PutUint64 (journalSeq g) @ PutUint32 (of_nat (length (sortedBlocks g))) @
     PutUint64 (word_of_int (int (length (sortedBlocks g)) * (8 + DefaultBlockSize)))"

definition record_of :: "jcodec \<Rightarrow> Generation \<Rightarrow> bytes" where
  "record_of c g =
     (let payload = journal_payload g (sortedBlocks g) in
      journalRecordMagic @ record_dims g @ digest_field (jc_sha256 c (record_dims g @ payload)) @ payload)"

text \<open>A generation a record can hold, for a volume of \<open>n\<close> blocks.\<close>

definition journal_fits :: "JournalMetadata \<Rightarrow> Generation \<Rightarrow> bool" where
  "journal_fits m g \<longleftrightarrow> \<not> Generation_Empty (Some g) \<and> wf_generation g \<and> length (sortedBlocks g) < 2 ^ 32 \<and>
     (\<forall>b \<in> set (sortedBlocks g). b < volume_blocks m)"

text \<open>What recovery makes of a generation: the same blocks, with the byte count recomputed.\<close>

definition recovered :: "Generation \<Rightarrow> Generation" where
  "recovered g = g\<lparr>gen_bytes := int (length (sortedBlocks g)) * DefaultBlockSize\<rparr>"

lemma sortedBlocks_seq [simp]: "sortedBlocks (g\<lparr>journalSeq := q\<rparr>) = sortedBlocks g"
  by (simp add: sortedBlocks_def)

lemma sortedBlocks_recovered [simp]: "sortedBlocks (recovered g) = sortedBlocks g" "journalSeq (recovered g) = journalSeq g"
  "gen_Blocks (recovered g) = gen_Blocks g"
  by (simp_all add: sortedBlocks_def recovered_def)

lemma block_data_seq [simp]: "block_data (g\<lparr>journalSeq := q\<rparr>) b = block_data g b"
  by (simp add: block_data_def)

lemma journal_payload_seq [simp]: "journal_payload (g\<lparr>journalSeq := q\<rparr>) bs = journal_payload g bs"
  by (simp add: journal_payload_def)

lemma encodeJournalRecord_Inr:
  assumes "encodeJournalRecord c g q = Inr (r, g')"
  obtains h where "g = Some h" "g' = h\<lparr>journalSeq := q\<rparr>" "r = record_of c g'" "\<not> Generation_Empty (Some g')"
    "wf_generation g'" "length (sortedBlocks g') < 2 ^ 32"
proof -
  from assms obtain h where h: "g = Some h"
    by (cases g) (auto simp: encodeJournalRecord_def Generation_Empty_def result_Inr)
  have "list_all (\<lambda>b. length (block_data h b) = BlockSize) (sortedBlocks h)"
    using assms h by (simp add: encodeJournalRecord_def Let_def split: if_splits)
  then have "wf_generation h"
    by (auto simp: list_all_iff wf_generation_def block_data_def fmdom_lookup split: option.splits)
  with assms h have "wf_generation g'" "g' = h\<lparr>journalSeq := q\<rparr>" "r = record_of c g'" "\<not> Generation_Empty (Some g')"
      "length (sortedBlocks g') < 2 ^ 32"
    by (auto simp: encodeJournalRecord_def Let_def record_of_def record_dims_def wf_generation_def Generation_Empty_def
        split: if_splits)
  with h that show thesis by blast
qed

lemma encodeJournalRecord_record_of:
  assumes "\<not> Generation_Empty (Some g)" "wf_generation g" "length (sortedBlocks g) < 2 ^ 32"
  shows "encodeJournalRecord c (Some g) (journalSeq g) = Inr (record_of c g, g)"
proof -
  have "list_all (\<lambda>b. length (block_data g b) = BlockSize) (sortedBlocks g)"
    using assms by (auto simp: list_all_iff wf_generation_def block_data_def fmdom_lookup)
  moreover have "\<not> int (length (sortedBlocks g)) * (8 + DefaultBlockSize) > 2 ^ 63 - 1 - int journalRecordHeader"
    using assms by (simp add: DefaultBlockSize_def journalRecordHeader_def)
  ultimately show ?thesis using assms by (simp add: encodeJournalRecord_def Let_def record_of_def record_dims_def)
qed

lemma journal_payload_Cons: "journal_payload g (b # bs) = PutUint64 b @ block_data g b @ journal_payload g bs"
  by (simp add: journal_payload_def)

lemma wf_block_data: "wf_generation g \<Longrightarrow> b \<in> set (sortedBlocks g) \<Longrightarrow> length (block_data g b) = BlockSize"
  by (auto simp: wf_generation_def block_data_def fmdom_lookup)

lemma read_blocks_payload:
  assumes "jm_BlockSize m = DefaultBlockSize" "distinct bs"
    "\<And>b. b \<in> set bs \<Longrightarrow> length (block_data g b) = BlockSize \<and> b < volume_blocks m \<and> fmlookup blocks b = None"
  shows "read_blocks (length bs) m (journal_payload g bs @ rest, eof) blocks hashed =
    Got (fmadd blocks (fmap_of_list (map (\<lambda>b. (b, block_data g b)) bs)), hashed @ journal_payload g bs, (rest, eof))"
  using assms(2,3)
proof (induction bs arbitrary: blocks hashed)
  case (Cons b bs)
  let ?blocks = "fmupd b (block_data g b) blocks"
  have "b < volume_blocks m" "fmlookup blocks b = None" "length (block_data g b) = BlockSize" using Cons.prems by auto
  moreover have "read_blocks (length bs) m (journal_payload g bs @ rest, eof) ?blocks (hashed @ PutUint64 b @ block_data g b) =
      Got (fmadd ?blocks (fmap_of_list (map (\<lambda>b. (b, block_data g b)) bs)), (hashed @ PutUint64 b @ block_data g b) @ journal_payload g bs, (rest, eof))"
    using Cons.prems by (intro Cons.IH) auto
  moreover have "fmadd ?blocks (fmap_of_list (map (\<lambda>b. (b, block_data g b)) bs)) =
      fmadd blocks (fmap_of_list (map (\<lambda>b. (b, block_data g b)) (b # bs)))"
    using Cons.prems(1)
    by (intro fmap_ext) (auto simp: fmlookup_of_list map_of_map_restrict restrict_map_def fset_of_list.rep_eq)
  ultimately show ?case
    using assms(1) by (simp add: journal_payload_Cons Let_def not_le flip: BlockSize_def)
qed (simp add: journal_payload_def)

lemma torn_or_ReadFull: "length p < n \<Longrightarrow> (case io_ReadFull n (p, True) of Inl e \<Rightarrow> torn_or e | Inr x \<Rightarrow> f x) = Torn"
  by (simp add: io_ReadFull_def torn_or_def)

lemma read_blocks_torn:
  assumes "jm_BlockSize m = DefaultBlockSize" "distinct bs"
    "\<And>b. b \<in> set bs \<Longrightarrow> length (block_data g b) = BlockSize \<and> b < volume_blocks m \<and> fmlookup blocks b = None"
    "n < length (journal_payload g bs)"
  shows "read_blocks (length bs) m (take n (journal_payload g bs), True) blocks hashed = Torn"
  using assms(2-)
proof (induction bs arbitrary: blocks hashed n)
  case (Cons b bs)
  have b: "b < volume_blocks m" "fmlookup blocks b = None" "length (block_data g b) = BlockSize" using Cons.prems by auto
  have bs: "nat (jm_BlockSize m) = BlockSize" using assms(1) by (simp add: BlockSize_def)
  show ?case
  proof (cases "n < 8")
    case True
    then show ?thesis by (simp add: journal_payload_Cons torn_or_ReadFull)
  next
    case n8: False
    then have r1: "io_ReadFull 8 (take n (journal_payload g (b # bs)), True) =
        Inr (PutUint64 b, (take (n - 8) (block_data g b @ journal_payload g bs), True))"
      by (simp add: journal_payload_Cons ReadFull_append)
    show ?thesis
    proof (cases "n - 8 < BlockSize")
      case True
      then show ?thesis using b by (simp add: r1 bs Let_def not_le torn_or_ReadFull)
    next
      case False
      have r2: "io_ReadFull BlockSize (take (n - 8) (block_data g b @ journal_payload g bs), True) =
          Inr (block_data g b, (take (n - 8 - BlockSize) (journal_payload g bs), True))"
        using False b(3) by (simp add: ReadFull_append)
      have "read_blocks (length bs) m (take (n - 8 - BlockSize) (journal_payload g bs), True) (fmupd b (block_data g b) blocks)
          (hashed @ PutUint64 b @ block_data g b) = Torn"
        using Cons.prems n8 False b by (intro Cons.IH) (auto simp: journal_payload_Cons)
      then show ?thesis using b by (simp add: r1 r2 bs Let_def not_le del: take_append)
    qed
  qed
qed (simp add: journal_payload_def)

lemma journal_magic [simp]: "length journalRecordMagic = 8" "length journalHeaderMagic = 8"
  by (simp_all add: journalRecordMagic_def journalHeaderMagic_def string_bytes_def)

lemma digest_field_length [simp]: "length (digest_field d) = 32"
  by (simp add: digest_field_def)

lemma digest_field_id: "length d = 32 \<Longrightarrow> digest_field d = d"
  by (simp add: digest_field_def)

lemma record_dims_length [simp]: "length (record_dims g) = 20"
  by (simp add: record_dims_def)

definition record_header :: "jcodec \<Rightarrow> Generation \<Rightarrow> bytes" where
  "record_header c g = journalRecordMagic @ record_dims g @ digest_field (jc_sha256 c (record_dims g @ journal_payload g (sortedBlocks g)))"

lemma record_header_length [simp]: "length (record_header c g) = 60"
  by (simp add: record_header_def)

lemma record_of_header: "record_of c g = record_header c g @ journal_payload g (sortedBlocks g)"
  by (simp add: record_of_def record_header_def Let_def)

lemma record_header_fields:
  "take 8 (record_header c g) = journalRecordMagic"
  "Uint64 (take 8 (drop 8 (record_header c g))) = journalSeq g"
  "Uint32 (take 4 (drop 16 (record_header c g))) = of_nat (length (sortedBlocks g))"
  "Uint64 (take 8 (drop 20 (record_header c g))) = word_of_int (int (length (sortedBlocks g)) * (8 + DefaultBlockSize))"
  "take 20 (drop 8 (record_header c g)) = record_dims g"
  "take 32 (drop 28 (record_header c g)) = digest_field (jc_sha256 c (record_dims g @ journal_payload g (sortedBlocks g)))"
  by (simp_all add: record_header_def record_dims_def)

lemma count_fits:
  assumes "journal_fits m g"
  shows "unat (ucast (of_nat (length (sortedBlocks g)) :: u32) :: u64) = length (sortedBlocks g)"
    "(ucast (of_nat (length (sortedBlocks g)) :: u32) :: u64) \<noteq> 0"
    "(ucast (of_nat (length (sortedBlocks g)) :: u32) :: u64) \<le> volume_blocks m"
    "word_of_int (int (length (sortedBlocks g)) * (8 + DefaultBlockSize)) = (ucast (of_nat (length (sortedBlocks g)) :: u32) :: u64) * of_nat (8 + BlockSize)"
proof -
  let ?n = "length (sortedBlocks g)" and ?w = "ucast (of_nat (length (sortedBlocks g)) :: u32) :: u64"
  have lt: "?n < 2 ^ 32" and ne: "sortedBlocks g \<noteq> []" and sub: "set (sortedBlocks g) \<subseteq> {b. b < volume_blocks m}"
    using assms by (auto simp: journal_fits_def sortedBlocks_Nil)
  show u: "unat ?w = ?n" using lt by (simp add: unsigned_ucast_eq unsigned_of_nat take_bit_nat_eq_self)
  show "?w \<noteq> 0" using u ne by (metis length_0_conv unat_0)
  have "?n = card (set (sortedBlocks g))" by (simp add: distinct_card distinct_sortedBlocks del: set_sortedBlocks)
  also have "\<dots> \<le> card {b. b < volume_blocks m}" using sub by (intro card_mono) auto
  also have "\<dots> = card (unat ` {b. b < volume_blocks m})" by (simp add: card_image inj_on_def word_unat_eq_iff)
  also have "\<dots> \<le> card {..< unat (volume_blocks m)}"
    by (intro card_mono) (auto simp: word_less_nat_alt)
  finally show "?w \<le> volume_blocks m" using u by (simp add: word_le_nat_alt)
  have "?w = of_nat ?n" using u by (simp add: word_unat_eq_iff unat_of_nat64 less_trans [OF lt])
  then show "word_of_int (int ?n * (8 + DefaultBlockSize)) = ?w * of_nat (8 + BlockSize)"
    by (simp add: DefaultBlockSize_def BlockSize_def)
qed

definition jcodec_ok :: "jcodec \<Rightarrow> bool" where
  "jcodec_ok c \<longleftrightarrow> (\<forall>x. length (jc_sha256 c x) = 32)"

lemma record_blocks: "wf_generation g \<Longrightarrow> fmap_of_list (map (\<lambda>b. (b, block_data g b)) (sortedBlocks g)) = gen_Blocks g"
  by (intro fmap_ext) (auto simp: fmlookup_of_list map_of_map_restrict restrict_map_def block_data_def fmdom_lookup split: option.splits)

lemma read_record_record:
  assumes "jcodec_ok c" "jm_BlockSize m = DefaultBlockSize" "journal_fits m g" "q < journalSeq g"
  shows "read_record c m q (record_of c g @ rest, eof) = Got (recovered g, (rest, eof))"
proof -
  note fits = assms(3) [unfolded journal_fits_def]
  let ?w = "ucast (of_nat (length (sortedBlocks g)) :: u32) :: u64"
  have r: "io_ReadFull journalRecordHeader (record_of c g @ rest, eof) =
      Inr (record_header c g, (journal_payload g (sortedBlocks g) @ rest, eof))"
    by (simp add: record_of_header journalRecordHeader_def ReadFull_append)
  have b: "read_blocks (unat ?w) m (journal_payload g (sortedBlocks g) @ rest, eof) fmempty (record_dims g) =
      Got (gen_Blocks g, record_dims g @ journal_payload g (sortedBlocks g), (rest, eof))"
    using fits assms(2) read_blocks_payload [of m "sortedBlocks g" g fmempty rest eof "record_dims g"]
    by (simp add: count_fits(1) [OF assms(3)] distinct_sortedBlocks wf_block_data record_blocks)
  have "\<not> volume_blocks m < ?w" "\<not> journalSeq g \<le> q" using count_fits(3) [OF assms(3)] assms(4) by simp_all
  moreover have "uint ?w = int (length (sortedBlocks g))" using count_fits(1) [OF assms(3)] by (metis uint_nat)
  ultimately show ?thesis
    using assms(1,2) count_fits(2,4) [OF assms(3)]
    by (simp add: read_record_def r b record_header_fields Let_def jcodec_ok_def digest_field_id recovered_def)
qed

lemma read_record_torn:
  assumes "jm_BlockSize m = DefaultBlockSize" "journal_fits m g" "q < journalSeq g" "n < length (record_of c g)"
  shows "read_record c m q (take n (record_of c g), True) = Torn"
proof (cases "n < 60")
  case True
  then show ?thesis using assms(4) by (simp add: read_record_def journalRecordHeader_def torn_or_ReadFull)
next
  case False
  note fits = assms(2) [unfolded journal_fits_def]
  let ?w = "ucast (of_nat (length (sortedBlocks g)) :: u32) :: u64"
  have r: "io_ReadFull journalRecordHeader (take n (record_of c g), True) =
      Inr (record_header c g, (take (n - 60) (journal_payload g (sortedBlocks g)), True))"
    using False by (simp add: record_of_header journalRecordHeader_def ReadFull_append)
  have b: "read_blocks (unat ?w) m (take (n - 60) (journal_payload g (sortedBlocks g)), True) fmempty (record_dims g) = Torn"
    unfolding count_fits(1) [OF assms(2)] using assms(1,4) fits False
    by (intro read_blocks_torn) (auto simp: distinct_sortedBlocks wf_block_data record_of_header)
  have "\<not> volume_blocks m < ?w" "\<not> journalSeq g \<le> q" using count_fits(3) [OF assms(2)] assms(3) by simp_all
  then show ?thesis
    using count_fits(2,4) [OF assms(2)] by (simp add: read_record_def r b record_header_fields Let_def)
qed

section \<open>Files\<close>

text \<open>The records of a journal: each fits and the sequence numbers increase.\<close>

definition journal_sequence :: "JournalMetadata \<Rightarrow> Generation list \<Rightarrow> bool" where
  "journal_sequence m gs \<longleftrightarrow> (\<forall>g \<in> set gs. journal_fits m g) \<and> sorted_wrt (<) (0 # map journalSeq gs)"

definition records_of :: "jcodec \<Rightarrow> Generation list \<Rightarrow> bytes" where
  "records_of c gs = concat (map (record_of c) gs)"

definition valid_metadata :: "JournalMetadata \<Rightarrow> bool" where
  "valid_metadata m \<longleftrightarrow> jm_Format m = journalFormat \<and> jm_VolumeID m \<noteq> [] \<and> jm_VolumeName m \<noteq> [] \<and> jm_Size m > 0 \<and>
     jm_BlockSize m = DefaultBlockSize"

lemma journalHeader_Inr:
  "journalHeader c m = Inr h \<Longrightarrow> h = journalHeaderMagic @ PutUint32 (of_nat (length (jc_marshal c m))) @ jc_marshal c m @ jc_sha256 c (jc_marshal c m)
     \<and> 0 < length (jc_marshal c m) \<and> length (jc_marshal c m) \<le> maxJournalMetadata"
  by (auto simp: journalHeader_def Let_def split: if_splits)

lemma readJournal_header:
  assumes "jcodec_ok c" "journalHeader c m = Inr h" "jc_unmarshal c (jc_marshal c m) = Inr m" "valid_metadata m"
  shows "readJournal c (h @ s, True) = bindR (read_records c m 0 (int (length h)) (s, True)) (\<lambda>(gs, offset). Inr (m, gs, offset))"
proof -
  let ?b = "jc_marshal c m"
  note h = journalHeader_Inr [OF assms(2)]
  have n: "unat (of_nat (length ?b) :: u32) = length ?b" using h by (simp add: unsigned_of_nat take_bit_nat_eq_self maxJournalMetadata_def)
  have r: "io_ReadFull journalHeaderPrefix (h @ s, True) = Inr (journalHeaderMagic @ PutUint32 (of_nat (length ?b)), (?b @ jc_sha256 c ?b @ s, True))"
    using h ReadFull_append [of "journalHeaderMagic @ PutUint32 (of_nat (length ?b))" 12] by (simp add: journalHeaderPrefix_def)
  have "length (jc_sha256 c ?b) = 32" using assms(1) by (simp add: jcodec_ok_def)
  moreover have "length h = journalHeaderPrefix + length ?b + 32" using h calculation by (simp add: journalHeaderPrefix_def)
  ultimately show ?thesis
    using assms(3,4) h unfolding readJournal_def r by (simp add: n Let_def ReadFull_append valid_metadata_def journalHeaderPrefix_def)
qed

text \<open>A file cut anywhere after its header: the records that are completely there are read, and
  the next one is torn.\<close>

fun whole_records :: "jcodec \<Rightarrow> nat \<Rightarrow> Generation list \<Rightarrow> Generation list" where
  "whole_records c k [] = []"
| "whole_records c k (g # gs) =
     (if length (record_of c g) \<le> k then g # whole_records c (k - length (record_of c g)) gs else [])"

lemma records_of_simps [simp]: "records_of c [] = []" "records_of c (g # gs) = record_of c g @ records_of c gs"
  "records_of c (gs @ hs) = records_of c gs @ records_of c hs"
  by (simp_all add: records_of_def)

lemma whole_records_prefix: "prefix (whole_records c k gs) gs"
  by (induction c k gs rule: whole_records.induct) auto

lemma whole_records_fit: "length (records_of c (whole_records c k gs)) \<le> k"
  by (induction c k gs rule: whole_records.induct) auto

lemma whole_records_all: "length (records_of c gs) \<le> k \<Longrightarrow> prefix gs (whole_records c k (gs @ hs))"
  by (induction gs arbitrary: k) auto

lemma read_records_cut:
  assumes "jcodec_ok c" "jm_BlockSize m = DefaultBlockSize" "\<forall>g \<in> set gs. journal_fits m g" "sorted_wrt (<) (q # map journalSeq gs)"
  shows "read_records c m q off (take k (records_of c gs), True) =
    Inr (map recovered (whole_records c k gs), off + int (length (records_of c (whole_records c k gs))))"
  using assms(3-)
proof (induction gs arbitrary: q off k)
  case Nil
  have "read_record c m q ([], True) = Torn" by (simp add: read_record_def io_ReadFull_def journalRecordHeader_def torn_or_def)
  then show ?case by (simp add: read_records.simps)
next
  case (Cons g gs)
  show ?case
  proof (cases "length (record_of c g) \<le> k")
    case True
    let ?k = "k - length (record_of c g)"
    have "take k (records_of c (g # gs)) = record_of c g @ take ?k (records_of c gs)" using True by simp
    moreover have "read_record c m q (record_of c g @ take ?k (records_of c gs), True) = Got (recovered g, (take ?k (records_of c gs), True))"
      using Cons.prems assms(1,2) by (intro read_record_record) auto
    moreover have "read_records c m (journalSeq g) (off + int (length (record_of c g))) (take ?k (records_of c gs), True) =
        Inr (map recovered (whole_records c ?k gs), off + int (length (record_of c g)) + int (length (records_of c (whole_records c ?k gs))))"
      using Cons.prems by (intro Cons.IH) auto
    ultimately show ?thesis using True by (simp add: read_records.simps [of c m q])
  next
    case False
    then have "read_record c m q (take k (record_of c g), True) = Torn"
      using Cons.prems assms(2) by (intro read_record_torn) auto
    then show ?thesis using False by (simp add: read_records.simps)
  qed
qed

text \<open>Metadata the reader accepts and the JSON codec carries over.\<close>

definition good_metadata :: "jcodec \<Rightarrow> JournalMetadata \<Rightarrow> bool" where
  "good_metadata c m \<longleftrightarrow> valid_metadata m \<and> jc_unmarshal c (jc_marshal c m) = Inr m"

lemma readJournal_cut:
  assumes "jcodec_ok c" "good_metadata c m" "journalHeader c m = Inr h" "journal_sequence m gs" "length h \<le> k"
  shows "readJournal c (take k (h @ records_of c gs), True) =
    Inr (m, map recovered (whole_records c (k - length h) gs), int (length (h @ records_of c (whole_records c (k - length h) gs))))"
  using assms read_records_cut [of c m gs 0 "int (length h)" "k - length h"]
  by (simp add: readJournal_header good_metadata_def journal_sequence_def valid_metadata_def)

end
