(* ===== verification/JournalRun.thy ===== *)
theory JournalRun
  imports JournalFile "HOL-Library.Multiset"
begin

text \<open>
  The local journal at work: callers enqueue generations and barriers while the flushing
  goroutine runs, published generations are acknowledged and the file is compacted, and the
  machine may crash at any moment. What a caller was promised survives the crash.
\<close>

section \<open>Runs\<close>

text \<open>The journal with what a run has to remember: every generation that was appended, the
  highest sequence number each caller was promised, and the highest one acknowledged as
  published.\<close>

record jrun =
  jr_journal :: Journal
  jr_all :: "Generation list"
  jr_promise :: "nat \<rightharpoonup> u64"
  jr_done :: u64

definition appended :: "Journal \<Rightarrow> Journal \<times> Generation option \<Rightarrow> Generation list" where
  "appended j r = (if length (jn_entries j) < length (jn_entries (fst r)) then [the (snd r)] else [])"

definition in_volume :: "JournalMetadata \<Rightarrow> Generation option \<Rightarrow> bool" where
  "in_volume m g \<longleftrightarrow> (case g of None \<Rightarrow> True | Some h \<Rightarrow> \<forall>b \<in> set (sortedBlocks h). b < volume_blocks m)"

text \<open>\<open>Acknowledge\<close>, \<open>Rebase\<close> and the first part of \<open>Close\<close> hold the mutex of the flush, so they
  do not run during one. The state they are given belongs to the same volume. Sequence numbers do
  not reach their maximum.\<close>

inductive journal_step :: "jcodec \<Rightarrow> jrun \<Rightarrow> jrun \<Rightarrow> bool" for c where
  enqueued: "w \<notin> dom (jr_promise r) \<Longrightarrow> in_volume (jn_metadata (jr_journal r)) g \<Longrightarrow> jn_nextSeq (jr_journal r) < - 1 \<Longrightarrow>
    res = Journal_Enqueue c script w g (jr_journal r) \<Longrightarrow>
    journal_step c r (r\<lparr>jr_journal := fst res, jr_all := jr_all r @ appended (jr_journal r) res,
      jr_promise := (jr_promise r)(w \<mapsto> jn_nextSeq (fst res) - 1)\<rparr>)"
| sync_started: "jn_syncRunning (jr_journal r) \<Longrightarrow> jn_syncing (jr_journal r) = None \<Longrightarrow>
    journal_step c r (r\<lparr>jr_journal := sync_begin (jr_journal r)\<rparr>)"
| sync_ended: "jn_syncing (jr_journal r) \<noteq> None \<Longrightarrow> journal_step c r (r\<lparr>jr_journal := sync_finish flushed (jr_journal r)\<rparr>)"
| acknowledged: "jn_syncing (jr_journal r) = None \<Longrightarrow> journalMetadata state = Inr m \<Longrightarrow> good_metadata c m \<Longrightarrow>
    volume_blocks m = volume_blocks (jn_metadata (jr_journal r)) \<Longrightarrow>
    journal_step c r (r\<lparr>jr_journal := fst (Acknowledge c io q state (jr_journal r)), jr_done := max (jr_done r) q\<rparr>)"
| rebased: "jn_syncing (jr_journal r) = None \<Longrightarrow> journalMetadata state = Inr m \<Longrightarrow> good_metadata c m \<Longrightarrow>
    volume_blocks m = volume_blocks (jn_metadata (jr_journal r)) \<Longrightarrow>
    journal_step c r (r\<lparr>jr_journal := fst (Rebase c io state (jr_journal r))\<rparr>)"
| closing: "jn_syncing (jr_journal r) = None \<Longrightarrow> journal_step c r (r\<lparr>jr_journal := close_begin (jr_journal r)\<rparr>)"
| closed: "jn_closed (jr_journal r) \<Longrightarrow> \<not> jn_syncRunning (jr_journal r) \<Longrightarrow>
    journal_step c r (r\<lparr>jr_journal := fst (close_finish a b d False (jr_journal r))\<rparr>)"

text \<open>A run starts with a new journal or with one recovered from a file that may be cut off.\<close>

definition journal_start :: "jcodec \<Rightarrow> jrun \<Rightarrow> bool" where
  "journal_start c r \<longleftrightarrow> jr_promise r = Map.empty \<and> jr_done r = 0 \<and> jr_all r = jn_entries (jr_journal r) \<and>
     ((\<exists>io state m. journalMetadata state = Inr m \<and> good_metadata c m \<and> CreateJournal c io state = Inr (jr_journal r)) \<or>
      (\<exists>truncated synced k m h gs. good_metadata c m \<and> journalHeader c m = Inr h \<and> journal_sequence m gs \<and> length h \<le> k \<and>
         OpenJournal c truncated synced (take k (h @ records_of c gs)) = Inr (jr_journal r) \<and>
         jn_nextSeq (jr_journal r) \<noteq> 0))"

section \<open>The invariant\<close>

text \<open>What holds whatever happens to the file: the entries are in order, and every generation
  appended and not yet published is one of them.\<close>

definition entries_inv :: "jcodec \<Rightarrow> jrun \<Rightarrow> bool" where
  "entries_inv c r \<longleftrightarrow>
     (let j = jr_journal r in
      good_metadata c (jn_metadata j) \<and> journal_sequence (jn_metadata j) (jn_entries j) \<and> jn_nextSeq j \<noteq> 0 \<and>
      (\<forall>g \<in> set (jn_entries j). journalSeq g < jn_nextSeq j) \<and> (\<forall>w q. jr_promise r w = Some q \<longrightarrow> q < jn_nextSeq j) \<and>
      (\<forall>g \<in> set (jr_all r). journalSeq g > jr_done r \<longrightarrow> g \<in> set (jn_entries j)))"

definition callers :: "Journal \<Rightarrow> nat list" where
  "callers j = map fst (jn_told j) @ jn_pendingSync j @ jn_inflight j @ (case jn_syncing j of None \<Rightarrow> [] | Some (ws, _) \<Rightarrow> ws)"

text \<open>Who waits for what: callers wait only while the goroutine runs, and those without data of
  their own join the flush under way exactly when it covers everything.\<close>

definition waiters_inv :: "jrun \<Rightarrow> bool" where
  "waiters_inv r \<longleftrightarrow>
     (let j = jr_journal r in
      (jn_pendingSync j = [] \<longleftrightarrow> jn_pendingData j = 0) \<and>
      (jn_syncRunning j \<longleftrightarrow> jn_pendingSync j \<noteq> [] \<or> jn_syncing j \<noteq> None) \<and>
      (jn_syncing j = None \<longrightarrow> jn_inflight j = []) \<and>
      distinct (callers j) \<and> set (callers j) = dom (jr_promise r))"

text \<open>Every record up to number \<open>q\<close> lies within the first \<open>n\<close> bytes.\<close>

definition within :: "jcodec \<Rightarrow> bytes \<Rightarrow> Generation list \<Rightarrow> nat \<Rightarrow> u64 \<Rightarrow> bool" where
  "within c h gs n q \<longleftrightarrow> (\<exists>gs1 gs2. gs = gs1 @ gs2 \<and> length (h @ records_of c gs1) \<le> n \<and> (\<forall>g \<in> set gs2. q < journalSeq g))"

text \<open>What the callers \<open>ws\<close> were promised lies within the first \<open>n\<close> bytes.\<close>

definition kept :: "jcodec \<Rightarrow> bytes \<Rightarrow> Generation list \<Rightarrow> (nat \<rightharpoonup> u64) \<Rightarrow> nat \<Rightarrow> nat list \<Rightarrow> bool" where
  "kept c h gs promise n ws \<longleftrightarrow> (\<forall>w \<in> set ws. within c h gs n (the (promise w)))"

definition satisfied :: "Journal \<Rightarrow> nat list" where
  "satisfied j = map fst (filter (\<lambda>(w, err). err = None) (jn_told j))"

text \<open>The file holds a header and records, the last possibly cut; what a caller waits for lies
  within what the flush it waits for covers.\<close>

definition file_inv :: "jcodec \<Rightarrow> jrun \<Rightarrow> JournalMetadata \<Rightarrow> bytes \<Rightarrow> Generation list \<Rightarrow> bool" where
  "file_inv c r m h gs \<longleftrightarrow>
     (let j = jr_journal r in
      good_metadata c m \<and> journalHeader c m = Inr h \<and> volume_blocks m = volume_blocks (jn_metadata j) \<and> journal_sequence m gs \<and>
      (\<forall>g \<in> set (jr_all r). journalSeq g > jr_done r \<longrightarrow> g \<in> set gs) \<and>
      prefix (jn_file j) (h @ records_of c gs) \<and> length h \<le> jn_stable j \<and> jn_stable j \<le> length (jn_file j) \<and>
      (jn_broken j = None \<longrightarrow> length h + length (records_of c gs) \<le> length (jn_file j)) \<and> (jn_broken j = None \<longrightarrow> (\<forall>g \<in> set gs. journalSeq g < jn_nextSeq j)) \<and>
      (jn_broken j = None \<longrightarrow> \<not> jn_syncRunning j \<longrightarrow> jn_stable j = length (jn_file j)) \<and>
      kept c h gs (jr_promise r) (jn_stable j) (satisfied j) \<and>
      kept c h gs (jr_promise r) (length (jn_file j)) (jn_pendingSync j) \<and>
      (\<forall>ws n. jn_syncing j = Some (ws, n) \<longrightarrow>
         n \<le> length (jn_file j) \<and> (jn_broken j = None \<longrightarrow> jn_pendingData j = 0 \<longrightarrow> n = length (jn_file j)) \<and>
         kept c h gs (jr_promise r) n (ws @ jn_inflight j)))"

definition journal_inv :: "jcodec \<Rightarrow> jrun \<Rightarrow> bool" where
  "journal_inv c r \<longleftrightarrow> entries_inv c r \<and> waiters_inv r \<and>
     (jn_old (jr_journal r) = None \<longrightarrow> (\<exists>m h gs. file_inv c r m h gs))"

section \<open>Preservation\<close>

lemma jn_tell_sel [simp]:
  "jn_told (jn_tell ws e j) = jn_told j @ map (\<lambda>w. (w, e)) ws" "jn_entries (jn_tell ws e j) = jn_entries j" "jn_file (jn_tell ws e j) = jn_file j"
  "jn_stable (jn_tell ws e j) = jn_stable j" "jn_nextSeq (jn_tell ws e j) = jn_nextSeq j" "jn_metadata (jn_tell ws e j) = jn_metadata j"
  "jn_pendingSync (jn_tell ws e j) = jn_pendingSync j" "jn_pendingData (jn_tell ws e j) = jn_pendingData j" "jn_inflight (jn_tell ws e j) = jn_inflight j"
  "jn_syncRunning (jn_tell ws e j) = jn_syncRunning j" "jn_syncing (jn_tell ws e j) = jn_syncing j" "jn_broken (jn_tell ws e j) = jn_broken j"
  "jn_old (jn_tell ws e j) = jn_old j" "jn_open (jn_tell ws e j) = jn_open j" "jn_closed (jn_tell ws e j) = jn_closed j"
  by (simp_all add: jn_tell_def)

lemma writeAll_prefix: "writeAll script data = (x, e) \<Longrightarrow> prefix x data \<and> (e = None \<longrightarrow> x = data)"
proof (induction script data arbitrary: x rule: writeAll.induct)
  case (2 n err script data)
  obtain y e' where y: "writeAll script (drop n data) = (y, e')" by fastforce
  have "prefix (take n data @ y) (take n data @ drop n data)" if "prefix y (drop n data)"
    using that by (simp only: same_prefix_prefix)
  with 2 y show ?case by (auto simp: take_is_prefix split: option.splits if_splits)
qed simp

text \<open>The ways an enqueue can go.\<close>

lemma enqueue_barrier_cases:
  assumes "j' = enqueue_barrier w j"
  obtains
    (told) e where "j' = jn_tell [w] (Some e) j"
  | (idle) "j' = jn_tell [w] None j" "jn_broken j = None" "\<not> jn_syncRunning j"
  | (joined) "j' = j\<lparr>jn_inflight := jn_inflight j @ [w]\<rparr>" "jn_broken j = None" "jn_syncRunning j" "jn_pendingData j = 0"
  | (queued) "j' = j\<lparr>jn_pendingSync := jn_pendingSync j @ [w]\<rparr>" "jn_broken j = None" "jn_syncRunning j" "jn_pendingData j \<noteq> 0"
proof (cases "jn_broken j")
  case (Some e)
  show thesis by (rule told [of e]) (simp add: assms enqueue_barrier_def Some)
next
  case broken: None
  show thesis
  proof (cases "jn_closed j \<or> \<not> jn_syncRunning j")
    case True
    show thesis
    proof (cases "jn_closed j")
      case True
      show thesis by (rule told [of "Errorf ''local journal is closed''"]) (simp add: assms enqueue_barrier_def broken True)
    next
      case False
      with \<open>jn_closed j \<or> \<not> jn_syncRunning j\<close> show thesis
        by (intro idle) (simp_all add: assms enqueue_barrier_def broken)
    qed
  next
    case False
    show thesis
    proof (cases "jn_pendingData j = 0")
      case True
      show thesis by (rule joined) (use False True in \<open>simp_all add: assms enqueue_barrier_def broken\<close>)
    next
      case pending: False
      show thesis by (rule queued) (use False pending in \<open>simp_all add: assms enqueue_barrier_def broken\<close>)
    qed
  qed
qed

lemma Journal_Enqueue_cases:
  assumes "Journal_Enqueue c script w g j = (j', g')"
  obtains
    (told) e where "j' = jn_tell [w] (Some e) j"
  | (idle) "j' = jn_tell [w] None j" "jn_broken j = None" "\<not> jn_syncRunning j"
  | (joined) "j' = j\<lparr>jn_inflight := jn_inflight j @ [w]\<rparr>" "jn_broken j = None" "jn_syncRunning j" "jn_pendingData j = 0"
  | (queued) "j' = j\<lparr>jn_pendingSync := jn_pendingSync j @ [w]\<rparr>" "jn_broken j = None" "jn_syncRunning j" "jn_pendingData j \<noteq> 0"
  | (failed) h e written where "encodeJournalRecord c g (jn_nextSeq j) = Inr (record_of c h, h)" "prefix written (record_of c h)" "jn_broken j = None"
      "j' = jn_tell [w] (Some e) (j\<lparr>jn_file := jn_file j @ written, jn_broken := Some e\<rparr>)"
  | (stored) h where "encodeJournalRecord c g (jn_nextSeq j) = Inr (record_of c h, h)" "jn_broken j = None" "g' = Some h"
      "j' = j\<lparr>jn_file := jn_file j @ record_of c h, jn_nextSeq := jn_nextSeq j + 1, jn_entries := jn_entries j @ [h],
              jn_diskBytes := jn_diskBytes j + int (length (record_of c h)), jn_pendingSync := jn_pendingSync j @ [w],
              jn_pendingData := jn_pendingData j + 1, jn_syncRunning := True\<rparr>"
proof -
  show thesis
  proof (cases "Generation_Empty g")
    case True
    then have "j' = enqueue_barrier w j" using assms by (simp add: Journal_Enqueue_def)
    then show thesis
    proof (cases rule: enqueue_barrier_cases)
      case (told e) then show thesis by (rule that(1))
    next
      case idle then show thesis by (rule that(2))
    next
      case joined then show thesis by (rule that(3))
    next
      case queued then show thesis by (rule that(4))
    qed
  next
    case False
    show thesis
    proof (cases "journal_usable j")
      case (Inl e)
      then show thesis using assms False told by (auto simp: Journal_Enqueue_def)
    next
      case (Inr u)
      then have nb: "jn_broken j = None" by (auto simp: journal_usable_def split: if_splits option.splits)
      show thesis
      proof (cases "encodeJournalRecord c g (jn_nextSeq j)")
        case (Inl e)
        then show thesis using assms False Inr told by (auto simp: Journal_Enqueue_def)
      next
        case enc: (Inr p)
        obtain rec h where p: "p = (rec, h)" by (cases p)
        then have rec: "rec = record_of c h" using enc by (auto elim: encodeJournalRecord_Inr)
        obtain x e where x: "(if jn_open j then writeAll script rec else ([], Some (Errorf ''invalid argument''))) = (x, e)" by fastforce
        then have pre: "case e of None \<Rightarrow> x = rec | Some _ \<Rightarrow> prefix x rec" using writeAll_prefix [of script rec] by (auto split: if_splits option.splits)
        have res: "(j', g') = (case (x, e) of
            (written, Some e) \<Rightarrow>
              let broken = Wrap ''append local journal'' e in
              (jn_tell [w] (Some broken) (j\<lparr>jn_file := jn_file j @ written, jn_broken := Some broken\<rparr>), Some h)
          | (written, None) \<Rightarrow>
              (j\<lparr>jn_file := jn_file j @ written, jn_nextSeq := jn_nextSeq j + 1, jn_entries := jn_entries j @ [h],
                 jn_diskBytes := jn_diskBytes j + int (length rec), jn_pendingSync := jn_pendingSync j @ [w],
                 jn_pendingData := jn_pendingData j + 1, jn_syncRunning := True\<rparr>, Some h))"
          using assms False by (simp add: Journal_Enqueue_def Inr enc p x)
        show thesis
        proof (cases e)
          case None
          then show thesis using res pre enc p rec nb by (intro stored [of h]) simp_all
        next
          case (Some e')
          then show thesis using res pre enc p rec nb by (intro failed [of h x "Wrap ''append local journal'' e'"]) (simp_all add: Let_def)
        qed
      qed
    qed
  qed
qed

text \<open>What \<open>Acknowledge\<close> and \<open>Rebase\<close> leave alone, and the ways the file can come out of them.\<close>

definition same_waiters :: "Journal \<Rightarrow> Journal \<Rightarrow> bool" where
  "same_waiters j j' \<longleftrightarrow> jn_nextSeq j' = jn_nextSeq j \<and> jn_pendingSync j' = jn_pendingSync j \<and> jn_pendingData j' = jn_pendingData j \<and>
     jn_inflight j' = jn_inflight j \<and> jn_syncRunning j' = jn_syncRunning j \<and> jn_syncing j' = jn_syncing j \<and> jn_told j' = jn_told j"

definition reorganised :: "jcodec \<Rightarrow> u64 \<Rightarrow> JournalMetadata \<Rightarrow> Journal \<Rightarrow> Journal \<Rightarrow> bool" where
  "reorganised c q m j j' \<longleftrightarrow> same_waiters j j' \<and> jn_broken j = None \<and> jn_metadata j' = m \<and>
     jn_entries j' = filter (\<lambda>g. journalSeq g > q) (jn_entries j) \<and>
     (jn_file j' = jn_file j \<and> jn_stable j' = jn_stable j \<and> jn_old j' = jn_old j \<or> jn_old j' \<noteq> None \<or>
      (\<exists>content. journal_content c m (jn_entries j') = Inr content \<and> jn_file j' = content \<and> jn_stable j' = length content))"

lemma rewriteLocked_reorganised:
  assumes "jn_broken j0 = None" "same_waiters j0 j" "jn_entries j = filter (\<lambda>g. journalSeq g > q) (jn_entries j0)" "jn_metadata j = m"
    "jn_file j = jn_file j0" "jn_stable j = jn_stable j0" "jn_old j = jn_old j0"
  shows "reorganised c q m j0 (fst (rewriteLocked c io j)\<lparr>jn_broken := b\<rparr>)"
  using assms
  by (cases "journal_content c m (jn_entries j)"; cases io) (auto simp: rewriteLocked_def reorganised_def same_waiters_def Let_def)

lemma journal_usable_not_broken: "journal_usable j = Inr u \<Longrightarrow> jn_broken j = None"
  by (auto simp: journal_usable_def split: if_splits option.splits)

lemma Acknowledge_reorganised:
  assumes "journalMetadata state = Inr m"
  shows "fst (Acknowledge c io q state j) = j \<or> reorganised c q m j (fst (Acknowledge c io q state j))"
proof (cases "q = 0 \<or> (\<exists>e. journal_usable j = Inl e)")
  case True
  then show ?thesis using assms by (auto simp: Acknowledge_def split: sum.splits)
next
  case False
  then obtain u where u: "q \<noteq> 0" "journal_usable j = Inr u" by (metis sumE)
  let ?j = "j\<lparr>jn_entries := filter (\<lambda>g. journalSeq g > q) (jn_entries j), jn_metadata := m,
    jn_reclaimBytes := jn_reclaimBytes j + sum_list (map journalRecordSize (filter (\<lambda>g. journalSeq g \<le> q) (jn_entries j)))\<rparr>"
  obtain j2 res where r: "rewriteLocked c io ?j = (j2, res)" by fastforce
  have "reorganised c q m j (j2\<lparr>jn_broken := b\<rparr>)" for b
    using rewriteLocked_reorganised [of j ?j q m c b io] journal_usable_not_broken [OF u(2)] r by (simp add: same_waiters_def)
  moreover from this [of "jn_broken j2"] have "reorganised c q m j j2" by simp
  moreover have "reorganised c q m j ?j" using journal_usable_not_broken [OF u(2)] by (simp add: reorganised_def same_waiters_def)
  ultimately show ?thesis using assms u r by (cases res) (simp_all add: Acknowledge_def Let_def)
qed

lemma Rebase_reorganised:
  assumes "journalMetadata state = Inr m" "\<forall>g \<in> set (jn_entries j). 0 < journalSeq g"
  shows "fst (Rebase c io state j) = j \<or> reorganised c 0 m j (fst (Rebase c io state j))"
proof (cases "journal_usable j")
  case (Inr u)
  let ?j = "j\<lparr>jn_metadata := m\<rparr>"
  have "reorganised c 0 m j (fst (rewriteLocked c io ?j)\<lparr>jn_broken := jn_broken (fst (rewriteLocked c io ?j))\<rparr>)"
    using assms(2) journal_usable_not_broken [OF Inr] by (intro rewriteLocked_reorganised) (simp_all add: same_waiters_def)
  then show ?thesis using assms(1) Inr by (simp add: Rebase_def)
qed (simp add: Rebase_def assms(1))

lemma callers_perm: "mset (callers j') = mset (callers j) \<Longrightarrow> distinct (callers j') = distinct (callers j) \<and> set (callers j') = set (callers j)"
  by (metis mset_eq_imp_distinct_iff mset_eq_setD)

lemma callers_add:
  "mset (callers j') = add_mset w (mset (callers j)) \<Longrightarrow> w \<notin> set (callers j) \<Longrightarrow> distinct (callers j) \<Longrightarrow>
     distinct (callers j') \<and> set (callers j') = insert w (set (callers j))"
  by (metis distinct.simps(2) list.simps(15) mset.simps(2) mset_eq_imp_distinct_iff mset_eq_setD)

lemma waiters_inv_enqueue:
  assumes "waiters_inv r" "w \<notin> dom (jr_promise r)" "Journal_Enqueue c script w g (jr_journal r) = (j', g')"
  shows "waiters_inv (r\<lparr>jr_journal := j', jr_all := all, jr_promise := (jr_promise r)(w \<mapsto> p)\<rparr>)"
proof -
  let ?j = "jr_journal r"
  note w = assms(1) [unfolded waiters_inv_def Let_def]
  have w1: "(jn_pendingSync ?j = [] \<longleftrightarrow> jn_pendingData ?j = 0)" "(jn_syncRunning ?j \<longleftrightarrow> jn_pendingSync ?j \<noteq> [] \<or> jn_syncing ?j \<noteq> None)"
    "jn_syncing ?j = None \<Longrightarrow> jn_inflight ?j = []" using w by blast+
  have "mset (callers j') = add_mset w (mset (callers ?j)) \<and> (jn_pendingSync j' = [] \<longleftrightarrow> jn_pendingData j' = 0) \<and>
      (jn_syncRunning j' \<longleftrightarrow> jn_pendingSync j' \<noteq> [] \<or> jn_syncing j' \<noteq> None) \<and> (jn_syncing j' = None \<longrightarrow> jn_inflight j' = [])"
    using assms(3)
  proof (cases rule: Journal_Enqueue_cases)
    case (told e) with w1 show ?thesis by (auto simp: callers_def)
  next
    case idle with w1 show ?thesis by (auto simp: callers_def)
  next
    case joined with w1 show ?thesis by (auto simp: callers_def)
  next
    case queued with w1 show ?thesis by (auto simp: callers_def)
  next
    case (failed h e written) with w1 show ?thesis by (auto simp: callers_def)
  next
    case (stored h) with w1 show ?thesis by (auto simp: callers_def)
  qed
  with callers_add [of j' w ?j] w assms(2) show ?thesis by (simp add: waiters_inv_def)
qed

lemma waiters_inv_same:
  "waiters_inv r \<Longrightarrow> same_waiters (jr_journal r) j \<Longrightarrow> waiters_inv (r\<lparr>jr_journal := j\<rparr>)"
  by (simp add: waiters_inv_def same_waiters_def callers_def Let_def)

lemma same_waiters_refl [simp]: "same_waiters j j"
  by (simp add: same_waiters_def)

lemma reorganised_same_waiters: "j' = j \<or> reorganised c q m j j' \<Longrightarrow> same_waiters j j'"
  by (auto simp: reorganised_def)

lemma waiters_inv_done [simp]: "waiters_inv (r\<lparr>jr_journal := j, jr_done := q\<rparr>) = waiters_inv (r\<lparr>jr_journal := j\<rparr>)"
  by (simp add: waiters_inv_def)

lemma waiters_inv_step:
  assumes "waiters_inv r" "journal_step c r r'" "entries_inv c r"
  shows "waiters_inv r'"
  using assms(2)
proof cases
  case (enqueued w g res script)
  then show ?thesis using waiters_inv_enqueue [OF assms(1) enqueued(2) surjective_pairing] by simp
next
  case sync_started
  then have "mset (callers (sync_begin (jr_journal r))) = mset (callers (jr_journal r))"
    by (simp add: callers_def sync_begin_def)
  with callers_perm [OF this] sync_started assms(1) show ?thesis by (auto simp: waiters_inv_def sync_begin_def Let_def)
next
  case (sync_ended flushed)
  let ?j = "sync_finish flushed (jr_journal r)"
  obtain ws n where s: "jn_syncing (jr_journal r) = Some (ws, n)" using sync_ended by auto
  have "mset (callers ?j) = mset (callers (jr_journal r))"
    by (simp add: callers_def sync_finish_def s Let_def multiset.map_comp comp_def split: sum.split)
  moreover have "(jn_pendingSync ?j = [] \<longleftrightarrow> jn_pendingData ?j = 0) \<and> (jn_syncRunning ?j \<longleftrightarrow> jn_pendingSync ?j \<noteq> [] \<or> jn_syncing ?j \<noteq> None) \<and>
      (jn_syncing ?j = None \<longrightarrow> jn_inflight ?j = [])"
    using assms(1) by (simp add: waiters_inv_def sync_finish_def s Let_def split: sum.split)
  ultimately show ?thesis using callers_perm [of ?j "jr_journal r"] sync_ended assms(1) by (simp add: waiters_inv_def Let_def)
next
  case (acknowledged state m q io)
  then show ?thesis
    using waiters_inv_same [OF assms(1) reorganised_same_waiters [OF Acknowledge_reorganised [OF acknowledged(3)]]] by simp
next
  case (rebased state m io)
  have "\<forall>g \<in> set (jn_entries (jr_journal r)). 0 < journalSeq g" using assms(3) by (simp add: entries_inv_def journal_sequence_def Let_def)
  with rebased show ?thesis
    using waiters_inv_same [OF assms(1) reorganised_same_waiters [OF Rebase_reorganised [OF rebased(3)]]] by simp
next
  case closing
  then show ?thesis using waiters_inv_same [OF assms(1), of "close_begin (jr_journal r)"] by (simp add: same_waiters_def close_begin_def)
next
  case (closed a b d)
  then show ?thesis
    using waiters_inv_same [OF assms(1), of "fst (close_finish a b d False (jr_journal r))"] by (simp add: same_waiters_def close_finish_def)
qed

lemma journal_sequence_snoc:
  "journal_sequence m (gs @ [g]) \<longleftrightarrow> journal_sequence m gs \<and> journal_fits m g \<and> 0 < journalSeq g \<and> (\<forall>h \<in> set gs. journalSeq h < journalSeq g)"
  by (auto simp: journal_sequence_def sorted_wrt_append)

lemma journal_fits_volume: "volume_blocks m = volume_blocks n \<Longrightarrow> journal_fits m g = journal_fits n g"
  by (simp add: journal_fits_def)

lemma journal_sequence_volume: "volume_blocks m = volume_blocks n \<Longrightarrow> journal_sequence m gs = journal_sequence n gs"
  by (simp add: journal_sequence_def journal_fits_def)

lemma journal_sequence_filter: "journal_sequence m gs \<Longrightarrow> journal_sequence m (filter P gs)"
  by (simp add: journal_sequence_def sorted_wrt_map sorted_wrt_filter)

text \<open>A record made by an enqueue fits into the journal of its volume.\<close>

lemma encoded_fits:
  assumes "encodeJournalRecord c g q = Inr (rec, h)" "in_volume m g"
  shows "journal_fits m h \<and> journalSeq h = q"
  using assms by (auto elim!: encodeJournalRecord_Inr simp: journal_fits_def in_volume_def Generation_Empty_def)

lemma seq_succ: "(q :: u64) < - 1 \<Longrightarrow> q < q + 1 \<and> q + 1 \<noteq> 0 \<and> q + 1 - 1 = q"
  using word_succ_le [of q q] by auto

lemma seq_pred: "(q :: u64) \<noteq> 0 \<Longrightarrow> q - 1 < q"
  using seq_succ [of "q - 1"] word_order.not_eq_extremum [of "q - 1"] by force

lemma entries_inv_reorganised:
  assumes "entries_inv c r" "j' = jr_journal r \<or> reorganised c q m (jr_journal r) j'" "good_metadata c m"
    "volume_blocks m = volume_blocks (jn_metadata (jr_journal r))"
  shows "entries_inv c (r\<lparr>jr_journal := j', jr_done := max (jr_done r) q\<rparr>)"
  using assms(2)
proof
  assume "j' = jr_journal r"
  with assms(1) show ?thesis by (simp add: entries_inv_def Let_def)
next
  assume re: "reorganised c q m (jr_journal r) j'"
  then have "journal_sequence m (jn_entries j')" "jn_metadata j' = m" "jn_nextSeq j' = jn_nextSeq (jr_journal r)"
    "set (jn_entries j') = {g \<in> set (jn_entries (jr_journal r)). q < journalSeq g}"
    using assms(1,4) by (auto simp: entries_inv_def Let_def reorganised_def same_waiters_def journal_sequence_filter journal_sequence_volume [of m])
  with assms(1,3) show ?thesis by (simp add: entries_inv_def Let_def)
qed

lemma Rebase_reorganised_inv:
  assumes "entries_inv c r" "journalMetadata state = Inr m"
  shows "fst (Rebase c io state (jr_journal r)) = jr_journal r \<or> reorganised c 0 m (jr_journal r) (fst (Rebase c io state (jr_journal r)))"
  using assms by (intro Rebase_reorganised) (simp_all add: entries_inv_def journal_sequence_def Let_def)

lemma entries_inv_step:
  assumes "entries_inv c r" "journal_step c r r'"
  shows "entries_inv c r'"
  using assms(2)
proof cases
  case (enqueued w g res script)
  let ?j = "jr_journal r"
  obtain j' g' where res: "res = (j', g')" by (cases res)
  note e = assms(1) [unfolded entries_inv_def Let_def]
  have step: "jn_nextSeq ?j \<noteq> 0" "jn_nextSeq ?j - 1 < jn_nextSeq ?j" using e by (auto intro: seq_pred)
  note seq = seq_succ [OF enqueued(4)]
  from enqueued(5) [symmetric, unfolded res] show ?thesis
  proof (cases rule: Journal_Enqueue_cases)
    case (stored h)
    note fits = encoded_fits [OF stored(1) enqueued(3)]
    have "0 < journalSeq h" using fits step by (simp add: word_gt_0)
    with fits stored e seq enqueued(1) res show ?thesis
      by (auto simp: entries_inv_def Let_def appended_def journal_sequence_snoc intro: less_trans)
  qed (use e step enqueued(1) res in \<open>auto simp: entries_inv_def Let_def appended_def\<close>)
next
  case sync_started
  with assms(1) show ?thesis by (simp add: entries_inv_def sync_begin_def Let_def)
next
  case (sync_ended flushed)
  with assms(1) show ?thesis by (auto simp: entries_inv_def sync_finish_def Let_def split: sum.splits)
next
  case (acknowledged state m q io)
  then show ?thesis using entries_inv_reorganised [OF assms(1) Acknowledge_reorganised [OF acknowledged(3)]] by simp
next
  case (rebased state m io)
  then show ?thesis using entries_inv_reorganised [OF assms(1) Rebase_reorganised_inv [OF assms(1) rebased(3)]] by simp
next
  case closing
  with assms(1) show ?thesis by (simp add: entries_inv_def close_begin_def Let_def)
next
  case closed
  with assms(1) show ?thesis by (simp add: entries_inv_def close_finish_def Let_def)
qed

lemma prefix_length_eqI: "prefix xs ys \<Longrightarrow> length ys \<le> length xs \<Longrightarrow> xs = ys"
  by (auto simp: prefix_def)

lemma prefix_take: "prefix xs ys \<Longrightarrow> take k xs = take (min k (length xs)) ys"
  by (auto simp: prefix_def min_def)

lemma within_mono: "within c h gs n q \<Longrightarrow> n \<le> n' \<Longrightarrow> within c h gs n' q"
  by (force simp: within_def)

lemma within_snoc: "within c h gs n q \<Longrightarrow> q < journalSeq g \<Longrightarrow> within c h (gs @ [g]) n q"
  by (force simp: within_def)

lemma within_full: "length (h @ records_of c gs) \<le> n \<Longrightarrow> within c h gs n q"
  unfolding within_def by (rule exI [of _ gs]) auto

lemma journal_content_Inr:
  assumes "journal_content c m gs = Inr content" "\<forall>g \<in> set gs. journal_fits m g"
  shows "\<exists>h. journalHeader c m = Inr h \<and> content = h @ records_of c gs"
proof -
  have "mapR (\<lambda>g. encodeJournalRecord c (Some g) (journalSeq g)) gs = Inr (map (\<lambda>g. (record_of c g, g)) gs)"
    using assms(2) by (intro mapR_total) (auto simp: journal_fits_def encodeJournalRecord_record_of)
  with assms(1) show ?thesis by (auto simp: journal_content_def journal_records_def records_of_def comp_def)
qed

lemma kept_simps [simp]:
  "kept c h gs p n []" "kept c h gs p n (w # ws) \<longleftrightarrow> within c h gs n (the (p w)) \<and> kept c h gs p n ws"
  "kept c h gs p n (ws @ vs) \<longleftrightarrow> kept c h gs p n ws \<and> kept c h gs p n vs"
  by (auto simp: kept_def)

lemma kept_promise [simp]: "w \<notin> set ws \<Longrightarrow> kept c h gs (p(w \<mapsto> q)) n ws = kept c h gs p n ws"
  by (auto simp: kept_def)

lemma kept_mono: "kept c h gs p n ws \<Longrightarrow> n \<le> n' \<Longrightarrow> kept c h gs p n' ws"
  by (auto simp: kept_def intro: within_mono)

lemma kept_snoc: "kept c h gs p n ws \<Longrightarrow> (\<And>w. w \<in> set ws \<Longrightarrow> the (p w) < journalSeq g) \<Longrightarrow> kept c h (gs @ [g]) p n ws"
  by (auto simp: kept_def intro: within_snoc)

lemma kept_full: "length (h @ records_of c gs) \<le> n \<Longrightarrow> kept c h gs p n ws"
  by (auto simp: kept_def intro: within_full)

lemma satisfied_sub: "set (satisfied j) \<subseteq> set (callers j)"
  by (auto simp: satisfied_def callers_def)

lemma satisfied_tell [simp]: "satisfied (jn_tell ws e j) = satisfied j @ (if e = None then ws else [])"
  by (induction ws) (auto simp: satisfied_def jn_tell_def comp_def)

lemma satisfied_same: "jn_told j' = jn_told j \<Longrightarrow> satisfied j' = satisfied j"
  by (simp add: satisfied_def)

text \<open>A new caller's promise does not matter to the others.\<close>

lemma file_inv_promise:
  assumes "file_inv c r m h gs" "w \<notin> set (callers (jr_journal r))"
  shows "file_inv c (r\<lparr>jr_promise := (jr_promise r)(w \<mapsto> p)\<rparr>) m h gs"
proof -
  have "w \<notin> set (satisfied (jr_journal r))" "w \<notin> set (jn_pendingSync (jr_journal r))" "w \<notin> set (jn_inflight (jr_journal r))"
    "\<And>ws n. jn_syncing (jr_journal r) = Some (ws, n) \<Longrightarrow> w \<notin> set ws"
    using assms(2) satisfied_sub [of "jr_journal r"] by (auto simp: callers_def)
  with assms(1) show ?thesis by (simp add: file_inv_def Let_def split: option.splits prod.splits)
qed

text \<open>Appending a record with the next sequence number keeps every promise.\<close>

lemma file_inv_append:
  assumes "file_inv c r m h gs" "jn_broken (jr_journal r) = None" "journal_fits m g" "0 < journalSeq g" "jn_nextSeq (jr_journal r) = journalSeq g"
    "\<And>x. x \<in> set (callers (jr_journal r)) \<Longrightarrow> the (jr_promise r x) < journalSeq g" "prefix written (record_of c g)"
  shows "file_inv c (r\<lparr>jr_journal := (jr_journal r)\<lparr>jn_file := jn_file (jr_journal r) @ written, jn_broken := Some e\<rparr>\<rparr>) m h (gs @ [g])"
proof -
  let ?j = "jr_journal r"
  note f = assms(1) [unfolded file_inv_def Let_def]
  have "journal_sequence m (gs @ [g])" using f assms(2-5) by (simp add: journal_sequence_snoc)
  moreover have "kept c h (gs @ [g]) (jr_promise r) (jn_stable ?j) (satisfied ?j)"
    using f assms(6) satisfied_sub [of ?j] by (intro kept_snoc) auto
  moreover have "kept c h (gs @ [g]) (jr_promise r) (length (jn_file ?j)) (jn_pendingSync ?j)"
    using f assms(6) by (intro kept_snoc) (auto simp: callers_def)
  moreover have "kept c h (gs @ [g]) (jr_promise r) n (ws @ jn_inflight ?j)" if "jn_syncing ?j = Some (ws, n)" for ws n
    using f assms(6) that by (intro kept_snoc) (auto simp: callers_def)
  moreover have "prefix (jn_file ?j @ written) (h @ records_of c (gs @ [g]))"
  proof -
    have "jn_file ?j = h @ records_of c gs" using f assms(2) by (auto intro: prefix_length_eqI)
    with assms(7) show ?thesis by simp
  qed
  moreover have "satisfied (?j\<lparr>jn_file := x, jn_broken := y\<rparr>) = satisfied ?j" for x y by (simp add: satisfied_def)
  moreover have "kept c h (gs @ [g]) (jr_promise r) (length (jn_file ?j @ written)) (jn_pendingSync ?j)"
    by (rule kept_mono [OF calculation(3)]) simp
  ultimately show ?thesis using f assms(2) by (simp add: file_inv_def Let_def) force
qed

lemma file_inv_stored:
  assumes "file_inv c r m h gs" "jn_broken (jr_journal r) = None" "journal_fits m g" "0 < journalSeq g" "jn_nextSeq (jr_journal r) = journalSeq g"
    "\<And>x. x \<in> set (callers (jr_journal r)) \<Longrightarrow> the (jr_promise r x) < journalSeq g" "journalSeq g < journalSeq g + 1"
  shows "file_inv c (r\<lparr>jr_journal := (jr_journal r)\<lparr>jn_file := jn_file (jr_journal r) @ record_of c g, jn_nextSeq := journalSeq g + 1,
      jn_entries := es, jn_diskBytes := d, jn_pendingSync := jn_pendingSync (jr_journal r) @ [w], jn_pendingData := jn_pendingData (jr_journal r) + 1,
      jn_syncRunning := True\<rparr>, jr_all := jr_all r @ [g]\<rparr>) m h (gs @ [g])"
proof -
  let ?r = "r\<lparr>jr_journal := (jr_journal r)\<lparr>jn_file := jn_file (jr_journal r) @ record_of c g, jn_broken := Some EOF\<rparr>\<rparr>"
  have "file_inv c ?r m h (gs @ [g])" using assms by (intro file_inv_append) auto
  moreover have "length h + length (records_of c gs) \<le> length (jn_file (jr_journal r))" "\<forall>x \<in> set gs. journalSeq x < journalSeq g"
    using assms(1,2,5) by (auto simp: file_inv_def Let_def)
  ultimately show ?thesis using assms(2,7)
    by (auto simp: file_inv_def Let_def satisfied_def within_full split: option.splits intro: less_trans)
qed

lemma file_inv_enqueue:
  assumes "file_inv c r m h gs" "entries_inv c r" "waiters_inv r" "w \<notin> dom (jr_promise r)" "in_volume (jn_metadata (jr_journal r)) g"
    "jn_nextSeq (jr_journal r) < - 1" "Journal_Enqueue c script w g (jr_journal r) = (j', g')"
  shows "\<exists>gs'. file_inv c (r\<lparr>jr_journal := j', jr_all := jr_all r @ appended (jr_journal r) (j', g'), jr_promise := (jr_promise r)(w \<mapsto> p)\<rparr>) m h gs'"
proof -
  let ?j = "jr_journal r" and ?r = "r\<lparr>jr_promise := (jr_promise r)(w \<mapsto> p)\<rparr>"
  have w: "w \<notin> set (callers ?j)" using assms(3,4) by (simp add: waiters_inv_def Let_def)
  have f: "file_inv c ?r m h gs" by (rule file_inv_promise [OF assms(1) w])
  note f' = f [unfolded file_inv_def Let_def]
  have below: "the (jr_promise ?r x) < jn_nextSeq ?j" if "x \<in> set (callers ?j)" for x
  proof -
    from that assms(3) obtain q where "jr_promise r x = Some q" by (auto simp: waiters_inv_def Let_def)
    with assms(2) that w show ?thesis by (auto simp: entries_inv_def Let_def)
  qed
  have fits: "journal_fits m x \<and> 0 < journalSeq x \<and> journalSeq x = jn_nextSeq ?j"
    if "encodeJournalRecord c g (jn_nextSeq ?j) = Inr (rec, x)" for rec x
    using encoded_fits [OF that assms(5)] f' assms(2) by (auto simp: entries_inv_def Let_def journal_fits_def word_gt_0)
  from assms(7) show ?thesis
  proof (cases rule: Journal_Enqueue_cases)
    case (told e)
    with f' show ?thesis by (intro exI [of _ gs]) (simp add: file_inv_def Let_def appended_def)
  next
    case idle
    with f' show ?thesis by (intro exI [of _ gs]) (simp add: file_inv_def Let_def appended_def within_full kept_full)
  next
    case joined
    with assms(3) obtain ws n where "jn_syncing ?j = Some (ws, n)" by (auto simp: waiters_inv_def Let_def)
    with f' joined show ?thesis by (intro exI [of _ gs]) (simp add: file_inv_def Let_def appended_def within_full kept_full satisfied_def)
  next
    case queued
    with f' show ?thesis by (intro exI [of _ gs]) (simp add: file_inv_def Let_def appended_def within_full kept_full satisfied_def)
  next
    case (failed x e written)
    have "file_inv c (?r\<lparr>jr_journal := (jr_journal ?r)\<lparr>jn_file := jn_file (jr_journal ?r) @ written, jn_broken := Some e\<rparr>\<rparr>) m h (gs @ [x])"
      using f fits [OF failed(1)] failed below by (intro file_inv_append) auto
    with failed show ?thesis by (intro exI [of _ "gs @ [x]"]) (simp add: file_inv_def Let_def appended_def satisfied_def)
  next
    case (stored x)
    note x = fits [OF stored(1)]
    have "file_inv c (?r\<lparr>jr_journal := j', jr_all := jr_all ?r @ [x]\<rparr>) m h (gs @ [x])"
      using file_inv_stored [OF f, where g = x and es = "jn_entries ?j @ [x]" and d = "jn_diskBytes ?j + int (length (record_of c x))" and w = w]
        stored below seq_succ [OF assms(6)] conjunct1 [OF x] conjunct1 [OF conjunct2 [OF x]] conjunct2 [OF conjunct2 [OF x]] by simp
    then have "file_inv c (r\<lparr>jr_journal := j', jr_all := jr_all r @ [x], jr_promise := (jr_promise r)(w \<mapsto> p)\<rparr>) m h (gs @ [x])"
      by (simp add: file_inv_def)
    with stored show ?thesis by (intro exI [of _ "gs @ [x]"]) (simp add: appended_def)
  qed
qed

lemma file_inv_reorganised:
  assumes "file_inv c r m0 h gs" "entries_inv c r" "j' = jr_journal r \<or> reorganised c q m (jr_journal r) j'" "good_metadata c m"
    "volume_blocks m = volume_blocks (jn_metadata (jr_journal r))" "jn_syncing (jr_journal r) = None"
    "jn_file j' = jn_file (jr_journal r)" "jn_stable j' = jn_stable (jr_journal r)"
  shows "file_inv c (r\<lparr>jr_journal := j', jr_done := max (jr_done r) q\<rparr>) m0 h gs"
  using assms(3)
proof
  assume "j' = jr_journal r"
  with assms(1) show ?thesis by (simp add: file_inv_def Let_def)
next
  assume re: "reorganised c q m (jr_journal r) j'"
  then have j': "jn_metadata j' = m" "same_waiters (jr_journal r) j'" "jn_broken (jr_journal r) = None" by (simp_all add: reorganised_def)
  have "satisfied j' = satisfied (jr_journal r)" using j'(2) by (simp add: same_waiters_def satisfied_def)
  with assms(1,5-8) j' show ?thesis by (simp add: file_inv_def Let_def same_waiters_def)
qed

lemma file_inv_rewritten:
  assumes "entries_inv c r" "reorganised c q m (jr_journal r) j'" "good_metadata c m"
    "volume_blocks m = volume_blocks (jn_metadata (jr_journal r))" "jn_syncing (jr_journal r) = None"
    "journal_content c m (jn_entries j') = Inr content" "jn_file j' = content" "jn_stable j' = length content"
  shows "\<exists>h gs. file_inv c (r\<lparr>jr_journal := j', jr_done := max (jr_done r) q\<rparr>) m h gs"
proof -
  have e: "entries_inv c (r\<lparr>jr_journal := j', jr_done := max (jr_done r) q\<rparr>)"
    by (rule entries_inv_reorganised [OF assms(1) _ assms(3,4)]) (simp add: assms(2))
  have m: "jn_metadata j' = m" "jn_syncing j' = None" using assms(2,5) by (simp_all add: reorganised_def same_waiters_def)
  then obtain h where h: "journalHeader c m = Inr h" "content = h @ records_of c (jn_entries j')"
    using journal_content_Inr [OF assms(6)] e by (auto simp: entries_inv_def Let_def journal_sequence_def)
  have "file_inv c (r\<lparr>jr_journal := j', jr_done := max (jr_done r) q\<rparr>) m h (jn_entries j')"
    using e m h assms(7,8) by (simp add: file_inv_def entries_inv_def Let_def kept_full)
  then show ?thesis by blast
qed

lemma journal_inv_reorganised:
  assumes "journal_inv c r" "j' = jr_journal r \<or> reorganised c q m (jr_journal r) j'" "good_metadata c m"
    "volume_blocks m = volume_blocks (jn_metadata (jr_journal r))" "jn_syncing (jr_journal r) = None" "jn_old j' = None"
  shows "\<exists>m h gs. file_inv c (r\<lparr>jr_journal := j', jr_done := max (jr_done r) q\<rparr>) m h gs"
proof -
  have e: "entries_inv c r" using assms(1) by (simp add: journal_inv_def)
  consider "j' = jr_journal r" | "reorganised c q m (jr_journal r) j'" "jn_file j' = jn_file (jr_journal r)" "jn_stable j' = jn_stable (jr_journal r)"
      "jn_old j' = jn_old (jr_journal r)"
    | content where "reorganised c q m (jr_journal r) j'" "journal_content c m (jn_entries j') = Inr content" "jn_file j' = content" "jn_stable j' = length content"
    using assms(2,6) by (auto simp: reorganised_def)
  then show ?thesis
  proof cases
    case 1
    then obtain m0 h gs where "file_inv c r m0 h gs" using assms(1,6) by (auto simp: journal_inv_def)
    from file_inv_reorganised [OF this e assms(2-5)] 1 show ?thesis by auto
  next
    case 2
    then obtain m0 h gs where "file_inv c r m0 h gs" using assms(1,6) by (auto simp: journal_inv_def)
    from file_inv_reorganised [OF this e assms(2-5)] 2 show ?thesis by auto
  next
    case 3
    from file_inv_rewritten [OF e 3(1) assms(3-5) 3(2-4)] show ?thesis by blast
  qed
qed

lemma file_inv_sync_begin:
  assumes "file_inv c r m h gs" "waiters_inv r" "jn_syncRunning (jr_journal r)" "jn_syncing (jr_journal r) = None"
  shows "file_inv c (r\<lparr>jr_journal := sync_begin (jr_journal r)\<rparr>) m h gs"
proof -
  have "jn_pendingSync (jr_journal r) \<noteq> []" "jn_inflight (jr_journal r) = []" using assms(2-4) by (auto simp: waiters_inv_def Let_def)
  moreover have "satisfied (sync_begin (jr_journal r)) = satisfied (jr_journal r)" by (simp add: satisfied_def sync_begin_def)
  ultimately show ?thesis using assms(1) by (simp add: file_inv_def Let_def sync_begin_def)
qed

lemma file_inv_sync_finish:
  assumes "file_inv c r m h gs" "waiters_inv r" "jn_syncing (jr_journal r) = Some (ws, n)"
  shows "file_inv c (r\<lparr>jr_journal := sync_finish flushed (jr_journal r)\<rparr>) m h gs"
proof -
  let ?j = "jr_journal r"
  note f = assms(1) [unfolded file_inv_def Let_def, simplified assms(3)]
  note w = assms(2) [unfolded waiters_inv_def Let_def]
  have "kept c h gs (jr_promise r) (max n (jn_stable ?j)) (satisfied ?j)" using f by (auto intro: kept_mono)
  moreover have "kept c h gs (jr_promise r) (max n (jn_stable ?j)) (ws @ jn_inflight ?j)" using f by (auto intro: kept_mono)
  moreover have "satisfied (?j\<lparr>jn_syncing := a, jn_inflight := b, jn_stable := x, jn_syncRunning := y\<rparr>) = satisfied ?j"
    "satisfied (?j\<lparr>jn_syncing := a, jn_inflight := b, jn_broken := d, jn_pendingSync := x', jn_pendingData := y', jn_syncRunning := z\<rparr>) = satisfied ?j"
    for a b x y d x' y' z by (simp_all add: satisfied_def)
  ultimately show ?thesis
    using f w by (auto simp: file_inv_def sync_finish_def assms(3) Let_def split: sum.splits)
qed

lemma journal_inv_step:
  assumes "journal_inv c r" "journal_step c r r'"
  shows "journal_inv c r'"
proof -
  have e: "entries_inv c r" and w: "waiters_inv r" using assms(1) by (simp_all add: journal_inv_def)
  have "\<exists>m h gs. file_inv c r' m h gs" if old: "jn_old (jr_journal r') = None"
    using assms(2)
  proof cases
    case (enqueued w' g res script)
    obtain j' g' where res: "res = (j', g')" by (cases res)
    have "jn_old j' = jn_old (jr_journal r)"
      using enqueued(5) [symmetric, unfolded res] by (cases rule: Journal_Enqueue_cases) auto
    then obtain m h gs where "file_inv c r m h gs" using assms(1) old enqueued(1) res by (auto simp: journal_inv_def)
    from file_inv_enqueue [OF this e w enqueued(2-4) enqueued(5) [symmetric, unfolded res], of "jn_nextSeq j' - 1"] enqueued(1) res show ?thesis by auto
  next
    case sync_started
    then obtain m h gs where "file_inv c r m h gs" using assms(1) old by (auto simp: journal_inv_def sync_begin_def split: if_splits)
    from file_inv_sync_begin [OF this w sync_started(2,3)] sync_started(1) show ?thesis by blast
  next
    case (sync_ended flushed)
    then obtain ws n where s: "jn_syncing (jr_journal r) = Some (ws, n)" by auto
    then obtain m h gs where "file_inv c r m h gs"
      using assms(1) old sync_ended(1) by (auto simp: journal_inv_def sync_finish_def Let_def split: sum.splits)
    from file_inv_sync_finish [OF this w s] sync_ended(1) show ?thesis by blast
  next
    case (acknowledged state m q io)
    from journal_inv_reorganised [OF assms(1) Acknowledge_reorganised [OF acknowledged(3)] acknowledged(4,5,2)] old acknowledged(1)
    show ?thesis by simp
  next
    case (rebased state m io)
    from journal_inv_reorganised [OF assms(1) Rebase_reorganised_inv [OF e rebased(3)] rebased(4,5,2)] old rebased(1)
    show ?thesis by simp
  next
    case closing
    then obtain m h gs where "file_inv c r m h gs" using assms(1) old by (auto simp: journal_inv_def close_begin_def)
    then have "file_inv c r' m h gs" using closing(1) by (simp add: file_inv_def close_begin_def Let_def satisfied_def)
    then show ?thesis by blast
  next
    case (closed a b d)
    then obtain m h gs where "file_inv c r m h gs" using assms(1) old by (auto simp: journal_inv_def close_finish_def)
    then have "file_inv c r' m h gs" using closed(1) by (simp add: file_inv_def close_finish_def Let_def satisfied_def)
    then show ?thesis by blast
  qed
  with entries_inv_step [OF e assms(2)] waiters_inv_step [OF w assms(2) e] show ?thesis by (simp add: journal_inv_def)
qed

lemma journal_inv_run: "(journal_step c)\<^sup>*\<^sup>* r r' \<Longrightarrow> journal_inv c r \<Longrightarrow> journal_inv c r'"
  by (induction rule: rtranclp_induct) (auto intro: journal_inv_step)

section \<open>Starting and recovering\<close>

lemma record_of_recovered [simp]: "record_of c (recovered g) = record_of c g"
  by (simp add: record_of_def record_dims_def journal_payload_def block_data_def)

lemma records_of_recovered [simp]: "records_of c (map recovered gs) = records_of c gs"
  by (simp add: records_of_def comp_def)

lemma journal_fits_recovered [simp]: "journal_fits m (recovered g) = journal_fits m g"
  by (simp add: journal_fits_def wf_generation_def Generation_Empty_def)

lemma journal_sequence_recovered [simp]: "journal_sequence m (map recovered gs) = journal_sequence m gs"
  by (auto simp: journal_sequence_def comp_def sorted_wrt_map)

lemma journal_sequence_prefix: "journal_sequence m gs \<Longrightarrow> prefix hs gs \<Longrightarrow> journal_sequence m hs"
  by (auto simp: journal_sequence_def prefix_def sorted_wrt_append)

lemma records_of_prefix: "prefix hs gs \<Longrightarrow> prefix (records_of c hs) (records_of c gs)"
  by (auto simp: prefix_def)

text \<open>Opening a file that is cut off anywhere after its header.\<close>

lemma OpenJournal_cut:
  assumes "jcodec_ok c" "good_metadata c m" "journalHeader c m = Inr h" "journal_sequence m gs" "length h \<le> k"
  defines "hs \<equiv> whole_records c (k - length h) gs"
  shows "OpenJournal c truncated synced (take k (h @ records_of c gs)) =
    (let content = take k (h @ records_of c gs); kept_file = h @ records_of c hs; torn = length kept_file < length content in
     if torn \<and> \<not> is_ok truncated then invalid ''discard torn journal tail''
     else if torn \<and> \<not> is_ok synced then invalid ''sync repaired journal''
     else Inr ((new_journal m)\<lparr>jn_entries := map recovered hs, jn_nextSeq := (if hs = [] then 1 else journalSeq (last hs) + 1),
       jn_diskBytes := int (length kept_file), jn_open := True, jn_file := kept_file, jn_stable := length kept_file\<rparr>))"
proof -
  let ?content = "take k (h @ records_of c gs)"
  have "prefix (h @ records_of c hs) (h @ records_of c gs)"
    using records_of_prefix [OF whole_records_prefix [of c "k - length h" gs]] by (simp add: hs_def)
  moreover have le: "length (h @ records_of c hs) \<le> k"
    using whole_records_fit [of c "k - length h" gs] assms(5) by (simp add: hs_def)
  ultimately obtain t where t: "?content = (h @ records_of c hs) @ t" by (auto simp: prefix_def)
  have q: "journalSeq (last (map recovered hs)) = journalSeq (last hs)" if "hs \<noteq> []" using that by (simp add: last_map)
  have r: "readJournal c (?content, True) = Inr (m, map recovered hs, int (length (h @ records_of c hs)))"
    unfolding hs_def using assms(1-5) by (intro readJournal_cut)
  have l: "length ?content = length (h @ records_of c hs) + length t" "take (length (h @ records_of c hs)) ?content = h @ records_of c hs"
    unfolding t by simp_all
  have image: "(if length (h @ records_of c hs) < length ?content then take (nat (int (length (h @ records_of c hs)))) ?content else ?content) =
      h @ records_of c hs"
    unfolding nat_int l(2) using t l(1) by (cases "t = []") simp_all
  have nextSeq: "(if map recovered hs = [] then 1 else journalSeq (last (map recovered hs)) + 1) = (if hs = [] then 1 else journalSeq (last hs) + 1)"
    using q by simp
  show ?thesis unfolding OpenJournal_def r Let_def bindR_simps prod.case of_nat_less_iff image nextSeq by (rule refl)
qed

lemma sequence_last:
  assumes "journal_sequence m gs" "g \<in> set gs" "(if gs = [] then 1 else journalSeq (last gs) + 1) \<noteq> 0"
  shows "journalSeq g < journalSeq (last gs) + 1"
proof -
  have "gs \<noteq> []" using assms(2) by auto
  have le: "journalSeq g \<le> journalSeq (last gs)"
    using assms(1,2) by (cases gs rule: rev_cases) (auto simp: journal_sequence_snoc)
  have "journalSeq (last gs) < - 1"
    using assms(3) \<open>gs \<noteq> []\<close> word_order.not_eq_extremum by force
  with le show ?thesis using seq_succ by (metis order.strict_trans1)
qed

text \<open>A journal as it starts: everything it knows is in its file, and the file is stable.\<close>

definition fresh_journal :: "jcodec \<Rightarrow> Journal \<Rightarrow> bool" where
  "fresh_journal c j \<longleftrightarrow>
     (\<exists>m h gs q d. journalHeader c m = Inr h \<and> good_metadata c m \<and> journal_sequence m gs \<and> q \<noteq> 0 \<and> (\<forall>g \<in> set gs. journalSeq g < q) \<and>
        j = (new_journal m)\<lparr>jn_entries := gs, jn_nextSeq := q, jn_diskBytes := d, jn_open := True, jn_file := h @ records_of c gs,
          jn_stable := length (h @ records_of c gs)\<rparr>)"

lemma CreateJournal_fresh:
  assumes "journalMetadata state = Inr m" "good_metadata c m" "CreateJournal c io state = Inr j"
  shows "fresh_journal c j"
proof -
  obtain res where res: "rewriteLocked c io (new_journal m) = (j, Inr res)"
    using assms(1,3) by (auto simp: CreateJournal_def split: prod.splits sum.splits)
  then obtain content where content: "journal_content c m [] = Inr content"
    by (cases "journal_content c m []") (simp_all add: rewriteLocked_def new_journal_def)
  then have h: "journalHeader c m = Inr content" by (auto simp: journal_content_def journal_records_def)
  have "j = (new_journal m)\<lparr>jn_entries := [], jn_nextSeq := 1, jn_diskBytes := int (length content), jn_open := True, jn_file := content @ records_of c [],
      jn_stable := length (content @ records_of c [])\<rparr>"
    using res content by (cases io) (auto simp: rewriteLocked_def Let_def new_journal_def)
  with h assms(2) show ?thesis
    unfolding fresh_journal_def
    by (intro exI [of _ m] exI [of _ content] exI [of _ "[]"] exI [of _ 1] exI [of _ "int (length content)"]) (simp add: journal_sequence_def)
qed

lemma OpenJournal_fresh:
  assumes "jcodec_ok c" "good_metadata c m" "journalHeader c m = Inr h" "journal_sequence m gs" "length h \<le> k"
    "OpenJournal c truncated synced (take k (h @ records_of c gs)) = Inr j" "jn_nextSeq j \<noteq> 0"
  shows "fresh_journal c j"
proof -
  define hs where "hs = whole_records c (k - length h) gs"
  define q where "q = (if hs = [] then 1 else journalSeq (last hs) + 1)"
  have j: "j = (new_journal m)\<lparr>jn_entries := map recovered hs, jn_nextSeq := q, jn_diskBytes := int (length (h @ records_of c hs)), jn_open := True,
      jn_file := h @ records_of c (map recovered hs), jn_stable := length (h @ records_of c (map recovered hs))\<rparr>"
    using assms(6) [unfolded OpenJournal_cut [OF assms(1-5)] Let_def, folded hs_def] by (simp add: q_def split: if_splits)
  have hs: "journal_sequence m hs" unfolding hs_def by (rule journal_sequence_prefix [OF assms(4) whole_records_prefix])
  have q: "q \<noteq> 0" using assms(7) by (simp add: j)
  have "\<forall>g \<in> set (map recovered hs). journalSeq g < q"
    using sequence_last [OF hs] q by (cases "hs = []") (auto simp: q_def)
  with assms(2,3) hs q j show ?thesis unfolding fresh_journal_def
    by (intro exI [of _ m] exI [of _ h] exI [of _ "map recovered hs"] exI [of _ q] exI) auto
qed

lemma journal_inv_start:
  assumes "jcodec_ok c" "journal_start c r"
  shows "journal_inv c r"
proof -
  note s = assms(2) [unfolded journal_start_def]
  have "fresh_journal c (jr_journal r)" using s CreateJournal_fresh OpenJournal_fresh [OF assms(1)] by blast
  then obtain m h gs q d where *: "journalHeader c m = Inr h" "good_metadata c m" "journal_sequence m gs" "q \<noteq> 0" "\<forall>g \<in> set gs. journalSeq g < q"
    "jr_journal r = (new_journal m)\<lparr>jn_entries := gs, jn_nextSeq := q, jn_diskBytes := d, jn_open := True, jn_file := h @ records_of c gs,
        jn_stable := length (h @ records_of c gs)\<rparr>" by (auto simp: fresh_journal_def)
  have "entries_inv c r" using * s by (simp add: entries_inv_def new_journal_def)
  moreover have "waiters_inv r" using * s by (simp add: waiters_inv_def new_journal_def callers_def)
  moreover have "file_inv c r m h gs" using * s by (simp add: file_inv_def new_journal_def satisfied_def)
  ultimately show ?thesis by (auto simp: journal_inv_def)
qed

end
