(* ===== verification/JournalClaims.thy ===== *)
theory JournalClaims
  imports JournalRun
begin

text \<open>The properties of the local journal.\<close>

section \<open>A small journal\<close>

definition zero_codec :: jcodec where
  "zero_codec = \<lparr>jc_sha256 = (\<lambda>x. replicate 32 0), jc_marshal = (\<lambda>m. [1]),
     jc_unmarshal = (\<lambda>x. Inr \<lparr>jm_Format = journalFormat, jm_VolumeID = ''id'', jm_VolumeName = ''v'', jm_Holder = ''host'', jm_Size = 40960, jm_BlockSize = 4096,
       jm_WriterEpoch = 1, jm_BaseGeneration = 0, jm_BaseManifest = []\<rparr>)\<rparr>"

definition leased_state :: State where
  "leased_state = sample_state\<lparr>s_ID := ''id'', s_Name := ''v'', s_Size := 40960, s_BlockSize := 4096, s_Epoch := 1, s_Generation := 0, s_Manifest := [],
     s_Lease := Some \<lparr>Holder = ''host'', Token = ''t'', lr_Epoch = 1, ExpiresAt = 100, MountedAt = 0\<rparr>\<rparr>"

definition sample_metadata :: JournalMetadata where
  "sample_metadata = \<lparr>jm_Format = journalFormat, jm_VolumeID = ''id'', jm_VolumeName = ''v'', jm_Holder = ''host'', jm_Size = 40960, jm_BlockSize = 4096,
       jm_WriterEpoch = 1, jm_BaseGeneration = 0, jm_BaseManifest = []\<rparr>"

definition sample_header :: bytes where
  "sample_header = journalHeaderMagic @ PutUint32 1 @ [1] @ replicate 32 0"

lemma sample_facts:
  "jcodec_ok zero_codec" "journalMetadata leased_state = Inr sample_metadata" "good_metadata zero_codec sample_metadata"
  "journalHeader zero_codec sample_metadata = Inr sample_header" "length sample_header = 45"
  by (simp_all add: jcodec_ok_def zero_codec_def journalMetadata_def leased_state_def sample_metadata_def good_metadata_def valid_metadata_def
      journalHeader_def sample_header_def maxJournalMetadata_def DefaultBlockSize_def journalFormat_def)

lemma sample_fits: "journal_sequence sample_metadata [sample_generation]"
proof -
  have "volume_blocks sample_metadata = 10" by (simp add: volume_blocks_def sample_metadata_def)
  moreover have "set (sortedBlocks sample_generation) = {3, 4}" by (simp add: sample_generation_def)
  moreover have "length (sortedBlocks sample_generation) = 2"
    using distinct_card [OF distinct_sortedBlocks [of sample_generation]] calculation(2) by simp
  ultimately show ?thesis using sample_encodable
    by (simp add: journal_sequence_def journal_fits_def encodable_generation_def sample_generation_def)
qed

lemma sample_record_length: "length (record_of zero_codec sample_generation) = 8268"
proof -
  have l: "length (journal_payload sample_generation bs) = length bs * 4104" if "set bs \<subseteq> {3, 4}" for bs
    using that by (induction bs) (auto simp: journal_payload_def block_data_def sample_generation_def BlockSize_def DefaultBlockSize_def fmlookup_of_list)
  have "set (sortedBlocks sample_generation) = {3, 4}" by (simp add: sample_generation_def)
  moreover have "length (sortedBlocks sample_generation) = 2"
    using distinct_card [OF distinct_sortedBlocks [of sample_generation]] calculation by simp
  ultimately show ?thesis using l [of "sortedBlocks sample_generation"] by (simp add: record_of_header)
qed

text \<open>A new journal, a generation enqueued, and its flush.\<close>

definition sample_created :: jrun where
  "sample_created = \<lparr>jr_journal = (new_journal sample_metadata)\<lparr>jn_file := sample_header, jn_stable := 45, jn_diskBytes := 45, jn_open := True\<rparr>,
     jr_all = [], jr_promise = Map.empty, jr_done = 0\<rparr>"

definition sample_enqueued :: jrun where
  "sample_enqueued =
     (let res = Journal_Enqueue zero_codec [] 0 (Some sample_generation) (jr_journal sample_created) in
      sample_created\<lparr>jr_journal := fst res, jr_all := [sample_generation], jr_promise := [0 \<mapsto> 1]\<rparr>)"

definition sample_flushed :: jrun where
  "sample_flushed = sample_enqueued\<lparr>jr_journal := sync_finish (Inr ()) (sync_begin (jr_journal sample_enqueued))\<rparr>"

lemma sample_starts: "journal_start zero_codec sample_created"
proof -
  have "CreateJournal zero_codec RewriteOk leased_state = Inr (jr_journal sample_created)"
    using sample_facts by (simp add: CreateJournal_def rewriteLocked_def journal_content_def journal_records_def new_journal_def sample_created_def)
  then show ?thesis using sample_facts(2,3) by (auto simp: journal_start_def sample_created_def new_journal_def)
qed

lemma sample_enqueue:
  "Journal_Enqueue zero_codec [] 0 (Some sample_generation) (jr_journal sample_created) =
     ((jr_journal sample_created)\<lparr>jn_file := sample_header @ record_of zero_codec sample_generation, jn_nextSeq := 2, jn_entries := [sample_generation],
        jn_diskBytes := 8313, jn_pendingSync := [0], jn_pendingData := 1, jn_syncRunning := True\<rparr>, Some sample_generation)"
proof -
  have "encodeJournalRecord zero_codec (Some sample_generation) 1 = Inr (record_of zero_codec sample_generation, sample_generation)"
    using encodeJournalRecord_record_of [of sample_generation zero_codec] sample_fits
    by (simp add: journal_sequence_def journal_fits_def) (simp add: sample_generation_def)
  moreover have "\<not> Generation_Empty (Some sample_generation)" using sample_fits by (simp add: journal_sequence_def journal_fits_def)
  ultimately show ?thesis
    by (simp add: Journal_Enqueue_def sample_created_def new_journal_def journal_usable_def sample_record_length)
qed

lemma sample_enqueued_eq:
  "sample_enqueued = \<lparr>jr_journal = (jr_journal sample_created)\<lparr>jn_file := sample_header @ record_of zero_codec sample_generation, jn_nextSeq := 2,
       jn_entries := [sample_generation], jn_diskBytes := 8313, jn_pendingSync := [0], jn_pendingData := 1, jn_syncRunning := True\<rparr>,
     jr_all = [sample_generation], jr_promise = [0 \<mapsto> 1], jr_done = 0\<rparr>"
  by (simp add: sample_enqueued_def sample_enqueue Let_def) (simp add: sample_created_def)

lemma sample_flushed_facts:
  "jn_old (jr_journal sample_flushed) = None" "jn_stable (jr_journal sample_flushed) \<le> 100000" "jn_told (jr_journal sample_flushed) = [(0, None)]"
  "jr_promise sample_flushed = [0 \<mapsto> 1]" "jr_all sample_flushed = [sample_generation]" "jr_done sample_flushed = 0"
  "\<not> jn_syncRunning (jr_journal sample_flushed)"
  by (simp_all add: sample_flushed_def sample_enqueued_eq sync_finish_def sync_begin_def sample_created_def new_journal_def
      sample_record_length sample_facts(5) jn_tell_def)

lemma sample_sequence_number: "journalSeq sample_generation = 1"
  by (simp add: sample_generation_def)

lemma sample_flushed_run: "(journal_step zero_codec)\<^sup>*\<^sup>* sample_created sample_flushed"
proof -
  have one_below: "(1 :: u64) < - 1" by code_simp
  let ?res = "Journal_Enqueue zero_codec [] 0 (Some sample_generation) (jr_journal sample_created)"
  have "in_volume (jn_metadata (jr_journal sample_created)) (Some sample_generation)"
    using sample_fits by (simp add: in_volume_def sample_created_def new_journal_def journal_sequence_def journal_fits_def)
  from enqueued [of 0 sample_created "Some sample_generation" ?res zero_codec "[]", OF _ this _ refl]
  have 1: "journal_step zero_codec sample_created sample_enqueued"
    by (simp add: sample_enqueued_def sample_enqueue appended_def one_below) (simp add: sample_created_def new_journal_def one_below)
  let ?r = "sample_enqueued\<lparr>jr_journal := sync_begin (jr_journal sample_enqueued)\<rparr>"
  have 2: "journal_step zero_codec sample_enqueued ?r"
    by (rule sync_started) (simp_all add: sample_enqueued_eq sample_created_def new_journal_def)
  have "jn_syncing (jr_journal ?r) \<noteq> None" by (simp add: sync_begin_def sample_enqueued_eq)
  from sync_ended [OF this, of zero_codec "Inr ()"] have 3: "journal_step zero_codec ?r sample_flushed"
    by (simp add: sample_flushed_def)
  from 1 2 3 show ?thesis by (meson converse_rtranclp_into_rtranclp rtranclp.rtrancl_refl)
qed

text \<open>A round of flushing, from its start or from the flush under way.\<close>

lemma sync_round_idle:
  assumes "jn_syncing j = None" "jn_inflight j = []"
  shows "jn_syncing (sync_finish f (sync_begin j)) = None" "jn_inflight (sync_finish f (sync_begin j)) = []"
    "jn_pendingSync (sync_finish f (sync_begin j)) = []"
    "fst ` set (jn_told (sync_finish f (sync_begin j))) = fst ` set (jn_told j) \<union> set (jn_pendingSync j)"
  using assms by (auto simp: sync_begin_def sync_finish_def Let_def image_Un image_image split: sum.splits)

lemma sync_round_busy:
  assumes "jn_syncing j = Some (ws, n)"
  shows "jn_syncing (sync_finish f j) = None" "jn_inflight (sync_finish f j) = []"
    "fst ` set (jn_told (sync_finish f j)) \<union> set (jn_pendingSync (sync_finish f j)) =
     fst ` set (jn_told j) \<union> set ws \<union> set (jn_inflight j) \<union> set (jn_pendingSync j)"
  using assms by (auto simp: sync_finish_def Let_def image_Un image_image split: sum.splits)

section \<open>Properties\<close>

text \<open>
  C23. A journal file that is cut off anywhere after its header, as a crash in the middle of an
  append leaves it, is read as its metadata and exactly the generations whose records are
  completely there, in order and with their sequence numbers and blocks; the torn record is
  dropped, and reading ends where it starts.
\<close>

theorem journal_torn_roundtrip:
  assumes "jcodec_ok c" "good_metadata c m" "journal_content c m gs = Inr content" "journal_sequence m gs"
    "journalHeader c m = Inr h" "length h \<le> k"
  shows "\<exists>hs. prefix hs gs \<and> readJournal c (take k content, True) = Inr (m, map recovered hs, int (length (h @ records_of c hs))) \<and>
    length (h @ records_of c hs) \<le> k \<and> (\<forall>p. prefix p gs \<and> length (h @ records_of c p) \<le> k \<longrightarrow> prefix p hs)"
proof -
  let ?hs = "whole_records c (k - length h) gs"
  have "content = h @ records_of c gs"
    using journal_content_Inr [OF assms(3)] assms(4,5) by (auto simp: journal_sequence_def)
  then have "readJournal c (take k content, True) = Inr (m, map recovered ?hs, int (length (h @ records_of c ?hs)))"
    using readJournal_cut [OF assms(1,2,5,4,6)] by simp
  moreover have "prefix p ?hs" if p: "prefix p gs" "length (h @ records_of c p) \<le> k" for p
  proof -
    obtain t where "gs = p @ t" using p(1) by (auto simp: prefix_def)
    then show ?thesis using whole_records_all [of c p "k - length h" t] p(2) by simp
  qed
  moreover have "length (h @ records_of c ?hs) \<le> k" using whole_records_fit [of c "k - length h" gs] assms(6) by simp
  ultimately show ?thesis using whole_records_prefix by blast
qed

theorem journal_torn_roundtrip_witness:
  "readJournal zero_codec (take 1000 (sample_header @ record_of zero_codec sample_generation), True) = Inr (sample_metadata, [], 45)"
proof -
  have c: "journal_content zero_codec sample_metadata [sample_generation] = Inr (sample_header @ records_of zero_codec [sample_generation])"
    using sample_fits encodeJournalRecord_record_of [of sample_generation zero_codec]
    by (simp add: journal_content_def journal_records_def sample_facts journal_sequence_def journal_fits_def)
  from journal_torn_roundtrip [OF sample_facts(1,3) c sample_fits sample_facts(4), of 1000] sample_facts(5)
  obtain hs where hs: "prefix hs [sample_generation]" "length (sample_header @ records_of zero_codec hs) \<le> 1000"
    "readJournal zero_codec (take 1000 (sample_header @ records_of zero_codec [sample_generation]), True) =
      Inr (sample_metadata, map recovered hs, int (length (sample_header @ records_of zero_codec hs)))" by auto
  then have "hs = []" using sample_record_length by (auto simp: prefix_Cons)
  with hs(3) sample_facts(5) show ?thesis by simp
qed

text \<open>
  C4. A crash loses nothing that was promised. Over every interleaving of enqueues, flushes,
  acknowledgements with compaction, rebases and closing, with every failure of a write, a flush
  or a rewrite: as long as the last replacement of the file is stable, whatever prefix of the
  file a crash leaves beyond the part known to be stable, opening it gives a journal that
  contains every generation that was appended up to the point promised to a caller that was told
  of success and that has not been acknowledged as published.
\<close>

theorem journal_crash_keeps_promises:
  assumes "jcodec_ok c" "journal_start c r0" "(journal_step c)\<^sup>*\<^sup>* r0 r" "jn_old (jr_journal r) = None"
    "jn_stable (jr_journal r) \<le> k" "(w, None) \<in> set (jn_told (jr_journal r))" "jr_promise r w = Some q"
  shows "\<exists>j. OpenJournal c (Inr ()) (Inr ()) (take k (jn_file (jr_journal r))) = Inr j \<and>
    (\<forall>g \<in> set (jr_all r). jr_done r < journalSeq g \<and> journalSeq g \<le> q \<longrightarrow> recovered g \<in> set (Journal_Entries j))"
proof -
  let ?j = "jr_journal r"
  have "journal_inv c r" by (rule journal_inv_run [OF assms(3) journal_inv_start [OF assms(1,2)]])
  then obtain m h gs where "file_inv c r m h gs" using assms(4) by (auto simp: journal_inv_def)
  note f = this [unfolded file_inv_def Let_def]
  define n where "n = min k (length (jn_file ?j))"
  define hs where "hs = whole_records c (n - length h) gs"
  have cut: "take k (jn_file ?j) = take n (h @ records_of c gs)"
    unfolding n_def using f by (intro prefix_take) simp
  have n: "length h \<le> n" "jn_stable ?j \<le> n" using f assms(5) by (auto simp: n_def)
  have "within c h gs (jn_stable ?j) q"
    using f assms(6,7) by (force simp: kept_def satisfied_def)
  then obtain gs1 gs2 where split: "gs = gs1 @ gs2" "length (h @ records_of c gs1) \<le> n" "\<forall>g \<in> set gs2. q < journalSeq g"
    using n(2) by (auto simp: within_def)
  have pre: "prefix gs1 hs" unfolding hs_def split(1) using split(2) by (intro whole_records_all) simp
  have "g \<in> set hs" if "g \<in> set (jr_all r)" "jr_done r < journalSeq g" "journalSeq g \<le> q" for g
  proof -
    have "g \<in> set gs1 \<union> set gs2" using f that(1,2) split(1) by auto
    moreover have "g \<notin> set gs2" using split(3) that(3) leD by blast
    ultimately show ?thesis using set_mono_prefix [OF pre] by blast
  qed
  then show ?thesis
    using f n(1) unfolding cut by (subst OpenJournal_cut [OF assms(1)]) (auto simp: hs_def Let_def Journal_Entries_def)
qed

theorem journal_crash_keeps_promises_witness:
  "\<exists>j. OpenJournal zero_codec (Inr ()) (Inr ()) (take 100000 (jn_file (jr_journal sample_flushed))) = Inr j \<and>
     recovered sample_generation \<in> set (Journal_Entries j)"
  using journal_crash_keeps_promises [OF sample_facts(1) sample_starts sample_flushed_run, of 100000 0 1] sample_flushed_facts sample_sequence_number by auto

text \<open>
  C24. Nobody waits in vain. Over the same runs, every caller is told an outcome at most once;
  whoever has not been told yet waits for a goroutine that runs; and when that goroutine has
  ended everybody has been told. Two rounds of flushing (the one under way and one more) tell
  everybody who waits now, whatever the flushes come to.
\<close>

theorem journal_tells_everyone:
  assumes "jcodec_ok c" "journal_start c r0" "(journal_step c)\<^sup>*\<^sup>* r0 r"
  shows "distinct (map fst (jn_told (jr_journal r))) \<and>
    (\<not> jn_syncRunning (jr_journal r) \<longrightarrow> fst ` set (jn_told (jr_journal r)) = dom (jr_promise r)) \<and>
    (let round = (\<lambda>f j. sync_finish f (if jn_syncing j = None then sync_begin j else j)) in
     fst ` set (jn_told (round f2 (round f1 (jr_journal r)))) = dom (jr_promise r))"
proof -
  let ?j = "jr_journal r"
  have "waiters_inv r" using journal_inv_run [OF assms(3) journal_inv_start [OF assms(1,2)]] by (simp add: journal_inv_def)
  note w = this [unfolded waiters_inv_def Let_def]
  show ?thesis
  proof (cases "jn_syncing ?j")
    case None
    with w have "jn_inflight ?j = []" by simp
    note one = sync_round_idle [OF None this]
    show ?thesis using w None one sync_round_idle [OF one(1,2)] by (auto simp: callers_def Let_def)
  next
    case (Some p)
    obtain ws n where p: "p = (ws, n)" by (cases p)
    note one = sync_round_busy [OF Some [unfolded p]]
    show ?thesis using w Some p one sync_round_idle [OF one(1,2)] by (auto simp: callers_def Let_def)
  qed
qed

theorem journal_tells_everyone_witness:
  "distinct (map fst (jn_told (jr_journal sample_flushed))) \<and> fst ` set (jn_told (jr_journal sample_flushed)) = {0}"
  using journal_tells_everyone [OF sample_facts(1) sample_starts sample_flushed_run] sample_flushed_facts by auto

end
