(* ===== verification/Syncer.thy ===== *)
theory Syncer
  imports DeviceRun Publishing Journal
begin

text \<open>
  The replicator (\<open>internal/replica/syncer.go\<close>): the queue of sealed generations, the worker that
  publishes them and answers their callers, and the requests that start it. The state holds the
  components the replicator drives (device, lease with its store, journal) beside its own fields;
  a result channel is a number, the answers sent and the generations released are logged, and the channel on which the
  journal reports is the number of its caller. What the environment decides (the clock, the
  outcome of file operations, when the context ends) is an argument. The three log messages and the
  metrics are left out.
\<close>

section \<open>State\<close>

record syncRequest =
  rq_generation :: "Generation option"
  rq_checkpoint :: bool
  rq_result :: "nat option"
  rq_ready :: "nat option"

record ('h, 's) Syncer =
  sy_device :: "'h Device"
  sy_lease :: Lease
  sy_store :: 's
  sy_journal :: "Journal option"
  sy_interval :: int
  sy_checkpointInterval :: u64
  sy_wake :: bool
  sy_requests :: "syncRequest list"
  sy_closed :: bool
  sy_urgent :: bool
  sy_done :: bool
  sy_cancelled :: bool
  sy_stopped :: bool
  sy_pending :: "Generation list"
  sy_answers :: "(nat \<times> error option) list"
  sy_released :: "Generation list"
  sy_lost :: "error list"
  sy_events :: "device_event list"

text \<open>What a call of the replicator gets from outside: the wire format and the remote, the journal
  codec and the outcome of its writes and rewrites.\<close>

record 's syncenv =
  se_wire :: wire
  se_remote :: "'s Remote"
  se_jcodec :: jcodec

definition StartSyncer ::
  "'h Device \<Rightarrow> Lease \<Rightarrow> 's \<Rightarrow> int \<Rightarrow> u64 \<Rightarrow> Journal option \<Rightarrow> ('h, 's) Syncer" where
  "StartSyncer device lease store interval checkpointInterval journal =
     \<lparr>sy_device = device, sy_lease = lease, sy_store = store, sy_journal = journal, sy_interval = (if interval \<le> 0 then 5000000000 else interval),
      sy_checkpointInterval = checkpointInterval, sy_wake = False, sy_requests = [], sy_closed = False, sy_urgent = False, sy_done = False,
      sy_cancelled = False, sy_stopped = False, sy_pending = [], sy_answers = [], sy_released = [], sy_lost = [], sy_events = []\<rparr>"

section \<open>The queue\<close>

definition answer :: "nat option \<Rightarrow> error option \<Rightarrow> ('h, 's) Syncer \<Rightarrow> ('h, 's) Syncer" where
  "answer result err s = (case result of None \<Rightarrow> s | Some n \<Rightarrow> s\<lparr>sy_answers := sy_answers s @ [(n, err)]\<rparr>)"

definition enqueue :: "syncRequest \<Rightarrow> bool \<Rightarrow> ('h, 's) Syncer \<Rightarrow> ('h, 's) Syncer" where
  "enqueue request wake s =
     (if sy_closed s then answer (rq_result request) (Some (Errorf ''replicator stopped'')) s
      else
        let s1 = s\<lparr>sy_requests := sy_requests s @ [request]\<rparr> in
        if \<not> wake then s1 else s1\<lparr>sy_wake := True\<rparr>)"

definition rearmWakeIfQueued :: "('h, 's) Syncer \<Rightarrow> ('h, 's) Syncer" where
  "rearmWakeIfQueued s = (if sy_requests s = [] then s else s\<lparr>sy_wake := True\<rparr>)"

definition dequeue :: "('h, 's) Syncer \<Rightarrow> (syncRequest \<times> ('h, 's) Syncer) option" where
  "dequeue s = (case sy_requests s of [] \<Rightarrow> None | request # rest \<Rightarrow> Some (request, s\<lparr>sy_requests := rest\<rparr>))"

definition closeRequests :: "('h, 's) Syncer \<Rightarrow> ('h, 's) Syncer" where
  "closeRequests s =
     (let requests = sy_requests s; s1 = s\<lparr>sy_closed := True, sy_requests := [], sy_done := True\<rparr>
      in fold (\<lambda>request. answer (rq_result request) (Some (Errorf ''replicator stopped''))) requests s1)"

definition Notify :: "('h, 's) Syncer \<Rightarrow> ('h, 's) Syncer" where
  "Notify s = s\<lparr>sy_urgent := True\<rparr>"

section \<open>Requests\<close>

text \<open>A sealed generation goes to the journal before it is queued; \<open>ready\<close> is the number under which
  the journal reports, \<open>script\<close> the writes of the journal file.\<close>

definition prepareLocalGeneration ::
  "'s syncenv \<Rightarrow> (nat \<times> error option) list \<Rightarrow> nat \<Rightarrow> Generation option \<Rightarrow> ('h, 's) Syncer \<Rightarrow> syncRequest \<times> ('h, 's) Syncer" where
  "prepareLocalGeneration E script ready g s =
     (case sy_journal s of
        None \<Rightarrow> (\<lparr>rq_generation = g, rq_checkpoint = False, rq_result = None, rq_ready = None\<rparr>, s)
      | Some j \<Rightarrow>
          if Generation_Empty g then (\<lparr>rq_generation = g, rq_checkpoint = False, rq_result = None, rq_ready = None\<rparr>, s)
          else
            (case Journal_Enqueue (se_jcodec E) script ready g j of
               (j', g') \<Rightarrow> (\<lparr>rq_generation = g', rq_checkpoint = False, rq_result = None, rq_ready = Some ready\<rparr>, s\<lparr>sy_journal := Some j'\<rparr>)))"

definition backgroundRequest ::
  "'s syncenv \<Rightarrow> (nat \<times> error option) list \<Rightarrow> nat \<Rightarrow> ('h, 's) Syncer \<Rightarrow> syncRequest \<times> ('h, 's) Syncer" where
  "backgroundRequest E script ready s =
     (case dequeue s of
        Some (request, s') \<Rightarrow> (request, s')
      | None \<Rightarrow> (case sealLocked (sy_device s) of (g, d) \<Rightarrow> prepareLocalGeneration E script ready g (s\<lparr>sy_device := d\<rparr>)))"

text \<open>\<open>request\<close> up to the point where it waits for its result.\<close>

definition Syncer_request ::
  "'s syncenv \<Rightarrow> (nat \<times> error option) list \<Rightarrow> nat \<Rightarrow> nat \<Rightarrow> bool \<Rightarrow> ('h, 's) Syncer \<Rightarrow> ('h, 's) Syncer" where
  "Syncer_request E script ready result checkpoint s =
     (case sealLocked (sy_device s) of
        (g, d) \<Rightarrow>
          (case prepareLocalGeneration E script ready g (s\<lparr>sy_device := d\<rparr>) of
             (rq, s1) \<Rightarrow> enqueue (rq\<lparr>rq_checkpoint := checkpoint, rq_result := Some result\<rparr>) True s1))"

definition Sync :: "'s syncenv \<Rightarrow> (nat \<times> error option) list \<Rightarrow> nat \<Rightarrow> nat \<Rightarrow> ('h, 's) Syncer \<Rightarrow> ('h, 's) Syncer" where
  "Sync E script ready result s = Syncer_request E script ready result False s"

definition SyncCheckpoint :: "'s syncenv \<Rightarrow> (nat \<times> error option) list \<Rightarrow> nat \<Rightarrow> nat \<Rightarrow> ('h, 's) Syncer \<Rightarrow> ('h, 's) Syncer" where
  "SyncCheckpoint E script ready result s = Syncer_request E script ready result True s"

definition EnqueueGeneration :: "nat \<Rightarrow> Generation option \<Rightarrow> ('h, 's) Syncer \<Rightarrow> ('h, 's) Syncer" where
  "EnqueueGeneration result g s = enqueue \<lparr>rq_generation = g, rq_checkpoint = False, rq_result = Some result, rq_ready = None\<rparr> True s"

text \<open>\<open>EnqueueLocalGeneration\<close>: the caller is answered by the journal (under the same number).\<close>

definition EnqueueLocalGeneration ::
  "'s syncenv \<Rightarrow> (nat \<times> error option) list \<Rightarrow> nat \<Rightarrow> Generation option \<Rightarrow> ('h, 's) Syncer \<Rightarrow> ('h, 's) Syncer \<times> error option" where
  "EnqueueLocalGeneration E script ready g s =
     (case sy_journal s of
        None \<Rightarrow> (s, Some (Errorf ''local journal is not configured''))
      | Some j \<Rightarrow>
          (case Journal_Enqueue (se_jcodec E) script ready g j of
             (j', g') \<Rightarrow>
               let s1 = s\<lparr>sy_journal := Some j'\<rparr> in
               (if Generation_Empty g then s1
                else enqueue \<lparr>rq_generation = g', rq_checkpoint = False, rq_result = None, rq_ready = Some ready\<rparr> False s1, None)))"

definition EnqueueRecovered :: "Generation list \<Rightarrow> ('h, 's) Syncer \<Rightarrow> ('h, 's) Syncer" where
  "EnqueueRecovered generations s =
     fold (\<lambda>g. enqueue \<lparr>rq_generation = Some g, rq_checkpoint = False, rq_result = None, rq_ready = None\<rparr> False) generations s"

section \<open>Publishing\<close>

text \<open>What ends a wait of \<open>publishWithRetry\<close> after a failed attempt: the context had already ended when
  the attempt returned, or the next attempt is made at the given time. When nothing more is given
  the context ends during the wait.\<close>

datatype retry_tick = Ended | Again int

fun publishWithRetry :: "wire \<Rightarrow> 's Remote \<Rightarrow> Segment list \<Rightarrow> int \<Rightarrow> retry_tick list \<Rightarrow> Lease \<Rightarrow> 's \<Rightarrow> Lease \<times> 's \<times> unit result" where
  "publishWithRetry w r segments now [] l s =
     (case Publish w r now segments l s of
        (l', s', Inr u) \<Rightarrow> (l', s', Inr ())
      | (l', s', Inl e) \<Rightarrow> (l', s', Inl (if errors_Is e ErrLeaseLost then e else ContextError)))"
| "publishWithRetry w r segments now (tick # ticks) l s =
     (case Publish w r now segments l s of
        (l', s', Inr u) \<Rightarrow> (l', s', Inr ())
      | (l', s', Inl e) \<Rightarrow>
          if errors_Is e ErrLeaseLost then (l', s', Inl e)
          else (case tick of Ended \<Rightarrow> (l', s', Inl e) | Again now' \<Rightarrow> publishWithRetry w r segments now' ticks l' s'))"

definition journal_sequence_of :: "Generation list \<Rightarrow> u64" where
  "journal_sequence_of gs = fold (\<lambda>g m. max m (journalSeq g)) gs 0"

definition release_all :: "Generation list \<Rightarrow> ('h, 's) Syncer \<Rightarrow> ('h, 's) Syncer" where
  "release_all gs s =
     fold (\<lambda>g s. case Release (Some g) (sy_device s) of (d, ev) \<Rightarrow> s\<lparr>sy_device := d, sy_released := sy_released s @ [g], sy_events := sy_events s @ ev\<rparr>) gs s"

definition Syncer_sync ::
  "'s syncenv \<Rightarrow> int \<Rightarrow> retry_tick list \<Rightarrow> rewrite_io \<Rightarrow> ('h, 's) Syncer \<Rightarrow> ('h, 's) Syncer \<times> unit result" where
  "Syncer_sync E now ticks io s =
     (if sy_pending s = [] then (s, Inr ())
      else
        case EncodeSegments (codec.truncate (se_wire E)) (Some (mergeGenerations (sy_pending s))) DefaultSegmentBlocks of
          Inl e \<Rightarrow> (s, Inl e)
        | Inr segments \<Rightarrow>
            (case publishWithRetry (se_wire E) (se_remote E) segments now ticks (sy_lease s) (sy_store s) of
               (l, st, Inl e) \<Rightarrow> (s\<lparr>sy_lease := l, sy_store := st\<rparr>, Inl e)
             | (l, st, Inr _) \<Rightarrow>
                 let s1 = s\<lparr>sy_lease := l, sy_store := st\<rparr>; q = journal_sequence_of (sy_pending s);
                     acknowledged =
                       (case sy_journal s1 of
                          None \<Rightarrow> (s1, Inr ())
                        | Some j \<Rightarrow>
                            if q > 0 then (case Acknowledge (se_jcodec E) io q (ls_state l) j of (j', res) \<Rightarrow> (s1\<lparr>sy_journal := Some j'\<rparr>, res))
                            else (s1, Inr ()))
                 in (case acknowledged of
                       (s2, Inl e) \<Rightarrow> (s2, Inl (Wrap ''acknowledge remote generation'' ErrLocalJournal))
                     | (s2, Inr _) \<Rightarrow> ((release_all (sy_pending s) s2)\<lparr>sy_pending := []\<rparr>, Inr ()))))"

definition Syncer_checkpoint :: "'s syncenv \<Rightarrow> getter \<Rightarrow> int \<Rightarrow> ('h, 's) Syncer \<Rightarrow> ('h, 's) Syncer \<times> unit result" where
  "Syncer_checkpoint E get now s =
     (let state = ls_state (sy_lease s) in
      if sy_checkpointInterval s = 0 then (s, Inr ())
      else if s_Generation state - Checkpoint state < sy_checkpointInterval s then (s, Inr ())
      else
        (case PublishCheckpoint (se_wire E) (se_remote E) get now (sy_lease s) (sy_store s) of
           (l, st, res) \<Rightarrow> (s\<lparr>sy_lease := l, sy_store := st\<rparr>, res)))"

section \<open>The worker\<close>

text \<open>\<open>drain\<close>: further requests are taken until there are 128.\<close>

fun drain :: "nat \<Rightarrow> syncRequest list \<Rightarrow> ('h, 's) Syncer \<Rightarrow> syncRequest list \<times> ('h, 's) Syncer" where
  "drain 0 requests s = (requests, s)"
| "drain (Suc n) requests s =
     (if length requests < 128 then
        (case dequeue s of
           None \<Rightarrow> (requests, s)
         | Some (request, s') \<Rightarrow> drain n (requests @ [request]) s')
      else (requests, s))"

definition take_requests :: "syncRequest \<Rightarrow> ('h, 's) Syncer \<Rightarrow> syncRequest list \<times> ('h, 's) Syncer" where
  "take_requests first s = (case drain 128 [first] s of (requests, s') \<Rightarrow> (requests, rearmWakeIfQueued s'))"

text \<open>Waiting for the journal: \<open>told\<close> is what it reported; a request whose report does not come waits
  until the context ends.\<close>

datatype ready_outcome = AllReady | JournalFailed error | WaitCancelled

fun await_ready :: "(nat \<rightharpoonup> error option) \<Rightarrow> syncRequest list \<Rightarrow> Generation list \<Rightarrow> Generation list \<times> ready_outcome" where
  "await_ready told [] pending = (pending, AllReady)"
| "await_ready told (rq # requests) pending =
     (let continue = await_ready told requests (if Generation_Empty (rq_generation rq) then pending else pending @ [the (rq_generation rq)]) in
      case rq_ready rq of
        None \<Rightarrow> continue
      | Some n \<Rightarrow>
          (case told n of
             None \<Rightarrow> (pending, WaitCancelled)
           | Some (Some e) \<Rightarrow> (pending, JournalFailed e)
           | Some None \<Rightarrow> continue))"

definition answer_all :: "syncRequest list \<Rightarrow> error option \<Rightarrow> ('h, 's) Syncer \<Rightarrow> ('h, 's) Syncer" where
  "answer_all requests err s = fold (\<lambda>rq. answer (rq_result rq) err) requests s"

definition error_of :: "unit result \<Rightarrow> error option" where
  "error_of res = (case res of Inl e \<Rightarrow> Some e | Inr _ \<Rightarrow> None)"

text \<open>\<open>process\<close> from the requests it has taken. \<open>now'\<close> and \<open>get\<close> are the clock and the store when a
  checkpoint is made.\<close>

definition process ::
  "'s syncenv \<Rightarrow> (nat \<rightharpoonup> error option) \<Rightarrow> int \<Rightarrow> retry_tick list \<Rightarrow> rewrite_io \<Rightarrow> getter \<Rightarrow> int \<Rightarrow> syncRequest list \<Rightarrow> ('h, 's) Syncer \<Rightarrow>
     ('h, 's) Syncer \<times> unit result" where
  "process E told now ticks io get now' requests s =
     (case await_ready told requests (sy_pending s) of
        (pending, JournalFailed e) \<Rightarrow>
          let err = Wrap ''local journal'' ErrLocalJournal in (answer_all requests (Some err) (s\<lparr>sy_pending := pending\<rparr>), Inl err)
      | (pending, WaitCancelled) \<Rightarrow> (s\<lparr>sy_pending := pending\<rparr>, Inl ContextError)
      | (pending, AllReady) \<Rightarrow>
          let checkpoint = list_ex rq_checkpoint requests in
          (case Syncer_sync E now ticks io (s\<lparr>sy_pending := pending\<rparr>) of
             (s1, res1) \<Rightarrow>
               (case (if is_ok res1 \<and> checkpoint then Syncer_checkpoint E get now' s1 else (s1, res1)) of
                  (s2, res2) \<Rightarrow>
                    let s3 = answer_all requests (error_of res2) s2 in
                    if is_ok res2 \<and> \<not> checkpoint then Syncer_checkpoint E get now' s3 else (s3, res2))))"

text \<open>The loop of \<open>run\<close>: what it takes up when it is woken, notified or its ticker fires, and what it
  does with the outcome of \<open>process\<close>. A lost lease or a failed journal is reported and ends it, as
  does the end of its context; any other failure is retried in a later round.\<close>

datatype trigger = WakeUp | UrgentUp | TickUp

definition run_take ::
  "'s syncenv \<Rightarrow> (nat \<times> error option) list \<Rightarrow> nat \<Rightarrow> trigger \<Rightarrow> ('h, 's) Syncer \<Rightarrow> (syncRequest list \<times> ('h, 's) Syncer) option" where
  "run_take E script ready t s =
     (case t of
        WakeUp \<Rightarrow> (case dequeue (s\<lparr>sy_wake := False\<rparr>) of None \<Rightarrow> None | Some (rq, s1) \<Rightarrow> Some (take_requests rq s1))
      | UrgentUp \<Rightarrow> (case backgroundRequest E script ready (s\<lparr>sy_urgent := False\<rparr>) of (rq, s1) \<Rightarrow> Some (take_requests rq s1))
      | TickUp \<Rightarrow> (case backgroundRequest E script ready s of (rq, s1) \<Rightarrow> Some (take_requests rq s1)))"

definition after_process :: "('h, 's) Syncer \<times> unit result \<Rightarrow> ('h, 's) Syncer" where
  "after_process r =
     (case r of
        (s, Inr _) \<Rightarrow> s
      | (s, Inl e) \<Rightarrow>
          if errors_Is e ErrLeaseLost \<or> errors_Is e ErrLocalJournal then closeRequests (s\<lparr>sy_lost := sy_lost s @ [e]\<rparr>)
          else if e = ContextError then closeRequests s
          else s)"

text \<open>\<open>Stop\<close> after its final request was answered with \<open>synced\<close>; \<open>waits\<close> is the wait for an archive
  upload in \<open>Release\<close>. Cancelling the worker's context makes it close the queue.\<close>

definition Syncer_Stop :: "'s syncenv \<Rightarrow> unit result \<Rightarrow> unit result \<Rightarrow> ('h, 's) Syncer \<Rightarrow> ('h, 's) Syncer \<times> unit result" where
  "Syncer_Stop E synced waits s =
     (if sy_stopped s then (s, Inr ())
      else
        case synced of
          Inl e \<Rightarrow> (s, Inl e)
        | Inr _ \<Rightarrow>
            (case Lease_Release (se_wire E) (se_remote E) waits (sy_lease s) (sy_store s) of
               (l, st, Inl e) \<Rightarrow> (s\<lparr>sy_lease := l, sy_store := st\<rparr>, Inl e)
             | (l, st, Inr _) \<Rightarrow> ((closeRequests (s\<lparr>sy_lease := l, sy_store := st, sy_cancelled := True\<rparr>))\<lparr>sy_stopped := True\<rparr>, Inr ())))"

definition Abandon :: "('h, 's) Syncer \<Rightarrow> ('h, 's) Syncer" where
  "Abandon s = closeRequests (s\<lparr>sy_cancelled := True\<rparr>)"

end
