(* ===== verification/SyncerRun.thy ===== *)
theory SyncerRun
  imports Syncer "HOL-Library.Sublist"
begin

text \<open>
  The replicator at work: callers queue generations while the worker takes them up, publishes and
  answers. Generations are published in the order in which they were queued, none is skipped or
  repeated, and a caller that is told of success knows that everything queued before it is
  published.
\<close>

section \<open>Publishing with retries\<close>

lemma publishWithRetry_awaiting:
  assumes "awaiting segments base l" "publishWithRetry w r segments now ticks l s = (l', s', res)"
  shows "if res = Inr () then s_Generation (ls_state l') = s_Generation base + 1 else awaiting segments base l'"
  using assms
proof (induction w r segments now ticks l s rule: publishWithRetry.induct)
  case (1 w r segments now l s)
  obtain l1 s1 r1 where p: "Publish w r now segments l s = (l1, s1, r1)" by (metis prod_cases3)
  show ?case using Publish_awaiting [OF "1.prems"(1) p] "1.prems"(2) p by (cases r1) auto
next
  case (2 w r segments now tick ticks l s)
  obtain l1 s1 r1 where p: "Publish w r now segments l s = (l1, s1, r1)" by (metis prod_cases3)
  show ?case
  proof (cases r1)
    case (Inr u)
    then show ?thesis using Publish_awaiting [OF "2.prems"(1) p] "2.prems"(2) p by simp
  next
    case (Inl e)
    then have aw: "awaiting segments base l1" using Publish_awaiting [OF "2.prems"(1) p] by simp
    show ?thesis
    proof (cases "errors_Is e ErrLeaseLost \<or> tick = Ended")
      case True
      then show ?thesis using aw Inl p "2.prems"(2) by (auto split: if_splits)
    next
      case False
      then obtain now' where "tick = Again now'" by (cases tick) auto
      then show ?thesis using "2.IH" [OF p [symmetric] refl Inl _ _ aw] False Inl p "2.prems"(2) by simp
    qed
  qed
qed

section \<open>Runs\<close>

definition gen_of :: "syncRequest \<Rightarrow> Generation list" where
  "gen_of rq = (if Generation_Empty (rq_generation rq) then [] else [the (rq_generation rq)])"

definition gens_of :: "syncRequest list \<Rightarrow> Generation list" where
  "gens_of rqs = concat (map gen_of rqs)"

text \<open>The replicator with the requests the worker has taken up, and what a run has to remember: the
  generations queued so far, and for each caller those queued up to its request.\<close>

record ('h, 's) srun =
  sr_syncer :: "('h, 's) Syncer"
  sr_taken :: "syncRequest list option"
  sr_queued :: "Generation list"
  sr_upto :: "nat \<rightharpoonup> Generation list"

text \<open>The requests an operation has added to the queue.\<close>

definition note_requests :: "syncRequest list \<Rightarrow> ('h, 's) srun \<Rightarrow> ('h, 's) srun" where
  "note_requests rqs r =
     fold (\<lambda>rq r. let q = sr_queued r @ gen_of rq in
       r\<lparr>sr_queued := q, sr_upto := (case rq_result rq of None \<Rightarrow> sr_upto r | Some n \<Rightarrow> (sr_upto r)(n \<mapsto> q))\<rparr>) rqs r"

text \<open>What callers, the device and the journal's goroutine do to the replicator. Each call adds requests
  at the end of the queue; device and journal may change in any way.\<close>

inductive client_op :: "'s syncenv \<Rightarrow> ('h, 's) Syncer \<Rightarrow> ('h, 's) Syncer \<Rightarrow> bool" for E where
  "client_op E s (EnqueueGeneration n g s)"
| "client_op E s (fst (EnqueueLocalGeneration E script ready g s))"
| "client_op E s (EnqueueRecovered gs s)"
| "client_op E s (Sync E script ready n s)"
| "client_op E s (SyncCheckpoint E script ready n s)"
| "client_op E s (Notify s)"
| "client_op E s (s\<lparr>sy_device := d, sy_journal := j\<rparr>)"

definition added :: "('h, 's) Syncer \<Rightarrow> ('h, 's) Syncer \<Rightarrow> syncRequest list" where
  "added s s' = drop (length (sy_requests s)) (sy_requests s')"

definition results_of :: "syncRequest list \<Rightarrow> nat list" where
  "results_of rqs = List.map_filter rq_result rqs"

text \<open>Result channels are fresh.\<close>

definition fresh_results :: "syncRequest list \<Rightarrow> ('h, 's) srun \<Rightarrow> bool" where
  "fresh_results rqs r \<longleftrightarrow> distinct (results_of rqs) \<and> set (results_of rqs) \<inter> dom (sr_upto r) = {}"

inductive syncer_step :: "'s syncenv \<Rightarrow> ('h, 's) srun \<Rightarrow> ('h, 's) srun \<Rightarrow> bool" for E where
  called: "client_op E (sr_syncer r) s' \<Longrightarrow> fresh_results (added (sr_syncer r) s') r \<Longrightarrow>
    syncer_step E r (note_requests (added (sr_syncer r) s') (r\<lparr>sr_syncer := s'\<rparr>))"
| took: "sr_taken r = None \<Longrightarrow> \<not> sy_done (sr_syncer r) \<Longrightarrow> run_take E script ready t (sr_syncer r) = Some (rqs, s') \<Longrightarrow>
    syncer_step E r (note_requests (if sy_requests (sr_syncer r) = [] then rqs else []) (r\<lparr>sr_syncer := s', sr_taken := Some rqs\<rparr>))"
| woke: "sr_taken r = None \<Longrightarrow> syncer_step E r (r\<lparr>sr_syncer := (sr_syncer r)\<lparr>sy_wake := False\<rparr>\<rparr>)"
| processed: "sr_taken r = Some rqs \<Longrightarrow>
    syncer_step E r (r\<lparr>sr_syncer := after_process (process E told now ticks io get now' rqs (sr_syncer r)), sr_taken := None\<rparr>)"
| cancelled: "syncer_step E r (r\<lparr>sr_syncer := (sr_syncer r)\<lparr>sy_cancelled := True\<rparr>\<rparr>)"
| ended: "sr_taken r = None \<Longrightarrow> sy_cancelled (sr_syncer r) \<Longrightarrow> syncer_step E r (r\<lparr>sr_syncer := closeRequests (sr_syncer r)\<rparr>)"

definition syncer_start :: "('h, 's) Syncer \<Rightarrow> ('h, 's) srun" where
  "syncer_start s = \<lparr>sr_syncer = s, sr_taken = None, sr_queued = [], sr_upto = Map.empty\<rparr>"

section \<open>The invariant\<close>

text \<open>Each request in the list knows the generations queued up to it, \<open>base\<close> being those before the list.\<close>

fun tracked :: "Generation list \<Rightarrow> syncRequest list \<Rightarrow> (nat \<rightharpoonup> Generation list) \<Rightarrow> bool" where
  "tracked base [] known = True"
| "tracked base (rq # rqs) known =
     ((case rq_result rq of None \<Rightarrow> True | Some n \<Rightarrow> known n = Some (base @ gen_of rq)) \<and> tracked (base @ gen_of rq) rqs known)"

definition in_hand :: "('h, 's) srun \<Rightarrow> syncRequest list" where
  "in_hand r = (case sr_taken r of None \<Rightarrow> [] | Some rqs \<Rightarrow> rqs)"

definition syncer_inv :: "('h, 's) srun \<Rightarrow> bool" where
  "syncer_inv r \<longleftrightarrow>
     (let s = sr_syncer r; base = sy_released s @ sy_pending s; rqs = in_hand r @ sy_requests s in
      prefix (sy_released s) (sr_queued r) \<and> sy_closed s = sy_done s \<and>
      (\<forall>n. (n, None) \<in> set (sy_answers s) \<longrightarrow> (\<exists>gs. sr_upto r n = Some gs \<and> prefix gs (sy_released s))) \<and>
      (sy_done s \<longrightarrow> sr_taken r = None \<and> sy_requests s = []) \<and>
      (\<not> sy_done s \<longrightarrow> sr_queued r = base @ gens_of rqs \<and> tracked base rqs (sr_upto r)))"

lemma gens_of_simps [simp]:
  "gens_of [] = []" "gens_of (rqs @ rqs') = gens_of rqs @ gens_of rqs'"
  "gens_of (rq # rqs) = gen_of rq @ gens_of rqs"
  by (simp_all add: gens_of_def)

lemma tracked_append: "tracked base (xs @ ys) known \<longleftrightarrow> tracked base xs known \<and> tracked (base @ gens_of xs) ys known"
  by (induction xs arbitrary: base) auto

lemma results_of_simps [simp]: "results_of [] = []" "results_of (rqs @ rqs') = results_of rqs @ results_of rqs'"
  "results_of (rq # rqs) = (case rq_result rq of None \<Rightarrow> results_of rqs | Some n \<Rightarrow> n # results_of rqs)"
  by (simp_all add: results_of_def List.map_filter_def split: option.splits)

lemma tracked_cong: "(\<And>n. n \<in> set (results_of rqs) \<Longrightarrow> known' n = known n) \<Longrightarrow> tracked base rqs known' = tracked base rqs known"
  by (induction rqs arbitrary: base) (auto split: option.splits)

lemma tracked_results: "tracked base rqs known \<Longrightarrow> n \<in> set (results_of rqs) \<Longrightarrow> \<exists>gs. known n = Some gs \<and> prefix gs (base @ gens_of rqs)"
  by (induction rqs arbitrary: base) (auto split: option.splits if_splits, (force simp: prefix_def)+)

lemma note_requests_simps [simp]: "note_requests [] r = r"
  "note_requests (rq # rqs) r = note_requests rqs (r\<lparr>sr_queued := sr_queued r @ gen_of rq,
     sr_upto := (case rq_result rq of None \<Rightarrow> sr_upto r | Some n \<Rightarrow> (sr_upto r)(n \<mapsto> sr_queued r @ gen_of rq))\<rparr>)"
  by (simp_all add: note_requests_def Let_def)

lemma note_requests_facts:
  "sr_syncer (note_requests rqs r) = sr_syncer r" "sr_taken (note_requests rqs r) = sr_taken r"
  "sr_queued (note_requests rqs r) = sr_queued r @ gens_of rqs"
  "n \<notin> set (results_of rqs) \<Longrightarrow> sr_upto (note_requests rqs r) n = sr_upto r n"
  by (induction rqs arbitrary: r) (auto split: option.splits)

lemma note_requests_tracked:
  "distinct (results_of rqs) \<Longrightarrow> tracked (sr_queued r) rqs (sr_upto (note_requests rqs r))"
proof (induction rqs arbitrary: r)
  case (Cons rq rqs)
  let ?r = "r\<lparr>sr_queued := sr_queued r @ gen_of rq,
     sr_upto := (case rq_result rq of None \<Rightarrow> sr_upto r | Some n \<Rightarrow> (sr_upto r)(n \<mapsto> sr_queued r @ gen_of rq))\<rparr>"
  have "tracked (sr_queued ?r) rqs (sr_upto (note_requests rqs ?r))" using Cons by (intro Cons.IH) (auto split: option.splits)
  moreover have "rq_result rq = Some n \<Longrightarrow> sr_upto (note_requests rqs ?r) n = Some (sr_queued r @ gen_of rq)" for n
    using Cons.prems by (subst note_requests_facts(4)) auto
  ultimately show ?case by (simp split: option.splits)
qed simp

lemma tracked_dom: "tracked base rqs known \<Longrightarrow> set (results_of rqs) \<subseteq> dom known"
  by (induction rqs arbitrary: base) (auto split: option.splits)

text \<open>Requests added at the end of the queue.\<close>

lemma syncer_inv_note:
  assumes "syncer_inv r" "fresh_results rqs r" "\<not> sy_done (sr_syncer r)"
    "sy_released s' = sy_released (sr_syncer r)" "sy_pending s' = sy_pending (sr_syncer r)" "sy_answers s' = sy_answers (sr_syncer r)"
    "sy_closed s' = sy_closed (sr_syncer r)" "sy_done s' = sy_done (sr_syncer r)"
    "in_hand (r\<lparr>sr_taken := t\<rparr>) @ sy_requests s' = in_hand r @ sy_requests (sr_syncer r) @ rqs"
  shows "syncer_inv (note_requests rqs (r\<lparr>sr_syncer := s', sr_taken := t\<rparr>))"
proof -
  let ?r = "r\<lparr>sr_syncer := s', sr_taken := t\<rparr>" and ?s = "sr_syncer r"
  let ?base = "sy_released ?s @ sy_pending ?s" and ?old = "in_hand r @ sy_requests ?s"
  note i = assms(1) [unfolded syncer_inv_def Let_def]
  have old: "sr_queued r = ?base @ gens_of ?old" "tracked ?base ?old (sr_upto r)" using i assms(3) by simp_all
  have keep: "sr_upto (note_requests rqs ?r) n = sr_upto r n" if "n \<in> dom (sr_upto r)" for n
  proof -
    have "n \<notin> set (results_of rqs)" using assms(2) that by (auto simp: fresh_results_def)
    then show ?thesis using note_requests_facts(4) [of n rqs ?r] by simp
  qed
  have "tracked ?base ?old (sr_upto (note_requests rqs ?r))"
    using old(2) tracked_cong [of ?old "sr_upto (note_requests rqs ?r)" "sr_upto r" ?base] tracked_dom [OF old(2)] keep by blast
  moreover have "tracked (?base @ gens_of ?old) rqs (sr_upto (note_requests rqs ?r))"
    using note_requests_tracked [of rqs ?r] assms(2) old(1) by (simp add: fresh_results_def)
  ultimately have tr: "tracked ?base (?old @ rqs) (sr_upto (note_requests rqs ?r))" by (simp add: tracked_append)
  have ans: "\<exists>gs. sr_upto (note_requests rqs ?r) n = Some gs \<and> prefix gs (sy_released ?s)" if "(n, None) \<in> set (sy_answers ?s)" for n
    using i that keep by (metis domI)
  have hand: "in_hand (note_requests rqs ?r) = in_hand (r\<lparr>sr_taken := t\<rparr>)" by (simp add: in_hand_def note_requests_facts)
  have "in_hand (r\<lparr>sr_taken := t\<rparr>) @ sy_requests s' = ?old @ rqs" using assms(9) by simp
  moreover from arg_cong [OF this, of gens_of]
  have "gens_of (in_hand (r\<lparr>sr_taken := t\<rparr>)) @ gens_of (sy_requests s') = gens_of (in_hand r) @ gens_of (sy_requests ?s) @ gens_of rqs" by simp
  ultimately show ?thesis using i tr ans old(1) assms(3-8)
    by (simp add: syncer_inv_def Let_def note_requests_facts hand)
qed

section \<open>What the operations do to the queue\<close>

lemma answer_sel [simp]:
  "sy_requests (answer n e s) = sy_requests s" "sy_released (answer n e s) = sy_released s" "sy_pending (answer n e s) = sy_pending s"
  "sy_closed (answer n e s) = sy_closed s" "sy_done (answer n e s) = sy_done s" "sy_journal (answer n e s) = sy_journal s"
  "sy_answers (answer n e s) = sy_answers s @ (case n of None \<Rightarrow> [] | Some k \<Rightarrow> [(k, e)])"
  by (simp_all add: answer_def split: option.splits)

lemma answer_all_sel [simp]:
  "sy_requests (answer_all rqs e s) = sy_requests s" "sy_released (answer_all rqs e s) = sy_released s" "sy_pending (answer_all rqs e s) = sy_pending s"
  "sy_closed (answer_all rqs e s) = sy_closed s" "sy_done (answer_all rqs e s) = sy_done s"
  "sy_answers (answer_all rqs e s) = sy_answers s @ map (\<lambda>n. (n, e)) (results_of rqs)"
  by (induction rqs arbitrary: s) (simp_all add: answer_all_def split: option.splits)

lemma closeRequests_answer_all:
  "closeRequests s = answer_all (sy_requests s) (Some (Errorf ''replicator stopped'')) (s\<lparr>sy_closed := True, sy_requests := [], sy_done := True\<rparr>)"
  by (simp add: closeRequests_def answer_all_def Let_def)

text \<open>An operation leaves the worker's side alone, adds \<open>rqs\<close> to an open queue and answers a caller with
  success never.\<close>

definition appends :: "syncRequest list \<Rightarrow> ('h, 's) Syncer \<Rightarrow> ('h, 's) Syncer \<Rightarrow> bool" where
  "appends rqs s s' \<longleftrightarrow> sy_released s' = sy_released s \<and> sy_pending s' = sy_pending s \<and> sy_closed s' = sy_closed s \<and> sy_done s' = sy_done s \<and>
     (if sy_closed s then sy_requests s' = sy_requests s \<and> (\<forall>n. (n, None) \<in> set (sy_answers s') \<longleftrightarrow> (n, None) \<in> set (sy_answers s))
      else sy_requests s' = sy_requests s @ rqs \<and> sy_answers s' = sy_answers s)"

lemma appends_refl: "appends [] s s"
  by (simp add: appends_def)

lemma appends_trans: "appends rqs s s' \<Longrightarrow> appends rqs' s' s'' \<Longrightarrow> appends (rqs @ rqs') s s''"
  by (auto simp: appends_def split: if_splits)

lemma enqueue_appends: "appends [rq] s (enqueue rq wake s)"
  by (auto simp: appends_def enqueue_def Let_def split: option.splits)

lemma prepareLocalGeneration_appends: "prepareLocalGeneration E script ready g s = (rq, s') \<Longrightarrow> appends [] s s'"
  by (auto simp: prepareLocalGeneration_def appends_def split: option.splits if_splits prod.splits)

lemma fold_enqueue_appends: "appends (map f gs) s (fold (\<lambda>g. enqueue (f g) False) gs s)"
proof (induction gs arbitrary: s)
  case (Cons g gs)
  then show ?case using appends_trans [OF enqueue_appends Cons.IH] by simp
qed (simp add: appends_refl)

lemma appends_device: "appends [] s (s\<lparr>sy_device := d, sy_journal := j\<rparr>)" "appends [] s (s\<lparr>sy_device := d\<rparr>)" "appends [] s (s\<lparr>sy_journal := j\<rparr>)"
  by (simp_all add: appends_def)

lemma Syncer_request_appends: "\<exists>rqs. appends rqs s (Syncer_request E script ready n chk s)"
proof -
  obtain g d where g: "sealLocked (sy_device s) = (g, d)" by fastforce
  obtain rq s1 where p: "prepareLocalGeneration E script ready g (s\<lparr>sy_device := d\<rparr>) = (rq, s1)" by fastforce
  have "appends [] s s1"
    using appends_trans [OF appends_device(2) prepareLocalGeneration_appends [OF p]] by simp
  from appends_trans [OF this enqueue_appends] show ?thesis by (auto simp: Syncer_request_def g p)
qed

lemma client_op_appends: "client_op E s s' \<Longrightarrow> \<exists>rqs. appends rqs s s'"
proof (induction rule: client_op.induct)
  case (1 s n g)
  then show ?case by (auto simp: EnqueueGeneration_def intro: enqueue_appends)
next
  case (2 s script ready g)
  show ?case
  proof (cases "sy_journal s")
    case None
    then show ?thesis by (auto simp: EnqueueLocalGeneration_def intro: appends_refl)
  next
    case (Some j)
    obtain j' g' where "Journal_Enqueue (se_jcodec E) script ready g j = (j', g')" by fastforce
    moreover have "\<exists>rqs. appends rqs s (enqueue rq wake (s\<lparr>sy_journal := Some j'\<rparr>))" for rq wake
      using appends_trans [OF appends_device(3) enqueue_appends] by blast
    ultimately show ?thesis using Some appends_device(3) [of s "Some j'"] by (auto simp: EnqueueLocalGeneration_def Let_def)
  qed
next
  case (3 s gs)
  then show ?case by (auto simp: EnqueueRecovered_def intro: fold_enqueue_appends)
next
  case (4 s script ready n)
  then show ?case by (simp add: Sync_def Syncer_request_appends)
next
  case (5 s script ready n)
  then show ?case by (simp add: SyncCheckpoint_def Syncer_request_appends)
next
  case (6 s)
  then show ?case by (auto simp: Notify_def appends_def intro: exI [of _ "[]"])
next
  case (7 s d j)
  then show ?case using appends_device(1) by blast
qed

text \<open>Two states that differ in the queue only, as far as the run is concerned.\<close>

definition same_work :: "('h, 's) Syncer \<Rightarrow> ('h, 's) Syncer \<Rightarrow> bool" where
  "same_work s s' \<longleftrightarrow> sy_released s' = sy_released s \<and> sy_pending s' = sy_pending s \<and> sy_answers s' = sy_answers s \<and> sy_closed s' = sy_closed s \<and>
     sy_done s' = sy_done s"

lemma drain_takes:
  "drain n rqs s = (rqs', s') \<Longrightarrow> \<exists>ts. rqs' = rqs @ ts \<and> sy_requests s = ts @ sy_requests s' \<and> same_work s s'"
proof (induction n rqs s rule: drain.induct)
  case (2 n rqs s)
  then show ?case by (cases "sy_requests s") (fastforce simp: dequeue_def same_work_def split: if_splits)+
qed (simp add: same_work_def)

lemma take_requests_takes:
  assumes "take_requests rq s = (rqs, s')"
  shows "\<exists>ts. rqs = rq # ts \<and> sy_requests s = ts @ sy_requests s' \<and> same_work s s'"
proof -
  obtain rqs1 s1 where d: "drain 128 [rq] s = (rqs1, s1)" by fastforce
  from drain_takes [OF d] assms d show ?thesis by (auto simp: take_requests_def rearmWakeIfQueued_def same_work_def)
qed

lemma run_take_takes:
  assumes "run_take E script ready t s = Some (rqs, s')" "\<not> sy_closed s"
  shows "same_work s s' \<and>
    rqs @ sy_requests s' = sy_requests s @ (if sy_requests s = [] then rqs else []) \<and> (sy_requests s = [] \<longrightarrow> results_of rqs = [])"
proof -
  define s0 where "s0 = (case t of WakeUp \<Rightarrow> s\<lparr>sy_wake := False\<rparr> | UrgentUp \<Rightarrow> s\<lparr>sy_urgent := False\<rparr> | TickUp \<Rightarrow> s)"
  have s0: "sy_requests s0 = sy_requests s" "same_work s s0" by (cases t; simp add: s0_def same_work_def)+
  show ?thesis
  proof (cases "sy_requests s")
    case (Cons rq rest)
    then have "take_requests rq (s0\<lparr>sy_requests := rest\<rparr>) = (rqs, s')"
      using assms(1) s0(1) by (cases t) (auto simp: run_take_def backgroundRequest_def dequeue_def s0_def)
    from take_requests_takes [OF this] Cons s0 show ?thesis by (auto simp: same_work_def)
  next
    case Nil
    then have "t \<noteq> WakeUp" using assms(1) by (auto simp: run_take_def dequeue_def)
    obtain g d where g: "sealLocked (sy_device s0) = (g, d)" by fastforce
    obtain rq s1 where p: "prepareLocalGeneration E script ready g (s0\<lparr>sy_device := d\<rparr>) = (rq, s1)" by fastforce
    have "take_requests rq s1 = (rqs, s')"
      using assms(1) Nil \<open>t \<noteq> WakeUp\<close> g p by (cases t) (simp_all add: run_take_def backgroundRequest_def dequeue_def s0_def)
    note t = take_requests_takes [OF this]
    have "appends [] s0 s1" using appends_trans [OF appends_device(2) prepareLocalGeneration_appends [OF p]] by simp
    moreover have "rq_result rq = None" using p by (auto simp: prepareLocalGeneration_def split: option.splits if_splits prod.splits)
    ultimately show ?thesis using t Nil s0 assms(2) by (auto simp: appends_def same_work_def)
  qed
qed

lemma release_all_sel [simp]:
  "sy_requests (release_all gs s) = sy_requests s" "sy_released (release_all gs s) = sy_released s @ gs" "sy_answers (release_all gs s) = sy_answers s"
  "sy_closed (release_all gs s) = sy_closed s" "sy_done (release_all gs s) = sy_done s" "sy_lease (release_all gs s) = sy_lease s"
  "sy_store (release_all gs s) = sy_store s" "sy_journal (release_all gs s) = sy_journal s"
  by (induction gs arbitrary: s) (simp_all add: release_all_def split: prod.splits)

text \<open>What a synchronisation does with the pending generations.\<close>

lemma Syncer_sync_work:
  assumes "Syncer_sync E now ticks io s = (s', res)"
  shows "sy_requests s' = sy_requests s \<and> sy_answers s' = sy_answers s \<and> sy_closed s' = sy_closed s \<and> sy_done s' = sy_done s \<and>
    (if res = Inr () then sy_released s' = sy_released s @ sy_pending s \<and> sy_pending s' = []
     else sy_released s' = sy_released s \<and> sy_pending s' = sy_pending s)"
proof (cases "sy_pending s = []")
  case True
  then show ?thesis using assms by (auto simp: Syncer_sync_def)
next
  case False
  show ?thesis
  proof (cases "EncodeSegments (codec.truncate (se_wire E)) (Some (mergeGenerations (sy_pending s))) DefaultSegmentBlocks")
    case (Inl e)
    then show ?thesis using assms False by (auto simp: Syncer_sync_def)
  next
    case (Inr segments)
    obtain l st r where p: "publishWithRetry (se_wire E) (se_remote E) segments now ticks (sy_lease s) (sy_store s) = (l, st, r)"
      by (metis prod_cases3)
    show ?thesis
    proof (cases r)
      case (Inl e)
      then show ?thesis using assms False Inr p by (auto simp: Syncer_sync_def)
    next
      case ok: (Inr u)
      let ?q = "journal_sequence_of (sy_pending s)"
      define acked where "acked = (case sy_journal s of None \<Rightarrow> (s\<lparr>sy_lease := l, sy_store := st\<rparr>, Inr ())
        | Some j \<Rightarrow> if ?q > 0 then (case Acknowledge (se_jcodec E) io ?q (ls_state l) j of (j', res) \<Rightarrow> (s\<lparr>sy_lease := l, sy_store := st, sy_journal := Some j'\<rparr>, res))
          else (s\<lparr>sy_lease := l, sy_store := st\<rparr>, Inr ()))"
      obtain s2 r2 where a: "acked = (s2, r2)" by (cases acked)
      have "sy_requests s2 = sy_requests s" "sy_answers s2 = sy_answers s" "sy_closed s2 = sy_closed s" "sy_done s2 = sy_done s"
        "sy_released s2 = sy_released s" "sy_pending s2 = sy_pending s"
        using a by (auto simp: acked_def split: option.splits if_splits prod.splits)
      moreover have "(s', res) = (case acked of (s2, Inl e) \<Rightarrow> (s2, Inl (Wrap ''acknowledge remote generation'' ErrLocalJournal))
          | (s2, Inr _) \<Rightarrow> ((release_all (sy_pending s) s2)\<lparr>sy_pending := []\<rparr>, Inr ()))"
        using assms False Inr p ok by (simp add: Syncer_sync_def Let_def acked_def)
      ultimately show ?thesis using a by (cases r2) auto
    qed
  qed
qed

lemma Syncer_checkpoint_work:
  "Syncer_checkpoint E get now s = (s', res) \<Longrightarrow> same_work s s' \<and> sy_requests s' = sy_requests s"
  by (auto simp: Syncer_checkpoint_def same_work_def Let_def split: if_splits prod.splits)

lemma await_ready_all: "await_ready told rqs pending = (pending', AllReady) \<Longrightarrow> pending' = pending @ gens_of rqs"
  by (induction told rqs pending rule: await_ready.induct) (auto simp: gen_of_def Let_def split: option.splits if_splits)

text \<open>What a round of the worker does: it goes on with everything either published and answered or kept for a
  later round, or it ends.\<close>

lemma process_work:
  assumes "process E told now ticks io get now' rqs s = (s', res)"
  shows "sy_requests s' = sy_requests s \<and> sy_closed s' = sy_closed s \<and> sy_done s' = sy_done s \<and>
    ((\<exists>e. res = Inl e \<and> (errors_Is e ErrLocalJournal \<or> e = ContextError)) \<and> sy_released s' = sy_released s \<and>
       (\<forall>n. (n, None) \<in> set (sy_answers s') \<longrightarrow> (n, None) \<in> set (sy_answers s)) \<or>
     sy_pending s' = [] \<and> sy_released s' = sy_released s @ sy_pending s @ gens_of rqs \<and>
       (\<forall>n. (n, None) \<in> set (sy_answers s') \<longrightarrow> (n, None) \<in> set (sy_answers s) \<or> n \<in> set (results_of rqs)) \<or>
     sy_pending s' = sy_pending s @ gens_of rqs \<and> sy_released s' = sy_released s \<and>
       (\<forall>n. (n, None) \<in> set (sy_answers s') \<longrightarrow> (n, None) \<in> set (sy_answers s)))"
proof -
  obtain pending out where w: "await_ready told rqs (sy_pending s) = (pending, out)" by fastforce
  show ?thesis
  proof (cases out)
    case AllReady
    define chk where "chk = list_ex rq_checkpoint rqs"
    obtain s1 r1 where s1: "Syncer_sync E now ticks io (s\<lparr>sy_pending := pending\<rparr>) = (s1, r1)" by fastforce
    obtain s2 r2 where s2: "(if is_ok r1 \<and> chk then Syncer_checkpoint E get now' s1 else (s1, r1)) = (s2, r2)" by fastforce
    have res: "(s', res) = (if is_ok r2 \<and> \<not> chk then Syncer_checkpoint E get now' (answer_all rqs (error_of r2) s2) else (answer_all rqs (error_of r2) s2, r2))"
      using assms w AllReady s1 s2 by (simp add: process_def Let_def chk_def)
    note one = Syncer_sync_work [OF s1]
    have two: "same_work s1 s2 \<and> sy_requests s2 = sy_requests s1" "is_ok r2 \<Longrightarrow> is_ok r1"
    proof -
      show "same_work s1 s2 \<and> sy_requests s2 = sy_requests s1"
      proof (cases "is_ok r1 \<and> chk")
        case True
        with s2 show ?thesis by (intro Syncer_checkpoint_work) simp
      next
        case False
        with s2 have "s2 = s1" by simp
        then show ?thesis by (simp add: same_work_def)
      qed
      show "is_ok r2 \<Longrightarrow> is_ok r1" using s2 by (simp split: if_splits)
    qed
    let ?s3 = "answer_all rqs (error_of r2) s2"
    have "same_work ?s3 s' \<and> sy_requests s' = sy_requests ?s3"
    proof (cases "is_ok r2 \<and> \<not> chk")
      case True
      then have "Syncer_checkpoint E get now' ?s3 = (s', res)" using res [symmetric] by simp
      then show ?thesis by (rule Syncer_checkpoint_work)
    next
      case False
      with res have "s' = ?s3" by simp
      then show ?thesis by (simp add: same_work_def)
    qed
    then have three: "same_work ?s3 s' \<and> sy_requests s' = sy_requests s2" by simp
    have pend: "pending = sy_pending s @ gens_of rqs" using await_ready_all w AllReady by simp
    have err: "error_of r2 = None \<longleftrightarrow> is_ok r2" by (cases r2) (simp_all add: error_of_def)
    have f: "sy_requests s' = sy_requests s" "sy_closed s' = sy_closed s" "sy_done s' = sy_done s" "sy_pending s' = sy_pending s1" "sy_released s' = sy_released s1"
        "sy_answers s' = sy_answers s @ map (\<lambda>n. (n, error_of r2)) (results_of rqs)"
      using one two(1) three by (simp_all add: same_work_def)
    show ?thesis
    proof (cases r1)
      case (Inr u)
      then have "sy_pending s' = []" "sy_released s' = sy_released s @ sy_pending s @ gens_of rqs" using f one pend by simp_all
      moreover have "(n, None) \<in> set (sy_answers s') \<longrightarrow> (n, None) \<in> set (sy_answers s) \<or> n \<in> set (results_of rqs)" for n using f(6) by auto
      ultimately show ?thesis using f(1-3) by blast
    next
      case (Inl e)
      then have "error_of r2 \<noteq> None" using two(2) err by auto
      then have "(n, None) \<in> set (sy_answers s') \<longrightarrow> (n, None) \<in> set (sy_answers s)" for n using f(6) by auto
      moreover have "sy_pending s' = sy_pending s @ gens_of rqs" "sy_released s' = sy_released s" using Inl f one pend by simp_all
      ultimately show ?thesis using f(1-3) by blast
    qed
  next
    case (JournalFailed e)
    then show ?thesis using assms w by (auto simp: process_def Let_def)
  next
    case WaitCancelled
    then show ?thesis using assms w by (auto simp: process_def)
  qed
qed

section \<open>Preservation\<close>

lemma syncer_inv_closed:
  assumes "prefix (sy_released s) (sr_queued r)" "\<And>n. (n, None) \<in> set (sy_answers s) \<Longrightarrow> \<exists>gs. sr_upto r n = Some gs \<and> prefix gs (sy_released s)"
  shows "syncer_inv (r\<lparr>sr_syncer := closeRequests s, sr_taken := None\<rparr>)"
  using assms by (auto simp: syncer_inv_def in_hand_def closeRequests_answer_all Let_def)

lemma in_hand_cong: "in_hand (r\<lparr>sr_syncer := s\<rparr>) = in_hand r"
  by (simp add: in_hand_def)

lemma syncer_inv_processed:
  assumes "syncer_inv r" "sr_taken r = Some rqs" "process E told now ticks io get now' rqs (sr_syncer r) = (s', res)"
  shows "syncer_inv (r\<lparr>sr_syncer := after_process (s', res), sr_taken := None\<rparr>)"
proof -
  let ?s = "sr_syncer r" and ?base = "sy_released (sr_syncer r) @ sy_pending (sr_syncer r)"
  note i = assms(1) [unfolded syncer_inv_def Let_def in_hand_def assms(2) option.case]
  note w = process_work [OF assms(3)]
  have live: "\<not> sy_done ?s" "\<not> sy_closed ?s" using i by auto
  then have q: "sr_queued r = ?base @ gens_of (rqs @ sy_requests ?s)" and t: "tracked ?base (rqs @ sy_requests ?s) (sr_upto r)" using i by simp_all
  have tr: "tracked ?base rqs (sr_upto r)" "tracked (?base @ gens_of rqs) (sy_requests ?s) (sr_upto r)" using t by (simp_all add: tracked_append)
  have ans: "\<exists>gs. sr_upto r n = Some gs \<and> prefix gs (sy_released s')" if n: "(n, None) \<in> set (sy_answers s')" for n
  proof -
    have "prefix (sy_released ?s) (sy_released s')" using w by auto
    moreover have "(n, None) \<in> set (sy_answers ?s) \<or> n \<in> set (results_of rqs) \<and> sy_released s' = ?base @ gens_of rqs" using w n by auto
    moreover have "\<exists>gs. sr_upto r n = Some gs \<and> prefix gs (sy_released ?s)" if "(n, None) \<in> set (sy_answers ?s)" using i that by blast
    ultimately show ?thesis using tracked_results [OF tr(1), of n] by (auto intro: prefix_order.trans)
  qed
  have pre: "prefix (sy_released s') (sr_queued r)" using w q by auto
  show ?thesis
  proof (cases "\<exists>e. res = Inl e \<and> (errors_Is e ErrLeaseLost \<or> errors_Is e ErrLocalJournal \<or> e = ContextError)")
    case True
    then have "(\<exists>e. after_process (s', res) = closeRequests (s'\<lparr>sy_lost := sy_lost s' @ [e]\<rparr>)) \<or> after_process (s', res) = closeRequests s'"
      by (auto simp: after_process_def)
    then show ?thesis
    proof
      assume "\<exists>e. after_process (s', res) = closeRequests (s'\<lparr>sy_lost := sy_lost s' @ [e]\<rparr>)"
      then obtain e where e: "after_process (s', res) = closeRequests (s'\<lparr>sy_lost := sy_lost s' @ [e]\<rparr>)" by blast
      show ?thesis unfolding e using pre ans by (intro syncer_inv_closed) auto
    next
      assume e: "after_process (s', res) = closeRequests s'"
      show ?thesis unfolding e using pre ans by (intro syncer_inv_closed) auto
    qed
  next
    case False
    then have "after_process (s', res) = s'" by (cases res) (auto simp: after_process_def)
    moreover have "sy_released s' @ sy_pending s' = ?base @ gens_of rqs" using w False by auto
    ultimately show ?thesis using w live pre ans q tr(2) i by (simp add: syncer_inv_def in_hand_def Let_def)
  qed
qed

lemma syncer_inv_step:
  assumes "syncer_inv r" "syncer_step E r r'"
  shows "syncer_inv r'"
  using assms(2)
proof cases
  case (called s')
  let ?s = "sr_syncer r"
  from client_op_appends [OF called(2)] obtain rqs where a: "appends rqs ?s s'" by blast
  note i = assms(1) [unfolded syncer_inv_def Let_def]
  show ?thesis
  proof (cases "sy_done ?s")
    case True
    then have "sy_closed ?s" using i by simp
    then have "added ?s s' = []" using a by (simp add: appends_def added_def)
    then show ?thesis using called(1) True i a by (auto simp: syncer_inv_def Let_def appends_def in_hand_cong)
  next
    case False
    then have "\<not> sy_closed ?s" using i by simp
    then have s': "sy_requests s' = sy_requests ?s @ rqs" "added ?s s' = rqs" using a by (simp_all add: appends_def added_def)
    have "syncer_inv (note_requests rqs (r\<lparr>sr_syncer := s', sr_taken := sr_taken r\<rparr>))"
      using a False i called(3) s' by (intro syncer_inv_note [OF assms(1)]) (auto simp: appends_def)
    then show ?thesis using called(1) s'(2) by simp
  qed
next
  case (took script ready t rqs s')
  let ?s = "sr_syncer r" and ?new = "if sy_requests (sr_syncer r) = [] then rqs else []"
  have "\<not> sy_closed ?s" using assms(1) took(3) by (simp add: syncer_inv_def Let_def)
  note t = run_take_takes [OF took(4) this]
  have "syncer_inv (note_requests ?new (r\<lparr>sr_syncer := s', sr_taken := Some rqs\<rparr>))"
    using t took(2,3) by (intro syncer_inv_note [OF assms(1)]) (auto simp: same_work_def in_hand_def fresh_results_def)
  then show ?thesis using took(1) by simp
next
  case woke
  then show ?thesis using assms(1) by (simp add: syncer_inv_def Let_def in_hand_def)
next
  case (processed rqs told now ticks io get now')
  obtain s' res where p: "process E told now ticks io get now' rqs (sr_syncer r) = (s', res)" by fastforce
  from syncer_inv_processed [OF assms(1) processed(2) p] show ?thesis using processed(1) p by simp
next
  case cancelled
  then show ?thesis using assms(1) by (simp add: syncer_inv_def Let_def in_hand_def)
next
  case ended
  have "syncer_inv (r\<lparr>sr_syncer := closeRequests (sr_syncer r), sr_taken := None\<rparr>)"
    using assms(1) by (intro syncer_inv_closed) (auto simp: syncer_inv_def Let_def)
  then show ?thesis using ended(1,2) by (simp add: syncer_inv_def in_hand_def)
qed

lemma syncer_inv_start: "sy_released s = [] \<Longrightarrow> sy_pending s = [] \<Longrightarrow> sy_requests s = [] \<Longrightarrow> sy_answers s = [] \<Longrightarrow> \<not> sy_closed s \<Longrightarrow> \<not> sy_done s \<Longrightarrow>
    syncer_inv (syncer_start s)"
  by (simp add: syncer_inv_def syncer_start_def in_hand_def)

lemma syncer_inv_run: "(syncer_step E)\<^sup>*\<^sup>* r r' \<Longrightarrow> syncer_inv r \<Longrightarrow> syncer_inv r'"
  by (induction rule: rtranclp_induct) (auto intro: syncer_inv_step)

end
