(* ===== verification/SyncerClaims.thy ===== *)
theory SyncerClaims
  imports SyncerRun LeaseClaims
begin

text \<open>The properties of the replicator.\<close>

section \<open>Merged generations\<close>

lemma merge_snoc: "fmlookup (gen_Blocks (mergeGenerations (gs @ [g]))) = fmlookup (gen_Blocks (mergeGenerations gs)) ++ fmlookup (gen_Blocks g)"
  by (rule ext) (auto simp: mergeGenerations_def Let_def fmdom_lookup map_add_def split: option.splits)

lemma merge_overlay:
  "overlay (fmlookup (gen_Blocks (mergeGenerations gs))) img = foldl (\<lambda>img g. overlay (fmlookup (gen_Blocks g)) img) img gs"
proof (induction gs rule: rev_induct)
  case (snoc g gs)
  then show ?case by (simp add: merge_snoc flip: overlay_overlay)
qed (simp add: mergeGenerations_def)

lemma merge_lookup_from: "fmlookup (gen_Blocks (mergeGenerations gs)) b = Some d \<Longrightarrow> \<exists>g \<in> set gs. fmlookup (gen_Blocks g) b = Some d"
proof (induction gs rule: rev_induct)
  case (snoc g gs)
  then show ?case by (auto simp: merge_snoc map_add_def split: option.splits)
qed (simp add: mergeGenerations_def)

lemma merge_encodable:
  assumes "gs \<noteq> []" "\<forall>g \<in> set gs. encodable_generation g"
  shows "encodable_generation (mergeGenerations gs)"
proof -
  obtain hs g where gs: "gs = hs @ [g]" using assms(1) by (cases gs rule: rev_cases) auto
  then have "\<not> Generation_Empty (Some g)" using assms(2) by (simp add: encodable_generation_def)
  then obtain b where "b \<in> fset (fmdom (gen_Blocks g))" by (auto simp: Generation_Empty_def)
  then obtain d where "fmlookup (gen_Blocks g) b = Some d" by (auto simp: fmdom_lookup)
  then have "b \<in> fset (fmdom (gen_Blocks (mergeGenerations gs)))" by (simp add: gs merge_snoc fmdom_lookup)
  then have "\<not> Generation_Empty (Some (mergeGenerations gs))" by (auto simp: Generation_Empty_def)
  moreover have "wf_generation (mergeGenerations gs)"
    using assms(2) merge_lookup_from [of gs] unfolding wf_generation_def encodable_generation_def by blast
  moreover have "b < maxImageBlocks" if b: "b \<in> fset (fmdom (gen_Blocks (mergeGenerations gs)))" for b
  proof -
    obtain d where "fmlookup (gen_Blocks (mergeGenerations gs)) b = Some d" using b by (auto simp: fmdom_lookup)
    from merge_lookup_from [OF this] obtain h where "h \<in> set gs" "b \<in> fset (fmdom (gen_Blocks h))" by (auto simp: fmdom_lookup)
    then show ?thesis using assms(2) by (auto simp: encodable_generation_def)
  qed
  ultimately show ?thesis by (auto simp: encodable_generation_def)
qed

section \<open>Properties\<close>

text \<open>
  C5. Generations are published in the order in which they were queued, and success means
  durability. Over every interleaving of callers, writes to the device, flushes of the journal and
  rounds of the worker, with failures of the store, the journal and the lease at any point: what
  has been published and released is a prefix of what was queued, without gaps or repetitions, and a
  caller that was answered with success has all generations queued up to its request in it.
\<close>

theorem syncer_publishes_in_order:
  assumes "(syncer_step E)\<^sup>*\<^sup>* (syncer_start (StartSyncer device lease store interval every journal)) r"
  shows "prefix (sy_released (sr_syncer r)) (sr_queued r) \<and>
    (\<forall>n. (n, None) \<in> set (sy_answers (sr_syncer r)) \<longrightarrow> (\<exists>gs. sr_upto r n = Some gs \<and> prefix gs (sy_released (sr_syncer r))))"
proof -
  have "syncer_inv r" by (rule syncer_inv_run [OF assms syncer_inv_start]) (simp_all add: StartSyncer_def)
  then show ?thesis by (simp add: syncer_inv_def Let_def)
qed

text \<open>A flush with nothing to write, answered by a round of the worker, and then a generation.\<close>

definition idle_device :: "unit Device" where
  "idle_device = \<lparr>d_file = empty_image, d_size = 8192, maxDirty = 8192, d_dirty = 0, d_active = fmempty, onBackpressure = False, onDirty = False,
     onDirtyChange = False, dirtyThreshold = 4096, dirtyNotified = False, onFlush = False, onDurableFlush = True, skipLocalFlush = True,
     localDirty = False, blockPool = [], d_hydrator = None, d_closed = False, queuedFlush = False\<rparr>"

definition tiny_env :: "contended_memory syncenv" where
  "tiny_env = \<lparr>se_wire = tiny_wire, se_remote = tiny_remote, se_jcodec = \<lparr>jc_sha256 = (\<lambda>x. []), jc_marshal = (\<lambda>m. []), jc_unmarshal = (\<lambda>x. Inl EOF)\<rparr>\<rparr>"

definition one_block :: Generation where
  "one_block = \<lparr>gen_Blocks = fmap_of_list [(0, replicate BlockSize 0)], gen_bytes = 4096, journalSeq = 0\<rparr>"

definition sample_syncer :: "(unit, contended_memory) Syncer" where
  "sample_syncer = StartSyncer idle_device tiny_lease tiny_taken 0 0 None"

definition idle_request :: syncRequest where
  "idle_request = \<lparr>rq_generation = None, rq_checkpoint = False, rq_result = Some 0, rq_ready = None\<rparr>"

definition sample_answered :: "(unit, contended_memory) Syncer" where
  "sample_answered = sample_syncer\<lparr>sy_answers := [(0, None)]\<rparr>"

definition sample_end :: "(unit, contended_memory) srun" where
  "sample_end = \<lparr>sr_syncer = EnqueueGeneration 1 (Some one_block) sample_answered, sr_taken = None, sr_queued = [one_block], sr_upto = [0 \<mapsto> [], 1 \<mapsto> [one_block]]\<rparr>"

lemma one_block_encodable: "encodable_generation one_block"
  by (auto simp: encodable_generation_def one_block_def wf_generation_def Generation_Empty_def maxImageBlocks_def fmlookup_of_list split: if_splits)

lemma sample_end_reached: "(syncer_step tiny_env)\<^sup>*\<^sup>* (syncer_start sample_syncer) sample_end"
proof -
  let ?s1 = "sample_syncer\<lparr>sy_requests := [idle_request], sy_wake := True\<rparr>"
  let ?r1 = "\<lparr>sr_syncer = ?s1, sr_taken = None, sr_queued = [], sr_upto = [0 \<mapsto> []]\<rparr>"
  let ?r2 = "\<lparr>sr_syncer = sample_syncer, sr_taken = Some [idle_request], sr_queued = [], sr_upto = [0 \<mapsto> []]\<rparr>"
  let ?r3 = "\<lparr>sr_syncer = sample_answered, sr_taken = None, sr_queued = [], sr_upto = [0 \<mapsto> []]\<rparr>"
  have q: "sy_requests sample_syncer = []" "\<not> sy_closed sample_syncer" "\<not> sy_done sample_syncer" "sy_pending sample_syncer = []" "sy_wake sample_syncer = False"
    "sy_answers sample_syncer = []" "sy_checkpointInterval sample_syncer = 0"
    by (simp_all add: sample_syncer_def StartSyncer_def)
  have e1: "EnqueueGeneration 0 None sample_syncer = ?s1" using q by (simp add: EnqueueGeneration_def enqueue_def idle_request_def)
  have "gen_of idle_request = []" "rq_result idle_request = Some 0" by (simp_all add: gen_of_def idle_request_def Generation_Empty_def)
  then have "syncer_step tiny_env (syncer_start sample_syncer) ?r1"
    using called [of tiny_env "syncer_start sample_syncer" ?s1] client_op.intros(1) [of tiny_env sample_syncer 0 None] q e1
    by (simp add: added_def fresh_results_def syncer_start_def)
  moreover have "syncer_step tiny_env ?r1 ?r2"
  proof -
    have "?s1\<lparr>sy_wake := False, sy_requests := []\<rparr> = sample_syncer" by (simp add: sample_syncer_def StartSyncer_def)
    then have "run_take tiny_env [] 0 WakeUp ?s1 = Some ([idle_request], sample_syncer)"
      using q by (simp add: run_take_def dequeue_def take_requests_def numeral_eq_Suc rearmWakeIfQueued_def)
    from took [of ?r1 tiny_env "[]" 0 WakeUp "[idle_request]" sample_syncer] this q show ?thesis by simp
  qed
  moreover have "syncer_step tiny_env ?r2 ?r3"
  proof -
    have "process tiny_env Map.empty 110 [] RewriteOk sample_get 110 [idle_request] sample_syncer = (sample_answered, Inr ())"
      using q by (simp add: process_def idle_request_def Generation_Empty_def Syncer_sync_def Syncer_checkpoint_def answer_all_def answer_def error_of_def Let_def sample_answered_def)
    with processed [of ?r2 "[idle_request]" tiny_env Map.empty 110 "[]" RewriteOk sample_get 110] show ?thesis by (simp add: after_process_def)
  qed
  moreover have "syncer_step tiny_env ?r3 sample_end"
  proof -
    have "gen_of \<lparr>rq_generation = Some one_block, rq_checkpoint = False, rq_result = Some 1, rq_ready = None\<rparr> = [one_block]"
      using one_block_encodable by (simp add: gen_of_def encodable_generation_def)
    then show ?thesis
      using called [of tiny_env ?r3 "EnqueueGeneration 1 (Some one_block) sample_answered"] client_op.intros(1) [of tiny_env sample_answered 1 "Some one_block"] q
      by (simp add: added_def fresh_results_def EnqueueGeneration_def enqueue_def sample_answered_def sample_end_def)
  qed
  ultimately show ?thesis by (meson converse_rtranclp_into_rtranclp rtranclp.rtrancl_refl)
qed

theorem syncer_publishes_in_order_witness:
  "prefix (sy_released (sr_syncer sample_end)) [one_block] \<and> (\<exists>gs. sr_upto sample_end 0 = Some gs \<and> prefix gs (sy_released (sr_syncer sample_end)))"
proof -
  have "(0, None) \<in> set (sy_answers (sr_syncer sample_end))"
    by (simp add: sample_end_def EnqueueGeneration_def enqueue_def sample_answered_def sample_syncer_def StartSyncer_def)
  moreover have "sr_queued sample_end = [one_block]" by (simp add: sample_end_def)
  ultimately show ?thesis using syncer_publishes_in_order [OF sample_end_reached [unfolded sample_syncer_def]] by metis
qed


definition sample_busy :: "(unit, contended_memory) Syncer" where
  "sample_busy = sample_syncer\<lparr>sy_pending := [one_block]\<rparr>"

definition sample_synced :: "(unit, contended_memory) Syncer \<times> unit result" where
  "sample_synced = Syncer_sync tiny_env 110 [Again 120] RewriteOk sample_busy"


end
