(* ===== verification/History.thy ===== *)
theory History
  imports LeaseRun AppendHead Restore
begin

text \<open>
  The history of a volume (\<open>internal/replica/remote.go\<close>): walking it, restoring a point in time,
  and listing the volumes of a store. As in a restore, the reading of immutable objects goes through
  \<open>get\<close>, the store at the time.
\<close>

section \<open>History\<close>

text \<open>\<open>loadHistory\<close>: the chain of manifests, newest first. Behind the newest checkpoint a missing object
  ends it. \<open>fuel\<close> is what is left of the million manifests the code reads.\<close>

fun history_loop ::
  "nat \<Rightarrow> wire \<Rightarrow> getter \<Rightarrow> State \<Rightarrow> string \<Rightarrow> u64 \<Rightarrow> bool \<Rightarrow> bundle_cache \<Rightarrow> manifestEntry list result" where
  "history_loop 0 w get state key expected behind bundles = invalid ''manifest history is too long''"
| "history_loop (Suc fuel) w get state key expected behind bundles =
     (if key = [] then Inr []
      else
        case readManifestWithSourceCache w get state key expected bundles of
          Inl e \<Rightarrow> if errors_Is e ErrNotFound \<and> behind then Inr [] else Inl e
        | Inr (manifest, bundle, bundles') \<Rightarrow>
            let entry = \<lparr>e_key = key, e_manifest = manifest, e_bundle = bundle\<rparr> in
            if m_Generation manifest = 1 then (if Parent manifest \<noteq> [] then invalid ''generation one manifest has a parent'' else Inr [entry])
            else if Parent manifest = [] \<and> Kind manifest \<noteq> ''checkpoint'' then invalid ''manifest history ended before generation one''
            else bindR (history_loop fuel w get state (Parent manifest) (expected - 1) (behind \<or> Kind manifest = ''checkpoint'') bundles') (\<lambda>rest.
              Inr (entry # rest)))"

definition loadHistory :: "wire \<Rightarrow> getter \<Rightarrow> State \<Rightarrow> manifestEntry list result" where
  "loadHistory w get state =
     (if s_Generation state = 0 then Inr []
      else history_loop 1000001 w get state (s_Manifest state) (s_Generation state) False fmempty)"

record RestoreOptions =
  ro_Generation :: u64
  ro_Timestamp :: int

definition entry_selected :: "RestoreOptions \<Rightarrow> manifestEntry \<Rightarrow> bool" where
  "entry_selected opts entry \<longleftrightarrow>
     ro_Generation opts \<noteq> 0 \<and> m_Generation (e_manifest entry) = ro_Generation opts \<or>
     ro_Timestamp opts \<noteq> 0 \<and> \<not> CreatedAt (e_manifest entry) > ro_Timestamp opts"

definition selectHistory :: "wire \<Rightarrow> getter \<Rightarrow> State \<Rightarrow> RestoreOptions \<Rightarrow> manifestEntry result" where
  "selectHistory w get state opts =
     bindR (loadHistory w get state) (\<lambda>history.
       case find (entry_selected opts) history of
         Some entry \<Rightarrow> Inr entry
       | None \<Rightarrow> if ro_Generation opts \<noteq> 0 then invalid ''generation is not retained'' else invalid ''no generation at or before the time is retained'')"

text \<open>The state of a volume as of an entry of its history.\<close>

definition state_at :: "State \<Rightarrow> manifestEntry \<Rightarrow> State" where
  "state_at state entry =
     (let state' = state\<lparr>s_Generation := m_Generation (e_manifest entry), s_Manifest := e_key entry\<rparr> in
      if Checkpoint state' > s_Generation state' then state'\<lparr>Checkpoint := 0\<rparr> else state')"

text \<open>\<open>RestoreWithOptions\<close>; \<open>get\<close> is the store after the state was inspected.\<close>

definition RestoreWithOptions ::
  "wire \<Rightarrow> 's Remote \<Rightarrow> ('s \<Rightarrow> getter) \<Rightarrow> fileio \<Rightarrow> unit result \<Rightarrow> (ObjectRef list \<Rightarrow> ObjectRef list) \<Rightarrow> string \<Rightarrow> RestoreOptions \<Rightarrow> 's \<Rightarrow>
     's \<times> (State \<times> image) result" where
  "RestoreWithOptions w r get io creates schedule name opts s =
     (case Inspect w r name s of
        (s1, Inl e) \<Rightarrow> (s1, Inl e)
      | (s1, Inr (state, _)) \<Rightarrow>
          (s1,
           if ro_Generation opts \<noteq> 0 \<and> ro_Timestamp opts \<noteq> 0 then invalid ''generation and timestamp are mutually exclusive''
           else bindR (if ro_Generation opts \<noteq> 0 \<or> ro_Timestamp opts \<noteq> 0
                  then bindR (selectHistory w (get s1) state opts) (\<lambda>entry. Inr (state_at state entry)) else Inr state) (\<lambda>state'.
             bindR (RestoreState w (get s1) io creates schedule state') (\<lambda>img. Inr (state', img)))))"

definition Remote_Restore ::
  "wire \<Rightarrow> 's Remote \<Rightarrow> ('s \<Rightarrow> getter) \<Rightarrow> fileio \<Rightarrow> unit result \<Rightarrow> (ObjectRef list \<Rightarrow> ObjectRef list) \<Rightarrow> string \<Rightarrow> 's \<Rightarrow> 's \<times> (State \<times> image) result" where
  "Remote_Restore w r get io creates schedule name s = RestoreWithOptions w r get io creates schedule name \<lparr>ro_Generation = 0, ro_Timestamp = 0\<rparr> s"

section \<open>Listing\<close>

text \<open>\<open>strings.Cut\<close> at the first slash.\<close>

definition cut_slash :: "string \<Rightarrow> (string \<times> string) option" where
  "cut_slash s = (if CHR ''/'' \<in> set s then Some (takeWhile (\<lambda>c. c \<noteq> CHR ''/'') s, drop 1 (dropWhile (\<lambda>c. c \<noteq> CHR ''/'') s)) else None)"

definition headVolumeName :: "string \<Rightarrow> string option" where
  "headVolumeName key =
     (case strings_CutPrefix key ''volumes/'' of
        None \<Rightarrow> None
      | Some rest \<Rightarrow>
          (case cut_slash rest of
             None \<Rightarrow> None
           | Some (name, tail) \<Rightarrow>
               if \<not> validVolumeName name then None
               else if tail = ''state.json'' \<or> strings_HasPrefix tail ''heads/'' then Some name else None))"

text \<open>The loop of \<open>List\<close>; \<open>mode\<close> is the remote's \<open>HeadMode\<close>.\<close>

fun list_states :: "wire \<Rightarrow> 's Remote \<Rightarrow> HeadMode \<Rightarrow> string list \<Rightarrow> string list \<Rightarrow> 's \<Rightarrow> 's \<times> State list result" where
  "list_states w r mode [] seen s = (s, Inr [])"
| "list_states w r mode (key # keys) seen s =
     (case headVolumeName key of
        None \<Rightarrow> list_states w r mode keys seen s
      | Some name \<Rightarrow>
          if name \<in> set seen then list_states w r mode keys seen s
          else if mode = ConditionalHead \<and> strings_HasPrefix key (HeadPrefix name) then (s, Inl (foreignHeadError name AppendHead))
          else
            (case Inspect w r name s of
               (s1, Inl e) \<Rightarrow> if errors_Is e ErrNotFound then list_states w r mode keys (name # seen) s1 else (s1, Inl e)
             | (s1, Inr (state, _)) \<Rightarrow>
                 (case list_states w r mode keys (name # seen) s1 of (s2, res) \<Rightarrow> (s2, bindR res (\<lambda>states. Inr (state # states))))))"

definition Remote_List :: "wire \<Rightarrow> 's Remote \<Rightarrow> HeadMode \<Rightarrow> 's \<Rightarrow> 's \<times> State list result" where
  "Remote_List w r mode s =
     (case st_List (Store r) ''volumes/'' s of
        (s1, Inl e) \<Rightarrow> (s1, Inl e)
      | (s1, Inr keys) \<Rightarrow> list_states w r mode keys [] s1)"

fun delete_states :: "wire \<Rightarrow> 's Remote \<Rightarrow> int \<Rightarrow> string \<Rightarrow> State list \<Rightarrow> 's \<Rightarrow> 's \<times> unit result" where
  "delete_states w r now base [] s = (s, Inr ())"
| "delete_states w r now base (state # states) s =
     (if s_Name state = base \<or> strings_HasPrefix (s_Name state) (base @ ''.r-'') then
        (case Remote_Delete w r now (s_Name state) s of
           (s1, Inl e) \<Rightarrow> (s1, Inl e)
         | (s1, Inr _) \<Rightarrow> delete_states w r now base states s1)
      else delete_states w r now base states s)"

definition DeleteFamily :: "wire \<Rightarrow> 's Remote \<Rightarrow> HeadMode \<Rightarrow> int \<Rightarrow> string \<Rightarrow> 's \<Rightarrow> 's \<times> unit result" where
  "DeleteFamily w r mode now base s =
     (case Remote_List w r mode s of
        (s1, Inl e) \<Rightarrow> (s1, Inl e)
      | (s1, Inr states) \<Rightarrow> delete_states w r now base states s1)"

end
