(* ===== verification/HistoryRun.thy ===== *)
theory HistoryRun
  imports History
begin

text \<open>
  What a history is. A restore reads the part of it from its head down to the newest checkpoint, so that
  a point in time restores exactly what the volume was then.
\<close>

section \<open>States of one volume\<close>

text \<open>Reading depends on the identity and the contents of a state, not on the generation it stands for.\<close>

definition moved :: "State \<Rightarrow> u64 \<Rightarrow> string \<Rightarrow> u64 \<Rightarrow> State" where
  "moved state g key c = state\<lparr>s_Generation := g, s_Manifest := key, Checkpoint := c\<rparr>"

lemma moved_simps [simp]:
  "s_Name (moved state g key c) = s_Name state" "s_ID (moved state g key c) = s_ID state"
  "s_Size (moved state g key c) = s_Size state" "s_BlockSize (moved state g key c) = s_BlockSize state"
  "InlineManifests (moved state g key c) = InlineManifests state" "ManifestBundle (moved state g key c) = ManifestBundle state"
  "s_Generation (moved state g key c) = g" "s_Manifest (moved state g key c) = key"
  by (simp_all add: moved_def)

lemma state_at_moved:
  "\<exists>c. state_at state entry = moved state (m_Generation (e_manifest entry)) (e_key entry) c"
proof (cases "Checkpoint state > m_Generation (e_manifest entry)")
  case True
  then have "state_at state entry = moved state (m_Generation (e_manifest entry)) (e_key entry) 0"
    by (simp add: state_at_def moved_def Let_def)
  then show ?thesis by blast
next
  case False
  then have "state_at state entry = moved state (m_Generation (e_manifest entry)) (e_key entry) (Checkpoint state)"
    by (simp add: state_at_def moved_def Let_def)
  then show ?thesis by blast
qed

lemma checkStorage_moved: "checkStorage w (moved state g key c) ref = checkStorage w state ref"
  by (simp only: checkStorage_def moved_simps)

lemma validate_segments_moved:
  "validate_segments w (moved state g key c) kind n refs blocks exts = validate_segments w state kind n refs blocks exts"
  by (induction refs arbitrary: blocks exts) (simp_all only: validate_segments.simps checkStorage_moved)

lemma decodeManifest_moved: "decodeManifest w (moved state g key c) = decodeManifest w state"
  by (simp add: fun_eq_iff decodeManifest_def validateManifest_def validate_segments_moved Let_def cong: sum.case_cong option.case_cong if_cong)

lemma check_bundle_entries_moved:
  "check_bundle_entries w (moved state g key c) b i first prev es = check_bundle_entries w state b i first prev es"
  by (induction es arbitrary: i first prev) (simp_all add: decodeManifest_moved split: sum.split)

lemma cachedBundle_moved: "cachedBundle w get (moved state g key c) = cachedBundle w get state"
  by (simp add: fun_eq_iff cachedBundle_def readManifestBundle_def check_bundle_entries_moved cong: sum.case_cong option.case_cong if_cong)

lemma search_bundles_moved:
  "search_bundles fuel w get (moved state g key c) k x ref bundles = search_bundles fuel w get state k x ref bundles"
  by (induction fuel arbitrary: ref bundles) (simp_all add: decodeManifest_moved cachedBundle_moved cong: sum.case_cong option.case_cong if_cong)

lemma readManifest_moved:
  "readManifestWithSourceCache w get (moved state g key c) = readManifestWithSourceCache w get state"
  by (simp add: fun_eq_iff readManifestWithSourceCache_def decodeManifest_moved search_bundles_moved cong: sum.case_cong option.case_cong if_cong)

lemma restore_loop_moved:
  "restore_loop fuel w get (moved state g key c) k x bundles acc = restore_loop fuel w get state k x bundles acc"
  by (induction fuel arbitrary: k x bundles acc) (simp_all add: readManifest_moved Let_def cong: sum.case_cong option.case_cong if_cong)

section \<open>Cached bundles\<close>

text \<open>A result that is the same or an error of the code's own.\<close>

definition agrees :: "'a result \<Rightarrow> 'a result \<Rightarrow> bool" where
  "agrees r r' \<longleftrightarrow> r' = r \<or> (\<exists>msg. r' = invalid msg)"

lemma readManifestBundle_Inr:
  assumes "readManifestBundle w get state ref = Inr b"
  obtains obj where "get (mb_Key ref) = Inr obj" "mb_Key ref = bundleKey w (s_Name state) (obj_Data obj)"
    "unmarshalBundle w (obj_Data obj) = Inr b" "b_FirstGeneration b = FirstGeneration ref" "b_LastGeneration b = LastGeneration ref"
proof (cases "get (mb_Key ref)")
  case (Inr obj)
  note a = assms [unfolded readManifestBundle_def Inr sum.case if_error_Inr]
  then obtain b' where b': "unmarshalBundle w (obj_Data obj) = Inr b'" by (cases "unmarshalBundle w (obj_Data obj)") auto
  note a = a [unfolded b' sum.case if_error_Inr]
  then have "b' = b" by (auto simp: bindR_def split: sum.splits prod.splits if_splits)
  then show thesis using that Inr b' a by simp
qed (use assms in \<open>simp add: readManifestBundle_def\<close>)

lemma readManifestBundle_agrees:
  assumes "readManifestBundle w get state ref = Inr b" "mb_Key ref' = mb_Key ref"
  shows "agrees (Inr b) (readManifestBundle w get state ref')"
proof -
  obtain obj where o: "get (mb_Key ref) = Inr obj" "mb_Key ref = bundleKey w (s_Name state) (obj_Data obj)"
    "unmarshalBundle w (obj_Data obj) = Inr b" "b_FirstGeneration b = FirstGeneration ref" "b_LastGeneration b = LastGeneration ref"
    using readManifestBundle_Inr [OF assms(1)] .
  show ?thesis
  proof (cases "FirstGeneration ref' = FirstGeneration ref \<and> LastGeneration ref' = LastGeneration ref")
    case True
    then have "readManifestBundle w get state ref' = readManifestBundle w get state ref"
      unfolding readManifestBundle_def by (simp only: assms(2))
    then show ?thesis using assms(1) by (simp add: agrees_def)
  next
    case False
    then have "readManifestBundle w get state ref' = invalid ''invalid manifest bundle''"
      unfolding readManifestBundle_def assms(2) o(1) sum.case o(3) using o(2,4,5) by auto
    then show ?thesis by (simp add: agrees_def)
  qed
qed

lemma cachedBundle_agrees:
  assumes "cachedBundle w get state ref c = Inr (b, c')" "cache_ok w get state c" "cache_ok w get state d"
  obtains d' where "cachedBundle w get state ref d = Inr (b, d')" "cache_ok w get state d'"
  | msg where "cachedBundle w get state ref d = invalid msg"
proof -
  obtain r where r: "mb_Key r = mb_Key ref" "readManifestBundle w get state r = Inr b"
    using cachedBundle_Inr(2) [OF assms(1,2)] by blast
  show thesis
  proof (cases "fmlookup d (mb_Key ref)")
    case None
    from readManifestBundle_agrees [OF r(2), of ref] r(1) have "agrees (Inr b) (readManifestBundle w get state ref)" by simp
    then consider "readManifestBundle w get state ref = Inr b" | msg where "readManifestBundle w get state ref = invalid msg"
      unfolding agrees_def by blast
    then show thesis
    proof cases
      case 1
      then have "cachedBundle w get state ref d = Inr (b, fmupd (mb_Key ref) b d)" using None by (simp add: cachedBundle_def)
      then show thesis using that(1) cachedBundle_Inr(1) [OF _ assms(3)] by blast
    next
      case 2
      then show thesis using None that(2) by (simp add: cachedBundle_def)
    qed
  next
    case (Some b')
    then obtain r' where r': "mb_Key r' = mb_Key ref" "readManifestBundle w get state r' = Inr b'"
      using assms(3) by (auto simp: cache_ok_def)
    from readManifestBundle_agrees [OF r(2), of r'] r r' have "b' = b" by (auto simp: agrees_def)
    then show thesis using Some that(1) assms(3) by (simp add: cachedBundle_def)
  qed
qed

lemma search_bundles_agrees:
  assumes "search_bundles fuel w get state key g ref c = Inr (hit, c')" "cache_ok w get state c" "cache_ok w get state d"
  shows "(\<exists>d'. search_bundles fuel w get state key g ref d = Inr (hit, d') \<and> cache_ok w get state c' \<and> cache_ok w get state d') \<or>
    (\<exists>msg. search_bundles fuel w get state key g ref d = invalid msg)"
  using assms
proof (induction fuel arbitrary: ref c d)
  case (Suc fuel)
  show ?case
  proof (cases "ref = None \<or> g = 0 \<or> g > LastGeneration (the ref)")
    case True
    then show ?thesis using Suc.prems by (auto split: option.splits)
  next
    case False
    then obtain r where r: "ref = Some r" "g \<noteq> 0" "\<not> g > LastGeneration r" by auto
    then obtain b c1 where b: "cachedBundle w get state r c = Inr (b, c1)" using Suc.prems(1) by (auto simp: result_Inr)
    have c1: "cache_ok w get state c1" by (rule cachedBundle_Inr(1) [OF b Suc.prems(2)])
    from b Suc.prems(2,3) show ?thesis
    proof (cases rule: cachedBundle_agrees)
      case (1 d1)
      show ?thesis
      proof (cases "g \<ge> FirstGeneration r")
        case True
        then show ?thesis using Suc.prems(1) r b 1 c1 by (auto simp: result_Inr split: option.splits)
      next
        case False
        then have "search_bundles fuel w get state key g (b_Parent b) c1 = Inr (hit, c')" using Suc.prems(1) r b by simp
        from Suc.IH [OF this c1 1(2)] show ?thesis using r 1(1) False by simp
      qed
    next
      case (2 msg)
      then show ?thesis using r by simp
    qed
  qed
qed simp

lemma readManifest_agrees:
  assumes "readManifestWithSourceCache w get state key g c = Inr (m, b, c')" "cache_ok w get state c" "cache_ok w get state d"
  obtains d' where "readManifestWithSourceCache w get state key g d = Inr (m, b, d')" "cache_ok w get state c'" "cache_ok w get state d'"
  | msg where "readManifestWithSourceCache w get state key g d = invalid msg"
proof (cases "fmlookup (InlineManifests state) key")
  case None
  then obtain hit c1 where s: "search_bundles (2 ^ 64) w get state key g (ManifestBundle state) c = Inr (hit, c1)"
    using assms(1) by (auto simp: readManifestWithSourceCache_def result_Inr)
  from search_bundles_agrees [OF this assms(2,3)] show thesis
  proof (elim disjE exE conjE)
    fix d1 assume d1: "search_bundles (2 ^ 64) w get state key g (ManifestBundle state) d = Inr (hit, d1)"
      "cache_ok w get state c1" "cache_ok w get state d1"
    then have "readManifestWithSourceCache w get state key g d = Inr (m, b, d1) \<and> c' = c1"
      using assms(1) None s by (auto simp: readManifestWithSourceCache_def result_Inr split: option.splits sum.splits)
    then show thesis using that(1) d1 by simp
  next
    fix msg assume "search_bundles (2 ^ 64) w get state key g (ManifestBundle state) d = invalid msg"
    then show thesis using that(2) None by (simp add: readManifestWithSourceCache_def)
  qed
next
  case (Some body)
  then show thesis using assms that(1) by (auto simp: readManifestWithSourceCache_def result_Inr)
qed

section \<open>The chain\<close>

fun history_linked :: "string \<Rightarrow> u64 \<Rightarrow> manifestEntry list \<Rightarrow> bool" where
  "history_linked key g [] \<longleftrightarrow> True"
| "history_linked key g (e # es) \<longleftrightarrow> e_key e = key \<and> g \<noteq> 0 \<and> m_Generation (e_manifest e) = g \<and>
     history_linked (Parent (e_manifest e)) (g - 1) es"

abbreviation gen :: "manifestEntry \<Rightarrow> u64" where
  "gen e \<equiv> m_Generation (e_manifest e)"

lemma history_loop_Cons:
  assumes "history_loop (Suc fuel) w get state key g behind c = Inr hs" "key \<noteq> []" "hs \<noteq> []"
  obtains m b c' where "readManifestWithSourceCache w get state key g c = Inr (m, b, c')" "hd hs = \<lparr>e_key = key, e_manifest = m, e_bundle = b\<rparr>"
    "m_Generation m = 1 \<Longrightarrow> Parent m = [] \<and> tl hs = []"
    "m_Generation m \<noteq> 1 \<Longrightarrow> history_loop fuel w get state (Parent m) (g - 1) (behind \<or> Kind m = ''checkpoint'') c' = Inr (tl hs)"
proof (cases "readManifestWithSourceCache w get state key g c")
  case (Inr x)
  obtain m b c' where x: "x = (m, b, c')" by (cases x) auto
  show thesis
  proof (cases "m_Generation m = 1")
    case True
    then show thesis using assms(1,2) Inr x by (intro that [of m b c']) (auto simp: Let_def split: if_splits)
  next
    case False
    then obtain rest where "history_loop fuel w get state (Parent m) (g - 1) (behind \<or> Kind m = ''checkpoint'') c' = Inr rest"
      "hs = \<lparr>e_key = key, e_manifest = m, e_bundle = b\<rparr> # rest"
      using assms(1,2) Inr x by (auto simp: Let_def split: if_splits)
    then show thesis using False Inr x by (intro that [of m b c']) auto
  qed
qed (use assms in \<open>auto split: if_splits\<close>)

lemma history_loop_linked:
  "history_loop fuel w get state key g behind c = Inr hs \<Longrightarrow> g \<noteq> 0 \<Longrightarrow> history_linked key g hs"
proof (induction fuel arbitrary: key g behind c hs)
  case (Suc fuel)
  show ?case
  proof (cases "key = [] \<or> hs = []")
    case True
    then show ?thesis using Suc.prems by auto
  next
    case False
    then obtain m b c' where m: "readManifestWithSourceCache w get state key g c = Inr (m, b, c')" "hd hs = \<lparr>e_key = key, e_manifest = m, e_bundle = b\<rparr>"
      "m_Generation m = 1 \<Longrightarrow> Parent m = [] \<and> tl hs = []"
      "m_Generation m \<noteq> 1 \<Longrightarrow> history_loop fuel w get state (Parent m) (g - 1) (behind \<or> Kind m = ''checkpoint'') c' = Inr (tl hs)"
      using history_loop_Cons [OF Suc.prems(1)] by blast
    have g: "m_Generation m = g" using readManifest_Inr(2) [OF m(1) Suc.prems(2)] .
    have "history_linked (Parent m) (g - 1) (tl hs)"
      using m(3) Suc.IH [OF m(4)] g by (cases "g = 1") auto
    then show ?thesis using False m(2) g Suc.prems(2) by (cases hs) auto
  qed
qed simp

lemma loadHistory_linked:
  "loadHistory w get state = Inr hs \<Longrightarrow> history_linked (s_Manifest state) (s_Generation state) hs"
  by (auto simp: loadHistory_def dest: history_loop_linked split: if_splits)

lemma history_linked_descending:
  "history_linked key g hs \<Longrightarrow> (\<forall>e\<in>set hs. gen e \<le> g) \<and> sorted_wrt (\<lambda>a b. gen b < gen a) hs"
proof (induction hs arbitrary: key g)
  case (Cons e es)
  then have IH: "\<forall>x\<in>set es. gen x \<le> g - 1" "sorted_wrt (\<lambda>a b. gen b < gen a) es" and g: "g \<noteq> 0" "gen e = g" by auto
  from g have "g - 1 < g" by (simp add: word_less_nat_alt unat_minus_one unat_gt_0)
  then show ?case using IH g by (auto intro: order_le_less_trans less_imp_le)
qed simp

text \<open>From an entry on, a history is the history of that entry.\<close>

lemma history_loop_suffix:
  assumes "history_loop fuel w get state key g behind c = Inr (newer @ e # older)" "g \<noteq> 0" "cache_ok w get state c"
  shows "\<exists>fuel' behind' c'. history_loop fuel' w get state (e_key e) (gen e) behind' c' = Inr (e # older) \<and> cache_ok w get state c'"
  using assms
proof (induction newer arbitrary: fuel key g behind c)
  case Nil
  then have "e_key e = key \<and> gen e = g" using history_loop_linked by fastforce
  then show ?case using Nil by auto
next
  case (Cons x newer)
  then obtain f where f: "fuel = Suc f" by (cases fuel) auto
  then have k: "key \<noteq> []" using Cons.prems(1) by auto
  from Cons.prems(1) [unfolded f] k obtain m b c' where m: "readManifestWithSourceCache w get state key g c = Inr (m, b, c')"
      "m_Generation m = 1 \<Longrightarrow> Parent m = [] \<and> tl ((x # newer) @ e # older) = []"
      "m_Generation m \<noteq> 1 \<Longrightarrow> history_loop f w get state (Parent m) (g - 1) (behind \<or> Kind m = ''checkpoint'') c' = Inr (tl ((x # newer) @ e # older))"
    by (rule history_loop_Cons) auto
  have g: "m_Generation m = g" using readManifest_Inr(2) [OF m(1) Cons.prems(2)] .
  have c': "cache_ok w get state c'" by (rule readManifest_agrees [OF m(1) Cons.prems(3,3)]) (use m(1) in auto)
  have "m_Generation m \<noteq> 1" using m(2) by auto
  then show ?case using Cons.IH [of f "Parent m" "g - 1"] m(3) g c' by auto
qed

text \<open>What a restore reads of a history: everything down to the newest checkpoint.\<close>

fun to_checkpoint :: "manifestEntry list \<Rightarrow> manifestEntry list" where
  "to_checkpoint [] = []"
| "to_checkpoint (e # es) = e # (if Kind (e_manifest e) = ''checkpoint'' then [] else to_checkpoint es)"

lemma restore_loop_history:
  assumes "restore_loop fuel w get state key g c acc = Inr es" "history_loop fuel' w get state key g behind d = Inr hs"
    "cache_ok w get state c" "cache_ok w get state d"
  shows "es = acc @ to_checkpoint hs"
  using assms
proof (induction fuel arbitrary: key g c acc fuel' behind d hs)
  case (Suc fuel)
  then obtain f where f: "fuel' = Suc f" by (cases fuel') auto
  show ?case
  proof (cases "key = []")
    case True
    then show ?thesis using Suc.prems(1,2) f by (auto split: if_splits)
  next
    case False
    then obtain m b c' where r: "readManifestWithSourceCache w get state key g c = Inr (m, b, c')"
      using Suc.prems(1) by (auto simp: Let_def)
    from r Suc.prems(3,4) show ?thesis
    proof (cases rule: readManifest_agrees)
      case (1 d')
      let ?e = "\<lparr>e_key = key, e_manifest = m, e_bundle = b\<rparr>"
      have "hs \<noteq> []" using Suc.prems(2) f False 1(1) by (auto simp: Let_def split: if_splits)
      then obtain m' b' c2 where m: "readManifestWithSourceCache w get state key g d = Inr (m', b', c2)" "hd hs = \<lparr>e_key = key, e_manifest = m', e_bundle = b'\<rparr>"
          "m_Generation m' = 1 \<Longrightarrow> Parent m' = [] \<and> tl hs = []"
          "m_Generation m' \<noteq> 1 \<Longrightarrow> history_loop f w get state (Parent m') (g - 1) (behind \<or> Kind m' = ''checkpoint'') c2 = Inr (tl hs)"
        using history_loop_Cons [OF Suc.prems(2) [unfolded f] False] by blast
      have eq: "m' = m" "b' = b" "c2 = d'" using m(1) 1(1) by auto
      have hs: "hs = ?e # tl hs" using \<open>hs \<noteq> []\<close> m(2) eq by (cases hs) auto
      show ?thesis
      proof (cases "Kind m = ''checkpoint''")
        case True
        then have "es = acc @ [?e]" using Suc.prems(1) False r by (simp add: Let_def)
        moreover have "to_checkpoint hs = [?e]" by (subst hs) (simp add: True)
        ultimately show ?thesis by simp
      next
        case nc: False
        then have rest: "restore_loop fuel w get state (Parent m) (g - 1) c' (acc @ [?e]) = Inr es"
          using Suc.prems(1) False r by (simp add: Let_def)
        have "es = (acc @ [?e]) @ to_checkpoint (tl hs)"
        proof (cases "m_Generation m = 1")
          case True
          then have "Parent m = []" "tl hs = []" using m(3) eq by auto
          then show ?thesis using rest by (cases fuel) (auto split: if_splits)
        next
          case False
          then have "history_loop f w get state (Parent m) (g - 1) (behind \<or> Kind m = ''checkpoint'') d' = Inr (tl hs)"
            using m(4) eq by simp
          then show ?thesis using Suc.IH [OF rest _ 1(2,3)] by blast
        qed
        moreover have "to_checkpoint hs = ?e # to_checkpoint (tl hs)" by (subst hs) (simp add: nc)
        ultimately show ?thesis by simp
      qed
    next
      case (2 msg)
      then show ?thesis using Suc.prems(2) f False by simp
    qed
  qed
qed simp

lemma restore_at_history:
  assumes "loadHistory w get state = Inr (newer @ e # older)" "restoreManifests w get (state_at state e) = Inr es"
  shows "es = to_checkpoint (e # older)"
proof -
  have s: "s_Generation state \<noteq> 0" "history_loop 1000001 w get state (s_Manifest state) (s_Generation state) False fmempty = Inr (newer @ e # older)"
    using assms(1) by (auto simp: loadHistory_def split: if_splits)
  from history_loop_suffix [OF s(2,1) cache_ok_empty] obtain fuel' behind' c' where
    h: "history_loop fuel' w get state (e_key e) (gen e) behind' c' = Inr (e # older)" "cache_ok w get state c'"
    by blast
  obtain c where m: "state_at state e = moved state (gen e) (e_key e) c" using state_at_moved by blast
  have "restore_loop 1000001 w get state (e_key e) (gen e) fmempty [] = Inr es"
    using assms(2) by (simp add: m restoreManifests_def restore_loop_moved)
  from restore_loop_history [OF this h(1) cache_ok_empty h(2)] show ?thesis by simp
qed

section \<open>Restoring a point in time\<close>

definition reader :: "('s \<Rightarrow> string \<rightharpoonup> Object) \<Rightarrow> 's \<Rightarrow> getter" where
  "reader cur s key = (case cur s key of None \<Rightarrow> Inl ErrNotFound | Some obj \<Rightarrow> Inr obj)"

lemma selectHistory_Inr:
  assumes "selectHistory w get state opts = Inr entry"
  obtains newer older where "loadHistory w get state = Inr (newer @ entry # older)" "entry_selected opts entry"
    "\<forall>e\<in>set newer. \<not> entry_selected opts e"
proof -
  obtain hs where h: "loadHistory w get state = Inr hs" "find (entry_selected opts) hs = Some entry"
    using assms by (auto simp: selectHistory_def split: option.splits if_splits)
  then obtain i where i: "i < length hs" "entry_selected opts (hs ! i)" "entry = hs ! i" "\<forall>j<i. \<not> entry_selected opts (hs ! j)"
    by (auto simp: find_Some_iff)
  have "\<forall>e\<in>set (take i hs). \<not> entry_selected opts e" using i(1,4) by (auto simp: in_set_conv_nth)
  then show thesis using that [of "take i hs" "drop (Suc i) hs"] h(1) i id_take_nth_drop [OF i(1)] by simp
qed

lemma RestoreWithOptions_Inr:
  assumes "RestoreWithOptions w r get io creates schedule name opts s = (s', Inr (state', img))"
    "ro_Generation opts \<noteq> 0 \<or> ro_Timestamp opts \<noteq> 0"
  obtains state cursor entry where "Inspect w r name s = (s', Inr (state, cursor))" "\<not> (ro_Generation opts \<noteq> 0 \<and> ro_Timestamp opts \<noteq> 0)"
    "selectHistory w (get s') state opts = Inr entry" "state' = state_at state entry"
    "RestoreState w (get s') io creates schedule state' = Inr img"
proof -
  obtain s1 q where q: "Inspect w r name s = (s1, q)" by fastforce
  then obtain state cursor where q2: "q = Inr (state, cursor)" using assms(1) by (cases q) (auto simp: RestoreWithOptions_def)
  have a: "s1 = s'" "\<not> (ro_Generation opts \<noteq> 0 \<and> ro_Timestamp opts \<noteq> 0)"
    using assms(1) by (auto simp: RestoreWithOptions_def q q2 split: if_splits)
  then obtain entry where e: "selectHistory w (get s') state opts = Inr entry"
    using assms by (auto simp: RestoreWithOptions_def q q2)
  show thesis using that [OF _ a(2) e] assms a e q q2 by (auto simp: RestoreWithOptions_def)
qed

text \<open>A store that holds a volume of one generation, an empty checkpoint, and a segment marked as garbage.\<close>

definition kept_wire :: wire where
  "kept_wire = blank_wire\<lparr>unmarshalState := (\<lambda>_. Inr sample_state), unmarshalGC := (\<lambda>_. Inr
     \<lparr>gc_Format = Format, gc_VolumeID = ''id'', gc_CreatedAt = 1, gc_Objects = [''volumes/v/segments/x'']\<rparr>)\<rparr>"

definition kept_objects :: "(string, Object) fmap" where
  "kept_objects = fmap_of_list
     [(StateKey ''v'', \<lparr>obj_Data = [1], obj_ETag = mem_etag 1\<rparr>), (manifestKey sample_wire ''v'' [5], \<lparr>obj_Data = [5], obj_ETag = mem_etag 2\<rparr>),
      (''volumes/v/segments/x'', \<lparr>obj_Data = [8], obj_ETag = mem_etag 3\<rparr>), (''volumes/v/gc/1-0.json'', \<lparr>obj_Data = [7], obj_ETag = mem_etag 4\<rparr>)]"

definition kept_store :: logged_memory where
  "kept_store = (\<lparr>objects = kept_objects, mem_seq = 4, unconditional = False\<rparr>, versions kept_objects, [])"

definition kept_remote :: "logged_memory Remote" where
  "kept_remote = \<lparr>Store = faulty_ops, RHead = conditionalHead faulty_ops, RTTL = 0\<rparr>"

definition kept_entry :: manifestEntry where
  "kept_entry = \<lparr>e_key = manifestKey sample_wire ''v'' [5], e_manifest = blank_manifest, e_bundle = []\<rparr>"

lemma kept_reader: "reader logged_cur kept_store (manifestKey sample_wire ''v'' [5]) = Inr \<lparr>obj_Data = [5], obj_ETag = mem_etag 2\<rparr>"
  by (simp add: reader_def logged_cur_def kept_store_def kept_objects_def fmlookup_of_list manifestKey_def VolumePrefix_def StateKey_def)

lemma kept_inspect: "Inspect kept_wire kept_remote ''v'' kept_store = (kept_store, Inr (sample_state, mem_etag 1))"
proof -
  have "fmlookup kept_objects (StateKey ''v'') = Some \<lparr>obj_Data = [1], obj_ETag = mem_etag 1\<rparr>"
    by (simp add: kept_objects_def fmlookup_of_list)
  then have "hd_read (RHead kept_remote) ''v'' kept_store = (kept_store, Inr ([1], mem_etag 1))"
    by (simp add: kept_remote_def conditionalHead_def conditional_read_def faulty_ops_def faulty_def kept_store_def next_fault_def Memory_Get_def)
  moreover have "validateState kept_wire ''v'' sample_state = Inr ()"
    by (simp add: validateState_def sample_state_def inline_keys_def sorted_list_of_fset.rep_eq DefaultBlockSize_def manifestKey_def VolumePrefix_def)
  ultimately show ?thesis by (simp add: Inspect_def kept_wire_def)
qed

lemma kept_reads:
  "readManifestWithSourceCache kept_wire (reader logged_cur kept_store) sample_state (manifestKey sample_wire ''v'' [5]) 1 fmempty =
     Inr (blank_manifest, [], fmempty)"
proof -
  have "decodeManifest kept_wire sample_state (manifestKey sample_wire ''v'' [5]) [5] 1 = Inr blank_manifest" by code_simp
  then show ?thesis using kept_reader by (simp add: readManifestWithSourceCache_def) (simp add: sample_state_def)
qed

lemma kept_history: "loadHistory kept_wire (reader logged_cur kept_store) sample_state = Inr [kept_entry]"
proof -
  have s: "s_Manifest sample_state = manifestKey sample_wire ''v'' [5]" "s_Generation sample_state = 1" by (simp_all add: sample_state_def)
  have k: "manifestKey sample_wire ''v'' [5] \<noteq> []" by (simp add: manifestKey_def VolumePrefix_def)
  have n: "(1000001 :: nat) = Suc 1000000" by simp
  have "m_Generation blank_manifest = 1" "Parent blank_manifest = []" by (simp_all add: blank_manifest_def sample_manifest_def)
  then show ?thesis
    unfolding loadHistory_def s kept_entry_def n history_loop.simps using k kept_reads by (simp add: Let_def)
qed

lemma kept_state_at: "state_at sample_state kept_entry = sample_state"
  by (simp add: state_at_def sample_state_def kept_entry_def blank_manifest_def sample_manifest_def)

lemma kept_plan: "restorePlan kept_wire (reader logged_cur kept_store) sample_state = Inr []"
proof -
  have s: "s_Manifest sample_state = manifestKey sample_wire ''v'' [5]" "s_Generation sample_state = 1" by (simp_all add: sample_state_def)
  have k: "manifestKey sample_wire ''v'' [5] \<noteq> []" by (simp add: manifestKey_def VolumePrefix_def)
  show ?thesis
    unfolding restorePlan_def restoreManifests_def s using k kept_reads
    by (simp add: restore_loop_step Let_def blank_manifest_def)
qed

lemma kept_restores: "RestoreState kept_wire (reader logged_cur kept_store) ideal_io (Inr ()) id sample_state = Inr empty_image"
proof -
  have "validateState kept_wire ''v'' sample_state = Inr ()" using kept_inspect by (auto simp: Inspect_def split: prod.splits sum.splits)
  then show ?thesis by (simp add: RestoreState_def kept_plan createSparseImage_def) (simp add: sample_state_def)
qed

text \<open>
  C19. Restoring a point in time gives the volume as it was then. The history of the volume is one chain
  of consecutive generations; a requested generation is the one restored, and for a requested time it is
  the newest generation not created after it. Every block of the image is what the newest manifest of
  the history, from that generation back to its checkpoint, says, whatever was published since.
\<close>

theorem RestoreWithOptions_point_in_time:
  assumes "RestoreWithOptions w r get io creates schedule name opts s = (s', Inr (state', img))"
    and "ro_Generation opts \<noteq> 0 \<or> ro_Timestamp opts \<noteq> 0"
    and "\<And>refs. mset (schedule refs) = mset refs"
    and "\<And>refs. restorePlan w (get s') state' = Inr refs \<Longrightarrow> second_preimage_free w payload refs"
  shows "\<exists>state cursor newer entry older.
    Inspect w r name s = (s', Inr (state, cursor)) \<and> loadHistory w (get s') state = Inr (newer @ entry # older) \<and>
    history_linked (s_Manifest state) (s_Generation state) (newer @ entry # older) \<and>
    s_Generation state' = m_Generation (e_manifest entry) \<and>
    (ro_Generation opts \<noteq> 0 \<longrightarrow> m_Generation (e_manifest entry) = ro_Generation opts) \<and>
    (ro_Timestamp opts \<noteq> 0 \<longrightarrow> CreatedAt (e_manifest entry) \<le> ro_Timestamp opts \<and>
       (\<forall>e\<in>set newer. CreatedAt (e_manifest e) > ro_Timestamp opts)) \<and>
    (\<forall>b. case chain_source (map entry_refs (to_checkpoint (entry # older))) b of
       None \<Rightarrow> img_block img b = replicate BlockSize 0
     | Some x \<Rightarrow> ref_block w payload x b = Some (img_block img b))"
proof -
  obtain state cursor entry where o: "Inspect w r name s = (s', Inr (state, cursor))" "\<not> (ro_Generation opts \<noteq> 0 \<and> ro_Timestamp opts \<noteq> 0)"
    "selectHistory w (get s') state opts = Inr entry" "state' = state_at state entry"
    "RestoreState w (get s') io creates schedule state' = Inr img"
    using RestoreWithOptions_Inr [OF assms(1,2)] .
  obtain newer older where h: "loadHistory w (get s') state = Inr (newer @ entry # older)" "entry_selected opts entry"
    "\<forall>e\<in>set newer. \<not> entry_selected opts e"
    using selectHistory_Inr [OF o(3)] .
  obtain es where es: "restoreManifests w (get s') state' = Inr es" and blocks: "\<forall>b. case chain_source (map entry_refs es) b of
       None \<Rightarrow> img_block img b = replicate BlockSize 0 | Some x \<Rightarrow> ref_block w payload x b = Some (img_block img b)"
    using RestoreState_chain [OF o(5) assms(3,4)] by blast
  have eq: "es = to_checkpoint (entry # older)" by (rule restore_at_history [OF h(1) es [unfolded o(4)]])
  have g: "s_Generation state' = gen entry" by (simp add: o(4) state_at_def Let_def)
  have chosen: "ro_Generation opts \<noteq> 0 \<longrightarrow> gen entry = ro_Generation opts"
      "ro_Timestamp opts \<noteq> 0 \<longrightarrow> CreatedAt (e_manifest entry) \<le> ro_Timestamp opts \<and> (\<forall>e\<in>set newer. CreatedAt (e_manifest e) > ro_Timestamp opts)"
    using h(2,3) o(2) by (auto simp: entry_selected_def)
  show ?thesis
    by (intro exI conjI; (rule o(1) h(1) loadHistory_linked [OF h(1)] g chosen blocks [unfolded eq]))
qed

text \<open>Generation one of the sample volume, restored from its store.\<close>

lemma kept_point_in_time:
  "RestoreWithOptions kept_wire kept_remote (reader logged_cur) ideal_io (Inr ()) id ''v'' \<lparr>ro_Generation = 1, ro_Timestamp = 0\<rparr> kept_store =
     (kept_store, Inr (sample_state, empty_image))"
proof -
  have "selectHistory kept_wire (reader logged_cur kept_store) sample_state \<lparr>ro_Generation = 1, ro_Timestamp = 0\<rparr> = Inr kept_entry"
    by (simp add: selectHistory_def kept_history entry_selected_def) (simp add: kept_entry_def blank_manifest_def sample_manifest_def)
  then show ?thesis by (simp add: RestoreWithOptions_def kept_inspect kept_state_at kept_restores)
qed

theorem RestoreWithOptions_point_in_time_witness:
  "\<exists>state cursor newer entry older.
    Inspect kept_wire kept_remote ''v'' kept_store = (kept_store, Inr (state, cursor)) \<and>
    loadHistory kept_wire (reader logged_cur kept_store) state = Inr (newer @ entry # older) \<and>
    s_Generation sample_state = m_Generation (e_manifest entry) \<and> m_Generation (e_manifest entry) = 1"
  using RestoreWithOptions_point_in_time [OF kept_point_in_time, of "\<lambda>_. []"]
  by (fastforce simp: kept_plan second_preimage_free_def)

end
