(* ===== verification/Garbage.thy ===== *)
theory Garbage
  imports HistoryRun
begin

text \<open>
  Garbage collection (\<open>internal/replica/remote.go\<close>). What the retained history needs is computed first,
  reading immutable objects through \<open>get\<close>; deletions and new records go to the store itself.
\<close>

section \<open>Garbage collection\<close>

record GCOptions =
  HistoryRetention :: int
  GracePeriod :: int

record GCResult =
  Marked :: int
  Deleted :: int

text \<open>How much of the history is kept: down to the first checkpoint old enough, or all of it.\<close>

fun keep_through :: "int \<Rightarrow> manifestEntry list \<Rightarrow> manifestEntry list" where
  "keep_through cutoff [] = []"
| "keep_through cutoff (entry # history) =
     (if Kind (e_manifest entry) = ''checkpoint'' \<and> \<not> CreatedAt (e_manifest entry) > cutoff then [entry]
      else entry # keep_through cutoff history)"

definition nonempty_keys :: "string list \<Rightarrow> string set" where
  "nonempty_keys keys = set keys - {[]}"

fun keep_refs :: "wire \<Rightarrow> getter \<Rightarrow> manifestSourceLoader \<Rightarrow> ObjectRef list \<Rightarrow> manifestSourceLoader \<times> string set result" where
  "keep_refs w get l [] = (l, Inr {})"
| "keep_refs w get l (ref # refs) =
     (let own = nonempty_keys [ref_Key ref, SourceManifest ref, SourceBundle ref];
          found = (if SourceManifest ref \<noteq> [] \<and> SourceBundle ref = [] \<and> InlineData ref = [] then findBundlePath w get l (SourceManifest ref) else (l, Inr []))
      in case found of
           (l1, Inl e) \<Rightarrow> (l1, Inl (Wrap ''locate inline segment source'' e))
         | (l1, Inr path) \<Rightarrow> (case keep_refs w get l1 refs of (l2, r) \<Rightarrow> (l2, bindR r (\<lambda>keys. Inr (own \<union> set path \<union> keys)))))"

fun keep_entries :: "wire \<Rightarrow> getter \<Rightarrow> manifestSourceLoader \<Rightarrow> manifestEntry list \<Rightarrow> string set result" where
  "keep_entries w get l [] = Inr {}"
| "keep_entries w get l (entry # entries) =
     (case keep_refs w get l (Segments (e_manifest entry)) of
        (l1, r) \<Rightarrow> bindR r (\<lambda>keys. bindR (keep_entries w get l1 entries) (\<lambda>rest. Inr (nonempty_keys [e_key entry, e_bundle entry] \<union> keys \<union> rest))))"

definition gc_keep :: "wire \<Rightarrow> getter \<Rightarrow> State \<Rightarrow> int \<Rightarrow> string set result" where
  "gc_keep w get state cutoff =
     bindR (loadHistory w get state) (\<lambda>history. keep_entries w get (newManifestSourceLoader state) (keep_through cutoff history))"

definition isImmutableObject :: "string \<Rightarrow> string \<Rightarrow> bool" where
  "isImmutableObject prefix key \<longleftrightarrow> strings_HasPrefix key (prefix @ ''manifests/'') \<or> strings_HasPrefix key (prefix @ ''manifest-bundles/'') \<or>
     strings_HasPrefix key (prefix @ ''segments/'')"

text \<open>The sweep of one record whose grace period is over. \<open>running\<close> tells before each deletion whether the
  context is still alive.\<close>

fun gc_delete ::
  "'s store_ops \<Rightarrow> (string \<Rightarrow> bool) \<Rightarrow> string \<Rightarrow> string set \<Rightarrow> string list \<Rightarrow> string list \<Rightarrow> 's \<Rightarrow> 's \<times> string list \<times> unit result" where
  "gc_delete ops running prefix keep [] deleted s = (s, deleted, Inr ())"
| "gc_delete ops running prefix keep (candidate # candidates) deleted s =
     (if candidate \<in> keep \<or> \<not> isImmutableObject prefix candidate then gc_delete ops running prefix keep candidates deleted s
      else if \<not> running candidate then (s, deleted, Inl ContextError)
      else
        (case st_Delete ops candidate s of
           (s1, Inl e) \<Rightarrow> (s1, deleted, Inl (Wrap ''delete garbage object'' e))
         | (s1, Inr _) \<Rightarrow> gc_delete ops running prefix keep candidates (deleted @ [candidate]) s1))"

text \<open>The loop over the records: the objects marked and deleted.\<close>

fun gc_sweep ::
  "'s store_ops \<Rightarrow> wire \<Rightarrow> (string \<Rightarrow> bool) \<Rightarrow> (string \<Rightarrow> bool) \<Rightarrow> State \<Rightarrow> GCOptions \<Rightarrow> int \<Rightarrow> string set \<Rightarrow> string list \<Rightarrow> string list \<Rightarrow> string list \<Rightarrow> 's \<Rightarrow>
     's \<times> string list \<times> string list \<times> unit result" where
  "gc_sweep ops w running held state opts now keep [] marked deleted s = (s, marked, deleted, Inr ())"
| "gc_sweep ops w running held state opts now keep (key # keys) marked deleted s =
     (let prefix = VolumePrefix (s_Name state) in
      if \<not> strings_HasPrefix key (prefix @ ''gc/'') then gc_sweep ops w running held state opts now keep keys marked deleted s
      else
        case st_Get ops key s of
          (s1, Inl e) \<Rightarrow> (s1, marked, deleted, Inl e)
        | (s1, Inr obj) \<Rightarrow>
            (case unmarshalGC w (obj_Data obj) of
               Inl e \<Rightarrow> (s1, marked, deleted, Inl (Wrap ''decode garbage record'' e))
             | Inr rec \<Rightarrow>
                 if gc_Format rec \<noteq> Format \<or> gc_VolumeID rec \<noteq> s_ID state \<or> gc_CreatedAt rec = 0
                 then (s1, marked, deleted, invalid ''invalid garbage record'')
                 else
                   let marked' = marked @ gc_Objects rec in
                   if gc_CreatedAt rec + GracePeriod opts > now then gc_sweep ops w running held state opts now keep keys marked' deleted s1
                   else if \<not> held key then (s1, marked', deleted, Inl ErrLeaseLost)
                   else
                     (case gc_delete ops running prefix keep (gc_Objects rec) deleted s1 of
                        (s2, deleted', Inl e) \<Rightarrow> (s2, marked', deleted', Inl e)
                      | (s2, deleted', Inr _) \<Rightarrow>
                          (case st_Delete ops key s2 of
                             (s3, Inl e) \<Rightarrow> (s3, marked', deleted', Inl (Wrap ''delete garbage record'' e))
                           | (s3, Inr _) \<Rightarrow> gc_sweep ops w running held state opts now keep keys marked' deleted' s3))))"

definition objectsPerRecord :: nat where
  "objectsPerRecord = 1000"

text \<open>New records for the objects found unreachable. A record that is already there counts as written.\<close>

function gc_mark ::
  "'s store_ops \<Rightarrow> wire \<Rightarrow> State \<Rightarrow> int \<Rightarrow> string list \<Rightarrow> int \<Rightarrow> 's \<Rightarrow> 's \<times> int \<times> unit result" where
  "gc_mark ops w state now candidates n s =
     (if candidates = [] then (s, n, Inr ())
      else
        let batch = take objectsPerRecord candidates;
            body = marshalGC w \<lparr>gc_Format = Format, gc_VolumeID = s_ID state, gc_CreatedAt = now, gc_Objects = batch\<rparr>;
            key = VolumePrefix (s_Name state) @ ''gc/'' @ dec (nat now) @ ''-'' @ hex_EncodeToString (take 8 (sha256 w body)) @ ''.json''
        in case st_PutIfAbsent ops key body s of
             (s1, Inl e) \<Rightarrow>
               if errors_Is e ErrPreconditionFailed
               then gc_mark ops w state now (drop objectsPerRecord candidates) (n + int (length batch)) s1
               else (s1, n, Inl (Wrap ''write garbage record'' e))
           | (s1, Inr _) \<Rightarrow> gc_mark ops w state now (drop objectsPerRecord candidates) (n + int (length batch)) s1)"
  by pat_completeness auto
termination gc_mark
  by (relation "measure (\<lambda>(ops, w, state, now, candidates, n, s). length candidates)") (auto simp: objectsPerRecord_def)

declare gc_mark.simps [simp del]

definition gc_candidates :: "string \<Rightarrow> string set \<Rightarrow> string list \<Rightarrow> string list \<Rightarrow> string list \<Rightarrow> string list" where
  "gc_candidates prefix keep marked deleted keys =
     sort (filter (\<lambda>key. isImmutableObject prefix key \<and> key \<notin> keep \<and> key \<notin> set deleted \<and> key \<notin> set marked) keys)"

text \<open>\<open>collectGarbage\<close>: \<open>get\<close> is the store while the history is read, \<open>now\<close> and \<open>now'\<close> the clock before and
  after listing; \<open>held\<close> tells whether the lease is still held when a record is swept and, at the end,
  before new records are written.\<close>

definition collectGarbage ::
  "wire \<Rightarrow> 's store_ops \<Rightarrow> getter \<Rightarrow> (string \<Rightarrow> bool) \<Rightarrow> (string \<Rightarrow> bool) \<Rightarrow> State \<Rightarrow> GCOptions \<Rightarrow> int \<Rightarrow> int \<Rightarrow> 's \<Rightarrow> 's \<times> GCResult \<times> unit result" where
  "collectGarbage w ops get running held state opts now now' s =
     (let none = \<lparr>Marked = 0, Deleted = 0\<rparr>; prefix = VolumePrefix (s_Name state) in
      case gc_keep w get state (now - HistoryRetention opts) of
        Inl e \<Rightarrow> (s, none, Inl e)
      | Inr keep \<Rightarrow>
          (case st_List ops prefix s of
             (s1, Inl e) \<Rightarrow> (s1, none, Inl e)
           | (s1, Inr keys) \<Rightarrow>
               (case gc_sweep ops w running held state opts now' keep keys [] [] s1 of
                  (s2, marked, deleted, Inl e) \<Rightarrow> (s2, \<lparr>Marked = 0, Deleted = int (length deleted)\<rparr>, Inl e)
                | (s2, marked, deleted, Inr _) \<Rightarrow>
                    let candidates = gc_candidates prefix keep marked deleted keys in
                    if candidates \<noteq> [] \<and> \<not> held [] then (s2, \<lparr>Marked = 0, Deleted = int (length deleted)\<rparr>, Inl ErrLeaseLost)
                    else
                      (case gc_mark ops w state now' candidates 0 s2 of
                         (s3, n, r) \<Rightarrow> (s3, \<lparr>Marked = n, Deleted = int (length deleted)\<rparr>, r)))))"

definition stillHeld :: "Lease \<Rightarrow> unit result" where
  "stillHeld l = (if ls_lost l \<or> s_Lease (ls_state l) = None then Inl ErrLeaseLost else Inr ())"

text \<open>\<open>Lease.CollectGarbage\<close>: the lease may be lost while it runs, which \<open>held\<close> reports.\<close>

definition CollectGarbage ::
  "wire \<Rightarrow> 's Remote \<Rightarrow> getter \<Rightarrow> (string \<Rightarrow> bool) \<Rightarrow> (string \<Rightarrow> bool) \<Rightarrow> GCOptions \<Rightarrow> int \<Rightarrow> int \<Rightarrow> Lease \<Rightarrow> 's \<Rightarrow> 's \<times> GCResult \<times> unit result" where
  "CollectGarbage w r get running held opts now now' l s =
     (if HistoryRetention opts < 0 \<or> GracePeriod opts < 0
      then (s, \<lparr>Marked = 0, Deleted = 0\<rparr>, invalid ''garbage collection durations cannot be negative'')
      else
        case stillHeld l of
          Inl e \<Rightarrow> (s, \<lparr>Marked = 0, Deleted = 0\<rparr>, Inl e)
        | Inr _ \<Rightarrow> collectGarbage w (Store r) get running held (ls_state l) opts now now' s)"

end
