(* ===== verification/GarbageRun.thy ===== *)
theory GarbageRun
  imports Garbage
begin

text \<open>
  Garbage collection is safe: it removes nothing that a restore of a retained generation reads. The
  first part shows which objects the collector may remove, whatever the store does; the second which
  objects a restore reads, and that they are kept.
\<close>

section \<open>What the store loses\<close>

definition collected :: "string \<Rightarrow> string set \<Rightarrow> (string \<rightharpoonup> Object) \<Rightarrow> (string \<rightharpoonup> Object) \<Rightarrow> bool" where
  "collected prefix keep m m' \<longleftrightarrow> (\<forall>key. isImmutableObject prefix key \<longrightarrow> m' key = m key \<or> key \<notin> keep \<and> m' key = None)"

lemma collected_refl [simp]: "collected prefix keep m m"
  by (simp add: collected_def)

lemma collected_trans: "collected prefix keep m1 m2 \<Longrightarrow> collected prefix keep m2 m3 \<Longrightarrow> collected prefix keep m1 m3"
  unfolding collected_def by metis

lemma HasPrefix_append: "strings_HasPrefix s p \<longleftrightarrow> (\<exists>t. s = p @ t)"
  unfolding strings_HasPrefix_def by (metis append_eq_conv_conj append_take_drop_id)

lemma gc_key_mutable: "strings_HasPrefix key (prefix @ ''gc/'') \<Longrightarrow> \<not> isImmutableObject prefix key"
  by (auto simp: isImmutableObject_def HasPrefix_append)

lemma collected_mutable: "\<not> isImmutableObject prefix key \<Longrightarrow> collected prefix keep m (m(key := x))"
  by (auto simp: collected_def)

context object_store
begin

lemma delete_collected:
  assumes "sinv s" "st_Delete ops key s = (s', r)" "key \<notin> keep \<or> \<not> isImmutableObject prefix key"
  shows "sinv s' \<and> collected prefix keep (cur s) (cur s')"
proof -
  have "cur s' = cur s \<or> cur s' = (cur s)(key := None)" "sinv s'" using del [OF assms(1,2)] by (auto split: sum.splits)
  then show ?thesis using assms(3) by (auto simp: collected_def split: if_splits)
qed

lemma gc_delete_collected:
  "sinv s \<Longrightarrow> gc_delete ops running prefix keep cs deleted s = (s', d, r) \<Longrightarrow> sinv s' \<and> collected prefix keep (cur s) (cur s')"
proof (induction cs arbitrary: deleted s)
  case (Cons key cs)
  show ?case
  proof (cases "key \<in> keep \<or> \<not> isImmutableObject prefix key \<or> \<not> running key")
    case True
    then show ?thesis using Cons by (auto split: if_splits)
  next
    case False
    obtain s1 x where d: "st_Delete ops key s = (s1, x)" by fastforce
    have s1: "sinv s1 \<and> collected prefix keep (cur s) (cur s1)" using delete_collected [OF Cons.prems(1) d] False by blast
    show ?thesis
    proof (cases x)
      case (Inl e)
      then show ?thesis using Cons.prems(2) False d s1 by auto
    next
      case (Inr u)
      then have "gc_delete ops running prefix keep cs (deleted @ [key]) s1 = (s', d, r)" using Cons.prems(2) False d by auto
      then show ?thesis using Cons.IH s1 collected_trans by blast
    qed
  qed
qed simp

lemma gc_sweep_collected:
  "sinv s \<Longrightarrow> gc_sweep ops w running held state opts now keep keys marked deleted s = (s', m, d, r) \<Longrightarrow>
     sinv s' \<and> collected (VolumePrefix (s_Name state)) keep (cur s) (cur s')"
proof (induction keys arbitrary: marked deleted s)
  case (Cons key keys)
  let ?p = "VolumePrefix (s_Name state)"
  show ?case
  proof (cases "strings_HasPrefix key (?p @ ''gc/'')")
    case False
    then show ?thesis using Cons by (auto simp: Let_def)
  next
    case gcp: True
    obtain s1 x where g: "st_Get ops key s = (s1, x)" by fastforce
    have s1: "sinv s1" "cur s1 = cur s" using get [OF Cons.prems(1) g] by (auto simp: untouched_def)
    show ?thesis
    proof (cases "\<exists>obj rec. x = Inr obj \<and> unmarshalGC w (obj_Data obj) = Inr rec \<and> \<not> (gc_Format rec \<noteq> Format \<or> gc_VolumeID rec \<noteq> s_ID state \<or> gc_CreatedAt rec = 0)")
      case False
      then have "s' = s1" using Cons.prems(2) gcp g by (auto simp: Let_def split: sum.splits if_splits)
      then show ?thesis using s1 by simp
    next
      case True
      then obtain obj rec where rec: "x = Inr obj" "unmarshalGC w (obj_Data obj) = Inr rec"
        "\<not> (gc_Format rec \<noteq> Format \<or> gc_VolumeID rec \<noteq> s_ID state \<or> gc_CreatedAt rec = 0)" by blast
      note step = Cons.prems(2) [unfolded gc_sweep.simps Let_def g prod.case rec(1) sum.case rec(2)]
      show ?thesis
      proof (cases "gc_CreatedAt rec + GracePeriod opts > now \<or> \<not> held key")
        case True
        then show ?thesis using Cons.IH [OF s1(1)] step rec(3) s1 gcp by (auto split: if_splits)
      next
        case False
        obtain s2 d2 r2 where d: "gc_delete ops running ?p keep (gc_Objects rec) deleted s1 = (s2, d2, r2)" by (metis prod_cases3)
        have s2: "sinv s2" "collected ?p keep (cur s) (cur s2)" using gc_delete_collected [OF s1(1) d] s1(2) by auto
        obtain s3 r3 where e: "st_Delete ops key s2 = (s3, r3)" by fastforce
        have s3: "sinv s3" "collected ?p keep (cur s2) (cur s3)"
          using delete_collected [OF s2(1) e] gc_key_mutable [OF gcp] by auto
        have "s' = s2 \<or> s' = s3 \<or> gc_sweep ops w running held state opts now keep keys (marked @ gc_Objects rec) d2 s3 = (s', m, d, r)"
          using step rec(3) False d e gcp by (auto split: sum.splits)
        then show ?thesis using s2 s3 Cons.IH [OF s3(1)] collected_trans by blast
      qed
    qed
  qed
qed simp

lemma gc_mark_collected:
  "sinv s \<Longrightarrow> gc_mark ops w state now cs n s = (s', m, r) \<Longrightarrow> sinv s' \<and> collected (VolumePrefix (s_Name state)) keep (cur s) (cur s')"
proof (induction cs arbitrary: n s rule: measure_induct_rule [where f = length])
  case (less cs)
  let ?p = "VolumePrefix (s_Name state)"
  show ?case
  proof (cases "cs = []")
    case True
    then show ?thesis using less.prems by (simp add: gc_mark.simps)
  next
    case False
    let ?body = "marshalGC w \<lparr>gc_Format = Format, gc_VolumeID = s_ID state, gc_CreatedAt = now, gc_Objects = take objectsPerRecord cs\<rparr>"
    let ?key = "?p @ ''gc/'' @ dec (nat now) @ ''-'' @ hex_EncodeToString (take 8 (sha256 w ?body)) @ ''.json''"
    obtain s1 x where q: "st_PutIfAbsent ops ?key ?body s = (s1, x)" by fastforce
    have m: "\<not> isImmutableObject ?p ?key" by (rule gc_key_mutable) (simp add: HasPrefix_append)
    have "sinv s1 \<and> (cur s1 = cur s \<or> (\<exists>obj. cur s1 = (cur s)(?key := Some obj)))"
      using put_if_absent [OF less.prems(1) q] by (auto simp: untouched_def stored_def split: sum.splits)
    then have s1: "sinv s1" "collected ?p keep (cur s) (cur s1)" using collected_mutable [OF m] by auto
    have "s' = s1 \<or> (\<exists>n'. gc_mark ops w state now (drop objectsPerRecord cs) n' s1 = (s', m, r))"
      using less.prems(2) False q by (auto simp: gc_mark.simps [of ops w state now cs] Let_def split: sum.splits if_splits)
    moreover have "length (drop objectsPerRecord cs) < length cs" using False by (simp add: objectsPerRecord_def)
    ultimately show ?thesis using less.IH s1 collected_trans by blast
  qed
qed

lemma collectGarbage_collected:
  assumes "sinv s" "collectGarbage w ops g running held state opts now now' s = (s', result)"
  shows "cur s' = cur s \<or> (\<exists>keep. gc_keep w g state (now - HistoryRetention opts) = Inr keep \<and>
    collected (VolumePrefix (s_Name state)) keep (cur s) (cur s'))"
proof (cases "gc_keep w g state (now - HistoryRetention opts)")
  case (Inl e)
  then show ?thesis using assms(2) by (simp add: collectGarbage_def)
next
  case (Inr keep)
  let ?p = "VolumePrefix (s_Name state)"
  obtain s1 x where l: "st_List ops ?p s = (s1, x)" by fastforce
  have s1: "sinv s1" "cur s1 = cur s" using list_keys [OF assms(1) l] by (auto simp: untouched_def)
  show ?thesis
  proof (cases x)
    case (Inl e)
    then show ?thesis using assms(2) s1 Inr l by (simp add: collectGarbage_def Let_def)
  next
    case x: (Inr keys)
    obtain s2 m d y where sw: "gc_sweep ops w running held state opts now' keep keys [] [] s1 = (s2, m, d, y)" by (metis prod_cases4)
    have s2: "sinv s2" "collected ?p keep (cur s) (cur s2)" using gc_sweep_collected [OF s1(1) sw] s1(2) by auto
    obtain s3 n z where mk: "gc_mark ops w state now' (gc_candidates ?p keep m d keys) 0 s2 = (s3, n, z)" by (metis prod_cases3)
    have s3: "collected ?p keep (cur s2) (cur s3)" using gc_mark_collected [OF s2(1) mk] by blast
    have "s' = s2 \<or> s' = s3"
      using assms(2) Inr l x sw mk by (auto simp: collectGarbage_def Let_def split: sum.splits if_splits)
    then show ?thesis using Inr s2(2) s3 collected_trans by blast
  qed
qed

end

section \<open>What a loader reads\<close>

definition fetch_bundle :: "wire \<Rightarrow> getter \<Rightarrow> State \<Rightarrow> string \<Rightarrow> manifestBundle result" where
  "fetch_bundle w get state key = snd (loadBundle w get (newManifestSourceLoader state) key)"

definition loader_ok :: "wire \<Rightarrow> getter \<Rightarrow> State \<Rightarrow> manifestSourceLoader \<Rightarrow> bool" where
  "loader_ok w get state l \<longleftrightarrow> ml_volumeID l = s_ID state \<and> ml_inline l = InlineManifests state \<and> ml_head l = ManifestBundle state \<and>
     (\<forall>key b. fmlookup (ml_bundles l) key = Some b \<longrightarrow> fetch_bundle w get state key = Inr b)"

lemma loader_ok_new [simp]: "loader_ok w get state (newManifestSourceLoader state)"
  by (simp add: loader_ok_def newManifestSourceLoader_def)

lemma loadBundle_ok:
  assumes "loader_ok w get state l" "loadBundle w get l key = (l', r)"
  shows "loader_ok w get state l'" "r = fetch_bundle w get state key"
proof -
  have v: "ml_volumeID l = s_ID state" using assms(1) by (simp add: loader_ok_def)
  have "loader_ok w get state l' \<and> r = fetch_bundle w get state key"
  proof (cases "fmlookup (ml_bundles l) key")
    case None
    have "r = fetch_bundle w get state key"
      using assms(2) None v unfolding fetch_bundle_def loadBundle_def newManifestSourceLoader_def
      by (auto split: sum.splits if_splits)
    moreover have "l' = l \<or> (\<exists>b. Inr b = r \<and> l' = l\<lparr>ml_bundles := fmupd key b (ml_bundles l)\<rparr>)"
      using assms(2) None unfolding loadBundle_def by (auto split: sum.splits if_splits)
    ultimately show ?thesis using assms(1) by (auto simp: loader_ok_def split: if_splits)
  next
    case (Some b)
    then show ?thesis using assms by (auto simp: loadBundle_def loader_ok_def)
  qed
  then show "loader_ok w get state l'" "r = fetch_bundle w get state key" by auto
qed

text \<open>The walk over the chain without its cache.\<close>

fun chain_walk :: "nat \<Rightarrow> wire \<Rightarrow> getter \<Rightarrow> State \<Rightarrow> string \<Rightarrow> ManifestBundleRef option \<Rightarrow> string list \<Rightarrow> (bytes \<times> string list) result" where
  "chain_walk 0 w get state key ref path = invalid ''manifest bundle chain is too long''"
| "chain_walk (Suc fuel) w get state key ref path =
     (case ref of
        None \<Rightarrow> Inr ([], path)
      | Some r \<Rightarrow> bindR (fetch_bundle w get state (mb_Key r)) (\<lambda>b.
          case bundle_entry b key of
            Some body \<Rightarrow> Inr (body, path @ [mb_Key r])
          | None \<Rightarrow> chain_walk fuel w get state key (b_Parent b) (path @ [mb_Key r])))"

lemma search_chain_walk:
  "loader_ok w get state l \<Longrightarrow> search_chain fuel w get l key ref path = (l', r) \<Longrightarrow>
     loader_ok w get state l' \<and> r = chain_walk fuel w get state key ref path"
proof (induction fuel arbitrary: l ref path)
  case (Suc fuel)
  show ?case
  proof (cases ref)
    case (Some x)
    obtain l1 q where q: "loadBundle w get l (mb_Key x) = (l1, q)" by fastforce
    note ok = loadBundle_ok [OF Suc.prems(1) q]
    show ?thesis
      using Suc.prems(2) Suc.IH [OF ok(1)] Some q ok(1) ok(2) [symmetric] by (cases q) (auto split: option.splits)
  qed (use Suc.prems in auto)
qed simp

definition walk_head :: "wire \<Rightarrow> getter \<Rightarrow> State \<Rightarrow> string \<Rightarrow> (bytes \<times> string list) result" where
  "walk_head w get state key = chain_walk (2 ^ 64) w get state key (ManifestBundle state) []"

lemma searchBundleChain_ok:
  assumes "loader_ok w get state l" "searchBundleChain w get l key = (l', r)"
  shows "loader_ok w get state l'" "r = walk_head w get state key"
  using search_chain_walk [OF assms(1), of "2 ^ 64" key "ml_head l" "[]" l' r] assms
  by (simp_all add: searchBundleChain_def walk_head_def loader_ok_def)

lemma findBundlePath_ok:
  assumes "loader_ok w get state l" "findBundlePath w get l key = (l', r)"
  shows "loader_ok w get state l'"
    and "r = (if fmlookup (InlineManifests state) key \<noteq> None then Inr []
       else bindR (walk_head w get state key) (\<lambda>(body, path). Inr (if body \<noteq> [] then path else [])))"
proof -
  obtain l1 q where q: "searchBundleChain w get l key = (l1, q)" by fastforce
  note ok = searchBundleChain_ok [OF assms(1) q]
  have i: "ml_inline l = InlineManifests state" using assms(1) by (simp add: loader_ok_def)
  show "loader_ok w get state l'" using assms q ok by (auto simp: findBundlePath_def split: option.splits sum.splits)
  show "r = (if fmlookup (InlineManifests state) key \<noteq> None then Inr []
       else bindR (walk_head w get state key) (\<lambda>(body, path). Inr (if body \<noteq> [] then path else [])))"
    using assms(2) q ok(2) i by (auto simp: findBundlePath_def bindR_def split: option.splits sum.splits)
qed

text \<open>The body of the manifest that holds the data of a reference.\<close>

definition resolved :: "wire \<Rightarrow> getter \<Rightarrow> State \<Rightarrow> string \<Rightarrow> bytes result" where
  "resolved w get state key =
     (case fmlookup (InlineManifests state) key of
        Some body \<Rightarrow> Inr body
      | None \<Rightarrow>
          (case walk_head w get state key of
             Inl e \<Rightarrow> if errors_Is e ErrNotFound then bindR (get key) (\<lambda>obj. Inr (obj_Data obj)) else Inl e
           | Inr (body, _) \<Rightarrow> if body \<noteq> [] then Inr body else bindR (get key) (\<lambda>obj. Inr (obj_Data obj))))"

definition source_body :: "wire \<Rightarrow> getter \<Rightarrow> State \<Rightarrow> ObjectRef \<Rightarrow> bytes result" where
  "source_body w get state ref =
     (if SourceBundle ref \<noteq> [] then bindR (fetch_bundle w get state (SourceBundle ref)) (\<lambda>b.
        case bundle_entry b (SourceManifest ref) of Some body \<Rightarrow> Inr body | None \<Rightarrow> invalid ''manifest is absent from bundle'')
      else resolved w get state (SourceManifest ref))"

lemma manifestBody_ok:
  assumes "loader_ok w get state l" "manifestBody w get l bkey key = (l', r)"
  shows "loader_ok w get state l' \<and> r = bindR (fetch_bundle w get state bkey) (\<lambda>b.
        case bundle_entry b key of Some body \<Rightarrow> Inr body | None \<Rightarrow> invalid ''manifest is absent from bundle'')"
proof -
  obtain l1 q where q: "loadBundle w get l bkey = (l1, q)" by fastforce
  note ok = loadBundle_ok [OF assms(1) q]
  show ?thesis using assms(2) q ok(1) ok(2) [symmetric] by (cases q) (auto simp: manifestBody_def split: option.splits)
qed

lemma resolve_ok:
  assumes "loader_ok w get state l" "resolve w get l key = (l', r)"
  shows "loader_ok w get state l' \<and> r = resolved w get state key"
proof -
  obtain l1 q where q: "searchBundleChain w get l key = (l1, q)" by fastforce
  note ok = searchBundleChain_ok [OF assms(1) q]
  have i: "ml_inline l = InlineManifests state" using assms(1) by (simp add: loader_ok_def)
  show ?thesis
    using assms q ok(1) ok(2) [symmetric] i by (cases q) (auto simp: resolve_def resolved_def Let_def split: option.splits if_splits)
qed

lemma inlineSegment_ok:
  assumes "loader_ok w get state l" "loader_ok w get' state l'" "source_body w get' state ref = source_body w get state ref"
  shows "loader_ok w get state (fst (inlineSegment w get l ref)) \<and> loader_ok w get' state (fst (inlineSegment w get' l' ref)) \<and>
    snd (inlineSegment w get' l' ref) = snd (inlineSegment w get l ref)"
proof -
  let ?q = "\<lambda>g m. if SourceBundle ref \<noteq> [] then manifestBody w g m (SourceBundle ref) (SourceManifest ref) else resolve w g m (SourceManifest ref)"
  obtain m r where m: "?q get l = (m, r)" by fastforce
  obtain m' r' where m': "?q get' l' = (m', r')" by fastforce
  have ok: "loader_ok w get state m" "r = source_body w get state ref" "loader_ok w get' state m'" "r' = source_body w get' state ref"
    using m m' manifestBody_ok [OF assms(1)] manifestBody_ok [OF assms(2)] resolve_ok [OF assms(1)] resolve_ok [OF assms(2)]
    by (auto simp: source_body_def split: if_splits)
  have "r' = r" using ok assms(3) by simp
  then show ?thesis
    unfolding inlineSegment_def m m' using ok(1,3) by (cases r) simp_all
qed

text \<open>The objects a reference needs.\<close>

definition same_source :: "wire \<Rightarrow> getter \<Rightarrow> getter \<Rightarrow> State \<Rightarrow> ObjectRef \<Rightarrow> bool" where
  "same_source w get get' state ref \<longleftrightarrow> InlineData ref \<noteq> [] \<or>
     (if SourceManifest ref \<noteq> [] then source_body w get' state ref = source_body w get state ref else get' (ref_Key ref) = get (ref_Key ref))"

lemma ref_data_ok:
  assumes "loader_ok w get state l" "loader_ok w get' state l'" "same_source w get get' state ref"
  shows "loader_ok w get state (fst (ref_data w get l ref)) \<and> loader_ok w get' state (fst (ref_data w get' l' ref)) \<and>
    snd (ref_data w get' l' ref) = snd (ref_data w get l ref)"
  using assms inlineSegment_ok [OF assms(1,2)] by (auto simp: ref_data_def same_source_def split: if_splits)

lemma applyObjectRefs_ok:
  assumes "loader_ok w get state l" "loader_ok w get' state l'" "\<forall>ref\<in>set refs. same_source w get get' state ref"
  shows "snd (applyObjectRefs w get' io l' img sz refs) = snd (applyObjectRefs w get io l img sz refs)"
  using assms
proof (induction refs arbitrary: l l' img)
  case (Cons ref refs)
  obtain m r where m: "ref_data w get l ref = (m, r)" by fastforce
  obtain m' r' where m': "ref_data w get' l' ref = (m', r')" by fastforce
  have ok: "loader_ok w get state m" "loader_ok w get' state m'" "r' = r"
    using ref_data_ok [OF Cons.prems(1,2), of ref] Cons.prems(3) m m' by auto
  have "\<exists>img1 q. applyObjectRef w get io l img sz ref = (m, img1, q) \<and> applyObjectRef w get' io l' img sz ref = (m', img1, q)"
    unfolding applyObjectRef_def m m' ok(3) by (auto split: sum.splits prod.splits)
  then obtain img1 q where q: "applyObjectRef w get io l img sz ref = (m, img1, q)" "applyObjectRef w get' io l' img sz ref = (m', img1, q)"
    by blast
  show ?case
    using Cons.IH [OF ok(1,2)] Cons.prems(3) q by (cases q) simp_all
qed simp

end
