(* ===== verification/GarbageClaims.thy ===== *)
theory GarbageClaims
  imports GarbageRun
begin

text \<open>
  What a restore of a retained generation reads, and that the collector keeps it. A bundle of the chain
  is read on the way to an older generation; it is kept because the manifest of its last generation is
  in the retained history and was read from that bundle.
\<close>

section \<open>Bundles and manifests\<close>

inductive on_chain :: "wire \<Rightarrow> getter \<Rightarrow> State \<Rightarrow> ManifestBundleRef \<Rightarrow> bool" for w get state where
  head: "ManifestBundle state = Some ref \<Longrightarrow> on_chain w get state ref"
| parent: "on_chain w get state ref \<Longrightarrow> get (mb_Key ref) = Inr obj \<Longrightarrow> unmarshalBundle w (obj_Data obj) = Inr b \<Longrightarrow>
    b_Parent b = Some p \<Longrightarrow> on_chain w get state p"

text \<open>The bundles of a volume hold its history: they are stored as bundles of the volume, and where the
  history reaches down to the last generation of a bundle, that generation was read from it.\<close>

definition bundles_current :: "wire \<Rightarrow> getter \<Rightarrow> State \<Rightarrow> manifestEntry list \<Rightarrow> bool" where
  "bundles_current w get state history \<longleftrightarrow>
     (\<forall>ref. on_chain w get state ref \<longrightarrow> strings_HasPrefix (mb_Key ref) (VolumePrefix (s_Name state) @ ''manifest-bundles/'') \<and>
        (\<forall>e\<in>set history. gen e \<le> LastGeneration ref \<longrightarrow> (\<exists>x\<in>set history. gen x = LastGeneration ref \<and> e_bundle x = mb_Key ref)))"

lemma readManifestBundle_same:
  "get' (mb_Key ref) = get (mb_Key ref) \<Longrightarrow> readManifestBundle w get' state ref = readManifestBundle w get state ref"
  by (simp add: readManifestBundle_def)

lemma search_bundles_same:
  assumes "\<And>r. g \<noteq> 0 \<Longrightarrow> on_chain w get state r \<Longrightarrow> g \<le> LastGeneration r \<Longrightarrow> get' (mb_Key r) = get (mb_Key r)"
    "\<forall>r. ref = Some r \<longrightarrow> on_chain w get state r" "cache_ok w get state c"
  shows "search_bundles fuel w get' state key g ref c = search_bundles fuel w get state key g ref c"
  using assms(2,3)
proof (induction fuel arbitrary: ref c)
  case (Suc fuel)
  show ?case
  proof (cases "ref = None \<or> g = 0 \<or> g > LastGeneration (the ref)")
    case True
    then show ?thesis by (auto split: option.splits)
  next
    case False
    then obtain r where r: "ref = Some r" "g \<noteq> 0" "g \<le> LastGeneration r" by auto
    have oc: "on_chain w get state r" using Suc.prems(1) r(1) by blast
    have same: "cachedBundle w get' state r c = cachedBundle w get state r c"
      using readManifestBundle_same [of get' r get] assms(1) [OF r(2) oc r(3)] by (simp add: cachedBundle_def split: option.split)
    show ?thesis
    proof (cases "cachedBundle w get state r c")
      case (Inl e)
      then show ?thesis using r same by simp
    next
      case (Inr x)
      obtain b c1 where x: "x = (b, c1)" by fastforce
      note b = Inr [unfolded x]
      obtain r' where r': "mb_Key r' = mb_Key r" "readManifestBundle w get state r' = Inr b"
        using cachedBundle_Inr(2) [OF b Suc.prems(2)] by blast
      obtain obj where obj: "get (mb_Key r) = Inr obj" "unmarshalBundle w (obj_Data obj) = Inr b"
        using readManifestBundle_Inr [OF r'(2)] r'(1) by metis
      have "\<forall>p. b_Parent b = Some p \<longrightarrow> on_chain w get state p" using on_chain.parent [OF oc obj] by blast
      from Suc.IH [OF this cachedBundle_Inr(1) [OF b Suc.prems(2)]] show ?thesis
        using r same b by simp
    qed
  qed
qed simp

lemma readManifest_same:
  assumes "\<And>r. g \<noteq> 0 \<Longrightarrow> on_chain w get state r \<Longrightarrow> g \<le> LastGeneration r \<Longrightarrow> get' (mb_Key r) = get (mb_Key r)"
    "cache_ok w get state c" "get' key = get key"
  shows "readManifestWithSourceCache w get' state key g c = readManifestWithSourceCache w get state key g c"
proof -
  have "\<forall>r. ManifestBundle state = Some r \<longrightarrow> on_chain w get state r" using on_chain.head by blast
  from search_bundles_same [OF assms(1) this assms(2)]
  have "search_bundles (2 ^ 64) w get' state key g (ManifestBundle state) c = search_bundles (2 ^ 64) w get state key g (ManifestBundle state) c" .
  then show ?thesis unfolding readManifestWithSourceCache_def assms(3) by (simp only:)
qed

definition same_reads :: "wire \<Rightarrow> getter \<Rightarrow> getter \<Rightarrow> State \<Rightarrow> manifestEntry \<Rightarrow> bool" where
  "same_reads w get get' state e \<longleftrightarrow> get' (e_key e) = get (e_key e) \<and>
     (\<forall>r. on_chain w get state r \<longrightarrow> gen e \<le> LastGeneration r \<longrightarrow> get' (mb_Key r) = get (mb_Key r))"

lemma restore_loop_same:
  "restore_loop fuel w get state key g c acc = Inr es \<Longrightarrow> cache_ok w get state c \<Longrightarrow> \<forall>e\<in>set es. same_reads w get get' state e \<Longrightarrow>
     restore_loop fuel w get' state key g c acc = Inr es"
proof (induction fuel arbitrary: key g c acc)
  case (Suc fuel)
  show ?case
  proof (cases "key = []")
    case False
    then obtain m b c' where r: "readManifestWithSourceCache w get state key g c = Inr (m, b, c')"
      using Suc.prems(1) by (auto simp: Let_def)
    let ?e = "\<lparr>e_key = key, e_manifest = m, e_bundle = b\<rparr>"
    have rest: "es = acc @ [?e]" if "Kind m = ''checkpoint''" using Suc.prems(1) False r that by (simp add: Let_def)
    have rest': "restore_loop fuel w get state (Parent m) (g - 1) c' (acc @ [?e]) = Inr es" if "Kind m \<noteq> ''checkpoint''"
      using Suc.prems(1) False r that by (simp add: Let_def)
    have "?e \<in> set es" using rest restore_loop_Inr [OF rest'] by fastforce
    then have s: "same_reads w get get' state ?e" using Suc.prems(3) by blast
    have k: "get' key = get key" using s by (simp add: same_reads_def)
    have H: "get' (mb_Key x) = get (mb_Key x)" if "g \<noteq> 0" "on_chain w get state x" "g \<le> LastGeneration x" for x
      using s that readManifest_Inr(2) [OF r that(1)] by (simp add: same_reads_def)
    have r': "readManifestWithSourceCache w get' state key g c = Inr (m, b, c')"
      using readManifest_same [OF H Suc.prems(2) k] r by simp
    have c': "cache_ok w get state c'" by (rule readManifest_agrees [OF r Suc.prems(2,2)]) (use r in auto)
    show ?thesis
      using False r' rest Suc.IH [OF rest' c' Suc.prems(3)] by (auto simp: Let_def)
  qed (use Suc.prems in auto)
qed simp

section \<open>Keys of a history\<close>

abbreviation immutable :: "State \<Rightarrow> string \<Rightarrow> bool" where
  "immutable state key \<equiv> isImmutableObject (VolumePrefix (s_Name state)) key"

definition entry_immutable :: "wire \<Rightarrow> State \<Rightarrow> string \<Rightarrow> Manifest \<Rightarrow> bool" where
  "entry_immutable w state key m \<longleftrightarrow> immutable state key \<and> (\<forall>ref\<in>set (Segments m). checkStorage w state ref = Inr ())"

lemma validate_segments_storage:
  "validate_segments w state kind n refs blocks exts = Inr x \<Longrightarrow> \<forall>ref\<in>set refs. checkStorage w state ref = Inr ()"
proof (induction refs arbitrary: blocks exts)
  case (Cons ref refs)
  then obtain b where b: "checkStorage w state ref = Inr ()"
      "validate_segments w state kind n refs (blocks + b) (exts @ ref_Extents ref) = Inr x"
    by (auto simp: bindR_def split: if_splits sum.splits)
  then show ?case using Cons.IH by simp
qed simp

lemma decodeManifest_immutable:
  assumes "decodeManifest w state key body g = Inr m"
  shows "entry_immutable w state key m"
proof -
  have k: "key = manifestKey w (s_Name state) body" "\<exists>g'. validateManifest w state m g' = Inr ()"
    using assms by (auto simp: decodeManifest_def Let_def split: sum.splits if_splits)
  have "immutable state key"
    unfolding k(1) by (simp add: isImmutableObject_def manifestKey_def strings_HasPrefix_def)
  moreover have "\<exists>x. validate_segments w state (Kind m) (word_of_int (s_Size state div s_BlockSize state)) (Segments m) 0 [] = Inr x"
    using k(2) by (auto simp: validateManifest_def Let_def split: if_splits)
  ultimately show ?thesis using validate_segments_storage by (auto simp: entry_immutable_def)
qed

lemma search_bundles_immutable:
  "search_bundles fuel w get state key g ref c = Inr (Some (m, b), c') \<Longrightarrow> entry_immutable w state key m"
  by (induction fuel arbitrary: ref c) (auto split: option.splits if_splits dest: decodeManifest_immutable)

lemma readManifest_immutable:
  "readManifestWithSourceCache w get state key g c = Inr (m, b, c') \<Longrightarrow> entry_immutable w state key m"
  by (auto simp: readManifestWithSourceCache_def split: option.splits sum.splits dest: decodeManifest_immutable search_bundles_immutable)

lemma history_loop_immutable:
  "history_loop fuel w get state key g behind c = Inr hs \<Longrightarrow> \<forall>e\<in>set hs. entry_immutable w state (e_key e) (e_manifest e)"
proof (induction fuel arbitrary: key g behind c hs)
  case (Suc fuel)
  show ?case
  proof (cases "key = [] \<or> hs = []")
    case True
    then show ?thesis using Suc.prems by auto
  next
    case False
    then obtain m b c' where m: "readManifestWithSourceCache w get state key g c = Inr (m, b, c')" "hd hs = \<lparr>e_key = key, e_manifest = m, e_bundle = b\<rparr>"
      "m_Generation m = 1 \<Longrightarrow> Parent m = [] \<and> tl hs = []"
      "m_Generation m \<noteq> 1 \<Longrightarrow> history_loop fuel w get state (Parent m) (g - 1) (behind \<or> Kind m = ''checkpoint'') c' = Inr (tl hs)"
      using history_loop_Cons [OF Suc.prems(1)] by blast
    have "\<forall>e\<in>set (tl hs). entry_immutable w state (e_key e) (e_manifest e)"
      using m(3) Suc.IH [OF m(4)] by (cases "m_Generation m = 1") auto
    then show ?thesis using False m(2) readManifest_immutable [OF m(1)] by (cases hs) auto
  qed
qed simp

lemma checkStorage_keys:
  assumes "checkStorage w state ref = Inr ()"
  shows "ref_Key ref \<noteq> [] \<Longrightarrow> immutable state (ref_Key ref)" "SourceManifest ref \<noteq> [] \<Longrightarrow> immutable state (SourceManifest ref)"
    "SourceBundle ref \<noteq> [] \<Longrightarrow> immutable state (SourceBundle ref)" "InlineData ref = [] \<Longrightarrow> SourceManifest ref = [] \<Longrightarrow> ref_Key ref \<noteq> []"
  using assms by (auto simp: checkStorage_def isImmutableObject_def Let_def split: if_splits)

section \<open>Sources\<close>

text \<open>What is left of the store: \<open>get'\<close> answers as \<open>get\<close> did, except that objects not kept may be missing.\<close>

definition shrunk :: "State \<Rightarrow> string set \<Rightarrow> getter \<Rightarrow> getter \<Rightarrow> bool" where
  "shrunk state keep get get' \<longleftrightarrow> (\<forall>key. immutable state key \<longrightarrow> get' key = get key \<or> key \<notin> keep \<and> get' key = Inl ErrNotFound)"

lemma shrunk_kept: "shrunk state keep get get' \<Longrightarrow> immutable state key \<Longrightarrow> key \<in> keep \<Longrightarrow> get' key = get key"
  by (auto simp: shrunk_def)

lemma fetch_bundle_same: "get' key = get key \<Longrightarrow> fetch_bundle w get' state key = fetch_bundle w get state key"
  by (simp only: fetch_bundle_def loadBundle_def)

lemma fetch_bundle_missing: "get key = Inl e \<Longrightarrow> fetch_bundle w get state key = Inl (Wrap ''read manifest bundle'' e)"
  by (simp add: fetch_bundle_def loadBundle_def newManifestSourceLoader_def)

lemma fetch_bundle_Inr:
  assumes "fetch_bundle w get state key = Inr b"
  obtains obj where "get key = Inr obj" "unmarshalBundle w (obj_Data obj) = Inr b"
proof (cases "get key")
  case (Inr obj)
  then have "unmarshalBundle w (obj_Data obj) = Inr b"
    using assms by (cases "unmarshalBundle w (obj_Data obj)") (auto simp: fetch_bundle_def loadBundle_def newManifestSourceLoader_def split: if_splits)
  then show thesis using that Inr by blast
qed (use assms fetch_bundle_missing in auto)

lemma chain_walk_path: "chain_walk fuel w get state key ref path = Inr (body, p) \<Longrightarrow> set path \<subseteq> set p"
  by (induction fuel arbitrary: ref path) (fastforce split: option.splits)+

lemma chain_walk_same:
  "chain_walk fuel w get state key ref path = Inr (body, p) \<Longrightarrow> \<forall>k\<in>set p. get' k = get k \<Longrightarrow>
     chain_walk fuel w get' state key ref path = Inr (body, p)"
proof (induction fuel arbitrary: ref path)
  case (Suc fuel)
  show ?case
  proof (cases ref)
    case (Some r)
    then obtain b where b: "fetch_bundle w get state (mb_Key r) = Inr b" using Suc.prems(1) by (auto simp: bindR_def split: sum.splits)
    have "mb_Key r \<in> set p"
      using Suc.prems(1) Some b chain_walk_path [of fuel w get state key "b_Parent b" "path @ [mb_Key r]" body p]
      by (auto split: option.splits)
    then have "fetch_bundle w get' state (mb_Key r) = Inr b" using fetch_bundle_same Suc.prems(2) b by metis
    then show ?thesis using Suc Some b by (auto split: option.splits)
  qed (use Suc.prems in auto)
qed simp

lemma chain_walk_shrunk:
  assumes "shrunk state keep get get'" "\<And>r. on_chain w get state r \<Longrightarrow> immutable state (mb_Key r)"
    "\<forall>r. ref = Some r \<longrightarrow> on_chain w get state r"
  shows "chain_walk fuel w get' state key ref path = chain_walk fuel w get state key ref path \<or>
    (\<exists>e. chain_walk fuel w get' state key ref path = Inl e \<and> errors_Is e ErrNotFound)"
  using assms(3)
proof (induction fuel arbitrary: ref path)
  case (Suc fuel)
  show ?case
  proof (cases ref)
    case (Some r)
    then have oc: "on_chain w get state r" using Suc.prems by blast
    have "get' (mb_Key r) = get (mb_Key r) \<or> get' (mb_Key r) = Inl ErrNotFound"
      using assms(1) assms(2) [OF oc] by (auto simp: shrunk_def)
    then show ?thesis
    proof
      assume "get' (mb_Key r) = Inl ErrNotFound"
      then show ?thesis using Some fetch_bundle_missing by simp
    next
      assume same: "get' (mb_Key r) = get (mb_Key r)"
      show ?thesis
      proof (cases "fetch_bundle w get state (mb_Key r)")
        case (Inl e)
        then show ?thesis using Some fetch_bundle_same [of get' "mb_Key r" get, OF same] by simp
      next
        case (Inr b)
        obtain obj where "get (mb_Key r) = Inr obj" "unmarshalBundle w (obj_Data obj) = Inr b" using fetch_bundle_Inr [OF Inr] .
        then have "\<forall>p. b_Parent b = Some p \<longrightarrow> on_chain w get state p" using on_chain.parent [OF oc] by blast
        from Suc.IH [OF this] show ?thesis using Some Inr fetch_bundle_same [of get' "mb_Key r" get, OF same] by (auto split: option.splits)
      qed
    qed
  qed simp
qed simp

definition ref_kept :: "wire \<Rightarrow> getter \<Rightarrow> State \<Rightarrow> string set \<Rightarrow> ObjectRef \<Rightarrow> bool" where
  "ref_kept w get state keep ref \<longleftrightarrow> nonempty_keys [ref_Key ref, SourceManifest ref, SourceBundle ref] \<subseteq> keep \<and>
     (SourceManifest ref \<noteq> [] \<and> SourceBundle ref = [] \<and> InlineData ref = [] \<longrightarrow>
        fmlookup (InlineManifests state) (SourceManifest ref) \<noteq> None \<or>
        (\<exists>body path. walk_head w get state (SourceManifest ref) = Inr (body, path) \<and> (body \<noteq> [] \<longrightarrow> set path \<subseteq> keep)))"

lemma ref_kept_mono: "ref_kept w get state keep ref \<Longrightarrow> keep \<subseteq> keep' \<Longrightarrow> ref_kept w get state keep' ref"
  unfolding ref_kept_def by blast

lemma walk_keys_immutable:
  assumes "\<And>r. on_chain w get state r \<Longrightarrow> immutable state (mb_Key r)"
  shows "\<forall>r. ref = Some r \<longrightarrow> on_chain w get state r \<Longrightarrow> chain_walk fuel w get state key ref path = Inr (body, p) \<Longrightarrow>
    set p \<subseteq> set path \<union> Collect (immutable state)"
proof (induction fuel arbitrary: ref path)
  case (Suc fuel)
  show ?case
  proof (cases ref)
    case (Some r)
    then have oc: "on_chain w get state r" using Suc.prems by blast
    obtain b where b: "fetch_bundle w get state (mb_Key r) = Inr b" using Suc.prems(2) Some by (auto simp: bindR_def split: sum.splits)
    obtain obj where "get (mb_Key r) = Inr obj" "unmarshalBundle w (obj_Data obj) = Inr b" using fetch_bundle_Inr [OF b] .
    then have "\<forall>q. b_Parent b = Some q \<longrightarrow> on_chain w get state q" using on_chain.parent [OF oc] by blast
    note IH = Suc.IH [OF this, of "path @ [mb_Key r]"]
    show ?thesis
    proof (cases "bundle_entry b key")
      case None
      then have "set p \<subseteq> set (path @ [mb_Key r]) \<union> Collect (immutable state)" using IH Suc.prems(2) Some b by simp
      then show ?thesis using assms [OF oc] by auto
    next
      case (Some body')
      then show ?thesis using Suc.prems(2) \<open>ref = Some r\<close> b assms [OF oc] by auto
    qed
  qed (use Suc.prems in auto)
qed simp

lemma resolved_same:
  assumes sh: "shrunk state keep get get'" and imm: "\<And>r. on_chain w get state r \<Longrightarrow> immutable state (mb_Key r)"
    and key: "get' key = get key"
    and kept: "fmlookup (InlineManifests state) key \<noteq> None \<or>
      (\<exists>body path. walk_head w get state key = Inr (body, path) \<and> (body \<noteq> [] \<longrightarrow> set path \<subseteq> keep))"
  shows "resolved w get' state key = resolved w get state key"
proof (cases "fmlookup (InlineManifests state) key")
  case None
  then obtain body path where w: "walk_head w get state key = Inr (body, path)" "body \<noteq> [] \<longrightarrow> set path \<subseteq> keep" using kept by auto
  have oc: "\<forall>r. ManifestBundle state = Some r \<longrightarrow> on_chain w get state r" using on_chain.head by blast
  note walk = w(1) [unfolded walk_head_def]
  show ?thesis
  proof (cases "body = []")
    case True
    have "walk_head w get' state key = walk_head w get state key \<or> (\<exists>e. walk_head w get' state key = Inl e \<and> errors_Is e ErrNotFound)"
      unfolding walk_head_def by (rule chain_walk_shrunk [OF sh imm oc])
    then show ?thesis using None w(1) True key by (auto simp: resolved_def)
  next
    case False
    have "\<forall>k\<in>set path. get' k = get k"
      using walk_keys_immutable [OF imm oc walk] w(2) False shrunk_kept [OF sh] by auto
    then have "walk_head w get' state key = Inr (body, path)" using chain_walk_same [OF walk] by (simp add: walk_head_def)
    then show ?thesis using None w(1) False by (simp add: resolved_def)
  qed
qed (simp add: resolved_def)

lemma kept_same_source:
  assumes sh: "shrunk state keep get get'" and imm: "\<And>r. on_chain w get state r \<Longrightarrow> immutable state (mb_Key r)"
    and kept: "ref_kept w get state keep ref" and st: "checkStorage w state ref = Inr ()"
  shows "same_source w get get' state ref"
proof -
  note K = checkStorage_keys [OF st]
  have sub: "ref_Key ref \<noteq> [] \<Longrightarrow> ref_Key ref \<in> keep" "SourceManifest ref \<noteq> [] \<Longrightarrow> SourceManifest ref \<in> keep"
      "SourceBundle ref \<noteq> [] \<Longrightarrow> SourceBundle ref \<in> keep"
    using kept by (auto simp: ref_kept_def nonempty_keys_def)
  show ?thesis
  proof (cases "InlineData ref \<noteq> [] \<or> SourceManifest ref = []")
    case True
    then show ?thesis using K(1,4) sub(1) shrunk_kept [OF sh] by (auto simp: same_source_def)
  next
    case False
    then have m: "InlineData ref = []" "SourceManifest ref \<noteq> []" by auto
    have "source_body w get' state ref = source_body w get state ref"
    proof (cases "SourceBundle ref = []")
      case True
      have "resolved w get' state (SourceManifest ref) = resolved w get state (SourceManifest ref)"
        using kept m True by (intro resolved_same [OF sh imm shrunk_kept [OF sh K(2) sub(2)]]) (auto simp: ref_kept_def)
      then show ?thesis using True by (simp add: source_body_def)
    next
      case False
      then have "fetch_bundle w get' state (SourceBundle ref) = fetch_bundle w get state (SourceBundle ref)"
        using shrunk_kept [OF sh K(3) sub(3)] by (intro fetch_bundle_same)
      then show ?thesis using False by (simp add: source_body_def)
    qed
    then show ?thesis using m by (simp add: same_source_def)
  qed
qed

section \<open>What is kept\<close>

lemma keep_refs_ok:
  "loader_ok w get state l \<Longrightarrow> keep_refs w get l refs = (l', Inr keys) \<Longrightarrow>
     loader_ok w get state l' \<and> (\<forall>ref\<in>set refs. ref_kept w get state keys ref)"
proof (induction refs arbitrary: l keys)
  case (Cons ref refs)
  let ?look = "SourceManifest ref \<noteq> [] \<and> SourceBundle ref = [] \<and> InlineData ref = []"
  obtain l1 q where q: "(if ?look then findBundlePath w get l (SourceManifest ref) else (l, Inr [])) = (l1, q)" by fastforce
  obtain l2 r where r: "keep_refs w get l1 refs = (l2, r)" by fastforce
  obtain path rest where p: "q = Inr path" "r = Inr rest" "l' = l2"
      "keys = nonempty_keys [ref_Key ref, SourceManifest ref, SourceBundle ref] \<union> set path \<union> rest"
    using Cons.prems(2) q r by (cases q; cases r) (auto simp: Let_def)
  have l1: "loader_ok w get state l1" using q Cons.prems(1) findBundlePath_ok(1) by (auto split: if_splits)
  have IH: "loader_ok w get state l'" "\<forall>ref\<in>set refs. ref_kept w get state rest ref" using Cons.IH [OF l1] r p by auto
  have "fmlookup (InlineManifests state) (SourceManifest ref) \<noteq> None \<or>
      (\<exists>body path. walk_head w get state (SourceManifest ref) = Inr (body, path) \<and> (body \<noteq> [] \<longrightarrow> set path \<subseteq> keys))" if ?look
  proof (cases "fmlookup (InlineManifests state) (SourceManifest ref)")
    case None
    have "q = bindR (walk_head w get state (SourceManifest ref)) (\<lambda>(body, path). Inr (if body \<noteq> [] then path else []))"
      using findBundlePath_ok(2) [OF Cons.prems(1), of "SourceManifest ref" l1 q] q that None by simp
    then obtain body pa where "walk_head w get state (SourceManifest ref) = Inr (body, pa)" "path = (if body \<noteq> [] then pa else [])"
      using p(1) by (cases "walk_head w get state (SourceManifest ref)") auto
    then show ?thesis using p(4) by auto
  qed simp
  then have "ref_kept w get state keys ref" using p(4) by (auto simp: ref_kept_def)
  moreover have "\<forall>ref\<in>set refs. ref_kept w get state keys ref" using IH(2) ref_kept_mono [of w get state rest _ keys] p(4) by blast
  ultimately show ?case using IH(1) by simp
qed simp

definition entry_kept :: "wire \<Rightarrow> getter \<Rightarrow> State \<Rightarrow> string set \<Rightarrow> manifestEntry \<Rightarrow> bool" where
  "entry_kept w get state keep e \<longleftrightarrow> nonempty_keys [e_key e, e_bundle e] \<subseteq> keep \<and> (\<forall>ref\<in>set (Segments (e_manifest e)). ref_kept w get state keep ref)"

lemma entry_kept_mono: "entry_kept w get state keep e \<Longrightarrow> keep \<subseteq> keep' \<Longrightarrow> entry_kept w get state keep' e"
  using ref_kept_mono [of w get state keep _ keep'] unfolding entry_kept_def by blast

lemma keep_entries_ok:
  "loader_ok w get state l \<Longrightarrow> keep_entries w get l es = Inr keep \<Longrightarrow> \<forall>e\<in>set es. entry_kept w get state keep e"
proof (induction es arbitrary: l keep)
  case (Cons e es)
  obtain l1 r where r: "keep_refs w get l (Segments (e_manifest e)) = (l1, r)" by fastforce
  obtain keys rest where k: "r = Inr keys" "keep_entries w get l1 es = Inr rest" "keep = nonempty_keys [e_key e, e_bundle e] \<union> keys \<union> rest"
    using Cons.prems(2) r by (cases r) auto
  note K = keep_refs_ok [OF Cons.prems(1) r [unfolded k(1)]]
  have sub: "nonempty_keys [e_key e, e_bundle e] \<subseteq> keep" "keys \<subseteq> keep" "rest \<subseteq> keep" using k(3) by auto
  have "entry_kept w get state keep e"
    using K sub ref_kept_mono [OF _ sub(2)] by (auto simp: entry_kept_def)
  moreover have "\<forall>x\<in>set es. entry_kept w get state keep x"
    using Cons.IH [OF K [THEN conjunct1] k(2)] entry_kept_mono [OF _ sub(3)] by blast
  ultimately show ?case by simp
qed simp

lemma keep_through_position:
  "e \<in> set (keep_through cutoff hs) \<Longrightarrow>
     \<exists>newer older. hs = newer @ e # older \<and> set (to_checkpoint (e # older)) \<subseteq> set (keep_through cutoff hs)"
proof (induction hs)
  case (Cons x hs)
  have prefix: "set (to_checkpoint ys) \<subseteq> set (keep_through cutoff ys)" for ys
    by (induction ys) auto
  show ?case
  proof (cases "e = x")
    case True
    then show ?thesis using prefix [of "x # hs"] by blast
  next
    case False
    then have "e \<in> set (keep_through cutoff hs)" "\<not> (Kind (e_manifest x) = ''checkpoint'' \<and> \<not> CreatedAt (e_manifest x) > cutoff)"
      using Cons.prems by (auto split: if_splits)
    with Cons.IH obtain newer older where n: "hs = newer @ e # older" "set (to_checkpoint (e # older)) \<subseteq> set (keep_through cutoff hs)"
      by blast
    then have "x # hs = (x # newer) @ e # older \<and> set (to_checkpoint (e # older)) \<subseteq> set (keep_through cutoff (x # hs))"
      using \<open>\<not> (Kind (e_manifest x) = _ \<and> _)\<close> by auto
    then show ?thesis by blast
  qed
qed simp

text \<open>Everything newer than a retained entry is retained.\<close>

lemma keep_through_upward:
  assumes "sorted_wrt (\<lambda>a b. gen b < gen a) hs" "e \<in> set (keep_through cutoff hs)" "x \<in> set hs" "gen e \<le> gen x"
  shows "x \<in> set (keep_through cutoff hs)"
  using assms
proof (induction hs)
  case (Cons y hs)
  have sub: "set (keep_through cutoff ys) \<subseteq> set ys" for ys by (induction ys) auto
  show ?case
  proof (cases "x = y")
    case False
    then have x: "x \<in> set hs" "gen x < gen y" using Cons.prems by auto
    then have "e \<noteq> y" using Cons.prems(4) by auto
    then have "e \<in> set (keep_through cutoff hs)" "\<not> (Kind (e_manifest y) = ''checkpoint'' \<and> \<not> CreatedAt (e_manifest y) > cutoff)"
      using Cons.prems(2) by (auto split: if_splits)
    then show ?thesis using Cons x by auto
  qed simp
qed simp

section \<open>The plan of a retained generation\<close>

lemma plan_loop_refs:
  "r \<in> set (plan_loop es covered refs) \<Longrightarrow> r \<in> set refs \<or>
     (\<exists>e\<in>set es. \<exists>seg\<in>set (Segments (e_manifest e)). \<exists>i x. r = (tag_inline e i seg)\<lparr>ref_Extents := x, ref_ZeroExtents := []\<rparr>)"
proof (induction es arbitrary: covered refs)
  case (Cons e es)
  have seg: "\<exists>seg\<in>set (Segments (e_manifest e)). \<exists>i x. r = (tag_inline e i seg)\<lparr>ref_Extents := x, ref_ZeroExtents := []\<rparr>"
    if "r \<in> set (narrowed (narrow covered) (map (\<lambda>(i, r). tag_inline e i r) (enumerate 0 (Segments (e_manifest e)))))"
    using that by (auto simp: narrowed_def narrow_def in_set_enumerate_eq) (metis nth_mem)
  show ?case
    using Cons.IH [of _ "refs @ narrowed (narrow covered) (map (\<lambda>(i, r). tag_inline e i r) (enumerate 0 (Segments (e_manifest e))))"] Cons.prems seg
    by (simp add: plan_segments_eq) blast
qed simp

lemma same_source_planned:
  assumes "same_source w get get' state seg"
  shows "same_source w get get' state ((tag_inline e i seg)\<lparr>ref_Extents := x, ref_ZeroExtents := []\<rparr>)"
  using assms by (auto simp: same_source_def tag_inline_def source_body_def)

lemma keep_through_subset: "set (keep_through cutoff hs) \<subseteq> set hs"
  by (induction hs) auto

lemma gc_keep_entries:
  assumes "loadHistory w get state = Inr history" "gc_keep w get state cutoff = Inr keep" "x \<in> set (keep_through cutoff history)"
  shows "entry_kept w get state keep x" "entry_immutable w state (e_key x) (e_manifest x)"
proof -
  have "\<forall>x\<in>set (keep_through cutoff history). entry_kept w get state keep x"
    using assms(1,2) by (intro keep_entries_ok [OF loader_ok_new]) (simp add: gc_keep_def)
  then show "entry_kept w get state keep x" using assms(3) by blast
  have "\<forall>x\<in>set history. entry_immutable w state (e_key x) (e_manifest x)"
    using assms(1) history_loop_immutable by (fastforce simp: loadHistory_def split: if_splits)
  then show "entry_immutable w state (e_key x) (e_manifest x)" using assms(3) keep_through_subset by blast
qed

lemma immutable_nonempty: "immutable state key \<Longrightarrow> key \<noteq> []"
  by (auto simp: isImmutableObject_def strings_HasPrefix_def)

lemma bundles_current_immutable: "bundles_current w get state history \<Longrightarrow> on_chain w get state x \<Longrightarrow> immutable state (mb_Key x)"
  by (auto simp: bundles_current_def isImmutableObject_def)

lemma retained_reads:
  assumes load: "loadHistory w get state = Inr history" and keep: "gc_keep w get state cutoff = Inr keep"
    and cur: "bundles_current w get state history" and sh: "shrunk state keep get get'" and x: "x \<in> set (keep_through cutoff history)"
  shows "same_reads w get get' state x"
proof -
  note k = gc_keep_entries [OF load keep x]
  have key: "get' (e_key x) = get (e_key x)"
    using shrunk_kept [OF sh] immutable_nonempty k by (auto simp: entry_kept_def entry_immutable_def nonempty_keys_def)
  have desc: "sorted_wrt (\<lambda>a b. gen b < gen a) history" using history_linked_descending [OF loadHistory_linked [OF load]] by blast
  have "get' (mb_Key q) = get (mb_Key q)" if q: "on_chain w get state q" "gen x \<le> LastGeneration q" for q
  proof -
    obtain y where y: "y \<in> set history" "gen y = LastGeneration q" "e_bundle y = mb_Key q"
      using cur q x keep_through_subset unfolding bundles_current_def by blast
    then have "entry_kept w get state keep y" using gc_keep_entries(1) [OF load keep] keep_through_upward [OF desc x y(1)] q(2) by simp
    then have "mb_Key q \<in> keep \<or> mb_Key q = []" using y(3) by (auto simp: entry_kept_def nonempty_keys_def)
    then show ?thesis
      using shrunk_kept [OF sh] immutable_nonempty bundles_current_immutable [OF cur q(1)] by blast
  qed
  then show ?thesis using key by (simp add: same_reads_def)
qed

lemma retained_plan:
  assumes load: "loadHistory w get state = Inr history" and keep: "gc_keep w get state cutoff = Inr keep"
    and cur: "bundles_current w get state history" and sh: "shrunk state keep get get'"
    and e: "e \<in> set (keep_through cutoff history)" and refs: "restorePlan w get (state_at state e) = Inr refs"
  shows "restorePlan w get' (state_at state e) = Inr refs" "\<forall>ref\<in>set refs. same_source w get get' state ref"
proof -
  obtain newer older where n: "history = newer @ e # older" "set (to_checkpoint (e # older)) \<subseteq> set (keep_through cutoff history)"
    using keep_through_position [OF e] by blast
  obtain c where m: "state_at state e = moved state (gen e) (e_key e) c" using state_at_moved by blast
  obtain es where es: "restoreManifests w get (state_at state e) = Inr es" "refs = plan_loop es [] []"
    using refs by (auto simp: restorePlan_def)
  have sub: "set es \<subseteq> set (keep_through cutoff history)" using restore_at_history [OF load [unfolded n(1)] es(1)] n(2) by simp
  then have "\<forall>x\<in>set es. same_reads w get get' state x" using retained_reads [OF load keep cur sh] by blast
  then have "restoreManifests w get' (state_at state e) = Inr es"
    using es(1) restore_loop_same [OF _ cache_ok_empty] unfolding restoreManifests_def m restore_loop_moved by blast
  then show "restorePlan w get' (state_at state e) = Inr refs" using es(2) by (simp add: restorePlan_def)
  show "\<forall>ref\<in>set refs. same_source w get get' state ref"
  proof
    fix ref assume ref: "ref \<in> set refs"
    obtain x seg i y where x: "x \<in> set es" "seg \<in> set (Segments (e_manifest x))" "ref = (tag_inline x i seg)\<lparr>ref_Extents := y, ref_ZeroExtents := []\<rparr>"
      using plan_loop_refs [of ref es "[]" "[]"] ref es(2) by auto
    have "ref_kept w get state keep seg" "checkStorage w state seg = Inr ()"
      using gc_keep_entries [OF load keep] x sub by (auto simp: entry_kept_def entry_immutable_def)
    from same_source_planned [OF kept_same_source [OF sh bundles_current_immutable [OF cur] this]]
    show "same_source w get get' state ref" unfolding x(3) .
  qed
qed

lemma retained_restores:
  assumes load: "loadHistory w get state = Inr history" and keep: "gc_keep w get state cutoff = Inr keep"
    and cur: "bundles_current w get state history" and sh: "shrunk state keep get get'"
    and e: "e \<in> set (keep_through cutoff history)" and perm: "\<And>refs. mset (schedule refs) = mset refs"
    and r: "RestoreState w get io creates schedule (state_at state e) = Inr img"
  shows "RestoreState w get' io creates schedule (state_at state e) = Inr img"
proof -
  let ?s = "state_at state e"
  obtain refs where refs: "restorePlan w get ?s = Inr refs" using r by (auto simp: RestoreState_def)
  note plan = retained_plan [OF load keep cur sh e refs]
  have "set (schedule refs) = set refs" using perm mset_eq_setD by blast
  then have ok: "\<forall>ref\<in>set (schedule refs). same_source w get get' state ref" using plan(2) by simp
  obtain c where m: "?s = moved state (gen e) (e_key e) c" using state_at_moved by blast
  have new: "newManifestSourceLoader ?s = newManifestSourceLoader state" by (simp add: m newManifestSourceLoader_def)
  have run: "snd (applyObjectRefs w get' io (newManifestSourceLoader ?s) empty_image (s_Size ?s) (schedule refs)) =
      snd (applyObjectRefs w get io (newManifestSourceLoader ?s) empty_image (s_Size ?s) (schedule refs))"
    unfolding new by (rule applyObjectRefs_ok [OF loader_ok_new loader_ok_new ok])
  obtain l1 i1 q1 where a: "applyObjectRefs w get io (newManifestSourceLoader ?s) empty_image (s_Size ?s) (schedule refs) = (l1, i1, q1)"
    by (metis prod_cases3)
  obtain l2 where b: "applyObjectRefs w get' io (newManifestSourceLoader ?s) empty_image (s_Size ?s) (schedule refs) = (l2, i1, q1)"
    using run a by (metis prod.collapse snd_conv)
  have "validateState w (s_Name ?s) ?s = Inr ()" "creates = Inr ()"
    using r by (cases creates; auto simp: RestoreState_def createSparseImage_def)+
  then show ?thesis
    using r refs plan(1) a b by (cases q1) (simp_all add: RestoreState_def createSparseImage_def)
qed

section \<open>Properties\<close>

text \<open>
  C20. Garbage collection never loses data. Whatever it did to the store (it may have been interrupted, an
  operation may have failed or reported a failure after taking effect, the lease may have been lost
  halfway), every generation it retains, the current one among them, still restores to the image it
  restored to before.
\<close>

theorem collectGarbage_keeps_restores:
  assumes "object_store ops cur hist sinv" "sinv s"
    and "collectGarbage w ops (reader cur s) running held state opts now now' s = (s', result)"
    and "loadHistory w (reader cur s) state = Inr history" "bundles_current w (reader cur s) state history"
    and "entry \<in> set (keep_through (now - HistoryRetention opts) history)" "\<And>refs. mset (schedule refs) = mset refs"
    and "RestoreState w (reader cur s) io creates schedule (state_at state entry) = Inr img"
  shows "RestoreState w (reader cur s') io creates schedule (state_at state entry) = Inr img"
  using object_store.collectGarbage_collected [OF assms(1-3)]
proof (elim disjE exE conjE)
  assume "cur s' = cur s"
  then have "reader cur s' = reader cur s" by (simp add: reader_def fun_eq_iff)
  then show ?thesis using assms(8) by simp
next
  fix keep
  assume keep: "gc_keep w (reader cur s) state (now - HistoryRetention opts) = Inr keep"
    and c: "collected (VolumePrefix (s_Name state)) keep (cur s) (cur s')"
  have "shrunk state keep (reader cur s) (reader cur s')"
    using c by (auto simp: shrunk_def collected_def reader_def)
  from retained_restores [OF assms(4) keep assms(5) this assms(6,7,8)] show ?thesis .
qed

text \<open>The sample volume: its marked segment is past its grace period.\<close>

lemma kept_inv: "logged_inv kept_store"
proof -
  have "\<exists>k\<le>4. obj_ETag obj = mem_etag k" if "fmlookup kept_objects key = Some obj" for key obj
    using that by (auto simp: kept_objects_def fmlookup_of_list intro: exI [of _ 1] exI [of _ 2] exI [of _ 3] exI [of _ 4] split: if_splits)
  then have "tagged_upto 4 (versions kept_objects)" by (auto simp: tagged_upto_def versions_eq)
  moreover have "tags_determine (versions kept_objects)" by (auto simp: tags_determine_def versions_eq)
  ultimately show ?thesis by (simp add: logged_inv_def kept_store_def logged_hist_def covers_def versions_eq)
qed

lemma kept_current: "bundles_current kept_wire get sample_state history"
proof -
  have "\<not> on_chain kept_wire get sample_state ref" for ref
  proof
    assume "on_chain kept_wire get sample_state ref"
    then show False by induction (simp_all add: sample_state_def)
  qed
  then show ?thesis by (simp add: bundles_current_def)
qed

theorem collectGarbage_keeps_restores_witness:
  "RestoreState kept_wire (reader logged_cur (fst (collectGarbage kept_wire faulty_ops (reader logged_cur kept_store) (\<lambda>_. True) (\<lambda>_. True)
     sample_state \<lparr>HistoryRetention = 0, GracePeriod = 0\<rparr> 10 10 kept_store))) ideal_io (Inr ()) id sample_state = Inr empty_image"
proof -
  let ?gc = "collectGarbage kept_wire faulty_ops (reader logged_cur kept_store) (\<lambda>_. True) (\<lambda>_. True)
     sample_state \<lparr>HistoryRetention = 0, GracePeriod = 0\<rparr> 10 10 kept_store"
  have e: "kept_entry \<in> set (keep_through (10 - HistoryRetention \<lparr>HistoryRetention = 0, GracePeriod = 0\<rparr>) [kept_entry])" by simp
  have r: "RestoreState kept_wire (reader logged_cur kept_store) ideal_io (Inr ()) id (state_at sample_state kept_entry) = Inr empty_image"
    using kept_restores by (simp add: kept_state_at)
  have g: "?gc = (fst ?gc, snd ?gc)" by simp
  show ?thesis
    using collectGarbage_keeps_restores [OF memory.object_store_axioms kept_inv g kept_history kept_current e _ r]
    by (simp add: kept_state_at)
qed

end
