(* ===== verification/Nbd.thy ===== *)
theory Nbd
  imports DeviceRun
begin

text \<open>
  The network block device server (\<open>internal/backend/block/nbd_linux.go\<close>) between the kernel and the
  device: requests arrive on a connection, replies go back on it. Requests are served one after the
  other, except that a flush which waits for its generation to become durable is a barrier of its own
  that is answered later. The connection delivers a given stream; what becomes of each call of its
  \<open>Write\<close> is an argument.
\<close>

section \<open>Wire format\<close>

definition nbdRequestMagic :: u32 where "nbdRequestMagic = 0x25609513"
definition nbdReplyMagic :: u32 where "nbdReplyMagic = 0x67446698"

definition nbdCmdRead :: u32 where "nbdCmdRead = 0"
definition nbdCmdWrite :: u32 where "nbdCmdWrite = 1"
definition nbdCmdDisconnect :: u32 where "nbdCmdDisconnect = 2"
definition nbdCmdFlush :: u32 where "nbdCmdFlush = 3"
definition nbdCmdTrim :: u32 where "nbdCmdTrim = 4"
definition nbdCmdWriteZeroes :: u32 where "nbdCmdWriteZeroes = 6"
definition nbdCmdMask :: u32 where "nbdCmdMask = 0xffff"
definition nbdCmdFlagFUA :: u32 where "nbdCmdFlagFUA = 0x10000"

definition maxNBDRequest :: u32 where "maxNBDRequest = 33554432"
definition writeChunk :: nat where "writeChunk = 4194304"

text \<open>The errors the server answers with on its own.\<close>

abbreviation EINVAL :: error where "EINVAL \<equiv> Errno 22"
abbreviation EROFS :: error where "EROFS \<equiv> Errno 30"

record nbd_request =
  typeAndFlags :: u32
  handle :: bytes
  rq_offset :: u64
  rq_length :: u32

definition slice :: "nat \<Rightarrow> nat \<Rightarrow> bytes \<Rightarrow> bytes" where
  "slice i j bs = take (j - i) (drop i bs)"

text \<open>The header of 28 bytes; \<open>None\<close> for a wrong magic number.\<close>

definition decode_header :: "bytes \<Rightarrow> nbd_request option" where
  "decode_header header =
     (if Uint32 (slice 0 4 header) \<noteq> nbdRequestMagic then None
      else Some \<lparr>typeAndFlags = Uint32 (slice 4 8 header), handle = slice 8 16 header,
                 rq_offset = Uint64 (slice 16 24 header), rq_length = Uint32 (slice 24 28 header)\<rparr>)"

definition command :: "nbd_request \<Rightarrow> u32" where
  "command rq = typeAndFlags rq AND nbdCmdMask"

fun errno_value :: "error \<Rightarrow> nat" where
  "errno_value (Errno n) = n"
| "errno_value (Wrap m e) = errno_value e"
| "errno_value e = 5"

definition errno :: "error option \<Rightarrow> u32" where
  "errno err = (case err of None \<Rightarrow> 0 | Some e \<Rightarrow> of_nat (errno_value e))"

section \<open>The connection\<close>

text \<open>What each call of \<open>Write\<close> does, in order: how many bytes it takes and its error. Beyond the list a
  call takes everything.\<close>

type_synonym conn_writes = "(nat \<times> error option) list"

fun writeFull :: "conn_writes \<Rightarrow> bytes \<Rightarrow> conn_writes \<times> bytes \<times> unit result" where
  "writeFull [] data = ([], data, Inr ())"
| "writeFull ((n, err) # outs) data =
     (if data = [] then ((n, err) # outs, [], Inr ())
      else
        let k = min n (length data) in
        case err of
          Some e \<Rightarrow> (outs, take k data, Inl e)
        | None \<Rightarrow>
            if k = 0 then (outs, [], Inl ErrShortWrite)
            else (case writeFull outs (drop k data) of (outs', sent, r) \<Rightarrow> (outs', take k data @ sent, r)))"

definition reply_head :: "bytes \<Rightarrow> u32 \<Rightarrow> bytes" where
  "reply_head hnd en = PutUint32 nbdReplyMagic @ PutUint32 en @ hnd"

definition writeReply :: "conn_writes \<Rightarrow> bytes \<Rightarrow> u32 \<Rightarrow> bytes \<Rightarrow> conn_writes \<times> bytes \<times> unit result" where
  "writeReply outs hnd en data =
     (case writeFull outs (reply_head hnd en) of
        (outs1, sent, Inl e) \<Rightarrow> (outs1, sent, Inl e)
      | (outs1, sent, Inr _) \<Rightarrow>
          if en = 0 \<and> data \<noteq> [] then (case writeFull outs1 data of (outs2, sent2, r) \<Rightarrow> (outs2, sent @ sent2, r))
          else (outs1, sent, Inr ()))"

section \<open>The server\<close>

text \<open>
  A barrier waits for the one before it and then for the result of its own flush (\<open>Awaiting\<close>), unless its
  request has failed already (\<open>Refused\<close>); \<open>Completed\<close> is what it will answer.
\<close>

datatype barrier_status = Awaiting | Refused error | Completed "error option"

record barrier =
  br_handle :: bytes
  br_status :: barrier_status

text \<open>Where the loop is: between requests, in the chunks of a write (with the rest of the data and its
  offset), in a trim, or waiting for the barriers before it returns. A \<open>bool\<close> tells whether backpressure
  was reported in this wait.\<close>

datatype nbd_phase =
    Idle
  | Writing nbd_request bytes int bool
  | Trimming nbd_request bool
  | Stopping "error option"

record 'h nbd_server =
  ns_in :: stream
  ns_out :: bytes
  ns_closed :: bool
  ns_device :: "'h Device"
  ns_phase :: nbd_phase
  ns_barriers :: "barrier list"
  workerErrors :: "error option"

definition conn_Close :: "'h nbd_server \<Rightarrow> 'h nbd_server" where
  "conn_Close s = s\<lparr>ns_closed := True\<rparr>"

definition recordWorkerError :: "error \<Rightarrow> 'h nbd_server \<Rightarrow> 'h nbd_server" where
  "recordWorkerError e s = conn_Close (s\<lparr>workerErrors := (case workerErrors s of None \<Rightarrow> Some e | Some e' \<Rightarrow> Some e')\<rparr>)"

definition sendReply :: "conn_writes \<Rightarrow> bytes \<Rightarrow> error option \<Rightarrow> bytes \<Rightarrow> 'h nbd_server \<Rightarrow> 'h nbd_server \<times> unit result" where
  "sendReply outs hnd requestErr data s =
     (if ns_closed s then (recordWorkerError (Errorf ''use of closed network connection'') s, Inl (Errorf ''use of closed network connection''))
      else
        case writeReply outs hnd (errno requestErr) data of
          (_, sent, Inl e) \<Rightarrow> (recordWorkerError e (s\<lparr>ns_out := ns_out s @ sent\<rparr>), Inl e)
        | (_, sent, Inr _) \<Rightarrow> (s\<lparr>ns_out := ns_out s @ sent\<rparr>, Inr ()))"

definition stop :: "error option \<Rightarrow> 'h nbd_server \<Rightarrow> 'h nbd_server" where
  "stop readErr s = s\<lparr>ns_phase := Stopping readErr\<rparr>"

text \<open>\<open>waitForWorkers\<close>: what \<open>serveNBD\<close> returns, once no barrier is left.\<close>

definition waitForWorkers :: "'h nbd_server \<Rightarrow> error option option" where
  "waitForWorkers s =
     (case ns_phase s of
        Stopping readErr \<Rightarrow> if ns_barriers s = [] then Some (case workerErrors s of Some e \<Rightarrow> Some e | None \<Rightarrow> readErr) else None
      | _ \<Rightarrow> None)"

text \<open>A reply of the loop itself: on a failed write of the connection it stops.\<close>

definition answer_request :: "conn_writes \<Rightarrow> bytes \<Rightarrow> error option \<Rightarrow> bytes \<Rightarrow> 'h nbd_server \<Rightarrow> 'h nbd_server" where
  "answer_request outs hnd requestErr data s =
     (case sendReply outs hnd requestErr data s of
        (s1, Inl e) \<Rightarrow> stop (Some e) s1
      | (s1, Inr _) \<Rightarrow> s1\<lparr>ns_phase := Idle\<rparr>)"

definition QueuedFlushEnabled :: "'h Device \<Rightarrow> bool" where
  "QueuedFlushEnabled d = queuedFlush d"

definition dispatchBarrier :: "bytes \<Rightarrow> error option \<Rightarrow> 'h nbd_server \<Rightarrow> 'h nbd_server \<times> device_event list" where
  "dispatchBarrier hnd requestErr s =
     (let (d, evs, err) = (case requestErr of None \<Rightarrow> BeginDurableFlush (ns_device s) | Some e \<Rightarrow> (ns_device s, [], Some e));
          status = (case err of None \<Rightarrow> Awaiting | Some e \<Rightarrow> Refused e)
      in (s\<lparr>ns_device := d, ns_barriers := ns_barriers s @ [\<lparr>br_handle = hnd, br_status = status\<rparr>], ns_phase := Idle\<rparr>, evs))"

text \<open>\<open>device.Flush\<close> as the loop calls it; \<open>res\<close> is what the handler reports in the end.\<close>

definition flush_device :: "fileio \<Rightarrow> error option \<Rightarrow> 'h nbd_server \<Rightarrow> 'h nbd_server \<times> device_event list \<times> error option" where
  "flush_device io res s = (case Flush io res res (ns_device s) of (d, evs, err) \<Rightarrow> (s\<lparr>ns_device := d\<rparr>, evs, err))"

definition fuaWrite :: "nbd_request \<Rightarrow> bool" where
  "fuaWrite rq \<longleftrightarrow> command rq \<in> {nbdCmdWrite, nbdCmdTrim, nbdCmdWriteZeroes} \<and> typeAndFlags rq AND nbdCmdFlagFUA \<noteq> 0"

text \<open>After the request was served: a forced write waits for its data to be durable.\<close>

definition finish_request ::
  "fileio \<Rightarrow> error option \<Rightarrow> conn_writes \<Rightarrow> nbd_request \<Rightarrow> error option \<Rightarrow> bytes \<Rightarrow> 'h nbd_server \<Rightarrow> 'h nbd_server \<times> device_event list" where
  "finish_request io res outs rq requestErr response s =
     (if fuaWrite rq then
        (if QueuedFlushEnabled (ns_device s) then dispatchBarrier (handle rq) requestErr s
         else
           let (s1, evs, err) = (if requestErr = None then flush_device io res s else (s, [], requestErr))
           in (answer_request outs (handle rq) err [] s1, evs))
      else (answer_request outs (handle rq) requestErr response s, []))"

definition payloadTooLarge :: "nbd_request \<Rightarrow> bool" where
  "payloadTooLarge rq \<longleftrightarrow> command rq \<in> {nbdCmdRead, nbdCmdWrite} \<and> rq_length rq > maxNBDRequest"

definition outside_device :: "'h Device \<Rightarrow> nbd_request \<Rightarrow> bool" where
  "outside_device d rq \<longleftrightarrow> payloadTooLarge rq \<or> rq_offset rq > word_of_int (d_size d) \<or>
     ucast (rq_length rq) > word_of_int (d_size d) - rq_offset rq"

text \<open>\<open>io.CopyN(io.Discard, conn, n)\<close>.\<close>

definition discard :: "nat \<Rightarrow> stream \<Rightarrow> stream result" where
  "discard n s = (if n \<le> length (fst s) then Inr (drop n (fst s), snd s) else if snd s then Inl EOF else Inl (Errorf ''corrupt stream''))"

text \<open>One turn of the loop up to the point where it may have to wait for room in the device. A read fills
  a buffer of zeros from the front. The last component is the request, once all of it has been received and unless it is a disconnect.\<close>

definition serve_request ::
  "'h hydrator_ops \<Rightarrow> fileio \<Rightarrow> bool \<Rightarrow> error option \<Rightarrow> conn_writes \<Rightarrow> nbd_request \<Rightarrow> 'h nbd_server \<Rightarrow>
     'h nbd_server \<times> device_event list \<times> nbd_request list" where
  "serve_request ops io readOnly res outs rq s =
     (if command rq = nbdCmdDisconnect then (stop None (conn_Close s), [], [])
      else if outside_device (ns_device s) rq then
        (case (if command rq = nbdCmdWrite then discard (unat (rq_length rq)) (ns_in s) else Inr (ns_in s)) of
           Inl e \<Rightarrow> (stop (Some e) s, [], [])
         | Inr rest \<Rightarrow> (answer_request outs (handle rq) (Some EINVAL) [] (s\<lparr>ns_in := rest\<rparr>), [], [rq]))
      else if command rq = nbdCmdWrite then
        (case io_ReadFull (unat (rq_length rq)) (ns_in s) of
           Inl e \<Rightarrow> (stop (Some e) (conn_Close s), [], [])
         | Inr (data, rest) \<Rightarrow>
             if readOnly then (case finish_request io res outs rq (Some EROFS) [] (s\<lparr>ns_in := rest\<rparr>) of (s1, evs) \<Rightarrow> (s1, evs, [rq]))
             else (s\<lparr>ns_in := rest, ns_phase := Writing rq data (uint (rq_offset rq)) False\<rparr>, [], [rq]))
      else if command rq = nbdCmdFlush then
        (if QueuedFlushEnabled (ns_device s) then (case dispatchBarrier (handle rq) None s of (s1, evs) \<Rightarrow> (s1, evs, [rq]))
         else (case flush_device io res s of (s1, evs, err) \<Rightarrow> (answer_request outs (handle rq) err [] s1, evs, [rq])))
      else if command rq = nbdCmdRead then
        (let n = unat (rq_length rq) in
         case ReadAt ops io (replicate n 0) (uint (rq_offset rq)) (ns_device s) of
           (d, buf, err) \<Rightarrow>
             (case finish_request io res outs rq err (buf @ replicate (n - length buf) 0) (s\<lparr>ns_device := d\<rparr>) of
                (s1, evs) \<Rightarrow> (s1, evs, [rq])))
      else if command rq = nbdCmdTrim \<or> command rq = nbdCmdWriteZeroes then
        (if readOnly then (case finish_request io res outs rq (Some EROFS) [] s of (s1, evs) \<Rightarrow> (s1, evs, [rq]))
         else (s\<lparr>ns_phase := Trimming rq False\<rparr>, [], [rq]))
      else (case finish_request io res outs rq (Some EINVAL) [] s of (s1, evs) \<Rightarrow> (s1, evs, [rq])))"

definition next_request ::
  "'h hydrator_ops \<Rightarrow> fileio \<Rightarrow> bool \<Rightarrow> error option \<Rightarrow> conn_writes \<Rightarrow> 'h nbd_server \<Rightarrow> 'h nbd_server \<times> device_event list \<times> nbd_request list" where
  "next_request ops io readOnly res outs s =
     (if ns_closed s then (stop (Some (Errorf ''use of closed network connection'')) s, [], [])
      else
        case io_ReadFull 28 (ns_in s) of
          Inl e \<Rightarrow> (stop (Some e) (conn_Close s), [], [])
        | Inr (header, rest) \<Rightarrow>
            (case decode_header header of
               None \<Rightarrow> (stop (Some (Errorf ''invalid NBD request magic'')) (conn_Close (s\<lparr>ns_in := rest\<rparr>)), [], [])
             | Some rq \<Rightarrow> serve_request ops io readOnly res outs rq (s\<lparr>ns_in := rest\<rparr>)))"

text \<open>\<open>writeChunked\<close>: one attempt to write the next chunk, or the end of the loop.\<close>

definition write_step ::
  "'h hydrator_ops \<Rightarrow> fileio \<Rightarrow> error option \<Rightarrow> conn_writes \<Rightarrow> nbd_request \<Rightarrow> bytes \<Rightarrow> int \<Rightarrow> bool \<Rightarrow> 'h nbd_server \<Rightarrow> 'h nbd_server \<times> device_event list" where
  "write_step ops io res outs rq data off reported s =
     (if data = [] then finish_request io res outs rq None [] s
      else
        let n = min (length data) writeChunk in
        case WriteAt ops io reported (take n data) off (ns_device s) of
          (d, evs, Waiting) \<Rightarrow> (s\<lparr>ns_device := d, ns_phase := Writing rq data off True\<rparr>, evs)
        | (d, evs, Return (_, Some e)) \<Rightarrow>
            (case finish_request io res outs rq (Some e) [] (s\<lparr>ns_device := d\<rparr>) of (s1, evs') \<Rightarrow> (s1, evs @ evs'))
        | (d, evs, Return (_, None)) \<Rightarrow>
            (s\<lparr>ns_device := d, ns_phase := Writing rq (drop n data) (off + int n) False\<rparr>, evs))"

definition trim_step ::
  "'h hydrator_ops \<Rightarrow> fileio \<Rightarrow> error option \<Rightarrow> conn_writes \<Rightarrow> nbd_request \<Rightarrow> bool \<Rightarrow> 'h nbd_server \<Rightarrow> 'h nbd_server \<times> device_event list" where
  "trim_step ops io res outs rq reported s =
     (case Trim ops io reported (uint (rq_offset rq)) (uint (rq_length rq)) (ns_device s) of
        (d, evs, Waiting) \<Rightarrow> (s\<lparr>ns_device := d, ns_phase := Trimming rq True\<rparr>, evs)
      | (d, evs, Return err) \<Rightarrow>
          (case finish_request io res outs rq err [] (s\<lparr>ns_device := d\<rparr>) of (s1, evs') \<Rightarrow> (s1, evs @ evs')))"

section \<open>Barriers\<close>

definition is_completed :: "barrier \<Rightarrow> bool" where
  "is_completed b \<longleftrightarrow> (case br_status b of Completed _ \<Rightarrow> True | _ \<Rightarrow> False)"

text \<open>The goroutine of a barrier goes past \<open>prior\<close> when every earlier barrier has closed its channel; \<open>res\<close>
  is what then arrives from the flush.\<close>

definition barrier_ready :: "nat \<Rightarrow> 'h nbd_server \<Rightarrow> bool" where
  "barrier_ready k s \<longleftrightarrow> k < length (ns_barriers s) \<and> list_all is_completed (take k (ns_barriers s)) \<and> \<not> is_completed (ns_barriers s ! k)"

definition complete_barrier :: "nat \<Rightarrow> error option \<Rightarrow> 'h nbd_server \<Rightarrow> 'h nbd_server" where
  "complete_barrier k res s =
     (let b = ns_barriers s ! k;
          err = (case br_status b of Refused e \<Rightarrow> Some e | _ \<Rightarrow> res)
      in s\<lparr>ns_barriers := (ns_barriers s)[k := b\<lparr>br_status := Completed err\<rparr>]\<rparr>)"

definition answer_barrier :: "nat \<Rightarrow> conn_writes \<Rightarrow> 'h nbd_server \<Rightarrow> 'h nbd_server" where
  "answer_barrier k outs s =
     (let b = ns_barriers s ! k;
          err = (case br_status b of Completed e \<Rightarrow> e | _ \<Rightarrow> None);
          s1 = s\<lparr>ns_barriers := take k (ns_barriers s) @ drop (Suc k) (ns_barriers s)\<rparr>
      in fst (sendReply outs (br_handle b) err [] s1))"

end
