(* ===== verification/NbdRun.thy ===== *)
theory NbdRun
  imports Nbd "HOL-Library.Multiset"
begin

text \<open>
  Runs of the server: its loop, the goroutines of its barriers and everything else that works on the
  device, in any interleaving. Every request is answered exactly once.
\<close>

section \<open>Replies\<close>

record reply =
  rp_handle :: bytes
  rp_errno :: u32
  rp_data :: bytes

definition reply_bytes :: "reply \<Rightarrow> bytes" where
  "reply_bytes rp = reply_head (rp_handle rp) (rp_errno rp) @ rp_data rp"

text \<open>A reply to a request: data only for a read without an error, and then all of it.\<close>

definition answers :: "nbd_request \<Rightarrow> reply \<Rightarrow> bool" where
  "answers rq rp \<longleftrightarrow> rp_handle rp = handle rq \<and>
     (if command rq = nbdCmdRead \<and> rp_errno rp = 0 then length (rp_data rp) = unat (rq_length rq) else rp_data rp = [])"

lemma writeFull_sends: "writeFull outs data = (outs', sent, Inr ()) \<Longrightarrow> sent = data"
proof (induction outs arbitrary: data outs' sent)
  case (Cons x outs)
  obtain n err where x: "x = (n, err)" by fastforce
  show ?case
  proof (cases "data = [] \<or> err \<noteq> None \<or> min n (length data) = 0")
    case True
    then show ?thesis using Cons.prems x by (auto simp: Let_def split: if_splits option.splits)
  next
    case False
    obtain o1 s1 r1 where w: "writeFull outs (drop (min n (length data)) data) = (o1, s1, r1)" by (metis prod_cases3)
    then have "r1 = Inr ()" "sent = take (min n (length data)) data @ s1" using Cons.prems x False by (auto simp: Let_def split: if_splits)
    then show ?thesis using Cons.IH w by (metis append_take_drop_id)
  qed
qed simp

lemma writeReply_sends:
  assumes "writeReply outs hnd en data = (outs', sent, Inr ())"
  shows "sent = reply_bytes \<lparr>rp_handle = hnd, rp_errno = en, rp_data = (if en = 0 then data else [])\<rparr>"
proof -
  obtain o1 s1 r1 where w: "writeFull outs (reply_head hnd en) = (o1, s1, r1)" by (metis prod_cases3)
  then have r1: "r1 = Inr ()" using assms by (cases r1) (auto simp: writeReply_def)
  then have s1: "s1 = reply_head hnd en" using writeFull_sends w by blast
  show ?thesis
  proof (cases "en = 0 \<and> data \<noteq> []")
    case True
    obtain o2 s2 r2 where w2: "writeFull o1 data = (o2, s2, r2)" by (metis prod_cases3)
    then have "r2 = Inr ()" "sent = s1 @ s2" using assms w r1 True by (auto simp: writeReply_def)
    then show ?thesis using writeFull_sends [of o1 data o2 s2] w2 s1 True by (simp add: reply_bytes_def)
  next
    case False
    then show ?thesis using assms w r1 s1 by (auto simp: writeReply_def reply_bytes_def)
  qed
qed

section \<open>Runs\<close>

text \<open>\<open>seen\<close> are the requests received so far. What the device, the disk and the connection do in a step
  is arbitrary, and other users of the device may act between any two steps.\<close>

inductive nbd_run :: "'h hydrator_ops \<Rightarrow> bool \<Rightarrow> 'h nbd_server \<Rightarrow> 'h nbd_server \<Rightarrow> nbd_request list \<Rightarrow> bool" for ops readOnly s0 where
  start: "nbd_run ops readOnly s0 s0 []"
| request: "nbd_run ops readOnly s0 s seen \<Longrightarrow> ns_phase s = Idle \<Longrightarrow> next_request ops io readOnly res outs s = (s', evs, got) \<Longrightarrow>
    nbd_run ops readOnly s0 s' (seen @ got)"
| chunk: "nbd_run ops readOnly s0 s seen \<Longrightarrow> ns_phase s = Writing rq data off reported \<Longrightarrow>
    write_step ops io res outs rq data off reported s = (s', evs) \<Longrightarrow> nbd_run ops readOnly s0 s' seen"
| trim: "nbd_run ops readOnly s0 s seen \<Longrightarrow> ns_phase s = Trimming rq reported \<Longrightarrow>
    trim_step ops io res outs rq reported s = (s', evs) \<Longrightarrow> nbd_run ops readOnly s0 s' seen"
| complete: "nbd_run ops readOnly s0 s seen \<Longrightarrow> barrier_ready k s \<Longrightarrow> nbd_run ops readOnly s0 (complete_barrier k res s) seen"
| barrier: "nbd_run ops readOnly s0 s seen \<Longrightarrow> k < length (ns_barriers s) \<Longrightarrow> is_completed (ns_barriers s ! k) \<Longrightarrow>
    nbd_run ops readOnly s0 (answer_barrier k outs s) seen"
| others: "nbd_run ops readOnly s0 s seen \<Longrightarrow> d_size d = d_size (ns_device s) \<Longrightarrow> nbd_run ops readOnly s0 (s\<lparr>ns_device := d\<rparr>) seen"

fun phase_handles :: "nbd_phase \<Rightarrow> bytes multiset" where
  "phase_handles (Writing rq data off reported) = {#handle rq#}"
| "phase_handles (Trimming rq reported) = {#handle rq#}"
| "phase_handles p = {#}"

fun phase_ok :: "bool \<Rightarrow> int \<Rightarrow> nbd_request list \<Rightarrow> nbd_phase \<Rightarrow> bool" where
  "phase_ok readOnly sz seen (Writing rq data off reported) \<longleftrightarrow> \<not> readOnly \<and> rq \<in> set seen \<and> command rq = nbdCmdWrite \<and>
     0 \<le> off \<and> off + int (length data) \<le> sz"
| "phase_ok readOnly sz seen (Trimming rq reported) \<longleftrightarrow> \<not> readOnly \<and> rq \<in> set seen \<and> command rq \<in> {nbdCmdTrim, nbdCmdWriteZeroes} \<and>
     uint (rq_offset rq) + uint (rq_length rq) \<le> sz"
| "phase_ok readOnly sz seen p \<longleftrightarrow> True"

definition barrier_ok :: "nbd_request list \<Rightarrow> barrier \<Rightarrow> bool" where
  "barrier_ok seen b \<longleftrightarrow> (\<exists>rq\<in>set seen. handle rq = br_handle b \<and> command rq \<noteq> nbdCmdRead)"

text \<open>What has been answered and what is still owed.\<close>

definition owed :: "'h nbd_server \<Rightarrow> bytes multiset" where
  "owed s = mset (map br_handle (ns_barriers s)) + phase_handles (ns_phase s)"

definition answered :: "nbd_request list \<Rightarrow> bytes multiset \<Rightarrow> bytes \<Rightarrow> bool" where
  "answered seen rest sent \<longleftrightarrow> (\<exists>replies. sent = concat (map reply_bytes replies) \<and>
     mset (map handle seen) = mset (map rp_handle replies) + rest \<and> (\<forall>rp\<in>set replies. \<exists>rq\<in>set seen. answers rq rp))"

definition nbd_inv :: "bool \<Rightarrow> nbd_request list \<Rightarrow> 'h nbd_server \<Rightarrow> bool" where
  "nbd_inv readOnly seen s \<longleftrightarrow> phase_ok readOnly (d_size (ns_device s)) seen (ns_phase s) \<and> list_all (barrier_ok seen) (ns_barriers s) \<and>
     (workerErrors s = None \<longrightarrow> answered seen (owed s) (ns_out s))"

section \<open>Sending\<close>

lemma answered_reply:
  assumes "answered seen (add_mset (handle rq) rest) sent" "rq \<in> set seen" "answers rq rp"
  shows "answered seen rest (sent @ reply_bytes rp)"
proof -
  obtain replies where r: "sent = concat (map reply_bytes replies)" "mset (map handle seen) = mset (map rp_handle replies) + add_mset (handle rq) rest"
      "\<forall>rp\<in>set replies. \<exists>rq\<in>set seen. answers rq rp"
    using assms(1) by (auto simp: answered_def)
  have "rp_handle rp = handle rq" using assms(3) by (simp add: answers_def)
  then show ?thesis
    using r assms(2,3) unfolding answered_def by (intro exI [of _ "replies @ [rp]"]) auto
qed

lemma answered_more:
  "answered seen rest sent \<Longrightarrow> answered (seen @ [rq]) (add_mset (handle rq) rest) sent"
  by (fastforce simp: answered_def)

lemma sendReply_effect:
  assumes "sendReply outs hnd err data s = (s', r)"
  shows "ns_phase s' = ns_phase s" "ns_barriers s' = ns_barriers s" "ns_device s' = ns_device s"
    and "workerErrors s' = None \<Longrightarrow> workerErrors s = None \<and> r = Inr () \<and>
      ns_out s' = ns_out s @ reply_bytes \<lparr>rp_handle = hnd, rp_errno = errno err, rp_data = (if errno err = 0 then data else [])\<rparr>"
proof -
  obtain o1 sent q where w: "writeReply outs hnd (errno err) data = (o1, sent, q)" by (metis prod_cases3)
  note unf = assms [unfolded sendReply_def w]
  show "ns_phase s' = ns_phase s" "ns_barriers s' = ns_barriers s" "ns_device s' = ns_device s"
    using unf by (auto simp: recordWorkerError_def conn_Close_def split: if_splits sum.splits)
  assume n: "workerErrors s' = None"
  have q: "\<not> ns_closed s \<and> q = Inr ()"
    using unf n by (cases q) (auto simp: recordWorkerError_def conn_Close_def split: if_splits option.splits)
  then have "sent = reply_bytes \<lparr>rp_handle = hnd, rp_errno = errno err, rp_data = (if errno err = 0 then data else [])\<rparr>"
    using writeReply_sends [of outs hnd "errno err" data o1 sent] w by simp
  then show "workerErrors s = None \<and> r = Inr () \<and>
      ns_out s' = ns_out s @ reply_bytes \<lparr>rp_handle = hnd, rp_errno = errno err, rp_data = (if errno err = 0 then data else [])\<rparr>"
    using unf n q by auto
qed

text \<open>A request that is being served and has no reply yet.\<close>

definition serving :: "nbd_request list \<Rightarrow> nbd_request \<Rightarrow> 'h nbd_server \<Rightarrow> bool" where
  "serving seen rq s \<longleftrightarrow> rq \<in> set seen \<and> list_all (barrier_ok seen) (ns_barriers s) \<and>
     (workerErrors s = None \<longrightarrow> answered seen (add_mset (handle rq) (mset (map br_handle (ns_barriers s)))) (ns_out s))"

lemma serving_device [simp]: "serving seen rq (s\<lparr>ns_device := d\<rparr>) = serving seen rq s" "serving seen rq (s\<lparr>ns_in := i\<rparr>) = serving seen rq s"
  by (simp_all add: serving_def)

lemma answer_request_inv:
  assumes "serving seen rq s" "answers rq \<lparr>rp_handle = handle rq, rp_errno = errno err, rp_data = (if errno err = 0 then data else [])\<rparr>"
  shows "nbd_inv readOnly seen (answer_request outs (handle rq) err data s)"
proof -
  obtain s1 r where r: "sendReply outs (handle rq) err data s = (s1, r)" by fastforce
  note E = sendReply_effect [OF r]
  have "answered seen (mset (map br_handle (ns_barriers s))) (ns_out s1)" if "workerErrors s1 = None"
    using E(4) [OF that] answered_reply [OF _ _ assms(2)] assms(1) by (auto simp: serving_def)
  then show ?thesis
    using E(2) assms(1) r by (cases r) (auto simp: nbd_inv_def answer_request_def stop_def owed_def serving_def)
qed

lemma not_read_answers: "command rq \<noteq> nbdCmdRead \<Longrightarrow> answers rq \<lparr>rp_handle = handle rq, rp_errno = en, rp_data = []\<rparr>"
  by (simp add: answers_def)

lemma answer_empty_inv:
  "serving seen rq s \<Longrightarrow> command rq \<noteq> nbdCmdRead \<Longrightarrow> nbd_inv readOnly seen (answer_request outs (handle rq) err [] s)"
  by (rule answer_request_inv) (simp_all add: not_read_answers)

lemma dispatchBarrier_inv:
  assumes "serving seen rq s" "command rq \<noteq> nbdCmdRead"
  shows "nbd_inv readOnly seen (fst (dispatchBarrier (handle rq) err s))"
proof -
  obtain d evs e where x: "(case err of None \<Rightarrow> BeginDurableFlush (ns_device s) | Some e \<Rightarrow> (ns_device s, [], Some e)) = (d, evs, e)"
    by (metis prod_cases3)
  have b: "barrier_ok seen \<lparr>br_handle = handle rq, br_status = st\<rparr>" for st
    using assms by (auto simp: barrier_ok_def serving_def)
  show ?thesis
    using assms(1) b by (auto simp: dispatchBarrier_def x nbd_inv_def owed_def serving_def)
qed

lemma fuaWrite_not_read: "fuaWrite rq \<Longrightarrow> command rq \<noteq> nbdCmdRead"
  by (auto simp: fuaWrite_def nbdCmdRead_def nbdCmdWrite_def nbdCmdTrim_def nbdCmdWriteZeroes_def)

lemma finish_request_inv:
  assumes "serving seen rq s" "answers rq \<lparr>rp_handle = handle rq, rp_errno = errno err, rp_data = (if errno err = 0 then response else [])\<rparr>"
  shows "nbd_inv readOnly seen (fst (finish_request io res outs rq err response s))"
proof (cases "fuaWrite rq")
  case True
  note nr = fuaWrite_not_read [OF True]
  show ?thesis
  proof (cases "QueuedFlushEnabled (ns_device s)")
    case True
    then show ?thesis using \<open>fuaWrite rq\<close> dispatchBarrier_inv [OF assms(1) nr] by (simp add: finish_request_def)
  next
    case False
    obtain s1 evs e where x: "(if err = None then flush_device io res s else (s, [], err)) = (s1, evs, e)" by (metis prod_cases3)
    then have "\<exists>d. s1 = s\<lparr>ns_device := d\<rparr>"
      by (cases "err = None") (auto simp: flush_device_def split: prod.splits intro: exI [of _ "ns_device s"])
    then have "serving seen rq s1" using assms(1) by auto
    then show ?thesis
      using \<open>fuaWrite rq\<close> False x answer_empty_inv [OF _ nr] by (simp add: finish_request_def)
  qed
next
  case False
  then show ?thesis using answer_request_inv [OF assms] by (simp add: finish_request_def)
qed

section \<open>Serving\<close>

lemma call_hydrate_size: "call_hydrate f d off len = (d', r) \<Longrightarrow> d_size d' = d_size d"
  by (auto simp: call_hydrate_def split: option.splits prod.splits)

lemma captureWrite_size: "captureWrite_loop io data off d bs = (d', r) \<Longrightarrow> d_size d' = d_size d"
proof (induction bs arbitrary: d)
  case (Cons b bs)
  obtain d1 q where b: "captureWrite_block io data off b d = (d1, q)" by fastforce
  have "d_size d1 = d_size d"
    using b by (auto simp: captureWrite_block_def put_buf_def active_buf_def newBlock_def Let_def split: prod.splits option.splits if_splits list.splits)
  then show ?case using Cons b by (auto split: sum.splits)
qed simp

lemma WriteAt_size:
  assumes "WriteAt ops io reported p off d = (d', evs, r)"
  shows "d_size d' = d_size d"
proof -
  obtain d1 q where h: "call_hydrate (PrepareWrite ops) d off (int (length p)) = (d1, q)" by fastforce
  obtain img n err where f: "file_WriteAt io (d_file d1) p (nat off) = (img, n, err)" by (metis prod_cases3)
  obtain a b where ab: "blockRange off (int n) = (a, b)" by fastforce
  obtain d2 q2 where c: "captureWrite io (take n p) off a b (d1\<lparr>d_file := img, localDirty := True\<rparr>) = (d2, q2)" by fastforce
  have "d_size d1 = d_size d" "d_size d2 = d_size d1"
    using call_hydrate_size [OF h] captureWrite_size [OF c [unfolded captureWrite_def]] by simp_all
  then show ?thesis
    using assms unfolding WriteAt_def h
    by (auto simp: f ab c Let_def call_commit_def notifyDirty_def split: if_splits prod.splits sum.splits)
qed

lemma ReadAt_length:
  "ReadAt ops io p off d = (d', buf, err) \<Longrightarrow> length buf \<le> length p"
  by (auto simp: ReadAt_def Let_def file_ReadAt_def file_read_def split: if_splits prod.splits sum.splits option.splits)

lemma inside_device:
  assumes "\<not> outside_device d rq" "0 \<le> d_size d" "d_size d < 2 ^ 63"
  shows "uint (rq_offset rq) + uint (rq_length rq) \<le> d_size d"
proof -
  have sz: "uint (word_of_int (d_size d) :: u64) = d_size d" using assms(2,3) by (simp add: uint_word_of_int)
  have o: "rq_offset rq \<le> word_of_int (d_size d)" "ucast (rq_length rq) \<le> word_of_int (d_size d) - rq_offset rq"
    using assms(1) by (auto simp: outside_device_def)
  have u: "uint (ucast (rq_length rq) :: u64) = uint (rq_length rq)" by (simp add: uint_up_ucast is_up)
  have "uint (word_of_int (d_size d) - rq_offset rq) = d_size d - uint (rq_offset rq)"
    using uint_sub_lem [of "rq_offset rq" "word_of_int (d_size d)"] o(1) sz by (simp add: word_le_def)
  then show ?thesis using o(2) u by (simp add: word_le_def)
qed

definition sized :: "'h nbd_server \<Rightarrow> bool" where
  "sized s \<longleftrightarrow> 0 \<le> d_size (ns_device s) \<and> d_size (ns_device s) < 2 ^ 63"

lemma serving_new:
  assumes "nbd_inv readOnly seen s" "ns_phase s = Idle"
  shows "serving (seen @ [rq]) rq s"
proof -
  have "list_all (barrier_ok (seen @ [rq])) (ns_barriers s)"
    using assms(1) by (auto simp: nbd_inv_def list_all_iff barrier_ok_def)
  then show ?thesis using assms answered_more [of seen _ "ns_out s" rq] by (auto simp: serving_def nbd_inv_def owed_def)
qed

lemma stop_inv:
  "nbd_inv readOnly seen s \<Longrightarrow> ns_phase s = Idle \<Longrightarrow> nbd_inv readOnly seen (stop e s) \<and> nbd_inv readOnly seen (stop e (conn_Close s))"
  by (auto simp: nbd_inv_def stop_def conn_Close_def owed_def)

lemma nbd_commands_distinct:
  "nbdCmdRead \<noteq> nbdCmdWrite" "nbdCmdRead \<noteq> nbdCmdFlush" "nbdCmdRead \<noteq> nbdCmdTrim" "nbdCmdRead \<noteq> nbdCmdWriteZeroes"
  by (simp_all add: nbdCmdRead_def nbdCmdWrite_def nbdCmdFlush_def nbdCmdTrim_def nbdCmdWriteZeroes_def)

lemma errno_answers:
  "errno (Some (Errno n)) \<noteq> 0 \<Longrightarrow>
     answers rq \<lparr>rp_handle = handle rq, rp_errno = errno (Some (Errno n)), rp_data = (if errno (Some (Errno n)) = 0 then [] else [])\<rparr>"
  by (simp add: answers_def)

lemma finish_errno_inv:
  assumes "serving seen rq s" "n = 22 \<or> n = 30" "finish_request io res outs rq (Some (Errno n)) [] s = (s', evs)"
  shows "nbd_inv readOnly seen s'"
proof -
  have "errno (Some (Errno n)) \<noteq> 0" using assms(2) by (auto simp: errno_def)
  from finish_request_inv [OF assms(1) errno_answers [OF this], of readOnly io res outs] show ?thesis using assms(3) by simp
qed

lemma serve_outside_inv:
  assumes inv: "nbd_inv readOnly seen s" "ns_phase s = Idle"
    and rq: "command rq \<noteq> nbdCmdDisconnect" "outside_device (ns_device s) rq"
    and st: "serve_request ops io readOnly res outs rq s = (s', evs, got)"
  shows "nbd_inv readOnly (seen @ got) s'"
proof -
  let ?skip = "if command rq = nbdCmdWrite then discard (unat (rq_length rq)) (ns_in s) else Inr (ns_in s)"
  have eq: "serve_request ops io readOnly res outs rq s = (case ?skip of Inl e \<Rightarrow> (stop (Some e) s, [], [])
      | Inr rest \<Rightarrow> (answer_request outs (handle rq) (Some EINVAL) [] (s\<lparr>ns_in := rest\<rparr>), [], [rq]))"
    unfolding serve_request_def using rq by simp
  show ?thesis
  proof (cases ?skip)
    case (Inl e)
    then show ?thesis using st eq stop_inv [OF inv] by auto
  next
    case (Inr rest)
    have S: "serving (seen @ [rq]) rq (s\<lparr>ns_in := rest\<rparr>)" using serving_new [OF inv, of rq] by simp
    have "nbd_inv readOnly (seen @ [rq]) (answer_request outs (handle rq) (Some EINVAL) [] (s\<lparr>ns_in := rest\<rparr>))"
      by (rule answer_request_inv [OF S errno_answers]) (simp add: errno_def)
    then show ?thesis using st eq Inr by auto
  qed
qed

lemma serve_write_inv:
  assumes inv: "nbd_inv readOnly seen s" "ns_phase s = Idle" "sized s"
    and rq: "command rq \<noteq> nbdCmdDisconnect" "\<not> outside_device (ns_device s) rq" "command rq = nbdCmdWrite"
    and st: "serve_request ops io readOnly res outs rq s = (s', evs, got)"
  shows "nbd_inv readOnly (seen @ got) s'"
proof -
  note S = serving_new [OF inv(1,2), of rq]
  have eq: "serve_request ops io readOnly res outs rq s = (case io_ReadFull (unat (rq_length rq)) (ns_in s) of
           Inl e \<Rightarrow> (stop (Some e) (conn_Close s), [], [])
         | Inr (data, rest) \<Rightarrow>
             if readOnly then (case finish_request io res outs rq (Some EROFS) [] (s\<lparr>ns_in := rest\<rparr>) of (s1, evs) \<Rightarrow> (s1, evs, [rq]))
             else (s\<lparr>ns_in := rest, ns_phase := Writing rq data (uint (rq_offset rq)) False\<rparr>, [], [rq]))"
    unfolding serve_request_def using rq by (simp only: refl if_True if_False)
  show ?thesis
  proof (cases "io_ReadFull (unat (rq_length rq)) (ns_in s)")
    case (Inl e)
    then show ?thesis using st eq stop_inv [OF inv(1,2)] by auto
  next
    case (Inr x)
    obtain data rest where x: "x = (data, rest)" by (cases x)
    have len: "int (length data) = uint (rq_length rq)" using Inr x by (auto simp: io_ReadFull_def split: if_splits)
    have bound: "uint (rq_offset rq) + uint (rq_length rq) \<le> d_size (ns_device s)"
      using inside_device [OF rq(2)] inv(3) by (simp add: sized_def)
    show ?thesis
    proof (cases readOnly)
      case True
      obtain s1 e1 where f: "finish_request io res outs rq (Some EROFS) [] (s\<lparr>ns_in := rest\<rparr>) = (s1, e1)" by fastforce
      have "nbd_inv readOnly (seen @ [rq]) s1" using finish_errno_inv [OF _ _ f] S by simp
      then show ?thesis using st eq Inr x True f by simp
    next
      case False
      then show ?thesis using st eq Inr x S bound len rq(3) by (auto simp: nbd_inv_def serving_def owed_def)
    qed
  qed
qed

lemma serve_flush_inv:
  assumes inv: "nbd_inv readOnly seen s" "ns_phase s = Idle"
    and rq: "command rq \<noteq> nbdCmdDisconnect" "\<not> outside_device (ns_device s) rq" "command rq = nbdCmdFlush"
    and st: "serve_request ops io readOnly res outs rq s = (s', evs, got)"
  shows "nbd_inv readOnly (seen @ got) s'"
proof -
  note S = serving_new [OF inv(1,2), of rq]
  have nr: "command rq \<noteq> nbdCmdRead" "command rq \<noteq> nbdCmdWrite" using rq(3) by (simp_all add: nbdCmdRead_def nbdCmdWrite_def nbdCmdFlush_def)
  have eq: "serve_request ops io readOnly res outs rq s =
      (if QueuedFlushEnabled (ns_device s) then (case dispatchBarrier (handle rq) None s of (s1, evs) \<Rightarrow> (s1, evs, [rq]))
       else (case flush_device io res s of (s1, evs, err) \<Rightarrow> (answer_request outs (handle rq) err [] s1, evs, [rq])))"
    unfolding serve_request_def using rq nr by (simp only: refl if_True if_False)
  show ?thesis
  proof (cases "QueuedFlushEnabled (ns_device s)")
    case True
    obtain s1 e1 where f: "dispatchBarrier (handle rq) None s = (s1, e1)" by fastforce
    then have "nbd_inv readOnly (seen @ [rq]) s1" using dispatchBarrier_inv [OF S nr(1), of readOnly None] by simp
    then show ?thesis using st eq True f by simp
  next
    case False
    obtain s1 evs' e where x: "flush_device io res s = (s1, evs', e)" by (metis prod_cases3)
    then have "serving (seen @ [rq]) rq s1" using S by (auto simp: flush_device_def split: prod.splits)
    then have "nbd_inv readOnly (seen @ [rq]) (answer_request outs (handle rq) e [] s1)" by (rule answer_empty_inv [OF _ nr(1)])
    then show ?thesis using st eq False x by auto
  qed
qed

lemma serve_read_inv:
  assumes inv: "nbd_inv readOnly seen s" "ns_phase s = Idle"
    and rq: "command rq \<noteq> nbdCmdDisconnect" "\<not> outside_device (ns_device s) rq" "command rq = nbdCmdRead"
    and st: "serve_request ops io readOnly res outs rq s = (s', evs, got)"
  shows "nbd_inv readOnly (seen @ got) s'"
proof -
  note S = serving_new [OF inv(1,2), of rq]
  have nr: "command rq \<noteq> nbdCmdWrite" "command rq \<noteq> nbdCmdFlush" using rq(3) nbd_commands_distinct by simp_all
  obtain d buf e where x: "ReadAt ops io (replicate (unat (rq_length rq)) 0) (uint (rq_offset rq)) (ns_device s) = (d, buf, e)"
    by (metis prod_cases3)
  let ?response = "buf @ replicate (unat (rq_length rq) - length buf) 0"
  obtain s1 e1 where f: "finish_request io res outs rq e ?response (s\<lparr>ns_device := d\<rparr>) = (s1, e1)" by fastforce
  have eq: "serve_request ops io readOnly res outs rq s = (s1, e1, [rq])"
    unfolding serve_request_def Let_def x using rq nr f by simp
  have "length ?response = unat (rq_length rq)" using ReadAt_length [OF x] by simp
  then have "answers rq \<lparr>rp_handle = handle rq, rp_errno = errno e, rp_data = (if errno e = 0 then ?response else [])\<rparr>"
    using rq(3) by (simp add: answers_def)
  from finish_request_inv [OF _ this, where s = "s\<lparr>ns_device := d\<rparr>" and seen = "seen @ [rq]" and io = io and res = res and outs = outs] S f
  have "nbd_inv readOnly (seen @ [rq]) s1" by simp
  then show ?thesis using st eq by simp
qed

lemma serve_other_inv:
  assumes inv: "nbd_inv readOnly seen s" "ns_phase s = Idle" "sized s"
    and rq: "command rq \<noteq> nbdCmdDisconnect" "\<not> outside_device (ns_device s) rq"
      "command rq \<noteq> nbdCmdWrite" "command rq \<noteq> nbdCmdFlush" "command rq \<noteq> nbdCmdRead"
    and st: "serve_request ops io readOnly res outs rq s = (s', evs, got)"
  shows "nbd_inv readOnly (seen @ got) s'"
proof -
  note S = serving_new [OF inv(1,2), of rq]
  have bound: "uint (rq_offset rq) + uint (rq_length rq) \<le> d_size (ns_device s)"
    using inside_device [OF rq(2)] inv(3) by (simp add: sized_def)
  let ?trim = "command rq = nbdCmdTrim \<or> command rq = nbdCmdWriteZeroes"
  show ?thesis
  proof (cases "?trim \<and> \<not> readOnly")
    case True
    then have "serve_request ops io readOnly res outs rq s = (s\<lparr>ns_phase := Trimming rq False\<rparr>, [], [rq])"
      unfolding serve_request_def using rq by simp
    then show ?thesis using st S bound True by (auto simp: nbd_inv_def serving_def owed_def)
  next
    case False
    let ?n = "if ?trim then 30 else 22 :: nat"
    obtain s1 e1 where f: "finish_request io res outs rq (Some (Errno ?n)) [] s = (s1, e1)" by fastforce
    have "serve_request ops io readOnly res outs rq s = (s1, e1, [rq])"
      unfolding serve_request_def using rq False f by (cases ?trim) simp_all
    moreover have "nbd_inv readOnly (seen @ [rq]) s1" by (rule finish_errno_inv [OF S _ f]) simp
    ultimately show ?thesis using st by simp
  qed
qed

lemma serve_request_inv:
  assumes "nbd_inv readOnly seen s" "ns_phase s = Idle" "sized s" "serve_request ops io readOnly res outs rq s = (s', evs, got)"
  shows "nbd_inv readOnly (seen @ got) s'"
proof (cases "command rq = nbdCmdDisconnect")
  case True
  then show ?thesis using assms(4) stop_inv [OF assms(1,2)] by (auto simp: serve_request_def)
next
  case False
  then show ?thesis
    using serve_outside_inv [OF assms(1,2) False _ assms(4)] serve_write_inv [OF assms(1,2,3) False _ _ assms(4)]
      serve_flush_inv [OF assms(1,2) False _ _ assms(4)] serve_read_inv [OF assms(1,2) False _ _ assms(4)]
      serve_other_inv [OF assms(1,2,3) False _ _ _ _ assms(4)] by blast
qed

section \<open>Steps\<close>

lemma sized_update [simp]: "sized (s\<lparr>ns_in := i\<rparr>) = sized s" "sized (s\<lparr>ns_phase := p\<rparr>) = sized s" "sized (s\<lparr>ns_barriers := b\<rparr>) = sized s"
    "sized (s\<lparr>ns_out := q\<rparr>) = sized s" "d_size d = d_size (ns_device s) \<Longrightarrow> sized (s\<lparr>ns_device := d\<rparr>) = sized s"
  by (simp_all add: sized_def)

lemma next_request_inv:
  assumes inv: "nbd_inv readOnly seen s" "ns_phase s = Idle" "sized s"
    and st: "next_request ops io readOnly res outs s = (s', evs, got)"
  shows "nbd_inv readOnly (seen @ got) s'"
proof -
  have inv': "nbd_inv readOnly seen (s\<lparr>ns_in := i\<rparr>)" for i using inv(1) by (simp add: nbd_inv_def owed_def)
  show ?thesis
  proof (cases "ns_closed s")
    case True
    then show ?thesis using st stop_inv [OF inv(1,2)] by (auto simp: next_request_def)
  next
    case False
    show ?thesis
    proof (cases "io_ReadFull 28 (ns_in s)")
      case (Inl e)
      then show ?thesis using st False stop_inv [OF inv(1,2)] by (auto simp: next_request_def)
    next
      case (Inr x)
      obtain header rest where x: "x = (header, rest)" by (cases x)
      show ?thesis
      proof (cases "decode_header header")
        case None
        then show ?thesis using st False Inr x stop_inv [OF inv' [of rest]] inv(2) by (auto simp: next_request_def)
      next
        case (Some rq)
        then have "serve_request ops io readOnly res outs rq (s\<lparr>ns_in := rest\<rparr>) = (s', evs, got)"
          using st False Inr x by (simp add: next_request_def)
        then show ?thesis using serve_request_inv [OF inv'] inv(2,3) by simp
      qed
    qed
  qed
qed

lemma phase_serving:
  assumes "nbd_inv readOnly seen s" "ns_phase s = Writing rq data off reported \<or> ns_phase s = Trimming rq reported"
  shows "serving seen rq s" "command rq \<noteq> nbdCmdRead"
  using assms nbd_commands_distinct by (auto simp: nbd_inv_def serving_def owed_def)

lemma write_step_inv:
  assumes inv: "nbd_inv readOnly seen s" "ns_phase s = Writing rq data off reported"
    and st: "write_step ops io res outs rq data off reported s = (s', evs)"
  shows "nbd_inv readOnly seen s'"
proof -
  note S = phase_serving [OF inv(1) disjI1 [OF inv(2)]]
  have fin: "nbd_inv readOnly seen s1" if "finish_request io res outs rq e [] (s\<lparr>ns_device := d\<rparr>) = (s1, e1)" for e d s1 e1
    using finish_request_inv [of seen rq "s\<lparr>ns_device := d\<rparr>" e "[]" readOnly io res outs] S not_read_answers [OF S(2)] that by simp
  show ?thesis
  proof (cases "data = []")
    case True
    then have "finish_request io res outs rq None [] (s\<lparr>ns_device := ns_device s\<rparr>) = (s', evs)" using st by (simp add: write_step_def)
    then show ?thesis by (rule fin)
  next
    case False
    let ?n = "min (length data) writeChunk"
    obtain d ev r where w: "WriteAt ops io reported (take ?n data) off (ns_device s) = (d, ev, r)" by (metis prod_cases3)
    note sz = WriteAt_size [OF w]
    have base: "list_all (barrier_ok seen) (ns_barriers s)" "workerErrors s = None \<longrightarrow> answered seen (owed s) (ns_out s)"
        "phase_ok readOnly (d_size (ns_device s)) seen (Writing rq data off reported)"
      using inv by (auto simp: nbd_inv_def)
    consider "r = Waiting" | n e where "r = Return (n, Some e)" | n where "r = Return (n, None)"
      by (metis outcome.exhaust option.exhaust surj_pair)
    then show ?thesis
    proof cases
      case 1
      then have "s' = s\<lparr>ns_device := d, ns_phase := Writing rq data off True\<rparr>" using st False w by (simp add: write_step_def Let_def)
      then show ?thesis using base sz inv(2) by (simp add: nbd_inv_def owed_def)
    next
      case (2 n e)
      obtain s1 e1 where f: "finish_request io res outs rq (Some e) [] (s\<lparr>ns_device := d\<rparr>) = (s1, e1)" by fastforce
      then have "s' = s1" using st False w 2 by (simp add: write_step_def Let_def)
      then show ?thesis using fin [OF f] by simp
    next
      case (3 n)
      then have "s' = s\<lparr>ns_device := d, ns_phase := Writing rq (drop ?n data) (off + int ?n) False\<rparr>"
        using st False w by (simp add: write_step_def Let_def)
      then show ?thesis using base sz inv(2) by (auto simp: nbd_inv_def owed_def)
    qed
  qed
qed

lemma trim_step_inv:
  assumes inv: "nbd_inv readOnly seen s" "ns_phase s = Trimming rq reported"
    and st: "trim_step ops io res outs rq reported s = (s', evs)"
  shows "nbd_inv readOnly seen s'"
proof -
  note S = phase_serving [OF inv(1) disjI2 [OF inv(2)]]
  obtain d ev r where w: "Trim ops io reported (uint (rq_offset rq)) (uint (rq_length rq)) (ns_device s) = (d, ev, r)" by (metis prod_cases3)
  show ?thesis
  proof (cases r)
    case Waiting
    then have "d = ns_device s" using w by (auto simp: Trim_def Let_def split: if_splits prod.splits sum.splits)
    then show ?thesis using st w Waiting inv by (auto simp: trim_step_def nbd_inv_def owed_def)
  next
    case (Return e)
    obtain s1 e1 where f: "finish_request io res outs rq e [] (s\<lparr>ns_device := d\<rparr>) = (s1, e1)" by fastforce
    have "nbd_inv readOnly seen s1"
      using finish_request_inv [of seen rq "s\<lparr>ns_device := d\<rparr>" e "[]" readOnly io res outs] S not_read_answers [OF S(2)] f by simp
    then show ?thesis using st w Return f by (simp add: trim_step_def)
  qed
qed

lemma complete_barrier_inv:
  assumes "nbd_inv readOnly seen s" "barrier_ready k s"
  shows "nbd_inv readOnly seen (complete_barrier k res s)"
proof -
  let ?b = "ns_barriers s ! k"
  have k: "k < length (ns_barriers s)" using assms(2) by (simp add: barrier_ready_def)
  have "map br_handle ((ns_barriers s)[k := ?b\<lparr>br_status := st\<rparr>]) = map br_handle (ns_barriers s)" for st
    using k by (simp add: map_update) (metis list_update_id nth_map)
  moreover have "list_all (barrier_ok seen) ((ns_barriers s)[k := ?b\<lparr>br_status := st\<rparr>])" for st
    using assms(1) k by (auto simp: nbd_inv_def list_all_length nth_list_update barrier_ok_def)
  ultimately show ?thesis
    using assms(1) by (simp add: nbd_inv_def complete_barrier_def owed_def Let_def)
qed

lemma answer_barrier_inv:
  assumes "nbd_inv readOnly seen s" "k < length (ns_barriers s)"
  shows "nbd_inv readOnly seen (answer_barrier k outs s)"
proof -
  let ?b = "ns_barriers s ! k"
  let ?rest = "take k (ns_barriers s) @ drop (Suc k) (ns_barriers s)"
  let ?s1 = "s\<lparr>ns_barriers := ?rest\<rparr>"
  have split: "ns_barriers s = take k (ns_barriers s) @ ?b # drop (Suc k) (ns_barriers s)" using assms(2) by (simp add: id_take_nth_drop)
  then have h: "mset (map br_handle (ns_barriers s)) = add_mset (br_handle ?b) (mset (map br_handle ?rest))"
    by (metis (no_types, lifting) add_mset_add_single list.simps(9) map_append mset.simps(2) mset_append union_mset_add_mset_right)
  have "barrier_ok seen ?b" using assms by (auto simp: nbd_inv_def list_all_iff)
  then obtain rq where rq: "rq \<in> set seen" "handle rq = br_handle ?b" "command rq \<noteq> nbdCmdRead" by (auto simp: barrier_ok_def)
  define err where "err = (case br_status ?b of Completed e \<Rightarrow> e | _ \<Rightarrow> None)"
  obtain s2 r where r: "sendReply outs (br_handle ?b) err [] ?s1 = (s2, r)" by fastforce
  note E = sendReply_effect [OF r]
  have "answered seen (owed s2) (ns_out s2)" if n: "workerErrors s2 = None"
  proof -
    have "answered seen (owed s) (ns_out s)" using E(4) [OF n] assms(1) by (simp add: nbd_inv_def)
    moreover have "owed s = add_mset (handle rq) (owed s2)" using h rq(2) E(1,2) by (simp add: owed_def)
    moreover have "ns_out s2 = ns_out s @ reply_bytes \<lparr>rp_handle = handle rq, rp_errno = errno err, rp_data = []\<rparr>"
      using E(4) [OF n] rq(2) by simp
    ultimately show ?thesis using answered_reply [OF _ rq(1) not_read_answers [OF rq(3)]] by simp
  qed
  moreover have "list_all (barrier_ok seen) ?rest" using assms(1) by (auto simp: nbd_inv_def list_all_iff dest: in_set_takeD in_set_dropD)
  ultimately have "nbd_inv readOnly seen s2" using assms(1) E(1-3) by (simp add: nbd_inv_def)
  then show ?thesis using r by (simp add: answer_barrier_def err_def Let_def)
qed

section \<open>The size of the device\<close>

abbreviation dsize :: "'h nbd_server \<Rightarrow> int" where
  "dsize s \<equiv> d_size (ns_device s)"

lemma sealLocked_size: "sealLocked d = (g, d') \<Longrightarrow> d_size d' = d_size d"
  by (auto simp: sealLocked_def split: if_splits)

lemma BeginDurableFlush_size: "BeginDurableFlush d = (d', evs, e) \<Longrightarrow> d_size d' = d_size d"
  by (auto simp: BeginDurableFlush_def dest: sealLocked_size split: if_splits prod.splits)

lemma Flush_size: "Flush io a b d = (d', evs, e) \<Longrightarrow> d_size d' = d_size d"
  by (auto simp: Flush_def Let_def dest!: sealLocked_size split: if_splits prod.splits)

lemma ReadAt_size: "ReadAt ops io p off d = (d', buf, e) \<Longrightarrow> d_size d' = d_size d"
  by (auto simp: ReadAt_def Let_def dest!: call_hydrate_size split: if_splits prod.splits sum.splits)

lemma capture_size: "capture_loop io d bs = (d', r) \<Longrightarrow> d_size d' = d_size d"
proof (induction bs arbitrary: d)
  case (Cons b bs)
  obtain buf x d1 where a: "active_buf d b = (buf, x, d1)" by (metis prod_cases3)
  have "d_size d1 = d_size d" using a by (auto simp: active_buf_def newBlock_def split: option.splits list.splits)
  moreover obtain buf' e where f: "file_ReadAt io (d_file d1) buf (unat b * BlockSize) = (buf', e)" by fastforce
  moreover have "d' = put_buf b buf' d1 \<or> capture_loop io (put_buf b buf' d1) bs = (d', r)"
    using Cons.prems a f by (auto split: option.splits if_splits)
  ultimately show ?case using Cons.IH [of "put_buf b buf' d1"] by (auto simp: put_buf_def)
qed simp

lemma Trim_size:
  assumes "Trim ops io reported off len d = (d', evs, r)"
  shows "d_size d' = d_size d"
proof -
  obtain a b where ab: "blockRange off len = (a, b)" by fastforce
  obtain d1 q where h: "call_hydrate (PrepareWrite ops) d off len = (d1, q)" by fastforce
  obtain img q1 where p: "punch_or_zero io (d_file d1) (nat off) (nat len) = (img, q1)" by fastforce
  obtain d2 q2 where c: "capture io a b (d1\<lparr>d_file := img\<rparr>) = (d2, q2)" by fastforce
  have "d_size d1 = d_size d" "d_size d2 = d_size d1"
    using call_hydrate_size [OF h] capture_size [OF c [unfolded capture_def]] by simp_all
  then show ?thesis
    using assms unfolding Trim_def ab
    by (auto simp: h p c Let_def call_commit_def notifyDirty_def split: if_splits prod.splits sum.splits)
qed

lemma answer_request_size: "dsize (answer_request outs hnd err data s) = dsize s"
proof -
  obtain s1 r where r: "sendReply outs hnd err data s = (s1, r)" by fastforce
  then show ?thesis using sendReply_effect(3) [OF r] by (cases r) (auto simp: answer_request_def stop_def)
qed

lemma dispatchBarrier_size: "dispatchBarrier hnd err s = (s', evs) \<Longrightarrow> dsize s' = dsize s"
  by (auto simp: dispatchBarrier_def Let_def dest: BeginDurableFlush_size split: option.splits prod.splits)

lemma flush_device_size: "flush_device io res s = (s', evs, e) \<Longrightarrow> dsize s' = dsize s"
  by (auto simp: flush_device_def dest: Flush_size split: prod.splits)

lemma finish_request_size: "finish_request io res outs rq err response s = (s', evs) \<Longrightarrow> dsize s' = dsize s"
  by (auto simp: finish_request_def answer_request_size Let_def dest!: dispatchBarrier_size flush_device_size split: if_splits prod.splits)

lemma serve_request_size: "serve_request ops io readOnly res outs rq s = (s', evs, got) \<Longrightarrow> dsize s' = dsize s"
  unfolding serve_request_def Let_def
  by (auto simp: answer_request_size stop_def conn_Close_def dest!: finish_request_size dispatchBarrier_size flush_device_size ReadAt_size
      split: if_splits prod.splits sum.splits)

lemma next_request_size: "next_request ops io readOnly res outs s = (s', evs, got) \<Longrightarrow> dsize s' = dsize s"
  by (auto simp: next_request_def stop_def conn_Close_def dest!: serve_request_size split: if_splits sum.splits prod.splits option.splits)

lemma write_step_size: "write_step ops io res outs rq data off reported s = (s', evs) \<Longrightarrow> dsize s' = dsize s"
  by (auto simp: write_step_def Let_def dest!: finish_request_size WriteAt_size split: if_splits prod.splits outcome.splits option.splits)

lemma trim_step_size: "trim_step ops io res outs rq reported s = (s', evs) \<Longrightarrow> dsize s' = dsize s"
  by (auto simp: trim_step_def dest!: finish_request_size Trim_size split: prod.splits outcome.splits)

lemma sendReply_size: "dsize (fst (sendReply outs hnd err data s)) = dsize s"
  using sendReply_effect(3) [OF surjective_pairing] by (metis)

lemma answer_barrier_size: "dsize (answer_barrier k outs s) = dsize s"
  by (simp add: answer_barrier_def Let_def sendReply_size)

section \<open>Properties\<close>

definition fresh_server :: "'h nbd_server \<Rightarrow> bool" where
  "fresh_server s \<longleftrightarrow> ns_out s = [] \<and> ns_phase s = Idle \<and> ns_barriers s = [] \<and> sized s"

lemma nbd_run_inv:
  assumes "nbd_run ops readOnly s0 s seen" "fresh_server s0"
  shows "nbd_inv readOnly seen s \<and> sized s"
  using assms(1)
proof induction
  case start
  have "answered [] {#} []" by (auto simp: answered_def)
  then show ?case using assms(2) by (simp add: nbd_inv_def fresh_server_def owed_def)
next
  case (request s seen io res outs s' evs got)
  then show ?case using next_request_inv [of readOnly seen s] next_request_size by (fastforce simp: sized_def)
next
  case (chunk s seen rq data off reported io res outs s' evs)
  then show ?case using write_step_inv [of readOnly seen s] write_step_size by (fastforce simp: sized_def)
next
  case (trim s seen rq reported io res outs s' evs)
  then show ?case using trim_step_inv [of readOnly seen s] trim_step_size by (fastforce simp: sized_def)
next
  case (complete s seen k res)
  then show ?case using complete_barrier_inv [of readOnly seen s] by (simp add: sized_def complete_barrier_def Let_def)
next
  case (barrier s seen k outs)
  then show ?case using answer_barrier_inv [of readOnly seen s] answer_barrier_size [of k outs s] by (simp add: sized_def)
next
  case (others s seen d)
  then show ?case by (simp add: nbd_inv_def owed_def)
qed

text \<open>
  C22. The block device server answers every request exactly once, and only requests. Over every
  interleaving of its loop, its flush barriers and the other users of the device, and whatever the device
  reports, the bytes sent are well-formed replies, each to a request received, with data exactly for reads
  without an error and then of the length asked for; a request not answered yet is being served or
  waits as a barrier, and when the server returns none is left. The device is written only within its size
  and never by a read-only attachment.
\<close>

theorem nbd_answers_each_request_once:
  assumes "nbd_run ops readOnly s0 s seen" "fresh_server s0"
  shows "(workerErrors s = None \<longrightarrow> (\<exists>replies. ns_out s = concat (map reply_bytes replies) \<and>
      (\<forall>rp\<in>set replies. \<exists>rq\<in>set seen. answers rq rp) \<and>
      mset (map handle seen) = mset (map rp_handle replies) + mset (map br_handle (ns_barriers s)) + phase_handles (ns_phase s) \<and>
      (waitForWorkers s \<noteq> None \<longrightarrow> mset (map handle seen) = mset (map rp_handle replies)))) \<and>
    (case ns_phase s of
      Writing rq data off reported \<Rightarrow> \<not> readOnly \<and> 0 \<le> off \<and> off + int (length data) \<le> d_size (ns_device s)
    | Trimming rq reported \<Rightarrow> \<not> readOnly \<and> uint (rq_offset rq) + uint (rq_length rq) \<le> d_size (ns_device s)
    | _ \<Rightarrow> True)"
proof
  note I = nbd_run_inv [OF assms]
  show "workerErrors s = None \<longrightarrow> (\<exists>replies. ns_out s = concat (map reply_bytes replies) \<and>
      (\<forall>rp\<in>set replies. \<exists>rq\<in>set seen. answers rq rp) \<and>
      mset (map handle seen) = mset (map rp_handle replies) + mset (map br_handle (ns_barriers s)) + phase_handles (ns_phase s) \<and>
      (waitForWorkers s \<noteq> None \<longrightarrow> mset (map handle seen) = mset (map rp_handle replies)))"
    using I by (fastforce simp: nbd_inv_def answered_def owed_def waitForWorkers_def split: nbd_phase.splits if_splits)
  show "case ns_phase s of
      Writing rq data off reported \<Rightarrow> \<not> readOnly \<and> 0 \<le> off \<and> off + int (length data) \<le> d_size (ns_device s)
    | Trimming rq reported \<Rightarrow> \<not> readOnly \<and> uint (rq_offset rq) + uint (rq_length rq) \<le> d_size (ns_device s)
    | _ \<Rightarrow> True"
    using I by (auto simp: nbd_inv_def split: nbd_phase.splits)
qed

text \<open>A server that receives one flush and then the end of the connection.\<close>

definition tiny_device :: "unit Device" where
  "tiny_device = (case OpenDevice (Inr empty_image) 4096 0 of Inr d \<Rightarrow> d)"

definition tiny_flush :: nbd_request where
  "tiny_flush = \<lparr>typeAndFlags = 3, handle = [1, 2, 3, 4, 5, 6, 7, 8], rq_offset = 0, rq_length = 0\<rparr>"

definition tiny_server :: "unit nbd_server" where
  "tiny_server = \<lparr>ns_in = (PutUint32 nbdRequestMagic @ PutUint32 3 @ [1, 2, 3, 4, 5, 6, 7, 8] @ PutUint64 0 @ PutUint32 0, True),
     ns_out = [], ns_closed = False, ns_device = tiny_device, ns_phase = Idle, ns_barriers = [], workerErrors = None\<rparr>"

definition tiny_hydrator :: "unit hydrator_ops" where
  "tiny_hydrator = \<lparr>Hydrate = (\<lambda>h img off n. (img, h, Inr ())), PrepareWrite = (\<lambda>h img off n. (img, h, Inr ())),
     CommitWrite = (\<lambda>h off n. h), hydrator_Close = (\<lambda>h. (h, Inr ()))\<rparr>"

definition tiny_turn :: "unit nbd_server \<times> device_event list \<times> nbd_request list" where
  "tiny_turn = next_request tiny_hydrator ideal_io False None [] tiny_server"

lemma tiny_served:
  "(ns_out (fst tiny_turn), ns_phase (fst tiny_turn), ns_barriers (fst tiny_turn), workerErrors (fst tiny_turn), snd (snd tiny_turn)) =
   (reply_head [1, 2, 3, 4, 5, 6, 7, 8] 0, Idle, [], None, [tiny_flush])"
  by code_simp

lemma tiny_run: "nbd_run tiny_hydrator False tiny_server (fst tiny_turn) [tiny_flush]"
proof -
  have "next_request tiny_hydrator ideal_io False None [] tiny_server = (fst tiny_turn, fst (snd tiny_turn), [tiny_flush])"
    using tiny_served by (simp add: prod_eq_iff flip: tiny_turn_def)
  from nbd_run.request [OF nbd_run.start _ this] show ?thesis by (simp add: tiny_server_def)
qed

theorem nbd_answers_each_request_once_witness:
  "\<exists>replies. reply_head [1, 2, 3, 4, 5, 6, 7, 8] 0 = concat (map reply_bytes replies) \<and>
     mset (map handle [tiny_flush]) = mset (map rp_handle replies)"
proof -
  have "fresh_server tiny_server" by (simp add: fresh_server_def sized_def tiny_server_def tiny_device_def OpenDevice_def DefaultBlockSize_def)
  note once = nbd_answers_each_request_once [OF tiny_run this]
  have t: "workerErrors (fst tiny_turn) = None" "ns_out (fst tiny_turn) = reply_head [1, 2, 3, 4, 5, 6, 7, 8] 0"
      "ns_phase (fst tiny_turn) = Idle" "ns_barriers (fst tiny_turn) = []"
    using tiny_served by auto
  obtain replies where "ns_out (fst tiny_turn) = concat (map reply_bytes replies)"
      "mset (map handle [tiny_flush]) = mset (map rp_handle replies) + mset (map br_handle (ns_barriers (fst tiny_turn))) + phase_handles (ns_phase (fst tiny_turn))"
    using once t(1) by blast
  then show ?thesis unfolding t by (intro exI [of _ replies]) simp
qed

end
