(* ===== verification/Verify.thy ===== *)
theory Verify
  imports GarbageClaims
begin

text \<open>
  Checking the metadata of a volume (\<open>internal/replica/verify.go\<close>): a walk over everything its state
  refers to that only reads, through \<open>get\<close>. \<open>ctxErr\<close> tells whether the context has ended, by the number
  of references and bundles visited.
\<close>

section \<open>The walk\<close>

record VerifyReport =
  vr_Manifests :: nat
  vr_Bundles :: nat
  RefsChecked :: nat
  ExternalObjects :: nat
  BytesFetched :: int
  TruncatedBelowCheckpoint :: bool
  OldestGeneration :: u64
  Problems :: "string list"

definition empty_report :: VerifyReport where
  "empty_report = \<lparr>vr_Manifests = 0, vr_Bundles = 0, RefsChecked = 0, ExternalObjects = 0, BytesFetched = 0,
     TruncatedBelowCheckpoint = False, OldestGeneration = 0, Problems = []\<rparr>"

record fetchedObject =
  fo_digest :: string
  fo_size :: int
  fo_err :: "string option"

definition fetchExternal :: "wire \<Rightarrow> getter \<Rightarrow> bool \<Rightarrow> VerifyReport \<Rightarrow> string \<Rightarrow> VerifyReport \<times> fetchedObject" where
  "fetchExternal w get deep report key =
     (case get key of
        Inl e \<Rightarrow> (report, \<lparr>fo_digest = [], fo_size = 0, fo_err = Some (''segment object '' @ key)\<rparr>)
      | Inr obj \<Rightarrow>
          (report\<lparr>BytesFetched := BytesFetched report + int (length (obj_Data obj)), ExternalObjects := ExternalObjects report + 1\<rparr>,
           \<lparr>fo_digest = (if deep then hex_EncodeToString (sha256 w (obj_Data obj)) else []), fo_size = int (length (obj_Data obj)), fo_err = None\<rparr>))"

type_synonym fetched_map = "(string, fetchedObject) fmap"

text \<open>The problem with a reference, if there is one.\<close>

definition verifyRef ::
  "wire \<Rightarrow> getter \<Rightarrow> bool \<Rightarrow> manifestSourceLoader \<Rightarrow> fetched_map \<Rightarrow> VerifyReport \<Rightarrow> ObjectRef \<Rightarrow>
     manifestSourceLoader \<times> fetched_map \<times> VerifyReport \<times> string option" where
  "verifyRef w get deep l fetched report ref =
     (if ref_Key ref \<noteq> [] then
        let (fetched', report', found) =
              (case fmlookup fetched (ref_Key ref) of
                 Some found \<Rightarrow> (fetched, report, found)
               | None \<Rightarrow> (case fetchExternal w get deep report (ref_Key ref) of (report', found) \<Rightarrow> (fmupd (ref_Key ref) found fetched, report', found)))
        in (l, fetched', report',
            case fo_err found of
              Some msg \<Rightarrow> Some msg
            | None \<Rightarrow> if deep \<and> (fo_size found \<noteq> ref_Bytes ref \<or> fo_digest found \<noteq> ref_SHA256 ref)
                      then Some (''segment object content does not match its reference '' @ ref_Key ref) else None)
      else if SourceManifest ref \<noteq> [] then
        (case inlineSegment w get l ref of
           (l', Inl e) \<Rightarrow> (l', fetched, report, Some ''inline segment cannot be read'')
         | (l', Inr _) \<Rightarrow> (l', fetched, report, None))
      else (l, fetched, report, None))"

text \<open>The loop over the references of a manifest; the flag is whether the context ended.\<close>

fun verify_refs ::
  "wire \<Rightarrow> getter \<Rightarrow> bool \<Rightarrow> (nat \<Rightarrow> bool) \<Rightarrow> string \<Rightarrow> manifestSourceLoader \<Rightarrow> fetched_map \<Rightarrow> VerifyReport \<Rightarrow> ObjectRef list \<Rightarrow>
     manifestSourceLoader \<times> fetched_map \<times> VerifyReport \<times> bool" where
  "verify_refs w get deep ctxErr key l fetched report [] = (l, fetched, report, False)"
| "verify_refs w get deep ctxErr key l fetched report (ref # refs) =
     (case verifyRef w get deep l fetched (report\<lparr>RefsChecked := RefsChecked report + 1\<rparr>) ref of
        (l', fetched', report', problem) \<Rightarrow>
          let report'' = (case problem of None \<Rightarrow> report' | Some p \<Rightarrow> report'\<lparr>Problems := Problems report' @ [''manifest '' @ key @ '': '' @ p]\<rparr>)
          in if ctxErr (RefsChecked report'') then (l', fetched', report'', True)
             else verify_refs w get deep ctxErr key l' fetched' report'' refs)"

fun verify_entries ::
  "wire \<Rightarrow> getter \<Rightarrow> bool \<Rightarrow> (nat \<Rightarrow> bool) \<Rightarrow> manifestSourceLoader \<Rightarrow> fetched_map \<Rightarrow> VerifyReport \<Rightarrow> manifestEntry list \<Rightarrow> VerifyReport \<times> bool" where
  "verify_entries w get deep ctxErr l fetched report [] = (report, False)"
| "verify_entries w get deep ctxErr l fetched report (entry # entries) =
     (case verify_refs w get deep ctxErr (e_key entry) l fetched report (Segments (e_manifest entry)) of
        (l', fetched', report', ended) \<Rightarrow>
          if ended then (report', True) else verify_entries w get deep ctxErr l' fetched' report' entries)"

section \<open>The bundles\<close>

lemma check_bundle_entries_range:
  "check_bundle_entries w state b i first prev es = Inr (f, p) \<Longrightarrow> es \<noteq> [] \<Longrightarrow>
     b_FirstGeneration b \<le> p \<and> p \<le> b_LastGeneration b"
proof (induction es arbitrary: i first prev)
  case (Cons e es)
  then obtain m where m: "decodeManifest w state (bm_Key e) (bm_Body e) 0 = Inr m"
      "b_FirstGeneration b \<le> m_Generation m" "m_Generation m \<le> b_LastGeneration b"
      "check_bundle_entries w state b (Suc i) (if i = 0 then m_Generation m else first) (m_Generation m) es = Inr (f, p)"
    by (auto split: sum.splits if_splits)
  show ?case
  proof (cases es)
    case Nil
    then show ?thesis using m by simp
  next
    case (Cons x xs)
    then show ?thesis using Cons.IH [OF m(4)] by simp
  qed
qed simp

text \<open>A bundle starts where or before it ends, and its parent ends before it starts.\<close>

lemma readManifestBundle_parent:
  assumes "readManifestBundle w get state ref = Inr b" "b_Parent b = Some p"
  shows "LastGeneration p < LastGeneration ref"
proof -
  obtain obj where o: "get (mb_Key ref) = Inr obj" "mb_Key ref = bundleKey w (s_Name state) (obj_Data obj)"
      "unmarshalBundle w (obj_Data obj) = Inr b" "b_FirstGeneration b = FirstGeneration ref" "b_LastGeneration b = LastGeneration ref"
    using readManifestBundle_Inr [OF assms(1)] .
  note a = assms(1) [unfolded readManifestBundle_def o(1) sum.case if_error_Inr o(3)]
  have parent: "LastGeneration p < b_FirstGeneration b" using a assms(2) by auto
  have ne: "Manifests b \<noteq> []" using a by auto
  obtain f q where c: "check_bundle_entries w state b 0 0 0 (Manifests b) = Inr (f, q)" "q = b_LastGeneration b"
    using a by (cases "check_bundle_entries w state b 0 0 0 (Manifests b)") (auto split: if_splits)
  show ?thesis using parent check_bundle_entries_range [OF c(1) ne] c(2) o(5) by simp
qed

function verify_bundles :: "wire \<Rightarrow> getter \<Rightarrow> State \<Rightarrow> (nat \<Rightarrow> bool) \<Rightarrow> ManifestBundleRef option \<Rightarrow> VerifyReport \<Rightarrow> VerifyReport \<times> bool" where
  "verify_bundles w get state ctxErr bundleRef report =
     (case bundleRef of
        None \<Rightarrow> (report, False)
      | Some ref \<Rightarrow>
          (case readManifestBundle w get state ref of
             Inl e \<Rightarrow> (report\<lparr>Problems := Problems report @ [''manifest bundle '' @ mb_Key ref]\<rparr>, False)
           | Inr bundle \<Rightarrow>
               let report' = report\<lparr>vr_Bundles := vr_Bundles report + 1\<rparr> in
               if ctxErr (RefsChecked report' + vr_Bundles report') then (report', True)
               else verify_bundles w get state ctxErr (b_Parent bundle) report'))"
  by pat_completeness auto
termination verify_bundles
  by (relation "measure (\<lambda>(w, get, state, ctxErr, bundleRef, report). case bundleRef of None \<Rightarrow> 0 | Some ref \<Rightarrow> Suc (unat (LastGeneration ref)))")
    (auto dest: readManifestBundle_parent simp: word_less_nat_alt split: option.splits)

declare verify_bundles.simps [simp del]

definition history_report :: "manifestEntry list result \<Rightarrow> VerifyReport" where
  "history_report loaded =
     (case loaded of
        Inl _ \<Rightarrow> empty_report\<lparr>Problems := [''manifest history walk failed'']\<rparr>
      | Inr [] \<Rightarrow> empty_report
      | Inr history \<Rightarrow>
          (let oldest = e_manifest (last history) in
           empty_report\<lparr>vr_Manifests := length history, OldestGeneration := m_Generation oldest,
             TruncatedBelowCheckpoint := m_Generation oldest \<noteq> 1 \<and> \<not> (Kind oldest = ''checkpoint'' \<and> Parent oldest = [])\<rparr>))"

definition VerifyMetadataWithOptions :: "wire \<Rightarrow> getter \<Rightarrow> bool \<Rightarrow> (nat \<Rightarrow> bool) \<Rightarrow> State \<Rightarrow> VerifyReport \<times> unit result" where
  "VerifyMetadataWithOptions w get deep ctxErr state =
     (let loaded = loadHistory w get state;
          history = (case loaded of Inl _ \<Rightarrow> [] | Inr h \<Rightarrow> h)
      in case verify_entries w get deep ctxErr (newManifestSourceLoader state) fmempty (history_report loaded) history of
           (report', True) \<Rightarrow> (report', Inl ContextError)
         | (report', False) \<Rightarrow>
             (case verify_bundles w get state ctxErr (ManifestBundle state) report' of
                (report'', True) \<Rightarrow> (report'', Inl ContextError)
              | (report'', False) \<Rightarrow>
                  (report'', if ctxErr (Suc (RefsChecked report'' + vr_Bundles report'')) then Inl ContextError else Inr ())))"

definition VerifyMetadata :: "wire \<Rightarrow> getter \<Rightarrow> (nat \<Rightarrow> bool) \<Rightarrow> State \<Rightarrow> VerifyReport \<times> unit result" where
  "VerifyMetadata w get ctxErr state = VerifyMetadataWithOptions w get False ctxErr state"

section \<open>What a clean report means\<close>

definition readable :: "wire \<Rightarrow> getter \<Rightarrow> State \<Rightarrow> ObjectRef \<Rightarrow> bool" where
  "readable w get state ref \<longleftrightarrow> (\<exists>data. snd (ref_data w get (newManifestSourceLoader state) ref) = Inr data \<and>
     hex_EncodeToString (sha256 w data) = ref_SHA256 ref \<and> int (length data) = ref_Bytes ref)"

definition fetched_ok :: "wire \<Rightarrow> getter \<Rightarrow> fetched_map \<Rightarrow> bool" where
  "fetched_ok w get fetched \<longleftrightarrow> (\<forall>key found. fmlookup fetched key = Some found \<longrightarrow> fo_err found = None \<longrightarrow>
     (\<exists>obj. get key = Inr obj \<and> fo_size found = int (length (obj_Data obj)) \<and> fo_digest found = hex_EncodeToString (sha256 w (obj_Data obj))))"

lemma fetchExternal_ok:
  assumes "fetched_ok w get fetched" "fetchExternal w get True report key = (report', found)"
  shows "fetched_ok w get (fmupd key found fetched)" "Problems report' = Problems report"
  using assms by (auto simp: fetchExternal_def fetched_ok_def split: sum.splits)

lemma inlineSegment_Inr:
  "inlineSegment w get l ref = (l', Inr data) \<Longrightarrow>
     hex_EncodeToString (sha256 w data) = ref_SHA256 ref \<and> int (length data) = ref_Bytes ref"
  by (auto simp: inlineSegment_def Let_def split: prod.splits sum.splits if_splits)

lemma verifyRef_sound:
  assumes l: "loader_ok w get state l" and f: "fetched_ok w get fetched" and c: "checkStorage w state ref = Inr ()"
    and v: "verifyRef w get True l fetched report ref = (l', fetched', report', problem)"
  shows "loader_ok w get state l'" "fetched_ok w get fetched'" "Problems report' = Problems report" "problem = None \<Longrightarrow> readable w get state ref"
proof -
  have one: "ref_Key ref \<noteq> [] \<Longrightarrow> InlineData ref = [] \<and> SourceManifest ref = []" "SourceManifest ref \<noteq> [] \<Longrightarrow> InlineData ref = []"
    "ref_Key ref = [] \<Longrightarrow> SourceManifest ref = [] \<Longrightarrow> InlineData ref \<noteq> [] \<and> int (length (InlineData ref)) = ref_Bytes ref \<and>
       hex_EncodeToString (sha256 w (InlineData ref)) = ref_SHA256 ref"
    using c by (auto simp: checkStorage_def Let_def split: if_splits)
  consider (key) "ref_Key ref \<noteq> []" | (source) "ref_Key ref = []" "SourceManifest ref \<noteq> []" | (inl) "ref_Key ref = []" "SourceManifest ref = []" by blast
  then have "loader_ok w get state l' \<and> fetched_ok w get fetched' \<and> Problems report' = Problems report \<and> (problem = None \<longrightarrow> readable w get state ref)"
  proof cases
    case key
    obtain f1 r1 found where x: "(case fmlookup fetched (ref_Key ref) of
                 Some found \<Rightarrow> (fetched, report, found)
               | None \<Rightarrow> (case fetchExternal w get True report (ref_Key ref) of (report', found) \<Rightarrow> (fmupd (ref_Key ref) found fetched, report', found)))
        = (f1, r1, found)" by (rule prod_cases3)
    have ok: "fetched_ok w get f1" "Problems r1 = Problems report" "fmlookup f1 (ref_Key ref) = Some found"
      using x f fetchExternal_ok [OF f] by (auto split: option.splits prod.splits)
    have v': "l' = l" "fetched' = f1" "report' = r1" "problem = (case fo_err found of Some msg \<Rightarrow> Some msg
            | None \<Rightarrow> if fo_size found \<noteq> ref_Bytes ref \<or> fo_digest found \<noteq> ref_SHA256 ref
                      then Some (''segment object content does not match its reference '' @ ref_Key ref) else None)"
      using v key unfolding verifyRef_def x by auto
    have "readable w get state ref" if p: "problem = None"
    proof -
      have "fo_err found = None" "fo_size found = ref_Bytes ref" "fo_digest found = ref_SHA256 ref"
        using p v'(4) by (auto split: option.splits if_splits)
      then show ?thesis using ok(1,3) one(1) [OF key] by (fastforce simp: readable_def ref_data_def fetched_ok_def)
    qed
    then show ?thesis using ok v' l by simp
  next
    case source
    obtain l1 r where s: "inlineSegment w get l ref = (l1, r)" by fastforce
    note same = inlineSegment_ok [OF l loader_ok_new refl, of ref]
    have "readable w get state ref" if "r = Inr data" for data
      using same s that inlineSegment_Inr [of w get l ref l1 data] source one(2) by (auto simp: readable_def ref_data_def)
    then show ?thesis using v source s same f by (cases r) (auto simp: verifyRef_def)
  next
    case inl
    then show ?thesis using v l f one(3) by (auto simp: verifyRef_def readable_def ref_data_def)
  qed
  then show "loader_ok w get state l'" "fetched_ok w get fetched'" "Problems report' = Problems report" "problem = None \<Longrightarrow> readable w get state ref"
    by auto
qed

lemma verify_refs_sound:
  "loader_ok w get state l \<Longrightarrow> fetched_ok w get fetched \<Longrightarrow> \<forall>ref\<in>set refs. checkStorage w state ref = Inr () \<Longrightarrow>
   verify_refs w get True ctxErr key l fetched report refs = (l', fetched', report', ended) \<Longrightarrow>
     loader_ok w get state l' \<and> fetched_ok w get fetched' \<and> (\<exists>ps. Problems report' = Problems report @ ps \<and>
       (ps = [] \<and> \<not> ended \<longrightarrow> (\<forall>ref\<in>set refs. readable w get state ref)))"
proof (induction refs arbitrary: l fetched report)
  case (Cons ref refs)
  obtain l1 f1 r1 p where v: "verifyRef w get True l fetched (report\<lparr>RefsChecked := RefsChecked report + 1\<rparr>) ref = (l1, f1, r1, p)"
    by (metis prod_cases4)
  have "checkStorage w state ref = Inr ()" using Cons.prems(3) by simp
  note V = verifyRef_sound [OF Cons.prems(1,2) this v]
  define r2 where "r2 = (case p of None \<Rightarrow> r1 | Some q \<Rightarrow> r1\<lparr>Problems := Problems r1 @ [''manifest '' @ key @ '': '' @ q]\<rparr>)"
  have r2: "\<exists>ps. Problems r2 = Problems report @ ps \<and> (ps = [] \<longrightarrow> p = None)" using V(3) by (auto simp: r2_def split: option.splits)
  show ?case
  proof (cases "ctxErr (RefsChecked r2)")
    case True
    then have "l' = l1" "fetched' = f1" "report' = r2" "ended" using Cons.prems(4) v by (auto simp: Let_def r2_def [symmetric])
    then show ?thesis using V(1,2) r2 by auto
  next
    case False
    then have "verify_refs w get True ctxErr key l1 f1 r2 refs = (l', fetched', report', ended)"
      using Cons.prems(4) v by (simp add: Let_def r2_def [symmetric])
    from Cons.IH [OF V(1,2) _ this] Cons.prems(3) r2 V(4) show ?thesis by fastforce
  qed
qed simp

lemma verify_entries_sound:
  "loader_ok w get state l \<Longrightarrow> fetched_ok w get fetched \<Longrightarrow> \<forall>e\<in>set es. \<forall>ref\<in>set (Segments (e_manifest e)). checkStorage w state ref = Inr () \<Longrightarrow>
   verify_entries w get True ctxErr l fetched report es = (report', ended) \<Longrightarrow>
     \<exists>ps. Problems report' = Problems report @ ps \<and>
       (ps = [] \<and> \<not> ended \<longrightarrow> (\<forall>e\<in>set es. \<forall>ref\<in>set (Segments (e_manifest e)). readable w get state ref))"
proof (induction es arbitrary: l fetched report)
  case (Cons e es)
  obtain l1 f1 r1 x where v: "verify_refs w get True ctxErr (e_key e) l fetched report (Segments (e_manifest e)) = (l1, f1, r1, x)"
    by (metis prod_cases4)
  have "\<forall>ref\<in>set (Segments (e_manifest e)). checkStorage w state ref = Inr ()" using Cons.prems(3) by simp
  note V = verify_refs_sound [OF Cons.prems(1,2) this v]
  show ?case
  proof (cases x)
    case True
    then show ?thesis using V Cons.prems(4) v by auto
  next
    case False
    then have "verify_entries w get True ctxErr l1 f1 r1 es = (report', ended)" using Cons.prems(4) v by simp
    from Cons.IH [OF _ _ _ this] Cons.prems(3) V False show ?thesis by fastforce
  qed
qed simp

lemma verify_bundles_problems:
  "verify_bundles w get state ctxErr ref report = (report', ended) \<Longrightarrow> \<exists>ps. Problems report' = Problems report @ ps"
proof (induction w get state ctxErr ref report rule: verify_bundles.induct)
  case (1 w get state ctxErr ref report)
  show ?case
  proof (cases ref)
    case None
    then show ?thesis using "1.prems" by (simp add: verify_bundles.simps)
  next
    case (Some r)
    show ?thesis
    proof (cases "readManifestBundle w get state r")
      case (Inl e)
      then show ?thesis using "1.prems" Some by (auto simp: verify_bundles.simps)
    next
      case (Inr b)
      let ?r = "report\<lparr>vr_Bundles := vr_Bundles report + 1\<rparr>"
      show ?thesis
      proof (cases "ctxErr (RefsChecked ?r + vr_Bundles ?r)")
        case True
        then show ?thesis using "1.prems" Some Inr by (auto simp: verify_bundles.simps [of w get state ctxErr "Some r"] Let_def)
      next
        case False
        then have "verify_bundles w get state ctxErr (b_Parent b) ?r = (report', ended)"
          using "1.prems" Some Inr by (simp add: verify_bundles.simps [of w get state ctxErr "Some r"] Let_def)
        then show ?thesis using "1.IH" [OF Some Inr refl] False by simp
      qed
    qed
  qed
qed

text \<open>Nothing was found from this bundle on.\<close>

definition clean_from :: "wire \<Rightarrow> getter \<Rightarrow> State \<Rightarrow> (nat \<Rightarrow> bool) \<Rightarrow> ManifestBundleRef \<Rightarrow> bool" where
  "clean_from w get state ctxErr ref \<longleftrightarrow> (\<exists>report report'. verify_bundles w get state ctxErr (Some ref) report = (report', False) \<and> Problems report' = [])"

lemma clean_from_step:
  assumes "clean_from w get state ctxErr ref"
  obtains b where "readManifestBundle w get state ref = Inr b" "\<And>p. b_Parent b = Some p \<Longrightarrow> clean_from w get state ctxErr p"
proof -
  obtain report report' where v: "verify_bundles w get state ctxErr (Some ref) report = (report', False)" "Problems report' = []"
    using assms by (auto simp: clean_from_def)
  show thesis
  proof (cases "readManifestBundle w get state ref")
    case (Inl e)
    then show thesis using v by (auto simp: verify_bundles.simps)
  next
    case (Inr b)
    then have "verify_bundles w get state ctxErr (b_Parent b) (report\<lparr>vr_Bundles := vr_Bundles report + 1\<rparr>) = (report', False)"
      using v(1) by (auto simp: verify_bundles.simps [of w get state ctxErr "Some ref"] Let_def split: if_splits)
    then have "\<And>p. b_Parent b = Some p \<Longrightarrow> clean_from w get state ctxErr p" using v(2) unfolding clean_from_def by metis
    then show thesis using that Inr by blast
  qed
qed

lemma clean_chain:
  assumes "\<And>r. ManifestBundle state = Some r \<Longrightarrow> clean_from w get state ctxErr r"
  shows "on_chain w get state ref \<Longrightarrow> clean_from w get state ctxErr ref"
proof (induction rule: on_chain.induct)
  case (parent ref obj b p)
  obtain b' where b': "readManifestBundle w get state ref = Inr b'" "\<And>p. b_Parent b' = Some p \<Longrightarrow> clean_from w get state ctxErr p"
    using clean_from_step [OF parent.IH] by blast
  have "b' = b" using readManifestBundle_Inr [OF b'(1)] parent.hyps by (metis sum.inject(2))
  then show ?case using b'(2) parent.hyps by blast
qed (use assms in blast)

lemma loadHistory_storage:
  assumes "loadHistory w get state = Inr history" "e \<in> set history" "ref \<in> set (Segments (e_manifest e))"
  shows "checkStorage w state ref = Inr ()"
proof (cases "s_Generation state = 0")
  case False
  then have "history_loop 1000001 w get state (s_Manifest state) (s_Generation state) False fmempty = Inr history"
    using assms(1) by (simp only: loadHistory_def if_False)
  from history_loop_immutable [OF this] show ?thesis using assms(2,3) by (simp add: entry_immutable_def)
qed (use assms in \<open>simp add: loadHistory_def\<close>)

section \<open>Properties\<close>

text \<open>
  C34. A deep check that reports no problem vouches for the data: the history of the volume can be read,
  every bundle of its chain is intact, and the bytes of every segment the history refers to are there with
  the digest and the length of the reference, where a restore looks for them.
\<close>

theorem VerifyMetadata_vouches:
  assumes "VerifyMetadataWithOptions w get True ctxErr state = (report, Inr ())" "Problems report = []"
  shows "\<exists>history. loadHistory w get state = Inr history \<and>
    (\<forall>e\<in>set history. \<forall>ref\<in>set (Segments (e_manifest e)). \<exists>data. snd (ref_data w get (newManifestSourceLoader state) ref) = Inr data \<and>
       hex_EncodeToString (sha256 w data) = ref_SHA256 ref \<and> int (length data) = ref_Bytes ref) \<and>
    (\<forall>ref. on_chain w get state ref \<longrightarrow> (\<exists>b. readManifestBundle w get state ref = Inr b))"
proof -
  let ?hs = "case loadHistory w get state of Inl _ \<Rightarrow> [] | Inr h \<Rightarrow> h"
  let ?r2 = "history_report (loadHistory w get state)"
  obtain r3 x where e: "verify_entries w get True ctxErr (newManifestSourceLoader state) fmempty ?r2 ?hs = (r3, x)" by fastforce
  obtain r4 y where b: "verify_bundles w get state ctxErr (ManifestBundle state) r3 = (r4, y)" by fastforce
  have xy: "\<not> x" "\<not> y" "r4 = report"
    using assms(1) e b by (auto simp: VerifyMetadataWithOptions_def split: bool.splits if_splits)
  obtain ps where ps: "Problems report = Problems r3 @ ps" using verify_bundles_problems [OF b] xy by blast
  have storage: "\<forall>e\<in>set ?hs. \<forall>ref\<in>set (Segments (e_manifest e)). checkStorage w state ref = Inr ()"
    using loadHistory_storage by (cases "loadHistory w get state") auto
  have "fetched_ok w get fmempty" by (simp add: fetched_ok_def)
  from verify_entries_sound [OF loader_ok_new this storage e] obtain qs where
    q: "Problems r3 = Problems ?r2 @ qs" "qs = [] \<longrightarrow> (\<forall>e\<in>set ?hs. \<forall>ref\<in>set (Segments (e_manifest e)). readable w get state ref)"
    using xy(1) by auto
  have none: "Problems r3 = []" "qs = []" "Problems ?r2 = []" using ps q(1) assms(2) by auto
  then obtain hs where hs: "loadHistory w get state = Inr hs" by (cases "loadHistory w get state") (auto simp: history_report_def)
  have "clean_from w get state ctxErr r" if "ManifestBundle state = Some r" for r
    using b that xy assms(2) by (auto simp: clean_from_def)
  then have "\<exists>b. readManifestBundle w get state ref = Inr b" if "on_chain w get state ref" for ref
    using clean_from_step [OF clean_chain [OF _ that]] by metis
  then show ?thesis using hs q(2) none by (auto simp: readable_def)
qed

text \<open>The sample volume passes the check.\<close>

lemma kept_verified:
  "VerifyMetadataWithOptions kept_wire (reader logged_cur kept_store) True (\<lambda>_. False) sample_state =
     (empty_report\<lparr>vr_Manifests := 1, OldestGeneration := 1\<rparr>, Inr ())"
proof -
  have "Segments (e_manifest kept_entry) = []" "m_Generation (e_manifest kept_entry) = 1"
    by (simp_all add: kept_entry_def blank_manifest_def sample_manifest_def)
  moreover have "ManifestBundle sample_state = None" by (simp add: sample_state_def)
  ultimately show ?thesis
    by (simp add: VerifyMetadataWithOptions_def history_report_def kept_history verify_bundles.simps empty_report_def)
qed

theorem VerifyMetadata_vouches_witness:
  "VerifyMetadataWithOptions kept_wire (reader logged_cur kept_store) True (\<lambda>_. False) sample_state =
     (empty_report\<lparr>vr_Manifests := 1, OldestGeneration := 1\<rparr>, Inr ()) \<and>
   (\<exists>history. loadHistory kept_wire (reader logged_cur kept_store) sample_state = Inr history)"
  using VerifyMetadata_vouches [OF kept_verified] kept_verified by (auto simp: empty_report_def)

end
