(* ===== verification/Options.thy ===== *)
theory Options
  imports AppendHead "HOL-Library.Multiset"
begin

text \<open>
  Volume options (\<open>plugin/options.go\<close>) and sizes with a unit (\<open>units/bytes.go\<close>). The options of a
  request are a Go map, which is walked in an unspecified order: \<open>raw\<close> lists its entries in the order
  taken. \<open>time.ParseDuration\<close> is the parameter \<open>parseDuration\<close>.
\<close>

section \<open>Sizes\<close>

definition byteUnits :: "(string \<times> int) list" where
  "byteUnits = [(''GiB'', 2 ^ 30), (''MiB'', 2 ^ 20), (''KiB'', 2 ^ 10), (''G'', 2 ^ 30), (''M'', 2 ^ 20), (''K'', 2 ^ 10), (''B'', 1)]"

fun parse_units :: "(string \<times> int) list \<Rightarrow> string \<Rightarrow> int result" where
  "parse_units [] value =
     (case ParseInt value of
        None \<Rightarrow> invalid ''invalid size''
      | Some n \<Rightarrow> if n \<le> 0 then invalid ''invalid size'' else Inr n)"
| "parse_units ((suffix, factor) # units) value =
     (if \<not> strings_HasSuffix value suffix then parse_units units value
      else
        case ParseInt (strings_TrimSpace (take (length value - length suffix) value)) of
          None \<Rightarrow> invalid ''invalid size''
        | Some n \<Rightarrow> if n \<le> 0 \<or> n > (2 ^ 63 - 1) div factor then invalid ''invalid size'' else Inr (n * factor))"

definition ParseBytes :: "string \<Rightarrow> int result" where
  "ParseBytes value = parse_units byteUnits (strings_TrimSpace value)"

section \<open>Options\<close>

definition DefaultVolumeSize :: int where
  "DefaultVolumeSize = 10 * 2 ^ 30"

record VolumeOptions =
  Mode :: string
  Scope :: string
  Durability :: string
  Seed :: string
  SyncInterval :: int
  vo_Size :: int
  vo_Filesystem :: string

definition ReadOnly :: "VolumeOptions \<Rightarrow> bool" where
  "ReadOnly opts \<longleftrightarrow> Mode opts = ''ro''"

definition PerReplica :: "VolumeOptions \<Rightarrow> bool" where
  "PerReplica opts \<longleftrightarrow> Scope opts = ''replica''"

definition RemoteDurability :: "VolumeOptions \<Rightarrow> bool" where
  "RemoteDurability opts \<longleftrightarrow> Durability opts = ''remote''"

definition LocalDurability :: "VolumeOptions \<Rightarrow> bool" where
  "LocalDurability opts \<longleftrightarrow> Durability opts = ''local''"

definition default_options :: VolumeOptions where
  "default_options = \<lparr>Mode = ''rw'', Scope = ''volume'', Durability = ''local'', Seed = [], SyncInterval = 0,
     vo_Size = DefaultVolumeSize, vo_Filesystem = ''ext4''\<rparr>"

text \<open>The keys of the switch.\<close>

datatype option_key = KeyMode | KeyScope | KeyDurability | KeySeed | KeySyncInterval | KeySize | KeyFilesystem

definition option_keys :: "(string \<times> option_key) list" where
  "option_keys = [(''mode'', KeyMode), (''scope'', KeyScope), (''durability'', KeyDurability), (''seed'', KeySeed),
     (''sync_interval'', KeySyncInterval), (''size'', KeySize), (''filesystem'', KeyFilesystem)]"

definition parse_option :: "(string \<Rightarrow> int option) \<Rightarrow> string \<Rightarrow> string \<Rightarrow> VolumeOptions \<Rightarrow> VolumeOptions result" where
  "parse_option parseDuration key value opts =
     (case map_of option_keys key of
        Some KeyMode \<Rightarrow>
          if value \<noteq> ''rw'' \<and> value \<noteq> ''ro'' then invalid ''mode must be rw or ro'' else Inr (opts\<lparr>Mode := value\<rparr>)
      | Some KeyScope \<Rightarrow>
          if value \<noteq> ''volume'' \<and> value \<noteq> ''replica'' then invalid ''scope must be volume or replica'' else Inr (opts\<lparr>Scope := value\<rparr>)
      | Some KeyDurability \<Rightarrow>
          if value \<noteq> ''remote'' \<and> value \<noteq> ''local'' then invalid ''durability must be local or remote''
          else Inr (opts\<lparr>Durability := value\<rparr>)
      | Some KeySeed \<Rightarrow> Inr (opts\<lparr>Seed := value\<rparr>)
      | Some KeySyncInterval \<Rightarrow>
          (case parseDuration value of
             None \<Rightarrow> invalid ''sync_interval must be a positive duration''
           | Some d \<Rightarrow> if d \<le> 0 then invalid ''sync_interval must be a positive duration'' else Inr (opts\<lparr>SyncInterval := d\<rparr>))
      | Some KeySize \<Rightarrow>
          (case ParseBytes value of
             Inl _ \<Rightarrow> invalid ''size must be at least 64MiB and aligned to 4KiB''
           | Inr n \<Rightarrow> if n < 64 * 2 ^ 20 \<or> n mod 4096 \<noteq> 0 then invalid ''size must be at least 64MiB and aligned to 4KiB''
                       else Inr (opts\<lparr>vo_Size := n\<rparr>))
      | Some KeyFilesystem \<Rightarrow>
          if value \<noteq> ''ext4'' then invalid ''filesystem must be ext4'' else Inr (opts\<lparr>vo_Filesystem := value\<rparr>)
      | None \<Rightarrow> invalid ''unknown option'')"

fun parse_options :: "(string \<Rightarrow> int option) \<Rightarrow> (string \<times> string) list \<Rightarrow> VolumeOptions \<Rightarrow> VolumeOptions result" where
  "parse_options parseDuration [] opts = Inr opts"
| "parse_options parseDuration ((key, value) # raw) opts =
     bindR (parse_option parseDuration key value opts) (parse_options parseDuration raw)"

definition ParseVolumeOptions :: "(string \<Rightarrow> int option) \<Rightarrow> (string \<times> string) list \<Rightarrow> VolumeOptions result" where
  "ParseVolumeOptions parseDuration raw =
     bindR (parse_options parseDuration raw default_options) (\<lambda>opts.
       if ReadOnly opts \<and> Seed opts \<noteq> [] then invalid ''seed cannot be combined with mode=ro'' else Inr opts)"

section \<open>Sizes are exact\<close>

definition plain :: "char \<Rightarrow> bool" where
  "plain ch \<longleftrightarrow> 32 < (of_char ch :: nat) \<and> (of_char ch :: nat) < 128"

lemma trim_front_plain:
  assumes "\<forall>e\<in>set spaces. \<forall>ch\<in>set e. \<not> plain ch" "s = [] \<or> plain (hd s)"
  shows "trim_front spaces s = s"
proof -
  have "\<not> (e \<noteq> [] \<and> take (length e) s = e)" if e: "e \<in> set spaces" for e
  proof
    assume x: "e \<noteq> [] \<and> take (length e) s = e"
    then have "s \<noteq> []" "hd e = hd s" by (auto, metis hd_take length_greater_0_conv)
    then show False using assms e x hd_in_set by metis
  qed
  then have "find (\<lambda>e. e \<noteq> [] \<and> take (length e) s = e) spaces = None" by (auto simp: find_None_iff)
  then show ?thesis by (subst trim_front.simps) simp
qed

lemma space_encodings_bytes: "\<forall>e\<in>set space_encodings. \<forall>ch\<in>set e. \<not> plain ch"
  by (auto simp: space_encodings_def plain_def upt_rec_numeral)

lemma strings_TrimSpace_plain:
  assumes "s = [] \<or> plain (hd s) \<and> plain (last s)"
  shows "strings_TrimSpace s = s"
proof -
  have "trim_front space_encodings s = s" using space_encodings_bytes assms by (intro trim_front_plain) auto
  moreover have "trim_front (map rev space_encodings) (rev s) = rev s"
    using space_encodings_bytes assms by (intro trim_front_plain) (auto simp: hd_rev)
  ultimately show ?thesis by (simp add: strings_TrimSpace_def)
qed

lemma dec_snoc: "\<exists>ds d. dec n = ds @ [dec_digit d] \<and> d < 10"
  by (cases "n < 10") (auto simp: dec.simps [of n])

lemma dec_chars: "ch \<in> set (dec n) \<Longrightarrow> \<exists>d<10. ch = dec_digit d"
proof (induction n rule: dec.induct)
  case (1 n)
  show ?case
  proof (cases "n < 10")
    case False
    then have "ch \<in> set (dec (n div 10)) \<or> ch = dec_digit (n mod 10)" using "1.prems" by (auto simp: dec.simps [of n])
    then show ?thesis using "1.IH" [OF False] by (metis mod_less_divisor zero_less_numeral)
  qed (use "1.prems" in \<open>auto simp: dec.simps [of n]\<close>)
qed

lemma parse_digits_dec: "parse_digits 0 (dec n) = Some n"
proof (induction n rule: dec.induct)
  case (1 n)
  then show ?case by (cases "n < 10") (auto simp: dec.simps [of n] parse_digits_append char_digit_dec)
qed

lemma plain_digit: "d < 10 \<Longrightarrow> plain (dec_digit d)"
  by (simp add: plain_def dec_digit_of)

lemma digit_cases: "d < 10 \<Longrightarrow> dec_digit d \<in> set ''0123456789''"
  unfolding less_10 by (auto simp: dec_digit_def)

lemma ParseInt_dec: "ParseInt (dec n) = (if n < 2 ^ 63 then Some (int n) else None)"
proof -
  obtain ch cs where c: "dec n = ch # cs" using dec_snoc [of n] by (cases "dec n") auto
  then obtain d where "d < 10" "ch = dec_digit d" using dec_chars [of ch n] by auto
  then have "ch \<noteq> CHR ''-''" "ch \<noteq> CHR ''+''" using digit_cases [of d] by auto
  then show ?thesis using parse_digits_dec [of n] c by (simp add: ParseInt_def)
qed

lemma TrimSpace_dec: "suffix = [] \<or> plain (last suffix) \<Longrightarrow> strings_TrimSpace (dec n @ suffix) = dec n @ suffix"
proof -
  assume a: "suffix = [] \<or> plain (last suffix)"
  obtain ds d where d: "dec n = ds @ [dec_digit d]" "d < 10" using dec_snoc by blast
  have "plain (hd (dec n))" using dec_chars [of "hd (dec n)" n] d plain_digit by (metis hd_in_set snoc_eq_iff_butlast)
  then show ?thesis using a d plain_digit [of d] by (intro strings_TrimSpace_plain) (auto simp: hd_append last_append)
qed

lemma le_div_iff:
  assumes "0 < c"
  shows "a \<le> b div c \<longleftrightarrow> a * c \<le> (b :: int)"
proof
  assume "a \<le> b div c"
  then have "a * c \<le> b div c * c" using assms by (intro mult_right_mono) auto
  also have "\<dots> \<le> b" using pos_mod_sign [OF assms, of b] by (simp add: minus_mod_eq_div_mult [symmetric])
  finally show "a * c \<le> b" .
next
  assume "a * c \<le> b"
  then have "a * c div c \<le> b div c" using assms by (intro zdiv_mono1)
  then show "a \<le> b div c" using assms by simp
qed

lemma parse_units_bounds:
  "\<forall>(suffix, factor) \<in> set units. 0 < factor \<Longrightarrow> parse_units units v = Inr n \<Longrightarrow> 0 < n \<and> n < 2 ^ 63"
proof (induction units v rule: parse_units.induct)
  case (1 v)
  then show ?case by (auto simp: ParseInt_def Let_def split: option.splits list.splits if_splits)
next
  case (2 suffix factor units v)
  show ?case
  proof (cases "strings_HasSuffix v suffix")
    case True
    with "2.prems" obtain k where k: "0 < k" "k \<le> (2 ^ 63 - 1) div factor" "n = k * factor" by (auto split: option.splits if_splits)
    have f: "0 < factor" using "2.prems"(1) by simp
    then show ?thesis using k le_div_iff [OF f, of k "2 ^ 63 - 1"] by simp
  qed (use 2 in auto)
qed

text \<open>The unit a number with a suffix is read with.\<close>

lemma HasSuffix_rev: "strings_HasSuffix s suffix \<longleftrightarrow> take (length suffix) (rev s) = rev suffix"
  by (auto simp: strings_HasSuffix_def take_rev) (metis length_drop length_rev length_take min.absorb_iff2 min.commute take_rev)

lemma parse_units_dec:
  assumes "(suffix, factor) \<in> set byteUnits \<or> suffix = [] \<and> factor = 1"
  shows "parse_units byteUnits (dec n @ suffix) =
    (case ParseInt (dec n) of None \<Rightarrow> invalid ''invalid size''
     | Some k \<Rightarrow> if k \<le> 0 \<or> k > (2 ^ 63 - 1) div factor then invalid ''invalid size'' else Inr (k * factor))"
proof -
  obtain ds d where d: "dec n = ds @ [dec_digit d]" "d < 10" using dec_snoc by blast
  then have ch: "dec_digit d \<notin> set ''BGKMi''" using digit_cases [of d] by auto
  then have r: "rev (dec n) = dec_digit d # rev ds" "dec_digit d \<noteq> CHR ''B''" "dec_digit d \<noteq> CHR ''G''" "dec_digit d \<noteq> CHR ''K''"
    "dec_digit d \<noteq> CHR ''M''" "dec_digit d \<noteq> CHR ''i''" by (simp_all add: d(1))
  have t: "strings_TrimSpace (dec n) = dec n" using TrimSpace_dec [of "[]" n] by simp
  have small: "k \<le> 2 ^ 63 - 1" if "ParseInt (dec n) = Some k" for k using that by (auto simp: ParseInt_dec split: if_splits)
  from assms have "suffix = ''GiB'' \<and> factor = 2 ^ 30 \<or> suffix = ''MiB'' \<and> factor = 2 ^ 20 \<or> suffix = ''KiB'' \<and> factor = 2 ^ 10 \<or>
      suffix = ''G'' \<and> factor = 2 ^ 30 \<or> suffix = ''M'' \<and> factor = 2 ^ 20 \<or> suffix = ''K'' \<and> factor = 2 ^ 10 \<or>
      suffix = ''B'' \<and> factor = 1 \<or> suffix = [] \<and> factor = 1"
    by (simp add: byteUnits_def)
  then show ?thesis
  proof (elim disjE conjE)
    assume "suffix = []" "factor = 1"
    then show ?thesis using small by (auto simp: byteUnits_def HasSuffix_rev r split: option.split)
  qed (simp_all add: byteUnits_def HasSuffix_rev r t cong: option.case_cong if_cong)
qed

section \<open>Options in any order\<close>

text \<open>An entry is accepted or not whatever the options are, and replaces one field by a value that does
  not depend on them.\<close>

fun accepts :: "(string \<Rightarrow> int option) \<Rightarrow> option_key \<Rightarrow> string \<Rightarrow> bool" where
  "accepts pd KeyMode v \<longleftrightarrow> v = ''rw'' \<or> v = ''ro''"
| "accepts pd KeyScope v \<longleftrightarrow> v = ''volume'' \<or> v = ''replica''"
| "accepts pd KeyDurability v \<longleftrightarrow> v = ''remote'' \<or> v = ''local''"
| "accepts pd KeySeed v \<longleftrightarrow> True"
| "accepts pd KeySyncInterval v \<longleftrightarrow> (case pd v of None \<Rightarrow> False | Some d \<Rightarrow> 0 < d)"
| "accepts pd KeySize v \<longleftrightarrow> (case ParseBytes v of Inl _ \<Rightarrow> False | Inr n \<Rightarrow> 64 * 2 ^ 20 \<le> n \<and> n mod 4096 = 0)"
| "accepts pd KeyFilesystem v \<longleftrightarrow> v = ''ext4''"

fun put_field :: "(string \<Rightarrow> int option) \<Rightarrow> option_key \<Rightarrow> string \<Rightarrow> VolumeOptions \<Rightarrow> VolumeOptions" where
  "put_field pd KeyMode v opts = opts\<lparr>Mode := v\<rparr>"
| "put_field pd KeyScope v opts = opts\<lparr>Scope := v\<rparr>"
| "put_field pd KeyDurability v opts = opts\<lparr>Durability := v\<rparr>"
| "put_field pd KeySeed v opts = opts\<lparr>Seed := v\<rparr>"
| "put_field pd KeySyncInterval v opts = opts\<lparr>SyncInterval := the (pd v)\<rparr>"
| "put_field pd KeySize v opts = opts\<lparr>vo_Size := projr (ParseBytes v)\<rparr>"
| "put_field pd KeyFilesystem v opts = opts\<lparr>vo_Filesystem := v\<rparr>"

definition valid_option :: "(string \<Rightarrow> int option) \<Rightarrow> string \<times> string \<Rightarrow> bool" where
  "valid_option pd entry \<longleftrightarrow> (\<exists>x. map_of option_keys (fst entry) = Some x \<and> accepts pd x (snd entry))"

definition put_option :: "(string \<Rightarrow> int option) \<Rightarrow> string \<times> string \<Rightarrow> VolumeOptions \<Rightarrow> VolumeOptions" where
  "put_option pd entry opts = (case map_of option_keys (fst entry) of None \<Rightarrow> opts | Some x \<Rightarrow> put_field pd x (snd entry) opts)"

lemma parse_option_split:
  "parse_option pd key v opts = Inr opts' \<longleftrightarrow> valid_option pd (key, v) \<and> opts' = put_option pd (key, v) opts"
proof (cases "map_of option_keys key")
  case (Some x)
  then show ?thesis unfolding valid_option_def put_option_def parse_option_def fst_conv snd_conv
    by (cases x) (auto split: option.split sum.split)
qed (simp add: valid_option_def parse_option_def)

lemma option_keys_inj:
  assumes "map_of option_keys k = Some x" "map_of option_keys k' = Some x"
  shows "k = k'"
proof -
  have "inj_on snd (set option_keys)" by (rule distinct_map [THEN iffD1, THEN conjunct2]) (simp add: option_keys_def)
  then show ?thesis using map_of_SomeD [OF assms(1)] map_of_SomeD [OF assms(2)] by (metis inj_onD prod.inject snd_conv)
qed

lemma put_field_commute: "x \<noteq> y \<Longrightarrow> put_field pd x v (put_field pd y u opts) = put_field pd y u (put_field pd x v opts)"
  by (cases x; cases y) simp_all

lemma put_option_commute:
  assumes "fst e \<noteq> fst e'"
  shows "put_option pd e (put_option pd e' opts) = put_option pd e' (put_option pd e opts)"
  using option_keys_inj [of "fst e" _ "fst e'"] assms
  by (cases "map_of option_keys (fst e)"; cases "map_of option_keys (fst e')") (auto simp: put_option_def intro: put_field_commute)

lemma parse_options_fold:
  "parse_options pd raw opts = Inr opts' \<longleftrightarrow> (\<forall>e\<in>set raw. valid_option pd e) \<and> opts' = fold (put_option pd) raw opts"
proof (induction raw arbitrary: opts)
  case (Cons e raw)
  then show ?case by (cases e) (auto simp: parse_option_split)
qed auto

lemma parse_options_order:
  assumes "distinct (map fst raw)" "mset raw' = mset raw"
  shows "parse_options pd raw' opts = Inr opts' \<longleftrightarrow> parse_options pd raw opts = Inr opts'"
proof -
  have "fold (put_option pd) raw = fold (put_option pd) raw'"
  proof (rule fold_multiset_equiv)
    fix x y assume "x \<in> set raw" "y \<in> set raw"
    then have "x = y \<or> fst x \<noteq> fst y" using assms(1) by (auto simp: distinct_map inj_on_def)
    then show "put_option pd x \<circ> put_option pd y = put_option pd y \<circ> put_option pd x" 
      by (intro ext) (metis comp_apply put_option_commute)
  qed (use assms(2) in simp)
  moreover have "set raw' = set raw" using assms(2) by (rule mset_eq_setD)
  ultimately show ?thesis by (simp add: parse_options_fold)
qed

definition options_ok :: "VolumeOptions \<Rightarrow> bool" where
  "options_ok opts \<longleftrightarrow> Mode opts \<in> {''rw'', ''ro''} \<and> Scope opts \<in> {''volume'', ''replica''} \<and>
     (LocalDurability opts \<or> RemoteDurability opts) \<and> 0 \<le> SyncInterval opts \<and> 64 * 2 ^ 20 \<le> vo_Size opts \<and>
     vo_Size opts < 2 ^ 63 \<and> vo_Size opts mod DefaultBlockSize = 0 \<and> vo_Filesystem opts = ''ext4''"

lemma ParseBytes_bounds: "ParseBytes v = Inr n \<Longrightarrow> 0 < n \<and> n < 2 ^ 63"
  using parse_units_bounds [of byteUnits "strings_TrimSpace v" n] by (simp add: ParseBytes_def) (simp add: byteUnits_def)

lemma put_field_ok: "accepts pd x v \<Longrightarrow> options_ok opts \<Longrightarrow> options_ok (put_field pd x v opts)"
  using ParseBytes_bounds [of v]
  by (cases x) (auto simp: options_ok_def LocalDurability_def RemoteDurability_def DefaultBlockSize_def split: option.splits sum.splits)

lemma parse_option_ok: "parse_option pd key v opts = Inr opts' \<Longrightarrow> options_ok opts \<Longrightarrow> options_ok opts'"
  by (auto simp: parse_option_split valid_option_def put_option_def put_field_ok)

lemma parse_options_ok: "parse_options pd raw opts = Inr opts' \<Longrightarrow> options_ok opts \<Longrightarrow> options_ok opts'"
  by (induction pd raw opts rule: parse_options.induct) (auto dest: parse_option_ok)

lemma default_options_ok: "options_ok default_options"
  by (simp add: options_ok_def default_options_def LocalDurability_def DefaultVolumeSize_def DefaultBlockSize_def)

section \<open>Properties\<close>

text \<open>
  C38. A size is read exactly or refused. A decimal number with any of the units, or none, is the
  number times the unit when it is positive and the product fits in 63 bits, and is refused
  otherwise; the product never wraps around, and whatever text is accepted gives a positive size.
\<close>

theorem ParseBytes_exact:
  assumes "(suffix, factor) \<in> set byteUnits \<or> suffix = [] \<and> factor = 1"
  shows "ParseBytes (dec n @ suffix) =
      (if 0 < n \<and> int n * factor < 2 ^ 63 then Inr (int n * factor) else invalid ''invalid size'') \<and>
    (ParseBytes v = Inr m \<longrightarrow> 0 < m \<and> m < 2 ^ 63)"
proof -
  have f: "0 < factor" "suffix = [] \<or> plain (last suffix)" using assms by (auto simp: byteUnits_def plain_def)
  have le: "int n \<le> (2 ^ 63 - 1) div factor \<longleftrightarrow> int n * factor < 2 ^ 63"
    using le_div_iff [OF f(1), of "int n" "2 ^ 63 - 1"] by auto
  have "int n * factor < 2 ^ 63 \<Longrightarrow> n < 2 ^ 63"
  proof -
    assume "int n * factor < 2 ^ 63"
    moreover have "int n * 1 \<le> int n * factor" using f(1) by (intro mult_left_mono) auto
    ultimately have "int n < int (2 ^ 63)" by simp
    then show "n < 2 ^ 63" by (simp only: of_nat_less_iff)
  qed
  then show ?thesis
    using parse_units_dec [OF assms, of n] le ParseBytes_bounds
    by (auto simp: ParseBytes_def TrimSpace_dec [OF f(2)] ParseInt_dec not_less)
qed

theorem ParseBytes_exact_witness:
  "ParseBytes (dec 8589934591 @ ''GiB'') = Inr 9223372035781033984 \<and> ParseBytes (dec 8589934592 @ ''GiB'') = invalid ''invalid size''"
  using ParseBytes_exact [of "''GiB''" "2 ^ 30" 8589934591 "[]" 0] ParseBytes_exact [of "''GiB''" "2 ^ 30" 8589934592 "[]" 0]
  by (simp add: byteUnits_def)

text \<open>
  The options a volume is created with do not depend on the order in which the map of a request is
  walked, and what is accepted is a volume that can be created: every field has one of its values, the
  size is at least 64 MiB, below 2 to the 63 and whole blocks, and a read-only volume has no seed.
\<close>

theorem ParseVolumeOptions_order:
  assumes "distinct (map fst raw)" "mset raw' = mset raw" "ParseVolumeOptions parseDuration raw = Inr opts"
  shows "ParseVolumeOptions parseDuration raw' = Inr opts \<and> options_ok opts \<and> \<not> (ReadOnly opts \<and> Seed opts \<noteq> [])"
proof -
  obtain o1 where o1: "parse_options parseDuration raw default_options = Inr o1" "\<not> (ReadOnly o1 \<and> Seed o1 \<noteq> [])" "opts = o1"
    using assms(3) by (auto simp: ParseVolumeOptions_def split: if_splits)
  from o1(1) have "parse_options parseDuration raw' default_options = Inr o1" using parse_options_order [OF assms(1,2)] by simp
  then show ?thesis using o1 parse_options_ok [OF o1(1) default_options_ok] by (simp add: ParseVolumeOptions_def)
qed

theorem ParseVolumeOptions_order_witness:
  "ParseVolumeOptions (\<lambda>_. None) [(''mode'', ''ro''), (''size'', dec 1 @ ''GiB'')] =
     Inr (default_options\<lparr>Mode := ''ro'', vo_Size := 2 ^ 30\<rparr>)"
proof -
  have "parse_units byteUnits (dec 1 @ ''GiB'') = Inr (2 ^ 30)"
    by (subst parse_units_dec [of _ "2 ^ 30"]) (simp_all add: byteUnits_def ParseInt_dec)
  moreover have "strings_TrimSpace (dec 1 @ ''GiB'') = dec 1 @ ''GiB''" by (rule TrimSpace_dec) (simp add: plain_def)
  ultimately have "ParseBytes (dec 1 @ ''GiB'') = Inr (2 ^ 30)" by (simp add: ParseBytes_def)
  then have "ParseVolumeOptions (\<lambda>_. None) [(''size'', dec 1 @ ''GiB''), (''mode'', ''ro'')] =
      Inr (default_options\<lparr>Mode := ''ro'', vo_Size := 2 ^ 30\<rparr>)"
    by (simp add: ParseVolumeOptions_def parse_option_def option_keys_def default_options_def ReadOnly_def)
  from ParseVolumeOptions_order [OF _ _ this, of "[(''mode'', ''ro''), (''size'', dec 1 @ ''GiB'')]"] show ?thesis by simp
qed

end
