(* ===== verification/Driver.thy ===== *)
theory Driver
  imports LazyDevice SyncerClaims JournalClaims History Options
begin

text \<open>
  The volume driver (\<open>plugin/driver.go\<close>) and the block backend it mounts with
  (\<open>backend/block/block_linux.go\<close>): the registry of volumes, mounting with recovery of the local
  journal, unmounting with the final synchronisation, fencing and removal, composed of the
  operations of the other components. What the operating system, \<open>mkfs\<close>, \<open>mount\<close> and the kernel's
  file system do is in the scripts an operation is given: an outcome for each call, and what was
  done to the device meanwhile. The heartbeat and the worker run beside the driver; their steps are
  those of \<open>Lease\<close> and \<open>SyncerRun\<close>.
\<close>

section \<open>The block backend\<close>

text \<open>\<open>unmount\<close>: the outcome of the first call of the system, and what ends each pause.\<close>

datatype pause = CtxDone | TimedOut | Retried "unit result"

fun unmount :: "bool \<Rightarrow> unit result \<Rightarrow> pause list \<Rightarrow> unit result" where
  "unmount detach res pauses =
     (case res of
        Inr _ \<Rightarrow> Inr ()
      | Inl e \<Rightarrow>
          if e = Errno 22 \<or> e = Errno 2 then Inr ()
          else if e \<noteq> Errno 16 \<or> detach then Inl e
          else
            (case pauses of
               [] \<Rightarrow> Inl e
             | CtxDone # _ \<Rightarrow> Inl (Wrap ''context'' e)
             | TimedOut # _ \<Rightarrow> Inl e
             | Retried res' # pauses' \<Rightarrow> unmount detach res' pauses'))"

declare unmount.simps [simp del]

record blockMount =
  bm_closed :: bool

record close_script =
  cl_unmount :: "unit result"
  cl_pauses :: "pause list"
  cl_attachment :: "unit result"
  cl_remove :: "unit result"

definition mount_close :: "bool \<Rightarrow> close_script \<Rightarrow> blockMount \<Rightarrow> blockMount \<times> unit result" where
  "mount_close detach c m =
     (if bm_closed m then (m, Inr ())
      else
        case unmount detach (cl_unmount c) (cl_pauses c) of
          Inl e \<Rightarrow> if \<not> detach then (m, Inl e)
                    else (let res = bindR (cl_attachment c) (\<lambda>_. cl_remove c) in (m\<lparr>bm_closed := is_ok res\<rparr>, res))
        | Inr _ \<Rightarrow> (let res = bindR (cl_attachment c) (\<lambda>_. cl_remove c) in (m\<lparr>bm_closed := is_ok res\<rparr>, res)))"

definition Mount_Unmount :: "close_script \<Rightarrow> blockMount \<Rightarrow> blockMount \<times> unit result" where
  "Mount_Unmount c m = mount_close False c m"

definition Mount_Abandon :: "close_script \<Rightarrow> blockMount \<Rightarrow> blockMount \<times> unit result" where
  "Mount_Abandon c m = mount_close True c m"

text \<open>\<open>formatted\<close> is the image \<open>mkfs\<close> made, or its failure.\<close>

definition Format_image :: "string \<Rightarrow> image result \<Rightarrow> image result" where
  "Format_image filesystem formatted = (if filesystem \<noteq> ''ext4'' then invalid ''unsupported filesystem'' else formatted)"

definition Backend_Mount :: "string \<Rightarrow> unit result \<Rightarrow> unit result \<Rightarrow> unit result \<Rightarrow> blockMount result" where
  "Backend_Mount filesystem mkdir attached mounted =
     (let fs = (if filesystem = [] then ''ext4'' else filesystem) in
      if fs \<noteq> ''ext4'' then invalid ''unsupported filesystem''
      else bindR mkdir (\<lambda>_. bindR attached (\<lambda>_. bindR mounted (\<lambda>_. Inr \<lparr>bm_closed = False\<rparr>))))"

section \<open>State\<close>

record volumeRecord =
  rc_Name :: string
  rc_CreatedAt :: int
  rc_Options :: VolumeOptions

text \<open>The JSON of a registry entry is a parameter.\<close>

record record_codec =
  marshalRecord :: "volumeRecord \<Rightarrow> bytes"
  unmarshalRecord :: "bytes \<Rightarrow> volumeRecord result"

text \<open>
  What the driver has on its node: the registry files, the images, the mount points and the journal
  files by volume, and what is in use for a volume: running heartbeats and workers, open devices and
  journals, attached mounts. \<open>Close\<close> and \<open>Abandon\<close> whose error is ignored give up the resource.
\<close>

record node =
  nd_records :: "(string, bytes) fmap"
  nd_images :: "string fset"
  nd_dirs :: "string fset"
  nd_journals :: "(string, bytes) fmap"
  nd_beats :: "string fset"
  nd_workers :: "string fset"
  nd_devices :: "string fset"
  nd_open :: "string fset"
  nd_mounts :: "string fset"

text \<open>
  In a mount that can write, lease, device and journal are those of its replicator. A read-only mount
  has only a device.
\<close>

record 's mountState =
  ms_name :: string
  ms_mountIDs :: "string fset"
  ms_active :: bool
  ms_device :: "LazyImage Device option"
  ms_syncer :: "(LazyImage, 's) Syncer option"
  ms_unmounter :: "blockMount option"
  ms_stopBeat :: bool
  ms_fenced :: "error option"

record 's volumeState =
  vs_record :: volumeRecord
  vs_mounts :: "(string, 's mountState) fmap"

record 's Driver =
  dr_store :: 's
  dr_node :: node
  dr_volumes :: "(string, 's volumeState) fmap"

record 's driver_env =
  dv_sync :: "'s syncenv"
  dv_mode :: HeadMode
  dv_records :: record_codec
  dv_sha256 :: "bytes \<Rightarrow> bytes"
  dv_parseDuration :: "string \<Rightarrow> int option"
  dv_NodeID :: string
  dv_MaxDirty :: int
  dv_SyncInterval :: int
  dv_CheckpointInterval :: u64
  dv_Seeder :: bool
  dv_StateDir :: string

abbreviation dv_wire :: "'s driver_env \<Rightarrow> wire" where
  "dv_wire E \<equiv> se_wire (dv_sync E)"

abbreviation dv_remote :: "'s driver_env \<Rightarrow> 's Remote" where
  "dv_remote E \<equiv> se_remote (dv_sync E)"

abbreviation dv_jcodec :: "'s driver_env \<Rightarrow> jcodec" where
  "dv_jcodec E \<equiv> se_jcodec (dv_sync E)"

section \<open>Files of a volume\<close>

text \<open>\<open>cleanupLocal\<close> ignores its errors: \<open>cleaned\<close> is whether the files are gone.\<close>

definition cleanupLocal :: "bool \<Rightarrow> string \<Rightarrow> node \<Rightarrow> node" where
  "cleanupLocal cleaned name nd =
     (if cleaned then nd\<lparr>nd_images := nd_images nd |-| {|name|}, nd_dirs := nd_dirs nd |-| {|name|}\<rparr> else nd)"

text \<open>\<open>Journal.Close\<close> as far as the node sees it: the file is what the journal wrote, unless it was
  removed. \<open>closing\<close> has the outcomes of closing, removing and flushing the directory.\<close>

type_synonym closing = "unit result \<times> unit result \<times> unit result"

definition close_journal :: "closing \<Rightarrow> bool \<Rightarrow> string \<Rightarrow> Journal \<Rightarrow> node \<Rightarrow> Journal \<times> node \<times> unit result" where
  "close_journal c remove name j nd =
     (if jn_closed j then (j, nd\<lparr>nd_open := nd_open nd |-| {|name|}\<rparr>, Inr ())
      else
        case c of (closed, removed, synced) \<Rightarrow>
          (case close_finish closed removed synced remove (close_begin j) of (j', res) \<Rightarrow>
             (j', nd\<lparr>nd_open := nd_open nd |-| {|name|},
                nd_journals := (if remove \<and> is_ok removed then fmdrop name (nd_journals nd) else fmupd name (jn_file j) (nd_journals nd))\<rparr>,
              res)))"

definition close_if_open :: "closing \<Rightarrow> string \<Rightarrow> Journal option \<Rightarrow> node \<Rightarrow> node" where
  "close_if_open c name journal nd =
     (case journal of None \<Rightarrow> nd | Some j \<Rightarrow> (case close_journal c False name j nd of (_, nd', _) \<Rightarrow> nd'))"

section \<open>Mounting\<close>

text \<open>
  The outcomes of one mount. \<open>mt_used\<close> is what the file system did to the device while it was mounted,
  \<open>mt_seeded\<close> what seeding did.
\<close>

record mount_script =
  mt_now :: int
  mt_uuid :: string
  mt_token :: string
  mt_open :: "unit result"
  mt_torn :: "unit result \<times> unit result"
  mt_closing :: closing
  mt_rebase :: rewrite_io
  mt_create :: rewrite_io
  mt_image :: "unit result"
  mt_truncate :: "unit result"
  mt_format :: "image result"
  mt_get :: getter
  mt_later :: "nat \<Rightarrow> getter"
  mt_sparse :: "unit result"
  mt_schedule :: "ObjectRef list \<Rightarrow> ObjectRef list"
  mt_opened :: "unit result"
  mt_io :: fileio
  mt_lazyio :: fileio
  mt_order :: "Generation \<Rightarrow> u64 list"
  mt_seeker :: seeker
  mt_mkdir :: "unit result"
  mt_attached :: "unit result"
  mt_mounted :: "unit result"
  mt_used :: "LazyImage Device \<Rightarrow> LazyImage Device"
  mt_seed :: "unit result"
  mt_seeded :: "LazyImage Device \<Rightarrow> LazyImage Device"
  mt_published :: int
  mt_waits :: "unit result"
  mt_cleaned :: bool

text \<open>Opening the local journal before the lease is taken: the journal with generations to recover, if
  there is one. An empty journal is removed.\<close>

definition recover_journal ::
  "'s driver_env \<Rightarrow> mount_script \<Rightarrow> string \<Rightarrow> 's \<Rightarrow> node \<Rightarrow> 's \<times> node \<times> Journal option result" where
  "recover_journal E c name s nd =
     (case fmlookup (nd_journals nd) name of
        None \<Rightarrow> (s, nd, Inr None)
      | Some bytes \<Rightarrow>
          (case bindR (mt_open c) (\<lambda>_. OpenJournal (dv_jcodec E) (fst (mt_torn c)) (snd (mt_torn c)) bytes) of
             Inl e \<Rightarrow> (s, nd, Inl (Wrap ''open local journal'' e))
           | Inr j \<Rightarrow>
               let nd1 = nd\<lparr>nd_open := finsert name (nd_open nd), nd_journals := fmupd name (jn_file j) (nd_journals nd)\<rparr> in
               if Journal_Entries j = [] then
                 (case close_journal (mt_closing c) True name j nd1 of
                    (_, nd2, Inl e) \<Rightarrow> (s, nd2, Inl (Wrap ''remove empty local journal'' e))
                  | (_, nd2, Inr _) \<Rightarrow> (s, nd2, Inr None))
               else
                 (case Inspect (dv_wire E) (dv_remote E) name s of
                    (s1, Inl e) \<Rightarrow> (s1, close_if_open (mt_closing c) name (Some j) nd1, Inl (Wrap ''inspect remote state for local journal recovery'' e))
                  | (s1, Inr (state, _)) \<Rightarrow>
                      (case ValidateRecovery state j of
                         Inl e \<Rightarrow> (s1, close_if_open (mt_closing c) name (Some j) nd1, Inl (Wrap ''recover local journal'' e))
                       | Inr _ \<Rightarrow> (s1, nd1, Inr (Some j))))))"

text \<open>Giving everything up: \<open>releaseOnFailure\<close>, and \<open>cleanupMounted\<close> once the volume was mounted.\<close>

definition releaseOnFailure ::
  "'s driver_env \<Rightarrow> mount_script \<Rightarrow> string \<Rightarrow> Journal option \<Rightarrow> Lease \<Rightarrow> error \<Rightarrow> 's \<Rightarrow> node \<Rightarrow> 's \<times> node \<times> 'a result" where
  "releaseOnFailure E c name journal lease cause s nd =
     (let nd1 = close_if_open (mt_closing c) name journal (nd\<lparr>nd_beats := nd_beats nd |-| {|name|}\<rparr>) in
      case Lease_Release (dv_wire E) (dv_remote E) (mt_waits c) lease s of
        (_, s', _) \<Rightarrow> (s', cleanupLocal (mt_cleaned c) name nd1, Inl cause))"

definition cleanupMounted ::
  "'s driver_env \<Rightarrow> mount_script \<Rightarrow> string \<Rightarrow> Journal option \<Rightarrow> Lease \<Rightarrow> error \<Rightarrow> 's \<Rightarrow> node \<Rightarrow> 's \<times> node \<times> 'a result" where
  "cleanupMounted E c name journal lease cause s nd =
     releaseOnFailure E c name journal lease cause s
       (nd\<lparr>nd_mounts := nd_mounts nd |-| {|name|}, nd_devices := nd_devices nd |-| {|name|}\<rparr>)"

text \<open>The journal is checked again under the lease and takes its epoch.\<close>

definition adopt_journal :: "'s driver_env \<Rightarrow> mount_script \<Rightarrow> State \<Rightarrow> Journal option \<Rightarrow> Journal option \<times> unit result" where
  "adopt_journal E c state journal =
     (case journal of
        None \<Rightarrow> (None, Inr ())
      | Some j \<Rightarrow>
          (case ValidateRecovery state j of
             Inl e \<Rightarrow> (Some j, Inl (Wrap ''revalidate local journal after lease acquisition'' e))
           | Inr _ \<Rightarrow>
               (case Rebase (dv_jcodec E) (mt_rebase c) state j of
                  (j', Inl e) \<Rightarrow> (Some j', Inl (Wrap ''adopt local journal'' e))
                | (j', Inr _) \<Rightarrow> (Some j', Inr ()))))"

text \<open>The image: formatted for a new volume, sparse with a lazy source otherwise.\<close>

definition setup_image ::
  "'s driver_env \<Rightarrow> mount_script \<Rightarrow> string \<Rightarrow> Lease \<Rightarrow> node \<Rightarrow> Lease \<times> node \<times> (image \<times> LazyImage option) result" where
  "setup_image E c name lease nd =
     (let state = ls_state lease; nd1 = nd\<lparr>nd_images := finsert name (nd_images nd)\<rparr> in
      if s_Generation state = 0 then
        (case mt_image c of
           Inl e \<Rightarrow> (lease, nd, Inl e)
         | Inr _ \<Rightarrow>
             (lease, nd1, bindR (mt_truncate c) (\<lambda>_. bindR (Format_image (Filesystem state) (mt_format c)) (\<lambda>img. Inr (img, None)))))
      else
        (case PrepareLazyRestore (dv_wire E) (mt_get c) (mt_later c) (mt_sparse c) state of
           Inl e \<Rightarrow> (lease, nd1, Inl e)
         | Inr (img, l) \<Rightarrow> (adoptPlan state (l_refs l) lease, nd1, Inr (img, Some l))))"

text \<open>The device over the image, with the recovered generations replayed and, for a new volume, its
  allocated blocks captured. \<open>nat (s_Size state)\<close> steps are enough for the scan to end.\<close>

definition setup_device ::
  "'s driver_env \<Rightarrow> mount_script \<Rightarrow> State \<Rightarrow> Generation list \<Rightarrow> image \<Rightarrow> LazyImage option \<Rightarrow> LazyImage Device result" where
  "setup_device E c state entries img lazy =
     bindR (OpenDevice (bindR (mt_opened c) (\<lambda>_. Inr img)) (s_Size state) (dv_MaxDirty E)) (\<lambda>d.
       let d1 = SetDirtyObserver (SetLazyImage lazy d) in
       case (if entries = [] then (d1, [], Inr ()) else Replay (lazy_ops (dv_wire E) (mt_lazyio c)) (mt_io c) (mt_order c) entries d1) of
         (d2, _, Inl e) \<Rightarrow> Inl (Wrap ''replay local journal'' e)
       | (d2, _, Inr _) \<Rightarrow>
           let d3 = SetBackpressureHandler d2 in
           if s_Generation state \<noteq> 0 then Inr d3
           else
             (case MarkAllocated (nat (s_Size state)) (mt_seeker c) (mt_io c) d3 of
                None \<Rightarrow> invalid ''the scan of the image does not end''
              | Some (d4, Inl e) \<Rightarrow> Inl e
              | Some (d4, Inr _) \<Rightarrow> Inr d4))"

text \<open>A new volume is seeded and its first generation published before the mount is handed out.\<close>

definition initialise_volume ::
  "'s driver_env \<Rightarrow> mount_script \<Rightarrow> VolumeOptions \<Rightarrow> LazyImage Device \<Rightarrow> Lease \<Rightarrow> 's \<Rightarrow> Lease \<times> 's \<times> LazyImage Device result" where
  "initialise_volume E c opts d lease s =
     (if s_Generation (ls_state lease) \<noteq> 0 then (lease, s, Inr d)
      else if Seed opts \<noteq> [] \<and> \<not> dv_Seeder E then (lease, s, invalid ''seeding is not configured'')
      else
        case (if Seed opts \<noteq> [] then mt_seed c else Inr ()) of
          Inl e \<Rightarrow> (lease, s, Inl (Wrap ''seed'' e))
        | Inr _ \<Rightarrow>
            (case Seal (if Seed opts \<noteq> [] then mt_seeded c d else d) of (generation, d1) \<Rightarrow>
               case EncodeSegments (codec.truncate (dv_wire E)) generation DefaultSegmentBlocks of
                 Inl e \<Rightarrow> (lease, s, Inl e)
               | Inr segments \<Rightarrow>
                   (case Publish (dv_wire E) (dv_remote E) (mt_published c) segments lease s of
                      (lease', s', Inl e) \<Rightarrow> (lease', s', Inl e)
                    | (lease', s', Inr _) \<Rightarrow> (lease', s', Inr (fst (Release generation d1))))))"

text \<open>The file a new journal leaves, whether or not its creation succeeded.\<close>

definition created_file :: "'s driver_env \<Rightarrow> mount_script \<Rightarrow> State \<Rightarrow> string \<Rightarrow> node \<Rightarrow> node" where
  "created_file E c state name nd =
     (case journalMetadata state of
        Inl _ \<Rightarrow> nd
      | Inr m \<Rightarrow>
          (case rewriteLocked (dv_jcodec E) (mt_create c) (new_journal m) of (j, _) \<Rightarrow>
             if jn_file j = [] then nd else nd\<lparr>nd_journals := fmupd name (jn_file j) (nd_journals nd)\<rparr>))"

text \<open>The replicator and the handlers of the device.\<close>

definition start_replication ::
  "'s driver_env \<Rightarrow> VolumeOptions \<Rightarrow> Generation list \<Rightarrow> Journal option \<Rightarrow> LazyImage Device \<Rightarrow> Lease \<Rightarrow> 's \<Rightarrow> (LazyImage, 's) Syncer" where
  "start_replication E opts entries journal d lease s =
     (let interval = (if SyncInterval opts = 0 then dv_SyncInterval E else SyncInterval opts);
          y = StartSyncer d lease s interval (dv_CheckpointInterval E) journal;
          d1 = SetDurableFlushHandler (SetBackpressureHandler (SetDirtyHandler (min (dv_MaxDirty E div 4) (32 * 2 ^ 20)) d));
          y1 = y\<lparr>sy_device := d1\<rparr>
      in if RemoteDurability opts \<or> entries = [] then y1 else Notify (EnqueueRecovered entries y1))"

text \<open>The end of \<open>mountFresh\<close>, once the first generation is published: the journal, if there is none
  yet, and the replicator.\<close>

definition start_volume ::
  "'s driver_env \<Rightarrow> mount_script \<Rightarrow> VolumeOptions \<Rightarrow> string \<Rightarrow> Generation list \<Rightarrow> Journal option \<Rightarrow> LazyImage Device \<Rightarrow> Lease \<Rightarrow>
     's \<Rightarrow> node \<Rightarrow> 's \<times> node \<times> (LazyImage, 's) Syncer result" where
  "start_volume E c opts name entries journal d lease s nd =
     (if LocalDurability opts \<and> journal = None then
        let nd1 = created_file E c (ls_state lease) name nd in
        (case CreateJournal (dv_jcodec E) (mt_create c) (ls_state lease) of
           Inl e \<Rightarrow> cleanupMounted E c name None lease (Wrap ''create local journal'' e) s nd1
         | Inr j \<Rightarrow>
             (s, nd1\<lparr>nd_open := finsert name (nd_open nd1), nd_workers := finsert name (nd_workers nd1)\<rparr>,
              Inr (start_replication E opts entries (Some j) d lease s)))
      else
        (s, nd\<lparr>nd_workers := finsert name (nd_workers nd)\<rparr>, Inr (start_replication E opts entries journal d lease s)))"

text \<open>The device is mounted, and a new volume initialised.\<close>

definition mount_device ::
  "'s driver_env \<Rightarrow> mount_script \<Rightarrow> VolumeOptions \<Rightarrow> string \<Rightarrow> Generation list \<Rightarrow> Journal option \<Rightarrow> LazyImage Device \<Rightarrow> Lease \<Rightarrow>
     's \<Rightarrow> node \<Rightarrow> 's \<times> node \<times> (LazyImage, 's) Syncer result" where
  "mount_device E c opts name entries journal d lease s nd =
     (let nd1 = nd\<lparr>nd_devices := finsert name (nd_devices nd)\<rparr> in
      case Backend_Mount (Filesystem (ls_state lease)) (mt_mkdir c) (mt_attached c) (mt_mounted c) of
        Inl e \<Rightarrow> releaseOnFailure E c name journal lease e s (nd1\<lparr>nd_devices := nd_devices nd1 |-| {|name|}\<rparr>)
      | Inr um \<Rightarrow>
          let nd2 = nd1\<lparr>nd_mounts := finsert name (nd_mounts nd1), nd_dirs := finsert name (nd_dirs nd1)\<rparr> in
          (case initialise_volume E c opts (mt_used c d) lease s of
             (lease', s', Inl e) \<Rightarrow> cleanupMounted E c name journal lease' e s' nd2
           | (lease', s', Inr d') \<Rightarrow> start_volume E c opts name entries journal d' lease' s' nd2))"

text \<open>\<open>mountFresh\<close> of a volume that can be written, from the point where the lease is held.\<close>

definition mount_leased ::
  "'s driver_env \<Rightarrow> mount_script \<Rightarrow> VolumeOptions \<Rightarrow> string \<Rightarrow> Journal option \<Rightarrow> Lease \<Rightarrow> 's \<Rightarrow> node \<Rightarrow>
     's \<times> node \<times> (LazyImage, 's) Syncer result" where
  "mount_leased E c opts name journal lease s nd =
     (let state = ls_state lease; entries = (case journal of None \<Rightarrow> [] | Some j \<Rightarrow> Journal_Entries j);
          nd1 = cleanupLocal (mt_cleaned c) name (nd\<lparr>nd_beats := finsert name (nd_beats nd)\<rparr>)
      in case adopt_journal E c state journal of
           (journal', Inl e) \<Rightarrow> releaseOnFailure E c name journal' lease e s nd1
         | (journal', Inr _) \<Rightarrow>
             (case setup_image E c name lease nd1 of
                (lease', nd2, Inl e) \<Rightarrow> releaseOnFailure E c name journal' lease' e s nd2
              | (lease', nd2, Inr (img, lazy)) \<Rightarrow>
                  (case setup_device E c state entries img lazy of
                     Inl e \<Rightarrow> releaseOnFailure E c name journal' lease' e s nd2
                   | Inr d \<Rightarrow> mount_device E c opts name entries journal' d lease' s nd2)))"

definition mount_writable ::
  "'s driver_env \<Rightarrow> mount_script \<Rightarrow> VolumeOptions \<Rightarrow> string \<Rightarrow> 's \<Rightarrow> node \<Rightarrow> 's \<times> node \<times> (LazyImage, 's) Syncer result" where
  "mount_writable E c opts name s nd =
     (case (if LocalDurability opts then recover_journal E c name s nd else (s, nd, Inr None)) of
        (s1, nd1, Inl e) \<Rightarrow> (s1, nd1, Inl e)
      | (s1, nd1, Inr journal) \<Rightarrow>
          (case Acquire (dv_wire E) (dv_remote E) (mt_now c) (mt_uuid c) (mt_token c) name (dv_NodeID E)
                  \<lparr>co_Size = vo_Size opts, co_Filesystem = vo_Filesystem opts\<rparr> s1 of
             (s2, Inl e) \<Rightarrow> (s2, close_if_open (mt_closing c) name journal nd1, Inl e)
           | (s2, Inr (lease, _)) \<Rightarrow> mount_leased E c opts name journal lease s2 nd1))"

definition mountReadOnly ::
  "'s driver_env \<Rightarrow> mount_script \<Rightarrow> string \<Rightarrow> 's \<Rightarrow> node \<Rightarrow> 's \<times> node \<times> (LazyImage Device \<times> blockMount) result" where
  "mountReadOnly E c name s nd =
     (case Inspect (dv_wire E) (dv_remote E) name s of
        (s1, Inl e) \<Rightarrow> (s1, nd, Inl e)
      | (s1, Inr (state, _)) \<Rightarrow>
          if s_Generation state = 0 then (s1, nd, invalid ''volume has not been initialized'')
          else
            let nd1 = cleanupLocal (mt_cleaned c) name nd; nd2 = nd1\<lparr>nd_images := finsert name (nd_images nd1)\<rparr> in
            (case RestoreState (dv_wire E) (mt_get c) (mt_io c) (mt_sparse c) (mt_schedule c) state of
               Inl e \<Rightarrow> (s1, nd2, Inl e)
             | Inr img \<Rightarrow>
                 (case OpenDevice (bindR (mt_opened c) (\<lambda>_. Inr img)) (s_Size state) (dv_MaxDirty E) of
                    Inl e \<Rightarrow> (s1, nd2, Inl e)
                  | Inr d \<Rightarrow>
                      (case Backend_Mount (Filesystem state) (mt_mkdir c) (mt_attached c) (mt_mounted c) of
                         Inl e \<Rightarrow> (s1, nd2, Inl e)
                       | Inr um \<Rightarrow>
                           (s1, nd2\<lparr>nd_devices := finsert name (nd_devices nd2), nd_mounts := finsert name (nd_mounts nd2),
                              nd_dirs := finsert name (nd_dirs nd2)\<rparr>, Inr (mt_used c d, um))))))"

definition mountFresh ::
  "'s driver_env \<Rightarrow> mount_script \<Rightarrow> VolumeOptions \<Rightarrow> 's mountState \<Rightarrow> 's \<Rightarrow> node \<Rightarrow> 's mountState \<times> 's \<times> node \<times> unit result" where
  "mountFresh E c opts mount s nd =
     (if ReadOnly opts then
        (case mountReadOnly E c (ms_name mount) s nd of
           (s', nd', Inl e) \<Rightarrow> (mount, s', nd', Inl e)
         | (s', nd', Inr (d, um)) \<Rightarrow> (mount\<lparr>ms_active := True, ms_device := Some d, ms_unmounter := Some um\<rparr>, s', nd', Inr ()))
      else
        (case mount_writable E c opts (ms_name mount) s nd of
           (s', nd', Inl e) \<Rightarrow> (mount, s', nd', Inl e)
         | (s', nd', Inr y) \<Rightarrow>
             (mount\<lparr>ms_active := True, ms_syncer := Some y, ms_unmounter := Some \<lparr>bm_closed = False\<rparr>, ms_stopBeat := True\<rparr>,
              s', nd', Inr ())))"

section \<open>The registry\<close>

text \<open>How writing a registry file ends: completely, without touching the file, or after some bytes.\<close>

datatype file_write_outcome = WroteAll | NotOpened error | WroteSome nat error

definition validName :: "string \<Rightarrow> bool" where
  "validName s = (case s of [] \<Rightarrow> False | ch # rest \<Rightarrow> alnum ch \<and> list_all (\<lambda>x. alnum x \<or> x \<in> set ''_.-'') rest)"

definition new_state :: "volumeRecord \<Rightarrow> 's volumeState" where
  "new_state rec = \<lparr>vs_record = rec, vs_mounts = fmempty\<rparr>"

definition saveRecord :: "'s driver_env \<Rightarrow> file_write_outcome \<Rightarrow> volumeRecord \<Rightarrow> node \<Rightarrow> node \<times> unit result" where
  "saveRecord E wrote rec nd =
     (let data = marshalRecord (dv_records E) rec in
      case wrote of
        WroteAll \<Rightarrow> (nd\<lparr>nd_records := fmupd (rc_Name rec) data (nd_records nd)\<rparr>, Inr ())
      | NotOpened e \<Rightarrow> (nd, Inl e)
      | WroteSome n e \<Rightarrow> (nd\<lparr>nd_records := fmupd (rc_Name rec) (take n data) (nd_records nd)\<rparr>, Inl e))"

text \<open>\<open>loadRegistry\<close> over the files in the order of the directory; a file that cannot be read ends it.\<close>

fun loadRegistry :: "'s driver_env \<Rightarrow> bytes result list \<Rightarrow> (string, 's volumeState) fmap \<Rightarrow> (string, 's volumeState) fmap result" where
  "loadRegistry E [] volumes = Inr volumes"
| "loadRegistry E (file # files) volumes =
     bindR file (\<lambda>data.
     case unmarshalRecord (dv_records E) data of
       Inl e \<Rightarrow> Inl (Wrap ''corrupt registry entry'' e)
     | Inr rec \<Rightarrow>
         if Durability (rc_Options rec) \<noteq> ''local'' \<and> Durability (rc_Options rec) \<noteq> ''remote''
         then invalid ''registry entry uses unsupported durability''
         else loadRegistry E files (fmupd (rc_Name rec) (new_state rec) volumes))"

text \<open>\<open>New\<close>: the defaults of the configuration, the directories, and the registry.\<close>

definition with_defaults :: "'s driver_env \<Rightarrow> 's driver_env" where
  "with_defaults E =
     E\<lparr>dv_MaxDirty := (if dv_MaxDirty E \<le> 0 then 256 * 2 ^ 20 else dv_MaxDirty E),
       dv_SyncInterval := (if dv_SyncInterval E \<le> 0 then 5000000000 else dv_SyncInterval E),
       dv_CheckpointInterval := (if dv_CheckpointInterval E = 0 then 128 else dv_CheckpointInterval E)\<rparr>"

definition New_driver :: "'s driver_env \<Rightarrow> unit result \<Rightarrow> bytes result list \<Rightarrow> 's \<Rightarrow> node \<Rightarrow> 's Driver result" where
  "New_driver E mkdirs files s nd =
     bindR mkdirs (\<lambda>_. bindR (loadRegistry E files fmempty) (\<lambda>volumes. Inr \<lparr>dr_store = s, dr_node = nd, dr_volumes = volumes\<rparr>))"

definition Create ::
  "'s driver_env \<Rightarrow> int \<Rightarrow> file_write_outcome \<Rightarrow> string \<Rightarrow> (string \<times> string) list \<Rightarrow> 's Driver \<Rightarrow> 's Driver \<times> unit result" where
  "Create E now wrote name raw d =
     (if \<not> validName name then (d, invalid ''invalid volume name'')
      else
        case ParseVolumeOptions (dv_parseDuration E) raw of
          Inl e \<Rightarrow> (d, Inl e)
        | Inr opts \<Rightarrow>
            (case fmlookup (dr_volumes d) name of
               Some current \<Rightarrow>
                 (d, if raw = [] then Inr ()
                     else if rc_Options (vs_record current) \<noteq> opts then invalid ''volume already exists with different options''
                     else Inr ())
             | None \<Rightarrow>
                 let rec = \<lparr>rc_Name = name, rc_CreatedAt = now, rc_Options = opts\<rparr> in
                 (case saveRecord E wrote rec (dr_node d) of
                    (nd, Inl e) \<Rightarrow> (d\<lparr>dr_node := nd\<rparr>, Inl e)
                  | (nd, Inr _) \<Rightarrow> (d\<lparr>dr_node := nd, dr_volumes := fmupd name (new_state rec) (dr_volumes d)\<rparr>, Inr ()))))"

text \<open>A volume that is not in the registry but in the bucket is adopted.\<close>

definition lookup_volume ::
  "'s driver_env \<Rightarrow> int \<Rightarrow> file_write_outcome \<Rightarrow> string \<Rightarrow> 's Driver \<Rightarrow> 's Driver \<times> 's volumeState result" where
  "lookup_volume E now wrote name d =
     (case fmlookup (dr_volumes d) name of
        Some state \<Rightarrow> (d, Inr state)
      | None \<Rightarrow>
          if \<not> validName name then (d, invalid ''volume not found'')
          else
            (case Inspect (dv_wire E) (dv_remote E) name (dr_store d) of
               (s, Inl e) \<Rightarrow> (d\<lparr>dr_store := s\<rparr>, Inl (if errors_Is e ErrNotFound then Errorf ''volume not found'' else e))
             | (s, Inr (remoteState, _)) \<Rightarrow>
                 let opts = default_options\<lparr>vo_Size := s_Size remoteState, vo_Filesystem := Filesystem remoteState\<rparr>;
                     rec = \<lparr>rc_Name = name, rc_CreatedAt = now, rc_Options = opts\<rparr>
                 in (case saveRecord E wrote rec (dr_node d) of
                       (nd, Inl e) \<Rightarrow> (d\<lparr>dr_store := s, dr_node := nd\<rparr>, Inl e)
                     | (nd, Inr _) \<Rightarrow>
                         (d\<lparr>dr_store := s, dr_node := nd, dr_volumes := fmupd name (new_state rec) (dr_volumes d)\<rparr>, Inr (new_state rec)))))"

section \<open>Mounts of a volume\<close>

text \<open>The path is the joined one when the state directory is a clean path.\<close>

definition mountpoint :: "'s driver_env \<Rightarrow> string \<Rightarrow> string" where
  "mountpoint E name = dv_StateDir E @ ''/mounts/'' @ name"

definition replicaName :: "'s driver_env \<Rightarrow> string \<Rightarrow> string \<Rightarrow> string" where
  "replicaName E base mountID = base @ ''.r-'' @ hex_EncodeToString (take 6 (dv_sha256 E (string_bytes mountID)))"

definition new_mount :: "string \<Rightarrow> 's mountState" where
  "new_mount name =
     \<lparr>ms_name = name, ms_mountIDs = {||}, ms_active = False, ms_device = None, ms_syncer = None, ms_unmounter = None,
      ms_stopBeat = False, ms_fenced = None\<rparr>"

definition mountStateFor :: "'s driver_env \<Rightarrow> string \<Rightarrow> 's volumeState \<Rightarrow> 's mountState" where
  "mountStateFor E mountID state =
     (let base = rc_Name (vs_record state);
          name = (if PerReplica (rc_Options (vs_record state)) then replicaName E base mountID else base)
      in case fmlookup (vs_mounts state) name of None \<Rightarrow> new_mount name | Some mount \<Rightarrow> mount)"

text \<open>The mount is an object of the volume: what is done to it is seen in the volume.\<close>

definition put_mount :: "string \<Rightarrow> 's mountState \<Rightarrow> 's Driver \<Rightarrow> 's Driver" where
  "put_mount vol mount d =
     (case fmlookup (dr_volumes d) vol of
        None \<Rightarrow> d
      | Some state \<Rightarrow> d\<lparr>dr_volumes := fmupd vol (state\<lparr>vs_mounts := fmupd (ms_name mount) mount (vs_mounts state)\<rparr>) (dr_volumes d)\<rparr>)"

definition Driver_Mount ::
  "'s driver_env \<Rightarrow> int \<Rightarrow> file_write_outcome \<Rightarrow> mount_script \<Rightarrow> string \<Rightarrow> string \<Rightarrow> 's Driver \<Rightarrow> 's Driver \<times> string result" where
  "Driver_Mount E now wrote c name mountID d =
     (case lookup_volume E now wrote name d of
        (d1, Inl e) \<Rightarrow> (d1, Inl e)
      | (d1, Inr state) \<Rightarrow>
          let mount = mountStateFor E mountID state in
          (case ms_fenced mount of
             Some e \<Rightarrow> (put_mount name mount d1, invalid ''volume was fenced on this node'')
           | None \<Rightarrow>
               if ms_active mount
               then (put_mount name (mount\<lparr>ms_mountIDs := finsert mountID (ms_mountIDs mount)\<rparr>) d1, Inr (mountpoint E (ms_name mount)))
               else
                 (case mountFresh E c (rc_Options (vs_record state)) mount (dr_store d1) (dr_node d1) of
                    (m, s, nd, Inl e) \<Rightarrow> (put_mount name m (d1\<lparr>dr_store := s, dr_node := nd\<rparr>), Inl e)
                  | (m, s, nd, Inr _) \<Rightarrow>
                      (put_mount name (m\<lparr>ms_mountIDs := finsert mountID (ms_mountIDs m)\<rparr>) (d1\<lparr>dr_store := s, dr_node := nd\<rparr>),
                       Inr (mountpoint E (ms_name m))))))"

section \<open>Giving a mount up\<close>

definition mount_journal :: "'s mountState \<Rightarrow> Journal option" where
  "mount_journal mount = (case ms_syncer mount of None \<Rightarrow> None | Some y \<Rightarrow> sy_journal y)"

definition cleared :: "'s mountState \<Rightarrow> 's mountState" where
  "cleared mount =
     mount\<lparr>ms_active := False, ms_device := None, ms_syncer := None, ms_unmounter := None, ms_stopBeat := False\<rparr>"

text \<open>Everything in use for a volume is given up and its journal closed where it is.\<close>

definition give_up :: "closing \<Rightarrow> bool \<Rightarrow> 's mountState \<Rightarrow> node \<Rightarrow> node" where
  "give_up closing cleaned mount nd =
     (let name = ms_name mount; nd1 = close_if_open closing name (mount_journal mount) nd
      in cleanupLocal cleaned name
           (nd1\<lparr>nd_workers := nd_workers nd1 |-| {|name|}, nd_beats := nd_beats nd1 |-| {|name|},
              nd_mounts := nd_mounts nd1 |-| {|name|}, nd_devices := nd_devices nd1 |-| {|name|}\<rparr>))"

text \<open>\<open>fence\<close>. Abandoning the replicator makes it close its queue, which only it and its callers see.\<close>

definition fence :: "closing \<Rightarrow> bool \<Rightarrow> error \<Rightarrow> string \<Rightarrow> 's mountState \<Rightarrow> 's Driver \<Rightarrow> 's Driver" where
  "fence closing cleaned cause vol mount d =
     (if \<not> ms_active mount then d
      else put_mount vol ((cleared mount)\<lparr>ms_fenced := Some cause\<rparr>) (d\<lparr>dr_node := give_up closing cleaned mount (dr_node d)\<rparr>))"

section \<open>Unmounting\<close>

text \<open>
  The outcomes of one unmount. \<open>um_work\<close> is what the worker and the callers did to the replicator until
  the final request was answered, \<open>um_more\<close> the same for the request of \<open>Stop\<close>; \<open>um_result\<close> and \<open>um_last\<close>
  are the numbers the requests are answered under.
\<close>

record 's unmount_script =
  um_close :: close_script
  um_writes :: "(nat \<times> error option) list"
  um_ready :: nat
  um_result :: nat
  um_work :: "(LazyImage, 's) Syncer \<Rightarrow> (LazyImage, 's) Syncer"
  um_last_writes :: "(nat \<times> error option) list"
  um_last_ready :: nat
  um_last :: nat
  um_more :: "(LazyImage, 's) Syncer \<Rightarrow> (LazyImage, 's) Syncer"
  um_waits :: "unit result"
  um_device :: "unit result"
  um_lazyio :: fileio
  um_closing :: closing
  um_cleaned :: bool

text \<open>What a caller of the replicator returns: its answer, or that the replicator or the context ended.\<close>

definition answer_of :: "nat \<Rightarrow> ('h, 's) Syncer \<Rightarrow> unit result" where
  "answer_of n y =
     (case map_of (sy_answers y) n of
        Some None \<Rightarrow> Inr ()
      | Some (Some e) \<Rightarrow> Inl e
      | None \<Rightarrow> if sy_done y then invalid ''replicator stopped'' else Inl ContextError)"

definition abandonUnmounted ::
  "'s driver_env \<Rightarrow> 's unmount_script \<Rightarrow> error \<Rightarrow> 's mountState \<Rightarrow> 's \<Rightarrow> node \<Rightarrow> 's mountState \<times> 's \<times> node \<times> unit result" where
  "abandonUnmounted E c cause mount s nd =
     (let s' = (case ms_syncer mount of
                  None \<Rightarrow> s
                | Some y \<Rightarrow> (case Lease_Release (dv_wire E) (dv_remote E) (um_waits c) (sy_lease y) s of (_, s', _) \<Rightarrow> s'))
      in (cleared mount, s', give_up (um_closing c) (um_cleaned c) mount nd, Inl cause))"

text \<open>The end of \<open>unmountLast\<close>: the device and the journal are closed and the files removed.\<close>

definition finish_unmount ::
  "'s driver_env \<Rightarrow> 's unmount_script \<Rightarrow> 's mountState \<Rightarrow> 's \<Rightarrow> node \<Rightarrow> 's mountState \<times> 's \<times> node \<times> unit result" where
  "finish_unmount E c mount s nd =
     (let name = ms_name mount; close_device = Close (lazy_ops (dv_wire E) (um_lazyio c)) (um_device c);
          d = (case ms_syncer mount of Some y \<Rightarrow> sy_device y | None \<Rightarrow> the (ms_device mount))
      in case close_device d of (d', _, res) \<Rightarrow>
           let mount1 = (case ms_syncer mount of Some y \<Rightarrow> mount\<lparr>ms_syncer := Some (y\<lparr>sy_device := d'\<rparr>)\<rparr> | None \<Rightarrow> mount\<lparr>ms_device := Some d'\<rparr>);
               nd1 = nd\<lparr>nd_devices := nd_devices nd |-| {|name|}\<rparr>
           in case res of
                Inl e \<Rightarrow> (mount1, s, nd1, Inl e)
              | Inr _ \<Rightarrow>
                  (case mount_journal mount of
                     None \<Rightarrow> (cleared mount, s, cleanupLocal (um_cleaned c) name nd1, Inr ())
                   | Some j \<Rightarrow>
                       (case close_journal (um_closing c) True name j nd1 of
                          (j', nd2, Inl e) \<Rightarrow>
                            (mount1\<lparr>ms_syncer := map_option (\<lambda>y. y\<lparr>sy_journal := Some j'\<rparr>) (ms_syncer mount1)\<rparr>, s, nd2, Inl e)
                        | (_, nd2, Inr _) \<Rightarrow> (cleared mount, s, cleanupLocal (um_cleaned c) name nd2, Inr ()))))"

definition unmountLast ::
  "'s driver_env \<Rightarrow> 's unmount_script \<Rightarrow> 's mountState \<Rightarrow> 's \<Rightarrow> node \<Rightarrow> 's mountState \<times> 's \<times> node \<times> unit result" where
  "unmountLast E c mount s nd =
     (let name = ms_name mount in
      case Mount_Unmount (um_close c) (the (ms_unmounter mount)) of
        (u, Inl e) \<Rightarrow> (mount\<lparr>ms_unmounter := Some u\<rparr>, s, nd, Inl e)
      | (u, Inr _) \<Rightarrow>
          let mount1 = mount\<lparr>ms_unmounter := Some u\<rparr>; nd1 = nd\<lparr>nd_mounts := nd_mounts nd |-| {|name|}\<rparr> in
          (case ms_syncer mount of
             None \<Rightarrow> finish_unmount E c mount1 s nd1
           | Some y \<Rightarrow>
               let y1 = um_work c (SyncCheckpoint (dv_sync E) (um_writes c) (um_ready c) (um_result c) (y\<lparr>sy_store := s\<rparr>));
                   mount2 = mount1\<lparr>ms_syncer := Some y1\<rparr>
               in (case answer_of (um_result c) y1 of
                     Inl e \<Rightarrow> abandonUnmounted E c (Wrap ''final sync'' e) mount2 (sy_store y1) nd1
                   | Inr _ \<Rightarrow>
                       let nd2 = nd1\<lparr>nd_beats := nd_beats nd1 |-| {|name|}\<rparr>;
                           y2 = (if sy_stopped y1 then y1
                                 else um_more c (SyncCheckpoint (dv_sync E) (um_last_writes c) (um_last_ready c) (um_last c) y1))
                       in (case Syncer_Stop (dv_sync E) (answer_of (um_last c) y2) (um_waits c) y2 of
                             (y3, Inl e) \<Rightarrow> abandonUnmounted E c (Wrap ''release'' e) (mount1\<lparr>ms_syncer := Some y3\<rparr>) (sy_store y3) nd2
                           | (y3, Inr _) \<Rightarrow>
                               finish_unmount E c (mount1\<lparr>ms_syncer := Some y3\<rparr>) (sy_store y3)
                                 (nd2\<lparr>nd_workers := nd_workers nd2 |-| {|name|}\<rparr>)))))"

definition Driver_Unmount ::
  "'s driver_env \<Rightarrow> int \<Rightarrow> file_write_outcome \<Rightarrow> 's unmount_script \<Rightarrow> string \<Rightarrow> string \<Rightarrow> 's Driver \<Rightarrow> 's Driver \<times> unit result" where
  "Driver_Unmount E now wrote c name mountID d =
     (case lookup_volume E now wrote name d of
        (d1, Inl e) \<Rightarrow> (d1, Inl e)
      | (d1, Inr state) \<Rightarrow>
          let mount0 = mountStateFor E mountID state;
              mount = mount0\<lparr>ms_mountIDs := ms_mountIDs mount0 |-| {|mountID|}\<rparr>
          in if ms_fenced mount \<noteq> None then
               (put_mount name (if ms_mountIDs mount = {||} then mount\<lparr>ms_fenced := None\<rparr> else mount) d1, Inr ())
             else if \<not> ms_active mount \<or> ms_mountIDs mount \<noteq> {||} then (put_mount name mount d1, Inr ())
             else
               (case unmountLast E c mount (dr_store d1) (dr_node d1) of
                  (m, s, nd, res) \<Rightarrow> (put_mount name m (d1\<lparr>dr_store := s, dr_node := nd\<rparr>), res)))"

text \<open>\<open>Shutdown\<close>: \<open>order\<close> lists the mounts in the order the maps are walked, each with its outcomes.\<close>

fun Shutdown :: "'s driver_env \<Rightarrow> (string \<times> string \<times> 's unmount_script) list \<Rightarrow> 's Driver \<Rightarrow> 's Driver \<times> error list" where
  "Shutdown E [] d = (d, [])"
| "Shutdown E ((vol, name, c) # order) d =
     (case Option.bind (fmlookup (dr_volumes d) vol) (\<lambda>state. fmlookup (vs_mounts state) name) of
        None \<Rightarrow> Shutdown E order d
      | Some mount \<Rightarrow>
          if \<not> ms_active mount then Shutdown E order d
          else
            (case unmountLast E c mount (dr_store d) (dr_node d) of
               (m, s, nd, res) \<Rightarrow>
                 (case Shutdown E order (put_mount vol m (d\<lparr>dr_store := s, dr_node := nd\<rparr>)) of
                    (d', errs) \<Rightarrow> (d', (case res of Inl e \<Rightarrow> [e] | Inr _ \<Rightarrow> []) @ errs))))"

section \<open>Removing and describing\<close>

definition drop_files :: "bool \<Rightarrow> bool \<Rightarrow> string \<Rightarrow> node \<Rightarrow> node" where
  "drop_files cleaned removed name nd =
     (let nd1 = cleanupLocal cleaned name nd in if removed then nd1\<lparr>nd_journals := fmdrop name (nd_journals nd1)\<rparr> else nd1)"

definition Driver_Remove ::
  "'s driver_env \<Rightarrow> int \<Rightarrow> file_write_outcome \<Rightarrow> bool \<Rightarrow> bool \<Rightarrow> unit result \<Rightarrow> string \<Rightarrow> 's Driver \<Rightarrow> 's Driver \<times> unit result" where
  "Driver_Remove E now wrote cleaned removed unregistered name d =
     (case lookup_volume E now wrote name d of
        (d1, Inl e) \<Rightarrow> (d1, Inl e)
      | (d1, Inr state) \<Rightarrow>
          if fBex (fmran (vs_mounts state)) ms_active then (d1, invalid ''volume is mounted on this node'')
          else
            (case (if PerReplica (rc_Options (vs_record state)) then DeleteFamily (dv_wire E) (dv_remote E) (dv_mode E) now name (dr_store d1)
                   else Remote_Delete (dv_wire E) (dv_remote E) now name (dr_store d1)) of
               (s, res) \<Rightarrow>
                 if \<not> is_ok res \<and> \<not> errors_Is (projl res) ErrNotFound then (d1\<lparr>dr_store := s\<rparr>, res)
                 else
                   let names = sorted_list_of_set (fset (fmdom (vs_mounts state))) @ [name];
                       nd = fold (drop_files cleaned removed) names (dr_node d1)
                   in (case unregistered of
                         Inl e \<Rightarrow> (d1\<lparr>dr_store := s, dr_node := nd\<rparr>, Inl e)
                       | Inr _ \<Rightarrow>
                           (d1\<lparr>dr_store := s, dr_node := nd\<lparr>nd_records := fmdrop name (nd_records nd)\<rparr>, dr_volumes := fmdrop name (dr_volumes d1)\<rparr>,
                            Inr ()))))"

text \<open>What \<open>describe\<close> reports of the mounts of a volume: its mount point when there is exactly one, the
  names it is mounted as, and the causes of fenced mounts.\<close>

record volume_status =
  st_Name :: string
  st_Mountpoint :: string
  st_mounted_as :: "string list"
  st_fenced :: "error fset"

definition describe :: "'s driver_env \<Rightarrow> 's volumeState \<Rightarrow> volume_status" where
  "describe E state =
     (let mounted = sorted_list_of_set (fset (fmdom (fmfilter (\<lambda>name. (case fmlookup (vs_mounts state) name of None \<Rightarrow> False | Some m \<Rightarrow> ms_active m)) (vs_mounts state))));
          causes = fimage (\<lambda>m. the (ms_fenced m)) (ffilter (\<lambda>m. ms_fenced m \<noteq> None) (fmran (vs_mounts state)))
      in \<lparr>st_Name = rc_Name (vs_record state), st_Mountpoint = (if length mounted = 1 then mountpoint E (hd mounted) else []),
          st_mounted_as = mounted, st_fenced = causes\<rparr>)"

definition Driver_List :: "'s driver_env \<Rightarrow> 's Driver \<Rightarrow> volume_status list" where
  "Driver_List E d = map (\<lambda>name. describe E (the (fmlookup (dr_volumes d) name))) (sorted_list_of_set (fset (fmdom (dr_volumes d))))"

definition Driver_Get ::
  "'s driver_env \<Rightarrow> int \<Rightarrow> file_write_outcome \<Rightarrow> string \<Rightarrow> 's Driver \<Rightarrow> 's Driver \<times> volume_status result" where
  "Driver_Get E now wrote name d =
     (case lookup_volume E now wrote name d of
        (d1, Inl e) \<Rightarrow> (d1, Inl e)
      | (d1, Inr state) \<Rightarrow> (d1, Inr (describe E state)))"

definition Driver_Path ::
  "'s driver_env \<Rightarrow> int \<Rightarrow> file_write_outcome \<Rightarrow> string \<Rightarrow> 's Driver \<Rightarrow> 's Driver \<times> string result" where
  "Driver_Path E now wrote name d =
     (case lookup_volume E now wrote name d of
        (d1, Inl e) \<Rightarrow> (d1, Inl e)
      | (d1, Inr state) \<Rightarrow> (d1, Inr (st_Mountpoint (describe E state))))"

end
