(* ===== verification/DriverRun.thy ===== *)
theory DriverRun
  imports Driver
begin

text \<open>
  Lemmas on the driver's mounts: what a journal file on the node reads as, what every way to give a
  mount up leaves of the node, what the device of a successful mount serves, and what the final
  synchronisation of an unmount has published when it is answered.
\<close>

section \<open>Journal files\<close>

text \<open>A journal file, possibly cut off, that reads as the generations \<open>gs\<close>.\<close>

definition cut_journal :: "jcodec \<Rightarrow> bytes \<Rightarrow> Generation list \<Rightarrow> bool" where
  "cut_journal c bytes gs \<longleftrightarrow>
     (\<exists>m h k all. good_metadata c m \<and> journalHeader c m = Inr h \<and> journal_sequence m all \<and> length h \<le> k \<and>
        bytes = take k (h @ records_of c all) \<and> gs = map recovered (whole_records c (k - length h) all))"

lemma recovered_idem [simp]: "recovered (recovered g) = recovered g"
  by (simp add: recovered_def sortedBlocks_def)

lemma cut_journal_whole:
  assumes "good_metadata c m" "journalHeader c m = Inr h" "journal_sequence m gs" "map recovered gs = gs"
  shows "cut_journal c (h @ records_of c gs) gs"
proof -
  have "prefix gs (whole_records c (length (records_of c gs)) (gs @ []))" by (rule whole_records_all) simp
  then have "whole_records c (length (records_of c gs)) gs = gs"
    using whole_records_prefix [of c "length (records_of c gs)" gs] by (simp add: prefix_order.antisym)
  then show ?thesis using assms unfolding cut_journal_def
    by (intro exI [of _ m] exI [of _ h] exI [of _ "length (h @ records_of c gs)"] exI [of _ gs]) simp
qed

lemma cut_journal_opens:
  assumes "jcodec_ok c" "cut_journal c bytes gs"
  shows "\<exists>j. OpenJournal c (Inr ()) (Inr ()) bytes = Inr j \<and> Journal_Entries j = gs"
  using assms OpenJournal_cut [OF assms(1), where truncated = "Inr ()" and synced = "Inr ()"]
  by (auto simp: cut_journal_def Let_def Journal_Entries_def)

text \<open>An open journal whose file is in step with its entries.\<close>

definition in_step :: "jcodec \<Rightarrow> Journal \<Rightarrow> bool" where
  "in_step c j \<longleftrightarrow> \<not> jn_closed j \<and> journal_sequence (jn_metadata j) (jn_entries j) \<and> map recovered (jn_entries j) = jn_entries j \<and>
     cut_journal c (jn_file j) (jn_entries j)"

lemma OpenJournal_in_step:
  assumes "jcodec_ok c" "cut_journal c bytes gs" "OpenJournal c truncated synced bytes = Inr j"
  shows "in_step c j" "jn_entries j = gs"
proof -
  obtain m h k all where x: "good_metadata c m" "journalHeader c m = Inr h" "journal_sequence m all" "length h \<le> k"
    "bytes = take k (h @ records_of c all)" "gs = map recovered (whole_records c (k - length h) all)"
    using assms(2) by (auto simp: cut_journal_def)
  let ?hs = "whole_records c (k - length h) all"
  have j: "jn_metadata j = m" "jn_entries j = gs" "jn_file j = h @ records_of c gs" "\<not> jn_closed j"
    using assms(3) OpenJournal_cut [OF assms(1) x(1-4), of truncated synced]
    by (auto simp: x(5,6) Let_def new_journal_def split: if_splits)
  have s: "journal_sequence m gs" unfolding x(6) using journal_sequence_prefix [OF x(3) whole_records_prefix] by simp
  moreover have r: "map recovered gs = gs" by (simp add: x(6) comp_def)
  ultimately show "in_step c j" "jn_entries j = gs"
    using j cut_journal_whole [OF x(1,2) s r] by (simp_all add: in_step_def)
qed

lemma volume_blocks_same: "ValidateRecovery state j = Inr () \<Longrightarrow> journalMetadata state = Inr m \<Longrightarrow> volume_blocks m = volume_blocks (jn_metadata j)"
  by (auto simp: ValidateRecovery_def journalMetadata_def volume_blocks_def Let_def split: if_splits option.splits)

lemma Rebase_in_step:
  assumes "in_step c j" "ValidateRecovery state j = Inr ()" "\<And>m. journalMetadata state = Inr m \<Longrightarrow> good_metadata c m"
    "Rebase c io state j = (j', res)"
  shows "in_step c j'" "jn_entries j' = jn_entries j"
proof -
  have "in_step c j' \<and> jn_entries j' = jn_entries j"
  proof (cases "journalMetadata state")
    case (Inl e)
    then show ?thesis using assms(1,4) by (simp add: Rebase_def)
  next
    case (Inr m)
    note m = Inr and good = assms(3) [OF Inr]
    let ?j = "j\<lparr>jn_metadata := m\<rparr>"
    have seq: "journal_sequence m (jn_entries j)"
      using assms(1) journal_sequence_volume [OF volume_blocks_same [OF assms(2) m]] by (simp add: in_step_def)
    have new: "cut_journal c b (jn_entries j)" if "journal_content c m (jn_entries j) = Inr b" for b
      using journal_content_Inr [OF that] seq cut_journal_whole [OF good _ seq] assms(1) by (auto simp: journal_sequence_def in_step_def)
    show ?thesis
    proof (cases "journal_usable j")
      case (Inr u)
      then have r: "rewriteLocked c io ?j = (j', res)" using assms(4) m by (simp add: Rebase_def)
      show ?thesis
      proof (cases "journal_content c m (jn_entries j)")
        case (Inr b)
        then show ?thesis using r new [OF Inr] seq assms(1) by (cases io) (auto simp: rewriteLocked_def Let_def in_step_def)
      qed (use r seq assms(1) in \<open>auto simp: rewriteLocked_def in_step_def\<close>)
    qed (use assms(1,4) m in \<open>simp add: Rebase_def\<close>)
  qed
  then show "in_step c j'" "jn_entries j' = jn_entries j" by blast+
qed

section \<open>Giving up\<close>

definition used :: "string \<Rightarrow> node \<Rightarrow> bool" where
  "used name nd \<longleftrightarrow> name |\<in>| nd_beats nd \<or> name |\<in>| nd_workers nd \<or> name |\<in>| nd_devices nd \<or> name |\<in>| nd_open nd \<or> name |\<in>| nd_mounts nd"

lemma cleanupLocal_sel [simp]:
  "nd_beats (cleanupLocal b name nd) = nd_beats nd" "nd_workers (cleanupLocal b name nd) = nd_workers nd"
  "nd_devices (cleanupLocal b name nd) = nd_devices nd" "nd_open (cleanupLocal b name nd) = nd_open nd"
  "nd_mounts (cleanupLocal b name nd) = nd_mounts nd" "nd_journals (cleanupLocal b name nd) = nd_journals nd"
  by (simp_all add: cleanupLocal_def)

lemma close_if_open_sel [simp]:
  "nd_beats (close_if_open c name j nd) = nd_beats nd" "nd_workers (close_if_open c name j nd) = nd_workers nd"
  "nd_devices (close_if_open c name j nd) = nd_devices nd" "nd_mounts (close_if_open c name j nd) = nd_mounts nd"
  "nd_open (close_if_open c name j nd) = (if j = None then nd_open nd else nd_open nd |-| {|name|})"
  "nd_journals (close_if_open c name j nd) = (case j of Some x \<Rightarrow> if jn_closed x then nd_journals nd else fmupd name (jn_file x) (nd_journals nd) | None \<Rightarrow> nd_journals nd)"
  by (auto simp: close_if_open_def close_journal_def split: option.splits prod.splits)

lemma releaseOnFailure_sel:
  assumes "releaseOnFailure E c name journal lease cause s nd = (s', nd', res)"
  shows "res = Inl cause" "nd_beats nd' = nd_beats nd |-| {|name|}" "nd_workers nd' = nd_workers nd" "nd_devices nd' = nd_devices nd"
    "nd_mounts nd' = nd_mounts nd" "nd_open nd' = (if journal = None then nd_open nd else nd_open nd |-| {|name|})"
    "nd_journals nd' = (case journal of Some x \<Rightarrow> if jn_closed x then nd_journals nd else fmupd name (jn_file x) (nd_journals nd) | None \<Rightarrow> nd_journals nd)"
  using assms by (auto simp: releaseOnFailure_def Let_def split: prod.splits option.splits)

text \<open>What a mount that failed under the lease leaves: nothing in use, and the journal it had.\<close>

definition given_up :: "jcodec \<Rightarrow> string \<Rightarrow> Journal option \<Rightarrow> node \<Rightarrow> bool" where
  "given_up c name journal nd \<longleftrightarrow> \<not> used name nd \<and>
     (\<forall>j. journal = Some j \<longrightarrow> (\<exists>bytes. fmlookup (nd_journals nd) name = Some bytes \<and> cut_journal c bytes (jn_entries j)))"

lemma release_given_up:
  assumes "releaseOnFailure E c name journal lease cause s nd = (s', nd', res)"
    "name |\<notin>| nd_workers nd" "name |\<notin>| nd_devices nd" "name |\<notin>| nd_mounts nd" "journal = None \<longrightarrow> name |\<notin>| nd_open nd"
    "\<forall>j. journal = Some j \<longrightarrow> in_step (dv_jcodec E) j"
  shows "given_up (dv_jcodec E) name journal nd'"
  using releaseOnFailure_sel [OF assms(1)] assms(2-) by (auto simp: given_up_def used_def in_step_def split: if_splits)

lemma cleanup_given_up:
  assumes "cleanupMounted E c name journal lease cause s nd = (s', nd', res)"
    "name |\<notin>| nd_workers nd" "journal = None \<longrightarrow> name |\<notin>| nd_open nd" "\<forall>j. journal = Some j \<longrightarrow> in_step (dv_jcodec E) j"
  shows "given_up (dv_jcodec E) name journal nd'"
  by (rule release_given_up [OF assms(1) [unfolded cleanupMounted_def]]) (use assms(2-) in simp_all)

lemma adopt_journal_in_step:
  assumes "adopt_journal E c state journal = (journal', res)" "\<forall>j. journal = Some j \<longrightarrow> in_step (dv_jcodec E) j"
    "\<And>m. journalMetadata state = Inr m \<Longrightarrow> good_metadata (dv_jcodec E) m"
  shows "journal = None \<longleftrightarrow> journal' = None" "\<forall>j. journal' = Some j \<longrightarrow> in_step (dv_jcodec E) j"
    "\<forall>j j'. journal = Some j \<longrightarrow> journal' = Some j' \<longrightarrow> jn_entries j' = jn_entries j"
proof -
  have "(journal = None \<longleftrightarrow> journal' = None) \<and> (\<forall>j. journal' = Some j \<longrightarrow> in_step (dv_jcodec E) j) \<and>
      (\<forall>j j'. journal = Some j \<longrightarrow> journal' = Some j' \<longrightarrow> jn_entries j' = jn_entries j)"
  proof (cases journal)
    case None
    then show ?thesis using assms(1) by (simp add: adopt_journal_def)
  next
    case (Some j)
    show ?thesis
    proof (cases "ValidateRecovery state j")
      case (Inl e)
      then show ?thesis using assms(1,2) Some by (auto simp: adopt_journal_def)
    next
      case (Inr u)
      obtain j' r where r: "Rebase (dv_jcodec E) (mt_rebase c) state j = (j', r)" by fastforce
      have "in_step (dv_jcodec E) j'" "jn_entries j' = jn_entries j"
        using Rebase_in_step [OF _ _ assms(3) r] assms(2) Some Inr by auto
      moreover have "journal' = Some j'" using assms(1) Some Inr r by (cases r) (simp_all add: adopt_journal_def)
      ultimately show ?thesis using Some by simp
    qed
  qed
  then show "journal = None \<longleftrightarrow> journal' = None" "\<forall>j. journal' = Some j \<longrightarrow> in_step (dv_jcodec E) j"
    "\<forall>j j'. journal = Some j \<longrightarrow> journal' = Some j' \<longrightarrow> jn_entries j' = jn_entries j" by blast+
qed

lemma setup_image_sel:
  assumes "setup_image E c name lease nd = (lease', nd', res)"
  shows "nd_beats nd' = nd_beats nd" "nd_workers nd' = nd_workers nd" "nd_devices nd' = nd_devices nd" "nd_open nd' = nd_open nd"
    "nd_mounts nd' = nd_mounts nd" "nd_journals nd' = nd_journals nd" "ls_state lease' = ls_state lease"
  using assms by (auto simp: setup_image_def Let_def adoptPlan_def split: if_splits sum.splits prod.splits)

lemma created_file_sel:
  "nd_beats (created_file E c state name nd) = nd_beats nd" "nd_workers (created_file E c state name nd) = nd_workers nd"
  "nd_devices (created_file E c state name nd) = nd_devices nd" "nd_open (created_file E c state name nd) = nd_open nd"
  "nd_mounts (created_file E c state name nd) = nd_mounts nd"
  by (auto simp: created_file_def split: sum.splits prod.splits)

lemma start_volume_fails:
  assumes "start_volume E c opts name entries journal d lease s nd = (s', nd', res)" "res = Inl e" "name |\<notin>| nd_workers nd" "journal = None \<longrightarrow> name |\<notin>| nd_open nd"
  shows "given_up (dv_jcodec E) name journal nd'"
proof -
  have none: "LocalDurability opts" "journal = None" using assms(1,2) by (auto simp: start_volume_def split: if_splits)
  then obtain e1 where "CreateJournal (dv_jcodec E) (mt_create c) (ls_state lease) = Inl e1"
    using assms(1,2) none by (cases "CreateJournal (dv_jcodec E) (mt_create c) (ls_state lease)") (simp_all add: start_volume_def Let_def)
  then have "cleanupMounted E c name None lease (Wrap ''create local journal'' e1) s (created_file E c (ls_state lease) name nd) = (s', nd', res)"
    using assms(1) none by (simp add: start_volume_def)
  from cleanup_given_up [OF this] show ?thesis using assms(3,4) none by (simp add: created_file_sel)
qed

lemma mount_device_fails:
  assumes "mount_device E c opts name entries journal d lease s nd = (s', nd', res)" "res = Inl e"
    "name |\<notin>| nd_workers nd" "name |\<notin>| nd_devices nd" "name |\<notin>| nd_mounts nd" "journal = None \<longrightarrow> name |\<notin>| nd_open nd"
    "\<forall>j. journal = Some j \<longrightarrow> in_step (dv_jcodec E) j"
  shows "given_up (dv_jcodec E) name journal nd'"
proof -
  let ?nd1 = "nd\<lparr>nd_devices := finsert name (nd_devices nd)\<rparr>"
  let ?nd2 = "?nd1\<lparr>nd_mounts := finsert name (nd_mounts ?nd1), nd_dirs := finsert name (nd_dirs ?nd1)\<rparr>"
  show ?thesis
  proof (cases "Backend_Mount (Filesystem (ls_state lease)) (mt_mkdir c) (mt_attached c) (mt_mounted c)")
    case (Inl e1)
    then have "releaseOnFailure E c name journal lease e1 s (?nd1\<lparr>nd_devices := nd_devices ?nd1 |-| {|name|}\<rparr>) = (s', nd', res)"
      using assms(1) by (simp add: mount_device_def Let_def)
    from release_given_up [OF this] show ?thesis using assms(3-) by simp
  next
    case um: (Inr um)
    obtain lease' s2 r where v: "initialise_volume E c opts (mt_used c d) lease s = (lease', s2, r)" by (rule prod_cases3)
    show ?thesis
    proof (cases r)
      case (Inl e1)
      then have "cleanupMounted E c name journal lease' e1 s2 ?nd2 = (s', nd', res)"
        using assms(1) um v by (simp add: mount_device_def Let_def)
      from cleanup_given_up [OF this] show ?thesis using assms(3-) by simp
    next
      case (Inr d')
      then have "start_volume E c opts name entries journal d' lease' s2 ?nd2 = (s', nd', res)"
        using assms(1) um v by (simp add: mount_device_def Let_def)
      from start_volume_fails [OF this assms(2)] show ?thesis using assms(3-) by simp
    qed
  qed
qed

lemma given_up_same:
  assumes "given_up c name journal' nd" "journal = None \<longleftrightarrow> journal' = None"
    "\<forall>j j'. journal = Some j \<longrightarrow> journal' = Some j' \<longrightarrow> jn_entries j' = jn_entries j"
  shows "given_up c name journal nd"
proof -
  have "\<exists>bytes. fmlookup (nd_journals nd) name = Some bytes \<and> cut_journal c bytes (jn_entries j)" if j: "journal = Some j" for j
  proof -
    obtain j' where "journal' = Some j'" using assms(2) j by auto
    then show ?thesis using assms(1,3) j by (metis given_up_def)
  qed
  then show ?thesis using assms(1) by (simp add: given_up_def)
qed

lemma mount_leased_fails:
  assumes "mount_leased E c opts name journal lease s nd = (s', nd', res)" "res = Inl e"
    "name |\<notin>| nd_workers nd" "name |\<notin>| nd_devices nd" "name |\<notin>| nd_mounts nd" "journal = None \<longrightarrow> name |\<notin>| nd_open nd"
    "\<forall>j. journal = Some j \<longrightarrow> in_step (dv_jcodec E) j" "\<And>m. journalMetadata (ls_state lease) = Inr m \<Longrightarrow> good_metadata (dv_jcodec E) m"
  shows "given_up (dv_jcodec E) name journal nd'"
proof -
  let ?nd1 = "cleanupLocal (mt_cleaned c) name (nd\<lparr>nd_beats := finsert name (nd_beats nd)\<rparr>)"
  let ?entries = "case journal of None \<Rightarrow> [] | Some j \<Rightarrow> Journal_Entries j"
  obtain journal' r1 where a: "adopt_journal E c (ls_state lease) journal = (journal', r1)" by fastforce
  note j = adopt_journal_in_step [OF a assms(7,8)]
  obtain lease' nd2 r2 where i: "setup_image E c name lease ?nd1 = (lease', nd2, r2)" by (rule prod_cases3)
  have base: "name |\<notin>| nd_workers nd2" "name |\<notin>| nd_devices nd2" "name |\<notin>| nd_mounts nd2" "journal' = None \<longrightarrow> name |\<notin>| nd_open nd2"
    using setup_image_sel [OF i] assms(3-6) j(1) by auto
  consider e1 where "r1 = Inl e1" | u e1 where "r1 = Inr u" "r2 = Inl e1"
    | u img lazy where "r1 = Inr u" "r2 = Inr (img, lazy)" by (metis sumE prod.exhaust)
  then have "given_up (dv_jcodec E) name journal' nd'"
  proof cases
    case 1
    then have "releaseOnFailure E c name journal' lease e1 s ?nd1 = (s', nd', res)" using assms(1) a by (simp add: mount_leased_def)
    from release_given_up [OF this] show ?thesis using assms(3-6) j by simp
  next
    case 2
    then have "releaseOnFailure E c name journal' lease' e1 s nd2 = (s', nd', res)" using assms(1) a i by (simp add: mount_leased_def)
    from release_given_up [OF this] show ?thesis using base j by simp
  next
    case 3
    show ?thesis
    proof (cases "setup_device E c (ls_state lease) ?entries img lazy")
      case (Inl e1)
      then have "releaseOnFailure E c name journal' lease' e1 s nd2 = (s', nd', res)"
        using assms(1) a i 3 by (simp add: mount_leased_def)
      from release_given_up [OF this] show ?thesis using base j by simp
    next
      case (Inr d)
      then have "mount_device E c opts name ?entries journal' d lease' s nd2 = (s', nd', res)"
        using assms(1) a i 3 by (simp add: mount_leased_def)
      from mount_device_fails [OF this assms(2)] show ?thesis using base j by simp
    qed
  qed
  from given_up_same [OF this j(1,3)] show ?thesis .
qed

text \<open>The journal file of a volume reads as \<open>gs\<close>; no file stands for no generations.\<close>

definition reads_as :: "jcodec \<Rightarrow> node \<Rightarrow> string \<Rightarrow> Generation list \<Rightarrow> bool" where
  "reads_as c nd name gs \<longleftrightarrow> (case fmlookup (nd_journals nd) name of None \<Rightarrow> gs = [] | Some bytes \<Rightarrow> cut_journal c bytes gs)"

lemma close_journal_not_used:
  assumes "close_journal c remove name j (nd\<lparr>nd_open := finsert name (nd_open nd), nd_journals := files\<rparr>) = (j', nd', res)" "\<not> used name nd"
  shows "\<not> used name nd'"
  using assms by (auto simp: close_journal_def used_def split: if_splits prod.splits)

lemma recover_journal_cases:
  assumes "recover_journal E c name s nd = (s', nd', res)" "\<not> used name nd" "jcodec_ok (dv_jcodec E)" "reads_as (dv_jcodec E) nd name gs"
  shows "case res of
      Inl e \<Rightarrow> \<not> used name nd' \<and> (gs \<noteq> [] \<longrightarrow> reads_as (dv_jcodec E) nd' name gs)
    | Inr None \<Rightarrow> \<not> used name nd' \<and> gs = []
    | Inr (Some j) \<Rightarrow> nd_beats nd' = nd_beats nd \<and> nd_workers nd' = nd_workers nd \<and> nd_devices nd' = nd_devices nd \<and> nd_mounts nd' = nd_mounts nd \<and>
        in_step (dv_jcodec E) j \<and> jn_entries j = gs"
proof (cases "fmlookup (nd_journals nd) name")
  case None
  then show ?thesis using assms by (auto simp: recover_journal_def reads_as_def)
next
  case (Some bytes)
  show ?thesis
  proof (cases "bindR (mt_open c) (\<lambda>_. OpenJournal (dv_jcodec E) (fst (mt_torn c)) (snd (mt_torn c)) bytes)")
    case (Inl e)
    then show ?thesis using assms Some by (auto simp: recover_journal_def)
  next
    case (Inr j)
    then have o: "OpenJournal (dv_jcodec E) (fst (mt_torn c)) (snd (mt_torn c)) bytes = Inr j" by auto
    have cut: "cut_journal (dv_jcodec E) bytes gs" using assms(4) Some by (simp add: reads_as_def)
    note st = OpenJournal_in_step [OF assms(3) cut o]
    let ?nd1 = "nd\<lparr>nd_open := finsert name (nd_open nd), nd_journals := fmupd name (jn_file j) (nd_journals nd)\<rparr>"
    show ?thesis
    proof (cases "gs = []")
      case True
      obtain j2 nd2 r2 where "close_journal (mt_closing c) True name j ?nd1 = (j2, nd2, r2)" by (rule prod_cases3)
      then show ?thesis
        using assms(1,2) Some Inr st(2) True close_journal_not_used [where c = "mt_closing c" and remove = True and nd = nd]
        by (cases r2) (auto simp: recover_journal_def Let_def Journal_Entries_def)
    next
      case False
      obtain s1 r1 where i: "Inspect (dv_wire E) (dv_remote E) name s = (s1, r1)" by fastforce
      have closed: "\<not> used name (close_if_open (mt_closing c) name (Some j) ?nd1)"
        "reads_as (dv_jcodec E) (close_if_open (mt_closing c) name (Some j) ?nd1) name gs"
        using assms(2) st by (auto simp: used_def reads_as_def in_step_def)
      show ?thesis
        using assms(1) Some Inr st False i closed
        by (cases r1) (auto simp: recover_journal_def Let_def Journal_Entries_def split: sum.splits)
    qed
  qed
qed

lemma mount_writable_fails:
  assumes "mount_writable E c opts name s nd = (s', nd', res)" "res = Inl e" "\<not> used name nd"
    and "jcodec_ok (dv_jcodec E)" "reads_as (dv_jcodec E) nd name gs"
    and good: "\<And>s1 s2 lease new m. Acquire (dv_wire E) (dv_remote E) (mt_now c) (mt_uuid c) (mt_token c) name (dv_NodeID E)
           \<lparr>co_Size = vo_Size opts, co_Filesystem = vo_Filesystem opts\<rparr> s1 = (s2, Inr (lease, new)) \<Longrightarrow>
         journalMetadata (ls_state lease) = Inr m \<Longrightarrow> good_metadata (dv_jcodec E) m"
  shows "\<not> used name nd' \<and> (LocalDurability opts \<and> gs \<noteq> [] \<longrightarrow> reads_as (dv_jcodec E) nd' name gs)"
proof -
  let ?jc = "dv_jcodec E"
  obtain s1 nd1 r1 where j: "(if LocalDurability opts then recover_journal E c name s nd else (s, nd, Inr None)) = (s1, nd1, r1)"
    by (rule prod_cases3)
  note rec = recover_journal_cases [OF _ assms(3-5), of c s s1 nd1 r1]
  show ?thesis
  proof (cases r1)
    case (Inl e1)
    then show ?thesis using assms(1,2) j rec by (auto simp: mount_writable_def split: if_splits)
  next
    case (Inr journal)
    have some: "\<forall>x. journal = Some x \<longrightarrow> in_step ?jc x \<and> jn_entries x = gs"
      and none: "journal = None \<longrightarrow> \<not> used name nd1 \<and> (LocalDurability opts \<longrightarrow> gs = [])"
      and beats: "name |\<notin>| nd_beats nd1" and free: "name |\<notin>| nd_workers nd1" "name |\<notin>| nd_devices nd1" "name |\<notin>| nd_mounts nd1"
      using j Inr assms(3) rec by (cases journal; auto simp: used_def split: if_splits)+
    obtain s2 r2 where a: "Acquire (dv_wire E) (dv_remote E) (mt_now c) (mt_uuid c) (mt_token c) name (dv_NodeID E)
           \<lparr>co_Size = vo_Size opts, co_Filesystem = vo_Filesystem opts\<rparr> s1 = (s2, r2)" by fastforce
    have "given_up ?jc name journal nd'"
    proof (cases r2)
      case (Inl e1)
      then have "nd' = close_if_open (mt_closing c) name journal nd1" using assms(1) j Inr \<open>r1 = Inr journal\<close> a by (simp add: mount_writable_def)
      then show ?thesis using some none free beats
        by (cases journal) (auto simp: given_up_def used_def in_step_def)
    next
      case (Inr p)
      obtain lease new where "r2 = Inr (lease, new)" using Inr by (cases p) auto
      then have "mount_leased E c opts name journal lease s2 nd1 = (s', nd', res)" "\<And>m. journalMetadata (ls_state lease) = Inr m \<Longrightarrow> good_metadata ?jc m"
        using assms(1) j \<open>r1 = Inr journal\<close> a good by (auto simp: mount_writable_def)
      from mount_leased_fails [OF this(1) assms(2) free _ _ this(2)] show ?thesis using some none by (auto simp: used_def)
    qed
    then show ?thesis using some none by (cases journal) (auto simp: given_up_def reads_as_def)
  qed
qed

lemma mountReadOnly_fails:
  assumes "mountReadOnly E c name s nd = (s', nd', res)" "res = Inl e"
  shows "nd_beats nd' = nd_beats nd" "nd_workers nd' = nd_workers nd" "nd_open nd' = nd_open nd" "nd_journals nd' = nd_journals nd"
    "nd_devices nd' = nd_devices nd" "nd_mounts nd' = nd_mounts nd"
  using assms by (auto simp: mountReadOnly_def Let_def split: prod.splits sum.splits if_splits)

section \<open>The device of a mount\<close>

lemma prepared_device:
  assumes "PrepareLazyRestore w get later_get creates state = Inr (img, l)" "s_Size state < 2 ^ 63"
    and "\<forall>refs. restorePlan w get state = Inr refs \<longrightarrow> second_preimage_free w payload refs"
    and "OpenDevice (Inr img) (s_Size state) limit = Inr d"
  defines "d1 \<equiv> SetDirtyObserver (SetLazyImage (Some l) d)"
  shows "lazy_run_inv w payload (plan_image w payload (l_refs l), [], d1)" "\<not> d_closed d1" "d_active d1 = fmempty" "d_size d1 = s_Size state"
    "lazy_content w payload d1 i = plan_image w payload (l_refs l) i"
proof -
  note P = PrepareLazyRestore_inv [OF assms(1,2) assms(3) [rule_format]]
  have d: "0 < s_Size state" "s_Size state mod DefaultBlockSize = 0" "d_size d1 = s_Size state" "d_active d1 = fmempty" "\<not> d_closed d1"
    "d_hydrator d1 = Some l" "d_file d1 = empty_image" "blockPool d1 = []" "d_dirty d1 = 0"
    using assms(4) P(2) by (auto simp: d1_def OpenDevice_def SetDirtyObserver_def SetLazyImage_def split: if_splits)
  have c: "lazy_content w payload d1 i = plan_image w payload (l_refs l) i" for i
    using d P(5) [of i] by (auto simp: content_def lazy_source_def empty_image_def)
  have "lazy_run_inv w payload (plan_image w payload (l_refs l), [], d1)"
    using d P(1,3) assms(2) c by (simp add: run_inv_def dev_wf_def tracks_def balance_def active_bytes_def fmempty.rep_eq)
  with d c show "lazy_run_inv w payload (plan_image w payload (l_refs l), [], d1)" "\<not> d_closed d1" "d_active d1 = fmempty" "d_size d1 = s_Size state"
    "lazy_content w payload d1 i = plan_image w payload (l_refs l) i" by auto
qed

text \<open>The generations of a journal that was accepted for a volume can be replayed on its device.\<close>

lemma accepted_replayable:
  assumes "in_step c j" "ValidateRecovery state j = Inr ()" "s_BlockSize state = DefaultBlockSize" "s_Size state < 2 ^ 63" "0 < s_Size state"
    "d_size d = s_Size state" "set (order g) = fset (fmdom (gen_Blocks g))" "g \<in> set (jn_entries j)"
  shows "replayable order d g"
proof -
  have v: "volume_blocks (jn_metadata j) = word_of_int (s_Size state div DefaultBlockSize)"
    using assms(2,3) by (auto simp: ValidateRecovery_def volume_blocks_def Let_def split: if_splits)
  have small: "0 \<le> s_Size state div DefaultBlockSize" "s_Size state div DefaultBlockSize < 2 ^ 64"
    using assms(4,5) by (auto simp: DefaultBlockSize_def)
  have fits: "journal_fits (jn_metadata j) g" "recovered g = g"
    using assms(1,8) by (auto simp: in_step_def journal_sequence_def map_idI map_eq_conv list.map_ident_strong) (metis list.map_ident map_eq_conv)
  have "int (unat b) < d_size d div DefaultBlockSize" if "b \<in> fset (fmdom (gen_Blocks g))" for b
  proof -
    have "b < word_of_int (s_Size state div DefaultBlockSize)" using fits(1) that v by (simp add: journal_fits_def set_sortedBlocks)
    then have "uint b < uint (word_of_int (s_Size state div DefaultBlockSize) :: u64)" by (simp add: word_less_def)
    also have "\<dots> = s_Size state div DefaultBlockSize" using small by (simp add: uint_word_of_int)
    finally show ?thesis using assms(6) by simp
  qed
  moreover have "0 \<le> gen_bytes g" by (subst fits(2) [symmetric]) (simp add: recovered_def DefaultBlockSize_def)
  ultimately show ?thesis using fits(1) assms(7) by (simp add: replayable_def journal_fits_def)
qed

lemma handlers_content [simp]:
  "content res src (SetBackpressureHandler d) = content res src d" "dev_resident res (SetBackpressureHandler d) = dev_resident res d"
  by (auto simp: SetBackpressureHandler_def content_def dev_resident_def fun_eq_iff split: option.splits)

lemma handlers_run_inv [simp]:
  "run_inv res src hi hs (base, q, SetBackpressureHandler d) = run_inv res src hi hs (base, q, d)"
proof -
  have "d_size (SetBackpressureHandler d) = d_size d" "d_active (SetBackpressureHandler d) = d_active d" "d_dirty (SetBackpressureHandler d) = d_dirty d"
    "blockPool (SetBackpressureHandler d) = blockPool d" "d_hydrator (SetBackpressureHandler d) = d_hydrator d"
    by (simp_all add: SetBackpressureHandler_def)
  then show ?thesis by (simp add: run_inv_def dev_wf_def tracks_def balance_def active_bytes_def)
qed

lemma setup_device_serves:
  assumes "setup_device E c state gs img (Some l) = Inr d" "PrepareLazyRestore (dv_wire E) (mt_get c) (mt_later c) (mt_sparse c) state = Inr (img, l)"
    and "s_Generation state \<noteq> 0" "s_Size state < 2 ^ 63" "sound_io (mt_io c)"
    and "\<forall>refs. restorePlan (dv_wire E) (mt_get c) state = Inr refs \<longrightarrow> second_preimage_free (dv_wire E) payload refs"
    and "\<And>(d :: LazyImage Device) g. d_size d = s_Size state \<Longrightarrow> g \<in> set gs \<Longrightarrow> replayable (mt_order c) d g"
  shows "lazy_run_inv (dv_wire E) payload (plan_image (dv_wire E) payload (l_refs l), gs, d)"
    "int i < s_Size state \<Longrightarrow> lazy_content (dv_wire E) payload d i = apply_generations gs (plan_image (dv_wire E) payload (l_refs l)) i"
proof -
  let ?w = "dv_wire E" and ?ops = "lazy_ops (dv_wire E) (mt_lazyio c)"
  obtain d0 :: "LazyImage Device" where d0: "OpenDevice (Inr img) (s_Size state) (dv_MaxDirty E) = Inr d0"
    using assms(1) by (cases "mt_opened c"; cases "OpenDevice (Inr img) (s_Size state) (dv_MaxDirty E) :: LazyImage Device result")
      (simp_all add: setup_device_def OpenDevice_def split: if_splits)
  let ?d1 = "SetDirtyObserver (SetLazyImage (Some l) d0)"
  note P = prepared_device [OF assms(2,4,6) d0]
  obtain d2 evs where r: "Replay ?ops (mt_io c) (mt_order c) gs ?d1 = (d2, evs, Inr ())" "lazy_run_inv ?w payload (plan_image ?w payload (l_refs l), gs, d2)"
    "\<And>i. int i < d_size ?d1 \<Longrightarrow> lazy_content ?w payload d2 i = apply_generations gs (lazy_content ?w payload ?d1) i"
    using lazy.Replay_inv [OF assms(5) _ P(2,1,3), of gs "mt_order c" "mt_lazyio c"] assms(7) P(4) by blast
  have o: "bindR (mt_opened c) (\<lambda>_. Inr img) = Inr img"
    using assms(1) by (cases "mt_opened c") (auto simp: setup_device_def OpenDevice_def split: if_splits)
  have d: "d = SetBackpressureHandler (if gs = [] then ?d1 else d2)"
    using assms(1) unfolding setup_device_def o d0 bindR_simps using r(1) assms(3) by (simp add: Let_def split: if_splits)
  have base: "lazy_content ?w payload ?d1 = plan_image ?w payload (l_refs l)" using P(5) by blast
  show "lazy_run_inv ?w payload (plan_image ?w payload (l_refs l), gs, d)" unfolding d using r(2) P(1) by simp
  show "int i < s_Size state \<Longrightarrow> lazy_content ?w payload d i = apply_generations gs (plan_image ?w payload (l_refs l)) i"
    unfolding d using r(3) [of i] P(4) base by simp
qed

section \<open>Successful mounts\<close>

lemma releaseOnFailure_Inr [simp]: "releaseOnFailure E c name journal lease cause s nd \<noteq> (s', nd', Inr x)"
  by (auto simp: releaseOnFailure_def Let_def split: prod.splits)

lemma cleanupMounted_Inr [simp]: "cleanupMounted E c name journal lease cause s nd \<noteq> (s', nd', Inr x)"
  by (simp add: cleanupMounted_def releaseOnFailure_Inr)

lemma start_volume_Inr:
  assumes "start_volume E c opts name entries journal d lease s nd = (s', nd', Inr y)"
  shows "\<exists>j. y = start_replication E opts entries j d lease s \<and>
    (if LocalDurability opts \<and> journal = None then (\<exists>x. CreateJournal (dv_jcodec E) (mt_create c) (ls_state lease) = Inr x \<and> j = Some x) else j = journal)"
proof (cases "LocalDurability opts \<and> journal = None")
  case True
  then show ?thesis using assms
    by (cases "CreateJournal (dv_jcodec E) (mt_create c) (ls_state lease)") (auto simp: start_volume_def Let_def)
qed (use assms in \<open>auto simp: start_volume_def\<close>)

lemma mount_device_Inr:
  assumes "mount_device E c opts name entries journal d lease s nd = (s', nd', Inr y)"
  shows "\<exists>lease' s2 d' nd2. initialise_volume E c opts (mt_used c d) lease s = (lease', s2, Inr d') \<and>
    start_volume E c opts name entries journal d' lease' s2 nd2 = (s', nd', Inr y)"
proof -
  obtain um where um: "Backend_Mount (Filesystem (ls_state lease)) (mt_mkdir c) (mt_attached c) (mt_mounted c) = Inr um"
    using assms
    by (cases "Backend_Mount (Filesystem (ls_state lease)) (mt_mkdir c) (mt_attached c) (mt_mounted c)") (auto simp: mount_device_def Let_def)
  obtain lease' s2 r where v: "initialise_volume E c opts (mt_used c d) lease s = (lease', s2, r)" by (rule prod_cases3)
  show ?thesis using assms um v by (cases r) (auto simp: mount_device_def Let_def)
qed

lemma mount_leased_Inr:
  assumes "mount_leased E c opts name journal lease s nd = (s', nd', Inr y)"
  defines "entries \<equiv> case journal of None \<Rightarrow> [] | Some j \<Rightarrow> Journal_Entries j"
  shows "\<exists>journal' lease' nd1 nd2 img lazy d. adopt_journal E c (ls_state lease) journal = (journal', Inr ()) \<and>
    setup_image E c name lease nd1 = (lease', nd2, Inr (img, lazy)) \<and> setup_device E c (ls_state lease) entries img lazy = Inr d \<and>
    mount_device E c opts name entries journal' d lease' s nd2 = (s', nd', Inr y)"
proof -
  let ?nd1 = "cleanupLocal (mt_cleaned c) name (nd\<lparr>nd_beats := finsert name (nd_beats nd)\<rparr>)"
  obtain journal' r1 where a: "adopt_journal E c (ls_state lease) journal = (journal', r1)" by fastforce
  obtain lease' nd2 r2 where i: "setup_image E c name lease ?nd1 = (lease', nd2, r2)" by (rule prod_cases3)
  obtain u where u: "r1 = Inr u" using assms(1) a by (cases r1) (auto simp: mount_leased_def Let_def)
  obtain img lazy where p: "r2 = Inr (img, lazy)"
    using assms(1) a u i by (cases r2) (auto simp: mount_leased_def Let_def)
  obtain d where d: "setup_device E c (ls_state lease) entries img lazy = Inr d"
    using assms a u i p by (cases "setup_device E c (ls_state lease) entries img lazy") (auto simp: mount_leased_def Let_def)
  have "mount_device E c opts name entries journal' d lease' s nd2 = (s', nd', Inr y)"
    using assms a u i p d by (simp add: mount_leased_def Let_def)
  then show ?thesis using a u i p d by (metis (full_types) old.unit.exhaust)
qed

lemma mount_writable_Inr:
  assumes "mount_writable E c opts name s nd = (s', nd', Inr y)"
  shows "\<exists>s1 nd1 journal s2 lease new. (if LocalDurability opts then recover_journal E c name s nd else (s, nd, Inr None)) = (s1, nd1, Inr journal) \<and>
    Acquire (dv_wire E) (dv_remote E) (mt_now c) (mt_uuid c) (mt_token c) name (dv_NodeID E)
      \<lparr>co_Size = vo_Size opts, co_Filesystem = vo_Filesystem opts\<rparr> s1 = (s2, Inr (lease, new)) \<and>
    mount_leased E c opts name journal lease s2 nd1 = (s', nd', Inr y)"
proof -
  obtain s1 nd1 r1 where j: "(if LocalDurability opts then recover_journal E c name s nd else (s, nd, Inr None)) = (s1, nd1, r1)"
    by (rule prod_cases3)
  obtain s2 r2 where a: "Acquire (dv_wire E) (dv_remote E) (mt_now c) (mt_uuid c) (mt_token c) name (dv_NodeID E)
           \<lparr>co_Size = vo_Size opts, co_Filesystem = vo_Filesystem opts\<rparr> s1 = (s2, r2)" by fastforce
  show ?thesis using assms j a by (cases r1; cases r2) (auto simp: mount_writable_def)
qed

lemma adopt_journal_Inr:
  assumes "adopt_journal E c state (Some j) = (journal', Inr u)"
  shows "ValidateRecovery state j = Inr ()" "\<exists>j'. journal' = Some j' \<and> jn_entries j' = jn_entries j"
proof -
  obtain j' r where r: "Rebase (dv_jcodec E) (mt_rebase c) state j = (j', r)" by fastforce
  then have "jn_entries j' = jn_entries j"
    by (auto simp: Rebase_def rewriteLocked_def Let_def split: sum.splits rewrite_io.splits)
  then show "ValidateRecovery state j = Inr ()" "\<exists>j'. journal' = Some j' \<and> jn_entries j' = jn_entries j"
    using assms r by (auto simp: adopt_journal_def split: sum.splits)
qed

lemma EnqueueRecovered_sel:
  "\<not> sy_closed y \<Longrightarrow> sy_requests (EnqueueRecovered gs y) =
     sy_requests y @ map (\<lambda>g. \<lparr>rq_generation = Some g, rq_checkpoint = False, rq_result = None, rq_ready = None\<rparr>) gs \<and>
   sy_device (EnqueueRecovered gs y) = sy_device y \<and> sy_journal (EnqueueRecovered gs y) = sy_journal y \<and> sy_lease (EnqueueRecovered gs y) = sy_lease y"
proof (induction gs arbitrary: y)
  case (Cons g gs)
  let ?y = "enqueue \<lparr>rq_generation = Some g, rq_checkpoint = False, rq_result = None, rq_ready = None\<rparr> False y"
  have "EnqueueRecovered (g # gs) y = EnqueueRecovered gs ?y" by (simp add: EnqueueRecovered_def)
  then show ?case using Cons.IH [of ?y] Cons.prems by (simp add: enqueue_def)
qed (simp add: EnqueueRecovered_def)

lemma start_replication_sel:
  fixes E opts gs j d lease s
  defines "y \<equiv> start_replication E opts gs j d lease s"
  assumes "LocalDurability opts"
  shows "map rq_generation (sy_requests y) = map Some gs" "sy_journal y = j" "sy_lease y = lease"
    "sy_device y = SetDurableFlushHandler (SetBackpressureHandler (SetDirtyHandler (min (dv_MaxDirty E div 4) (32 * 2 ^ 20)) d))"
proof -
  have "\<not> RemoteDurability opts" using assms(2) by (simp add: LocalDurability_def RemoteDurability_def)
  then show "map rq_generation (sy_requests y) = map Some gs" "sy_journal y = j" "sy_lease y = lease"
    "sy_device y = SetDurableFlushHandler (SetBackpressureHandler (SetDirtyHandler (min (dv_MaxDirty E div 4) (32 * 2 ^ 20)) d))"
    by (auto simp: y_def start_replication_def Let_def StartSyncer_def Notify_def EnqueueRecovered_sel comp_def)
qed

text \<open>The device holds the published volume with the generations \<open>gs\<close> on top, and accounts for them.\<close>

definition serves ::
  "wire \<Rightarrow> (string \<Rightarrow> bytes) \<Rightarrow> getter \<Rightarrow> State \<Rightarrow> Generation list \<Rightarrow> LazyImage Device \<Rightarrow> bool" where
  "serves w payload get state gs d \<longleftrightarrow>
     (\<forall>io creates schedule full. (\<forall>refs. mset (schedule refs) = mset refs) \<longrightarrow> RestoreState w get io creates schedule state = Inr full \<longrightarrow>
        lazy_run_inv w payload (full, gs, d) \<and> (\<forall>i. int i < s_Size state \<longrightarrow> lazy_content w payload d i = apply_generations gs full i))"

definition with_handlers :: "'s driver_env \<Rightarrow> LazyImage Device \<Rightarrow> LazyImage Device" where
  "with_handlers E d = SetDurableFlushHandler (SetBackpressureHandler (SetDirtyHandler (min (dv_MaxDirty E div 4) (32 * 2 ^ 20)) d))"

lemma prepared_serves:
  assumes "setup_device E c state gs img (Some l) = Inr d" "PrepareLazyRestore (dv_wire E) (mt_get c) (mt_later c) (mt_sparse c) state = Inr (img, l)"
    and "s_Generation state \<noteq> 0" "s_Size state < 2 ^ 63" "sound_io (mt_io c)"
    and digests: "\<And>refs. restorePlan (dv_wire E) (mt_get c) state = Inr refs \<Longrightarrow> second_preimage_free (dv_wire E) payload refs"
    and "\<And>(d :: LazyImage Device) g. d_size d = s_Size state \<Longrightarrow> g \<in> set gs \<Longrightarrow> replayable (mt_order c) d g"
  shows "serves (dv_wire E) payload (mt_get c) state gs d"
  unfolding serves_def
proof (intro allI impI)
  fix io creates schedule full
  assume f: "\<forall>refs. mset (schedule refs) = mset refs" "RestoreState (dv_wire E) (mt_get c) io creates schedule state = Inr full"
  have d: "\<forall>refs. restorePlan (dv_wire E) (mt_get c) state = Inr refs \<longrightarrow> second_preimage_free (dv_wire E) payload refs" using digests by blast
  have "restorePlan (dv_wire E) (mt_get c) state = Inr (l_refs l)" using assms(2) by (auto simp: PrepareLazyRestore_def createSparseImage_def)
  then have "full = plan_image (dv_wire E) payload (l_refs l)" using RestoreState_image(1) [OF f(2) f(1) [rule_format] digests] by blast
  then show "lazy_run_inv (dv_wire E) payload (full, gs, d) \<and> (\<forall>i. int i < s_Size state \<longrightarrow> lazy_content (dv_wire E) payload d i = apply_generations gs full i)"
    using setup_device_serves [OF assms(1-5) d assms(7)] by simp
qed

lemma mount_leased_serves:
  assumes "mount_leased E c opts name journal lease s nd = (s', nd', Inr y)" "LocalDurability opts"
    and step: "\<forall>j. journal = Some j \<longrightarrow> in_step (dv_jcodec E) j"
    and "sound_io (mt_io c)" and order: "\<And>g. set (mt_order c g) = fset (fmdom (gen_Blocks g))"
    and digests: "\<forall>refs. restorePlan (dv_wire E) (mt_get c) (ls_state lease) = Inr refs \<longrightarrow> second_preimage_free (dv_wire E) payload refs"
  defines "gs \<equiv> case journal of None \<Rightarrow> [] | Some j \<Rightarrow> Journal_Entries j"
  shows "map rq_generation (sy_requests y) = map Some gs"
    and "s_Generation (ls_state lease) \<noteq> 0 \<Longrightarrow> s_Size (ls_state lease) < 2 ^ 63 \<Longrightarrow>
      \<exists>d. sy_device y = with_handlers E (mt_used c d) \<and> serves (dv_wire E) payload (mt_get c) (ls_state lease) gs d"
proof -
  let ?w = "dv_wire E" and ?state = "ls_state lease"
  from mount_leased_Inr [OF assms(1), folded gs_def] obtain journal' lease' nd2 nd3 img lazy d where
    ad: "adopt_journal E c ?state journal = (journal', Inr ())" and im: "setup_image E c name lease nd2 = (lease', nd3, Inr (img, lazy))" and
    d: "setup_device E c ?state gs img lazy = Inr d" and md: "mount_device E c opts name gs journal' d lease' s nd3 = (s', nd', Inr y)" by blast
  from mount_device_Inr [OF md] obtain lease2 s3 d' nd4 where
    iv: "initialise_volume E c opts (mt_used c d) lease' s = (lease2, s3, Inr d')" and
    sv: "start_volume E c opts name gs journal' d' lease2 s3 nd4 = (s', nd', Inr y)" by blast
  from start_volume_Inr [OF sv] obtain j2 where "y = start_replication E opts gs j2 d' lease2 s3" by blast
  note sel = start_replication_sel [OF assms(2), of E gs j2 d' lease2 s3, folded this]
  show "map rq_generation (sy_requests y) = map Some gs" by (rule sel(1))
  assume g: "s_Generation ?state \<noteq> 0" "s_Size ?state < 2 ^ 63"
  obtain l where l: "lazy = Some l" "PrepareLazyRestore ?w (mt_get c) (mt_later c) (mt_sparse c) ?state = Inr (img, l)"
    using im g(1) by (auto simp: setup_image_def Let_def split: sum.splits prod.splits)
  then have v: "validateState ?w (s_Name ?state) ?state = Inr ()" by (auto simp: PrepareLazyRestore_def)
  have rep: "replayable (mt_order c) d0 x" if sz: "d_size d0 = s_Size ?state" and x: "x \<in> set gs" for d0 :: "LazyImage Device" and x
  proof -
    obtain k where k: "journal = Some k" using x by (cases journal) (auto simp: gs_def)
    have "ValidateRecovery ?state k = Inr ()" "x \<in> set (jn_entries k)" using adopt_journal_Inr(1) ad x k by (auto simp: gs_def Journal_Entries_def)
    from accepted_replayable [OF step [rule_format, OF k] this(1) validateState_geometry(1) [OF v] g(2) validateState_geometry(2) [OF v] sz _ this(2), where order = "mt_order c"]
    show ?thesis using order by blast
  qed
  have "d' = mt_used c d" using iv g(1) setup_image_sel(7) [OF im] by (simp add: initialise_volume_def)
  then show "\<exists>d. sy_device y = with_handlers E (mt_used c d) \<and> serves ?w payload (mt_get c) ?state gs d"
    using sel(4) prepared_serves [OF d [unfolded l(1)] l(2) g assms(4) digests [rule_format] rep] by (auto simp: with_handlers_def)
qed

section \<open>Unmounting\<close>

text \<open>The final request of an unmount, as a step of the replicator.\<close>

definition final_request :: "'s driver_env \<Rightarrow> 's unmount_script \<Rightarrow> (LazyImage, 's) srun \<Rightarrow> (LazyImage, 's) srun" where
  "final_request E c r =
     (let y = SyncCheckpoint (dv_sync E) (um_writes c) (um_ready c) (um_result c) (sr_syncer r) in
      note_requests (added (sr_syncer r) y) (r\<lparr>sr_syncer := y\<rparr>))"

lemma SyncCheckpoint_added:
  assumes "\<not> sy_closed y"
  shows "\<exists>rq. added y (SyncCheckpoint E writes ready n y) = [rq] \<and> rq_result rq = Some n"
proof -
  obtain g d where g: "sealLocked (sy_device y) = (g, d)" by fastforce
  obtain rq y1 where p: "prepareLocalGeneration E writes ready g (y\<lparr>sy_device := d\<rparr>) = (rq, y1)" by fastforce
  have "sy_requests y1 = sy_requests y" "sy_closed y1 = sy_closed y"
    using p by (auto simp: prepareLocalGeneration_def split: option.splits if_splits prod.splits)
  then show ?thesis using assms g p by (simp add: SyncCheckpoint_def Syncer_request_def enqueue_def added_def)
qed

lemma sr_upto_step:
  assumes "syncer_step E r r'" "syncer_inv r" "sr_upto r n = Some gs"
  shows "sr_upto r' n = Some gs"
  using assms(1)
proof cases
  case (called s')
  then have "n \<notin> set (results_of (added (sr_syncer r) s'))" using assms(3) by (auto simp: fresh_results_def)
  then show ?thesis using called(1) assms(3) by (simp add: note_requests_facts(4))
next
  case (took script ready t rqs s')
  have "\<not> sy_closed (sr_syncer r)" using assms(2) took(3) by (simp add: syncer_inv_def Let_def)
  then have "results_of (if sy_requests (sr_syncer r) = [] then rqs else []) = []" using run_take_takes [OF took(4)] by auto
  then show ?thesis using took(1) assms(3) by (simp add: note_requests_facts(4))
qed (use assms(3) in simp_all)

lemma sr_upto_run:
  "(syncer_step E)\<^sup>*\<^sup>* r r' \<Longrightarrow> syncer_inv r \<Longrightarrow> sr_upto r n = Some gs \<Longrightarrow> sr_upto r' n = Some gs"
proof (induction rule: rtranclp_induct)
  case (step r1 r2)
  then show ?case using sr_upto_step syncer_inv_run by metis
qed simp

text \<open>When the final request is answered with success, everything that was queued or not yet sealed
  before it has been published.\<close>

lemma final_request_published:
  assumes "(syncer_step (dv_sync E))\<^sup>*\<^sup>* (final_request E c r) r1" "syncer_inv r" "\<not> sy_done (sr_syncer r)" "sr_upto r (um_result c) = None"
    and "(um_result c, None) \<in> set (sy_answers (sr_syncer r1))"
  shows "prefix (sr_queued (final_request E c r)) (sy_released (sr_syncer r1))" "prefix (sr_queued r) (sr_queued (final_request E c r))"
proof -
  let ?y = "SyncCheckpoint (dv_sync E) (um_writes c) (um_ready c) (um_result c) (sr_syncer r)"
  have open_queue: "\<not> sy_closed (sr_syncer r)" using assms(2,3) by (simp add: syncer_inv_def Let_def)
  from SyncCheckpoint_added [OF this] obtain rq where rq: "added (sr_syncer r) ?y = [rq]" "rq_result rq = Some (um_result c)" by blast
  have f: "final_request E c r = note_requests [rq] (r\<lparr>sr_syncer := ?y\<rparr>)" using rq by (simp add: final_request_def Let_def)
  have "syncer_step (dv_sync E) r (final_request E c r)"
    unfolding final_request_def Let_def using assms(4) rq
    by (intro called client_op.intros(5)) (simp add: fresh_results_def domIff)
  then have inv: "syncer_inv (final_request E c r)" using syncer_inv_run [OF r_into_rtranclp assms(2)] by blast
  have up: "sr_upto (final_request E c r) (um_result c) = Some (sr_queued (final_request E c r))" using rq(2) by (simp add: f)
  have "sr_upto r1 (um_result c) = Some (sr_queued (final_request E c r))" by (rule sr_upto_run [OF assms(1) inv up])
  moreover have "syncer_inv r1" by (rule syncer_inv_run [OF assms(1) inv])
  ultimately show "prefix (sr_queued (final_request E c r)) (sy_released (sr_syncer r1))"
    using assms(5) by (auto simp: syncer_inv_def Let_def)
  show "prefix (sr_queued r) (sr_queued (final_request E c r))" by (simp add: f)
qed

lemma give_up_journals:
  "nd_journals (give_up closing cleaned mount nd) =
     (case mount_journal mount of Some j \<Rightarrow> if jn_closed j then nd_journals nd else fmupd (ms_name mount) (jn_file j) (nd_journals nd) | None \<Rightarrow> nd_journals nd)"
  by (simp add: give_up_def Let_def)

lemma answer_of_Inr: "answer_of n y = Inr () \<Longrightarrow> (n, None) \<in> set (sy_answers y)"
  by (auto simp: answer_of_def split: option.splits if_splits dest: map_of_SomeD)

text \<open>Up to the answer of the final request nothing is given up, and when it fails the journal is kept.\<close>

lemma unmountLast_final:
  assumes "unmountLast E c mount s nd = (mount', s', nd', res)" "ms_syncer mount = Some y" "fmlookup (nd_journals nd) (ms_name mount) \<noteq> None"
  defines "y1 \<equiv> um_work c (SyncCheckpoint (dv_sync E) (um_writes c) (um_ready c) (um_result c) (y\<lparr>sy_store := s\<rparr>))"
  shows "res = Inr () \<or> fmlookup (nd_journals nd') (ms_name mount) = None \<Longrightarrow> answer_of (um_result c) y1 = Inr ()"
    and "answer_of (um_result c) y1 = Inl e \<Longrightarrow> snd (Mount_Unmount (um_close c) (the (ms_unmounter mount))) = Inr () \<Longrightarrow>
      sy_journal y1 = Some j \<Longrightarrow> \<not> jn_closed j \<Longrightarrow> fmlookup (nd_journals nd') (ms_name mount) = Some (jn_file j)"
proof -
  obtain u r where u: "Mount_Unmount (um_close c) (the (ms_unmounter mount)) = (u, r)" by fastforce
  let ?nd1 = "nd\<lparr>nd_mounts := nd_mounts nd |-| {|ms_name mount|}\<rparr>"
  let ?m = "mount\<lparr>ms_unmounter := Some u, ms_syncer := Some y1\<rparr>"
  have failed: "res = Inl (Wrap ''final sync'' e) \<and> nd' = give_up (um_closing c) (um_cleaned c) ?m ?nd1"
    if "r = Inr ()" "answer_of (um_result c) y1 = Inl e" for e
    using assms(1,2) u that unfolding unmountLast_def Let_def y1_def by (simp add: abandonUnmounted_def Let_def)
  have early: "res = Inl e \<and> nd' = nd" if "r = Inl e" for e
    using assms(1) u that by (simp add: unmountLast_def Let_def)
  show "answer_of (um_result c) y1 = Inr ()" if "res = Inr () \<or> fmlookup (nd_journals nd') (ms_name mount) = None"
  proof (cases "answer_of (um_result c) y1")
    case (Inl e)
    have "r = Inr ()" using that early assms(3) by (cases r) auto
    from failed [OF this Inl] have "False"
      using that assms(3) by (auto simp: give_up_journals split: option.splits if_splits)
    then show ?thesis ..
  qed simp
  show "fmlookup (nd_journals nd') (ms_name mount) = Some (jn_file j)"
    if "answer_of (um_result c) y1 = Inl e" "snd (Mount_Unmount (um_close c) (the (ms_unmounter mount))) = Inr ()" "sy_journal y1 = Some j" "\<not> jn_closed j"
    using failed [OF _ that(1)] that u by (simp add: give_up_journals mount_journal_def)
qed

end
