(* ===== verification/DriverClaims.thy ===== *)
theory DriverClaims
  imports DriverRun
begin

text \<open>
  What the driver guarantees of one mount and one unmount: a failed mount gives everything up and keeps
  the local journal, a successful one serves the published image with the journal's generations
  on top, and the last unmount removes the journal only when everything queued is published.
\<close>

section \<open>Properties\<close>

text \<open>
  C3. A mount that fails leaves nothing behind and loses nothing. Wherever it fails (the journal, the
  lease, formatting or preparing the image, replaying, attaching, seeding, the first publication, a
  new journal), no heartbeat, worker, device, journal or mount of the volume is left in use, the
  mount stays as it was, and the generations of the local journal, which no publication has yet, can
  still be read from its file.
\<close>

theorem mount_failure_loses_nothing:
  assumes "mountFresh E c opts mount s nd = (mount', s', nd', Inl e)" "\<not> used (ms_name mount) nd"
    and "jcodec_ok (dv_jcodec E)" "reads_as (dv_jcodec E) nd (ms_name mount) gs"
    and "\<And>s1 s2 lease new m. Acquire (dv_wire E) (dv_remote E) (mt_now c) (mt_uuid c) (mt_token c) (ms_name mount) (dv_NodeID E)
           \<lparr>co_Size = vo_Size opts, co_Filesystem = vo_Filesystem opts\<rparr> s1 = (s2, Inr (lease, new)) \<Longrightarrow>
         journalMetadata (ls_state lease) = Inr m \<Longrightarrow> good_metadata (dv_jcodec E) m"
  shows "mount' = mount \<and> \<not> used (ms_name mount) nd' \<and>
    (LocalDurability opts \<and> gs \<noteq> [] \<longrightarrow>
      (\<exists>bytes j. fmlookup (nd_journals nd') (ms_name mount) = Some bytes \<and>
         OpenJournal (dv_jcodec E) (Inr ()) (Inr ()) bytes = Inr j \<and> Journal_Entries j = gs))"
proof -
  let ?name = "ms_name mount" and ?jc = "dv_jcodec E"
  have "mount' = mount \<and> \<not> used ?name nd' \<and> (LocalDurability opts \<and> gs \<noteq> [] \<longrightarrow> reads_as ?jc nd' ?name gs)"
  proof (cases "ReadOnly opts")
    case True
    obtain s1 nd1 r where r: "mountReadOnly E c ?name s nd = (s1, nd1, r)" by (rule prod_cases3)
    moreover obtain e1 where e1: "r = Inl e1" using assms(1) True r by (cases r) (auto simp: mountFresh_def)
    ultimately show ?thesis using mountReadOnly_fails [OF r e1] assms(1,2,4) True by (auto simp: mountFresh_def used_def reads_as_def)
  next
    case False
    obtain s1 nd1 r where r: "mount_writable E c opts ?name s nd = (s1, nd1, r)" by (rule prod_cases3)
    moreover obtain e1 where e1: "r = Inl e1" using assms(1) False r by (cases r) (auto simp: mountFresh_def)
    ultimately show ?thesis using mount_writable_fails [OF r e1 assms(2-5)] assms(1) False by (auto simp: mountFresh_def)
  qed
  then show ?thesis using cut_journal_opens [OF assms(3)] by (auto simp: reads_as_def split: option.splits)
qed


text \<open>
  C2. Unmounting gives the local journal up only for what is published. When the last unmount succeeds,
  or the journal file is gone after it, the final synchronisation was answered with success, and every
  generation queued before it and what the device had captured is published, in order. When that
  synchronisation fails, the lease is given back and the image discarded, but the journal file stays with
  all that was written to it.
\<close>

theorem unmount_keeps_unpublished:
  assumes "unmountLast E c mount s nd = (mount', s', nd', res)" "ms_syncer mount = Some y" "fmlookup (nd_journals nd) (ms_name mount) \<noteq> None"
    and "sr_syncer r = y\<lparr>sy_store := s\<rparr>" "syncer_inv r" "\<not> sy_done y" "sr_upto r (um_result c) = None"
    and "(syncer_step (dv_sync E))\<^sup>*\<^sup>* (final_request E c r) r1" "sr_syncer r1 = um_work c (sr_syncer (final_request E c r))"
  shows "(res = Inr () \<or> fmlookup (nd_journals nd') (ms_name mount) = None \<longrightarrow>
      prefix (sr_queued r) (sr_queued (final_request E c r)) \<and> prefix (sr_queued (final_request E c r)) (sy_released (sr_syncer r1))) \<and>
    (\<forall>e j. answer_of (um_result c) (sr_syncer r1) = Inl e \<and> snd (Mount_Unmount (um_close c) (the (ms_unmounter mount))) = Inr () \<and>
      sy_journal (sr_syncer r1) = Some j \<and> \<not> jn_closed j \<longrightarrow> fmlookup (nd_journals nd') (ms_name mount) = Some (jn_file j))"
proof -
  have y1: "sr_syncer r1 = um_work c (SyncCheckpoint (dv_sync E) (um_writes c) (um_ready c) (um_result c) (y\<lparr>sy_store := s\<rparr>))"
    using assms(4,9) by (simp add: final_request_def Let_def note_requests_facts(1))
  have running: "\<not> sy_done (sr_syncer r)" using assms(4,6) by simp
  note F = unmountLast_final [OF assms(1-3), folded y1]
  show ?thesis
    using F final_request_published [OF assms(8,5) running assms(7) answer_of_Inr] by blast
qed

section \<open>Samples\<close>

text \<open>A volume of one published generation without blocks, its journal with one generation, and a node
  that can or cannot reach the store.\<close>

definition no_ops :: "unit store_ops" where
  "no_ops = \<lparr>st_Get = (\<lambda>k s. (s, Inl ErrNotFound)), st_Put = (\<lambda>k b s. (s, Inl EOF)), st_PutIfAbsent = (\<lambda>k b s. (s, Inl EOF)),
     st_PutIfMatch = (\<lambda>k b t s. (s, Inl EOF)), st_Delete = (\<lambda>k s. (s, Inr ())), st_List = (\<lambda>p s. (s, Inr [])), st_DeletePrefix = (\<lambda>p s. (s, Inr ()))\<rparr>"

definition fixed_head :: "(bytes \<times> string) result \<Rightarrow> unit volumeHead" where
  "fixed_head res = \<lparr>hd_read = (\<lambda>n s. (s, res)), hd_commit = (\<lambda>n b t st s. (s, Inr ''f'')), hd_owns = (\<lambda>a b. a = b),
     hd_remove = (\<lambda>n s. (s, Inr ())), hd_verifyBackend = (\<lambda>n s. (s, Inr ()))\<rparr>"

definition node_env :: "(bytes \<times> string) result \<Rightarrow> unit driver_env" where
  "node_env res = \<lparr>dv_sync = \<lparr>se_wire = blank_wire\<lparr>unmarshalState := (\<lambda>_. Inr sample_state)\<rparr>,
       se_remote = \<lparr>Store = no_ops, RHead = fixed_head res, RTTL = 30\<rparr>, se_jcodec = zero_codec\<rparr>,
     dv_mode = ConditionalHead, dv_records = \<lparr>marshalRecord = (\<lambda>r. []), unmarshalRecord = (\<lambda>b. Inr \<lparr>rc_Name = ''v'', rc_CreatedAt = 0, rc_Options = default_options\<lparr>vo_Size := 40960\<rparr>\<rparr>)\<rparr>, dv_sha256 = (\<lambda>b. b),
     dv_parseDuration = (\<lambda>s. None), dv_NodeID = ''host'', dv_MaxDirty = 268435456, dv_SyncInterval = 5, dv_CheckpointInterval = 128,
     dv_Seeder = False, dv_StateDir = ''/s''\<rparr>"

definition sample_journal :: bytes where
  "sample_journal = sample_header @ records_of zero_codec [sample_generation]"

definition sample_node :: node where
  "sample_node = \<lparr>nd_records = fmempty, nd_images = {||}, nd_dirs = {||}, nd_journals = fmupd ''v'' sample_journal fmempty,
     nd_beats = {||}, nd_workers = {||}, nd_devices = {||}, nd_open = {||}, nd_mounts = {||}\<rparr>"

definition calm :: mount_script where
  "calm = \<lparr>mt_now = 1, mt_uuid = ''u'', mt_token = ''t'', mt_open = Inr (), mt_torn = (Inr (), Inr ()), mt_closing = (Inr (), Inr (), Inr ()),
     mt_rebase = RewriteOk, mt_create = RewriteOk, mt_image = Inr (), mt_truncate = Inr (), mt_format = Inr empty_image, mt_get = sample_get,
     mt_later = (\<lambda>_. sample_get), mt_sparse = Inr (), mt_schedule = id, mt_opened = Inr (), mt_io = ideal_io, mt_lazyio = ideal_io,
     mt_order = sortedBlocks, mt_seeker = \<lparr>seek_data = (\<lambda>_. Inl (Errno 22)), seek_hole = (\<lambda>_. Inl (Errno 22))\<rparr>, mt_mkdir = Inr (),
     mt_attached = Inr (), mt_mounted = Inr (), mt_used = id, mt_seed = Inr (), mt_seeded = id, mt_published = 1, mt_waits = Inr (), mt_cleaned = True\<rparr>"

definition sample_options :: VolumeOptions where
  "sample_options = default_options\<lparr>vo_Size := 40960\<rparr>"

lemma sample_recovered: "map recovered [sample_generation] = [sample_generation]"
proof -
  have "set (sortedBlocks sample_generation) = {3, 4}" by (simp add: sample_generation_def)
  then have "length (sortedBlocks sample_generation) = 2"
    using distinct_card [OF distinct_sortedBlocks [of sample_generation]] by simp
  then show ?thesis by (simp add: recovered_def) (simp add: sample_generation_def DefaultBlockSize_def)
qed

lemma sample_cut: "cut_journal zero_codec sample_journal [sample_generation]"
  unfolding sample_journal_def by (rule cut_journal_whole [OF sample_facts(3,4) sample_fits sample_recovered])

lemma sample_reads: "reads_as zero_codec sample_node ''v'' [sample_generation]"
  using sample_cut by (simp add: reads_as_def sample_node_def)

lemma sample_unused: "\<not> used n sample_node"
  by (simp add: used_def sample_node_def)

lemma sample_opens:
  "\<exists>j. OpenJournal zero_codec (Inr ()) (Inr ()) sample_journal = Inr j \<and> jn_entries j = [sample_generation] \<and> jn_metadata j = sample_metadata \<and>
     jn_closed j = False \<and> jn_broken j = None"
proof -
  let ?k = "length (records_of zero_codec [sample_generation])"
  have "prefix [sample_generation] (whole_records zero_codec ?k ([sample_generation] @ []))" by (rule whole_records_all) simp
  then have "whole_records zero_codec ?k [sample_generation] = [sample_generation]"
    using whole_records_prefix [of zero_codec ?k "[sample_generation]"] by (simp add: prefix_order.antisym)
  then show ?thesis
    using OpenJournal_cut [OF sample_facts(1,3,4) sample_fits, of "length sample_journal" "Inr ()" "Inr ()"] sample_recovered
    by (simp add: sample_journal_def Let_def new_journal_def)
qed

lemma node_env_sel [simp]:
  "dv_wire (node_env res) = blank_wire\<lparr>unmarshalState := (\<lambda>_. Inr sample_state)\<rparr>" "dv_remote (node_env res) = \<lparr>Store = no_ops, RHead = fixed_head res, RTTL = 30\<rparr>"
  "dv_jcodec (node_env res) = zero_codec" "dv_NodeID (node_env res) = ''host''" "dv_MaxDirty (node_env res) = 268435456"
  by (simp_all add: node_env_def)

lemma calm_sel [simp]:
  "mt_now calm = 1" "mt_uuid calm = ''u''" "mt_token calm = ''t''" "mt_open calm = Inr ()" "mt_torn calm = (Inr (), Inr ())" "mt_closing calm = (Inr (), Inr (), Inr ())"
  "mt_rebase calm = RewriteOk" "mt_get calm = sample_get" "mt_later calm = (\<lambda>_. sample_get)" "mt_sparse calm = Inr ()" "mt_opened calm = Inr ()"
  "mt_io calm = ideal_io" "mt_lazyio calm = ideal_io" "mt_order calm = sortedBlocks" "mt_mkdir calm = Inr ()" "mt_attached calm = Inr ()" "mt_mounted calm = Inr ()"
  "mt_used calm = id"
  by (simp_all add: calm_def)

lemma sample_options_sel [simp]: "LocalDurability sample_options" "\<not> ReadOnly sample_options" "\<not> RemoteDurability sample_options" "vo_Size sample_options = 40960" "vo_Filesystem sample_options = ''ext4''"
  by (simp_all add: sample_options_def default_options_def LocalDurability_def ReadOnly_def RemoteDurability_def)

section \<open>Witnesses\<close>

text \<open>The store cannot be reached: the journal was opened, and is kept.\<close>

lemma unreachable_fails:
  "\<exists>nd' e. mountFresh (node_env (Inl ContextError)) calm sample_options (new_mount ''v'') () sample_node = (new_mount ''v'', (), nd', Inl e)"
proof -
  obtain j where j: "OpenJournal zero_codec (Inr ()) (Inr ()) sample_journal = Inr j" "jn_entries j = [sample_generation]" using sample_opens by blast
  have f: "fmlookup (nd_journals sample_node) ''v'' = Some sample_journal" by (simp add: sample_node_def)
  have i: "Inspect (dv_wire (node_env (Inl ContextError))) (dv_remote (node_env (Inl ContextError))) ''v'' () = ((), Inl ContextError)"
    by (simp add: Inspect_def fixed_head_def)
  have "\<exists>nd' e. recover_journal (node_env (Inl ContextError)) calm ''v'' () sample_node = ((), nd', Inl e)"
    unfolding recover_journal_def Let_def f i using j by (simp add: Journal_Entries_def bindR_def)
  then show ?thesis by (auto simp: mountFresh_def mount_writable_def new_mount_def)
qed

theorem mount_failure_loses_nothing_witness:
  "\<exists>nd' e bytes j. mountFresh (node_env (Inl ContextError)) calm sample_options (new_mount ''v'') () sample_node = (new_mount ''v'', (), nd', Inl e) \<and>
     \<not> used ''v'' nd' \<and> fmlookup (nd_journals nd') ''v'' = Some bytes \<and>
     OpenJournal zero_codec (Inr ()) (Inr ()) bytes = Inr j \<and> Journal_Entries j = [sample_generation]"
proof -
  let ?E = "node_env (Inl ContextError)" and ?m = "new_mount ''v'' :: unit mountState"
  obtain nd' e where m: "mountFresh ?E calm sample_options ?m () sample_node = (?m, (), nd', Inl e)" using unreachable_fails by blast
  have n: "ms_name ?m = ''v''" by (simp add: new_mount_def)
  have a: "Acquire (dv_wire ?E) (dv_remote ?E) now uuid token name holder opts s1 \<noteq> (s2, Inr (lease, new))" for now uuid token name holder opts s1 s2 lease new
    by (simp add: Acquire_def Inspect_def fixed_head_def acquire_base_def)
  have "?m = ?m \<and> \<not> used (ms_name ?m) nd' \<and> (LocalDurability sample_options \<and> [sample_generation] \<noteq> [] \<longrightarrow>
      (\<exists>bytes j. fmlookup (nd_journals nd') (ms_name ?m) = Some bytes \<and>
         OpenJournal (dv_jcodec ?E) (Inr ()) (Inr ()) bytes = Inr j \<and> Journal_Entries j = [sample_generation]))"
    by (rule mount_failure_loses_nothing [OF m]) (use sample_unused sample_facts(1) sample_reads a n in simp_all)
  then show ?thesis using m n by auto
qed


text \<open>The store can be reached, and the mount replays the journal on the published image.\<close>

definition sample_candidate :: State where
  "sample_candidate = acquire_candidate \<lparr>Store = no_ops, RHead = fixed_head (Inr ([1], ''e'')), RTTL = 30\<rparr> 1 ''host'' ''t'' sample_state"

lemma sample_candidate_sel:
  "s_Format sample_candidate = Format" "s_ID sample_candidate = ''id''" "s_Name sample_candidate = ''v''" "s_Size sample_candidate = 40960" "s_BlockSize sample_candidate = 4096"
  "Filesystem sample_candidate = ''ext4''" "s_Generation sample_candidate = 1" "s_Manifest sample_candidate = manifestKey sample_wire ''v'' [5]"
  "InlineManifests sample_candidate = fmempty" "ManifestBundle sample_candidate = None" "Checkpoint sample_candidate = 0" "s_Epoch sample_candidate = 2" "Deleting sample_candidate = False"
  "s_Lease sample_candidate = Some \<lparr>Holder = ''host'', Token = ''t'', lr_Epoch = 2, ExpiresAt = 31, MountedAt = 1\<rparr>"
  by (simp_all add: sample_candidate_def acquire_candidate_def sample_state_def Let_def remote_ttl_def)

abbreviation reach_env :: "unit driver_env" where
  "reach_env \<equiv> node_env (Inr ([1], ''e''))"

abbreviation reach_wire :: wire where
  "reach_wire \<equiv> blank_wire\<lparr>unmarshalState := (\<lambda>_. Inr sample_state)\<rparr>"

lemma reach_inspect: "Inspect reach_wire (dv_remote reach_env) ''v'' s = (s, Inr (sample_state, ''e''))"
proof -
  have "validateState reach_wire ''v'' sample_state = Inr ()"
    by (simp add: validateState_def sample_state_def inline_keys_def sorted_list_of_fset.rep_eq DefaultBlockSize_def manifestKey_def VolumePrefix_def)
  then show ?thesis by (simp add: Inspect_def fixed_head_def bindR_def)
qed

lemma reach_acquire:
  "Acquire reach_wire (dv_remote reach_env) 1 ''u'' ''t'' ''v'' ''host'' \<lparr>co_Size = 40960, co_Filesystem = ''ext4''\<rparr> s = (s, Inr (new_lease sample_candidate ''f'', False))"
proof -
  have b: "acquire_base ''v'' 1 ''u'' \<lparr>co_Size = 40960, co_Filesystem = ''ext4''\<rparr> (Inr (sample_state, ''e'')) = Inr (sample_state, ''e'', False)"
    by (simp add: acquire_base_def) (simp add: sample_state_def)
  have a: "startManifestBundleArchive reach_wire (new_lease sample_candidate ''f'') = new_lease sample_candidate ''f''"
    by (simp add: startManifestBundleArchive_def new_lease_def sample_candidate_sel inlineManifestBytes_def manifestBundleTarget_def inline_keys_def
        sorted_list_of_fset.rep_eq)
  have v: "validVolumeName ''v''" by (simp add: validVolumeName_def alnum_def)
  show ?thesis unfolding Acquire_def reach_inspect using b a v by (simp add: Let_def fixed_head_def sample_candidate_def)
qed


lemma candidate_plan: "restorePlan reach_wire sample_get sample_candidate = Inr []"
proof -
  have "decodeManifest reach_wire sample_candidate (manifestKey sample_wire ''v'' [5]) [5] 1 = Inr blank_manifest"
    by code_simp
  then have r: "readManifestWithSourceCache reach_wire sample_get sample_candidate (manifestKey sample_wire ''v'' [5]) 1 fmempty =
      Inr (blank_manifest, [], fmempty)"
    by (simp add: readManifestWithSourceCache_def sample_get_def sample_candidate_sel)
  have k: "manifestKey sample_wire ''v'' [5] \<noteq> []" by (simp add: manifestKey_def VolumePrefix_def)
  show ?thesis
    unfolding restorePlan_def restoreManifests_def sample_candidate_sel using k r
    by (simp add: restore_loop_step Let_def blank_manifest_def)
qed

lemma candidate_prepared: "\<exists>l. PrepareLazyRestore reach_wire sample_get (\<lambda>_. sample_get) (Inr ()) sample_candidate = Inr (empty_image, l)"
proof -
  have "validateState reach_wire ''v'' sample_candidate = Inr ()"
    by (simp add: validateState_def sample_candidate_sel inline_keys_def sorted_list_of_fset.rep_eq DefaultBlockSize_def manifestKey_def VolumePrefix_def)
  then show ?thesis by (simp add: PrepareLazyRestore_def sample_candidate_sel(3,4) candidate_plan createSparseImage_def)
qed

lemma replay_blocks_total:
  assumes "sound_io io" "\<forall>b\<in>set bs. length (block_data g b) = BlockSize \<and> b < word_of_int (d_size d div DefaultBlockSize)"
  shows "\<exists>d'. replay_blocks ops io g d bs = (d', Inr ())"
  using assms(2)
proof (induction bs arbitrary: d)
  case (Cons b bs)
  let ?w = "file_WriteAt io (d_file d) (block_data g b) (nat (uint b * DefaultBlockSize))"
  obtain img n where "?w = (img, n, None)" using assms(1) by (simp add: file_WriteAt_def sound_io_def)
  then have "replay_block ops io b (block_data g b) d = (call_commit ops (d\<lparr>d_file := img\<rparr>) (uint b * DefaultBlockSize) DefaultBlockSize, Inr ())"
    using Cons.prems by (simp add: replay_block_def Let_def not_le)
  then show ?case using Cons.IH [of "call_commit ops (d\<lparr>d_file := img\<rparr>) (uint b * DefaultBlockSize) DefaultBlockSize"] Cons.prems by (simp add: call_commit_def)
qed simp

lemma candidate_device: "\<exists>d. setup_device reach_env calm sample_candidate [sample_generation] empty_image lazy = Inr d"
proof -
  obtain d0 :: "LazyImage Device" where d0: "OpenDevice (bindR (Inr ()) (\<lambda>_. Inr empty_image)) 40960 268435456 = Inr d0" "d_size d0 = 40960" "\<not> d_closed d0"
    by (simp add: OpenDevice_def DefaultBlockSize_def bindR_def)
  let ?d1 = "SetDirtyObserver (SetLazyImage lazy d0)" and ?ops = "lazy_ops reach_wire ideal_io"
  have d1: "d_size ?d1 = 40960" "\<not> d_closed ?d1" using d0(2,3) by (simp_all add: SetDirtyObserver_def SetLazyImage_def)
  have "\<forall>b\<in>set (sortedBlocks sample_generation). length (block_data sample_generation b) = BlockSize \<and> b < word_of_int (d_size ?d1 div DefaultBlockSize)"
    by (auto simp: d1 sample_generation_def block_data_def DefaultBlockSize_def fmlookup_of_list)
  from replay_blocks_total [OF ideal_sound(1) this, of ?ops] obtain d2
    where "replay_blocks ?ops ideal_io sample_generation ?d1 (sortedBlocks sample_generation) = (d2, Inr ())" by blast
  then have "\<exists>d3 evs. Replay ?ops ideal_io sortedBlocks [sample_generation] ?d1 = (d3, evs, Inr ())" using d1(2) by (simp add: Replay_def)
  then show ?thesis using d0(1) by (auto simp: setup_device_def sample_candidate_sel Let_def)
qed

lemma candidate_adopts:
  assumes "jn_entries j = [sample_generation]" "jn_metadata j = sample_metadata" "jn_closed j = False" "jn_broken j = None"
  shows "ValidateRecovery sample_state j = Inr ()" "\<exists>j'. adopt_journal reach_env calm sample_candidate (Some j) = (Some j', Inr ())"
proof -
  show "ValidateRecovery sample_state j = Inr ()"
    using assms(2) by (simp add: ValidateRecovery_def sample_metadata_def sample_state_def)
  have v: "ValidateRecovery sample_candidate j = Inr ()"
    using assms(2) by (simp add: ValidateRecovery_def sample_metadata_def sample_candidate_sel)
  obtain m where m: "journalMetadata sample_candidate = Inr m" by (simp add: journalMetadata_def sample_candidate_sel)
  have "\<exists>r. encodeJournalRecord zero_codec (Some sample_generation) (journalSeq sample_generation) = Inr r"
    using sample_fits by (auto simp: journal_sequence_def journal_fits_def encodeJournalRecord_record_of)
  then have "\<exists>b. journal_content zero_codec m [sample_generation] = Inr b"
    by (auto simp: journal_content_def journal_records_def journalHeader_def zero_codec_def maxJournalMetadata_def bindR_def)
  then show "\<exists>j'. adopt_journal reach_env calm sample_candidate (Some j) = (Some j', Inr ())"
    using v m assms(1,3,4) by (auto simp: adopt_journal_def Rebase_def journal_usable_def rewriteLocked_def Let_def)
qed


lemma reach_recovers:
  "\<exists>j nd1. recover_journal reach_env calm ''v'' s sample_node = (s, nd1, Inr (Some j)) \<and> jn_entries j = [sample_generation] \<and> jn_metadata j = sample_metadata \<and>
     jn_closed j = False \<and> jn_broken j = None"
proof -
  obtain j where j: "OpenJournal zero_codec (Inr ()) (Inr ()) sample_journal = Inr j" "jn_entries j = [sample_generation]" "jn_metadata j = sample_metadata"
     "jn_closed j = False" "jn_broken j = None" using sample_opens by blast
  have f: "fmlookup (nd_journals sample_node) ''v'' = Some sample_journal" by (simp add: sample_node_def)
  show ?thesis unfolding recover_journal_def Let_def f node_env_sel(1) reach_inspect
    using j candidate_adopts(1) [OF j(2-5)] by (auto simp: Journal_Entries_def bindR_def)
qed

lemma reach_leased:
  assumes "jn_entries j = [sample_generation]" "jn_metadata j = sample_metadata" "jn_closed j = False" "jn_broken j = None"
  shows "\<exists>nd' y. mount_leased reach_env calm sample_options ''v'' (Some j) (new_lease sample_candidate ''f'') s nd = (s, nd', Inr y)"
proof -
  let ?lease = "new_lease sample_candidate ''f''"
  have st: "ls_state ?lease = sample_candidate" by (simp add: new_lease_def)
  obtain j' where ad: "adopt_journal reach_env calm sample_candidate (Some j) = (Some j', Inr ())" using candidate_adopts(2) [OF assms] by blast
  obtain l where l: "PrepareLazyRestore reach_wire sample_get (\<lambda>_. sample_get) (Inr ()) sample_candidate = Inr (empty_image, l)" using candidate_prepared by blast
  obtain d where d: "setup_device reach_env calm sample_candidate [sample_generation] empty_image (Some l) = Inr d" using candidate_device by blast
  let ?nd = "cleanupLocal (mt_cleaned calm) ''v'' (nd\<lparr>nd_beats := finsert ''v'' (nd_beats nd)\<rparr>)"
  obtain nd2 where im: "setup_image reach_env calm ''v'' ?lease ?nd = (adoptPlan sample_candidate (l_refs l) ?lease, nd2, Inr (empty_image, Some l))"
    using l by (simp add: setup_image_def Let_def st sample_candidate_sel(7))
  have st': "ls_state (adoptPlan sample_candidate (l_refs l) ?lease) = sample_candidate" by (simp add: adoptPlan_def st)
  have "initialise_volume reach_env calm sample_options d (adoptPlan sample_candidate (l_refs l) ?lease) s = (adoptPlan sample_candidate (l_refs l) ?lease, s, Inr d)"
    by (simp add: initialise_volume_def st' sample_candidate_sel(7))
  then have "\<exists>nd' y. mount_device reach_env calm sample_options ''v'' [sample_generation] (Some j') d (adoptPlan sample_candidate (l_refs l) ?lease) s nd2 = (s, nd', Inr y)"
    by (simp add: mount_device_def Let_def Backend_Mount_def st' sample_candidate_sel(6) start_volume_def bindR_def)
  then show ?thesis using ad im d assms(1) by (simp add: mount_leased_def Let_def st Journal_Entries_def)
qed

lemma reach_mounts:
  "\<exists>nd' y. mountFresh reach_env calm sample_options (new_mount ''v'') s sample_node =
     ((new_mount ''v'')\<lparr>ms_active := True, ms_syncer := Some y, ms_unmounter := Some \<lparr>bm_closed = False\<rparr>, ms_stopBeat := True\<rparr>, s, nd', Inr ())"
proof -
  obtain j nd1 where j: "recover_journal reach_env calm ''v'' s sample_node = (s, nd1, Inr (Some j))" "jn_entries j = [sample_generation]"
    "jn_metadata j = sample_metadata" "jn_closed j = False" "jn_broken j = None" using reach_recovers by blast
  obtain nd' y where "mount_leased reach_env calm sample_options ''v'' (Some j) (new_lease sample_candidate ''f'') s nd1 = (s, nd', Inr y)"
    using reach_leased [OF j(2-5)] by blast
  then show ?thesis using j(1) reach_acquire [of s] by (simp add: mountFresh_def mount_writable_def new_mount_def)
qed


text \<open>The context of the final synchronisation ends before it is answered: the journal is kept.\<close>

definition open_journal :: Journal where
  "open_journal = (new_journal sample_metadata)\<lparr>jn_file := sample_journal, jn_entries := [sample_generation], jn_open := True\<rparr>"

definition open_syncer :: "(LazyImage, unit) Syncer" where
  "open_syncer = StartSyncer blank_device (new_lease sample_candidate ''f'') () 5 128 (Some open_journal)"

definition open_mount :: "unit mountState" where
  "open_mount = (new_mount ''v'')\<lparr>ms_active := True, ms_syncer := Some open_syncer, ms_unmounter := Some \<lparr>bm_closed = False\<rparr>, ms_stopBeat := True\<rparr>"

definition cut_short :: "unit unmount_script" where
  "cut_short = \<lparr>um_close = \<lparr>cl_unmount = Inr (), cl_pauses = [], cl_attachment = Inr (), cl_remove = Inr ()\<rparr>, um_writes = [], um_ready = 0, um_result = 0,
     um_work = id, um_last_writes = [], um_last_ready = 1, um_last = 1, um_more = id, um_waits = Inr (), um_device = Inr (), um_lazyio = ideal_io,
     um_closing = (Inr (), Inr (), Inr ()), um_cleaned = True\<rparr>"

lemma open_final:
  "sy_journal (sr_syncer (final_request reach_env cut_short (syncer_start open_syncer))) = Some open_journal"
  "answer_of 0 (sr_syncer (final_request reach_env cut_short (syncer_start open_syncer))) = Inl ContextError"
proof -
  have "sealLocked blank_device = (None, blank_device)" by (simp add: sealLocked_def blank_device_def)
  then have "sy_journal (SyncCheckpoint (dv_sync reach_env) [] 0 0 open_syncer) = Some open_journal"
    "sy_answers (SyncCheckpoint (dv_sync reach_env) [] 0 0 open_syncer) = []" "\<not> sy_done (SyncCheckpoint (dv_sync reach_env) [] 0 0 open_syncer)"
    by (simp_all add: SyncCheckpoint_def Syncer_request_def prepareLocalGeneration_def enqueue_def open_syncer_def StartSyncer_def Generation_Empty_def)
  then show "sy_journal (sr_syncer (final_request reach_env cut_short (syncer_start open_syncer))) = Some open_journal"
    "answer_of 0 (sr_syncer (final_request reach_env cut_short (syncer_start open_syncer))) = Inl ContextError"
    by (simp_all add: final_request_def Let_def note_requests_facts(1) cut_short_def syncer_start_def answer_of_def)
qed

theorem unmount_keeps_unpublished_witness:
  "\<exists>m nd' res. unmountLast reach_env cut_short open_mount () sample_node = (m, (), nd', res) \<and> fmlookup (nd_journals nd') ''v'' = Some sample_journal"
proof -
  let ?r = "syncer_start open_syncer"
  obtain m nd' res where u: "unmountLast reach_env cut_short open_mount () sample_node = (m, (), nd', res)" by (metis prod_cases4 unit.exhaust)
  have mount: "ms_syncer open_mount = Some open_syncer" "ms_name open_mount = ''v''" "ms_unmounter open_mount = Some \<lparr>bm_closed = False\<rparr>"
    by (simp_all add: open_mount_def new_mount_def)
  have r: "sr_syncer ?r = open_syncer\<lparr>sy_store := ()\<rparr>" "syncer_inv ?r" "\<not> sy_done open_syncer" "sr_upto ?r (um_result cut_short) = None"
    by (simp_all add: syncer_start_def open_syncer_def StartSyncer_def syncer_inv_start [unfolded syncer_start_def])
  have "snd (Mount_Unmount (um_close cut_short) (the (ms_unmounter open_mount))) = Inr ()"
    by (simp add: mount Mount_Unmount_def mount_close_def cut_short_def unmount.simps bindR_def Let_def)
  moreover have "um_result cut_short = 0" "um_work cut_short = id" by (simp_all add: cut_short_def)
  moreover have "fmlookup (nd_journals sample_node) (ms_name open_mount) \<noteq> None" by (simp add: mount sample_node_def)
  ultimately have "fmlookup (nd_journals nd') ''v'' = Some (jn_file open_journal)"
    using unmount_keeps_unpublished [OF u mount(1) _ r, of "final_request reach_env cut_short ?r"] open_final
    by (simp add: mount open_journal_def new_journal_def)
  then show ?thesis using u by (simp add: open_journal_def)
qed

end
