(* ===== verification/DriverSafety.thy ===== *)
theory DriverSafety
  imports DriverClaims
begin

text \<open>
  The driver over any sequence of operations: what is in use on the node always belongs to an active
  mount of a volume, and a fenced mount has nothing in use.
\<close>

section \<open>What an operation takes and gives up\<close>

definition node_le :: "node \<Rightarrow> node \<Rightarrow> bool" where
  "node_le nd' nd \<longleftrightarrow> nd_beats nd' |\<subseteq>| nd_beats nd \<and> nd_workers nd' |\<subseteq>| nd_workers nd \<and> nd_devices nd' |\<subseteq>| nd_devices nd \<and>
     nd_open nd' |\<subseteq>| nd_open nd \<and> nd_mounts nd' |\<subseteq>| nd_mounts nd"

text \<open>In the middle of a mount: the lease is held and, with a journal, the journal is open.\<close>

definition node_leased :: "string \<Rightarrow> Journal option \<Rightarrow> node \<Rightarrow> node \<Rightarrow> bool" where
  "node_leased name journal nd' nd \<longleftrightarrow> nd_beats nd' |\<subseteq>| finsert name (nd_beats nd) \<and> nd_workers nd' |\<subseteq>| nd_workers nd \<and>
     nd_devices nd' |\<subseteq>| nd_devices nd \<and> nd_open nd' |\<subseteq>| (if journal = None then nd_open nd else finsert name (nd_open nd)) \<and>
     nd_mounts nd' |\<subseteq>| nd_mounts nd"

definition node_mounted :: "string \<Rightarrow> Journal option \<Rightarrow> node \<Rightarrow> node \<Rightarrow> bool" where
  "node_mounted name journal nd' nd \<longleftrightarrow> nd_beats nd' |\<subseteq>| finsert name (nd_beats nd) \<and> nd_workers nd' |\<subseteq>| finsert name (nd_workers nd) \<and>
     nd_devices nd' |\<subseteq>| finsert name (nd_devices nd) \<and> nd_open nd' |\<subseteq>| (if journal = None then nd_open nd else finsert name (nd_open nd)) \<and>
     nd_mounts nd' |\<subseteq>| finsert name (nd_mounts nd)"

definition outcome_ok :: "string \<Rightarrow> node \<Rightarrow> (LazyImage, 's) Syncer result \<Rightarrow> node \<Rightarrow> bool" where
  "outcome_ok name nd' res nd \<longleftrightarrow> (case res of Inl e \<Rightarrow> node_le nd' nd | Inr y \<Rightarrow> node_mounted name (sy_journal y) nd' nd)"

lemma release_outcome:
  assumes "releaseOnFailure E c name journal lease cause s nd1 = (s', nd', res)" "node_leased name journal nd1 nd"
  shows "outcome_ok name nd' res nd"
  using releaseOnFailure_sel [OF assms(1)] assms(2) by (auto simp: outcome_ok_def node_le_def node_leased_def split: if_splits)

lemma cleanup_outcome:
  assumes "cleanupMounted E c name journal lease cause s nd1 = (s', nd', res)"
    "node_leased name journal (nd1\<lparr>nd_mounts := nd_mounts nd1 |-| {|name|}, nd_devices := nd_devices nd1 |-| {|name|}\<rparr>) nd"
  shows "outcome_ok name nd' res nd"
  by (rule release_outcome [OF assms(1) [unfolded cleanupMounted_def] assms(2)])

lemma start_replication_journal: "sy_journal (start_replication E opts entries j d lease s) = j"
  by (auto simp: start_replication_def Let_def StartSyncer_def Notify_def EnqueueRecovered_sel)

lemma start_volume_outcome:
  assumes "start_volume E c opts name entries journal d lease s nd1 = (s', nd', res)"
    "node_leased name journal (nd1\<lparr>nd_mounts := nd_mounts nd1 |-| {|name|}, nd_devices := nd_devices nd1 |-| {|name|}\<rparr>) nd"
  shows "outcome_ok name nd' res nd"
proof (cases "LocalDurability opts \<and> journal = None")
  case True
  show ?thesis
  proof (cases "CreateJournal (dv_jcodec E) (mt_create c) (ls_state lease)")
    case (Inl e)
    then have "cleanupMounted E c name None lease (Wrap ''create local journal'' e) s (created_file E c (ls_state lease) name nd1) = (s', nd', res)"
      using assms(1) True by (simp add: start_volume_def)
    from cleanup_outcome [OF this] assms(2) True show ?thesis by (simp add: node_leased_def created_file_sel)
  next
    case (Inr j)
    then show ?thesis using assms True
      by (auto simp: start_volume_def Let_def outcome_ok_def node_mounted_def node_leased_def created_file_sel start_replication_journal)
  qed
next
  case False
  then have "res = Inr (start_replication E opts entries journal d lease s)" "nd' = nd1\<lparr>nd_workers := finsert name (nd_workers nd1)\<rparr>"
    using assms(1) by (auto simp: start_volume_def)
  then show ?thesis using assms(2)
    by (auto simp: outcome_ok_def node_mounted_def node_leased_def start_replication_journal)
qed

lemma mount_device_outcome:
  assumes "mount_device E c opts name entries journal d lease s nd1 = (s', nd', res)" "node_leased name journal nd1 nd"
  shows "outcome_ok name nd' res nd"
proof -
  let ?nd1 = "nd1\<lparr>nd_devices := finsert name (nd_devices nd1)\<rparr>"
  let ?nd2 = "?nd1\<lparr>nd_mounts := finsert name (nd_mounts ?nd1), nd_dirs := finsert name (nd_dirs ?nd1)\<rparr>"
  show ?thesis
  proof (cases "Backend_Mount (Filesystem (ls_state lease)) (mt_mkdir c) (mt_attached c) (mt_mounted c)")
    case (Inl e1)
    then have "releaseOnFailure E c name journal lease e1 s (?nd1\<lparr>nd_devices := nd_devices ?nd1 |-| {|name|}\<rparr>) = (s', nd', res)"
      using assms(1) by (simp add: mount_device_def Let_def)
    from release_outcome [OF this] show ?thesis using assms(2) by (auto simp: node_leased_def)
  next
    case um: (Inr um)
    obtain lease' s2 r where v: "initialise_volume E c opts (mt_used c d) lease s = (lease', s2, r)" by (rule prod_cases3)
    have pre: "node_leased name journal (?nd2\<lparr>nd_mounts := nd_mounts ?nd2 |-| {|name|}, nd_devices := nd_devices ?nd2 |-| {|name|}\<rparr>) nd"
      using assms(2) by (auto simp: node_leased_def)
    show ?thesis
    proof (cases r)
      case (Inl e1)
      then have "cleanupMounted E c name journal lease' e1 s2 ?nd2 = (s', nd', res)" using assms(1) um v by (simp add: mount_device_def Let_def)
      from cleanup_outcome [OF this pre] show ?thesis .
    next
      case (Inr d')
      then have "start_volume E c opts name entries journal d' lease' s2 ?nd2 = (s', nd', res)" using assms(1) um v by (simp add: mount_device_def Let_def)
      from start_volume_outcome [OF this pre] show ?thesis .
    qed
  qed
qed

lemma mount_leased_outcome:
  assumes "mount_leased E c opts name journal lease s nd1 = (s', nd', res)" "node_leased name journal nd1 nd"
  shows "outcome_ok name nd' res nd"
proof -
  let ?nd1 = "cleanupLocal (mt_cleaned c) name (nd1\<lparr>nd_beats := finsert name (nd_beats nd1)\<rparr>)"
  let ?entries = "case journal of None \<Rightarrow> [] | Some j \<Rightarrow> Journal_Entries j"
  obtain journal' r1 where a: "adopt_journal E c (ls_state lease) journal = (journal', r1)" by fastforce
  then have j: "journal' = None \<longleftrightarrow> journal = None" by (auto simp: adopt_journal_def split: option.splits sum.splits prod.splits)
  obtain lease' nd2 r2 where i: "setup_image E c name lease ?nd1 = (lease', nd2, r2)" by (rule prod_cases3)
  have pre: "node_leased name journal' ?nd1 nd" using assms(2) j by (auto simp: node_leased_def)
  then have pre2: "node_leased name journal' nd2 nd" using setup_image_sel [OF i] by (simp add: node_leased_def)
  consider e1 where "r1 = Inl e1" | u e1 where "r1 = Inr u" "r2 = Inl e1"
    | u img lazy where "r1 = Inr u" "r2 = Inr (img, lazy)" by (metis sumE prod.exhaust)
  then show ?thesis
  proof cases
    case 1
    then have "releaseOnFailure E c name journal' lease e1 s ?nd1 = (s', nd', res)" using assms(1) a by (simp add: mount_leased_def)
    from release_outcome [OF this pre] show ?thesis .
  next
    case 2
    then have "releaseOnFailure E c name journal' lease' e1 s nd2 = (s', nd', res)" using assms(1) a i by (simp add: mount_leased_def)
    from release_outcome [OF this pre2] show ?thesis .
  next
    case 3
    show ?thesis
    proof (cases "setup_device E c (ls_state lease) ?entries img lazy")
      case (Inl e1)
      then have "releaseOnFailure E c name journal' lease' e1 s nd2 = (s', nd', res)" using assms(1) a i 3 by (simp add: mount_leased_def)
      from release_outcome [OF this pre2] show ?thesis .
    next
      case (Inr d)
      then have "mount_device E c opts name ?entries journal' d lease' s nd2 = (s', nd', res)" using assms(1) a i 3 by (simp add: mount_leased_def)
      from mount_device_outcome [OF this pre2] show ?thesis .
    qed
  qed
qed

lemma recover_journal_node:
  assumes "recover_journal E c name s nd = (s', nd', res)"
  shows "case res of Inl e \<Rightarrow> node_le nd' nd | Inr journal \<Rightarrow> node_leased name journal nd' nd \<and> nd_beats nd' = nd_beats nd"
  using assms
  by (auto simp: recover_journal_def Let_def node_le_def node_leased_def close_journal_def
      split: option.splits sum.splits if_splits prod.splits)

lemma mount_writable_outcome:
  assumes "mount_writable E c opts name s nd = (s', nd', res)"
  shows "outcome_ok name nd' res nd"
proof -
  obtain s1 nd1 r1 where j: "(if LocalDurability opts then recover_journal E c name s nd else (s, nd, Inr None)) = (s1, nd1, r1)"
    by (rule prod_cases3)
  have rec: "case r1 of Inl e \<Rightarrow> node_le nd1 nd | Inr journal \<Rightarrow> node_leased name journal nd1 nd \<and> nd_beats nd1 = nd_beats nd"
    using j recover_journal_node [of E c name s nd s1 nd1 r1] by (auto simp: node_leased_def split: if_splits)
  obtain s2 r2 where a: "Acquire (dv_wire E) (dv_remote E) (mt_now c) (mt_uuid c) (mt_token c) name (dv_NodeID E)
           \<lparr>co_Size = vo_Size opts, co_Filesystem = vo_Filesystem opts\<rparr> s1 = (s2, r2)" by fastforce
  show ?thesis
  proof (cases r1)
    case (Inl e)
    then have "res = Inl e" "nd' = nd1" using assms j by (simp_all add: mount_writable_def)
    then show ?thesis using rec Inl by (simp add: outcome_ok_def)
  next
    case journal: (Inr journal)
    show ?thesis
    proof (cases r2)
      case (Inl e)
      then have "res = Inl e" "nd' = close_if_open (mt_closing c) name journal nd1" using assms j journal a by (simp_all add: mount_writable_def)
      then show ?thesis using rec journal by (cases journal) (auto simp: outcome_ok_def node_le_def node_leased_def)
    next
      case (Inr p)
      obtain lease new where "p = (lease, new)" by fastforce
      then have "mount_leased E c opts name journal lease s2 nd1 = (s', nd', res)" using assms j journal a Inr by (simp add: mount_writable_def)
      from mount_leased_outcome [OF this] rec journal show ?thesis by auto
    qed
  qed
qed

section \<open>The invariant\<close>

definition mount_at :: "'s Driver \<Rightarrow> string \<Rightarrow> string \<Rightarrow> 's mountState option" where
  "mount_at d vol key = Option.bind (fmlookup (dr_volumes d) vol) (\<lambda>state. fmlookup (vs_mounts state) key)"

definition mount_ok :: "'s mountState \<Rightarrow> bool" where
  "mount_ok m \<longleftrightarrow> (ms_active m \<longleftrightarrow> ms_unmounter m \<noteq> None) \<and> (ms_active m \<longleftrightarrow> ms_device m \<noteq> None \<or> ms_syncer m \<noteq> None) \<and>
     (ms_stopBeat m \<longleftrightarrow> ms_syncer m \<noteq> None) \<and> (ms_fenced m \<noteq> None \<longrightarrow> \<not> ms_active m)"

text \<open>What is in use, and what the mount it belongs to has.\<close>

type_synonym 's usage = "(node \<Rightarrow> string \<Rightarrow> bool) \<times> ('s mountState \<Rightarrow> bool)"

definition usages :: "'s usage list" where
  "usages =
     [(\<lambda>nd n. n |\<in>| nd_beats nd \<or> n |\<in>| nd_workers nd, \<lambda>m. ms_syncer m \<noteq> None),
      (\<lambda>nd n. n |\<in>| nd_open nd, \<lambda>m. mount_journal m \<noteq> None),
      (\<lambda>nd n. n |\<in>| nd_devices nd \<or> n |\<in>| nd_mounts nd, \<lambda>m. True)]"

definition owned :: "'s usage \<Rightarrow> 's Driver \<Rightarrow> bool" where
  "owned u d \<longleftrightarrow> (\<forall>n. fst u (dr_node d) n \<longrightarrow> (\<exists>vol key m. mount_at d vol key = Some m \<and> ms_name m = n \<and> ms_active m \<and> snd u m))"

definition driver_inv :: "'s Driver \<Rightarrow> bool" where
  "driver_inv d \<longleftrightarrow> (\<forall>vol key m. mount_at d vol key = Some m \<longrightarrow> ms_name m = key \<and> mount_ok m) \<and> (\<forall>u \<in> set usages. owned u d)"

text \<open>An operation changes one mount and what its name has in use.\<close>

definition mount_change :: "'s mountState option \<Rightarrow> node \<Rightarrow> 's mountState \<Rightarrow> node \<Rightarrow> bool" where
  "mount_change old nd m' nd' \<longleftrightarrow> (\<forall>u \<in> set usages.
     (\<forall>n. fst u nd' n \<longrightarrow> fst u nd n \<or> n = ms_name m' \<and> ms_active m' \<and> snd u m') \<and>
     (\<forall>m. old = Some m \<longrightarrow> ms_active m \<longrightarrow> snd u m \<longrightarrow> ms_active m' \<and> snd u m' \<or> \<not> fst u nd' (ms_name m')))"

lemma put_mount_at:
  assumes "fmlookup (dr_volumes d) vol = Some state"
  shows "mount_at (put_mount vol m d) v k = (if v = vol \<and> k = ms_name m then Some m else mount_at d v k)"
    "dr_node (put_mount vol m d) = dr_node d" "fmlookup (dr_volumes (put_mount vol m d)) vol \<noteq> None"
  using assms by (auto simp: put_mount_def mount_at_def)

lemma put_mount_inv:
  assumes "driver_inv d" "fmlookup (dr_volumes d) vol = Some state" "mount_ok m'"
    "mount_change (fmlookup (vs_mounts state) (ms_name m')) (dr_node d) m' nd'"
  shows "driver_inv (put_mount vol m' (d\<lparr>dr_store := s, dr_node := nd'\<rparr>))"
proof -
  let ?d = "put_mount vol m' (d\<lparr>dr_store := s, dr_node := nd'\<rparr>)"
  have at: "mount_at ?d v k = (if v = vol \<and> k = ms_name m' then Some m' else mount_at d v k)" for v k
    using put_mount_at(1) [of "d\<lparr>dr_store := s, dr_node := nd'\<rparr>" vol state m' v k] assms(2) by (simp add: mount_at_def)
  have nd: "dr_node ?d = nd'" using put_mount_at(2) [of "d\<lparr>dr_store := s, dr_node := nd'\<rparr>"] assms(2) by simp
  have here: "mount_at ?d vol (ms_name m') = Some m'" by (simp add: at)
  have "owned u ?d" if u: "u \<in> set usages" for u
    unfolding owned_def nd
  proof (intro allI impI)
    fix n assume n: "fst u nd' n"
    note ch = assms(4) [unfolded mount_change_def, rule_format, OF u]
    show "\<exists>v k m. mount_at ?d v k = Some m \<and> ms_name m = n \<and> ms_active m \<and> snd u m"
    proof (cases "n = ms_name m' \<and> ms_active m' \<and> snd u m'")
      case True
      then show ?thesis using here by blast
    next
      case False
      then have "fst u (dr_node d) n" using ch n by blast
      then obtain v k m where m: "mount_at d v k = Some m" "ms_name m = n" "ms_active m" "snd u m"
        using assms(1) u by (fastforce simp: driver_inv_def owned_def)
      have "k = n" using m(1,2) assms(1) by (auto simp: driver_inv_def)
      show ?thesis
      proof (cases "v = vol \<and> k = ms_name m'")
        case True
        then have "fmlookup (vs_mounts state) (ms_name m') = Some m" using m(1) assms(2) by (simp add: mount_at_def)
        then show ?thesis using ch m(3,4) n False True \<open>k = n\<close> by blast
      next
        case False
        then show ?thesis using m at by (intro exI [of _ v] exI [of _ k] exI [of _ m]) auto
      qed
    qed
  qed
  moreover have "\<forall>v k m. mount_at ?d v k = Some m \<longrightarrow> ms_name m = k \<and> mount_ok m"
    using assms(1,3) by (auto simp: at driver_inv_def)
  ultimately show ?thesis by (simp add: driver_inv_def)
qed

lemma mount_change_le:
  "node_le nd' nd \<Longrightarrow> (\<And>m. old = Some m \<Longrightarrow> ms_active m \<Longrightarrow> ms_active m' \<and> (ms_syncer m \<noteq> None \<longrightarrow> ms_syncer m' \<noteq> None) \<and>
     (mount_journal m \<noteq> None \<longrightarrow> mount_journal m' \<noteq> None)) \<Longrightarrow> mount_change old nd m' nd'"
  by (auto simp: mount_change_def usages_def node_le_def)

section \<open>Operations keep it\<close>

lemma new_mount_sel [simp]: "mount_ok (new_mount name)" "ms_name (new_mount name) = name" "\<not> ms_active (new_mount name)"
    "ms_syncer (new_mount name) = None" "ms_fenced (new_mount name) = None"
  by (simp_all add: mount_ok_def new_mount_def)

lemma mountFresh_change:
  assumes "mountFresh E c opts mount s nd = (m', s', nd', res)" "mount_ok mount" "\<not> ms_active mount" "ms_fenced mount = None"
  shows "mount_ok m'" "ms_name m' = ms_name mount" "old = None \<or> old = Some mount \<Longrightarrow> mount_change old nd m' nd'"
proof -
  have "mount_ok m' \<and> ms_name m' = ms_name mount \<and> (old = None \<or> old = Some mount \<longrightarrow> mount_change old nd m' nd')"
  proof (cases "ReadOnly opts")
    case True
    obtain s1 nd1 r where r: "mountReadOnly E c (ms_name mount) s nd = (s1, nd1, r)" by (rule prod_cases3)
    show ?thesis
    proof (cases r)
      case (Inl e)
      then have "m' = mount" "nd' = nd1" using assms(1) True r by (simp_all add: mountFresh_def)
      then show ?thesis using mountReadOnly_fails [OF r Inl] assms(2,3) by (auto simp: mount_change_def usages_def)
    next
      case (Inr p)
      obtain d um where p: "r = Inr (d, um)" using Inr by (cases p) auto
      then have m: "m' = mount\<lparr>ms_active := True, ms_device := Some d, ms_unmounter := Some um\<rparr>" "nd' = nd1"
        using assms(1) True r by (simp_all add: mountFresh_def)
      have "nd_beats nd1 = nd_beats nd \<and> nd_workers nd1 = nd_workers nd \<and> nd_open nd1 = nd_open nd \<and>
          nd_devices nd1 = finsert (ms_name mount) (nd_devices nd) \<and> nd_mounts nd1 = finsert (ms_name mount) (nd_mounts nd)"
        using r p by (auto simp: mountReadOnly_def Let_def split: prod.splits sum.splits if_splits)
      then show ?thesis using m assms(2-4) by (auto simp: mount_change_def usages_def mount_ok_def)
    qed
  next
    case False
    obtain s1 nd1 r where r: "mount_writable E c opts (ms_name mount) s nd = (s1, nd1, r)" by (rule prod_cases3)
    note o = mount_writable_outcome [OF r]
    show ?thesis
    proof (cases r)
      case (Inl e)
      then have "m' = mount" "nd' = nd1" using assms(1) False r by (simp_all add: mountFresh_def)
      then show ?thesis using o Inl assms(2,3) by (auto simp: outcome_ok_def intro: mount_change_le)
    next
      case (Inr y)
      then have m: "m' = mount\<lparr>ms_active := True, ms_syncer := Some y, ms_unmounter := Some \<lparr>bm_closed = False\<rparr>, ms_stopBeat := True\<rparr>" "nd' = nd1"
        using assms(1) False r by (simp_all add: mountFresh_def)
      show ?thesis using o Inr assms(2-4) unfolding m
        by (auto simp: outcome_ok_def node_mounted_def mount_change_def usages_def mount_ok_def mount_journal_def split: if_splits)
    qed
  qed
  then show "mount_ok m'" "ms_name m' = ms_name mount" "old = None \<or> old = Some mount \<Longrightarrow> mount_change old nd m' nd'" by blast+
qed

text \<open>A mount that is given up: either it still has what it had, or nothing is left of it.\<close>

definition dropped :: "'s mountState \<Rightarrow> 's mountState \<Rightarrow> node \<Rightarrow> node \<Rightarrow> bool" where
  "dropped mount m' nd nd' \<longleftrightarrow> node_le nd' nd \<and> ms_name m' = ms_name mount \<and>
     (mount_ok m' \<and> ms_active m' \<and> (ms_syncer m' = None \<longleftrightarrow> ms_syncer mount = None) \<and> (mount_journal m' = None \<longleftrightarrow> mount_journal mount = None) \<or>
      mount_ok m' \<and> \<not> ms_active m' \<and> ms_name mount |\<notin>| nd_devices nd' \<and> ms_name mount |\<notin>| nd_mounts nd' \<and>
      (mount_journal mount \<noteq> None \<longrightarrow> ms_name mount |\<notin>| nd_open nd') \<and>
      (ms_syncer mount \<noteq> None \<longrightarrow> ms_name mount |\<notin>| nd_beats nd' \<and> ms_name mount |\<notin>| nd_workers nd'))"

lemma dropped_change:
  assumes "dropped mount m' nd nd'" "\<And>m. old = Some m \<Longrightarrow> ms_syncer m = ms_syncer mount"
  shows "mount_ok m'" "mount_change old nd m' nd'"
proof -
  have "mount_journal m = mount_journal mount" if "old = Some m" for m using assms(2) [OF that] by (simp add: mount_journal_def)
  then show "mount_ok m'" "mount_change old nd m' nd'"
    using assms by (auto simp: dropped_def mount_change_def usages_def node_le_def)
qed

lemma cleared_sel [simp]:
  "ms_name (cleared m) = ms_name m" "ms_active (cleared m) = False" "ms_syncer (cleared m) = None" "ms_device (cleared m) = None"
  "ms_unmounter (cleared m) = None" "ms_stopBeat (cleared m) = False" "ms_fenced (cleared m) = ms_fenced m" "ms_mountIDs (cleared m) = ms_mountIDs m"
  by (simp_all add: cleared_def)

lemma mount_ok_cleared [simp]: "mount_ok (cleared m)" "mount_ok ((cleared m)\<lparr>ms_fenced := f\<rparr>)"
  by (simp_all add: mount_ok_def)

lemma give_up_sel:
  "node_le (give_up closing cleaned m nd) nd" "ms_name m |\<notin>| nd_devices (give_up closing cleaned m nd)"
  "ms_name m |\<notin>| nd_mounts (give_up closing cleaned m nd)" "ms_name m |\<notin>| nd_beats (give_up closing cleaned m nd)"
  "ms_name m |\<notin>| nd_workers (give_up closing cleaned m nd)" "mount_journal m \<noteq> None \<Longrightarrow> ms_name m |\<notin>| nd_open (give_up closing cleaned m nd)"
  by (auto simp: give_up_def Let_def node_le_def)

lemma node_le_trans: "node_le a b \<Longrightarrow> node_le b c \<Longrightarrow> node_le a c"
  by (auto simp: node_le_def)

lemma give_up_dropped:
  assumes "ms_name m = ms_name mount" "mount_journal m = None \<longleftrightarrow> mount_journal mount = None" "node_le nd1 nd"
  shows "dropped mount (cleared m) nd (give_up closing cleaned m nd1)"
proof -
  have "node_le (give_up closing cleaned m nd1) nd" by (rule node_le_trans [OF give_up_sel(1) assms(3)])
  then show ?thesis
    using give_up_sel [where closing = closing and cleaned = cleaned and m = m and nd = nd1] assms(1,2) by (auto simp: dropped_def)
qed

lemma close_journal_node:
  assumes "close_journal c remove name j nd = (j', nd', res)"
  shows "node_le nd' nd" "name |\<notin>| nd_open nd'" "nd_devices nd' = nd_devices nd" "nd_mounts nd' = nd_mounts nd"
    "nd_beats nd' = nd_beats nd" "nd_workers nd' = nd_workers nd"
  using assms by (auto simp: close_journal_def node_le_def split: if_splits prod.splits)

lemma finish_unmount_dropped:
  assumes "finish_unmount E c m s nd1 = (m', s', nd', res)" "mount_ok m" "ms_active m"
    and m: "ms_name m = ms_name mount" "ms_syncer m = None \<longleftrightarrow> ms_syncer mount = None" "mount_journal m = None \<longleftrightarrow> mount_journal mount = None"
    and nd1: "node_le nd1 nd" "ms_name mount |\<notin>| nd_mounts nd1"
      "ms_syncer mount \<noteq> None \<longrightarrow> ms_name mount |\<notin>| nd_beats nd1 \<and> ms_name mount |\<notin>| nd_workers nd1"
  shows "dropped mount m' nd nd'"
proof -
  let ?d = "case ms_syncer m of Some y \<Rightarrow> sy_device y | None \<Rightarrow> the (ms_device m)"
  let ?nd2 = "nd1\<lparr>nd_devices := nd_devices nd1 |-| {|ms_name m|}\<rparr>"
  obtain d' evs r where c: "Close (lazy_ops (dv_wire E) (um_lazyio c)) (um_device c) ?d = (d', evs, r)" by (rule prod_cases3)
  let ?m1 = "case ms_syncer m of Some y \<Rightarrow> m\<lparr>ms_syncer := Some (y\<lparr>sy_device := d'\<rparr>)\<rparr> | None \<Rightarrow> m\<lparr>ms_device := Some d'\<rparr>"
  have le: "node_le ?nd2 nd" using nd1(1) by (auto simp: node_le_def)
  have kept: "ms_name ?m1 = ms_name mount" "mount_ok ?m1" "ms_active ?m1" "ms_syncer ?m1 = None \<longleftrightarrow> ms_syncer mount = None"
    "mount_journal ?m1 = None \<longleftrightarrow> mount_journal mount = None"
    using assms(2,3) m by (auto simp: mount_ok_def mount_journal_def split: option.splits)
  show ?thesis
  proof (cases r)
    case (Inl e)
    then have "m' = ?m1" "nd' = ?nd2" using assms(1) c unfolding finish_unmount_def Let_def by auto
    then show ?thesis using kept le by (simp add: dropped_def)
  next
    case r: (Inr u)
    show ?thesis
    proof (cases "mount_journal m")
      case None
      then have "m' = cleared m" "nd' = cleanupLocal (um_cleaned c) (ms_name m) ?nd2" using assms(1) c r unfolding finish_unmount_def Let_def by auto
      then show ?thesis using le m nd1 None by (auto simp: dropped_def node_le_def)
    next
      case (Some j)
      obtain j' nd3 r2 where cj: "close_journal (um_closing c) True (ms_name m) j ?nd2 = (j', nd3, r2)" by (rule prod_cases3)
      note n3 = close_journal_node [OF cj]
      have le3: "node_le nd3 nd" using node_le_trans [OF n3(1) le] .
      obtain y where y: "ms_syncer m = Some y" using Some by (auto simp: mount_journal_def split: option.splits)
      show ?thesis
      proof (cases r2)
        case (Inl e)
        then have "m' = ?m1\<lparr>ms_syncer := map_option (\<lambda>y. y\<lparr>sy_journal := Some j'\<rparr>) (ms_syncer ?m1)\<rparr>" "nd' = nd3"
          using assms(1) c r Some cj unfolding finish_unmount_def Let_def by auto
        then show ?thesis using kept le3 Some m(3) y by (auto simp: dropped_def mount_ok_def mount_journal_def)
      next
        case (Inr v)
        then have "m' = cleared m" "nd' = cleanupLocal (um_cleaned c) (ms_name m) nd3"
          using assms(1) c r Some cj unfolding finish_unmount_def Let_def by auto
        then show ?thesis using le3 n3 m nd1 by (auto simp: dropped_def node_le_def)
      qed
    qed
  qed
qed

text \<open>Nothing but the driver opens or closes the journal of a replicator.\<close>

definition keeps_journal :: "((LazyImage, 's) Syncer \<Rightarrow> (LazyImage, 's) Syncer) \<Rightarrow> bool" where
  "keeps_journal work \<longleftrightarrow> (\<forall>y. sy_journal (work y) = None \<longleftrightarrow> sy_journal y = None)"

lemma SyncCheckpoint_journal [simp]: "sy_journal (SyncCheckpoint E writes ready n y) = None \<longleftrightarrow> sy_journal y = None"
proof -
  obtain g d where g: "sealLocked (sy_device y) = (g, d)" by fastforce
  obtain rq y1 where p: "prepareLocalGeneration E writes ready g (y\<lparr>sy_device := d\<rparr>) = (rq, y1)" by fastforce
  have "sy_journal y1 = None \<longleftrightarrow> sy_journal y = None"
    using p by (auto simp: prepareLocalGeneration_def split: option.splits if_splits prod.splits)
  then show ?thesis using g p by (simp add: SyncCheckpoint_def Syncer_request_def enqueue_def answer_def Let_def)
qed

lemma fold_answer_journal [simp]: "sy_journal (fold (\<lambda>rq. answer (rq_result rq) e) rqs y) = sy_journal y"
  by (induction rqs arbitrary: y) simp_all

lemma closeRequests_journal [simp]: "sy_journal (closeRequests y) = sy_journal y"
  by (simp add: closeRequests_def Let_def)

lemma Syncer_Stop_journal: "Syncer_Stop E synced waits y = (y', res) \<Longrightarrow> sy_journal y' = sy_journal y"
  by (auto simp: Syncer_Stop_def split: if_splits sum.splits prod.splits)

text \<open>The replicator at the end of \<open>unmountLast\<close>: after the final request, and stopped.\<close>

definition final_synced :: "'s driver_env \<Rightarrow> 's unmount_script \<Rightarrow> 's \<Rightarrow> (LazyImage, 's) Syncer \<Rightarrow> (LazyImage, 's) Syncer" where
  "final_synced E c s y = um_work c (SyncCheckpoint (dv_sync E) (um_writes c) (um_ready c) (um_result c) (y\<lparr>sy_store := s\<rparr>))"

definition final_stopped :: "'s driver_env \<Rightarrow> 's unmount_script \<Rightarrow> (LazyImage, 's) Syncer \<Rightarrow> (LazyImage, 's) Syncer \<times> unit result" where
  "final_stopped E c y =
     (let y2 = (if sy_stopped y then y else um_more c (SyncCheckpoint (dv_sync E) (um_last_writes c) (um_last_ready c) (um_last c) y))
      in Syncer_Stop (dv_sync E) (answer_of (um_last c) y2) (um_waits c) y2)"

lemma final_journal:
  assumes "keeps_journal (um_work c)" "keeps_journal (um_more c)" "final_stopped E c (final_synced E c s y) = (y3, rs)"
  shows "sy_journal (final_synced E c s y) = None \<longleftrightarrow> sy_journal y = None" "sy_journal y3 = None \<longleftrightarrow> sy_journal y = None"
proof -
  show 1: "sy_journal (final_synced E c s y) = None \<longleftrightarrow> sy_journal y = None" using assms(1) by (simp add: final_synced_def keeps_journal_def)
  show "sy_journal y3 = None \<longleftrightarrow> sy_journal y = None"
    using assms(2) 1 Syncer_Stop_journal [OF assms(3) [unfolded final_stopped_def Let_def]] by (simp add: keeps_journal_def)
qed

lemma unmountLast_syncer:
  assumes "unmountLast E c mount s nd = (m', s', nd', res)" "Mount_Unmount (um_close c) (the (ms_unmounter mount)) = (u, Inr v)"
    "ms_syncer mount = Some y" "final_stopped E c (final_synced E c s y) = (y3, rs)"
  defines "nd1 \<equiv> nd\<lparr>nd_mounts := nd_mounts nd |-| {|ms_name mount|}\<rparr>" and "m1 \<equiv> mount\<lparr>ms_unmounter := Some u\<rparr>"
  defines "nd2 \<equiv> nd1\<lparr>nd_beats := nd_beats nd1 |-| {|ms_name mount|}\<rparr>"
  shows "(m', s', nd', res) = (case answer_of (um_result c) (final_synced E c s y) of
       Inl e \<Rightarrow> abandonUnmounted E c (Wrap ''final sync'' e) (m1\<lparr>ms_syncer := Some (final_synced E c s y)\<rparr>) (sy_store (final_synced E c s y)) nd1
     | Inr _ \<Rightarrow> (case rs of
         Inl e \<Rightarrow> abandonUnmounted E c (Wrap ''release'' e) (m1\<lparr>ms_syncer := Some y3\<rparr>) (sy_store y3) nd2
       | Inr _ \<Rightarrow> finish_unmount E c (m1\<lparr>ms_syncer := Some y3\<rparr>) (sy_store y3) (nd2\<lparr>nd_workers := nd_workers nd2 |-| {|ms_name mount|}\<rparr>)))"
  using assms(1-4) unfolding unmountLast_def Let_def nd1_def nd2_def m1_def final_synced_def final_stopped_def by (simp split: sum.splits)

lemma unmountLast_dropped:
  assumes "unmountLast E c mount s nd = (m', s', nd', res)" "mount_ok mount" "ms_active mount" "keeps_journal (um_work c)" "keeps_journal (um_more c)"
  shows "dropped mount m' nd nd'"
proof -
  obtain u r where u: "Mount_Unmount (um_close c) (the (ms_unmounter mount)) = (u, r)" by fastforce
  let ?nd1 = "nd\<lparr>nd_mounts := nd_mounts nd |-| {|ms_name mount|}\<rparr>" and ?m1 = "mount\<lparr>ms_unmounter := Some u\<rparr>"
  let ?nd2 = "?nd1\<lparr>nd_beats := nd_beats ?nd1 |-| {|ms_name mount|}\<rparr>"
  have le: "node_le ?nd1 nd" "node_le ?nd2 nd" "node_le (?nd2\<lparr>nd_workers := nd_workers ?nd2 |-| {|ms_name mount|}\<rparr>) nd" by (auto simp: node_le_def)
  consider e where "r = Inl e" | v where "r = Inr v" "ms_syncer mount = None" | v y where "r = Inr v" "ms_syncer mount = Some y" by (cases r) auto
  then show ?thesis
  proof cases
    case 1
    then have "m' = ?m1" "nd' = nd" using assms(1) u by (simp_all add: unmountLast_def)
    then show ?thesis using assms(2,3) by (auto simp: dropped_def node_le_def mount_ok_def mount_journal_def)
  next
    case 2
    then have "finish_unmount E c ?m1 s ?nd1 = (m', s', nd', res)" using assms(1) u by (simp add: unmountLast_def)
    from finish_unmount_dropped [OF this, of mount nd] show ?thesis
      using assms(2,3) 2 le by (auto simp: mount_ok_def mount_journal_def)
  next
    case 3
    let ?y1 = "final_synced E c s y"
    obtain y3 rs where y3: "final_stopped E c ?y1 = (y3, rs)" by fastforce
    note eq = unmountLast_syncer [OF assms(1) u [unfolded 3(1)] 3(2) y3] and j = final_journal [OF assms(4,5) y3]
    have gone: "dropped mount (cleared (?m1\<lparr>ms_syncer := Some x\<rparr>)) nd (give_up (um_closing c) (um_cleaned c) (?m1\<lparr>ms_syncer := Some x\<rparr>) ndx)"
      if "sy_journal x = None \<longleftrightarrow> sy_journal y = None" "node_le ndx nd" for x ndx
      using that 3(2) by (intro give_up_dropped) (auto simp: mount_journal_def)
    consider e where "answer_of (um_result c) ?y1 = Inl e" | w e where "answer_of (um_result c) ?y1 = Inr w" "rs = Inl e"
      | w x where "answer_of (um_result c) ?y1 = Inr w" "rs = Inr x" by (metis sumE)
    then show ?thesis
    proof cases
      case 1
      then show ?thesis using eq gone [OF j(1) le(1)] by (simp add: abandonUnmounted_def)
    next
      case 2
      then show ?thesis using eq gone [OF j(2) le(2)] by (simp add: abandonUnmounted_def)
    next
      case 4: 3
      then have "finish_unmount E c (?m1\<lparr>ms_syncer := Some y3\<rparr>) (sy_store y3) (?nd2\<lparr>nd_workers := nd_workers ?nd2 |-| {|ms_name mount|}\<rparr>) = (m', s', nd', res)"
        using eq by simp
      from finish_unmount_dropped [OF this, of mount nd] show ?thesis
        using assms(2,3) 3(2) j(2) le by (auto simp: mount_ok_def mount_journal_def)
    qed
  qed
qed

section \<open>Runs\<close>

text \<open>
  One operation of the driver, or what happens beside it: the worker, the heartbeat and the file system
  change the replicator of a mount and the store, and other hosts change the store. A fence can come at
  any time for any mount.
\<close>

inductive driver_step :: "'s driver_env \<Rightarrow> 's Driver \<Rightarrow> 's Driver \<Rightarrow> bool" for E where
  created: "Create E now wrote name raw d = (d', res) \<Longrightarrow> driver_step E d d'"
| looked: "lookup_volume E now wrote name d = (d', found) \<Longrightarrow> driver_step E d d'"
| mounted: "Driver_Mount E now wrote c name mountID d = (d', mnt) \<Longrightarrow> driver_step E d d'"
| unmounted: "Driver_Unmount E now wrote c' name mountID d = (d', res) \<Longrightarrow> keeps_journal (um_work c') \<Longrightarrow> keeps_journal (um_more c') \<Longrightarrow>
    driver_step E d d'"
| fenced: "mount_at d vol key = Some m \<Longrightarrow> driver_step E d (fence closing cleaned cause vol m d)"
| removed: "Driver_Remove E now wrote cleaned gone unregistered name d = (d', res) \<Longrightarrow> driver_step E d d'"
| shut: "Shutdown E order d = (d', errs) \<Longrightarrow> \<forall>(vol, key, c')\<in>set order. keeps_journal (um_work c') \<and> keeps_journal (um_more c') \<Longrightarrow>
    driver_step E d d'"
| worked: "mount_at d vol key = Some m \<Longrightarrow> ms_syncer m = Some y \<Longrightarrow> sy_journal y' = None \<longleftrightarrow> sy_journal y = None \<Longrightarrow>
    driver_step E d (put_mount vol (m\<lparr>ms_syncer := Some y'\<rparr>) (d\<lparr>dr_store := s\<rparr>))"
| stored: "driver_step E d (d\<lparr>dr_store := s\<rparr>)"

definition same_use :: "node \<Rightarrow> node \<Rightarrow> bool" where
  "same_use nd nd' \<longleftrightarrow> nd_beats nd' = nd_beats nd \<and> nd_workers nd' = nd_workers nd \<and> nd_devices nd' = nd_devices nd \<and>
     nd_open nd' = nd_open nd \<and> nd_mounts nd' = nd_mounts nd"

lemma same_use_inv:
  fixes d d' :: "'s Driver"
  assumes "driver_inv d" "\<And>v k m. mount_at d' v k = Some m \<Longrightarrow> mount_at d v k = Some m"
    "\<And>v k m. mount_at d v k = Some m \<Longrightarrow> ms_active m \<Longrightarrow> mount_at d' v k = Some m" "same_use (dr_node d) (dr_node d')"
  shows "driver_inv d'"
proof -
  have "owned u d'" if u: "u \<in> set usages" for u :: "'s usage"
    unfolding owned_def
  proof (intro allI impI)
    fix n assume "fst u (dr_node d') n"
    then have "fst u (dr_node d) n" using u assms(4) by (auto simp: usages_def same_use_def)
    then obtain v k m where m: "mount_at d v k = Some m" "ms_name m = n" "ms_active m" "snd u m"
      using assms(1) u by (fastforce simp: driver_inv_def owned_def)
    show "\<exists>v k m. mount_at d' v k = Some m \<and> ms_name m = n \<and> ms_active m \<and> snd u m"
      using assms(3) [OF m(1,3)] m(2-4) by blast
  qed
  moreover have "\<forall>v k m. mount_at d' v k = Some m \<longrightarrow> ms_name m = k \<and> mount_ok m"
    using assms(1,2) unfolding driver_inv_def by blast
  ultimately show ?thesis by (simp add: driver_inv_def)
qed

lemma saveRecord_use: "saveRecord E wrote rec nd = (nd', res) \<Longrightarrow> same_use nd nd'"
  by (auto simp: saveRecord_def same_use_def Let_def split: file_write_outcome.splits)

lemma same_use_refl [simp]: "same_use nd nd"
  by (simp add: same_use_def)

text \<open>Registering a volume that was not there adds no mount.\<close>

lemma mount_at_register:
  assumes "fmlookup (dr_volumes d) name = None"
  shows "mount_at (d\<lparr>dr_store := s, dr_node := nd, dr_volumes := fmupd name (new_state rec) (dr_volumes d)\<rparr>) v k = mount_at d v k"
    "mount_at (d\<lparr>dr_node := nd, dr_volumes := fmupd name (new_state rec) (dr_volumes d)\<rparr>) v k = mount_at d v k"
  using assms
  by (auto simp: mount_at_def new_state_def)

lemma mount_at_same [simp]: "mount_at (d\<lparr>dr_store := s\<rparr>) v k = mount_at d v k" "mount_at (d\<lparr>dr_node := nd\<rparr>) v k = mount_at d v k"
  by (simp_all add: mount_at_def)

lemma driver_inv_store [simp]: "driver_inv (d\<lparr>dr_store := s\<rparr>) = driver_inv d"
  by (simp add: driver_inv_def owned_def)

lemma lookup_volume_inv:
  assumes "lookup_volume E now wrote name d = (d', res)" "driver_inv d"
  shows "driver_inv d'" "res = Inr state \<Longrightarrow> fmlookup (dr_volumes d') name = Some state"
proof -
  consider "d' = d" "res = Inr state \<longrightarrow> fmlookup (dr_volumes d) name = Some state" | s e where "d' = d\<lparr>dr_store := s\<rparr>" "res = Inl e"
    | s rec nd r where "saveRecord E wrote rec (dr_node d) = (nd, r)" "fmlookup (dr_volumes d) name = None"
      "d' = d\<lparr>dr_store := s, dr_node := nd\<rparr> \<and> (\<exists>e. res = Inl e) \<or>
       d' = d\<lparr>dr_store := s, dr_node := nd, dr_volumes := fmupd name (new_state rec) (dr_volumes d)\<rparr> \<and> res = Inr (new_state rec)"
    using assms(1) unfolding lookup_volume_def Let_def by (auto split: option.splits if_splits prod.splits sum.splits)
  then have "driver_inv d' \<and> (res = Inr state \<longrightarrow> fmlookup (dr_volumes d') name = Some state)"
  proof cases
    case 3
    have "driver_inv d'"
      using 3 saveRecord_use [OF 3(1)] by (intro same_use_inv [OF assms(2)]) (auto simp: mount_at_register)
    then show ?thesis using 3 by auto
  qed (use assms(2) in auto)
  then show "driver_inv d'" "res = Inr state \<Longrightarrow> fmlookup (dr_volumes d') name = Some state" by blast+
qed

lemma Create_inv:
  assumes "Create E now wrote name raw d = (d', res)" "driver_inv d"
  shows "driver_inv d'"
proof -
  consider "d' = d"
    | rec nd r where "saveRecord E wrote rec (dr_node d) = (nd, r)" "fmlookup (dr_volumes d) name = None"
      "d' = d\<lparr>dr_node := nd\<rparr> \<or> d' = d\<lparr>dr_node := nd, dr_volumes := fmupd name (new_state rec) (dr_volumes d)\<rparr>"
    using assms(1) unfolding Create_def Let_def by (auto split: if_splits sum.splits option.splits prod.splits)
  then show ?thesis
  proof cases
    case 2
    then show ?thesis using saveRecord_use [OF 2(1)]
      by (intro same_use_inv [OF assms(2)]) (auto simp: mount_at_register)
  qed (use assms(2) in simp)
qed

lemma mountStateFor_cases:
  obtains n where "mountStateFor E mountID state = (case fmlookup (vs_mounts state) n of None \<Rightarrow> new_mount n | Some mount \<Rightarrow> mount)"
  using that unfolding mountStateFor_def Let_def by blast

lemma mountStateFor_at:
  assumes "driver_inv d" "fmlookup (dr_volumes d) name = Some state" "m = mountStateFor E mountID state"
  shows "mount_ok m" "fmlookup (vs_mounts state) (ms_name m) = None \<and> m = new_mount (ms_name m) \<or> fmlookup (vs_mounts state) (ms_name m) = Some m"
proof -
  obtain n where n: "m = (case fmlookup (vs_mounts state) n of None \<Rightarrow> new_mount n | Some mount \<Rightarrow> mount)"
    unfolding assms(3) by (rule mountStateFor_cases)
  have at: "ms_name x = n \<and> mount_ok x" if "fmlookup (vs_mounts state) n = Some x" for x
  proof -
    have "mount_at d name n = Some x" using that assms(2) by (simp add: mount_at_def)
    then show ?thesis using assms(1) unfolding driver_inv_def by blast
  qed
  show "mount_ok m" "fmlookup (vs_mounts state) (ms_name m) = None \<and> m = new_mount (ms_name m) \<or> fmlookup (vs_mounts state) (ms_name m) = Some m"
    using n at by (auto split: option.splits)
qed

lemma mountStateFor_absent: "old = None \<and> m = new_mount (ms_name m) \<or> old = Some m \<Longrightarrow> old = None \<and> \<not> ms_active m \<or> old = Some m"
  by (metis new_mount_sel(3))

text \<open>What an operation does to the mount it found, and to the node, is done to the driver.\<close>

lemma found_mount_inv:
  assumes "driver_inv d" "fmlookup (dr_volumes d) name = Some state" "mount_ok m'"
    "old = fmlookup (vs_mounts state) (ms_name m')" "mount_change old (dr_node d) m' nd'"
  shows "driver_inv (put_mount name m' (d\<lparr>dr_store := s, dr_node := nd'\<rparr>))"
  using put_mount_inv [OF assms(1-3)] assms(4,5) by simp

lemma mountIDs_change:
  assumes "mount_ok m" "old = None \<and> \<not> ms_active m \<or> old = Some m"
  shows "mount_ok (m\<lparr>ms_mountIDs := ids\<rparr>)" "mount_change old nd (m\<lparr>ms_mountIDs := ids\<rparr>) nd"
  using assms by (auto simp: mount_ok_def mount_change_def usages_def mount_journal_def)

lemma Driver_Mount_inv:
  assumes "Driver_Mount E now wrote c name mountID d = (d', res)" "driver_inv d"
  shows "driver_inv d'"
proof -
  obtain d1 r where l: "lookup_volume E now wrote name d = (d1, r)" by fastforce
  note inv = lookup_volume_inv(1) [OF l assms(2)]
  show ?thesis
  proof (cases r)
    case (Inl e)
    then show ?thesis using assms(1) l inv by (simp add: Driver_Mount_def)
  next
    case (Inr state)
    note st = lookup_volume_inv(2) [OF l assms(2) Inr]
    define m where "m = mountStateFor E mountID state"
    note m = mountStateFor_at [OF inv st m_def]
    let ?old = "fmlookup (vs_mounts state) (ms_name m)"
    have same: "driver_inv (put_mount name (m\<lparr>ms_mountIDs := ids\<rparr>) d1)" for ids
      using mountIDs_change [OF m(1), where old = ?old] mountStateFor_absent [OF m(2)]
      by (intro found_mount_inv [OF inv st, where s = "dr_store d1" and nd' = "dr_node d1" and old = ?old, simplified])
        simp_all
    obtain m' s nd r2 where f: "mountFresh E c (rc_Options (vs_record state)) m (dr_store d1) (dr_node d1) = (m', s, nd, r2)" by (rule prod_cases4)
    show ?thesis
    proof (cases "ms_fenced m \<noteq> None \<or> ms_active m")
      case True
      then have "\<exists>ids. d' = put_mount name (m\<lparr>ms_mountIDs := ids\<rparr>) d1"
        using assms(1) l Inr by (auto simp: Driver_Mount_def Let_def m_def [symmetric] split: option.splits intro: exI [of _ "ms_mountIDs m"])
      then show ?thesis using same by blast
    next
      case False
      then have fresh: "\<not> ms_active m" "ms_fenced m = None" by simp_all
      note ch = mountFresh_change(1,2) [OF f m(1) fresh] mountFresh_change(3) [OF f m(1) fresh, of ?old]
      have "mount_change ?old (dr_node d1) (m'\<lparr>ms_mountIDs := ids\<rparr>) nd" "mount_ok (m'\<lparr>ms_mountIDs := ids\<rparr>)" for ids
        using ch m(2) by (auto simp: mount_change_def usages_def mount_journal_def mount_ok_def)
      then have "driver_inv (put_mount name (m'\<lparr>ms_mountIDs := ids\<rparr>) (d1\<lparr>dr_store := s, dr_node := nd\<rparr>))" for ids
        by (intro found_mount_inv [OF inv st]) (use ch(2) in auto)
      moreover have "\<exists>ids. d' = put_mount name (m'\<lparr>ms_mountIDs := ids\<rparr>) (d1\<lparr>dr_store := s, dr_node := nd\<rparr>)"
        using assms(1) l Inr fresh f
        by (auto simp: Driver_Mount_def Let_def m_def [symmetric] split: sum.splits intro: exI [of _ "ms_mountIDs m'"])
      ultimately show ?thesis by blast
    qed
  qed
qed

lemma Driver_Unmount_inv:
  assumes "Driver_Unmount E now wrote c name mountID d = (d', res)" "driver_inv d" "keeps_journal (um_work c)" "keeps_journal (um_more c)"
  shows "driver_inv d'"
proof -
  obtain d1 r where l: "lookup_volume E now wrote name d = (d1, r)" by fastforce
  note inv = lookup_volume_inv(1) [OF l assms(2)]
  show ?thesis
  proof (cases r)
    case (Inl e)
    then show ?thesis using assms(1) l inv by (simp add: Driver_Unmount_def)
  next
    case (Inr state)
    note st = lookup_volume_inv(2) [OF l assms(2) Inr]
    define m0 where "m0 = mountStateFor E mountID state"
    note m0 = mountStateFor_at [OF inv st m0_def]
    define m where "m = m0\<lparr>ms_mountIDs := ms_mountIDs m0 |-| {|mountID|}\<rparr>"
    let ?old = "fmlookup (vs_mounts state) (ms_name m0)"
    have same: "driver_inv (put_mount name m d1)" "\<not> ms_active m0 \<Longrightarrow> driver_inv (put_mount name (m\<lparr>ms_fenced := None\<rparr>) d1)"
      using m0 by (auto simp: m_def mount_ok_def mount_change_def usages_def mount_journal_def
          intro!: found_mount_inv [OF inv st, where s = "dr_store d1" and nd' = "dr_node d1" and old = ?old, simplified])
    obtain m' s nd r2 where f: "unmountLast E c m (dr_store d1) (dr_node d1) = (m', s, nd, r2)" by (rule prod_cases4)
    have eq: "(d', res) = (if ms_fenced m \<noteq> None then (put_mount name (if ms_mountIDs m = {||} then m\<lparr>ms_fenced := None\<rparr> else m) d1, Inr ())
        else if \<not> ms_active m \<or> ms_mountIDs m \<noteq> {||} then (put_mount name m d1, Inr ())
        else (put_mount name m' (d1\<lparr>dr_store := s, dr_node := nd\<rparr>), r2))"
      using assms(1) unfolding Driver_Unmount_def l Inr Let_def prod.case sum.case m0_def [symmetric] m_def [symmetric] f by simp
    have "ms_fenced m \<noteq> None \<Longrightarrow> \<not> ms_active m0" using m0(1) by (auto simp: m_def mount_ok_def)
    moreover have "driver_inv (put_mount name m' (d1\<lparr>dr_store := s, dr_node := nd\<rparr>))" if "ms_active m"
    proof -
      have "mount_ok m" using m0(1) by (auto simp: m_def mount_ok_def)
      from unmountLast_dropped [OF f this that assms(3,4)] have dr: "dropped m m' (dr_node d1) nd" .
      show ?thesis using dropped_change [OF dr, of ?old] m0(2) dr
        by (intro found_mount_inv [OF inv st, where old = ?old]) (auto simp: m_def dropped_def)
    qed
    ultimately show ?thesis using eq same by (auto split: if_splits)
  qed
qed

lemma fence_inv:
  assumes "driver_inv d" "mount_at d vol key = Some m"
  shows "driver_inv (fence closing cleaned cause vol m d)"
proof (cases "ms_active m")
  case True
  obtain state where st: "fmlookup (dr_volumes d) vol = Some state" "fmlookup (vs_mounts state) key = Some m"
    using assms(2) by (auto simp: mount_at_def bind_eq_Some_conv)
  have key: "ms_name m = key" using assms by (auto simp: driver_inv_def)
  let ?m = "(cleared m)\<lparr>ms_fenced := Some cause\<rparr>" and ?nd = "give_up closing cleaned m (dr_node d)"
  have "mount_change (Some m) (dr_node d) ?m ?nd"
    using give_up_sel [where closing = closing and cleaned = cleaned and m = m and nd = "dr_node d"] by (auto simp: mount_change_def usages_def node_le_def)
  then show ?thesis
    using found_mount_inv [OF assms(1) st(1), of ?m "Some m" ?nd "dr_store d"] st(2) key True by (simp add: fence_def)
qed (use assms(1) in \<open>simp add: fence_def\<close>)

lemma fold_drop_files_use: "same_use nd (fold (drop_files cleaned removed) names nd)"
  by (induction names arbitrary: nd) (auto simp: drop_files_def Let_def same_use_def)

lemma Driver_Remove_inv:
  assumes "Driver_Remove E now wrote cleaned removed unregistered name d = (d', res)" "driver_inv d"
  shows "driver_inv d'"
proof -
  obtain d1 r where l: "lookup_volume E now wrote name d = (d1, r)" by fastforce
  note inv = lookup_volume_inv(1) [OF l assms(2)]
  show ?thesis
  proof (cases r)
    case (Inl e)
    then show ?thesis using assms(1) l inv by (simp add: Driver_Remove_def)
  next
    case (Inr state)
    note st = lookup_volume_inv(2) [OF l assms(2) Inr]
    consider "d' = d1" | s where "d' = d1\<lparr>dr_store := s\<rparr>"
      | s nd where "\<not> fBex (fmran (vs_mounts state)) ms_active" "same_use (dr_node d1) nd"
        "d' = d1\<lparr>dr_store := s, dr_node := nd\<rparr> \<or> d' = d1\<lparr>dr_store := s, dr_node := nd, dr_volumes := fmdrop name (dr_volumes d1)\<rparr>"
    proof -
      let ?nd = "fold (drop_files cleaned removed) (sorted_list_of_set (fset (fmdom (vs_mounts state))) @ [name]) (dr_node d1)"
      have use: "same_use (dr_node d1) ?nd" "same_use (dr_node d1) (?nd\<lparr>nd_records := x\<rparr>)" for x
        using fold_drop_files_use by (simp_all add: same_use_def del: fold_append)
      have "d' = d1 \<or> (\<exists>s. d' = d1\<lparr>dr_store := s\<rparr>) \<or> \<not> fBex (fmran (vs_mounts state)) ms_active \<and>
          (\<exists>s. d' = d1\<lparr>dr_store := s, dr_node := ?nd\<rparr> \<or>
             d' = d1\<lparr>dr_store := s, dr_node := ?nd\<lparr>nd_records := fmdrop name (nd_records ?nd)\<rparr>, dr_volumes := fmdrop name (dr_volumes d1)\<rparr>)"
        using assms(1) l Inr unfolding Driver_Remove_def Let_def by (auto split: if_splits sum.splits prod.splits)
      then show thesis using that use by metis
    qed
    then show ?thesis
    proof cases
      case 3
      have "\<not> ms_active m" if "mount_at d1 name k = Some m" for k m
        using that st 3(1) by (auto simp: mount_at_def intro: fmranI)
      then show ?thesis using 3(2,3)
        by (intro same_use_inv [OF inv]) (auto simp: mount_at_def bind_eq_Some_conv split: if_splits)
    qed (use inv in simp_all)
  qed
qed

lemma Shutdown_inv:
  "driver_inv d \<Longrightarrow> \<forall>(vol, key, c)\<in>set order. keeps_journal (um_work c) \<and> keeps_journal (um_more c) \<Longrightarrow> driver_inv (fst (Shutdown E order d))"
proof (induction E order d rule: Shutdown.induct)
  case (2 E vol name c order d)
  show ?case
  proof (cases "mount_at d vol name")
    case None
    then show ?thesis using 2 by (simp add: mount_at_def)
  next
    case (Some m)
    then obtain state where st: "fmlookup (dr_volumes d) vol = Some state" "fmlookup (vs_mounts state) name = Some m"
      by (auto simp: mount_at_def bind_eq_Some_conv)
    have ok: "ms_name m = name" "mount_ok m" using 2(4) Some by (auto simp: driver_inv_def)
    obtain m' s nd r where f: "unmountLast E c m (dr_store d) (dr_node d) = (m', s, nd, r)" by (rule prod_cases4)
    let ?d = "put_mount vol m' (d\<lparr>dr_store := s, dr_node := nd\<rparr>)"
    show ?thesis
    proof (cases "ms_active m")
      case True
      from unmountLast_dropped [OF f ok(2) True] have dr: "dropped m m' (dr_node d) nd" using 2(5) by simp
      have "driver_inv ?d" using dropped_change [OF dr, of "Some m"] st(2) ok dr
        by (intro found_mount_inv [OF 2(4) st(1), where old = "Some m"]) (auto simp: dropped_def)
      then have "driver_inv (fst (Shutdown E order ?d))" using 2(3) [OF Some [unfolded mount_at_def]] True f 2(5) by simp
      then show ?thesis using st True f by (auto split: prod.splits)
    qed (use 2(2) [OF Some [unfolded mount_at_def]] 2(4,5) st in simp)
  qed
qed simp


lemma worked_inv:
  assumes "driver_inv d" "mount_at d vol key = Some m" "ms_syncer m = Some y" "sy_journal y' = None \<longleftrightarrow> sy_journal y = None"
  shows "driver_inv (put_mount vol (m\<lparr>ms_syncer := Some y'\<rparr>) (d\<lparr>dr_store := s\<rparr>))"
proof -
  obtain state where st: "fmlookup (dr_volumes d) vol = Some state" "fmlookup (vs_mounts state) key = Some m"
    using assms(2) by (auto simp: mount_at_def bind_eq_Some_conv)
  have ok: "ms_name m = key" "mount_ok m" using assms(1,2) by (auto simp: driver_inv_def)
  have "mount_ok (m\<lparr>ms_syncer := Some y'\<rparr>)" using ok(2) assms(3) by (auto simp: mount_ok_def)
  moreover have "mount_change (Some m) (dr_node d) (m\<lparr>ms_syncer := Some y'\<rparr>) (dr_node d)"
    using assms(3,4) by (auto simp: mount_change_def usages_def mount_journal_def)
  ultimately show ?thesis
    using found_mount_inv [OF assms(1) st(1), where old = "Some m" and nd' = "dr_node d" and s = s and m' = "m\<lparr>ms_syncer := Some y'\<rparr>"] st(2) ok(1) by simp
qed

lemma driver_step_inv: "driver_step E d d' \<Longrightarrow> driver_inv d \<Longrightarrow> driver_inv d'"
proof (induction rule: driver_step.induct)
  case (shut order d d' errs)
  then show ?case using Shutdown_inv [of d order E] by simp
qed (auto intro: Create_inv lookup_volume_inv(1) Driver_Mount_inv Driver_Unmount_inv fence_inv Driver_Remove_inv worked_inv)

lemma driver_run_inv: "(driver_step E)\<^sup>*\<^sup>* d d' \<Longrightarrow> driver_inv d \<Longrightarrow> driver_inv d'"
  by (induction rule: rtranclp_induct) (auto intro: driver_step_inv)

lemma loadRegistry_mounts:
  "loadRegistry E files volumes = Inr volumes' \<Longrightarrow> (\<forall>vol state. fmlookup volumes vol = Some state \<longrightarrow> vs_mounts state = fmempty) \<Longrightarrow>
     fmlookup volumes' vol = Some state \<Longrightarrow> vs_mounts state = fmempty"
proof (induction E files volumes rule: loadRegistry.induct)
  case (2 E f files volumes)
  then show ?case by (cases f) (auto simp: new_state_def split: sum.splits if_splits)
qed auto

lemma New_driver_inv:
  assumes "New_driver E mkdirs files s nd = Inr d" "\<And>n. \<not> used n nd"
  shows "driver_inv d"
proof -
  obtain volumes where v: "loadRegistry E files fmempty = Inr volumes" "d = \<lparr>dr_store = s, dr_node = nd, dr_volumes = volumes\<rparr>"
    using assms(1) by (auto simp: New_driver_def bindR_def split: sum.splits)
  have "mount_at d vol key = None" for vol key
    using loadRegistry_mounts [OF v(1)] v(2) by (cases "fmlookup volumes vol") (auto simp: mount_at_def)
  then show ?thesis using assms(2) v(2) by (auto simp: driver_inv_def owned_def usages_def used_def)
qed

section \<open>The property\<close>

text \<open>
  C21. Over every sequence of operations of the driver, of its replicators and of fences, from a start on
  a node where nothing is in use: each running heartbeat and worker, each open device and journal
  and each attached mount belongs to an active mount of a volume that has it; an active mount has its
  unmounter and, unless it is read-only, its replicator; and a fenced mount is not active and has
  none of them.
\<close>

theorem driver_uses_only_active_mounts:
  assumes "New_driver E mkdirs files s nd = Inr d" "\<And>n. \<not> used n nd" "(driver_step E)\<^sup>*\<^sup>* d d'"
  shows "(\<forall>n. n |\<in>| nd_beats (dr_node d') \<or> n |\<in>| nd_workers (dr_node d') \<longrightarrow>
      (\<exists>vol m. mount_at d' vol n = Some m \<and> ms_active m \<and> ms_syncer m \<noteq> None)) \<and>
    (\<forall>n. n |\<in>| nd_open (dr_node d') \<longrightarrow> (\<exists>vol m. mount_at d' vol n = Some m \<and> ms_active m \<and> mount_journal m \<noteq> None)) \<and>
    (\<forall>n. n |\<in>| nd_devices (dr_node d') \<or> n |\<in>| nd_mounts (dr_node d') \<longrightarrow> (\<exists>vol m. mount_at d' vol n = Some m \<and> ms_active m)) \<and>
    (\<forall>vol key m. mount_at d' vol key = Some m \<longrightarrow> ms_name m = key \<and>
      (ms_active m \<longleftrightarrow> ms_unmounter m \<noteq> None) \<and> (ms_active m \<longleftrightarrow> ms_device m \<noteq> None \<or> ms_syncer m \<noteq> None) \<and>
      (ms_fenced m \<noteq> None \<longrightarrow> \<not> ms_active m))"
proof -
  have inv: "driver_inv d'" by (rule driver_run_inv [OF assms(3) New_driver_inv [OF assms(1,2)]])
  have own: "\<exists>vol m. mount_at d' vol n = Some m \<and> ms_active m \<and> snd u m" if "u \<in> set usages" "fst u (dr_node d') n" for u n
    using inv that unfolding driver_inv_def owned_def by metis
  have "\<exists>vol m. mount_at d' vol n = Some m \<and> ms_active m \<and> ms_syncer m \<noteq> None" if "n |\<in>| nd_beats (dr_node d') \<or> n |\<in>| nd_workers (dr_node d')" for n
    using own [of "usages ! 0" n] that by (simp add: usages_def)
  moreover have "\<exists>vol m. mount_at d' vol n = Some m \<and> ms_active m \<and> mount_journal m \<noteq> None" if "n |\<in>| nd_open (dr_node d')" for n
    using own [of "usages ! 1" n] that by (simp add: usages_def)
  moreover have "\<exists>vol m. mount_at d' vol n = Some m \<and> ms_active m" if "n |\<in>| nd_devices (dr_node d') \<or> n |\<in>| nd_mounts (dr_node d')" for n
    using own [of "usages ! 2" n] that by (simp add: usages_def)
  moreover have "ms_name m = key \<and> mount_ok m" if "mount_at d' vol key = Some m" for vol key m
    using inv that unfolding driver_inv_def by blast
  ultimately show ?thesis unfolding mount_ok_def by blast
qed


section \<open>Witness\<close>

definition sample_driver :: "unit Driver" where
  "sample_driver = \<lparr>dr_store = (), dr_node = sample_node,
     dr_volumes = fmupd ''v'' (new_state \<lparr>rc_Name = ''v'', rc_CreatedAt = 0, rc_Options = sample_options\<rparr>) fmempty\<rparr>"

lemma sample_driver_new: "New_driver reach_env (Inr ()) [Inr []] () sample_node = Inr sample_driver"
  by (simp add: New_driver_def bindR_def node_env_def sample_driver_def sample_options_def default_options_def)

theorem driver_uses_only_active_mounts_witness:
  "\<exists>d' m. Driver_Mount reach_env 0 WroteAll calm ''v'' ''c'' sample_driver = (d', Inr (mountpoint reach_env ''v'')) \<and>
     mount_at d' ''v'' ''v'' = Some m \<and> ms_active m \<and> ms_unmounter m \<noteq> None \<and> ms_fenced m = None"
proof -
  let ?m0 = "new_mount ''v'' :: unit mountState"
  obtain nd' y where f: "mountFresh reach_env calm sample_options ?m0 () sample_node =
     (?m0\<lparr>ms_active := True, ms_syncer := Some y, ms_unmounter := Some \<lparr>bm_closed = False\<rparr>, ms_stopBeat := True\<rparr>, (), nd', Inr ())"
    using reach_mounts by blast
  define m where "m = ?m0\<lparr>ms_active := True, ms_syncer := Some y, ms_unmounter := Some \<lparr>bm_closed = False\<rparr>, ms_stopBeat := True, ms_mountIDs := {|''c''|}\<rparr>"
  define d' where "d' = put_mount ''v'' m (sample_driver\<lparr>dr_store := (), dr_node := nd'\<rparr>)"
  have "\<not> PerReplica sample_options" by (simp add: sample_options_def default_options_def PerReplica_def)
  then have m0: "mountStateFor reach_env ''c'' (new_state \<lparr>rc_Name = ''v'', rc_CreatedAt = 0, rc_Options = sample_options\<rparr>) = ?m0"
    by (simp add: mountStateFor_def new_state_def)
  have "lookup_volume reach_env 0 WroteAll ''v'' sample_driver = (sample_driver, Inr (new_state \<lparr>rc_Name = ''v'', rc_CreatedAt = 0, rc_Options = sample_options\<rparr>))"
    by (simp add: lookup_volume_def sample_driver_def)
  then have mnt: "Driver_Mount reach_env 0 WroteAll calm ''v'' ''c'' sample_driver = (d', Inr (mountpoint reach_env ''v''))"
    using m0 f by (simp add: Driver_Mount_def Let_def d'_def m_def) (simp add: new_state_def sample_driver_def new_mount_def)
  have here: "mount_at d' ''v'' ''v'' = Some m"
    by (simp add: mount_at_def d'_def put_mount_def sample_driver_def m_def new_mount_def)
  have "(driver_step reach_env)\<^sup>*\<^sup>* sample_driver d'" using mounted [OF mnt] by (rule r_into_rtranclp)
  from driver_uses_only_active_mounts [OF sample_driver_new sample_unused this] here
  have "(ms_active m \<longleftrightarrow> ms_unmounter m \<noteq> None) \<and> (ms_fenced m \<noteq> None \<longrightarrow> \<not> ms_active m)" by blast
  then show ?thesis using mnt here by (auto simp: m_def)
qed

end
