(* ===== verification/Spec2Isabelle.thy ===== *)
theory Spec2Isabelle
  imports LeaseClaims LazyDevice HeadRace JournalClaims SyncerClaims GarbageClaims NbdRun Verify DriverSafety
begin

text \<open>
  Satchel gives containers block volumes whose data lives in an object store. This development models
  its Go code and proves what makes it correct.

  \<^bold>\<open>The program.\<close> A volume is mounted by the plugin driver (\<open>internal/plugin/driver.go\<close>). It takes a lease on
  the volume in the store (\<open>Acquire\<close> in \<open>internal/replica/remote.go\<close>), prepares a sparse image whose blocks are
  fetched on demand (\<open>lazy.go\<close>) and serves it to the kernel over the network block device protocol
  (\<open>internal/backend/block/nbd_linux.go\<close>, \<open>block_linux.go\<close>). Writes go to the image and are captured by block
  (\<open>device.go\<close>). A flush seals the captured blocks into a generation, which is appended to a local journal
  (\<open>journal.go\<close>) and queued for the replicator (\<open>syncer.go\<close>). The replicator merges what is queued, encodes it
  as segments (\<open>segment.go\<close>, \<open>extents.go\<close>) and publishes it under the lease: segments, a manifest, bundles of
  manifests, and at last the head of the volume, either by a conditional write or, on stores without them,
  by claiming the next version of an append-only head (\<open>head.go\<close>). Restores, point-in-time restores, garbage
  collection (\<open>remote.go\<close>) and verification (\<open>verify.go\<close>) walk that metadata.

  \<^bold>\<open>Theories and sources.\<close>
  \<^item> \<open>Prelude\<close> and \<open>Bytes\<close>: Go's integers (\<open>uint64\<close> as words that wrap, \<open>int64\<close> as \<open>int\<close>), errors as values of
    \<open>error + 'a\<close>, big-endian encoding, readers, and files whose reads and writes may fail.
  \<^item> \<open>Extents\<close>, \<open>Generation\<close>, \<open>Segment\<close>: \<open>extents.go\<close>, the generations of \<open>device.go\<close>, \<open>segment.go\<close>. The extent
    functions are the set operations they stand for; segments decode to what was encoded.
  \<^item> \<open>ObjectStore\<close>: \<open>store.go\<close>, \<open>memory.go\<close> and the probes of \<open>s3.go\<close>. The locale \<open>object_store\<close> is what the code relies
    on, interpreted on the in-memory store with calls that fail or whose answer is lost.
  \<^item> \<open>Manifest\<close>, \<open>Plan\<close>, \<open>Restore\<close>, \<open>History\<close>, \<open>HistoryRun\<close>, \<open>Garbage\<close>, \<open>GarbageRun\<close>, \<open>GarbageClaims\<close>, \<open>Verify\<close>: the metadata
    of \<open>remote.go\<close> and \<open>verify.go\<close>. The plan of a restore selects the newest version of every block, a restore
    writes it, a point in time restores what the volume was then, garbage collection never takes
    what a retained generation needs, and a verification without problems vouches for the data.
  \<^item> \<open>Head\<close>, \<open>AppendHead\<close>, \<open>HeadRace\<close>: \<open>head.go\<close>. The locales \<open>shared_store\<close> and \<open>volume_head\<close> are the contract of a head
    other clients write too; the race of claimants of the append-only head is an inductive step relation.
  \<^item> \<open>Lease\<close>, \<open>LeaseRun\<close>, \<open>Publishing\<close>, \<open>LeaseClaims\<close>: the leases of \<open>remote.go\<close>. \<open>head_step\<close> is the protocol of the head as
    an abstract specification, which every operation of a lease refines (locale \<open>lease_service\<close>).
  \<^item> \<open>LazyImage\<close>, \<open>Device\<close>, \<open>DeviceRun\<close>, \<open>LazyDevice\<close>: \<open>lazy.go\<close> and \<open>device.go\<close>. The device uses the lazy image through the
    locale \<open>hydrator_laws\<close>; over any run its content is the published image with the queued generations and
    the captured blocks on top.
  \<^item> \<open>Journal\<close>, \<open>JournalFile\<close>, \<open>JournalRun\<close>, \<open>JournalClaims\<close>: \<open>journal.go\<close>, with crashes between any two steps.
  \<^item> \<open>Syncer\<close>, \<open>SyncerRun\<close>, \<open>SyncerClaims\<close>: \<open>syncer.go\<close>, its callers and its worker interleaved.
  \<^item> \<open>Nbd\<close>, \<open>NbdRun\<close>: the server of \<open>nbd_linux.go\<close>, its loop and the goroutines of its barriers interleaved.
  \<^item> \<open>Options\<close>: \<open>plugin/options.go\<close> and \<open>units/bytes.go\<close>.
  \<^item> \<open>Driver\<close>, \<open>DriverRun\<close>, \<open>DriverClaims\<close>, \<open>DriverSafety\<close>: \<open>plugin/driver.go\<close> and \<open>block_linux.go\<close>. The driver is composed of the
    operations of the other theories: a mount opens and validates the journal, acquires the lease, prepares
    the lazy image, replays the journal on the device and starts the replicator. \<open>DriverClaims\<close> has what one
    mount and one unmount guarantee, \<open>DriverSafety\<close> an invariant over any sequence of operations, fences included.

  \<^bold>\<open>How state and effects are modelled.\<close> Structs are records, Go maps finite maps, nil pointers options. An
  operation that calls the store takes the store's state and returns it; a store is any implementation of
  the operations. JSON, gzip, SHA-256 and durations are parameters, with the laws that a theorem needs as
  hypotheses (for instance, that no second content with a recorded digest exists). The outcomes of system
  calls are arguments: functions for the file of a device, scripts for the steps of a mount. Code under a
  mutex is one step. Where a goroutine or a caller waits, the operation is split there, and the theories
  named \<open>Run\<close> interleave the parts freely.

  \<^bold>\<open>Bounds.\<close> The two walks over bundles are given \<open>2 ^ 64\<close> steps. The walk for a generation reads only bundles whose
  generation numbers decrease, so it ends before; the walk for the source of an inline segment follows
  digests, which have no cycle. Restores and histories stop with an error after the million manifests the
  code allows. Marking the allocated blocks is given as many steps as the image has bytes, and each
  step moves forward. The walk of the verification is a recursion with a measure.

  \<^bold>\<open>Not modelled.\<close> The S3 client (\<open>s3.go\<close> apart from its probes), which only translates the store interface to
  requests of a library; attaching and detaching the kernel's block device (ioctls and files of \<open>/sys\<close>); the
  commands of \<open>cmd/satchel\<close>, which parse flags and print; importing seeds (\<open>seed.go\<close>), which copies files of
  the host; metrics and logging. Timeouts and cancellation appear as outcomes, not as time.
\<close>

end
